(* ===== verification/Prelude.thy ===== *)
theory Prelude
  imports Main "HOL-Library.Word" "HOL-Library.Sublist"
begin

text \<open>
  Shared vocabulary of the development: the machine integer types of the Rust sources, fallible
  results with the \<open>?\<close> operator, big-endian byte conversion of words, bounded stream reads, and
  the two generic interfaces (a self-delimiting codec and a state machine with an invariant) that
  the component theories interpret on their own definitions.
\<close>

unbundle bit_operations_syntax

section \<open>Types of the model\<close>

type_synonym u8 = "8 word"
type_synonym u16 = "16 word"
type_synonym u32 = "32 word"
type_synonym u64 = "64 word"
type_synonym u128 = "128 word"
type_synonym bytes = "8 word list"

named_theorems codec_simps "decoding after encoding"
named_theorems text_eval "equations that evaluate the text parsers on closed input"

lemma unat_u8_less [simp]: "unat (b :: u8) < 256"
  by (rule order_less_le_trans [OF unsigned_less]) simp

lemma unat_u16_less [simp]: "unat (w :: u16) < 65536"
  by (rule order_less_le_trans [OF unsigned_less]) simp

lemma unat_u32_less [simp]: "unat (w :: u32) < 4294967296"
  by (rule order_less_le_trans [OF unsigned_less]) simp

lemma unat_not_ge [simp]:
  "\<not> 256 \<le> unat (b :: u8)" "\<not> 65536 \<le> unat (w :: u16)" "\<not> 4294967296 \<le> unat (v :: u32)"
  by (simp_all add: not_le)

lemma unat_of_nat_u8: "n < 256 \<Longrightarrow> unat (of_nat n :: u8) = n"
  and unat_of_nat_u16: "n < 65536 \<Longrightarrow> unat (of_nat n :: u16) = n"
  and unat_of_nat_u32: "n < 4294967296 \<Longrightarrow> unat (of_nat n :: u32) = n"
  and unat_of_nat_u64: "n < 18446744073709551616 \<Longrightarrow> unat (of_nat n :: u64) = n"
  by (simp_all add: unat_of_nat take_bit_eq_mod)

lemmas unat_of_nat_small = unat_of_nat_u8 unat_of_nat_u16 unat_of_nat_u32 unat_of_nat_u64

section \<open>Results and the question-mark operator\<close>

text \<open>
  A Rust \<open>Result<A, E>\<close> is \<open>'e + 'a\<close>, with \<open>Inl\<close> for the error. \<open>e?\<close> followed by more
  code is \<open>rbind e (\<lambda>x. \<dots>)\<close>: it stops at the first error and returns it.
\<close>

primrec rbind :: "'e + 'a \<Rightarrow> ('a \<Rightarrow> 'e + 'b) \<Rightarrow> 'e + 'b" where
  "rbind (Inl e) f = Inl e"
| "rbind (Inr x) f = f x"

definition ok_or :: "'a option \<Rightarrow> 'e \<Rightarrow> 'e + 'a" where
  "ok_or v e = (case v of None \<Rightarrow> Inl e | Some x \<Rightarrow> Inr x)"

definition is_ok :: "'e + 'a \<Rightarrow> bool" where
  "is_ok r = (case r of Inl _ \<Rightarrow> False | Inr _ \<Rightarrow> True)"

definition result_ok :: "'e + 'a \<Rightarrow> 'a option" where
  "result_ok r = (case r of Inl _ \<Rightarrow> None | Inr x \<Rightarrow> Some x)"

lemma rbind_eq_Inr [simp]: "rbind r f = Inr y \<longleftrightarrow> (\<exists>x. r = Inr x \<and> f x = Inr y)"
  by (cases r) auto

lemma rbind_eq_Inl: "rbind r f = Inl e \<longleftrightarrow> r = Inl e \<or> (\<exists>x. r = Inr x \<and> f x = Inl e)"
  by (cases r) auto

lemma rbind_split:
  "P (rbind r f) \<longleftrightarrow> (\<forall>e. r = Inl e \<longrightarrow> P (Inl e)) \<and> (\<forall>x. r = Inr x \<longrightarrow> P (f x))"
  by (cases r) auto

lemma rbind_assoc: "rbind (rbind r f) g = rbind r (\<lambda>x. rbind (f x) g)"
  by (cases r) auto

lemma rbind_cong [fundef_cong]:
  "r = r' \<Longrightarrow> (\<And>x. r' = Inr x \<Longrightarrow> f x = g x) \<Longrightarrow> rbind r f = rbind r' g"
  by (cases r') auto

lemma ok_or_simps [simp]: "ok_or None e = Inl e" "ok_or (Some x) e = Inr x"
  by (simp_all add: ok_or_def)

lemma ok_or_eq_Inr [simp]: "ok_or v e = Inr x \<longleftrightarrow> v = Some x"
  by (cases v) auto

lemma ok_or_eq_Inl [simp]: "ok_or v e = Inl e' \<longleftrightarrow> v = None \<and> e' = e"
  by (cases v) auto

lemma is_ok_simps [simp]: "is_ok (Inl e) = False" "is_ok (Inr x) = True"
  by (simp_all add: is_ok_def)

lemma result_ok_simps [simp]: "result_ok (Inl e) = None" "result_ok (Inr x) = Some x"
  by (simp_all add: result_ok_def)

lemma result_ok_eq_Some [simp]: "result_ok r = Some x \<longleftrightarrow> r = Inr x"
  by (cases r) auto

section \<open>Big-endian bytes of a word\<close>

text \<open>
  \<open>to_be_bytes\<close> and \<open>from_be_bytes\<close> of the integer types: \<open>be_bytes n w\<close> is the list of the
  \<open>n\<close> low bytes of \<open>w\<close>, most significant first; \<open>from_be\<close> shifts the bytes in from the left.
\<close>

primrec be_bytes :: "nat \<Rightarrow> 'a::len word \<Rightarrow> bytes" where
  "be_bytes 0 w = []"
| "be_bytes (Suc n) w = ucast (drop_bit (8 * n) w) # be_bytes n w"

definition from_be_acc :: "'a::len word \<Rightarrow> bytes \<Rightarrow> 'a word" where
  "from_be_acc acc bs = foldl (\<lambda>a b. push_bit 8 a OR ucast b) acc bs"

definition from_be :: "bytes \<Rightarrow> 'a::len word" where
  "from_be bs = from_be_acc 0 bs"

abbreviation be16 :: "u16 \<Rightarrow> bytes" where
  "be16 w \<equiv> be_bytes 2 w"

abbreviation be32 :: "u32 \<Rightarrow> bytes" where
  "be32 w \<equiv> be_bytes 4 w"

abbreviation be128 :: "u128 \<Rightarrow> bytes" where
  "be128 w \<equiv> be_bytes 16 w"

lemma length_be_bytes [simp]: "length (be_bytes n w) = n"
  by (induction n) auto

lemma be_bytes_eq_Nil [simp]: "be_bytes n w = [] \<longleftrightarrow> n = 0"
  by (cases n) auto

lemma from_be_acc_simps [simp]:
  "from_be_acc acc [] = acc"
  "from_be_acc acc (b # bs) = from_be_acc (push_bit 8 acc OR ucast b) bs"
  by (simp_all add: from_be_acc_def)

lemma be_bytes_numeral [text_eval]:
  "be_bytes (numeral k) w = ucast (drop_bit (8 * pred_numeral k) w) # be_bytes (pred_numeral k) w"
  by (simp add: numeral_eq_Suc)

lemma from_be_acc_be_bytes:
  fixes w :: "'a::len word"
  shows "from_be_acc (drop_bit (8 * n) w) (be_bytes n w) = w"
proof (induction n)
  case 0
  show ?case by simp
next
  case (Suc n)
  have "push_bit 8 (drop_bit (8 * Suc n) w) OR ucast (ucast (drop_bit (8 * n) w) :: u8)
    = drop_bit (8 * n) w"
    by (rule bit_word_eqI) (auto simp: bit_simps add.commute add.left_commute)
  then show ?case using Suc.IH by simp
qed

lemma from_be_be_bytes:
  fixes w :: "'a::len word"
  assumes "LENGTH('a) \<le> 8 * n"
  shows "from_be (be_bytes n w) = w"
proof -
  have "drop_bit (8 * n) w = 0"
    using assms by (auto intro!: bit_word_eqI simp: bit_simps dest: bit_imp_le_length)
  then show ?thesis
    using from_be_acc_be_bytes [of n w] by (simp add: from_be_def)
qed

lemma from_be_be16 [simp]: "from_be (be16 w) = w"
  by (rule from_be_be_bytes) simp

lemma from_be_be32 [simp]: "from_be (be32 w) = w"
  by (rule from_be_be_bytes) simp

lemma from_be_be64 [simp]: "from_be (be_bytes 8 w) = (w :: u64)"
  by (rule from_be_be_bytes) simp

lemma from_be_be128 [simp]: "from_be (be128 w) = w"
  by (rule from_be_be_bytes) simp

lemma be_bytes_from_be_acc:
  fixes acc :: "'a::len word"
  assumes "8 * length bs \<le> LENGTH('a)"
  shows "be_bytes (length bs) (from_be_acc acc bs) = bs
    \<and> drop_bit (8 * length bs) (from_be_acc acc bs) = take_bit (LENGTH('a) - 8 * length bs) acc"
  using assms
proof (induction bs arbitrary: acc)
  case Nil
  show ?case by (simp add: take_bit_length_eq)
next
  case (Cons b bs)
  let ?acc = "push_bit 8 acc OR ucast b :: 'a word"
  let ?w = "from_be_acc ?acc bs"
  let ?n = "8 * length bs"
  have IH: "be_bytes (length bs) ?w = bs" "drop_bit ?n ?w = take_bit (LENGTH('a) - ?n) ?acc"
    using Cons by simp_all
  have len: "8 \<le> LENGTH('a) - ?n" using Cons.prems by simp
  have "ucast (drop_bit ?n ?w) = b"
    unfolding IH using len by (auto intro!: bit_word_eqI simp: bit_simps)
  moreover have "drop_bit 8 (take_bit (LENGTH('a) - ?n) ?acc) = take_bit (LENGTH('a) - (8 + ?n)) acc"
    by (rule bit_word_eqI)
      (auto simp: bit_simps less_diff_conv add.commute add.left_commute dest: bit_imp_le_length)
  then have "drop_bit (8 + ?n) ?w = take_bit (LENGTH('a) - (8 + ?n)) acc"
    using IH(2) by (simp add: add.commute flip: drop_bit_drop_bit)
  ultimately show ?case using IH by simp
qed

lemma be_bytes_from_be:
  assumes "8 * length bs \<le> LENGTH('a::len)"
  shows "be_bytes (length bs) (from_be bs :: 'a word) = bs"
  using be_bytes_from_be_acc [OF assms, of 0] by (simp add: from_be_def)

section \<open>Lists\<close>

lemma replicate_numeral_eq [text_eval]:
  "replicate (numeral k) x = x # replicate (pred_numeral k) x"
  by (simp add: numeral_eq_Suc)

lemma foldl_invariant:
  assumes "P s" and "\<And>s x. P s \<Longrightarrow> P (f s x)"
  shows "P (foldl f s xs)"
  using assms(1) by (induction xs arbitrary: s) (auto intro: assms(2))

section \<open>Input and output errors, reads from a byte stream\<close>

text \<open>
  \<open>std::io::Error\<close> by its kind; the message is a short ASCII tag for the source's text. A reader
  (\<open>AsyncRead\<close> fed by the peer, then closed) is the list of the bytes that are still to come, so
  \<open>read_exact\<close> past the end is the error \<open>UnexpectedEof\<close>. \<open>Panic\<close> is not an \<open>io::Error\<close>: it is the
  outcome of indexing or slicing a buffer out of its bounds, which aborts the task; the decoders of
  untrusted datagrams are shown never to reach it.
\<close>

datatype io_error =
  UnexpectedEof | InvalidData string | InvalidInput string | PermissionDenied string | ConnectionAborted string
  | IoOther string | Panic

definition read_exact :: "nat \<Rightarrow> bytes \<Rightarrow> io_error + (bytes \<times> bytes)" where
  "read_exact n r = (if n \<le> length r then Inr (take n r, drop n r) else Inl UnexpectedEof)"

definition read_u8 :: "bytes \<Rightarrow> io_error + (u8 \<times> bytes)" where
  "read_u8 r = (case r of [] \<Rightarrow> Inl UnexpectedEof | b # r' \<Rightarrow> Inr (b, r'))"

definition read_u16 :: "bytes \<Rightarrow> io_error + (u16 \<times> bytes)" where
  "read_u16 r = rbind (read_exact 2 r) (\<lambda>(b, r'). Inr (from_be b, r'))"

definition index :: "bytes \<Rightarrow> nat \<Rightarrow> io_error + u8" where
  "index buf i = (if i < length buf then Inr (buf ! i) else Inl Panic)"

definition slice :: "bytes \<Rightarrow> nat \<Rightarrow> nat \<Rightarrow> io_error + bytes" where
  "slice buf a b = (if a \<le> b \<and> b \<le> length buf then Inr (take (b - a) (drop a buf)) else Inl Panic)"

definition index_u16 :: "bytes \<Rightarrow> nat \<Rightarrow> io_error + u16" where
  "index_u16 buf i =
     rbind (index buf i) (\<lambda>hi. rbind (index buf (i + 1)) (\<lambda>lo. Inr (from_be [hi, lo])))"

lemma index_in [simp]: "i < length buf \<Longrightarrow> index buf i = Inr (buf ! i)"
  by (simp add: index_def)

lemma slice_in [simp]: "a \<le> b \<Longrightarrow> b \<le> length buf \<Longrightarrow> slice buf a b = Inr (take (b - a) (drop a buf))"
  by (simp add: slice_def)

lemma index_u16_in [simp]: "i + 1 < length buf \<Longrightarrow> index_u16 buf i = Inr (from_be [buf ! i, buf ! (i + 1)])"
  by (simp add: index_u16_def)

lemma be16_pair: "be16 w = [ucast (drop_bit 8 w), ucast w]"
  by (simp add: numeral_2_eq_2)

lemma from_be_pair [simp]: "from_be [ucast (drop_bit 8 w), ucast w] = (w :: u16)"
  using from_be_be16 [of w] by (simp only: be16_pair)

lemma index_append [simp]: "index (pre @ b # r) (length pre) = Inr b"
  by (simp add: index_def)

lemma slice_append [simp]: "e = length pre + length x \<Longrightarrow> slice (pre @ x @ r) (length pre) e = Inr x"
  by (simp add: slice_def)

lemma index_u16_append [simp]: "index_u16 (pre @ be16 w @ r) (length pre) = Inr w"
  by (simp add: index_u16_def index_def be16_pair nth_append)

lemma read_exact_append [simp]: "n = length xs \<Longrightarrow> read_exact n (xs @ ys) = Inr (xs, ys)"
  by (simp add: read_exact_def)

lemma read_u8_Cons [simp]: "read_u8 (b # r) = Inr (b, r)"
  by (simp add: read_u8_def)

lemma read_u8_Nil [simp]: "read_u8 [] = Inl UnexpectedEof"
  by (simp add: read_u8_def)

lemma read_u16_be16 [simp]: "read_u16 (be16 w @ r) = Inr (w, r)"
  by (simp add: read_u16_def)

lemma read_exact_length:
  "read_exact n r = Inr (x, r') \<Longrightarrow> length x = n \<and> r = x @ r'"
  by (auto simp: read_exact_def split: if_splits)

section \<open>Self-delimiting codecs\<close>

text \<open>
  A wire format whose decoder, given an encoded value followed by anything, returns the value and
  exactly what followed. Everything the protocols rely on follows: the encoder is injective, no
  encoded value is a proper prefix of another, and a concatenation of frames decodes frame by
  frame.
\<close>

primrec decode_n :: "(bytes \<Rightarrow> ('a \<times> bytes) option) \<Rightarrow> nat \<Rightarrow> bytes \<Rightarrow> ('a list \<times> bytes) option" where
  "decode_n d 0 bs = Some ([], bs)"
| "decode_n d (Suc n) bs =
     (case d bs of None \<Rightarrow> None
      | Some (x, bs') \<Rightarrow> map_option (\<lambda>(xs, r). (x # xs, r)) (decode_n d n bs'))"

locale codec =
  fixes enc :: "'a \<Rightarrow> bytes"
    and dec :: "bytes \<Rightarrow> ('a \<times> bytes) option"
    and valid :: "'a \<Rightarrow> bool"
  assumes dec_enc: "valid x \<Longrightarrow> dec (enc x @ rest) = Some (x, rest)"
begin

lemma unique_decode:
  assumes "valid x" and "valid y" and "enc x @ r = enc y @ s"
  shows "x = y \<and> r = s"
proof -
  have "Some (x, r) = dec (enc y @ s)"
    unfolding assms(3) [symmetric] by (rule dec_enc [OF assms(1), symmetric])
  also have "\<dots> = Some (y, s)" by (rule dec_enc [OF assms(2)])
  finally show ?thesis by simp
qed

lemma enc_inj: "valid x \<Longrightarrow> valid y \<Longrightarrow> enc x = enc y \<Longrightarrow> x = y"
  using unique_decode [of x y "[]" "[]"] by simp

lemma prefix_free: "valid x \<Longrightarrow> valid y \<Longrightarrow> prefix (enc x) (enc y) \<Longrightarrow> x = y"
  by (metis append_Nil2 prefixE unique_decode)

lemma decode_frames:
  "\<forall>x \<in> set xs. valid x \<Longrightarrow> decode_n dec (length xs) (concat (map enc xs) @ rest) = Some (xs, rest)"
  by (induction xs) (auto simp: dec_enc)

end

section \<open>State machines with an invariant\<close>

locale invariant_machine =
  fixes step :: "'s \<Rightarrow> 'e \<Rightarrow> 's"
    and inv :: "'s \<Rightarrow> bool"
  assumes step_inv: "inv s \<Longrightarrow> inv (step s e)"
begin

lemma run_inv: "inv s \<Longrightarrow> inv (foldl step s es)"
  by (rule foldl_invariant) (auto intro: step_inv)

end

section \<open>Ordered rule lists\<close>

text \<open>
  First match wins, otherwise the default: the contract of the routing rules and of the priority
  ladder of split tunnelling.
\<close>

locale first_match =
  fixes matches :: "'r \<Rightarrow> 'q \<Rightarrow> bool"
    and act :: "'r \<Rightarrow> 'a"
    and eval :: "'r list \<Rightarrow> 'q \<Rightarrow> 'a \<Rightarrow> 'a"
  assumes eval_Nil: "eval [] q d = d"
    and eval_Cons: "eval (r # rs) q d = (if matches r q then act r else eval rs q d)"
begin

lemma eval_append: "eval (rs @ ss) q d = eval rs q (eval ss q d)"
  by (induction rs) (simp_all add: eval_Nil eval_Cons)

lemma eval_no_match: "\<forall>r \<in> set rs. \<not> matches r q \<Longrightarrow> eval rs q d = d"
  by (induction rs) (simp_all add: eval_Nil eval_Cons)

lemma eval_decided:
  assumes "\<forall>r \<in> set before. \<not> matches r q" and "matches r q"
  shows "eval (before @ r # rest) q d = act r"
  using assms(2) by (simp add: eval_append eval_Cons eval_no_match [OF assms(1)])

lemma eval_find:
  "eval rs q d = (case find (\<lambda>r. matches r q) rs of None \<Rightarrow> d | Some r \<Rightarrow> act r)"
  by (induction rs) (simp_all add: eval_Nil eval_Cons)

lemma eval_cases:
  obtains (default) "\<forall>r \<in> set rs. \<not> matches r q" and "eval rs q d = d"
  | (rule) before r rest where "rs = before @ r # rest" and "\<forall>x \<in> set before. \<not> matches x q"
      and "matches r q" and "eval rs q d = act r"
proof (cases "\<exists>r \<in> set rs. matches r q")
  case True
  from split_list_first_prop [OF this] obtain before r rest
    where split: "rs = before @ r # rest" and m: "matches r q"
      and pre: "\<forall>x \<in> set before. \<not> matches x q"
    by blast
  show ?thesis
    by (rule rule [OF split pre m]) (simp only: split eval_decided [OF pre m])
next
  case False
  then have none: "\<forall>r \<in> set rs. \<not> matches r q" by blast
  show ?thesis by (rule default [OF none eval_no_match [OF none]])
qed

lemma eval_filter: "eval (filter (\<lambda>r. matches r q) rs) q d = eval rs q d"
  by (induction rs) (simp_all add: eval_Nil eval_Cons)

lemma eval_shadowed:
  assumes "matches r q"
  shows "eval (before @ r # rest) q d = eval (before @ [r]) q d'"
  using assms by (simp add: eval_append eval_Cons)

lemma eval_swap:
  assumes "\<not> (matches r q \<and> matches s q)"
  shows "eval (before @ r # s # rest) q d = eval (before @ s # r # rest) q d"
  using assms by (simp add: eval_append eval_Cons)

lemma eval_remove: "\<not> matches r q \<Longrightarrow> eval (before @ r # rest) q d = eval (before @ rest) q d"
  by (simp add: eval_append eval_Cons)

end

end
