(* ===== verification/RustStr.thy ===== *)
theory RustStr
  imports Prelude
begin

text \<open>
  The part of Rust's \<open>str\<close>, \<open>String\<close> and integer-parsing library that the sources use. A Rust
  string is modelled by its UTF-8 bytes: \<open>string\<close> is a list of 8-bit characters, so \<open>len()\<close> is
  \<open>length\<close> and slicing at an ASCII separator is list surgery. \<open>str_bytes\<close> and \<open>bytes_str\<close> move
  between strings and byte buffers, \<open>from_utf8\<close> and \<open>from_utf8_lossy\<close> follow the standard
  library's chunking of malformed input.
\<close>

section \<open>Strings and bytes\<close>

definition str_bytes :: "string \<Rightarrow> bytes" where
  "str_bytes s = map of_char s"

definition bytes_str :: "bytes \<Rightarrow> string" where
  "bytes_str bs = map (\<lambda>b. char_of (unat b)) bs"

section \<open>Searching and splitting\<close>

definition split_once :: "char \<Rightarrow> string \<Rightarrow> (string \<times> string) option" where
  "split_once c s =
     (case dropWhile (\<lambda>x. x \<noteq> c) s of [] \<Rightarrow> None | _ # r \<Rightarrow> Some (takeWhile (\<lambda>x. x \<noteq> c) s, r))"

definition rsplit_once :: "char \<Rightarrow> string \<Rightarrow> (string \<times> string) option" where
  "rsplit_once c s =
     map_option (\<lambda>(post, pre). (rev pre, rev post)) (split_once c (rev s))"

fun split_on :: "char \<Rightarrow> string \<Rightarrow> string list" where
  "split_on c [] = [[]]"
| "split_on c (x # xs) =
     (if x = c then [] # split_on c xs
      else (case split_on c xs of [] \<Rightarrow> [[x]] | y # ys \<Rightarrow> (x # y) # ys))"

fun find_str :: "string \<Rightarrow> string \<Rightarrow> nat option" where
  "find_str pat [] = (if pat = [] then Some 0 else None)"
| "find_str pat (x # xs) =
     (if prefix pat (x # xs) then Some 0 else map_option Suc (find_str pat xs))"

definition strip_prefix :: "string \<Rightarrow> string \<Rightarrow> string option" where
  "strip_prefix p s = (if prefix p s then Some (drop (length p) s) else None)"

definition strip_suffix :: "string \<Rightarrow> string \<Rightarrow> string option" where
  "strip_suffix p s = (if suffix p s then Some (take (length s - length p) s) else None)"

definition trim_end_matches :: "char \<Rightarrow> string \<Rightarrow> string" where
  "trim_end_matches c s = rev (dropWhile (\<lambda>x. x = c) (rev s))"

definition trim_start_matches :: "char \<Rightarrow> string \<Rightarrow> string" where
  "trim_start_matches c s = dropWhile (\<lambda>x. x = c) s"

definition newline :: char where "newline = char_of (10 :: nat)"

definition carriage_return :: char where "carriage_return = char_of (13 :: nat)"

definition strip_cr :: "string \<Rightarrow> string" where
  "strip_cr l = (case strip_suffix [carriage_return] l of None \<Rightarrow> l | Some l' \<Rightarrow> l')"

text \<open>\<open>lines\<close>: the pieces between newlines, a carriage return before the newline dropped, and no
  last piece when the text ends in a newline.\<close>

definition str_lines :: "string \<Rightarrow> string list" where
  "str_lines s =
     (let ls = split_on newline s
      in map strip_cr (butlast ls) @ (if last ls = [] then [] else [last ls]))"

section \<open>ASCII case\<close>

definition lower_char :: "char \<Rightarrow> char" where
  "lower_char c =
     (let n = (of_char c :: nat) in if 65 \<le> n \<and> n \<le> 90 then char_of (n + 32) else c)"

definition to_ascii_lowercase :: "string \<Rightarrow> string" where
  "to_ascii_lowercase s = map lower_char s"

definition eq_ignore_ascii_case :: "string \<Rightarrow> string \<Rightarrow> bool" where
  "eq_ignore_ascii_case a b \<longleftrightarrow> to_ascii_lowercase a = to_ascii_lowercase b"

section \<open>Trimming white space\<close>

text \<open>The UTF-8 encodings of the characters with the Unicode property \<open>White_Space\<close>.\<close>

definition white_space :: "string list" where
  "white_space = map (map (char_of :: nat \<Rightarrow> char))
     ([[9], [10], [11], [12], [13], [32], [194, 133], [194, 160], [225, 154, 128]]
      @ map (\<lambda>k. [226, 128, k]) ([128..<139] @ [168, 169, 175])
      @ [[226, 129, 159], [227, 128, 128]])"

definition ws_prefix :: "string \<Rightarrow> string option" where
  "ws_prefix s = find (\<lambda>w. prefix w s) white_space"

definition ws_suffix :: "string \<Rightarrow> string option" where
  "ws_suffix s = find (\<lambda>w. suffix w s) white_space"

lemma white_space_nonempty: "w \<in> set white_space \<Longrightarrow> w \<noteq> []"
  by (auto simp: white_space_def)

lemma ws_prefix_SomeD: "ws_prefix s = Some w \<Longrightarrow> w \<noteq> [] \<and> prefix w s"
  by (auto simp: ws_prefix_def find_Some_iff dest!: white_space_nonempty [OF nth_mem])

lemma ws_suffix_SomeD: "ws_suffix s = Some w \<Longrightarrow> w \<noteq> [] \<and> suffix w s"
  by (auto simp: ws_suffix_def find_Some_iff dest!: white_space_nonempty [OF nth_mem])

function trim_start :: "string \<Rightarrow> string" where
  "trim_start s = (case ws_prefix s of None \<Rightarrow> s | Some w \<Rightarrow> trim_start (drop (length w) s))"
  by pat_completeness auto
termination
  by (relation "measure length") (auto dest!: ws_prefix_SomeD simp: prefix_def)

function trim_end :: "string \<Rightarrow> string" where
  "trim_end s =
     (case ws_suffix s of None \<Rightarrow> s | Some w \<Rightarrow> trim_end (take (length s - length w) s))"
  by pat_completeness auto
termination
  by (relation "measure length") (auto dest!: ws_suffix_SomeD simp: suffix_def)

declare trim_start.simps [simp del] trim_end.simps [simp del]

definition trim :: "string \<Rightarrow> string" where
  "trim s = trim_end (trim_start s)"

section \<open>Unsigned integers\<close>

definition digit_val :: "char \<Rightarrow> nat option" where
  "digit_val c = (let n = (of_char c :: nat) in if 48 \<le> n \<and> n \<le> 57 then Some (n - 48) else None)"

definition hex_digit_val :: "char \<Rightarrow> nat option" where
  "hex_digit_val c =
     (let n = (of_char c :: nat)
      in if 48 \<le> n \<and> n \<le> 57 then Some (n - 48)
         else if 97 \<le> n \<and> n \<le> 102 then Some (n - 87)
         else if 65 \<le> n \<and> n \<le> 70 then Some (n - 55) else None)"

fun dec_value :: "nat \<Rightarrow> string \<Rightarrow> nat option" where
  "dec_value acc [] = Some acc"
| "dec_value acc (c # cs) =
     (case digit_val c of None \<Rightarrow> None | Some d \<Rightarrow> dec_value (acc * 10 + d) cs)"

text \<open>
  \<open>str::parse::<uN>\<close>: one optional plus sign, then at least one decimal digit and nothing else;
  a value of \<open>2 ^ N\<close> or more is an error. \<open>parse_uint m\<close> takes the bound \<open>m = 2 ^ N\<close>.
\<close>

definition parse_uint :: "nat \<Rightarrow> string \<Rightarrow> nat option" where
  "parse_uint m s =
     (let ds = (case s of [] \<Rightarrow> [] | c # cs \<Rightarrow> if c = CHR ''+'' then cs else s)
      in if ds = [] then None
         else (case dec_value 0 ds of None \<Rightarrow> None | Some n \<Rightarrow> if n < m then Some n else None))"

definition parse_u8 :: "string \<Rightarrow> u8 option" where
  "parse_u8 s = map_option of_nat (parse_uint (2 ^ 8) s)"

definition parse_u16 :: "string \<Rightarrow> u16 option" where
  "parse_u16 s = map_option of_nat (parse_uint (2 ^ 16) s)"

fun show_nat :: "nat \<Rightarrow> string" where
  "show_nat n = (if n < 10 then [char_of (48 + n)] else show_nat (n div 10) @ [char_of (48 + n mod 10)])"

declare show_nat.simps [simp del]

section \<open>UTF-8\<close>

text \<open>
  The step of the standard library's decoder at a non-empty input: how many bytes the next unit
  takes and whether it is a well-formed character. A malformed unit is the longest prefix that
  could have started a character, or one byte.
\<close>

definition in_range :: "nat \<Rightarrow> nat \<Rightarrow> nat \<Rightarrow> bool" where
  "in_range lo hi n \<longleftrightarrow> lo \<le> n \<and> n \<le> hi"

definition safe_get :: "bytes \<Rightarrow> nat \<Rightarrow> nat" where
  "safe_get bs i = (if i < length bs then unat (bs ! i) else 0)"

definition utf8_second_ok :: "nat \<Rightarrow> nat \<Rightarrow> bool" where
  "utf8_second_ok b0 b1 =
     (if b0 = 224 then in_range 160 191 b1
      else if b0 = 237 then in_range 128 159 b1
      else if b0 = 240 then in_range 144 191 b1
      else if b0 = 244 then in_range 128 143 b1
      else in_range 128 191 b1)"

definition utf8_unit :: "bytes \<Rightarrow> nat \<times> bool" where
  "utf8_unit bs =
     (let b0 = safe_get bs 0; b1 = safe_get bs 1; b2 = safe_get bs 2; b3 = safe_get bs 3
      in if b0 < 128 then (1, True)
         else if in_range 194 223 b0 then
           (if utf8_second_ok b0 b1 then (2, True) else (1, False))
         else if in_range 224 239 b0 then
           (if \<not> utf8_second_ok b0 b1 then (1, False)
            else if \<not> in_range 128 191 b2 then (2, False) else (3, True))
         else if in_range 240 244 b0 then
           (if \<not> utf8_second_ok b0 b1 then (1, False)
            else if \<not> in_range 128 191 b2 then (2, False)
            else if \<not> in_range 128 191 b3 then (3, False) else (4, True))
         else (1, False))"

definition replacement :: bytes where
  "replacement = [239, 191, 189]"

lemma utf8_unit_pos: "0 < fst (utf8_unit bs)"
  by (simp add: utf8_unit_def Let_def)

function utf8_valid :: "bytes \<Rightarrow> bool" where
  "utf8_valid bs =
     (if bs = [] then True
      else snd (utf8_unit bs) \<and> utf8_valid (drop (fst (utf8_unit bs)) bs))"
  by pat_completeness auto
termination
  by (relation "measure length") (auto simp: utf8_unit_pos)

function utf8_lossy :: "bytes \<Rightarrow> bytes" where
  "utf8_lossy bs =
     (if bs = [] then []
      else (if snd (utf8_unit bs) then take (fst (utf8_unit bs)) bs else replacement)
           @ utf8_lossy (drop (fst (utf8_unit bs)) bs))"
  by pat_completeness auto
termination
  by (relation "measure length") (auto simp: utf8_unit_pos)

declare utf8_valid.simps [simp del] utf8_lossy.simps [simp del]

definition from_utf8 :: "bytes \<Rightarrow> string option" where
  "from_utf8 bs = (if utf8_valid bs then Some (bytes_str bs) else None)"

definition from_utf8_lossy :: "bytes \<Rightarrow> string" where
  "from_utf8_lossy bs = bytes_str (utf8_lossy bs)"

definition is_str :: "string \<Rightarrow> bool" where
  "is_str s \<longleftrightarrow> utf8_valid (str_bytes s)"

section \<open>Facts\<close>

lemmas str_eval [text_eval] =
  split_once_def rsplit_once_def strip_prefix_def strip_suffix_def trim_end_matches_def
  trim_start_matches_def lower_char_def to_ascii_lowercase_def digit_val_def hex_digit_val_def
  parse_uint_def parse_u8_def parse_u16_def Let_def

lemma unat_of_char [simp]: "unat (of_char c :: u8) = of_char c"
proof -
  have "unat (of_nat (of_char c) :: u8) = of_char c"
    unfolding unat_of_nat by (simp add: take_bit_eq_mod nat_of_char_less_256)
  then show ?thesis by (simp only: of_nat_of_char)
qed

lemma bytes_str_str_bytes [simp]: "bytes_str (str_bytes s) = s"
  by (induction s) (auto simp: bytes_str_def str_bytes_def)

lemma str_bytes_bytes_str [simp]: "str_bytes (bytes_str bs) = bs"
proof -
  have "of_char (char_of (unat b)) = b" for b :: u8
  proof -
    have "unat (of_char (char_of (unat b)) :: u8) = unat b"
      by (simp add: of_char_of)
    then show ?thesis by (rule word_unat_eq_iff [THEN iffD2])
  qed
  then show ?thesis by (induction bs) (auto simp: bytes_str_def str_bytes_def)
qed

lemma length_str_bytes [simp]: "length (str_bytes s) = length s"
  by (simp add: str_bytes_def)

lemma str_bytes_append [simp]: "str_bytes (s @ t) = str_bytes s @ str_bytes t"
  by (simp add: str_bytes_def)

lemma str_bytes_eq_Nil [simp]: "str_bytes s = [] \<longleftrightarrow> s = []"
  by (simp add: str_bytes_def)

lemma str_bytes_inj: "str_bytes s = str_bytes t \<longleftrightarrow> s = t"
  by (metis bytes_str_str_bytes)

lemma split_once_append:
  assumes "c \<notin> set a"
  shows "split_once c (a @ c # b) = Some (a, b)"
proof -
  have "takeWhile (\<lambda>x. x \<noteq> c) (a @ c # b) = a" "dropWhile (\<lambda>x. x \<noteq> c) (a @ c # b) = c # b"
    using assms by (induction a) auto
  then show ?thesis by (simp add: split_once_def)
qed

lemma split_once_None: "split_once c s = None \<longleftrightarrow> c \<notin> set s"
proof -
  have "split_once c s = None \<longleftrightarrow> dropWhile (\<lambda>x. x \<noteq> c) s = []"
    by (auto simp: split_once_def simp del: dropWhile_eq_Nil_conv split: list.split_asm)
  then show ?thesis by (auto simp: dropWhile_eq_Nil_conv)
qed

lemma split_once_SomeD: "split_once c s = Some (a, b) \<Longrightarrow> s = a @ c # b \<and> c \<notin> set a"
proof (induction s arbitrary: a)
  case Nil
  then show ?case by (simp add: split_once_def)
next
  case (Cons x s)
  then show ?case
    by (cases "x = c"; cases a) (auto simp: split_once_def split: list.splits)
qed

lemma split_once_iff: "split_once c s = Some (a, b) \<longleftrightarrow> s = a @ c # b \<and> c \<notin> set a"
  using split_once_SomeD split_once_append by blast

lemma rsplit_once_append: "c \<notin> set b \<Longrightarrow> rsplit_once c (a @ c # b) = Some (a, b)"
  using split_once_append [of c "rev b" "rev a"] by (simp add: rsplit_once_def)

lemma rsplit_once_None: "rsplit_once c s = None \<longleftrightarrow> c \<notin> set s"
  by (simp add: rsplit_once_def split_once_None)

lemma rsplit_once_iff: "rsplit_once c s = Some (a, b) \<longleftrightarrow> s = a @ c # b \<and> c \<notin> set b"
proof
  assume "rsplit_once c s = Some (a, b)"
  then have "rev s = rev b @ c # rev a" "c \<notin> set (rev b)"
    by (auto simp: rsplit_once_def dest!: split_once_SomeD)
  then show "s = a @ c # b \<and> c \<notin> set b"
    by (metis append.assoc append_Cons append_Nil rev.simps(2) rev_append rev_rev_ident set_rev)
qed (auto simp: rsplit_once_append)

lemma split_on_notin: "c \<notin> set s \<Longrightarrow> split_on c s = [s]"
  by (induction s) auto

lemma split_on_neq_Nil [simp]: "split_on c s \<noteq> []"
  by (cases s) (auto split: list.splits)

lemma split_on_append:
  "c \<notin> set a \<Longrightarrow> split_on c (a @ c # b) = a # split_on c b"
  by (induction a) auto

lemma split_on_no_sep: "p \<in> set (split_on c s) \<Longrightarrow> c \<notin> set p"
proof (induction s arbitrary: p)
  case (Cons x s)
  then show ?case by (cases "split_on c s") (auto split: if_splits)
qed simp

lemma find_str_SomeD:
  "find_str pat s = Some i \<Longrightarrow> i + length pat \<le> length s \<and> take (length pat) (drop i s) = pat"
proof (induction s arbitrary: i)
  case Nil
  then show ?case by (simp split: if_splits)
next
  case (Cons x s)
  show ?case
  proof (cases "prefix pat (x # s)")
    case True
    then obtain zs where "x # s = pat @ zs" by (auto simp: prefix_def)
    moreover from this have "Suc (length s) = length pat + length zs"
      by (metis length_Cons length_append)
    moreover have "i = 0" using True Cons.prems by simp
    ultimately show ?thesis by simp
  next
    case False
    with Cons.prems obtain j where "find_str pat s = Some j" "i = Suc j" by auto
    with Cons.IH [of j] show ?thesis by simp
  qed
qed

lemma find_str_contains: "find_str pat s \<noteq> None \<longleftrightarrow> sublist pat s"
proof (induction s)
  case (Cons x s)
  then show ?case by (auto simp: sublist_Cons_right)
qed simp

lemma find_str_first:
  "find_str pat s = Some i \<Longrightarrow> j < i \<Longrightarrow> \<not> prefix pat (drop j s)"
proof (induction s arbitrary: i j)
  case Nil
  then show ?case by (simp split: if_splits)
next
  case (Cons x s)
  then show ?case by (cases j) (auto split: if_splits)
qed

lemma to_ascii_lowercase_append [simp]:
  "to_ascii_lowercase (a @ b) = to_ascii_lowercase a @ to_ascii_lowercase b"
  by (simp add: to_ascii_lowercase_def)

lemma length_to_ascii_lowercase [simp]: "length (to_ascii_lowercase s) = length s"
  by (simp add: to_ascii_lowercase_def)

lemma lower_char_idem [simp]: "lower_char (lower_char c) = lower_char c"
  by (auto simp: lower_char_def Let_def of_char_of)

lemma to_ascii_lowercase_idem [simp]:
  "to_ascii_lowercase (to_ascii_lowercase s) = to_ascii_lowercase s"
  by (simp add: to_ascii_lowercase_def)

lemma eq_ignore_ascii_case_refl [simp]: "eq_ignore_ascii_case s s"
  by (simp add: eq_ignore_ascii_case_def)

lemma eq_ignore_ascii_case_sym: "eq_ignore_ascii_case a b \<longleftrightarrow> eq_ignore_ascii_case b a"
  by (auto simp: eq_ignore_ascii_case_def)

lemma eq_ignore_ascii_case_trans:
  "eq_ignore_ascii_case a b \<Longrightarrow> eq_ignore_ascii_case b c \<Longrightarrow> eq_ignore_ascii_case a c"
  by (simp add: eq_ignore_ascii_case_def)

subsection \<open>Printing and parsing numbers\<close>

lemma digit_val_char [simp]: "d < 10 \<Longrightarrow> digit_val (char_of (48 + d)) = Some d"
  by (simp add: digit_val_def of_char_of)

lemma dec_value_append:
  "dec_value acc (a @ b) = (case dec_value acc a of None \<Rightarrow> None | Some n \<Rightarrow> dec_value n b)"
  by (induction a arbitrary: acc) (auto split: option.splits)

lemma dec_value_show_nat: "dec_value 0 (show_nat n) = Some n"
proof (induction n rule: show_nat.induct)
  case (1 n)
  show ?case
  proof (cases "n < 10")
    case True
    then show ?thesis by (simp add: show_nat.simps)
  next
    case False
    then show ?thesis using 1 by (simp add: show_nat.simps [of n] dec_value_append)
  qed
qed

lemma show_nat_digits: "c \<in> set (show_nat n) \<Longrightarrow> 48 \<le> (of_char c :: nat) \<and> (of_char c :: nat) \<le> 57"
proof (induction n rule: show_nat.induct)
  case (1 n)
  then show ?case
    by (cases "n < 10") (auto simp: show_nat.simps [of n] of_char_of)
qed

lemma show_nat_neq_Nil [simp]: "show_nat n \<noteq> []"
  by (subst show_nat.simps) simp

lemma show_nat_no_sep: "\<not> (48 \<le> (of_char c :: nat) \<and> (of_char c :: nat) \<le> 57) \<Longrightarrow> c \<notin> set (show_nat n)"
  using show_nat_digits by blast

lemma parse_uint_show_nat: "n < m \<Longrightarrow> parse_uint m (show_nat n) = Some n"
proof -
  assume "n < m"
  obtain c cs where c: "show_nat n = c # cs" by (cases "show_nat n") auto
  have "c \<noteq> CHR ''+''" using show_nat_digits [of c n] c by auto
  then show ?thesis
    using \<open>n < m\<close> c dec_value_show_nat [of n] by (simp add: parse_uint_def)
qed

lemma parse_uint_bound: "parse_uint m s = Some n \<Longrightarrow> n < m"
  by (auto simp: parse_uint_def Let_def split: if_splits option.splits list.splits)

lemma parse_u16_show: "parse_u16 (show_nat (unat (p :: u16))) = Some p"
  by (simp add: parse_u16_def parse_uint_show_nat)

lemma parse_u8_show: "parse_u8 (show_nat (unat (p :: u8))) = Some p"
  by (simp add: parse_u8_def parse_uint_show_nat)

subsection \<open>UTF-8\<close>

lemma utf8_second_okD: "utf8_second_ok b0 b1 \<Longrightarrow> 128 \<le> b1"
  by (auto simp: utf8_second_ok_def in_range_def split: if_splits)

lemma safe_get_append: "128 \<le> safe_get bs i \<Longrightarrow> safe_get (bs @ cs) i = safe_get bs i"
  by (auto simp: safe_get_def nth_append split: if_splits)

lemma safe_get_in: "128 \<le> safe_get bs i \<Longrightarrow> i < length bs"
  by (simp add: safe_get_def split: if_splits)

lemma utf8_unit_ok_length:
  assumes "bs \<noteq> []" and ok: "snd (utf8_unit bs)"
  shows "fst (utf8_unit bs) \<le> length bs"
proof (cases "safe_get bs 0 < 128")
  case True
  with assms(1) show ?thesis by (cases bs) (simp_all add: utf8_unit_def Let_def)
next
  case False
  have "in_range 128 191 (safe_get bs i) \<Longrightarrow> i < length bs" for i
    by (rule safe_get_in) (simp add: in_range_def)
  note conts = this [of 2] this [of 3]
  from False ok have "utf8_second_ok (safe_get bs 0) (safe_get bs 1)"
    by (simp add: utf8_unit_def Let_def split: if_splits)
  then have "1 < length bs"
    by (intro safe_get_in utf8_second_okD)
  with ok False conts show ?thesis
    by (simp add: utf8_unit_def Let_def split: if_splits)
qed

lemma utf8_lossy_valid: "utf8_valid bs \<Longrightarrow> utf8_lossy bs = bs"
proof (induction bs rule: utf8_valid.induct)
  case (1 bs)
  show ?case
  proof (cases "bs = []")
    case True
    then show ?thesis by (simp add: utf8_lossy.simps)
  next
    case False
    with 1 show ?thesis by (simp add: utf8_valid.simps [of bs] utf8_lossy.simps [of bs])
  qed
qed

lemma from_utf8_lossy_valid: "utf8_valid bs \<Longrightarrow> from_utf8_lossy bs = bytes_str bs"
  by (simp add: from_utf8_lossy_def utf8_lossy_valid)

lemma from_utf8_lossy_str: "is_str s \<Longrightarrow> from_utf8_lossy (str_bytes s) = s"
  by (simp add: is_str_def from_utf8_lossy_valid)

lemma from_utf8_str: "is_str s \<Longrightarrow> from_utf8 (str_bytes s) = Some s"
  by (simp add: is_str_def from_utf8_def)

lemma utf8_unit_append:
  assumes "bs \<noteq> []" and ok: "snd (utf8_unit bs)"
  shows "utf8_unit (bs @ cs) = utf8_unit bs"
proof -
  have g0: "safe_get (bs @ cs) 0 = safe_get bs 0"
    using assms(1) by (simp add: safe_get_def nth_append)
  show ?thesis
  proof (cases "safe_get bs 0 < 128")
    case True
    then show ?thesis by (simp add: utf8_unit_def Let_def g0)
  next
    case False
    with ok have "utf8_second_ok (safe_get bs 0) (safe_get bs 1)"
      by (simp add: utf8_unit_def Let_def split: if_splits)
    then have g1: "safe_get (bs @ cs) 1 = safe_get bs 1"
      by (intro safe_get_append utf8_second_okD)
    show ?thesis
    proof (cases "in_range 194 223 (safe_get bs 0)")
      case True
      with False show ?thesis by (simp add: utf8_unit_def Let_def g0 g1 [simplified])
    next
      case False2: False
      with False ok have "in_range 128 191 (safe_get bs 2)"
        by (simp add: utf8_unit_def Let_def split: if_splits)
      then have g2: "safe_get (bs @ cs) 2 = safe_get bs 2"
        by (intro safe_get_append) (simp add: in_range_def)
      have g3: "safe_get (bs @ cs) 3 = safe_get bs 3" if "in_range 128 191 (safe_get bs 3)"
        using that by (intro safe_get_append) (simp add: in_range_def)
      from False False2 ok g3 show ?thesis
        by (simp add: utf8_unit_def Let_def g0 g1 [simplified] g2 split: if_splits)
    qed
  qed
qed

lemma utf8_valid_append:
  "utf8_valid a \<Longrightarrow> utf8_valid b \<Longrightarrow> utf8_valid (a @ b)"
proof (induction a rule: utf8_valid.induct)
  case (1 a)
  show ?case
  proof (cases "a = []")
    case True
    with 1 show ?thesis by simp
  next
    case False
    with 1(2) have ok: "snd (utf8_unit a)" "utf8_valid (drop (fst (utf8_unit a)) a)"
      by (simp_all add: utf8_valid.simps [of a])
    have "fst (utf8_unit a) \<le> length a" by (rule utf8_unit_ok_length [OF False ok(1)])
    then show ?thesis using 1 False ok
      by (simp add: utf8_valid.simps [of "a @ b"] utf8_unit_append)
  qed
qed

lemma utf8_valid_ascii: "\<forall>b \<in> set bs. unat b < 128 \<Longrightarrow> utf8_valid bs"
proof (induction bs)
  case (Cons b bs)
  then have "utf8_unit (b # bs) = (1, True)"
    by (simp add: utf8_unit_def safe_get_def Let_def)
  with Cons show ?case by (simp add: utf8_valid.simps [of "b # bs"])
qed (simp add: utf8_valid.simps)

end
