(* ===== verification/Protobuf.thy ===== *)
theory Protobuf
  imports RustStr
begin

text \<open>
  \<open>crates/core/src/geo/protobuf.rs\<close>: the cursor over a protobuf message (varints, tags,
  length-delimited fields, skipping) and the message builders of its test support. The varint
  reader inverts the varint writer on every \<open>u64\<close>; both form a self-delimiting codec.
\<close>

datatype geo_error = Truncated | Malformed string | GeoIo string

section \<open>Reader\<close>

record reader =
  rd_buf :: bytes
  rd_pos :: nat

definition reader_new :: "bytes \<Rightarrow> reader" where
  "reader_new buf = \<lparr>rd_buf = buf, rd_pos = 0\<rparr>"

definition reader_eof :: "reader \<Rightarrow> bool" where
  "reader_eof r \<longleftrightarrow> length (rd_buf r) \<le> rd_pos r"

abbreviation (input) WIRE_VARINT :: u8 where "WIRE_VARINT \<equiv> 0"
abbreviation (input) WIRE_I64 :: u8 where "WIRE_I64 \<equiv> 1"
abbreviation (input) WIRE_LEN :: u8 where "WIRE_LEN \<equiv> 2"
abbreviation (input) WIRE_I32 :: u8 where "WIRE_I32 \<equiv> 5"

function read_varint_loop :: "reader \<Rightarrow> u64 \<Rightarrow> nat \<Rightarrow> geo_error + u64 \<times> reader" where
  "read_varint_loop r result shift =
     (if length (rd_buf r) \<le> rd_pos r then Inl Truncated
      else let byte = rd_buf r ! rd_pos r; r' = r\<lparr>rd_pos := rd_pos r + 1\<rparr>
           in if 64 \<le> shift then Inl (Malformed ''varint'')
              else let result' = result OR push_bit shift (ucast (byte AND 0x7F))
                   in if byte AND 0x80 = 0 then Inr (result', r')
                      else read_varint_loop r' result' (shift + 7))"
  by pat_completeness auto
termination
  by (relation "measure (\<lambda>(r, _). length (rd_buf r) - rd_pos r)") auto

declare read_varint_loop.simps [simp del]

definition read_varint :: "reader \<Rightarrow> geo_error + u64 \<times> reader" where
  "read_varint r = read_varint_loop r 0 0"

definition read_tag :: "reader \<Rightarrow> geo_error + u64 \<times> u8 \<times> reader" where
  "read_tag r =
     rbind (read_varint r) (\<lambda>(key, r).
       let field = drop_bit 3 key; wire = ucast (key AND 7)
       in if field = 0 then Inl (Malformed ''field number'') else Inr (field, wire, r))"

text \<open>
  \<open>usize\<close> has 64 bits: \<open>checked_add\<close> fails exactly when the sum leaves that range.
\<close>

definition checked_add_usize :: "nat \<Rightarrow> nat \<Rightarrow> nat option" where
  "checked_add_usize a b = (if a + b < 2 ^ 64 then Some (a + b) else None)"

definition read_bytes :: "reader \<Rightarrow> geo_error + bytes \<times> reader" where
  "read_bytes r =
     rbind (read_varint r) (\<lambda>(len, r).
     rbind (ok_or (checked_add_usize (rd_pos r) (unat len)) Truncated) (\<lambda>end'.
       if length (rd_buf r) < end' then Inl Truncated
       else Inr (take (end' - rd_pos r) (drop (rd_pos r) (rd_buf r)), r\<lparr>rd_pos := end'\<rparr>)))"

definition read_string :: "reader \<Rightarrow> geo_error + string \<times> reader" where
  "read_string r = rbind (read_bytes r) (\<lambda>(b, r). Inr (from_utf8_lossy b, r))"

definition advance :: "nat \<Rightarrow> reader \<Rightarrow> geo_error + reader" where
  "advance n r =
     rbind (ok_or (checked_add_usize (rd_pos r) n) Truncated) (\<lambda>end'.
       if length (rd_buf r) < end' then Inl Truncated else Inr (r\<lparr>rd_pos := end'\<rparr>))"

definition skip :: "u8 \<Rightarrow> reader \<Rightarrow> geo_error + reader" where
  "skip wire r =
     (if wire = WIRE_VARINT then rbind (read_varint r) (\<lambda>(_, r). Inr r)
      else if wire = WIRE_I64 then advance 8 r
      else if wire = WIRE_LEN then rbind (read_bytes r) (\<lambda>(_, r). Inr r)
      else if wire = WIRE_I32 then advance 4 r
      else Inl (Malformed ''wire type''))"

section \<open>Builders\<close>

lemma unat_drop_bit_less: "drop_bit n v \<noteq> 0 \<Longrightarrow> 0 < n \<Longrightarrow> unat (drop_bit n v) < unat v"
proof -
  assume nz: "drop_bit n v \<noteq> 0" and n: "0 < n"
  have div: "unat (drop_bit n v) = unat v div 2 ^ n"
    unfolding unat_drop_bit_eq by (rule drop_bit_eq_div)
  moreover have "unat (drop_bit n v) \<noteq> 0" using nz by (simp add: unat_eq_0)
  ultimately have pos: "0 < unat v" by (cases "unat v") auto
  have "(1::nat) < 2 ^ n" using n by (simp add: one_less_power del: One_nat_def)
  then show ?thesis using pos div by (simp add: div_less_dividend)
qed

function put_varint :: "u64 \<Rightarrow> bytes" where
  "put_varint v =
     (let b = ucast (v AND 0x7F); v' = drop_bit 7 v
      in if v' \<noteq> 0 then (b OR 0x80) # put_varint v' else [b])"
  by pat_completeness auto
termination
  by (relation "measure unat") (auto intro: unat_drop_bit_less)

declare put_varint.simps [simp del]

definition tag :: "u32 \<Rightarrow> u8 \<Rightarrow> u64" where
  "tag field wire = push_bit 3 (ucast field) OR ucast wire"

definition field_varint :: "u32 \<Rightarrow> u64 \<Rightarrow> bytes" where
  "field_varint field v = put_varint (tag field WIRE_VARINT) @ put_varint v"

definition pb_len :: "u32 \<Rightarrow> bytes \<Rightarrow> bytes" where
  "pb_len field data = put_varint (tag field WIRE_LEN) @ put_varint (of_nat (length data)) @ data"

section \<open>Progress\<close>

definition advances :: "reader \<Rightarrow> reader \<Rightarrow> bool" where
  "advances r r' \<longleftrightarrow> rd_buf r' = rd_buf r \<and> rd_pos r < rd_pos r' \<and> rd_pos r' \<le> length (rd_buf r)"

lemma read_varint_loop_advances: "read_varint_loop r res sh = Inr (v, r') \<Longrightarrow> advances r r'"
proof (induction r res sh rule: read_varint_loop.induct)
  case (1 r res sh)
  from 1(2) show ?case
    by (subst (asm) read_varint_loop.simps)
      (auto simp: Let_def advances_def split: if_splits dest!: 1(1) [rotated -1])
qed

lemma read_varint_advances: "read_varint r = Inr (v, r') \<Longrightarrow> advances r r'"
  by (simp add: read_varint_def read_varint_loop_advances)

lemma read_tag_advances: "read_tag r = Inr (f, w, r') \<Longrightarrow> advances r r'"
  by (auto simp: read_tag_def Let_def split: if_splits dest: read_varint_advances)

lemma read_bytes_advances: "read_bytes r = Inr (b, r') \<Longrightarrow> advances r r'"
  by (auto simp: read_bytes_def checked_add_usize_def advances_def split: if_splits
      dest!: read_varint_advances)

lemma read_string_advances: "read_string r = Inr (b, r') \<Longrightarrow> advances r r'"
  by (auto simp: read_string_def dest: read_bytes_advances)

lemma advance_advances: "advance n r = Inr r' \<Longrightarrow> 0 < n \<Longrightarrow> advances r r'"
  by (auto simp: advance_def checked_add_usize_def advances_def split: if_splits)

lemma skip_advances: "skip w r = Inr r' \<Longrightarrow> advances r r'"
  by (auto simp: skip_def split: if_splits
      dest: read_varint_advances read_bytes_advances advance_advances)

lemmas reader_advances = read_varint_advances read_tag_advances read_bytes_advances
  read_string_advances skip_advances

lemma advances_measure:
  "advances r r' \<Longrightarrow> length (rd_buf r') - rd_pos r' < length (rd_buf r) - rd_pos r"
  by (auto simp: advances_def)

lemma advances_trans: "advances r s \<Longrightarrow> advances s t \<Longrightarrow> advances r t"
  by (auto simp: advances_def)

section \<open>Reading what was written\<close>

definition remaining :: "reader \<Rightarrow> bytes" where
  "remaining r = drop (rd_pos r) (rd_buf r)"

definition after :: "reader \<Rightarrow> nat \<Rightarrow> reader" where
  "after r n = r\<lparr>rd_pos := rd_pos r + n\<rparr>"

lemma remaining_new [simp]: "remaining (reader_new bs) = bs"
  by (simp add: remaining_def reader_new_def)

lemma after_simps [simp]:
  "rd_buf (after r n) = rd_buf r" "rd_pos (after r n) = rd_pos r + n"
  "after (after r n) m = after r (n + m)"
  by (simp_all add: after_def add.assoc)

lemma remaining_after: "remaining r = xs @ ys \<Longrightarrow> remaining (after r (length xs)) = ys"
  by (metis add.commute after_simps(1,2) append_eq_conv_conj drop_drop remaining_def)

lemma remaining_ConsD:
  assumes "remaining r = b # bs"
  shows "rd_pos r < length (rd_buf r)" "rd_buf r ! rd_pos r = b" "remaining (after r 1) = bs"
proof -
  show *: "rd_pos r < length (rd_buf r)"
    using assms by (rule_tac ccontr) (simp add: remaining_def)
  show "rd_buf r ! rd_pos r = b" "remaining (after r 1) = bs"
    using assms Cons_nth_drop_Suc [OF *] by (simp_all add: remaining_def)
qed

lemma remaining_in: "remaining r = xs @ ys \<Longrightarrow> xs \<noteq> [] \<Longrightarrow> rd_pos r + length xs \<le> length (rd_buf r)"
  by (cases "rd_pos r \<le> length (rd_buf r)") (auto simp: remaining_def dest: arg_cong [of _ _ length])

lemma put_varint_neq_Nil: "put_varint v \<noteq> []"
  by (subst put_varint.simps) (simp add: Let_def)

lemma eof_remaining: "reader_eof r \<longleftrightarrow> remaining r = []"
  by (simp add: reader_eof_def remaining_def)

lemma numeral_7F: "(0x7F :: 'a::len word) = mask 7"
  by (simp add: mask_numeral)

lemma high_bit_iff: "(b :: u8) AND 0x80 = 0 \<longleftrightarrow> \<not> bit b 7"
  using and_exp_eq_0_iff_not_bit [of b 7] by simp

lemma bit_80: "bit (0x80 :: u8) n \<longleftrightarrow> n = 7"
  using bit_exp_iff [of 7 n, where 'a = "8 word"] by auto

lemma bit_7F: "bit (0x7F :: 'a::len word) n \<longleftrightarrow> n < 7 \<and> n < LENGTH('a)"
  unfolding numeral_7F by (auto simp: bit_simps)

lemma ucast_low7:
  fixes v :: u64
  shows "(ucast ((ucast (v AND 0x7F) OR 0x80 :: u8) AND 0x7F) :: u64) = take_bit 7 v"
    "(ucast ((ucast (v AND 0x7F) :: u8) AND 0x7F) :: u64) = take_bit 7 v"
    "(ucast (v AND 0x7F) OR 0x80 :: u8) AND 0x80 \<noteq> 0"
    "(ucast (v AND 0x7F) :: u8) AND 0x80 = 0"
proof -
  note b = bit_and_iff bit_or_iff bit_ucast_iff bit_take_bit_iff bit_80 bit_7F
  show "(ucast ((ucast (v AND 0x7F) OR 0x80 :: u8) AND 0x7F) :: u64) = take_bit 7 v"
    "(ucast ((ucast (v AND 0x7F) :: u8) AND 0x7F) :: u64) = take_bit 7 v"
    by (rule bit_word_eqI, simp only: b, auto)+
  show "(ucast (v AND 0x7F) OR 0x80 :: u8) AND 0x80 \<noteq> 0" "(ucast (v AND 0x7F) :: u8) AND 0x80 = 0"
    by (simp_all only: high_bit_iff b) auto
qed

lemma join_low7:
  fixes v :: "'a::len word"
  shows "take_bit s v OR push_bit s (take_bit 7 (drop_bit s v)) = take_bit (s + 7) v"
  by (rule bit_word_eqI) (auto simp: bit_simps)

lemma read_varint_loop_step:
  fixes v :: u64
  assumes "remaining r = b # bs" and "s < 64" and "ucast (b AND 0x7F) = take_bit 7 (drop_bit s v)"
  shows "read_varint_loop r (take_bit s v) s =
    (if b AND 0x80 = 0 then Inr (take_bit (s + 7) v, after r 1)
     else read_varint_loop (after r 1) (take_bit (s + 7) v) (s + 7))"
  using assms remaining_ConsD(1,2) [OF assms(1)]
  by (subst read_varint_loop.simps) (simp add: Let_def join_low7 after_def)

lemma read_varint_loop_put:
  fixes v :: u64
  assumes "remaining r = put_varint w @ rest" and "w = drop_bit s v" and "s < 64"
  shows "read_varint_loop r (take_bit s v) s = Inr (v, after r (length (put_varint w)))"
  using assms
proof (induction w arbitrary: r s rule: put_varint.induct)
  case (1 w)
  have rest': "drop_bit 7 w = drop_bit (s + 7) v" using 1(3) by (simp add: add.commute)
  show ?case
  proof (cases "drop_bit 7 w = 0")
    case True
    then have put: "put_varint w = [ucast (w AND 0x7F)]" by (simp add: put_varint.simps [of w])
    have "take_bit (s + 7) v = v"
      using True rest' by (simp add: take_bit_eq_self_iff_drop_bit_eq_0)
    then show ?thesis
      using 1(2,4) read_varint_loop_step [of r "ucast (w AND 0x7F)" rest s v] ucast_low7(2,4) [of w]
      unfolding put by (simp add: 1(3))
  next
    case False
    let ?b = "ucast (w AND 0x7F) OR 0x80 :: u8"
    have put: "put_varint w = ?b # put_varint (drop_bit 7 w)"
      using False by (subst put_varint.simps) (simp add: Let_def)
    have rem: "remaining r = ?b # (put_varint (drop_bit 7 w) @ rest)" using 1(2) put by simp
    have "drop_bit (s + 7) v \<noteq> 0" using False rest' by simp
    then have "s + 7 < 64" by (rule_tac ccontr) (auto intro: bit_word_eqI simp: bit_simps dest: bit_imp_le_length)
    moreover have "read_varint_loop r (take_bit s v) s
      = read_varint_loop (after r 1) (take_bit (s + 7) v) (s + 7)"
      using read_varint_loop_step [OF rem 1(4), of v] ucast_low7(1,3) [of w] by (simp add: 1(3))
    ultimately show ?thesis
      using 1(1) [OF refl refl False remaining_ConsD(3) [OF rem] rest'] put by simp
  qed
qed

lemma read_varint_put [codec_simps]:
  "remaining r = put_varint v @ rest \<Longrightarrow> read_varint r = Inr (v, after r (length (put_varint v)))"
  using read_varint_loop_put [of r v rest 0 v] by (simp add: read_varint_def)

definition varint_decode :: "bytes \<Rightarrow> (u64 \<times> bytes) option" where
  "varint_decode bs = map_option (\<lambda>(v, r). (v, remaining r)) (result_ok (read_varint (reader_new bs)))"

interpretation varint: codec put_varint varint_decode "\<lambda>_. True"
proof
  fix v :: u64 and rest
  have rem: "remaining (reader_new (put_varint v @ rest)) = put_varint v @ rest" by simp
  show "varint_decode (put_varint v @ rest) = Some (v, rest)"
    by (simp add: varint_decode_def read_varint_put [OF rem] remaining_after [OF rem])
qed

lemma tag_bits:
  assumes "take_bit 3 w = w"
  shows "bit (tag f w) n \<longleftrightarrow> n < 64 \<and> (if n < 3 then bit w n else bit f (n - 3))"
proof -
  have "bit w n \<Longrightarrow> n < 3" using assms by (metis bit_take_bit_iff)
  then show ?thesis using bit_imp_le_length [of f "n - 3"]
    by (auto simp: tag_def bit_simps dest: bit_imp_le_length)
qed

lemma tag_field: "take_bit 3 w = w \<Longrightarrow> drop_bit 3 (tag f w) = ucast f"
proof (rule bit_word_eqI)
  fix n assume w: "take_bit 3 w = w" and "n < LENGTH(64)"
  then show "bit (drop_bit 3 (tag f w)) n = bit (ucast f :: u64) n"
    using bit_imp_le_length [of f n] by (auto simp: tag_bits bit_drop_bit_eq bit_ucast_iff)
qed

lemma tag_wire: "take_bit 3 w = w \<Longrightarrow> (ucast (tag f w AND 7) :: u8) = w"
proof (rule bit_word_eqI)
  fix n assume w: "take_bit 3 w = w" and n: "n < LENGTH(8)"
  have "bit w n \<Longrightarrow> n < 3" using w by (metis bit_take_bit_iff)
  moreover have "bit (7 :: u64) n \<longleftrightarrow> n < 3"
    using n bit_mask_iff [of 3 n, where 'a = "64 word"] by (auto simp: mask_numeral)
  ultimately show "bit (ucast (tag f w AND 7) :: u8) n = bit w n"
    using n by (auto simp: tag_bits w bit_and_iff bit_ucast_iff)
qed

lemma read_tag_put [codec_simps]:
  assumes "remaining r = put_varint (tag f w) @ rest" and "take_bit 3 w = w" and "f \<noteq> 0"
  shows "read_tag r = Inr (ucast f, w, after r (length (put_varint (tag f w))))"
proof -
  obtain n where "bit f n" using assms(3) by (auto simp: bit_eq_iff)
  then have "bit (ucast f :: u64) n" using bit_imp_le_length [of f n] by (simp add: bit_ucast_iff)
  then have "(ucast f :: u64) \<noteq> 0" by auto
  then show ?thesis
    by (simp add: read_tag_def read_varint_put [OF assms(1)] tag_field tag_wire assms(2) Let_def)
qed

text \<open>A length-delimited field that fits the buffer: its length is below \<open>2 ^ 64\<close>.\<close>

lemma read_bytes_put [codec_simps]:
  assumes rem: "remaining r = put_varint (of_nat (length data)) @ data @ rest"
    and size: "length (rd_buf r) < 2 ^ 64"
  shows "read_bytes r = Inr (data, after r (length (put_varint (of_nat (length data))) + length data))"
proof -
  let ?r = "after r (length (put_varint (of_nat (length data))))"
  have rem': "remaining ?r = data @ rest" by (rule remaining_after [OF rem])
  have "put_varint (of_nat (length data)) @ data \<noteq> []" by (simp add: put_varint_neq_Nil)
  then have len: "rd_pos ?r + length data \<le> length (rd_buf ?r)"
    using remaining_in [of r "put_varint (of_nat (length data)) @ data" rest] rem by simp
  have fits: "unat (of_nat (length data) :: u64) = length data"
    using len size by (simp add: unat_of_nat take_bit_eq_mod)
  have "take (length data) (drop (rd_pos ?r) (rd_buf ?r)) = data"
    using rem' by (simp add: remaining_def)
  then show ?thesis
    using len size by (simp add: read_bytes_def read_varint_put [OF rem] fits checked_add_usize_def after_def add.assoc)
qed

text \<open>One whole field: the tag, then the value, then whatever follows.\<close>

lemma read_field_varint:
  assumes "remaining r = field_varint f v @ rest" and "f \<noteq> 0"
  obtains r1 r2 where "read_tag r = Inr (ucast f, WIRE_VARINT, r1)" and "read_varint r1 = Inr (v, r2)"
    and "remaining r2 = rest" and "rd_buf r2 = rd_buf r" and "\<not> reader_eof r"
proof -
  have rem: "remaining r = put_varint (tag f 0) @ put_varint v @ rest"
    using assms(1) by (simp add: field_varint_def)
  note rem1 = remaining_after [OF rem]
  show thesis
    by (rule that [OF read_tag_put [OF rem _ assms(2)] read_varint_put [OF rem1] remaining_after [OF rem1]])
      (use rem in \<open>auto simp: eof_remaining put_varint_neq_Nil\<close>)
qed

lemma read_field_len:
  assumes "remaining r = pb_len f data @ rest" and "f \<noteq> 0" and "length (rd_buf r) < 2 ^ 64"
  obtains r1 r2 where "read_tag r = Inr (ucast f, WIRE_LEN, r1)" and "read_bytes r1 = Inr (data, r2)"
    and "remaining r2 = rest" and "rd_buf r2 = rd_buf r" and "\<not> reader_eof r"
    and "length data < length (rd_buf r)"
proof -
  have rem: "remaining r = put_varint (tag f 2) @ put_varint (of_nat (length data)) @ data @ rest"
    using assms(1) by (simp add: pb_len_def)
  note rem1 = remaining_after [OF rem]
  let ?n = "length (put_varint (tag f 2))" and ?m = "length (put_varint (of_nat (length data)))"
  have "remaining (after r (?n + ?m)) = data @ rest"
    using remaining_after [OF rem1] by simp
  then have "remaining (after r (?n + (?m + length data))) = rest"
    using remaining_after by (fastforce simp: add.assoc)
  moreover have "length data < length (rd_buf r)"
    using remaining_in [of r "put_varint (tag f 2) @ put_varint (of_nat (length data)) @ data" rest] rem
      put_varint_neq_Nil [of "tag f 2"] by (cases "put_varint (tag f 2)") auto
  ultimately show thesis
    by (intro that [OF read_tag_put [OF rem _ assms(2)] read_bytes_put [OF rem1]])
      (use rem assms(3) in \<open>auto simp: eof_remaining put_varint_neq_Nil\<close>)
qed

lemma read_string_iff:
  "read_bytes r = Inr (str_bytes s, r') \<Longrightarrow> is_str s \<Longrightarrow> read_string r = Inr (s, r')"
  by (simp add: read_string_def from_utf8_lossy_str)

end
