(* ===== verification/IpAddr.thy ===== *)
theory IpAddr
  imports RustStr "HOL-Library.Monad_Syntax"
begin

text \<open>
  \<open>std::net\<close> as the sources use it: IPv4 and IPv6 addresses as 32- and 128-bit words, the text
  parser behind \<open>str::parse::<IpAddr>\<close> (decimal octets without leading zeros, hexadecimal groups,
  one \<open>::\<close>, a trailing embedded IPv4 address) and the printer behind \<open>Display\<close>.
\<close>

section \<open>Addresses\<close>

datatype ip_addr = V4 u32 | V6 u128

definition is_ipv4 :: "ip_addr \<Rightarrow> bool" where
  "is_ipv4 a = (case a of V4 _ \<Rightarrow> True | V6 _ \<Rightarrow> False)"

definition segments :: "u128 \<Rightarrow> u16 list" where
  "segments a = map (\<lambda>i. ucast (drop_bit (16 * (7 - i)) a)) [0..<8]"

definition of_segments :: "u16 list \<Rightarrow> u128" where
  "of_segments ss = foldl (\<lambda>acc s. push_bit 16 acc OR ucast s) 0 ss"

section \<open>Parsing\<close>

fun read_digits :: "(char \<Rightarrow> nat option) \<Rightarrow> string \<Rightarrow> nat list \<times> string" where
  "read_digits dv [] = ([], [])"
| "read_digits dv (c # cs) =
     (case dv c of None \<Rightarrow> ([], c # cs)
      | Some d \<Rightarrow> (let (ds, r) = read_digits dv cs in (d # ds, r)))"

definition read_number ::
  "(char \<Rightarrow> nat option) \<Rightarrow> nat \<Rightarrow> nat \<Rightarrow> bool \<Rightarrow> nat \<Rightarrow> string \<Rightarrow> (nat \<times> string) option" where
  "read_number dv radix max_digits allow_zero_prefix bound s =
     (let (ds, r) = read_digits dv s; v = foldl (\<lambda>a d. a * radix + d) 0 ds
      in if ds = [] \<or> max_digits < length ds
            \<or> (\<not> allow_zero_prefix \<and> hd ds = 0 \<and> 1 < length ds) \<or> bound \<le> v
         then None else Some (v, r))"

definition read_given_char :: "char \<Rightarrow> string \<Rightarrow> string option" where
  "read_given_char c s = (case s of [] \<Rightarrow> None | x # xs \<Rightarrow> if x = c then Some xs else None)"

definition read_octet :: "string \<Rightarrow> (u8 \<times> string) option" where
  "read_octet s = map_option (\<lambda>(v, r). (of_nat v, r)) (read_number digit_val 10 3 False 256 s)"

definition read_ipv4_addr :: "string \<Rightarrow> (u32 \<times> string) option" where
  "read_ipv4_addr s = do {
     (a, s) \<leftarrow> read_octet s;
     s \<leftarrow> read_given_char CHR ''.'' s;
     (b, s) \<leftarrow> read_octet s;
     s \<leftarrow> read_given_char CHR ''.'' s;
     (c, s) \<leftarrow> read_octet s;
     s \<leftarrow> read_given_char CHR ''.'' s;
     (d, s) \<leftarrow> read_octet s;
     Some (from_be [a, b, c, d], s)
   }"

definition read_hex_group :: "string \<Rightarrow> (u16 \<times> string) option" where
  "read_hex_group s =
     map_option (\<lambda>(v, r). (of_nat v, r)) (read_number hex_digit_val 16 4 True 65536 s)"

definition read_separator ::
  "bool \<Rightarrow> (string \<Rightarrow> ('a \<times> string) option) \<Rightarrow> string \<Rightarrow> ('a \<times> string) option" where
  "read_separator first p s = (if first then p s else read_given_char CHR '':'' s \<bind> p)"

text \<open>
  \<open>read_groups k first s\<close> fills at most \<open>k\<close> groups. While at least two slots are left an embedded
  IPv4 address is tried first; it fills two groups and ends the run.
\<close>

fun read_groups :: "nat \<Rightarrow> bool \<Rightarrow> string \<Rightarrow> u16 list \<times> bool \<times> string" where
  "read_groups 0 first s = ([], False, s)"
| "read_groups (Suc k) first s =
     (case (if 0 < k then read_separator first read_ipv4_addr s else None) of
        Some (v4, r) \<Rightarrow> ([ucast (drop_bit 16 v4), ucast v4], True, r)
      | None \<Rightarrow>
          (case read_separator first read_hex_group s of
             None \<Rightarrow> ([], False, s)
           | Some (g, r) \<Rightarrow> (let (gs, v4, r') = read_groups k False r in (g # gs, v4, r'))))"

definition read_ipv6_addr :: "string \<Rightarrow> (u128 \<times> string) option" where
  "read_ipv6_addr s =
     (let (head, head_ipv4, s1) = read_groups 8 True s
      in if length head = 8 then Some (of_segments head, s1)
         else if head_ipv4 then None
         else do {
           s2 \<leftarrow> read_given_char CHR '':'' s1;
           s3 \<leftarrow> read_given_char CHR '':'' s2;
           let (tail, _, s4) = read_groups (8 - (length head + 1)) True s3;
           Some (of_segments (head @ replicate (8 - length head - length tail) 0 @ tail), s4)
         })"

definition parse_ip :: "string \<Rightarrow> ip_addr option" where
  "parse_ip s =
     (case (case read_ipv4_addr s of
              Some (a, r) \<Rightarrow> Some (V4 a, r)
            | None \<Rightarrow> map_option (\<lambda>(a, r). (V6 a, r)) (read_ipv6_addr s)) of
        Some (a, []) \<Rightarrow> Some a
      | _ \<Rightarrow> None)"

section \<open>Printing\<close>

definition hex_char :: "nat \<Rightarrow> char" where
  "hex_char d = char_of (if d < 10 then 48 + d else 87 + d)"

fun show_hex :: "nat \<Rightarrow> string" where
  "show_hex n = (if n < 16 then [hex_char n] else show_hex (n div 16) @ [hex_char (n mod 16)])"

declare show_hex.simps [simp del]

fun join :: "string \<Rightarrow> string list \<Rightarrow> string" where
  "join sep [] = []"
| "join sep [x] = x"
| "join sep (x # y # ys) = x @ sep @ join sep (y # ys)"

definition show_ipv4 :: "u32 \<Rightarrow> string" where
  "show_ipv4 a = join ''.'' (map (\<lambda>b. show_nat (unat b)) (be32 a))"

text \<open>The longest run of zero groups, the leftmost among equals: \<open>(start, length)\<close>.\<close>

fun zero_span :: "nat \<Rightarrow> nat \<times> nat \<Rightarrow> nat \<times> nat \<Rightarrow> u16 list \<Rightarrow> nat \<times> nat" where
  "zero_span i cur longest [] = longest"
| "zero_span i (cs, cl) longest (s # ss) =
     (if s = 0 then
        (let cur = (if cl = 0 then i else cs, Suc cl)
         in zero_span (Suc i) cur (if snd longest < snd cur then cur else longest) ss)
      else zero_span (Suc i) (0, 0) longest ss)"

definition show_ipv6 :: "u128 \<Rightarrow> string" where
  "show_ipv6 a =
     (let ss = segments a; hex = (\<lambda>xs. join '':'' (map (\<lambda>s. show_hex (unat s)) xs))
      in if take 6 ss = [0, 0, 0, 0, 0, 65535] then ''::ffff:'' @ show_ipv4 (ucast a)
         else (case zero_span 0 (0, 0) (0, 0) ss of (z, n) \<Rightarrow>
           if 1 < n then hex (take z ss) @ ''::'' @ hex (drop (z + n) ss) else hex ss))"

definition show_ip :: "ip_addr \<Rightarrow> string" where
  "show_ip a = (case a of V4 v \<Rightarrow> show_ipv4 v | V6 v \<Rightarrow> show_ipv6 v)"

section \<open>Facts\<close>

lemmas read_groups_numeral [text_eval] =
  read_groups.simps(2) [of "pred_numeral k", folded numeral_eq_Suc] for k

lemmas ip_eval [text_eval] =
  read_number_def read_given_char_def read_octet_def read_ipv4_addr_def read_hex_group_def
  read_separator_def read_ipv6_addr_def parse_ip_def from_be_def of_segments_def

lemma is_ipv4_simps [simp]: "is_ipv4 (V4 a)" "\<not> is_ipv4 (V6 b)"
  by (simp_all add: is_ipv4_def)

lemma be32_Cons: "\<exists>a b c d. be32 w = [a, b, c, d]"
  by (simp add: numeral_eq_Suc)

lemma digit_val_show:
  "c \<in> set (show_nat n) \<Longrightarrow> \<exists>d. digit_val c = Some d \<and> d < 10"
  using show_nat_digits [of c n] by (auto simp: digit_val_def Let_def)

lemma read_digits_append:
  assumes "\<forall>c \<in> set xs. dv c \<noteq> None" and "rest = [] \<or> dv (hd rest) = None"
  shows "read_digits dv (xs @ rest) = (map (\<lambda>c. the (dv c)) xs, rest)"
  using assms
proof (induction xs)
  case Nil
  then show ?case by (cases rest) auto
qed auto

lemma dec_value_foldl:
  "\<forall>c \<in> set xs. digit_val c \<noteq> None \<Longrightarrow>
   dec_value a xs = Some (foldl (\<lambda>a d. a * 10 + d) a (map (\<lambda>c. the (digit_val c)) xs))"
  by (induction xs arbitrary: a) auto

lemma show_nat_octet:
  assumes "n < 256"
  shows "length (show_nat n) \<le> 3" "hd (show_nat n) = CHR ''0'' \<Longrightarrow> length (show_nat n) = 1"
proof -
  consider "n < 10" | "10 \<le> n" "n < 100" | "100 \<le> n" by linarith
  then have "length (show_nat n) \<le> 3 \<and>
    (hd (show_nat n) = CHR ''0'' \<longrightarrow> length (show_nat n) = 1)"
  proof cases
    case 1
    then show ?thesis by (simp add: show_nat.simps)
  next
    case 2
    then have "n div 10 < 10" "0 < n div 10" by auto
    with 2 show ?thesis
      by (auto simp: show_nat.simps [of n] show_nat.simps [of "n div 10"] char_of_eq_iff
          take_bit_eq_mod)
  next
    case 3
    then have "n div 10 div 10 < 10" "\<not> n div 10 < 10" "0 < n div 10 div 10" using assms by auto
    with 3 show ?thesis
      by (auto simp: show_nat.simps [of n] show_nat.simps [of "n div 10"]
          show_nat.simps [of "n div 10 div 10"] char_of_eq_iff take_bit_eq_mod)
  qed
  then show "length (show_nat n) \<le> 3" "hd (show_nat n) = CHR ''0'' \<Longrightarrow> length (show_nat n) = 1"
    by auto
qed

lemma digit_val_zero: "digit_val c = Some 0 \<longleftrightarrow> c = CHR ''0''"
proof
  assume "digit_val c = Some 0"
  then have "(of_char c :: nat) = 48" by (auto simp: digit_val_def Let_def split: if_splits)
  then have "(char_of (of_char c :: nat)) = CHR ''0''" by (simp only: char_of_eq_iff) simp
  then show "c = CHR ''0''" by simp
qed (simp add: digit_val_def)

lemma read_octet_show:
  assumes "rest = [] \<or> digit_val (hd rest) = None"
  shows "read_octet (show_nat (unat b) @ rest) = Some (b, rest)"
proof -
  let ?n = "unat b" and ?s = "show_nat (unat b)"
  have d: "\<forall>c \<in> set ?s. digit_val c \<noteq> None" using digit_val_show by fastforce
  have r: "read_digits digit_val (?s @ rest) = (map (\<lambda>c. the (digit_val c)) ?s, rest)"
    by (rule read_digits_append [OF d assms])
  have v: "foldl (\<lambda>a d. a * 10 + d) 0 (map (\<lambda>c. the (digit_val c)) ?s) = ?n"
    using dec_value_foldl [OF d, of 0] by (simp add: dec_value_show_nat)
  have z: "hd (map (\<lambda>c. the (digit_val c)) ?s) \<noteq> 0 \<or> length ?s = 1"
  proof (cases "hd (map (\<lambda>c. the (digit_val c)) ?s) = 0")
    case True
    have "digit_val (hd ?s) = Some 0" using True d by (cases ?s) auto
    then have "hd ?s = CHR ''0''" by (simp add: digit_val_zero)
    then show ?thesis using show_nat_octet(2) [of ?n] by simp
  qed simp
  show ?thesis
    using r v z show_nat_octet(1) [of ?n]
    by (auto simp: read_octet_def read_number_def Let_def)
qed

lemma read_ipv4_addr_show:
  assumes "rest = [] \<or> digit_val (hd rest) = None"
  shows "read_ipv4_addr (show_ipv4 a @ rest) = Some (a, rest)"
proof -
  obtain w x y z where be: "be32 a = [w, x, y, z]" using be32_Cons by blast
  have "show_ipv4 a @ rest = show_nat (unat w) @ CHR ''.'' # show_nat (unat x) @ CHR ''.'' #
      show_nat (unat y) @ CHR ''.'' # show_nat (unat z) @ rest"
    by (simp add: show_ipv4_def be)
  moreover have "from_be [w, x, y, z] = a" using from_be_be32 [of a] be by simp
  moreover have "digit_val CHR ''.'' = None" by (simp add: digit_val_def)
  ultimately show ?thesis
    using assms by (simp add: read_ipv4_addr_def read_octet_show read_given_char_def)
qed

lemma parse_ip_show_ipv4: "parse_ip (show_ipv4 a) = Some (V4 a)"
  using read_ipv4_addr_show [of "[]" a] by (simp add: parse_ip_def)

lemma show_ipv4_chars: "c \<in> set (show_ipv4 a) \<Longrightarrow> c = CHR ''.'' \<or> digit_val c \<noteq> None"
proof -
  assume c: "c \<in> set (show_ipv4 a)"
  obtain w x y z where be: "be32 a = [w, x, y, z]" using be32_Cons by blast
  then consider "c = CHR ''.''" | n where "c \<in> set (show_nat n)"
    using c by (auto simp: show_ipv4_def)
  then show ?thesis by cases (use digit_val_show in fastforce)+
qed

end
