(* ===== verification/Cidr.thy ===== *)
theory Cidr
  imports IpAddr
begin

text \<open>
  \<open>crates/core/src/split/cidr.rs\<close>: an IP subnet (\<open>IpCidr\<close>), its parser, constructor, printer and
  the membership test by network masks. The lemmas reduce the mask test to equality of the leading
  bits and to an address interval; together with the constructors they are the contract the
  split, routing, geo and FakeIP components use.
\<close>

section \<open>Errors of the import layer\<close>

datatype parse_error =
    EmptyInput
  | MalformedUrl string
  | UnknownScheme string
  | MissingHost
  | MissingPort
  | InvalidPort string
  | MissingField string
  | Base64Error string
  | Utf8Error
  | InvalidCidr string
  | JsonError string

section \<open>Subnets\<close>

record ip_cidr =
  cidr_base :: ip_addr
  cidr_prefix :: u8

definition max_prefix :: "ip_addr \<Rightarrow> u8" where
  "max_prefix a = (if is_ipv4 a then 32 else 128)"

definition cidr_parse :: "string \<Rightarrow> parse_error + ip_cidr" where
  "cidr_parse s =
     rbind (case split_once CHR ''/'' s of
              Some (ip, p) \<Rightarrow>
                rbind (ok_or (parse_u8 p) (InvalidCidr s)) (\<lambda>p. Inr (ip, Some p))
            | None \<Rightarrow> Inr (s, None))
       (\<lambda>(ip_str, prefix_opt).
         rbind (ok_or (parse_ip ip_str) (InvalidCidr s)) (\<lambda>base.
           let mx = max_prefix base;
               pfx = (case prefix_opt of Some p \<Rightarrow> p | None \<Rightarrow> mx)
           in if mx < pfx then Inl (InvalidCidr s)
              else Inr \<lparr>cidr_base = base, cidr_prefix = pfx\<rparr>))"

definition show_cidr :: "ip_cidr \<Rightarrow> string" where
  "show_cidr c = show_ip (cidr_base c) @ ''/'' @ show_nat (unat (cidr_prefix c))"

definition cidr_new :: "ip_addr \<Rightarrow> u8 \<Rightarrow> parse_error + ip_cidr" where
  "cidr_new base pfx =
     (if max_prefix base < pfx
      then Inl (InvalidCidr (show_ip base @ ''/'' @ show_nat (unat pfx)))
      else Inr \<lparr>cidr_base = base, cidr_prefix = pfx\<rparr>)"

definition v4_match :: "u32 \<Rightarrow> u32 \<Rightarrow> u8 \<Rightarrow> bool" where
  "v4_match base addr pfx =
     (let m = (if pfx = 0 then 0 else if 32 \<le> pfx then - 1
               else push_bit (32 - unat pfx) (- 1))
      in base AND m = addr AND m)"

definition v6_match :: "u128 \<Rightarrow> u128 \<Rightarrow> u8 \<Rightarrow> bool" where
  "v6_match base addr pfx =
     (let m = (if pfx = 0 then 0 else if 128 \<le> pfx then - 1
               else push_bit (128 - unat pfx) (- 1))
      in base AND m = addr AND m)"

fun cidr_contains :: "ip_cidr \<Rightarrow> ip_addr \<Rightarrow> bool" where
  "cidr_contains c (V4 addr) =
     (case cidr_base c of V4 base \<Rightarrow> v4_match base addr (cidr_prefix c) | V6 _ \<Rightarrow> False)"
| "cidr_contains c (V6 addr) =
     (case cidr_base c of V6 base \<Rightarrow> v6_match base addr (cidr_prefix c) | V4 _ \<Rightarrow> False)"

text \<open>The invariant both constructors establish: the prefix is at most the address width.\<close>

definition cidr_wf :: "ip_cidr \<Rightarrow> bool" where
  "cidr_wf c \<longleftrightarrow> cidr_prefix c \<le> max_prefix (cidr_base c)"

section \<open>Masks and leading bits\<close>

lemma and_high_mask_eq_iff:
  fixes a b :: "'a::len word"
  shows "a AND NOT (mask n) = b AND NOT (mask n) \<longleftrightarrow> drop_bit n a = drop_bit n b"
proof
  assume eq: "a AND NOT (mask n) = b AND NOT (mask n)"
  show "drop_bit n a = drop_bit n b"
  proof (rule bit_word_eqI)
    fix k assume "k < LENGTH('a)"
    have "bit (a AND NOT (mask n)) (n + k) = bit (b AND NOT (mask n)) (n + k)"
      by (simp only: eq)
    then show "bit (drop_bit n a) k = bit (drop_bit n b) k"
      by (auto simp: bit_simps dest: bit_imp_le_length)
  qed
next
  assume eq: "drop_bit n a = drop_bit n b"
  show "a AND NOT (mask n) = b AND NOT (mask n)"
  proof (rule bit_word_eqI)
    fix k assume "k < LENGTH('a)"
    have "bit (drop_bit n a) (k - n) = bit (drop_bit n b) (k - n)" by (simp add: eq)
    then show "bit (a AND NOT (mask n)) k = bit (b AND NOT (mask n)) k"
      by (auto simp: bit_simps)
  qed
qed

lemma drop_bit_eq_iff_div:
  fixes a b :: "'a::len word"
  shows "drop_bit n a = drop_bit n b \<longleftrightarrow> unat a div 2 ^ n = unat b div 2 ^ n"
  unfolding word_unat_eq_iff unat_drop_bit_eq by (simp only: drop_bit_eq_div)

lemma v4_match_bits:
  assumes "p \<le> 32"
  shows "v4_match base addr p \<longleftrightarrow> unat addr div 2 ^ (32 - unat p) = unat base div 2 ^ (32 - unat p)"
proof -
  have p: "unat p \<le> 32" using assms by (simp add: word_le_nat_alt)
  consider "p = 0" | "p = 32" | "p \<noteq> 0" "\<not> 32 \<le> p" using assms by fastforce
  then show ?thesis
  proof cases
    case 1
    then show ?thesis using unat_u32_less [of base] unat_u32_less [of addr]
      by (simp add: v4_match_def)
  next
    case 2
    then show ?thesis by (auto simp: v4_match_def word_unat_eq_iff)
  next
    case 3
    then show ?thesis
      by (auto simp: v4_match_def Let_def and_high_mask_eq_iff drop_bit_eq_iff_div)
  qed
qed

lemma unat_u128_less [simp]: "unat (w :: u128) < 340282366920938463463374607431768211456"
  by (rule order_less_le_trans [OF unsigned_less]) simp

lemma v6_match_bits:
  assumes "p \<le> 128"
  shows "v6_match base addr p \<longleftrightarrow> unat addr div 2 ^ (128 - unat p) = unat base div 2 ^ (128 - unat p)"
proof -
  have p: "unat p \<le> 128" using assms by (simp add: word_le_nat_alt)
  consider "p = 0" | "p = 128" | "p \<noteq> 0" "\<not> 128 \<le> p" using assms by fastforce
  then show ?thesis
  proof cases
    case 1
    then show ?thesis using unat_u128_less [of base] unat_u128_less [of addr]
      by (simp add: v6_match_def)
  next
    case 2
    then show ?thesis by (auto simp: v6_match_def word_unat_eq_iff)
  next
    case 3
    then show ?thesis
      by (auto simp: v6_match_def Let_def and_high_mask_eq_iff drop_bit_eq_iff_div)
  qed
qed

section \<open>The contract of subnets\<close>

lemmas cidr_eval [text_eval] = cidr_parse_def max_prefix_def

text \<open>Numeric value and width of an address, for the statement of membership.\<close>

definition ip_width :: "ip_addr \<Rightarrow> nat" where
  "ip_width a = (case a of V4 _ \<Rightarrow> 32 | V6 _ \<Rightarrow> 128)"

definition ip_num :: "ip_addr \<Rightarrow> nat" where
  "ip_num a = (case a of V4 v \<Rightarrow> unat v | V6 v \<Rightarrow> unat v)"

lemma cidr_contains_iff_block:
  assumes "cidr_wf c"
  shows "cidr_contains c ip \<longleftrightarrow>
    is_ipv4 ip = is_ipv4 (cidr_base c) \<and>
    ip_num ip div 2 ^ (ip_width ip - unat (cidr_prefix c))
      = ip_num (cidr_base c) div 2 ^ (ip_width ip - unat (cidr_prefix c))"
  using assms
  by (cases ip; cases "cidr_base c")
    (auto simp: cidr_wf_def max_prefix_def ip_num_def ip_width_def v4_match_bits v6_match_bits)

lemma cidr_parse_wf: "cidr_parse s = Inr c \<Longrightarrow> cidr_wf c"
  by (auto simp: cidr_parse_def cidr_wf_def Let_def not_less split: if_splits)

lemma cidr_new_wf: "cidr_new base p = Inr c \<Longrightarrow> cidr_wf c \<and> cidr_base c = base \<and> cidr_prefix c = p"
  by (auto simp: cidr_new_def cidr_wf_def split: if_splits)

lemma cidr_new_ok: "p \<le> max_prefix base \<Longrightarrow> cidr_new base p = Inr \<lparr>cidr_base = base, cidr_prefix = p\<rparr>"
  by (simp add: cidr_new_def)

lemma cidr_contains_base: "cidr_contains c (cidr_base c)"
  by (cases "cidr_base c") (simp_all add: v4_match_def v6_match_def)

lemma slash_notin_show_ipv4: "CHR ''/'' \<notin> set (show_ipv4 a)"
proof
  assume "CHR ''/'' \<in> set (show_ipv4 a)"
  then show False by (auto simp: digit_val_def dest!: show_ipv4_chars)
qed

lemma cidr_parse_show_v4:
  assumes "cidr_wf c" and "cidr_base c = V4 a"
  shows "cidr_parse (show_cidr c) = Inr c"
proof -
  have "split_once CHR ''/'' (show_cidr c) = Some (show_ipv4 a, show_nat (unat (cidr_prefix c)))"
    using split_once_append [OF slash_notin_show_ipv4] assms(2)
    by (simp add: show_cidr_def show_ip_def)
  then show ?thesis
    using assms by (simp add: cidr_parse_def parse_u8_show parse_ip_show_ipv4 cidr_wf_def Let_def
        not_less)
qed

end
