(* ===== verification/Split.thy ===== *)
theory Split
  imports Cidr
begin

text \<open>
  \<open>crates/core/src/split/config.rs\<close> and \<open>engine.rs\<close>: the split-tunnelling configuration, the
  matching of applications, and \<open>decide\<close>, the priority ladder that sends a connection directly,
  into the tunnel or nowhere. The ladder is refined to an ordered rule list followed by the
  kill switch, and its safety properties are stated on addresses and on pairs of tunnel states.
\<close>

section \<open>Configuration\<close>

datatype split_mode = Inclusive | Exclusive

datatype split_driver = WinpkFilter | WinDivert

datatype app_matcher = ExePath string | ProcessName string

record conn_app =
  exe_path :: "string option"
  process_name :: "string option"

definition file_name :: "string \<Rightarrow> string" where
  "file_name path = rev (takeWhile (\<lambda>c. c \<noteq> CHR 92 \<and> c \<noteq> CHR ''/'') (rev path))"

definition effective_name :: "conn_app \<Rightarrow> string option" where
  "effective_name app =
     (case process_name app of Some n \<Rightarrow> Some n | None \<Rightarrow> map_option file_name (exe_path app))"

definition is_some_and :: "'a option \<Rightarrow> ('a \<Rightarrow> bool) \<Rightarrow> bool" where
  "is_some_and v p = (case v of None \<Rightarrow> False | Some x \<Rightarrow> p x)"

fun app_matches :: "app_matcher \<Rightarrow> conn_app \<Rightarrow> bool" where
  "app_matches (ExePath p) app = is_some_and (exe_path app) (\<lambda>e. eq_ignore_ascii_case e p)"
| "app_matches (ProcessName n) app =
     is_some_and (effective_name app) (\<lambda>x. eq_ignore_ascii_case x n)"

record split_config =
  mode :: split_mode
  apps :: "app_matcher list"
  inherit_children :: bool
  kill_switch :: bool
  force_direct_cidrs :: "string list"
  force_tunnel_cidrs :: "string list"
  server_endpoints :: "string list"
  driver :: split_driver

definition split_config_default :: split_config where
  "split_config_default =
     \<lparr>mode = Inclusive, apps = [], inherit_children = True, kill_switch = False,
      force_direct_cidrs = [], force_tunnel_cidrs = [], server_endpoints = [],
      driver = WinpkFilter\<rparr>"

definition app_selected :: "split_config \<Rightarrow> conn_app \<Rightarrow> bool" where
  "app_selected cfg app = list_ex (\<lambda>m. app_matches m app) (apps cfg)"

definition ALWAYS_BYPASS_CIDRS :: "string list" where
  "ALWAYS_BYPASS_CIDRS =
     [''10.0.0.0/8'', ''172.16.0.0/12'', ''192.168.0.0/16'', ''127.0.0.0/8'', ''169.254.0.0/16'',
      ''224.0.0.0/4'', ''255.255.255.255/32'', ''::1/128'', ''fe80::/10'', ''fc00::/7'',
      ''ff00::/8'']"

section \<open>The decision engine\<close>

datatype action = Direct | Tunnel | Block

record conn_request =
  req_app :: conn_app
  dst_ip :: ip_addr
  dst_port :: u16

datatype route = RouteDirect | RouteTunnel

definition cidrs_contain :: "string list \<Rightarrow> ip_addr \<Rightarrow> bool" where
  "cidrs_contain list ip =
     list_ex (\<lambda>c. cidr_contains c ip) (List.map_filter (\<lambda>s. result_ok (cidr_parse s)) list)"

definition endpoint_ip :: "string \<Rightarrow> ip_addr option" where
  "endpoint_ip e =
     (case parse_ip e of
        Some ip \<Rightarrow> Some ip
      | None \<Rightarrow> Option.bind (rsplit_once CHR '':'' e) (\<lambda>(host, _). parse_ip host))"

definition decide :: "conn_request \<Rightarrow> split_config \<Rightarrow> bool \<Rightarrow> action" where
  "decide req cfg tunnel_up =
     (if list_ex (\<lambda>e. endpoint_ip e = Some (dst_ip req)) (server_endpoints cfg) then Direct
      else if cidrs_contain ALWAYS_BYPASS_CIDRS (dst_ip req) then Direct
      else if cidrs_contain (force_direct_cidrs cfg) (dst_ip req) then Direct
      else
        let intended =
          (if cidrs_contain (force_tunnel_cidrs cfg) (dst_ip req) then RouteTunnel
           else let selected = app_selected cfg (req_app req)
                in (case mode cfg of
                      Inclusive \<Rightarrow> if selected then RouteTunnel else RouteDirect
                    | Exclusive \<Rightarrow> if selected then RouteDirect else RouteTunnel))
        in (case intended of
              RouteDirect \<Rightarrow> Direct
            | RouteTunnel \<Rightarrow>
                if tunnel_up then Tunnel else if kill_switch cfg then Block else Direct))"

section \<open>The abstract ladder\<close>

text \<open>
  The priority ladder as data: tiers in order, each with the test it makes and the route it asks
  for; the kill switch is applied to the route afterwards. \<open>decide\<close> refines it.
\<close>

type_synonym tier = "(conn_request \<Rightarrow> bool) \<times> route"

definition ladder :: "split_config \<Rightarrow> tier list" where
  "ladder cfg =
     [(\<lambda>r. \<exists>e \<in> set (server_endpoints cfg). endpoint_ip e = Some (dst_ip r), RouteDirect),
      (\<lambda>r. cidrs_contain ALWAYS_BYPASS_CIDRS (dst_ip r), RouteDirect),
      (\<lambda>r. cidrs_contain (force_direct_cidrs cfg) (dst_ip r), RouteDirect),
      (\<lambda>r. cidrs_contain (force_tunnel_cidrs cfg) (dst_ip r), RouteTunnel),
      (\<lambda>r. app_selected cfg (req_app r),
        case mode cfg of Inclusive \<Rightarrow> RouteTunnel | Exclusive \<Rightarrow> RouteDirect)]"

definition ladder_default :: "split_config \<Rightarrow> route" where
  "ladder_default cfg = (case mode cfg of Inclusive \<Rightarrow> RouteDirect | Exclusive \<Rightarrow> RouteTunnel)"

primrec eval_ladder :: "tier list \<Rightarrow> conn_request \<Rightarrow> route \<Rightarrow> route" where
  "eval_ladder [] r d = d"
| "eval_ladder (t # ts) r d = (if fst t r then snd t else eval_ladder ts r d)"

definition apply_route :: "route \<Rightarrow> bool \<Rightarrow> bool \<Rightarrow> action" where
  "apply_route rt tunnel_up kill =
     (case rt of RouteDirect \<Rightarrow> Direct
      | RouteTunnel \<Rightarrow> if tunnel_up then Tunnel else if kill then Block else Direct)"

interpretation ladder: first_match "\<lambda>t r. fst t r" snd eval_ladder
  by unfold_locales simp_all

lemma decide_refines_ladder:
  "decide req cfg up = apply_route (eval_ladder (ladder cfg) req (ladder_default cfg)) up (kill_switch cfg)"
  by (auto simp: decide_def ladder_def ladder_default_def apply_route_def list_ex_iff Let_def
      split: split_mode.splits)

lemma apply_route_simps [simp]:
  "apply_route RouteDirect up k = Direct"
  "apply_route RouteTunnel True k = Tunnel"
  "apply_route RouteTunnel False True = Block"
  "apply_route RouteTunnel False False = Direct"
  by (simp_all add: apply_route_def)

lemma apply_route_eq_Tunnel: "apply_route rt up k = Tunnel \<longleftrightarrow> rt = RouteTunnel \<and> up"
  by (auto simp: apply_route_def split: route.splits)

lemma apply_route_eq_Block: "apply_route rt up k = Block \<longleftrightarrow> rt = RouteTunnel \<and> \<not> up \<and> k"
  by (auto simp: apply_route_def split: route.splits)

section \<open>Facts\<close>

lemma is_some_and_simps [simp]: "is_some_and None p = False" "is_some_and (Some x) p = p x"
  by (simp_all add: is_some_and_def)

lemma cidrs_contain_iff:
  "cidrs_contain list ip \<longleftrightarrow> (\<exists>s \<in> set list. \<exists>c. cidr_parse s = Inr c \<and> cidr_contains c ip)"
proof (induction list)
  case Nil
  show ?case by (simp add: cidrs_contain_def map_filter_simps)
next
  case (Cons s list)
  then show ?case
    by (cases "cidr_parse s") (auto simp: cidrs_contain_def map_filter_simps)
qed

lemma cidrs_contain_Cons:
  "cidr_parse s = Inr c \<Longrightarrow> cidrs_contain (s # list) ip \<longleftrightarrow> cidr_contains c ip \<or> cidrs_contain list ip"
  by (auto simp: cidrs_contain_iff)

lemma decide_direct_tier:
  assumes "t < 3" and "fst (ladder cfg ! t) req"
  shows "decide req cfg up = Direct"
proof -
  have "eval_ladder (ladder cfg) req d = RouteDirect" for d
    using assms by (auto simp: ladder_def numeral_eq_Suc less_Suc_eq)
  then show ?thesis by (simp add: decide_refines_ladder)
qed

section \<open>Properties\<close>

text \<open>Membership in the bypass list, spelled out on the numeric value of an address.\<close>

definition lan_v4 :: "nat \<Rightarrow> bool" where
  "lan_v4 n \<longleftrightarrow>
     n div 2 ^ 24 = 10 \<or> n div 2 ^ 20 = 172 * 16 + 1 \<or> n div 2 ^ 16 = 192 * 256 + 168
     \<or> n div 2 ^ 24 = 127 \<or> n div 2 ^ 16 = 169 * 256 + 254 \<or> n div 2 ^ 28 = 14 \<or> n = 2 ^ 32 - 1"

definition lan_v6 :: "nat \<Rightarrow> bool" where
  "lan_v6 n \<longleftrightarrow>
     n = 1 \<or> n div 2 ^ 118 = 1018 \<or> n div 2 ^ 121 = 126 \<or> n div 2 ^ 120 = 255"

lemma bypass_parse:
  "cidr_parse ''10.0.0.0/8'' = Inr \<lparr>cidr_base = V4 0x0A000000, cidr_prefix = 8\<rparr>"
  "cidr_parse ''172.16.0.0/12'' = Inr \<lparr>cidr_base = V4 0xAC100000, cidr_prefix = 12\<rparr>"
  "cidr_parse ''192.168.0.0/16'' = Inr \<lparr>cidr_base = V4 0xC0A80000, cidr_prefix = 16\<rparr>"
  "cidr_parse ''127.0.0.0/8'' = Inr \<lparr>cidr_base = V4 0x7F000000, cidr_prefix = 8\<rparr>"
  "cidr_parse ''169.254.0.0/16'' = Inr \<lparr>cidr_base = V4 0xA9FE0000, cidr_prefix = 16\<rparr>"
  "cidr_parse ''224.0.0.0/4'' = Inr \<lparr>cidr_base = V4 0xE0000000, cidr_prefix = 4\<rparr>"
  "cidr_parse ''255.255.255.255/32'' = Inr \<lparr>cidr_base = V4 0xFFFFFFFF, cidr_prefix = 32\<rparr>"
  "cidr_parse ''::1/128'' = Inr \<lparr>cidr_base = V6 1, cidr_prefix = 128\<rparr>"
  "cidr_parse ''fe80::/10'' =
     Inr \<lparr>cidr_base = V6 0xFE800000000000000000000000000000, cidr_prefix = 10\<rparr>"
  "cidr_parse ''fc00::/7'' =
     Inr \<lparr>cidr_base = V6 0xFC000000000000000000000000000000, cidr_prefix = 7\<rparr>"
  "cidr_parse ''ff00::/8'' =
     Inr \<lparr>cidr_base = V6 0xFF000000000000000000000000000000, cidr_prefix = 8\<rparr>"
  by (simp_all add: text_eval)

lemma bypass_contains_iff:
  "cidrs_contain ALWAYS_BYPASS_CIDRS ip \<longleftrightarrow>
     (case ip of V4 a \<Rightarrow> lan_v4 (unat a) | V6 a \<Rightarrow> lan_v6 (unat a))"
  by (cases ip)
    (simp_all add: ALWAYS_BYPASS_CIDRS_def cidrs_contain_Cons [OF bypass_parse(1)]
      cidrs_contain_Cons [OF bypass_parse(2)] cidrs_contain_Cons [OF bypass_parse(3)]
      cidrs_contain_Cons [OF bypass_parse(4)] cidrs_contain_Cons [OF bypass_parse(5)]
      cidrs_contain_Cons [OF bypass_parse(6)] cidrs_contain_Cons [OF bypass_parse(7)]
      cidrs_contain_Cons [OF bypass_parse(8)] cidrs_contain_Cons [OF bypass_parse(9)]
      cidrs_contain_Cons [OF bypass_parse(10)] cidrs_contain_Cons [OF bypass_parse(11)]
      cidrs_contain_iff [of "[]"] v4_match_bits v6_match_bits lan_v4_def lan_v6_def)

lemma route_when_up: "decide req cfg True = Tunnel \<longleftrightarrow>
    eval_ladder (ladder cfg) req (ladder_default cfg) = RouteTunnel"
  by (simp add: decide_refines_ladder apply_route_eq_Tunnel)

text \<open>
  C1. No leak past the kill switch: with the kill switch on, a connection that the ladder sends
  into the tunnel when the tunnel is up is blocked when it is down, and nothing else is blocked;
  it never falls back to the direct path.
\<close>

theorem kill_switch_no_leak:
  assumes "kill_switch cfg"
  shows "(decide req cfg False = Block \<longleftrightarrow> decide req cfg True = Tunnel)
    \<and> (decide req cfg False = Direct \<longleftrightarrow> decide req cfg True = Direct)"
  using assms
  by (cases "eval_ladder (ladder cfg) req (ladder_default cfg)")
    (simp_all add: decide_refines_ladder)

text \<open>
  C19. The local network is never touched: an address of the private, loopback, link-local,
  multicast or broadcast ranges (and their IPv6 counterparts) goes out directly whatever the
  configuration, the application and the tunnel state are.
\<close>

theorem lan_always_direct:
  assumes "case dst_ip req of V4 a \<Rightarrow> lan_v4 (unat a) | V6 a \<Rightarrow> lan_v6 (unat a)"
  shows "decide req cfg up = Direct"
proof (rule decide_direct_tier)
  show "fst (ladder cfg ! 1) req"
    using assms by (simp add: ladder_def bypass_contains_iff)
qed simp

text \<open>
  When a connection is tunnelled: exactly when the tunnel is up, the destination is neither a
  VPN server, a local address nor a forced-direct one, and it is forced into the tunnel or the
  application's selection agrees with the mode.
\<close>

theorem decide_tunnel_iff:
  "decide req cfg up = Tunnel \<longleftrightarrow>
     up \<and> \<not> (\<exists>e \<in> set (server_endpoints cfg). endpoint_ip e = Some (dst_ip req))
     \<and> \<not> cidrs_contain ALWAYS_BYPASS_CIDRS (dst_ip req)
     \<and> \<not> cidrs_contain (force_direct_cidrs cfg) (dst_ip req)
     \<and> (cidrs_contain (force_tunnel_cidrs cfg) (dst_ip req)
        \<or> (app_selected cfg (req_app req) \<longleftrightarrow> mode cfg = Inclusive))"
  by (auto simp: decide_refines_ladder apply_route_eq_Tunnel ladder_def ladder_default_def
      split: split_mode.splits)

text \<open>
  The hairpin exclusion recognises a server written as an IPv4 address with any port: traffic
  to that server is always direct, so the tunnel's own packets are never captured.
\<close>

theorem hairpin_v4_direct:
  assumes "show_ipv4 a @ '':'' @ show_nat (unat (port :: u16)) \<in> set (server_endpoints cfg)"
    and "dst_ip req = V4 a"
  shows "decide req cfg up = Direct"
proof (rule decide_direct_tier)
  let ?e = "show_ipv4 a @ '':'' @ show_nat (unat port)"
  have colon: "digit_val CHR '':'' = None" by (simp add: digit_val_def)
  have "CHR '':'' \<notin> set (show_nat (unat port))"
    by (rule show_nat_no_sep) simp
  then have "rsplit_once CHR '':'' ?e = Some (show_ipv4 a, show_nat (unat port))"
    using rsplit_once_append [of "CHR '':''" "show_nat (unat port)" "show_ipv4 a"] by simp
  moreover have "parse_ip ?e = None"
    using read_ipv4_addr_show [of "CHR '':'' # show_nat (unat port)" a] colon
    by (simp add: parse_ip_def)
  ultimately have "endpoint_ip ?e = Some (V4 a)"
    by (simp add: endpoint_ip_def parse_ip_show_ipv4)
  with assms show "fst (ladder cfg ! 0) req" by (auto simp: ladder_def)
qed simp

text \<open>The bracketed form of an IPv6 server with a port is not recognised.\<close>

lemma hairpin_v6_bracket_unrecognised: "endpoint_ip ''[2001:db8::1]:443'' = None"
  by (simp add: endpoint_ip_def text_eval)

section \<open>Witnesses\<close>

definition sample_app :: conn_app where
  "sample_app = \<lparr>exe_path = Some ''C:/app.exe'', process_name = None\<rparr>"

definition sample_request :: "u32 \<Rightarrow> conn_request" where
  "sample_request a = \<lparr>req_app = sample_app, dst_ip = V4 a, dst_port = 443\<rparr>"

definition sample_config :: split_config where
  "sample_config = split_config_default\<lparr>apps := [ProcessName ''APP.exe''], kill_switch := True,
     server_endpoints := [''203.0.113.9:443'']\<rparr>"

theorem kill_switch_no_leak_witness:
  "kill_switch sample_config
   \<and> (decide (sample_request 0x01020304) sample_config False = Block
      \<longleftrightarrow> decide (sample_request 0x01020304) sample_config True = Tunnel)"
  using kill_switch_no_leak [of sample_config "sample_request 0x01020304"]
  by (simp add: sample_config_def)

theorem lan_always_direct_witness:
  "lan_v4 (unat (0xC0A8010A :: u32)) \<and> decide (sample_request 0xC0A8010A) sample_config True = Direct"
proof -
  have h: "lan_v4 (unat (0xC0A8010A :: u32))" by (simp add: lan_v4_def)
  show ?thesis
    using h lan_always_direct [of "sample_request 0xC0A8010A" sample_config True]
    by (simp add: sample_request_def)
qed

theorem hairpin_v4_direct_witness:
  "decide (sample_request 0xCB007109) sample_config True = Direct"
proof (rule hairpin_v4_direct [where a = "0xCB007109" and port = "443"])
  show "show_ipv4 0xCB007109 @ '':'' @ show_nat (unat (443 :: u16)) \<in> set (server_endpoints sample_config)"
    by (simp add: sample_config_def show_ipv4_def text_eval show_nat.simps char_of_eq_iff)
qed (simp add: sample_request_def)

end
