(* ===== verification/Routing.thy ===== *)
theory Routing
  imports Split
begin

text \<open>
  \<open>crates/core/src/routing\<close>: domain rules, routing rules with their criteria, first-match
  evaluation and the preset rule sets. Suffix rules are shown to compare whole domain labels, and
  \<open>evaluate\<close> is an instance of the ordered-rule-list interface.
\<close>

section \<open>Domain rules\<close>

datatype domain_rule = Full string | Suffix string | Keyword string

definition host_norm :: "string \<Rightarrow> string" where
  "host_norm host = to_ascii_lowercase (trim_end_matches CHR ''.'' host)"

definition suffix_norm :: "string \<Rightarrow> string" where
  "suffix_norm d = to_ascii_lowercase (trim_start_matches CHR ''.'' d)"

fun domain_matches :: "domain_rule \<Rightarrow> string \<Rightarrow> bool" where
  "domain_matches (Full d) host = (host_norm host = to_ascii_lowercase d)"
| "domain_matches (Suffix d) host =
     (let h = host_norm host; d = suffix_norm d in h = d \<or> suffix (''.'' @ d) h)"
| "domain_matches (Keyword k) host = sublist (to_ascii_lowercase k) (host_norm host)"

section \<open>Rules\<close>

datatype route_action = RDirect | RProxy "string option" | RBlock

record rule =
  domains :: "domain_rule list"
  ip_cidrs :: "ip_cidr list"
  processes :: "app_matcher list"
  ports :: "u16 list"
  geosite :: "string list"
  geoip :: "string list"
  rule_action :: route_action

definition rule_default :: rule where
  "rule_default = \<lparr>domains = [], ip_cidrs = [], processes = [], ports = [], geosite = [],
     geoip = [], rule_action = RDirect\<rparr>"

record route_request =
  rq_domain :: "string option"
  rq_ip :: "ip_addr option"
  rq_port :: u16
  rq_app :: conn_app

definition rule_matches :: "rule \<Rightarrow> route_request \<Rightarrow> bool" where
  "rule_matches r req =
     (if geosite r \<noteq> [] \<or> geoip r \<noteq> [] then False
      else if domains r \<noteq> []
              \<and> \<not> is_some_and (rq_domain req) (\<lambda>h. list_ex (\<lambda>d. domain_matches d h) (domains r))
        then False
      else if ip_cidrs r \<noteq> []
              \<and> \<not> is_some_and (rq_ip req) (\<lambda>ip. list_ex (\<lambda>c. cidr_contains c ip) (ip_cidrs r))
        then False
      else if processes r \<noteq> [] \<and> \<not> list_ex (\<lambda>m. app_matches m (rq_app req)) (processes r) then False
      else if ports r \<noteq> [] \<and> \<not> List.member (ports r) (rq_port req) then False
      else True)"

definition rule_matches_sans_ip :: "rule \<Rightarrow> route_request \<Rightarrow> bool" where
  "rule_matches_sans_ip r req =
     (if geosite r \<noteq> [] \<or> geoip r \<noteq> [] then False
      else if domains r \<noteq> []
              \<and> \<not> is_some_and (rq_domain req) (\<lambda>h. list_ex (\<lambda>d. domain_matches d h) (domains r))
        then False
      else if processes r \<noteq> [] \<and> \<not> list_ex (\<lambda>m. app_matches m (rq_app req)) (processes r) then False
      else if ports r \<noteq> [] \<and> \<not> List.member (ports r) (rq_port req) then False
      else True)"

fun evaluate :: "rule list \<Rightarrow> route_request \<Rightarrow> route_action \<Rightarrow> route_action" where
  "evaluate [] req dflt = dflt"
| "evaluate (r # rules) req dflt =
     (if rule_matches r req then rule_action r else evaluate rules req dflt)"

section \<open>Presets\<close>

definition all_proxy :: "rule list" where
  "all_proxy = [rule_default\<lparr>rule_action := RProxy None\<rparr>]"

definition all_direct :: "rule list" where
  "all_direct = [rule_default\<lparr>rule_action := RDirect\<rparr>]"

definition direct_domains :: "string list \<Rightarrow> rule list" where
  "direct_domains ss =
     map (\<lambda>s. rule_default\<lparr>domains := [Suffix s], rule_action := RDirect\<rparr>) ss"

definition suffix_rule :: "string list \<Rightarrow> route_action \<Rightarrow> rule" where
  "suffix_rule ss act =
     rule_default\<lparr>domains := map Suffix ss, rule_action := act\<rparr>"

definition bypass_ru :: "rule list" where
  "bypass_ru =
     [suffix_rule [''ru'', ''su'', ''xn--p1ai'', ''vk.com'', ''vk.cc'', ''userapi.com'',
        ''mycdn.me''] RDirect,
      rule_default\<lparr>rule_action := RProxy None\<rparr>]"

definition discord_only :: "rule list" where
  "discord_only =
     [suffix_rule [''discord.com'', ''discord.gg'', ''discordapp.com'', ''discordapp.net'',
        ''discord.media'', ''discordcdn.com''] (RProxy None),
      rule_default\<lparr>rule_action := RDirect\<rparr>]"

text \<open>The registry without the display texts: identifier and rules.\<close>

definition presets :: "(string \<times> rule list) list" where
  "presets = [(''all-proxy'', all_proxy), (''all-direct'', all_direct),
     (''bypass-ru'', bypass_ru), (''discord'', discord_only)]"

interpretation routing: first_match rule_matches rule_action evaluate
  by unfold_locales simp_all

section \<open>Domain labels\<close>

text \<open>The labels of a normalised name; a suffix rule is meant to compare them.\<close>

abbreviation labels :: "string \<Rightarrow> string list" where
  "labels s \<equiv> split_on CHR ''.'' s"

lemma split_on_Cons_sep: "split_on c (a @ c # b) = split_on c a @ split_on c b"
proof (induction a)
  case (Cons x a)
  then show ?case by (cases "split_on c a") auto
qed simp

lemma join_split_on: "join [c] (split_on c s) = s"
proof (induction s)
  case (Cons x s)
  then show ?case
    by (cases "split_on c s"; cases "tl (split_on c s)") auto
qed simp

lemma join_append: "xs \<noteq> [] \<Longrightarrow> ys \<noteq> [] \<Longrightarrow> join sep (xs @ ys) = join sep xs @ sep @ join sep ys"
proof (induction xs)
  case (Cons x xs)
  then show ?case by (cases xs; cases ys) auto
qed simp

lemma suffix_labels_iff: "d = h \<or> suffix (c # d) h \<longleftrightarrow> suffix (split_on c d) (split_on c h)"
proof
  assume "d = h \<or> suffix (c # d) h"
  then show "suffix (split_on c d) (split_on c h)"
    by (auto simp: suffix_def split_on_Cons_sep)
next
  assume "suffix (split_on c d) (split_on c h)"
  then obtain pre where pre: "split_on c h = pre @ split_on c d" by (auto simp: suffix_def)
  then have "h = join [c] (pre @ split_on c d)" by (metis join_split_on)
  then show "d = h \<or> suffix (c # d) h"
    by (cases "pre = []") (auto simp: join_append join_split_on suffix_def)
qed

lemma domain_matches_suffix:
  "domain_matches (Suffix d) host \<longleftrightarrow> suffix (labels (suffix_norm d)) (labels (host_norm host))"
  using suffix_labels_iff [of "suffix_norm d" "host_norm host" "CHR ''.''"]
  by (auto simp: Let_def)

lemma host_norm_dot: "host_norm (host @ ''.'') = host_norm host"
  by (simp add: host_norm_def trim_end_matches_def)

lemma lower_char_dot: "lower_char c = CHR ''.'' \<longleftrightarrow> c = CHR ''.''"
  by (auto simp: lower_char_def Let_def char_of_eq_iff take_bit_eq_mod)

lemma trim_end_lowercase:
  "trim_end_matches CHR ''.'' (to_ascii_lowercase s) = to_ascii_lowercase (trim_end_matches CHR ''.'' s)"
  by (simp add: trim_end_matches_def to_ascii_lowercase_def dropWhile_map comp_def lower_char_dot
      rev_map)

lemma host_norm_lowercase: "host_norm (to_ascii_lowercase host) = host_norm host"
  by (simp add: host_norm_def trim_end_lowercase)

lemma domain_matches_cong: "host_norm a = host_norm b \<Longrightarrow> domain_matches r a = domain_matches r b"
  by (cases r) auto

section \<open>Matching\<close>

lemma rule_matches_iff:
  "rule_matches r req \<longleftrightarrow> geosite r = [] \<and> geoip r = []
     \<and> (domains r = [] \<or> (\<exists>h. rq_domain req = Some h \<and> (\<exists>d \<in> set (domains r). domain_matches d h)))
     \<and> (ip_cidrs r = [] \<or> (\<exists>ip. rq_ip req = Some ip \<and> (\<exists>c \<in> set (ip_cidrs r). cidr_contains c ip)))
     \<and> (processes r = [] \<or> (\<exists>m \<in> set (processes r). app_matches m (rq_app req)))
     \<and> (ports r = [] \<or> rq_port req \<in> set (ports r))"
  by (auto simp: rule_matches_def list_ex_iff is_some_and_def split: option.splits if_splits)

lemma rule_matches_sans_ip_iff:
  "rule_matches r req \<longleftrightarrow> rule_matches_sans_ip r req
     \<and> (ip_cidrs r = [] \<or> (\<exists>ip. rq_ip req = Some ip \<and> (\<exists>c \<in> set (ip_cidrs r). cidr_contains c ip)))"
  by (auto simp: rule_matches_def rule_matches_sans_ip_def list_ex_iff is_some_and_def
      split: option.splits if_splits)

lemma catch_all_matches [simp]: "rule_matches (rule_default\<lparr>rule_action := a\<rparr>) req"
  by (simp add: rule_matches_def rule_default_def)

lemma suffix_rule_matches:
  assumes "ss \<noteq> []"
  shows "rule_matches (suffix_rule ss a) req \<longleftrightarrow>
    (\<exists>h s. rq_domain req = Some h \<and> s \<in> set ss \<and> suffix (labels (suffix_norm s)) (labels (host_norm h)))"
  using assms by (auto simp: rule_matches_iff suffix_rule_def rule_default_def domain_matches_suffix
      simp del: domain_matches.simps)

lemma suffix_rule_matches_norm:
  assumes "ss \<noteq> []" and "\<forall>s \<in> set ss. suffix_norm s = s"
  shows "rule_matches (suffix_rule ss a) req \<longleftrightarrow>
    (\<exists>h s. rq_domain req = Some h \<and> s \<in> set ss \<and> suffix (labels s) (labels (host_norm h)))"
  unfolding suffix_rule_matches [OF assms(1)] using assms(2) by fastforce

lemma suffix_rule_action [simp]: "rule_action (suffix_rule ss a) = a"
  by (simp add: suffix_rule_def)

section \<open>Properties\<close>

text \<open>
  A suffix rule compares whole labels: after case folding and dropping outer dots, the rule
  matches exactly when its labels are a suffix of the host's labels. So \<open>example.com\<close> covers every
  subdomain and never \<open>notexample.com\<close> or \<open>example.com.evil.net\<close>.
\<close>

theorem suffix_rule_compares_labels:
  "domain_matches (Suffix d) host \<longleftrightarrow> suffix (labels (suffix_norm d)) (labels (host_norm host))"
  by (rule domain_matches_suffix)

text \<open>
  Every domain rule ignores the case of the host and one more trailing dot.
\<close>

lemma domain_matches_normalised:
  "domain_matches r (to_ascii_lowercase host) = domain_matches r host
   \<and> domain_matches r (host @ ''.'') = domain_matches r host"
  by (intro conjI domain_matches_cong host_norm_lowercase host_norm_dot)

text \<open>
  First match wins: the result of \<open>evaluate\<close> is the default when no rule matches, and
  otherwise the action of the earliest matching rule, whatever follows it and whatever the
  default is.
\<close>

theorem evaluate_first_match:
  "(\<exists>before r rest. rules = before @ r # rest \<and> rule_matches r req
       \<and> list_all (\<lambda>x. \<not> rule_matches x req) before \<and> evaluate rules req d = rule_action r)
   \<or> (list_all (\<lambda>x. \<not> rule_matches x req) rules \<and> evaluate rules req d = d)"
proof (cases rule: routing.eval_cases [of rules req d])
  case default
  then show ?thesis by (simp add: list_all_iff)
next
  case (rule before r rest)
  then show ?thesis by (auto simp: list_all_iff)
qed

text \<open>
  The lazy-resolution split of a rule is exact: a rule matches iff it matches without looking
  at the address and, when it has subnets, the request's address lies in one of them. This is what
  lets the engine resolve a name only for rules that differ by the address alone.
\<close>

theorem rule_matches_splits_ip:
  "rule_matches r req \<longleftrightarrow> rule_matches_sans_ip r req
     \<and> (ip_cidrs r = [] \<or> (\<exists>ip. rq_ip req = Some ip \<and> list_ex (\<lambda>c. cidr_contains c ip) (ip_cidrs r)))"
  by (simp add: rule_matches_sans_ip_iff list_ex_iff)

definition ru_suffixes :: "string list" where
  "ru_suffixes = [''ru'', ''su'', ''xn--p1ai'', ''vk.com'', ''vk.cc'', ''userapi.com'', ''mycdn.me'']"

text \<open>
  The preset \<open>bypass-ru\<close> sends exactly the names under its seven suffixes directly and
  everything else, address-only requests included, to the proxy; its result never depends on the
  default action.
\<close>

theorem bypass_ru_routes:
  "evaluate bypass_ru req d =
     (if \<exists>h s. rq_domain req = Some h \<and> s \<in> set ru_suffixes \<and> suffix (labels s) (labels (host_norm h))
      then RDirect else RProxy None)"
proof -
  have "rule_matches (hd bypass_ru) req \<longleftrightarrow> (\<exists>h s. rq_domain req = Some h
      \<and> s \<in> set ru_suffixes \<and> suffix (labels s) (labels (host_norm h)))"
    unfolding bypass_ru_def list.sel ru_suffixes_def
    by (rule suffix_rule_matches_norm) (simp_all add: suffix_norm_def text_eval)
  then show ?thesis by (simp add: bypass_ru_def)
qed

end
