(* ===== verification/Geo.thy ===== *)
theory Geo
  imports Protobuf Routing
begin

text \<open>
  \<open>crates/core/src/geo\<close>: the geosite and geoip databases. The three message loops of each parser
  are functions on the protobuf reader whose termination is the progress of the reader. A database
  written by the message builders is read back entry by entry; the suffix loop of
  \<open>DomainSet::matches\<close> is the label-wise suffix relation of the routing rules; no parsed subnet is
  ever wider than its prefix field says.
\<close>

section \<open>Geosite\<close>

abbreviation (input) TYPE_PLAIN :: u64 where "TYPE_PLAIN \<equiv> 0"
abbreviation (input) TYPE_REGEX :: u64 where "TYPE_REGEX \<equiv> 1"
abbreviation (input) TYPE_DOMAIN :: u64 where "TYPE_DOMAIN \<equiv> 2"
abbreviation (input) TYPE_FULL :: u64 where "TYPE_FULL \<equiv> 3"

record domain_set =
  ds_full :: "string set"
  ds_suffix :: "string set"
  ds_keyword :: "string list"
  skipped_regex :: nat

definition domain_set_default :: domain_set where
  "domain_set_default = \<lparr>ds_full = {}, ds_suffix = {}, ds_keyword = [], skipped_regex = 0\<rparr>"

function suffix_loop :: "string set \<Rightarrow> string \<Rightarrow> bool" where
  "suffix_loop S rest =
     (case find_str ''.'' rest of None \<Rightarrow> False
      | Some pos \<Rightarrow> (let rest = drop (pos + 1) rest in if rest \<in> S then True else suffix_loop S rest))"
  by pat_completeness auto
termination
  by (relation "measure (\<lambda>(_, s). length s)") (auto dest: find_str_SomeD)

declare suffix_loop.simps [simp del]

definition domain_set_matches :: "domain_set \<Rightarrow> string \<Rightarrow> bool" where
  "domain_set_matches ds host =
     (let h = to_ascii_lowercase (trim_end_matches CHR ''.'' host)
      in if h \<in> ds_full ds then True
         else if ds_suffix ds \<noteq> {} \<and> (h \<in> ds_suffix ds \<or> suffix_loop (ds_suffix ds) h) then True
         else list_ex (\<lambda>k. sublist k h) (ds_keyword ds))"

definition domain_set_len :: "domain_set \<Rightarrow> nat" where
  "domain_set_len ds = card (ds_full ds) + card (ds_suffix ds) + length (ds_keyword ds)"

definition domain_set_add :: "domain_set \<Rightarrow> u64 \<Rightarrow> string \<Rightarrow> domain_set" where
  "domain_set_add ds dtype value =
     (let v = to_ascii_lowercase (trim_end_matches CHR ''.'' value)
      in if v = [] then ds
         else if dtype = TYPE_FULL then ds\<lparr>ds_full := insert v (ds_full ds)\<rparr>
         else if dtype = TYPE_DOMAIN then ds\<lparr>ds_suffix := insert v (ds_suffix ds)\<rparr>
         else if dtype = TYPE_PLAIN then ds\<lparr>ds_keyword := ds_keyword ds @ [v]\<rparr>
         else if dtype = TYPE_REGEX then ds\<lparr>skipped_regex := skipped_regex ds + 1\<rparr>
         else ds)"

type_synonym geosite_db = "string \<rightharpoonup> domain_set"

function parse_domain_loop :: "reader \<Rightarrow> u64 \<Rightarrow> string \<Rightarrow> geo_error + u64 \<times> string" where
  "parse_domain_loop r dtype value =
     (if reader_eof r then Inr (dtype, value)
      else rbind (read_tag r) (\<lambda>(field, wire, r).
        if field = 1 \<and> wire = WIRE_VARINT
          then rbind (read_varint r) (\<lambda>(dtype, r). parse_domain_loop r dtype value)
        else if field = 2 \<and> wire = WIRE_LEN
          then rbind (read_string r) (\<lambda>(value, r). parse_domain_loop r dtype value)
        else rbind (skip wire r) (\<lambda>r. parse_domain_loop r dtype value)))"
  by pat_completeness auto
termination
  by (relation "measure (\<lambda>(r, _). length (rd_buf r) - rd_pos r)")
    (auto dest!: reader_advances advances_measure)

declare parse_domain_loop.simps [simp del]

definition parse_domain :: "bytes \<Rightarrow> geo_error + u64 \<times> string" where
  "parse_domain bs = parse_domain_loop (reader_new bs) TYPE_PLAIN []"

function parse_geosite_loop :: "reader \<Rightarrow> string \<Rightarrow> domain_set \<Rightarrow> geo_error + string \<times> domain_set" where
  "parse_geosite_loop r code ds =
     (if reader_eof r then Inr (code, ds)
      else rbind (read_tag r) (\<lambda>(field, wire, r).
        if field = 1 \<and> wire = WIRE_LEN
          then rbind (read_string r) (\<lambda>(s, r). parse_geosite_loop r (to_ascii_lowercase s) ds)
        else if field = 2 \<and> wire = WIRE_LEN
          then rbind (read_bytes r) (\<lambda>(b, r). rbind (parse_domain b) (\<lambda>(dtype, value).
                 parse_geosite_loop r code (domain_set_add ds dtype value)))
        else rbind (skip wire r) (\<lambda>r. parse_geosite_loop r code ds)))"
  by pat_completeness auto
termination
  by (relation "measure (\<lambda>(r, _). length (rd_buf r) - rd_pos r)")
    (auto dest!: reader_advances advances_measure)

declare parse_geosite_loop.simps [simp del]

definition parse_geosite :: "bytes \<Rightarrow> geo_error + string \<times> domain_set" where
  "parse_geosite bs = parse_geosite_loop (reader_new bs) [] domain_set_default"

function geosite_loop :: "reader \<Rightarrow> geosite_db \<Rightarrow> geo_error + geosite_db" where
  "geosite_loop r db =
     (if reader_eof r then Inr db
      else rbind (read_tag r) (\<lambda>(field, wire, r).
        if field = 1 \<and> wire = WIRE_LEN
          then rbind (read_bytes r) (\<lambda>(b, r). rbind (parse_geosite b) (\<lambda>(code, ds).
                 geosite_loop r (if code \<noteq> [] then db(code \<mapsto> ds) else db)))
        else rbind (skip wire r) (\<lambda>r. geosite_loop r db)))"
  by pat_completeness auto
termination
  by (relation "measure (\<lambda>(r, _). length (rd_buf r) - rd_pos r)")
    (auto dest!: reader_advances advances_measure)

declare geosite_loop.simps [simp del]

definition geosite_parse :: "bytes \<Rightarrow> geo_error + geosite_db" where
  "geosite_parse bs = geosite_loop (reader_new bs) Map.empty"

definition geosite_category :: "geosite_db \<Rightarrow> string \<Rightarrow> domain_set option" where
  "geosite_category db name = db (to_ascii_lowercase name)"

definition geosite_matches :: "geosite_db \<Rightarrow> string \<Rightarrow> string \<Rightarrow> bool" where
  "geosite_matches db category host =
     (case db (to_ascii_lowercase category) of None \<Rightarrow> False | Some ds \<Rightarrow> domain_set_matches ds host)"

section \<open>Geoip\<close>

type_synonym geoip_db = "string \<rightharpoonup> ip_cidr list"

function parse_cidr_loop ::
    "reader \<Rightarrow> bytes option \<Rightarrow> u64 option \<Rightarrow> geo_error + bytes option \<times> u64 option" where
  "parse_cidr_loop r ip_bytes pfx =
     (if reader_eof r then Inr (ip_bytes, pfx)
      else rbind (read_tag r) (\<lambda>(field, wire, r).
        if field = 1 \<and> wire = WIRE_LEN
          then rbind (read_bytes r) (\<lambda>(b, r). parse_cidr_loop r (Some b) pfx)
        else if field = 2 \<and> wire = WIRE_VARINT
          then rbind (read_varint r) (\<lambda>(p, r). parse_cidr_loop r ip_bytes (Some p))
        else rbind (skip wire r) (\<lambda>r. parse_cidr_loop r ip_bytes pfx)))"
  by pat_completeness auto
termination
  by (relation "measure (\<lambda>(r, _). length (rd_buf r) - rd_pos r)")
    (auto dest!: reader_advances advances_measure)

declare parse_cidr_loop.simps [simp del]

definition geo_ip_addr :: "bytes option \<Rightarrow> ip_addr option" where
  "geo_ip_addr ip_bytes =
     (case ip_bytes of
        Some b \<Rightarrow> if length b = 4 then Some (V4 (from_be b))
                  else if length b = 16 then Some (V6 (from_be b)) else None
      | None \<Rightarrow> None)"

definition parse_cidr :: "bytes \<Rightarrow> geo_error + ip_cidr option" where
  "parse_cidr bs =
     rbind (parse_cidr_loop (reader_new bs) None None) (\<lambda>(ip_bytes, pfx).
       case geo_ip_addr ip_bytes of None \<Rightarrow> Inr None
       | Some ip \<Rightarrow>
           (let max = (if is_ipv4 ip then 32 else 128)
            in case pfx of
                 Some p \<Rightarrow> if p \<le> max then Inr (result_ok (cidr_new ip (ucast p))) else Inr None
               | None \<Rightarrow> Inr None))"

function parse_geoip_loop :: "reader \<Rightarrow> string \<Rightarrow> ip_cidr list \<Rightarrow> geo_error + string \<times> ip_cidr list" where
  "parse_geoip_loop r code cidrs =
     (if reader_eof r then Inr (code, cidrs)
      else rbind (read_tag r) (\<lambda>(field, wire, r).
        if field = 1 \<and> wire = WIRE_LEN
          then rbind (read_string r) (\<lambda>(s, r). parse_geoip_loop r (to_ascii_lowercase s) cidrs)
        else if field = 2 \<and> wire = WIRE_LEN
          then rbind (read_bytes r) (\<lambda>(b, r). rbind (parse_cidr b) (\<lambda>c.
                 parse_geoip_loop r code (case c of Some c \<Rightarrow> cidrs @ [c] | None \<Rightarrow> cidrs)))
        else rbind (skip wire r) (\<lambda>r. parse_geoip_loop r code cidrs)))"
  by pat_completeness auto
termination
  by (relation "measure (\<lambda>(r, _). length (rd_buf r) - rd_pos r)")
    (auto dest!: reader_advances advances_measure)

declare parse_geoip_loop.simps [simp del]

definition parse_geoip :: "bytes \<Rightarrow> geo_error + string \<times> ip_cidr list" where
  "parse_geoip bs = parse_geoip_loop (reader_new bs) [] []"

function geoip_loop :: "reader \<Rightarrow> geoip_db \<Rightarrow> geo_error + geoip_db" where
  "geoip_loop r db =
     (if reader_eof r then Inr db
      else rbind (read_tag r) (\<lambda>(field, wire, r).
        if field = 1 \<and> wire = WIRE_LEN
          then rbind (read_bytes r) (\<lambda>(b, r). rbind (parse_geoip b) (\<lambda>(code, cidrs).
                 geoip_loop r (if code \<noteq> [] then db(code \<mapsto> cidrs) else db)))
        else rbind (skip wire r) (\<lambda>r. geoip_loop r db)))"
  by pat_completeness auto
termination
  by (relation "measure (\<lambda>(r, _). length (rd_buf r) - rd_pos r)")
    (auto dest!: reader_advances advances_measure)

declare geoip_loop.simps [simp del]

definition geoip_parse :: "bytes \<Rightarrow> geo_error + geoip_db" where
  "geoip_parse bs = geoip_loop (reader_new bs) Map.empty"

definition geoip_matches :: "geoip_db \<Rightarrow> string \<Rightarrow> ip_addr \<Rightarrow> bool" where
  "geoip_matches db country ip =
     (case db (to_ascii_lowercase country) of None \<Rightarrow> False
      | Some cidrs \<Rightarrow> list_ex (\<lambda>c. cidr_contains c ip) cidrs)"

definition geoip_country :: "geoip_db \<Rightarrow> string \<Rightarrow> ip_cidr list option" where
  "geoip_country db code = db (to_ascii_lowercase code)"

section \<open>Message builders\<close>

definition domain_msg :: "u64 \<Rightarrow> string \<Rightarrow> bytes" where
  "domain_msg dtype value = field_varint 1 dtype @ pb_len 2 (str_bytes value)"

definition geosite_entry :: "string \<Rightarrow> bytes list \<Rightarrow> bytes" where
  "geosite_entry code doms = pb_len 1 (str_bytes code) @ concat (map (pb_len 2) doms)"

definition cidr_msg :: "bytes \<Rightarrow> u64 \<Rightarrow> bytes" where
  "cidr_msg ip pfx = pb_len 1 ip @ field_varint 2 pfx"

definition geoip_entry :: "string \<Rightarrow> bytes list \<Rightarrow> bytes" where
  "geoip_entry code cidrs = pb_len 1 (str_bytes code) @ concat (map (pb_len 2) cidrs)"

definition pb_list :: "u32 \<Rightarrow> bytes list \<Rightarrow> bytes" where
  "pb_list field entries = concat (map (pb_len field) entries)"

section \<open>Domain matching\<close>

lemma find_str_char: "find_str [c] s = map_option (\<lambda>(a, b). length a) (split_once c s)"
proof (induction s)
  case (Cons x s)
  then show ?case
    by (cases "split_once c s") (auto simp: split_once_def simp del: dropWhile_eq_Nil_conv split: list.splits)
qed (simp add: split_once_def)

lemma suffix_Cons_split: "c \<notin> set a \<Longrightarrow> suffix (c # s) (a @ c # b) \<longleftrightarrow> s = b \<or> suffix (c # s) b"
  by (induction a) (auto simp: suffix_Cons)

lemma suffix_loop_iff: "suffix_loop S h \<longleftrightarrow> (\<exists>s \<in> S. suffix (CHR ''.'' # s) h)"
proof (induction S h rule: suffix_loop.induct)
  case (1 S h)
  show ?case
  proof (cases "split_once CHR ''.'' h")
    case None
    then have "CHR ''.'' \<notin> set h" by (simp add: split_once_None)
    then show ?thesis
      using None by (auto simp: suffix_loop.simps [of S h] find_str_char suffix_def)
  next
    case (Some ab)
    obtain a b where ab: "ab = (a, b)" by (cases ab)
    have h: "h = a @ CHR ''.'' # b" "CHR ''.'' \<notin> set a" using Some ab split_once_iff by auto
    have pos: "find_str ''.'' h = Some (length a)" using Some ab by (simp add: find_str_char)
    have "drop (length a + 1) h = b" using h(1) by simp
    then show ?thesis
      using 1 [OF pos refl] pos suffix_Cons_split [OF h(2), of _ b]
      by (subst suffix_loop.simps) (auto simp: h(1))
  qed
qed

lemma domain_set_matches_iff:
  "domain_set_matches ds host \<longleftrightarrow> host_norm host \<in> ds_full ds
     \<or> (\<exists>s \<in> ds_suffix ds. suffix (labels s) (labels (host_norm host)))
     \<or> (\<exists>k \<in> set (ds_keyword ds). sublist k (host_norm host))"
  by (auto simp: domain_set_matches_def Let_def suffix_loop_iff list_ex_iff host_norm_def
      simp flip: suffix_labels_iff)

text \<open>What one record of a category contributes.\<close>

definition entry_matches :: "u64 \<times> string \<Rightarrow> string \<Rightarrow> bool" where
  "entry_matches e host =
     (case e of (t, v) \<Rightarrow> host_norm v \<noteq> [] \<and>
        (t = TYPE_FULL \<and> host_norm host = host_norm v
         \<or> t = TYPE_DOMAIN \<and> suffix (labels (host_norm v)) (labels (host_norm host))
         \<or> t = TYPE_PLAIN \<and> sublist (host_norm v) (host_norm host)))"

lemma domain_set_add_matches:
  "domain_set_matches (domain_set_add ds t v) host
     \<longleftrightarrow> domain_set_matches ds host \<or> entry_matches (t, v) host"
  by (auto simp: domain_set_matches_iff domain_set_add_def entry_matches_def host_norm_def Let_def)

lemma domain_set_fold_matches:
  "domain_set_matches (foldl (\<lambda>ds (t, v). domain_set_add ds t v) ds es) host
     \<longleftrightarrow> domain_set_matches ds host \<or> (\<exists>e \<in> set es. entry_matches e host)"
  by (induction es arbitrary: ds) (auto simp: domain_set_add_matches)

lemma domain_set_default_matches [simp]: "\<not> domain_set_matches domain_set_default host"
  by (simp add: domain_set_matches_iff domain_set_default_def)

section \<open>Reading back what the builders wrote\<close>

lemma parse_domain_msg:
  assumes "is_str v" and "length (domain_msg t v) < 2 ^ 64"
  shows "parse_domain (domain_msg t v) = Inr (t, v)"
proof -
  let ?r = "reader_new (domain_msg t v)"
  have buf: "rd_buf ?r = domain_msg t v" by (simp add: reader_new_def)
  have rem: "remaining ?r = field_varint 1 t @ pb_len 2 (str_bytes v) @ []"
    by (simp add: domain_msg_def)
  obtain r1 r2 where 1: "read_tag ?r = Inr (1, 0, r1)" "read_varint r1 = Inr (t, r2)"
      "remaining r2 = pb_len 2 (str_bytes v) @ []" "rd_buf r2 = rd_buf ?r" "\<not> reader_eof ?r"
    by (rule read_field_varint [OF rem]) simp_all
  have size: "length (rd_buf r2) < 2 ^ 64" using 1(4) buf assms(2) by simp
  obtain r3 r4 where 2: "read_tag r2 = Inr (2, 2, r3)" "read_bytes r3 = Inr (str_bytes v, r4)"
      "remaining r4 = []" "\<not> reader_eof r2"
    by (rule read_field_len [OF 1(3) _ size]) simp_all
  show ?thesis
    unfolding parse_domain_def
    by (simp add: parse_domain_loop.simps [of ?r] parse_domain_loop.simps [of r2]
        parse_domain_loop.simps [of r4] 1(1,2,5) 2(1,4) eof_remaining [of r4] 2(3)
        read_string_iff [OF 2(2) assms(1)])
qed

lemma parse_geosite_loop_domains:
  assumes "remaining r = concat (map (\<lambda>(t, v). pb_len 2 (domain_msg t v)) es)"
    and "length (rd_buf r) < 2 ^ 64" and "\<forall>(t, v) \<in> set es. is_str v"
  shows "parse_geosite_loop r code ds = Inr (code, foldl (\<lambda>ds (t, v). domain_set_add ds t v) ds es)"
  using assms
proof (induction es arbitrary: r ds)
  case Nil
  then show ?case by (simp add: parse_geosite_loop.simps [of r] eof_remaining)
next
  case (Cons e es)
  obtain t v where e: "e = (t, v)" by (cases e)
  have rem: "remaining r = pb_len 2 (domain_msg t v)
      @ concat (map (\<lambda>(t, v). pb_len 2 (domain_msg t v)) es)"
    using Cons.prems(1) e by simp
  obtain r1 r2 where 1: "read_tag r = Inr (2, 2, r1)" "read_bytes r1 = Inr (domain_msg t v, r2)"
      "remaining r2 = concat (map (\<lambda>(t, v). pb_len 2 (domain_msg t v)) es)" "rd_buf r2 = rd_buf r"
      "\<not> reader_eof r" "length (domain_msg t v) < length (rd_buf r)"
    by (rule read_field_len [OF rem _ Cons.prems(2)]) simp_all
  have "parse_domain (domain_msg t v) = Inr (t, v)"
    by (rule parse_domain_msg) (use Cons.prems 1(6) e in auto)
  then show ?case
    using Cons.IH [OF 1(3)] Cons.prems(2,3) 1(1,2,4,5) e
    by (simp add: parse_geosite_loop.simps [of r])
qed

definition site_entry :: "string \<times> (u64 \<times> string) list \<Rightarrow> bytes" where
  "site_entry e = geosite_entry (fst e) (map (\<lambda>(t, v). domain_msg t v) (snd e))"

definition site_strs :: "string \<times> (u64 \<times> string) list \<Rightarrow> bool" where
  "site_strs e \<longleftrightarrow> is_str (fst e) \<and> (\<forall>(t, v) \<in> set (snd e). is_str v)"

lemma parse_geosite_entry:
  assumes "site_strs e" and "length (site_entry e) < 2 ^ 64"
  shows "parse_geosite (site_entry e) = Inr (to_ascii_lowercase (fst e),
    foldl (\<lambda>ds (t, v). domain_set_add ds t v) domain_set_default (snd e))"
proof -
  let ?r = "reader_new (site_entry e)"
  let ?rest = "concat (map (\<lambda>(t, v). pb_len 2 (domain_msg t v)) (snd e))"
  have size: "length (rd_buf ?r) < 2 ^ 64" using assms(2) by (simp add: reader_new_def)
  have rem: "remaining ?r = pb_len 1 (str_bytes (fst e)) @ ?rest"
    by (simp add: site_entry_def geosite_entry_def comp_def split_def)
  obtain r1 r2 where 1: "read_tag ?r = Inr (1, 2, r1)" "read_bytes r1 = Inr (str_bytes (fst e), r2)"
      "remaining r2 = ?rest" "rd_buf r2 = rd_buf ?r" "\<not> reader_eof ?r"
    by (rule read_field_len [OF rem _ size]) simp_all
  have strs: "is_str (fst e)" "\<forall>(t, v) \<in> set (snd e). is_str v"
    using assms(1) by (simp_all add: site_strs_def)
  show ?thesis
    unfolding parse_geosite_def
    using parse_geosite_loop_domains [OF 1(3) _ strs(2)] size 1(4)
    by (simp add: parse_geosite_loop.simps [of ?r] 1(1,5) read_string_iff [OF 1(2) strs(1)])
qed

abbreviation site_categories :: "(string \<times> (u64 \<times> string) list) list \<Rightarrow> (string \<times> domain_set) list" where
  "site_categories es \<equiv> map (\<lambda>e. (to_ascii_lowercase (fst e),
      foldl (\<lambda>ds (t, v). domain_set_add ds t v) domain_set_default (snd e)))
    (filter (\<lambda>e. fst e \<noteq> []) es)"

lemma geosite_loop_entries:
  assumes "remaining r = pb_list 1 (map site_entry es)"
    and "length (rd_buf r) < 2 ^ 64" and "\<forall>e \<in> set es. site_strs e"
  shows "geosite_loop r db = Inr (db ++ map_of (rev (site_categories es)))"
  using assms
proof (induction es arbitrary: r db)
  case Nil
  then show ?case by (simp add: geosite_loop.simps [of r] eof_remaining pb_list_def)
next
  case (Cons e es)
  have rem: "remaining r = pb_len 1 (site_entry e) @ pb_list 1 (map site_entry es)"
    using Cons.prems(1) by (simp add: pb_list_def)
  obtain r1 r2 where 1: "read_tag r = Inr (1, 2, r1)" "read_bytes r1 = Inr (site_entry e, r2)"
      "remaining r2 = pb_list 1 (map site_entry es)" "rd_buf r2 = rd_buf r"
      "\<not> reader_eof r" "length (site_entry e) < length (rd_buf r)"
    by (rule read_field_len [OF rem _ Cons.prems(2)]) simp_all
  have "parse_geosite (site_entry e) = Inr (to_ascii_lowercase (fst e),
      foldl (\<lambda>ds (t, v). domain_set_add ds t v) domain_set_default (snd e))"
    by (rule parse_geosite_entry) (use Cons.prems 1(6) in auto)
  moreover have "to_ascii_lowercase (fst e) = [] \<longleftrightarrow> fst e = []"
    by (simp add: to_ascii_lowercase_def)
  ultimately show ?case
    using Cons.IH [OF 1(3)] Cons.prems(2,3) 1(1,2,4,5)
    by (simp add: geosite_loop.simps [of r] map_add_def fun_eq_iff split: option.splits)
qed

section \<open>Geoip\<close>

lemma ucast_u8_le: "(p :: u64) \<le> 128 \<Longrightarrow> unat (ucast p :: u8) = unat p"
  by (simp add: word_le_nat_alt unsigned_ucast_eq take_bit_eq_mod)

lemma parse_cidr_msg:
  assumes "length (cidr_msg ip p) < 2 ^ 64"
  shows "parse_cidr (cidr_msg ip p) =
    Inr (if length ip = 4 \<and> p \<le> 32 then Some \<lparr>cidr_base = V4 (from_be ip), cidr_prefix = ucast p\<rparr>
         else if length ip = 16 \<and> p \<le> 128 then Some \<lparr>cidr_base = V6 (from_be ip), cidr_prefix = ucast p\<rparr>
         else None)"
proof -
  let ?r = "reader_new (cidr_msg ip p)"
  have size: "length (rd_buf ?r) < 2 ^ 64" using assms by (simp add: reader_new_def)
  have rem: "remaining ?r = pb_len 1 ip @ field_varint 2 p @ []" by (simp add: cidr_msg_def)
  obtain r1 r2 where 1: "read_tag ?r = Inr (1, 2, r1)" "read_bytes r1 = Inr (ip, r2)"
      "remaining r2 = field_varint 2 p @ []" "rd_buf r2 = rd_buf ?r" "\<not> reader_eof ?r"
    by (rule read_field_len [OF rem _ size]) simp_all
  obtain r3 r4 where 2: "read_tag r2 = Inr (2, 0, r3)" "read_varint r3 = Inr (p, r4)"
      "remaining r4 = []" "\<not> reader_eof r2"
    by (rule read_field_varint [OF 1(3)]) simp_all
  have "parse_cidr_loop ?r None None = Inr (Some ip, Some p)"
    by (simp add: parse_cidr_loop.simps [of ?r] parse_cidr_loop.simps [of r2]
        parse_cidr_loop.simps [of r4] 1(1,2,5) 2 eof_remaining [of r4])
  then show ?thesis
    using ucast_u8_le [of p]
    by (auto simp: parse_cidr_def geo_ip_addr_def cidr_new_def max_prefix_def Let_def
        word_le_nat_alt word_less_nat_alt)
qed

text \<open>The subnet of one record, as a list of at most one: what \<open>parse_geoip\<close> appends.\<close>

definition cidr_record :: "bytes \<times> u64 \<Rightarrow> ip_cidr list" where
  "cidr_record e =
     (if length (fst e) = 4 \<and> snd e \<le> 32
        then [\<lparr>cidr_base = V4 (from_be (fst e)), cidr_prefix = ucast (snd e)\<rparr>]
      else if length (fst e) = 16 \<and> snd e \<le> 128
        then [\<lparr>cidr_base = V6 (from_be (fst e)), cidr_prefix = ucast (snd e)\<rparr>]
      else [])"

lemma parse_geoip_loop_cidrs:
  assumes "remaining r = concat (map (\<lambda>(ip, p). pb_len 2 (cidr_msg ip p)) es)"
    and "length (rd_buf r) < 2 ^ 64"
  shows "parse_geoip_loop r code cs = Inr (code, cs @ concat (map cidr_record es))"
  using assms
proof (induction es arbitrary: r cs)
  case Nil
  then show ?case by (simp add: parse_geoip_loop.simps [of r] eof_remaining)
next
  case (Cons e es)
  obtain ip p where e: "e = (ip, p)" by (cases e)
  have rem: "remaining r = pb_len 2 (cidr_msg ip p)
      @ concat (map (\<lambda>(ip, p). pb_len 2 (cidr_msg ip p)) es)"
    using Cons.prems(1) e by simp
  obtain r1 r2 where 1: "read_tag r = Inr (2, 2, r1)" "read_bytes r1 = Inr (cidr_msg ip p, r2)"
      "remaining r2 = concat (map (\<lambda>(ip, p). pb_len 2 (cidr_msg ip p)) es)" "rd_buf r2 = rd_buf r"
      "\<not> reader_eof r" "length (cidr_msg ip p) < length (rd_buf r)"
    by (rule read_field_len [OF rem _ Cons.prems(2)]) simp_all
  then have "length (cidr_msg ip p) < 2 ^ 64" using Cons.prems(2) by simp
  note msg = parse_cidr_msg [OF this]
  show ?case
    using Cons.IH [OF 1(3)] Cons.prems(2) 1(1,2,4,5) e
    by (simp add: parse_geoip_loop.simps [of r] msg cidr_record_def)
qed

text \<open>
  Membership in one record: the address has the record's family and shares its first \<open>p\<close> bits.
\<close>

definition record_contains :: "bytes \<times> u64 \<Rightarrow> ip_addr \<Rightarrow> bool" where
  "record_contains e addr \<longleftrightarrow>
    (case e of (ip, p) \<Rightarrow>
       length ip = 4 \<and> unat p \<le> 32 \<and>
         (\<exists>a. addr = V4 a \<and> unat a div 2 ^ (32 - unat p) = unat (from_be ip :: u32) div 2 ^ (32 - unat p))
     \<or> length ip = 16 \<and> unat p \<le> 128 \<and>
         (\<exists>a. addr = V6 a \<and> unat a div 2 ^ (128 - unat p) = unat (from_be ip :: u128) div 2 ^ (128 - unat p)))"

lemma cidr_record_contains:
  "list_ex (\<lambda>c. cidr_contains c addr) (cidr_record e) \<longleftrightarrow> record_contains e addr"
  using ucast_u8_le [of "snd e"]
  by (cases addr; cases e)
    (auto simp: cidr_record_def record_contains_def v4_match_bits v6_match_bits word_le_nat_alt)

lemma list_ex_concat_map: "list_ex P (concat (map f xs)) \<longleftrightarrow> (\<exists>x \<in> set xs. list_ex P (f x))"
  by (auto simp: list_ex_iff)

definition country_entry :: "string \<times> (bytes \<times> u64) list \<Rightarrow> bytes" where
  "country_entry e = geoip_entry (fst e) (map (\<lambda>(ip, p). cidr_msg ip p) (snd e))"

lemma parse_geoip_entry:
  assumes "is_str (fst e)" and "length (country_entry e) < 2 ^ 64"
  shows "parse_geoip (country_entry e) = Inr (to_ascii_lowercase (fst e), concat (map cidr_record (snd e)))"
proof -
  let ?r = "reader_new (country_entry e)"
  let ?rest = "concat (map (\<lambda>(ip, p). pb_len 2 (cidr_msg ip p)) (snd e))"
  have size: "length (rd_buf ?r) < 2 ^ 64" using assms(2) by (simp add: reader_new_def)
  have rem: "remaining ?r = pb_len 1 (str_bytes (fst e)) @ ?rest"
    by (simp add: country_entry_def geoip_entry_def comp_def split_def)
  obtain r1 r2 where 1: "read_tag ?r = Inr (1, 2, r1)" "read_bytes r1 = Inr (str_bytes (fst e), r2)"
      "remaining r2 = ?rest" "rd_buf r2 = rd_buf ?r" "\<not> reader_eof ?r"
    by (rule read_field_len [OF rem _ size]) simp_all
  show ?thesis
    unfolding parse_geoip_def
    using parse_geoip_loop_cidrs [OF 1(3)] size 1(4)
    by (simp add: parse_geoip_loop.simps [of ?r] 1(1,5) read_string_iff [OF 1(2) assms(1)])
qed

lemma geoip_loop_entries:
  assumes "remaining r = pb_list 1 (map country_entry es)"
    and "length (rd_buf r) < 2 ^ 64" and "\<forall>e \<in> set es. is_str (fst e)"
  shows "geoip_loop r db = Inr (db ++ map_of (rev (map (\<lambda>e. (to_ascii_lowercase (fst e),
     concat (map cidr_record (snd e)))) (filter (\<lambda>e. fst e \<noteq> []) es))))"
  using assms
proof (induction es arbitrary: r db)
  case Nil
  then show ?case by (simp add: geoip_loop.simps [of r] eof_remaining pb_list_def)
next
  case (Cons e es)
  have rem: "remaining r = pb_len 1 (country_entry e) @ pb_list 1 (map country_entry es)"
    using Cons.prems(1) by (simp add: pb_list_def)
  obtain r1 r2 where 1: "read_tag r = Inr (1, 2, r1)" "read_bytes r1 = Inr (country_entry e, r2)"
      "remaining r2 = pb_list 1 (map country_entry es)" "rd_buf r2 = rd_buf r"
      "\<not> reader_eof r" "length (country_entry e) < length (rd_buf r)"
    by (rule read_field_len [OF rem _ Cons.prems(2)]) simp_all
  have "parse_geoip (country_entry e) = Inr (to_ascii_lowercase (fst e), concat (map cidr_record (snd e)))"
    by (rule parse_geoip_entry) (use Cons.prems 1(6) in auto)
  moreover have "to_ascii_lowercase (fst e) = [] \<longleftrightarrow> fst e = []"
    by (simp add: to_ascii_lowercase_def)
  ultimately show ?case
    using Cons.IH [OF 1(3)] Cons.prems(2,3) 1(1,2,4,5)
    by (simp add: geoip_loop.simps [of r] map_add_def fun_eq_iff split: option.splits)
qed

text \<open>Every subnet of a parsed database has a prefix within its address family, whatever the bytes.\<close>

lemma parse_cidr_wf: "parse_cidr bs = Inr (Some c) \<Longrightarrow> cidr_wf c"
  by (auto simp: parse_cidr_def Let_def split: option.splits if_splits dest: cidr_new_wf)

lemma parse_geoip_loop_step:
  assumes "parse_geoip_loop r code cs = Inr out"
  shows "out = (code, cs) \<or> (\<exists>r' code' cs'. advances r r' \<and> parse_geoip_loop r' code' cs' = Inr out
    \<and> (cs' = cs \<or> (\<exists>b c. parse_cidr b = Inr (Some c) \<and> cs' = cs @ [c])))"
proof (cases "reader_eof r")
  case True
  then show ?thesis using assms by (simp add: parse_geoip_loop.simps [of r])
next
  case False
  then obtain f w r1 where tag: "read_tag r = Inr (f, w, r1)"
    using assms by (auto simp: parse_geoip_loop.simps [of r])
  note adv = advances_trans [OF read_tag_advances [OF tag]]
  show ?thesis
    using assms False
    by (subst (asm) parse_geoip_loop.simps,
        auto simp: tag split: if_splits option.splits dest!: reader_advances [THEN adv])
      blast
qed

lemma parse_geoip_loop_wf:
  "parse_geoip_loop r code cs = Inr (code', cs') \<Longrightarrow> \<forall>c \<in> set cs. cidr_wf c \<Longrightarrow> \<forall>c \<in> set cs'. cidr_wf c"
proof (induction "length (rd_buf r) - rd_pos r" arbitrary: r code cs rule: less_induct)
  case less
  from parse_geoip_loop_step [OF less.prems(1)] consider "(code', cs') = (code, cs)"
    | r1 c1 cs1 where "advances r r1" "parse_geoip_loop r1 c1 cs1 = Inr (code', cs')"
      "cs1 = cs \<or> (\<exists>b c. parse_cidr b = Inr (Some c) \<and> cs1 = cs @ [c])"
    by blast
  then show ?case
  proof cases
    case 1
    then show ?thesis using less.prems(2) by simp
  next
    case 2
    then have "\<forall>c \<in> set cs1. cidr_wf c" using less.prems(2) parse_cidr_wf by auto
    then show ?thesis using less.hyps [OF advances_measure [OF 2(1)] 2(2)] by blast
  qed
qed

definition geoip_wf :: "geoip_db \<Rightarrow> bool" where
  "geoip_wf db \<longleftrightarrow> (\<forall>cs \<in> ran db. \<forall>c \<in> set cs. cidr_wf c)"

lemma geoip_wf_upd: "geoip_wf db \<Longrightarrow> \<forall>c \<in> set cs. cidr_wf c \<Longrightarrow> geoip_wf (db(code \<mapsto> cs))"
  by (auto simp: geoip_wf_def ran_def)

lemma geoip_loop_step:
  assumes "geoip_loop r db = Inr out" and "geoip_wf db"
  shows "out = db \<or> (\<exists>r' db'. advances r r' \<and> geoip_loop r' db' = Inr out \<and> geoip_wf db')"
proof (cases "reader_eof r")
  case True
  then show ?thesis using assms by (simp add: geoip_loop.simps [of r])
next
  case False
  then obtain f w r1 where tag: "read_tag r = Inr (f, w, r1)"
    using assms by (auto simp: geoip_loop.simps [of r])
  note adv = advances_trans [OF read_tag_advances [OF tag]]
  have wf: "geoip_wf (if c \<noteq> [] then db(c \<mapsto> cs) else db)" if "parse_geoip b = Inr (c, cs)" for b c cs
    using geoip_wf_upd [OF assms(2), of cs c] that assms(2) parse_geoip_loop_wf [of "reader_new b" "[]" "[]" c cs]
    by (simp add: parse_geoip_def)
  show ?thesis
  proof (cases "f = 1 \<and> w = WIRE_LEN")
    case True
    then obtain b r2 c cs where "read_bytes r1 = Inr (b, r2)" "parse_geoip b = Inr (c, cs)"
      "geoip_loop r2 (if c \<noteq> [] then db(c \<mapsto> cs) else db) = Inr out"
      using assms(1) False tag by (subst (asm) geoip_loop.simps) auto
    then show ?thesis using adv wf reader_advances(3) by blast
  next
    case nf: False
    then obtain r2 where "skip w r1 = Inr r2" "geoip_loop r2 db = Inr out"
      using assms(1) False tag by (subst (asm) geoip_loop.simps) auto
    then show ?thesis using adv assms(2) skip_advances by blast
  qed
qed

lemma geoip_loop_wf: "geoip_loop r db = Inr out \<Longrightarrow> geoip_wf db \<Longrightarrow> geoip_wf out"
proof (induction "length (rd_buf r) - rd_pos r" arbitrary: r db rule: less_induct)
  case less
  then show ?case using geoip_loop_step [OF less.prems] advances_measure by metis
qed

section \<open>Properties\<close>

text \<open>
  The protobuf varint reader inverts the writer on every 64-bit value, at any position of a
  buffer and whatever follows: it returns the value and stands right behind it.
\<close>

theorem varint_roundtrip:
  "read_varint \<lparr>rd_buf = pre @ put_varint v @ post, rd_pos = length pre\<rparr>
   = Inr (v, \<lparr>rd_buf = pre @ put_varint v @ post, rd_pos = length pre + length (put_varint v)\<rparr>)"
  using read_varint_put [of "\<lparr>rd_buf = pre @ put_varint v @ post, rd_pos = length pre\<rparr>" v post]
  by (simp add: remaining_def after_def)

text \<open>
  A geosite database written with the message builders parses, and a category matches a host
  exactly when one of the records of its last entry does: full names compare equal, domain records
  compare whole labels, plain records are substrings, other types never match; case and trailing
  dots are ignored throughout.
\<close>

theorem geosite_parse_matches:
  assumes "\<forall>e \<in> set es. site_strs e" and "length (pb_list 1 (map site_entry es)) < 2 ^ 64"
  shows "\<exists>db. geosite_parse (pb_list 1 (map site_entry es)) = Inr db \<and>
    (geosite_matches db cat host \<longleftrightarrow>
       (\<exists>ds. map_of (rev (map (\<lambda>e. (to_ascii_lowercase (fst e), snd e)) (filter (\<lambda>e. fst e \<noteq> []) es)))
               (to_ascii_lowercase cat) = Some ds
             \<and> (\<exists>e \<in> set ds. entry_matches e host)))"
proof -
  let ?build = "foldl (\<lambda>ds (t, v). domain_set_add ds t v) domain_set_default"
  let ?es = "rev (map (\<lambda>e. (to_ascii_lowercase (fst e), snd e)) (filter (\<lambda>e. fst e \<noteq> []) es))"
  have "geosite_parse (pb_list 1 (map site_entry es)) = Inr (map_of (rev (site_categories es)))"
    using geosite_loop_entries [of "reader_new (pb_list 1 (map site_entry es))" es Map.empty] assms
    by (simp add: geosite_parse_def) (simp add: reader_new_def)
  moreover have "rev (site_categories es) = map (\<lambda>(c, ds). (c, ?build ds)) ?es"
    by (simp add: rev_map comp_def)
  then have "map_of (rev (site_categories es)) c = map_option ?build (map_of ?es c)" for c
    by (simp add: map_of_map)
  ultimately show ?thesis
    by (auto simp: geosite_matches_def domain_set_fold_matches split: option.splits)
qed

text \<open>
  A geoip database written with the message builders parses, and a country matches an address
  exactly when one of its records with a well-sized address and a prefix within the family's width
  contains it; a record with any other address length or a prefix field outside the width (256, for
  instance, whose low byte is 0) contributes nothing.
\<close>

theorem geoip_parse_matches:
  assumes "\<forall>e \<in> set es. is_str (fst e)" and "length (pb_list 1 (map country_entry es)) < 2 ^ 64"
  shows "\<exists>db. geoip_parse (pb_list 1 (map country_entry es)) = Inr db \<and>
    (geoip_matches db country addr \<longleftrightarrow>
       (\<exists>rs. map_of (rev (map (\<lambda>e. (to_ascii_lowercase (fst e), snd e)) (filter (\<lambda>e. fst e \<noteq> []) es)))
               (to_ascii_lowercase country) = Some rs
             \<and> (\<exists>e \<in> set rs. record_contains e addr)))"
proof -
  let ?es = "rev (map (\<lambda>e. (to_ascii_lowercase (fst e), snd e)) (filter (\<lambda>e. fst e \<noteq> []) es))"
  let ?cs = "rev (map (\<lambda>e. (to_ascii_lowercase (fst e), concat (map cidr_record (snd e)))) (filter (\<lambda>e. fst e \<noteq> []) es))"
  have "geoip_parse (pb_list 1 (map country_entry es)) = Inr (map_of ?cs)"
    using geoip_loop_entries [of "reader_new (pb_list 1 (map country_entry es))" es Map.empty] assms
    by (simp add: geoip_parse_def) (simp add: reader_new_def)
  moreover have "?cs = map (\<lambda>(c, rs). (c, concat (map cidr_record rs))) ?es"
    by (simp add: rev_map comp_def)
  then have "map_of ?cs c = map_option (\<lambda>rs. concat (map cidr_record rs)) (map_of ?es c)" for c
    by (simp add: map_of_map)
  ultimately show ?thesis
    by (auto simp: geoip_matches_def cidr_record_contains list_ex_concat_map split: option.splits)
qed

text \<open>
  Whatever bytes a geoip file holds, every subnet of a database that parses has a prefix within
  the width of its address family: no subnet becomes a catch-all by truncation, and the mask shift
  of the subnet test stays in range.
\<close>

theorem geoip_parse_wf:
  assumes "geoip_parse bs = Inr db" and "geoip_country db code = Some cs" and "c \<in> set cs"
  shows "cidr_wf c"
  using geoip_loop_wf [of "reader_new bs" Map.empty db] assms
  by (auto simp: geoip_parse_def geoip_country_def geoip_wf_def ran_def)

section \<open>Witnesses\<close>

lemma is_str_ascii: "list_all (\<lambda>c. (of_char c :: nat) < 128) s \<Longrightarrow> is_str s"
  by (auto simp: is_str_def list_all_iff str_bytes_def intro!: utf8_valid_ascii)

lemmas pb_eval = put_varint.simps pb_len_def field_varint_def tag_def pb_list_def str_bytes_def

theorem geosite_parse_matches_witness:
  "\<exists>db. geosite_parse (pb_list 1 (map site_entry [(''google'', [(2, ''Google.com'')])])) = Inr db
     \<and> geosite_matches db ''GOOGLE'' ''www.google.com''"
proof -
  let ?es = "[(''google'', [(2 :: u64, ''Google.com'')])]"
  have "\<forall>e \<in> set ?es. site_strs e" by (simp add: site_strs_def is_str_ascii)
  moreover have "length (pb_list 1 (map site_entry ?es)) < 2 ^ 64"
    by (simp add: site_entry_def geosite_entry_def domain_msg_def pb_eval)
  moreover have "entry_matches (2, ''Google.com'') ''www.google.com''"
    by (simp add: entry_matches_def host_norm_def text_eval suffix_def char_of_def bit_0)
  ultimately show ?thesis
    using geosite_parse_matches [of ?es "''GOOGLE''" "''www.google.com''"]
    by (simp add: text_eval char_of_def bit_0)
qed

theorem geoip_parse_matches_witness:
  "\<exists>db. geoip_parse (pb_list 1 (map country_entry [(''RU'', [([1, 1, 1, 0], 256), ([3, 3, 3, 0], 24)])])) = Inr db
     \<and> geoip_matches db ''ru'' (V4 0x03030307)"
proof -
  let ?es = "[(''RU'', [([1, 1, 1, 0 :: u8], 256 :: u64), ([3, 3, 3, 0], 24)])]"
  have "\<forall>e \<in> set ?es. is_str (fst e)" by (simp add: is_str_ascii)
  moreover have "length (pb_list 1 (map country_entry ?es)) < 2 ^ 64"
    by (simp add: country_entry_def geoip_entry_def cidr_msg_def pb_eval)
  moreover have "record_contains ([3, 3, 3, 0], 24) (V4 0x03030307)"
    by (simp add: record_contains_def from_be_def)
  ultimately show ?thesis
    using geoip_parse_matches [of ?es "''ru''" "V4 0x03030307"]
    by (simp add: text_eval char_of_def bit_0)
qed

lemma sample_geoip:
  "geoip_parse (pb_list 1 [geoip_entry ''ru'' [cidr_msg [1, 1, 1, 0] 24]]) =
     Inr [''ru'' \<mapsto> [\<lparr>cidr_base = V4 0x01010100, cidr_prefix = 24\<rparr>]]"
proof -
  let ?es = "[(''ru'', [([1, 1, 1, 0 :: u8], 24 :: u64)])]"
  have "length (pb_list 1 (map country_entry ?es)) < 2 ^ 64"
    by (simp add: country_entry_def geoip_entry_def cidr_msg_def pb_eval)
  then show ?thesis
    using geoip_loop_entries [of "reader_new (pb_list 1 (map country_entry ?es))" ?es Map.empty]
    by (simp add: geoip_parse_def is_str_ascii reader_new_def remaining_def country_entry_def
        cidr_record_def from_be_def text_eval)
qed

theorem geoip_parse_wf_witness:
  "cidr_wf \<lparr>cidr_base = V4 0x01010100, cidr_prefix = 24\<rparr>"
  using geoip_parse_wf [OF sample_geoip, of "''ru''" "[\<lparr>cidr_base = V4 0x01010100, cidr_prefix = 24\<rparr>]"
      "\<lparr>cidr_base = V4 0x01010100, cidr_prefix = 24\<rparr>"]
  by (simp add: geoip_country_def text_eval)

end
