(* ===== verification/FakeIp.thy ===== *)
theory FakeIp
  imports Cidr
begin

text \<open>
  \<open>crates/net/src/fakeip.rs\<close>: the allocator that gives each domain a synthetic IPv4 address from a
  subnet, round robin, evicting the oldest binding when the range wraps. The two hash maps are
  partial functions, the mutex makes each call one atomic step. The invariant says the two maps are
  inverse to each other and stay inside the range; the range test, which the source writes with
  wrapping subtraction, is shown to be membership in the configured subnet.
\<close>

section \<open>State and operations\<close>

record fake_ip =
  fi_base :: u32
  fi_count :: u32
  fi_cursor :: u32
  dom_to_ip :: "string \<rightharpoonup> u32"
  ip_to_dom :: "u32 \<rightharpoonup> string"

datatype fakeip_error = BadCidr parse_error | NeedIpv4 | RangeTooWide | RangeTooSmall

definition fakeip_new :: "string \<Rightarrow> fakeip_error + fake_ip" where
  "fakeip_new cidr =
     (case cidr_parse cidr of
        Inl e \<Rightarrow> Inl (BadCidr e)
      | Inr c \<Rightarrow>
          (case cidr_base c of
             V6 _ \<Rightarrow> Inl NeedIpv4
           | V4 base_ip \<Rightarrow>
               (let p = cidr_prefix c
                in if p = 0 then Inl RangeTooWide
                   else let count = (if 32 \<le> p then 1 else push_bit (32 - unat p) 1)
                        in if count < 3 then Inl RangeTooSmall
                           else let m = push_bit (32 - unat p) (- 1)
                                in Inr \<lparr>fi_base = base_ip AND m, fi_count = count, fi_cursor = 1,
                                     dom_to_ip = Map.empty, ip_to_dom = Map.empty\<rparr>)))"

definition allocate :: "fake_ip \<Rightarrow> string \<Rightarrow> fake_ip \<times> u32" where
  "allocate g domain =
     (case dom_to_ip g domain of
        Some ip \<Rightarrow> (g, ip)
      | None \<Rightarrow>
          (let offset = fi_cursor g;
               cursor = fi_cursor g + 1;
               cursor = (if fi_count g \<le> cursor then 1 else cursor);
               ip = fi_base g + offset;
               d2i = (case ip_to_dom g ip of
                        Some old \<Rightarrow> if old \<noteq> domain then (dom_to_ip g)(old := None) else dom_to_ip g
                      | None \<Rightarrow> dom_to_ip g)
           in (g\<lparr>fi_cursor := cursor, ip_to_dom := (ip_to_dom g)(ip \<mapsto> domain),
                 dom_to_ip := d2i(domain \<mapsto> ip)\<rparr>, ip)))"

definition domain_of :: "fake_ip \<Rightarrow> ip_addr \<Rightarrow> string option" where
  "domain_of g ip = (case ip of V4 v \<Rightarrow> ip_to_dom g v | V6 _ \<Rightarrow> None)"

definition range_contains :: "fake_ip \<Rightarrow> ip_addr \<Rightarrow> bool" where
  "range_contains g ip = (case ip of V4 v \<Rightarrow> v - fi_base g < fi_count g | V6 _ \<Rightarrow> False)"

section \<open>Invariant\<close>

definition fakeip_wf :: "fake_ip \<Rightarrow> bool" where
  "fakeip_wf g \<longleftrightarrow>
     3 \<le> unat (fi_count g) \<and> unat (fi_base g) + unat (fi_count g) \<le> 2 ^ 32
     \<and> 1 \<le> unat (fi_cursor g) \<and> unat (fi_cursor g) < unat (fi_count g)
     \<and> (\<forall>d ip. dom_to_ip g d = Some ip \<longleftrightarrow> ip_to_dom g ip = Some d)
     \<and> (\<forall>ip \<in> dom (ip_to_dom g). 1 \<le> unat (ip - fi_base g) \<and> unat (ip - fi_base g) < unat (fi_count g))"

lemma fakeip_wfD:
  assumes "fakeip_wf g"
  shows "3 \<le> unat (fi_count g)" "unat (fi_base g) + unat (fi_count g) \<le> 2 ^ 32"
    "1 \<le> unat (fi_cursor g)" "unat (fi_cursor g) < unat (fi_count g)"
    "dom_to_ip g d = Some ip \<longleftrightarrow> ip_to_dom g ip = Some d"
    "ip_to_dom g ip = Some d \<Longrightarrow> 1 \<le> unat (ip - fi_base g) \<and> unat (ip - fi_base g) < unat (fi_count g)"
  using assms by (auto simp: fakeip_wf_def)

section \<open>Construction\<close>

lemma power_two_block:
  fixes a b :: u32
  assumes "n \<le> 31" and "2 ^ n dvd unat b"
  shows "unat (a - b) < 2 ^ n \<longleftrightarrow> unat a div 2 ^ n = unat b div 2 ^ n"
proof -
  obtain k where k: "unat b = 2 ^ n * k" using assms(2) by blast
  have pow: "(2::nat) ^ 32 = 2 ^ n * 2 ^ (32 - n)" using assms(1) by (simp flip: power_add)
  have "2 ^ n * k < 2 ^ n * 2 ^ (32 - n)" using k unat_u32_less [of b] by (simp flip: pow)
  then have bk: "k < 2 ^ (32 - n)" by simp
  show ?thesis
  proof (cases "unat b \<le> unat a")
    case True
    then have "unat (a - b) = unat a - unat b" by (simp add: unat_sub word_le_nat_alt)
    moreover have "unat a - 2 ^ n * k < 2 ^ n \<longleftrightarrow> unat a div 2 ^ n = k"
    proof -
      have "unat a - 2 ^ n * k < 2 ^ n \<longleftrightarrow> unat a < 2 ^ n * Suc k" using True k by auto
      also have "\<dots> \<longleftrightarrow> unat a div 2 ^ n < Suc k"
        by (simp add: div_less_iff_less_mult mult.commute)
      also have "\<dots> \<longleftrightarrow> unat a div 2 ^ n = k"
        using True k by (metis div_le_mono le_antisym less_Suc_eq_le nonzero_mult_div_cancel_left
            order_refl power_not_zero zero_neq_numeral)
      finally show ?thesis .
    qed
    ultimately show ?thesis using k by simp
  next
    case False
    then have lt: "unat a < unat b" by simp
    have "unat a div 2 ^ n < k" using lt k by (simp add: div_less_iff_less_mult mult.commute)
    moreover have "unat (a - b) = 2 ^ 32 + unat a - unat b"
      using lt by (simp add: unat_sub_if_size word_size)
    moreover have "2 ^ n \<le> 2 ^ 32 + unat a - unat b"
    proof -
      have "2 ^ n * k + 2 ^ n \<le> (2::nat) ^ 32"
        unfolding pow using bk by (metis Suc_leI mult_Suc_right add.commute mult_le_mono2)
      then show ?thesis using k by simp
    qed
    ultimately show ?thesis using k by simp
  qed
qed

lemma unat_shifted_one:
  assumes "n \<le> 31"
  shows "unat (push_bit n 1 :: u32) = 2 ^ n" "unat (2 ^ n :: u32) = 2 ^ n"
proof -
  have "(2::nat) ^ n < 2 ^ 32" using assms by (intro power_strict_increasing) auto
  then have "unat (of_nat (2 ^ n) :: u32) = 2 ^ n"
    unfolding unat_of_nat by (simp add: take_bit_eq_mod)
  then show "unat (2 ^ n :: u32) = 2 ^ n" by simp
  then show "unat (push_bit n 1 :: u32) = 2 ^ n" by (simp add: push_bit_eq_mult)
qed

lemma masked_base:
  fixes b :: u32
  shows "2 ^ n dvd unat (b AND push_bit n (- 1))"
    "unat (b AND push_bit n (- 1)) div 2 ^ n = unat b div 2 ^ n"
proof -
  have "take_bit n (b AND push_bit n (- 1)) = 0"
    by (rule bit_word_eqI) (auto simp: bit_simps)
  then have "unat (take_bit n (b AND push_bit n (- 1))) = 0" by simp
  then show "2 ^ n dvd unat (b AND push_bit n (- 1))"
    unfolding unsigned_take_bit_eq by (simp only: take_bit_eq_mod dvd_eq_mod_eq_0)
  have "drop_bit n (b AND NOT (mask n)) = drop_bit n b"
    by (rule bit_word_eqI) (auto simp: bit_simps dest: bit_imp_le_length)
  then have "unat (b AND NOT (mask n)) div 2 ^ n = unat b div 2 ^ n"
    unfolding drop_bit_eq_iff_div .
  then show "unat (b AND push_bit n (- 1)) div 2 ^ n = unat b div 2 ^ n" by simp
qed

text \<open>A successful construction: an IPv4 subnet with a prefix of 1 to 30.\<close>

lemma fakeip_new_Inr:
  assumes "fakeip_new s = Inr g"
  obtains c b n where "cidr_parse s = Inr c" "cidr_base c = V4 b" "n = 32 - unat (cidr_prefix c)"
    "2 \<le> n" "n \<le> 31" "unat (cidr_prefix c) = 32 - n"
    "g = \<lparr>fi_base = b AND push_bit n (- 1), fi_count = push_bit n 1, fi_cursor = 1,
       dom_to_ip = Map.empty, ip_to_dom = Map.empty\<rparr>"
proof -
  from assms obtain c where c: "cidr_parse s = Inr c"
    by (auto simp: fakeip_new_def split: sum.splits)
  with assms obtain b where b: "cidr_base c = V4 b"
    by (auto simp: fakeip_new_def split: ip_addr.splits)
  let ?p = "cidr_prefix c" and ?n = "32 - unat (cidr_prefix c)"
  have nz: "?p \<noteq> 0" and p32: "\<not> 32 \<le> ?p" and g3: "\<not> push_bit ?n (1::u32) < 3"
    and g: "g = \<lparr>fi_base = b AND push_bit ?n (- 1), fi_count = push_bit ?n 1, fi_cursor = 1,
       dom_to_ip = Map.empty, ip_to_dom = Map.empty\<rparr>"
    using assms c b by (auto simp: fakeip_new_def Let_def split: if_splits)
  have "0 < unat ?p" using nz by (simp add: word_neq_0_conv [symmetric] unat_gt_0)
  then have n31: "?n \<le> 31" by simp
  have "unat ?p < 32" using p32 by (simp add: word_le_nat_alt)
  then have up: "unat ?p = 32 - ?n" by simp
  have "3 \<le> (2::nat) ^ ?n"
    using g3 unat_shifted_one [OF n31] by (simp add: word_less_nat_alt)
  then have n2: "2 \<le> ?n" by (cases "?n \<le> 1") (auto simp: le_Suc_eq)
  show thesis by (rule that [OF c b refl n2 n31 up g])
qed

lemma fakeip_new_wf: "fakeip_new s = Inr g \<Longrightarrow> fakeip_wf g"
proof (erule fakeip_new_Inr)
  fix c b n
  assume n: "2 \<le> n" "n \<le> 31"
    and g: "g = \<lparr>fi_base = b AND push_bit n (- 1), fi_count = push_bit n 1, fi_cursor = 1,
       dom_to_ip = Map.empty, ip_to_dom = Map.empty\<rparr>"
  let ?b = "b AND push_bit n (- 1)"
  have pow: "(2::nat) ^ 32 = 2 ^ n * 2 ^ (32 - n)" using n by (simp flip: power_add)
  obtain k where k: "unat ?b = 2 ^ n * k" using masked_base(1) by blast
  have "2 ^ n * k < 2 ^ n * 2 ^ (32 - n)" using k unat_u32_less [of ?b] by (simp flip: pow)
  then have "Suc k \<le> 2 ^ (32 - n)" by simp
  then have "2 ^ n * Suc k \<le> (2::nat) ^ 32" unfolding pow by (rule mult_le_mono2)
  then have "unat ?b + 2 ^ n \<le> 2 ^ 32" using k by simp
  moreover have "(2::nat) ^ 2 \<le> 2 ^ n" using n(1) by (rule power_increasing) simp
  ultimately show "fakeip_wf g"
    using n by (simp add: g fakeip_wf_def unat_shifted_one)
qed

section \<open>Allocation\<close>

lemma fakeip_wf_unbound: "fakeip_wf g \<Longrightarrow> dom_to_ip g d = None \<Longrightarrow> ip_to_dom g ip \<noteq> Some d"
  using fakeip_wfD(5) [of g d ip] by auto

lemma fakeip_wf_inj: "fakeip_wf g \<Longrightarrow> ip_to_dom g a = Some d \<Longrightarrow> ip_to_dom g b = Some d \<Longrightarrow> a = b"
  using fakeip_wfD(5) [of g d a] fakeip_wfD(5) [of g d b] by auto

lemma unat_next_cursor:
  assumes "fakeip_wf g"
  shows "unat (if fi_count g \<le> fi_cursor g + 1 then 1 else fi_cursor g + 1)
    = (if unat (fi_cursor g) + 1 < unat (fi_count g) then unat (fi_cursor g) + 1 else 1)"
proof -
  have "unat (fi_cursor g) < 4294967295"
    using fakeip_wfD(4) [OF assms] unat_u32_less [of "fi_count g"] by linarith
  then have "unat (fi_cursor g + 1) = unat (fi_cursor g) + 1"
    by (simp add: unat_word_ariths)
  then show ?thesis by (auto simp: word_le_nat_alt)
qed

lemma allocate_known: "dom_to_ip g d = Some ip \<Longrightarrow> allocate g d = (g, ip)"
  by (simp add: allocate_def)

lemma allocate_fresh:
  assumes "dom_to_ip g d = None" and "fakeip_wf g"
  shows "allocate g d =
    (g\<lparr>fi_cursor := (if fi_count g \<le> fi_cursor g + 1 then 1 else fi_cursor g + 1),
       ip_to_dom := (ip_to_dom g)(fi_base g + fi_cursor g \<mapsto> d),
       dom_to_ip := (case ip_to_dom g (fi_base g + fi_cursor g) of
                       Some old \<Rightarrow> (dom_to_ip g)(old := None) | None \<Rightarrow> dom_to_ip g)
                    (d \<mapsto> fi_base g + fi_cursor g)\<rparr>, fi_base g + fi_cursor g)"
proof -
  note fakeip_wf_unbound [OF assms(2,1), simp]
  show ?thesis using assms(1) by (auto simp: allocate_def Let_def split: option.splits)
qed

lemma allocate_frame:
  "fi_base (fst (allocate g d)) = fi_base g" "fi_count (fst (allocate g d)) = fi_count g"
  by (auto simp: allocate_def Let_def split: option.splits)

lemma allocate_wf:
  assumes "fakeip_wf g"
  shows "fakeip_wf (fst (allocate g d))"
proof (cases "dom_to_ip g d")
  case (Some ip)
  then show ?thesis using assms by (simp add: allocate_known)
next
  case None
  let ?g = "fst (allocate g d)" and ?ip = "fi_base g + fi_cursor g"
  note fresh = allocate_fresh [OF None assms]
  have bij: "dom_to_ip ?g x = Some y \<longleftrightarrow> ip_to_dom ?g y = Some x" for x y
    using fakeip_wfD(5) [OF assms] fakeip_wf_unbound [OF assms None] fakeip_wf_inj [OF assms]
    by (cases "ip_to_dom g ?ip") (auto simp: fresh)
  have cur: "1 \<le> unat (fi_cursor ?g) \<and> unat (fi_cursor ?g) < unat (fi_count g)"
    using unat_next_cursor [OF assms] fakeip_wfD(1) [OF assms] by (simp add: fresh split: if_splits)
  have rng: "1 \<le> unat (y - fi_base g) \<and> unat (y - fi_base g) < unat (fi_count g)"
    if "ip_to_dom ?g y = Some x" for x y
    using that fakeip_wfD(6) [OF assms, of y x] fakeip_wfD(3,4) [OF assms]
    by (auto simp: fresh split: if_splits)
  show ?thesis
    unfolding fakeip_wf_def allocate_frame using bij cur rng fakeip_wfD(1,2) [OF assms] by blast
qed

lemma allocate_resolves:
  assumes "fakeip_wf g"
  shows "ip_to_dom (fst (allocate g d)) (snd (allocate g d)) = Some d"
    "dom_to_ip (fst (allocate g d)) d = Some (snd (allocate g d))"
proof -
  show "ip_to_dom (fst (allocate g d)) (snd (allocate g d)) = Some d"
    using assms fakeip_wfD(5) [OF assms]
    by (cases "dom_to_ip g d") (auto simp: allocate_known allocate_fresh)
  then show "dom_to_ip (fst (allocate g d)) d = Some (snd (allocate g d))"
    using fakeip_wfD(5) [OF allocate_wf [OF assms]] by blast
qed

text \<open>What an allocation does to the other bindings: only the recycled address changes owner.\<close>

lemma allocate_other:
  assumes "fakeip_wf g" and "d' \<noteq> d" and "dom_to_ip g d' = Some ip"
  shows "dom_to_ip (fst (allocate g d)) d' = (if ip = snd (allocate g d) then None else Some ip)"
proof (cases "dom_to_ip g d")
  case (Some i)
  then have "ip \<noteq> i"
    using assms fakeip_wfD(5) [OF assms(1), of d' ip] fakeip_wfD(5) [OF assms(1), of d i] by auto
  with Some assms show ?thesis by (simp add: allocate_known)
next
  case None
  let ?new = "fi_base g + fi_cursor g"
  have ip: "ip_to_dom g ip = Some d'" using assms(3) fakeip_wfD(5) [OF assms(1)] by blast
  show ?thesis
  proof (cases "ip = ?new")
    case True
    with ip assms(2) show ?thesis by (simp add: allocate_fresh [OF None assms(1)])
  next
    case False
    have "ip_to_dom g ?new \<noteq> Some d'" using fakeip_wf_inj [OF assms(1) ip] False by blast
    with False assms(2,3) show ?thesis
      by (auto simp: allocate_fresh [OF None assms(1)] split: option.splits)
  qed
qed

section \<open>The interface the engine uses\<close>

text \<open>
  A pool of addresses for names: allocation keeps the pool consistent, the address it returns
  leads back to the name, lookups in the two directions agree and a known name keeps its address.
\<close>

locale name_pool =
  fixes alloc :: "'s \<Rightarrow> 'n \<Rightarrow> 's \<times> 'a"
    and name_of :: "'s \<Rightarrow> 'a \<Rightarrow> 'n option"
    and addr_of :: "'s \<Rightarrow> 'n \<Rightarrow> 'a option"
    and inv :: "'s \<Rightarrow> bool"
  assumes alloc_inv: "inv s \<Longrightarrow> inv (fst (alloc s n))"
    and alloc_name: "inv s \<Longrightarrow> name_of (fst (alloc s n)) (snd (alloc s n)) = Some n"
    and lookups_agree: "inv s \<Longrightarrow> addr_of s n = Some a \<longleftrightarrow> name_of s a = Some n"
    and alloc_known: "inv s \<Longrightarrow> addr_of s n = Some a \<Longrightarrow> alloc s n = (s, a)"
begin

lemma alloc_addr: "inv s \<Longrightarrow> addr_of (fst (alloc s n)) n = Some (snd (alloc s n))"
  using lookups_agree [OF alloc_inv] alloc_name by blast

lemma alloc_stable: "inv s \<Longrightarrow> alloc (fst (alloc s n)) n = alloc s n"
  using alloc_known [OF alloc_inv alloc_addr] by fastforce

lemma addr_unique: "inv s \<Longrightarrow> addr_of s m = Some a \<Longrightarrow> addr_of s n = Some a \<Longrightarrow> m = n"
  using lookups_agree by fastforce

lemma run_alloc_inv: "inv s \<Longrightarrow> inv (foldl (\<lambda>t n. fst (alloc t n)) s ns)"
  by (rule foldl_invariant) (auto intro: alloc_inv)

end

interpretation pool: name_pool allocate ip_to_dom dom_to_ip fakeip_wf
  by unfold_locales (auto simp: allocate_wf allocate_resolves allocate_known fakeip_wfD(5))

definition allocate_all :: "fake_ip \<Rightarrow> string list \<Rightarrow> fake_ip" where
  "allocate_all g ds = foldl (\<lambda>t d. fst (allocate t d)) g ds"

lemma allocate_all_wf: "fakeip_wf g \<Longrightarrow> fakeip_wf (allocate_all g ds)"
  unfolding allocate_all_def by (rule pool.run_alloc_inv)

lemma allocate_all_snoc: "allocate_all g (ds @ [d]) = fst (allocate (allocate_all g ds) d)"
  by (simp add: allocate_all_def)

lemma allocate_all_frame:
  "fi_base (allocate_all g ds) = fi_base g \<and> fi_count (allocate_all g ds) = fi_count g"
  unfolding allocate_all_def
  by (rule foldl_invariant [of "\<lambda>t. fi_base t = fi_base g \<and> fi_count t = fi_count g"])
    (auto simp: allocate_frame)

section \<open>Round robin\<close>

definition fresh_pool :: "fake_ip \<Rightarrow> bool" where
  "fresh_pool g \<longleftrightarrow> fakeip_wf g \<and> fi_cursor g = 1 \<and> dom_to_ip g = Map.empty"

lemma fakeip_new_fresh: "fakeip_new s = Inr g \<Longrightarrow> fresh_pool g"
  using fakeip_new_wf [of s g] by (auto simp: fresh_pool_def elim!: fakeip_new_Inr)

lemma of_nat_u32_eq: "i < 2 ^ 32 \<Longrightarrow> j < 2 ^ 32 \<Longrightarrow> (of_nat i :: u32) = of_nat j \<longleftrightarrow> i = j"
proof
  assume lt: "i < 2 ^ 32" "j < 2 ^ 32" and "(of_nat i :: u32) = of_nat j"
  then have "unat (of_nat i :: u32) = unat (of_nat j :: u32)" by simp
  then show "i = j" using lt by (simp add: unat_of_nat take_bit_eq_mod)
qed simp

text \<open>
  The state after \<open>k\<close> different names, while fewer names than usable addresses were given out:
  the \<open>i\<close>-th name holds the \<open>i + 1\<close>-st address and the cursor stands behind the last one.
\<close>

definition filled :: "fake_ip \<Rightarrow> string list \<Rightarrow> fake_ip \<Rightarrow> bool" where
  "filled g0 ds g \<longleftrightarrow>
     (\<forall>i < length ds. dom_to_ip g (ds ! i) = Some (fi_base g0 + of_nat (Suc i)))
     \<and> (\<forall>d. d \<notin> set ds \<longrightarrow> dom_to_ip g d = None)
     \<and> unat (fi_cursor g) = (if length ds + 1 < unat (fi_count g0) then length ds + 1 else 1)"

lemma filled_step:
  assumes wf: "fakeip_wf g" and frame: "fi_base g = fi_base g0" "fi_count g = fi_count g0"
    and fill: "filled g0 ds g" and new: "d \<notin> set ds" and room: "length ds + 1 < unat (fi_count g0)"
  shows "filled g0 (ds @ [d]) (fst (allocate g d))"
proof -
  have unbound: "dom_to_ip g d = None" using fill new by (simp add: filled_def)
  have lt: "length ds + 1 < 2 ^ 32"
    by (rule less_trans [OF room]) simp
  have cur: "unat (fi_cursor g) = length ds + 1" using fill room by (simp add: filled_def)
  then have cur': "fi_cursor g = of_nat (Suc (length ds))"
    using word_unat_eq_iff [of "fi_cursor g" "of_nat (Suc (length ds))"] lt
    by (simp add: unat_of_nat take_bit_eq_mod del: of_nat_Suc)
  have ip: "snd (allocate g d) = fi_base g0 + of_nat (Suc (length ds))"
    by (simp add: allocate_fresh [OF unbound wf] frame cur')
  have old: "dom_to_ip (fst (allocate g d)) (ds ! i) = Some (fi_base g0 + of_nat (Suc i))"
    if "i < length ds" for i
  proof -
    have "fi_base g0 + of_nat (Suc i) \<noteq> snd (allocate g d)"
      using that lt unfolding ip by (simp only: add_left_cancel of_nat_u32_eq)
    moreover have "dom_to_ip g (ds ! i) = Some (fi_base g0 + of_nat (Suc i))" "ds ! i \<noteq> d"
      using that fill new by (auto simp: filled_def)
    ultimately show ?thesis using allocate_other [OF wf] by simp
  qed
  have rest: "dom_to_ip (fst (allocate g d)) x = None" if "x \<notin> set ds" "x \<noteq> d" for x
    using that fill by (auto simp: allocate_fresh [OF unbound wf] filled_def split: option.splits)
  have self: "dom_to_ip (fst (allocate g d)) d = Some (fi_base g0 + of_nat (Suc (length ds)))"
    using allocate_resolves(2) [OF wf, of d] ip by simp
  have cursor: "unat (fi_cursor (fst (allocate g d)))
      = (if length ds + 2 < unat (fi_count g0) then length ds + 2 else 1)"
    using unat_next_cursor [OF wf] cur by (simp add: frame allocate_fresh [OF unbound wf])
  show ?thesis
    unfolding filled_def
    using old rest self cursor by (auto simp: nth_append less_Suc_eq simp del: of_nat_Suc)
qed

lemma allocate_all_filled:
  assumes "fresh_pool g0"
  shows "distinct ds \<Longrightarrow> length ds < unat (fi_count g0) \<Longrightarrow> filled g0 ds (allocate_all g0 ds)"
proof (induction ds rule: rev_induct)
  case Nil
  then show ?case using assms fakeip_wfD(1) [of g0]
    by (auto simp: filled_def allocate_all_def fresh_pool_def)
next
  case (snoc d ds)
  have wf: "fakeip_wf (allocate_all g0 ds)"
    using assms allocate_all_wf by (simp add: fresh_pool_def)
  show ?case
    unfolding allocate_all_snoc
    by (rule filled_step [OF wf]) (use snoc allocate_all_frame [of g0 ds] in auto)
qed

section \<open>Properties\<close>

text \<open>
  C17. The maps of the allocator are inverse to each other in every reachable state: from a
  successfully constructed pool, after any sequence of allocations, a domain has an address iff
  that address resolves back to it, every live address is a usable one of the range, and two
  domains never share an address.
\<close>

theorem fakeip_bijection:
  assumes "fakeip_new s = Inr g0" and "g = allocate_all g0 ds"
  shows "(dom_to_ip g d = Some ip \<longleftrightarrow> domain_of g (V4 ip) = Some d)
    \<and> (dom_to_ip g d = Some ip \<longrightarrow> range_contains g (V4 ip) \<and> ip \<noteq> fi_base g)"
proof -
  have wf: "fakeip_wf g" using assms fakeip_new_wf allocate_all_wf by blast
  show ?thesis
    using fakeip_wfD(5) [OF wf, of d ip] fakeip_wfD(6) [OF wf, of ip d]
    by (auto simp: domain_of_def range_contains_def word_less_nat_alt)
qed

text \<open>
  Allocation is stable and reversible: in any consistent pool the returned address resolves
  to the domain, asking again returns the same address and changes nothing, and the pool stays
  consistent.
\<close>

theorem allocate_stable_reversible:
  assumes "fakeip_wf g" and "allocate g d = (g', ip)"
  shows "domain_of g' (V4 ip) = Some d \<and> allocate g' d = (g', ip)
    \<and> range_contains g' (V4 ip) \<and> fakeip_wf g'"
proof -
  have g': "g' = fst (allocate g d)" "ip = snd (allocate g d)" using assms(2) by simp_all
  have wf: "fakeip_wf g'" using assms(1) g' by (simp add: allocate_wf)
  have res: "ip_to_dom g' ip = Some d" unfolding g' by (rule pool.alloc_name [OF assms(1)])
  have "allocate g' d = (g', ip)"
    using pool.alloc_stable [OF assms(1), of d] g' by simp
  then show ?thesis
    using wf res fakeip_wfD(6) [OF wf res]
    by (simp add: domain_of_def range_contains_def word_less_nat_alt)
qed

text \<open>
  No early eviction: a fresh pool hands out its usable addresses in order, and as long as
  there are no more different domains than usable addresses (the network address is skipped) every
  domain keeps its own address.
\<close>

theorem no_early_eviction:
  assumes "fakeip_new s = Inr g0" and "distinct ds" and "length ds < unat (fi_count g0)"
    and "i < length ds"
  shows "dom_to_ip (allocate_all g0 ds) (ds ! i) = Some (fi_base g0 + of_nat (Suc i))"
  using allocate_all_filled [OF fakeip_new_fresh [OF assms(1)] assms(2,3)] assms(4)
  by (simp add: filled_def)

text \<open>
  The wrapping-subtraction range test is membership in the configured subnet, for every
  address of either family.
\<close>

theorem range_contains_is_cidr:
  assumes "fakeip_new s = Inr g"
  shows "\<exists>c. cidr_parse s = Inr c \<and> (range_contains g ip \<longleftrightarrow> cidr_contains c ip)"
  using assms
proof (rule fakeip_new_Inr)
  fix c b n
  assume c: "cidr_parse s = Inr c" "cidr_base c = V4 b"
    and n: "n = 32 - unat (cidr_prefix c)" "2 \<le> n" "n \<le> 31" "unat (cidr_prefix c) = 32 - n"
    and g: "g = \<lparr>fi_base = b AND push_bit n (- 1), fi_count = push_bit n 1, fi_cursor = 1,
       dom_to_ip = Map.empty, ip_to_dom = Map.empty\<rparr>"
  have p: "cidr_prefix c \<le> 32" using n by (simp add: word_le_nat_alt)
  have "range_contains g ip \<longleftrightarrow> cidr_contains c ip"
  proof (cases ip)
    case (V4 a)
    have "range_contains g ip \<longleftrightarrow> unat (a - (b AND push_bit n (- 1))) < 2 ^ n"
      using unat_shifted_one(1) [OF n(3)] by (simp add: g V4 range_contains_def word_less_nat_alt)
    also have "\<dots> \<longleftrightarrow> unat a div 2 ^ n = unat (b AND push_bit n (- 1)) div 2 ^ n"
      by (rule power_two_block [OF n(3) masked_base(1)])
    also have "\<dots> \<longleftrightarrow> unat a div 2 ^ n = unat b div 2 ^ n"
      by (simp only: masked_base(2))
    also have "\<dots> \<longleftrightarrow> cidr_contains c ip"
      using c n(3,4) by (simp add: V4 v4_match_bits [OF p])
    finally show ?thesis .
  qed (simp add: g range_contains_def c)
  then show ?thesis using c by blast
qed

section \<open>Witnesses\<close>

definition sample_pool :: fake_ip where
  "sample_pool = \<lparr>fi_base = 0x0A000000, fi_count = 4, fi_cursor = 1, dom_to_ip = Map.empty,
     ip_to_dom = Map.empty\<rparr>"

lemma sample_pool_new: "fakeip_new ''10.0.0.0/30'' = Inr sample_pool"
  by (simp add: fakeip_new_def sample_pool_def text_eval mask_eq_exp_minus_1)

theorem fakeip_bijection_witness:
  "dom_to_ip (allocate_all sample_pool [''a'', ''b'']) ''a'' = Some 0x0A000001
   \<and> domain_of (allocate_all sample_pool [''a'', ''b'']) (V4 0x0A000001) = Some ''a''"
proof -
  have "dom_to_ip (allocate_all sample_pool [''a'', ''b'']) ''a'' = Some 0x0A000001"
    by (simp add: allocate_all_def allocate_def sample_pool_def)
  then show ?thesis
    using fakeip_bijection [OF sample_pool_new refl, of "[''a'', ''b'']" "''a''" "0x0A000001"] by simp
qed

theorem allocate_stable_reversible_witness:
  "\<exists>g' ip. allocate sample_pool ''a'' = (g', ip) \<and> domain_of g' (V4 ip) = Some ''a''"
proof -
  obtain g' ip where a: "allocate sample_pool ''a'' = (g', ip)" by fastforce
  then show ?thesis
    using allocate_stable_reversible [OF fakeip_new_wf [OF sample_pool_new] a] by blast
qed

theorem no_early_eviction_witness:
  "dom_to_ip (allocate_all sample_pool [''a'', ''b'', ''c'']) ''c'' = Some 0x0A000003"
  using no_early_eviction [OF sample_pool_new, of "[''a'', ''b'', ''c'']" 2]
  by (simp add: sample_pool_def)

theorem range_contains_is_cidr_witness:
  "\<exists>c. cidr_parse ''10.0.0.0/30'' = Inr c
     \<and> (range_contains sample_pool (V4 0x0A000002) \<longleftrightarrow> cidr_contains c (V4 0x0A000002))"
  by (rule range_contains_is_cidr [OF sample_pool_new])

end
