(* ===== verification/Dns.thy ===== *)
theory Dns
  imports Protobuf IpAddr
begin

text \<open>
  \<open>crates/net/src/dns/message.rs\<close>: the DNS query encoder and the reader of responses, which skips
  names (compressed or not) and collects the addresses of A and AAAA records. Positions are natural
  numbers; every access to the buffer is checked, so an access out of bounds would be \<open>Panic\<close>.
\<close>

section \<open>Queries\<close>

abbreviation (input) TYPE_A :: u16 where "TYPE_A \<equiv> 1"
abbreviation (input) TYPE_AAAA :: u16 where "TYPE_AAAA \<equiv> 28"
abbreviation (input) CLASS_IN :: u16 where "CLASS_IN \<equiv> 1"

fun encode_labels :: "string list \<Rightarrow> io_error + bytes" where
  "encode_labels [] = Inr []"
| "encode_labels (l # ls) =
     (if l = [] then encode_labels ls
      else if 63 < length (str_bytes l) then Inl (InvalidData ''dns: label'')
      else rbind (encode_labels ls) (\<lambda>b. Inr (of_nat (length (str_bytes l)) # str_bytes l @ b)))"

definition encode_query :: "u16 \<Rightarrow> string \<Rightarrow> u16 \<Rightarrow> io_error + bytes" where
  "encode_query qid name qtype =
     rbind (encode_labels (split_on CHR ''.'' (trim_end_matches CHR ''.'' name))) (\<lambda>qname.
       Inr (be16 qid @ be16 0x0100 @ be16 1 @ [0, 0, 0, 0, 0, 0] @ qname @ [0] @ be16 qtype @ be16 CLASS_IN))"

section \<open>Responses\<close>

function skip_name_loop :: "bytes \<Rightarrow> nat \<Rightarrow> nat \<Rightarrow> io_error + nat" where
  "skip_name_loop buf pos steps =
     (if length buf \<le> pos then Inl (InvalidData ''dns: name'')
      else rbind (index buf pos) (\<lambda>len.
        if len = 0 then Inr (pos + 1)
        else if len AND 0xC0 = 0xC0
          then if length buf < pos + 2 then Inl (InvalidData ''dns: pointer'') else Inr (pos + 2)
        else if len AND 0xC0 \<noteq> 0 then Inl (InvalidData ''dns: label length'')
        else if 128 < steps + 1 then Inl (InvalidData ''dns: long name'')
        else skip_name_loop buf (pos + (1 + unat len)) (steps + 1)))"
  by pat_completeness auto
termination
  by (relation "measure (\<lambda>(_, _, steps). 129 - steps)") auto

declare skip_name_loop.simps [simp del]

definition skip_name :: "bytes \<Rightarrow> nat \<Rightarrow> io_error + nat" where
  "skip_name buf pos = skip_name_loop buf pos 0"

primrec skip_questions :: "nat \<Rightarrow> bytes \<Rightarrow> nat \<Rightarrow> io_error + nat" where
  "skip_questions 0 buf pos = Inr pos"
| "skip_questions (Suc n) buf pos =
     rbind (skip_name buf pos) (\<lambda>pos.
     rbind (ok_or (checked_add_usize pos 4) (InvalidData ''dns: overflow'')) (\<lambda>pos. skip_questions n buf pos))"

definition rdata_ips :: "bytes \<Rightarrow> nat \<Rightarrow> u16 \<Rightarrow> nat \<Rightarrow> io_error + ip_addr list" where
  "rdata_ips buf pos rtype rdlen =
     (if rtype = TYPE_A \<and> rdlen = 4
      then rbind (index buf pos) (\<lambda>a. rbind (index buf (pos + 1)) (\<lambda>b.
           rbind (index buf (pos + 2)) (\<lambda>c. rbind (index buf (pos + 3)) (\<lambda>d. Inr [V4 (from_be [a, b, c, d])]))))
      else if rtype = TYPE_AAAA \<and> rdlen = 16
      then rbind (slice buf pos (pos + 16)) (\<lambda>o16. Inr [V6 (from_be o16)])
      else Inr [])"

primrec read_answers :: "nat \<Rightarrow> bytes \<Rightarrow> nat \<Rightarrow> ip_addr list \<Rightarrow> io_error + ip_addr list" where
  "read_answers 0 buf pos ips = Inr ips"
| "read_answers (Suc n) buf pos ips =
     rbind (skip_name buf pos) (\<lambda>pos.
       if length buf < pos + 10 then Inl (InvalidData ''dns: rr'')
       else rbind (index_u16 buf pos) (\<lambda>rtype. rbind (index_u16 buf (pos + 8)) (\<lambda>rdlen.
         if length buf < pos + 10 + unat rdlen then Inl (InvalidData ''dns: rdata'')
         else rbind (rdata_ips buf (pos + 10) rtype (unat rdlen)) (\<lambda>new.
           read_answers n buf (pos + 10 + unat rdlen) (ips @ new)))))"

definition decode_response :: "bytes \<Rightarrow> u16 option \<Rightarrow> io_error + ip_addr list" where
  "decode_response buf expect_id =
     (if length buf < 12 then Inl (InvalidData ''dns: short'')
      else rbind (index_u16 buf 0) (\<lambda>rid.
        if (case expect_id of Some eid \<Rightarrow> rid \<noteq> eid | None \<Rightarrow> False) then Inl (InvalidData ''dns: id'')
        else rbind (index_u16 buf 2) (\<lambda>flags.
          if flags AND 0x000F \<noteq> 0 then Inl (IoOther ''dns: rcode'')
          else rbind (index_u16 buf 4) (\<lambda>qdcount. rbind (index_u16 buf 6) (\<lambda>ancount.
               rbind (skip_questions (unat qdcount) buf 12) (\<lambda>pos.
                 read_answers (unat ancount) buf pos []))))))"

section \<open>No response makes the reader panic\<close>

lemma skip_name_loop_no_panic [simp]: "skip_name_loop buf pos steps \<noteq> Inl Panic"
proof (induction buf pos steps rule: skip_name_loop.induct)
  case (1 buf pos steps)
  then show ?case by (subst skip_name_loop.simps) auto
qed

lemma skip_name_no_panic [simp]: "skip_name buf pos \<noteq> Inl Panic"
  by (simp add: skip_name_def)

lemma skip_questions_no_panic [simp]: "skip_questions n buf pos \<noteq> Inl Panic"
  by (induction n arbitrary: pos) (auto simp: rbind_eq_Inl)

lemma rdata_ips_no_panic:
  "pos + rdlen \<le> length buf \<Longrightarrow> rdata_ips buf pos rtype rdlen \<noteq> Inl Panic"
  by (auto simp: rdata_ips_def rbind_eq_Inl)

lemma read_answers_no_panic [simp]: "read_answers n buf pos ips \<noteq> Inl Panic"
  by (induction n arbitrary: pos ips) (auto simp: rbind_eq_Inl rdata_ips_no_panic not_less)

section \<open>The wire format\<close>

text \<open>
  A name is a sequence of labels closed by the root or by a compression pointer; a resource record
  is a name, the type, the class, the time to live and the data with its length.
\<close>

datatype name_end = Root | Pointer u8 u8

record dns_rr =
  rr_labels :: "bytes list"
  rr_end :: name_end
  rr_type :: u16
  rr_class :: u16
  rr_ttl :: u32
  rr_data :: bytes

fun end_bytes :: "name_end \<Rightarrow> bytes" where
  "end_bytes Root = [0]"
| "end_bytes (Pointer a b) = [a, b]"

fun end_ok :: "name_end \<Rightarrow> bool" where
  "end_ok Root \<longleftrightarrow> True"
| "end_ok (Pointer a b) \<longleftrightarrow> a AND 0xC0 = 0xC0"

definition label_bytes :: "bytes \<Rightarrow> bytes" where
  "label_bytes l = of_nat (length l) # l"

definition name_bytes :: "bytes list \<Rightarrow> name_end \<Rightarrow> bytes" where
  "name_bytes ls e = concat (map label_bytes ls) @ end_bytes e"

definition labels_ok :: "bytes list \<Rightarrow> bool" where
  "labels_ok ls \<longleftrightarrow> length ls \<le> 128 \<and> (\<forall>l \<in> set ls. 0 < length l \<and> length l \<le> 63)"

definition rr_bytes :: "dns_rr \<Rightarrow> bytes" where
  "rr_bytes r = name_bytes (rr_labels r) (rr_end r) @ be16 (rr_type r) @ be16 (rr_class r) @ be32 (rr_ttl r)
     @ be16 (of_nat (length (rr_data r))) @ rr_data r"

definition rr_ok :: "dns_rr \<Rightarrow> bool" where
  "rr_ok r \<longleftrightarrow> labels_ok (rr_labels r) \<and> end_ok (rr_end r) \<and> length (rr_data r) < 65536"

definition rr_ips :: "dns_rr \<Rightarrow> ip_addr list" where
  "rr_ips r =
     (if rr_type r = TYPE_A \<and> length (rr_data r) = 4 then [V4 (from_be (rr_data r))]
      else if rr_type r = TYPE_AAAA \<and> length (rr_data r) = 16 then [V6 (from_be (rr_data r))]
      else [])"

definition dns_reply :: "u16 \<Rightarrow> u16 \<Rightarrow> bytes \<Rightarrow> dns_rr list \<Rightarrow> bytes \<Rightarrow> bytes" where
  "dns_reply qid flags question rrs extra =
     be16 qid @ be16 flags @ be16 1 @ be16 (of_nat (length rrs)) @ [0, 0, 0, 0]
     @ question @ concat (map rr_bytes rrs) @ extra"

section \<open>Reading the wire format\<close>

lemma label_len_and:
  assumes "n \<le> 63"
  shows "(of_nat n :: u8) AND 0xC0 = 0"
proof -
  have t: "(of_nat n :: u8) = take_bit 6 (of_nat n)"
    using assms by (simp add: take_bit_nat_eq_self flip: of_nat_take_bit)
  have "take_bit 6 w AND v = w AND take_bit 6 v" for w v :: u8
    by (rule bit_word_eqI) (auto simp: bit_and_iff bit_take_bit_iff)
  from this [of "of_nat n" "0xC0"] show ?thesis by (subst t) simp
qed

lemma label_len_nonzero:
  assumes "0 < n" and "n \<le> 63"
  shows "(of_nat n :: u8) \<noteq> 0"
proof
  assume "(of_nat n :: u8) = 0"
  then have "unat (of_nat n :: u8) = 0" by simp
  then show False using assms by (simp add: unat_of_nat_u8)
qed

lemma skip_name_end:
  assumes "end_ok e"
  shows "skip_name_loop (pre @ end_bytes e @ post) (length pre) steps = Inr (length pre + length (end_bytes e))"
  using assms by (cases e; subst skip_name_loop.simps) auto

lemma skip_name_loop_labels:
  assumes "\<forall>l \<in> set ls. 0 < length l \<and> length l \<le> 63" and "steps + length ls \<le> 128" and "end_ok e"
  shows "skip_name_loop (pre @ concat (map label_bytes ls) @ end_bytes e @ post) (length pre) steps
    = Inr (length pre + length (concat (map label_bytes ls) @ end_bytes e))"
  using assms(1,2)
proof (induction ls arbitrary: pre steps)
  case Nil
  then show ?case using skip_name_end [OF assms(3)] by simp
next
  case (Cons l ls)
  let ?rest = "concat (map label_bytes ls) @ end_bytes e @ post"
  have l: "0 < length l" "length l \<le> 63" using Cons.prems by auto
  have ok: "(of_nat (length l) :: u8) \<noteq> 0" "(of_nat (length l) :: u8) AND 0xC0 = 0"
    "unat (of_nat (length l) :: u8) = length l"
    using label_len_nonzero [OF l] label_len_and [OF l(2)] l by (simp_all add: unat_of_nat_u8)
  have "skip_name_loop (pre @ of_nat (length l) # l @ ?rest) (length pre) steps
    = skip_name_loop ((pre @ label_bytes l) @ ?rest) (length (pre @ label_bytes l)) (steps + 1)"
    using ok Cons.prems(2) by (subst skip_name_loop.simps) (simp add: label_bytes_def)
  also have "\<dots> = Inr (length (pre @ label_bytes l) + length (concat (map label_bytes ls) @ end_bytes e))"
    using Cons.prems by (intro Cons.IH) auto
  finally show ?case by (simp add: label_bytes_def [of l] add.assoc)
qed

lemma skip_name_ok:
  assumes "labels_ok ls" and "end_ok e"
  shows "skip_name (pre @ name_bytes ls e @ post) (length pre) = Inr (length pre + length (name_bytes ls e))"
  using skip_name_loop_labels [of ls 0 e pre post] assms
  by (simp add: skip_name_def name_bytes_def labels_ok_def)

lemma from_be_quad: "length d = 4 \<Longrightarrow> [d ! 0, d ! 1, d ! 2, d ! 3] = d"
  by (rule nth_equalityI) (auto simp: less_Suc_eq numeral_eq_Suc)

lemma rdata_ips_ok:
  "rdata_ips (pre @ rr_data r @ post) (length pre) (rr_type r) (length (rr_data r)) = Inr (rr_ips r)"
  using from_be_quad [of "rr_data r"]
  by (auto simp: rdata_ips_def rr_ips_def index_def nth_append)

lemma read_answers_ok:
  assumes "\<forall>r \<in> set rrs. rr_ok r"
  shows "read_answers (length rrs) (pre @ concat (map rr_bytes rrs) @ post) (length pre) ips
    = Inr (ips @ concat (map rr_ips rrs))"
  using assms
proof (induction rrs arbitrary: pre ips)
  case (Cons r rrs)
  let ?name = "name_bytes (rr_labels r) (rr_end r)"
  let ?len = "be16 (of_nat (length (rr_data r)))"
  let ?rest = "concat (map rr_bytes rrs) @ post"
  let ?head = "be16 (rr_type r) @ be16 (rr_class r) @ be32 (rr_ttl r)"
  define buf where "buf = pre @ ?name @ ?head @ ?len @ rr_data r @ ?rest"
  have r: "labels_ok (rr_labels r)" "end_ok (rr_end r)" "length (rr_data r) < 65536"
    using Cons.prems by (auto simp: rr_ok_def)
  have len: "length pre + length ?name + 10 + length (rr_data r) \<le> length buf"
    by (simp add: buf_def)
  have name: "skip_name buf (length pre) = Inr (length pre + length ?name)"
    using skip_name_ok [OF r(1,2), of pre "?head @ ?len @ rr_data r @ ?rest"] by (simp add: buf_def)
  have t: "index_u16 buf (length pre + length ?name) = Inr (rr_type r)"
    using index_u16_append [of "pre @ ?name" "rr_type r"] by (simp add: buf_def)
  have n: "index_u16 buf (length pre + length ?name + 8) = Inr (of_nat (length (rr_data r)))"
    using index_u16_append [of "pre @ ?name @ ?head" "of_nat (length (rr_data r))"]
    by (simp add: buf_def add.assoc)
  have d: "rdata_ips buf (length pre + length ?name + 10) (rr_type r) (length (rr_data r)) = Inr (rr_ips r)"
    using rdata_ips_ok [of "pre @ ?name @ ?head @ ?len" r ?rest] by (simp add: buf_def add.assoc)
  have IH: "read_answers (length rrs) buf (length pre + length ?name + 10 + length (rr_data r)) (ips @ rr_ips r)
    = Inr ((ips @ rr_ips r) @ concat (map rr_ips rrs))"
    using Cons.IH [of "pre @ ?name @ ?head @ ?len @ rr_data r"] Cons.prems by (simp add: buf_def add.assoc)
  have "read_answers (length (r # rrs)) buf (length pre) ips = Inr (ips @ concat (map rr_ips (r # rrs)))"
    using len r(3) by (simp add: name t n d IH unat_of_nat_u16 del: rbind_eq_Inr)
  then show ?case by (simp add: buf_def rr_bytes_def [of r])
qed simp

section \<open>Queries and their answers\<close>

definition query_labels :: "string \<Rightarrow> bytes list" where
  "query_labels name =
     map str_bytes (filter (\<lambda>l. l \<noteq> []) (split_on CHR ''.'' (trim_end_matches CHR ''.'' name)))"

lemma encode_labels_ok:
  "encode_labels ls = Inr b \<longleftrightarrow>
     (\<forall>l \<in> set ls. length l \<le> 63) \<and> b = concat (map label_bytes (map str_bytes (filter (\<lambda>l. l \<noteq> []) ls)))"
  by (induction ls arbitrary: b) (auto simp: label_bytes_def)

lemma encode_query_ok:
  assumes "encode_query qid name qtype = Inr q"
  shows "drop 12 q = name_bytes (query_labels name) Root @ be16 qtype @ be16 CLASS_IN"
    and "\<forall>l \<in> set (query_labels name). 0 < length l \<and> length l \<le> 63"
  using assms
  by (auto simp: encode_query_def encode_labels_ok query_labels_def name_bytes_def drop_append)

lemma length_labels: "\<forall>l \<in> set ls. length l \<le> 63 \<Longrightarrow> length (concat (map label_bytes ls)) \<le> 64 * length ls"
  by (induction ls) (auto simp: label_bytes_def)

lemma skip_question_ok:
  assumes "labels_ok ls" and "length pre \<le> 12"
  shows "skip_questions (Suc 0) (pre @ name_bytes ls Root @ be16 t @ be16 c @ post) (length pre)
    = Inr (length (pre @ name_bytes ls Root @ be16 t @ be16 c))"
proof -
  have "length (name_bytes ls Root) \<le> 64 * 128 + 1"
    using length_labels [of ls] assms(1) by (auto simp: name_bytes_def labels_ok_def)
  then show ?thesis
    using skip_name_ok [OF assms(1), of Root pre "be16 t @ be16 c @ post"] assms(2)
    by (simp add: checked_add_usize_def del: rbind_eq_Inr)
qed

lemma reply_header:
  fixes qid flags n :: u16 and body :: bytes
  defines "buf \<equiv> be16 qid @ be16 flags @ be16 1 @ be16 n @ body"
  shows "index_u16 buf 0 = Inr qid" "index_u16 buf 2 = Inr flags" "index_u16 buf 4 = Inr 1"
    "index_u16 buf 6 = Inr n"
  using index_u16_append [of "[]" qid] index_u16_append [of "be16 qid" flags]
    index_u16_append [of "be16 qid @ be16 flags" 1] index_u16_append [of "be16 qid @ be16 flags @ be16 1" n]
  by (simp_all add: buf_def)

text \<open>C30. A reply to a query the encoder made, with the query's identifier and question, a zero response code and
  any well-formed records behind it, is read as exactly the addresses of its A and AAAA records, in their order, however the
  names of the records are written and whatever follows them.\<close>

theorem dns_query_answered:
  assumes query: "encode_query qid name qtype = Inr q" and labels: "length (query_labels name) \<le> 128"
    and rcode: "flags AND 0x000F = 0" and rrs: "\<forall>r \<in> set rrs. rr_ok r" and n: "length rrs < 65536"
  shows "decode_response (dns_reply qid flags (drop 12 q) rrs extra) (Some qid) = Inr (concat (map rr_ips rrs))"
proof -
  let ?ls = "query_labels name"
  let ?head = "be16 qid @ be16 flags @ be16 1 @ be16 (of_nat (length rrs)) @ [0, 0, 0, 0]"
  let ?question = "name_bytes ?ls Root @ be16 qtype @ be16 CLASS_IN"
  define buf where "buf = dns_reply qid flags (drop 12 q) rrs extra"
  have buf: "buf = ?head @ ?question @ concat (map rr_bytes rrs) @ extra"
    by (simp add: buf_def dns_reply_def encode_query_ok(1) [OF query])
  have ok: "labels_ok ?ls"
    using encode_query_ok(2) [OF query] labels by (simp add: labels_ok_def)
  have q: "skip_questions (Suc 0) buf 12 = Inr (length (?head @ ?question))"
    using skip_question_ok [OF ok, of ?head qtype CLASS_IN] by (simp add: buf)
  have a: "read_answers (length rrs) buf (length (?head @ ?question)) [] = Inr (concat (map rr_ips rrs))"
    using read_answers_ok [OF rrs, of "?head @ ?question" extra "[]"] by (simp add: buf)
  have h: "index_u16 buf 0 = Inr qid" "index_u16 buf 2 = Inr flags" "index_u16 buf 4 = Inr 1"
    "index_u16 buf 6 = Inr (of_nat (length rrs))" and len: "12 \<le> length buf"
    using reply_header [of qid flags "of_nat (length rrs)"] by (simp_all add: buf)
  show ?thesis
    using h len q a rcode n unfolding buf_def [symmetric]
    by (simp add: decode_response_def unat_of_nat_u16 del: rbind_eq_Inr skip_questions.simps)
qed

definition sample_rr :: dns_rr where
  "sample_rr = \<lparr>rr_labels = [], rr_end = Pointer 0xC0 0x0C, rr_type = 1, rr_class = 1, rr_ttl = 300,
     rr_data = [93, 184, 216, 34]\<rparr>"

theorem dns_query_answered_witness:
  "\<exists>q. encode_query 0x1234 ''a.com'' 1 = Inr q
     \<and> decode_response (dns_reply 0x1234 0x8180 (drop 12 q) [sample_rr] [7]) (Some 0x1234) = Inr [V4 0x5DB8D822]"
proof -
  have "is_ok (encode_query 0x1234 ''a.com'' 1)" by code_simp
  then obtain q where q: "encode_query 0x1234 ''a.com'' 1 = Inr q"
    by (auto simp: is_ok_def split: sum.splits)
  have l: "length (query_labels ''a.com'') \<le> 128" by code_simp
  have ok: "rr_ok sample_rr" by (simp add: rr_ok_def sample_rr_def labels_ok_def)
  have ips: "concat (map rr_ips [sample_rr]) = [V4 0x5DB8D822]" by code_simp
  have "decode_response (dns_reply 0x1234 0x8180 (drop 12 q) [sample_rr] [7]) (Some 0x1234)
    = Inr (concat (map rr_ips [sample_rr]))"
    by (rule dns_query_answered [OF q l]) (simp_all add: ok)
  then show ?thesis using q unfolding ips by blast
qed

text \<open>No datagram makes the reader of responses panic, and one that is accepted against an expected identifier carries
  that identifier in its first two bytes and the response code zero.\<close>

theorem dns_decode_checked:
  "decode_response buf (Some i) \<noteq> Inl Panic
   \<and> (\<forall>ips. decode_response buf (Some i) = Inr ips \<longrightarrow> take 2 buf = be16 i \<and> buf ! 3 AND 0x0F = 0)"
proof (cases "length buf < 12")
  case False
  have "from_be [a, b] AND (mask 4 :: u16) = ucast (b AND mask 4)" for a b :: u8
    by (rule bit_word_eqI) (auto simp: from_be_def bit_simps)
  then have flags: "from_be [a, b] AND (0x000F :: u16) = ucast (b AND 0x0F)" for a b :: u8
    by (simp add: mask_eq_exp_minus_1)
  have zero: "(ucast b :: u16) = 0 \<longleftrightarrow> b = 0" for b :: u8
  proof -
    have "ucast (ucast b :: u16) = b" by (rule bit_word_eqI) (auto simp: bit_simps)
    then show ?thesis by (metis unsigned_0)
  qed
  have "take 2 buf = [buf ! 0, buf ! 1]"
    using False by (intro nth_equalityI) (auto simp: less_2_cases_iff)
  moreover have "be16 (from_be [buf ! 0, buf ! 1]) = [buf ! 0, buf ! 1]"
    using be_bytes_from_be [where 'a = 16, of "[buf ! 0, buf ! 1]"] by (simp add: numeral_2_eq_2)
  ultimately show ?thesis using False
    by (auto simp: decode_response_def rbind_eq_Inl flags zero split: if_splits)
qed (simp add: decode_response_def)

theorem dns_decode_checked_witness:
  "decode_response [0, 7, 0x81, 0x80, 0, 0, 0, 0, 0, 0, 0, 0] (Some 7) = Inr []
   \<and> take 2 [0, 7, 0x81, 0x80, 0, 0, 0, 0, 0, 0, 0, 0] = be16 7"
proof -
  have "decode_response [0, 7, 0x81, 0x80, 0, 0, 0, 0, 0, 0, 0, 0] (Some 7) = Inr []" by code_simp
  with dns_decode_checked [of "[0, 7, 0x81, 0x80, 0, 0, 0, 0, 0, 0, 0, 0]" 7] show ?thesis by blast
qed

end
