(* ===== verification/Resolver.thy ===== *)
theory Resolver
  imports Dns
begin

text \<open>
  The cache of \<open>crates/net/src/dns/mod.rs\<close>: \<open>resolve\<close> joins concurrent requests for one name, so that
  one of them (the leader) asks the server and the others wait and read the cache again. Each block
  under the mutex is one function on the cache; the calls in progress are tasks with a control
  state, and the step relation interleaves them, the clock, and tasks that are dropped.
\<close>

section \<open>The cache\<close>

datatype cache_state = Ready "ip_addr list" nat | InFlight

type_synonym dns_cache = "string \<rightharpoonup> cache_state"
type_synonym dns_result = "io_error + ip_addr list"

text \<open>Times in seconds.\<close>

abbreviation (input) POSITIVE_TTL :: nat where "POSITIVE_TTL \<equiv> 300"
abbreviation (input) NEGATIVE_TTL :: nat where "NEGATIVE_TTL \<equiv> 3"

definition cache_result :: "ip_addr list \<Rightarrow> dns_result" where
  "cache_result ips = (if ips = [] then Inl (IoOther ''dns: no records (cache)'') else Inr ips)"

text \<open>The control states of a call of \<open>resolve\<close>; a finished one carries its result and when it returned.\<close>

datatype task = Checking string | Waiting string | Leading string | Finished string dns_result nat

definition resolve_check :: "nat \<Rightarrow> string \<Rightarrow> dns_cache \<Rightarrow> dns_cache \<times> task" where
  "resolve_check now name cache =
     (case cache name of
        Some (Ready ips expires) \<Rightarrow>
          if now < expires then (cache, Finished name (cache_result ips) now)
          else (cache(name \<mapsto> InFlight), Leading name)
      | Some InFlight \<Rightarrow> (cache, Waiting name)
      | None \<Rightarrow> (cache(name \<mapsto> InFlight), Leading name))"

definition resolve_uncached :: "dns_result \<Rightarrow> dns_result \<Rightarrow> dns_result" where
  "resolve_uncached a aaaa =
     (let ips = (case a of Inr v \<Rightarrow> v | Inl _ \<Rightarrow> []) @ (case aaaa of Inr v \<Rightarrow> v | Inl _ \<Rightarrow> [])
      in if ips = [] then Inl (IoOther ''dns: no records'') else Inr ips)"

definition resolve_leader :: "nat \<Rightarrow> string \<Rightarrow> dns_result \<Rightarrow> dns_cache \<Rightarrow> dns_cache \<times> task" where
  "resolve_leader now name result cache =
     (let (ips, ttl) = (case result of Inr v \<Rightarrow> (v, POSITIVE_TTL) | Inl _ \<Rightarrow> ([], NEGATIVE_TTL))
      in (cache(name \<mapsto> Ready ips (now + ttl)), Finished name result now))"

section \<open>Calls in progress\<close>

text \<open>\<open>answered\<close> records every answer the server gave: the name, the outcome and the time.\<close>

record resolver =
  now :: nat
  cache :: dns_cache
  tasks :: "nat \<rightharpoonup> task"
  answered :: "(string \<times> dns_result \<times> nat) list"

definition resolver_new :: resolver where
  "resolver_new = \<lparr>now = 0, cache = Map.empty, tasks = Map.empty, answered = []\<rparr>"

text \<open>
  With \<open>drops\<close> the future of a call may be dropped before it returns, as the timeout around the
  handler of HTTP requests in \<open>engine.rs\<close> does. A waiting call is woken by the leader or by its own
  timeout, so at any time.
\<close>

inductive rstep :: "bool \<Rightarrow> resolver \<Rightarrow> resolver \<Rightarrow> bool" for drops where
  call: "tasks s t = None \<Longrightarrow> rstep drops s (s\<lparr>tasks := (tasks s)(t \<mapsto> Checking name)\<rparr>)"
| check: "tasks s t = Some (Checking name) \<Longrightarrow> resolve_check (now s) name (cache s) = (c, k)
    \<Longrightarrow> rstep drops s (s\<lparr>cache := c, tasks := (tasks s)(t \<mapsto> k)\<rparr>)"
| wake: "tasks s t = Some (Waiting name) \<Longrightarrow> rstep drops s (s\<lparr>tasks := (tasks s)(t \<mapsto> Checking name)\<rparr>)"
| lead: "tasks s t = Some (Leading name) \<Longrightarrow> result = resolve_uncached a aaaa
    \<Longrightarrow> resolve_leader (now s) name result (cache s) = (c, k)
    \<Longrightarrow> rstep drops s (s\<lparr>cache := c, tasks := (tasks s)(t \<mapsto> k), answered := (name, result, now s) # answered s\<rparr>)"
| tick: "rstep drops s (s\<lparr>now := now s + d\<rparr>)"
| drop: "drops \<Longrightarrow> rstep drops s (s\<lparr>tasks := (tasks s)(t := None)\<rparr>)"

definition rsteps :: "bool \<Rightarrow> resolver \<Rightarrow> resolver \<Rightarrow> bool" where
  "rsteps drops = (rstep drops)\<^sup>*\<^sup>*"

lemma resolve_uncached_nonempty: "resolve_uncached a aaaa \<noteq> Inr []"
  by (simp add: resolve_uncached_def Let_def)

section \<open>One leader for each name\<close>

definition leader :: "resolver \<Rightarrow> string \<Rightarrow> nat \<Rightarrow> bool" where
  "leader s name t \<longleftrightarrow> tasks s t = Some (Leading name)"

text \<open>A leader holds the mark of its name in the cache, and is the only one.\<close>

definition leaders_inv :: "resolver \<Rightarrow> bool" where
  "leaders_inv s \<longleftrightarrow>
     (\<forall>name t. leader s name t \<longrightarrow> cache s name = Some InFlight)
     \<and> (\<forall>name t u. leader s name t \<longrightarrow> leader s name u \<longrightarrow> t = u)"

text \<open>Without drops, a mark in the cache has a leader.\<close>

definition marks_inv :: "resolver \<Rightarrow> bool" where
  "marks_inv s \<longleftrightarrow> (\<forall>name. cache s name = Some InFlight \<longrightarrow> (\<exists>t. leader s name t))"

lemma resolve_check_cases:
  assumes "resolve_check n name c = (c', k)"
  obtains (hit) ips e where "c name = Some (Ready ips e)" "n < e" "c' = c" "k = Finished name (cache_result ips) n"
  | (wait) "c name = Some InFlight" "c' = c" "k = Waiting name"
  | (lead) "c name \<noteq> Some InFlight" "c' = c(name \<mapsto> InFlight)" "k = Leading name"
  using assms by (auto simp: resolve_check_def split: option.splits cache_state.splits if_splits)

lemma resolve_leader_eq:
  "resolve_leader n name r c = (c', k) \<longleftrightarrow>
     c' = c(name \<mapsto> Ready (case r of Inr v \<Rightarrow> v | Inl _ \<Rightarrow> []) (n + (case r of Inr _ \<Rightarrow> POSITIVE_TTL | Inl _ \<Rightarrow> NEGATIVE_TTL)))
     \<and> k = Finished name r n"
  by (auto simp: resolve_leader_def split: sum.splits)

lemma rstep_leaders_inv: "rstep drops s s' \<Longrightarrow> leaders_inv s \<Longrightarrow> leaders_inv s'"
proof (induction rule: rstep.induct)
  case (check s t name c k)
  from check(2) show ?case
    by (cases rule: resolve_check_cases)
      (use check(1,3) in \<open>auto simp: leaders_inv_def leader_def split: if_splits\<close>)
next
  case (lead s t name result a aaaa c k)
  then show ?case by (auto simp: leaders_inv_def leader_def resolve_leader_eq split: if_splits)
qed (auto simp: leaders_inv_def leader_def split: if_splits)

lemma leading_update:
  assumes "ts t \<noteq> Some (Leading n)"
  shows "(\<exists>u. (ts(t \<mapsto> k)) u = Some (Leading n)) \<longleftrightarrow> k = Leading n \<or> (\<exists>u. ts u = Some (Leading n))"
  using assms by (metis fun_upd_apply option.inject)

lemma marks_inv_alt: "marks_inv s \<longleftrightarrow> (\<forall>name. cache s name = Some InFlight \<longrightarrow> (\<exists>t. tasks s t = Some (Leading name)))"
  by (simp add: marks_inv_def leader_def)

lemma rstep_marks_inv: "rstep drops s s' \<Longrightarrow> \<not> drops \<Longrightarrow> marks_inv s \<Longrightarrow> marks_inv s'"
proof (induction rule: rstep.induct)
  case (check s t name c k)
  then have t: "tasks s t \<noteq> Some (Leading n)" for n by simp
  from check(2) show ?case
    by (cases rule: resolve_check_cases)
      (use check(4) in \<open>simp_all add: marks_inv_alt leading_update [of "tasks s" t, OF t] del: fun_upd_apply, simp\<close>)
next
  case (lead s t name result a aaaa c k)
  then show ?case
    by (simp add: marks_inv_alt resolve_leader_eq) (metis option.inject task.inject(3))
qed (simp_all add: marks_inv_alt leading_update del: fun_upd_apply)

section \<open>Where answers come from\<close>

text \<open>
  An answer \<open>r\<close> is backed at time \<open>u\<close> when the server gave it within its time to live: the same
  addresses, or a failure for a failure.
\<close>

definition ttl_of :: "dns_result \<Rightarrow> nat" where
  "ttl_of r = (case r of Inr _ \<Rightarrow> POSITIVE_TTL | Inl _ \<Rightarrow> NEGATIVE_TTL)"

definition agrees :: "dns_result \<Rightarrow> dns_result \<Rightarrow> bool" where
  "agrees r r' \<longleftrightarrow> (case r of Inr ips \<Rightarrow> r' = Inr ips | Inl _ \<Rightarrow> \<not> is_ok r')"

definition backed :: "(string \<times> dns_result \<times> nat) list \<Rightarrow> string \<Rightarrow> dns_result \<Rightarrow> nat \<Rightarrow> bool" where
  "backed log name r u \<longleftrightarrow>
     list_ex (\<lambda>(n, r', t0). n = name \<and> agrees r r' \<and> t0 \<le> u \<and> u < t0 + ttl_of r) log"

definition answers_inv :: "resolver \<Rightarrow> bool" where
  "answers_inv s \<longleftrightarrow>
     (\<forall>name ips e. cache s name = Some (Ready ips e) \<longrightarrow>
        (\<forall>u. now s \<le> u \<longrightarrow> u < e \<longrightarrow> backed (answered s) name (cache_result ips) u))
     \<and> (\<forall>t name r u. tasks s t = Some (Finished name r u) \<longrightarrow> r \<noteq> Inr [] \<and> backed (answered s) name r u)"

lemma backed_Cons: "backed log name r u \<Longrightarrow> backed (x # log) name r u"
  by (simp add: backed_def)

lemma backed_now:
  assumes "r \<noteq> Inr []" and "n \<le> u" and "u < n + ttl_of r"
  shows "backed ((name, r, n) # log) name (cache_result (case r of Inr v \<Rightarrow> v | Inl _ \<Rightarrow> [])) u"
    and "backed ((name, r, n) # log) name r u"
  using assms by (auto simp: backed_def agrees_def ttl_of_def cache_result_def split: sum.splits)

lemma cache_result_nonempty [simp]: "cache_result ips \<noteq> Inr []"
  by (simp add: cache_result_def)

lemma rstep_answers_inv: "rstep drops s s' \<Longrightarrow> answers_inv s \<Longrightarrow> answers_inv s'"
proof (induction rule: rstep.induct)
  case (check s t name c k)
  from check(2) show ?case
    by (cases rule: resolve_check_cases)
      (use check(1,3) in \<open>auto simp: answers_inv_def split: if_splits\<close>)
next
  case (lead s t name result a aaaa c k)
  have ne: "result \<noteq> Inr []" using lead(2) resolve_uncached_nonempty by simp
  have c: "c = (cache s)(name \<mapsto> Ready (case result of Inr v \<Rightarrow> v | Inl _ \<Rightarrow> []) (now s + ttl_of result))"
    and k: "k = Finished name result (now s)"
    using lead(3) by (simp_all add: resolve_leader_eq ttl_of_def)
  have fresh: "now s < now s + ttl_of result" by (simp add: ttl_of_def split: sum.splits)
  show ?case
    using lead(4) backed_now [OF ne, of "now s" _ name "answered s"] fresh ne
    by (auto simp: answers_inv_def c k intro: backed_Cons)
qed (auto simp: answers_inv_def split: if_splits)

lemma rsteps_induct [consumes 1, case_names init step]:
  assumes "rsteps drops s s'" and "P s" and "\<And>u v. P u \<Longrightarrow> rstep drops u v \<Longrightarrow> P v"
  shows "P s'"
  using assms unfolding rsteps_def by (induction rule: rtranclp_induct) auto

lemma resolver_new_inv: "leaders_inv resolver_new" "marks_inv resolver_new" "answers_inv resolver_new"
  by (simp_all add: leaders_inv_def marks_inv_def answers_inv_def leader_def resolver_new_def)

text \<open>C20. Single flight: whatever the interleaving of calls, at most one of them asks the server for a name at a time,
  and as long as no call is dropped a name is marked as being asked exactly when some call asks for it, so nobody waits for an
  answer that nobody fetches.\<close>

theorem resolver_single_flight:
  assumes "rsteps drops resolver_new s"
  shows "(leader s name t \<and> leader s name u \<longrightarrow> t = u)
    \<and> (drops \<or> (cache s name = Some InFlight \<longleftrightarrow> (\<exists>v. leader s name v)))"
proof -
  have l: "leaders_inv s"
    using assms by (induction rule: rsteps_induct) (auto intro: rstep_leaders_inv resolver_new_inv)
  have m: "\<not> drops \<Longrightarrow> marks_inv s"
    using assms by (induction rule: rsteps_induct) (auto intro: rstep_marks_inv resolver_new_inv)
  show ?thesis using l m by (auto simp: leaders_inv_def marks_inv_def)
qed

text \<open>C33. What a call of resolve returns is never an empty list of addresses, and it is what the server answered for this very
  name at most 300 seconds before (at most 3 seconds before for a failure), also when calls are dropped half way.\<close>

theorem resolver_answers_backed:
  assumes "rsteps drops resolver_new s" and "tasks s t = Some (Finished name r u)"
  shows "r \<noteq> Inr [] \<and> backed (answered s) name r u"
proof -
  have "answers_inv s"
    using assms(1) by (induction rule: rsteps_induct) (auto intro: rstep_answers_inv resolver_new_inv)
  then show ?thesis using assms(2) by (auto simp: answers_inv_def)
qed

section \<open>A dropped leader\<close>

text \<open>
  When the call that leads is dropped, its mark stays in the cache and no later call removes it:
  nothing but a leader publishes an answer, and a call becomes the leader only of a name that is not
  marked.
\<close>

definition orphaned :: "resolver \<Rightarrow> string \<Rightarrow> bool" where
  "orphaned s name \<longleftrightarrow> cache s name = Some InFlight \<and> (\<forall>t. \<not> leader s name t)"

lemma rstep_orphaned:
  "rstep drops s s' \<Longrightarrow> orphaned s name
     \<Longrightarrow> orphaned s' name \<and> (\<forall>t r u. tasks s' t = Some (Finished name r u) \<longrightarrow> tasks s t = Some (Finished name r u))"
proof (induction rule: rstep.induct)
  case (check s t n c k)
  from check(2) show ?case
    by (cases rule: resolve_check_cases)
      (use check(1,3) in \<open>auto simp: orphaned_def leader_def split: if_splits\<close>)
next
  case (lead s t n result a aaaa c k)
  then show ?case by (auto simp: orphaned_def leader_def resolve_leader_eq split: if_splits)
qed (auto simp: orphaned_def leader_def split: if_splits)

lemma orphaned_forever:
  assumes "rsteps drops s s'" and "orphaned s name"
  shows "orphaned s' name \<and> (\<forall>t r u. tasks s' t = Some (Finished name r u) \<longrightarrow> tasks s t = Some (Finished name r u))"
  using assms(1)
proof (induction rule: rsteps_induct)
  case init
  show ?case using assms(2) by simp
next
  case (step u v)
  then show ?case using rstep_orphaned [of drops u v name] by blast
qed

section \<open>A run\<close>

definition sample_resolver :: resolver where
  "sample_resolver =
     resolver_new\<lparr>cache := [''a.com'' \<mapsto> InFlight], tasks := [0 \<mapsto> Leading ''a.com'']\<rparr>"

lemma sample_resolver_reached: "rsteps drops resolver_new sample_resolver"
proof -
  let ?s1 = "resolver_new\<lparr>tasks := (tasks resolver_new)(0 \<mapsto> Checking ''a.com'')\<rparr>"
  have "rstep drops resolver_new ?s1"
    by (rule rstep.call) (simp add: resolver_new_def)
  moreover have "rstep drops ?s1 (?s1\<lparr>cache := [''a.com'' \<mapsto> InFlight], tasks := (tasks ?s1)(0 \<mapsto> Leading ''a.com'')\<rparr>)"
    by (rule rstep.check) (simp_all add: resolver_new_def resolve_check_def)
  moreover have "?s1\<lparr>cache := [''a.com'' \<mapsto> InFlight], tasks := (tasks ?s1)(0 \<mapsto> Leading ''a.com'')\<rparr> = sample_resolver"
    by (simp add: resolver_new_def sample_resolver_def)
  ultimately show ?thesis by (simp add: rsteps_def)
qed

lemma dropped_leader_orphans: "\<exists>s. rsteps True resolver_new s \<and> orphaned s ''a.com''"
proof -
  have "rstep True sample_resolver (sample_resolver\<lparr>tasks := (tasks sample_resolver)(0 := None)\<rparr>)"
    by (rule rstep.drop) simp
  then have "rsteps True resolver_new (sample_resolver\<lparr>tasks := (tasks sample_resolver)(0 := None)\<rparr>)"
    using sample_resolver_reached [of True] unfolding rsteps_def by (rule rtranclp.rtrancl_into_rtrancl [rotated])
  moreover have "orphaned (sample_resolver\<lparr>tasks := (tasks sample_resolver)(0 := None)\<rparr>) ''a.com''"
    by (simp add: orphaned_def leader_def sample_resolver_def resolver_new_def)
  ultimately show ?thesis by blast
qed

theorem resolver_single_flight_witness:
  "leader sample_resolver ''a.com'' 0 \<and> \<not> leader sample_resolver ''a.com'' 3
   \<and> (cache sample_resolver ''a.com'' = Some InFlight \<longleftrightarrow> (\<exists>v. leader sample_resolver ''a.com'' v))"
proof -
  have "leader sample_resolver ''a.com'' 0" by (simp add: leader_def sample_resolver_def)
  then show ?thesis
    using resolver_single_flight [OF sample_resolver_reached [of False], of "''a.com''" 0 3] by auto
qed

theorem resolver_answers_backed_witness:
  "\<exists>s :: resolver. tasks s 0 = Some (Finished ''a.com'' (Inr [V4 7]) 0) \<and> backed (answered s) ''a.com'' (Inr [V4 7]) 0"
proof -
  let ?r = "Inr [V4 7] :: dns_result"
  let ?s = "sample_resolver\<lparr>cache := (cache sample_resolver)(''a.com'' \<mapsto> Ready [V4 7] 300),
    tasks := (tasks sample_resolver)(0 \<mapsto> Finished ''a.com'' ?r 0), answered := (''a.com'', ?r, now sample_resolver) # answered sample_resolver\<rparr>"
  have "rstep False sample_resolver ?s"
    by (rule rstep.lead [where a = ?r and aaaa = "Inr []"])
      (simp_all add: sample_resolver_def resolver_new_def resolve_uncached_def resolve_leader_def)
  with sample_resolver_reached [of False] have "rsteps False resolver_new ?s"
    unfolding rsteps_def by (rule rtranclp.rtrancl_into_rtrancl)
  moreover have "tasks ?s 0 = Some (Finished ''a.com'' ?r 0)" by simp
  ultimately have "?r \<noteq> (Inr [] :: dns_result) \<and> backed (answered ?s) ''a.com'' ?r 0"
    by (rule resolver_answers_backed)
  then show ?thesis by (intro exI [of _ ?s]) simp
qed

end
