(* ===== verification/Target.thy ===== *)
theory Target
  imports Protobuf IpAddr
begin

text \<open>
  \<open>crates/net/src/target.rs\<close> and \<open>crates/net/src/vless.rs\<close>: the destination of a connection and the
  VLESS request headers. The module comment of \<open>vless.rs\<close> gives the wire format; read as a decoder
  it makes the header encoder a self-delimiting codec.
\<close>

section \<open>Targets\<close>

text \<open>\<open>SocketAddrV6\<close> carries a flow label and a scope id beside the address and the port.\<close>

datatype socket_addr = SockV4 u32 u16 | SockV6 u128 u16 u32 u32

datatype target = Domain string u16 | Socket socket_addr

fun socket_port :: "socket_addr \<Rightarrow> u16" where
  "socket_port (SockV4 _ p) = p"
| "socket_port (SockV6 _ p _ _) = p"

fun target_port :: "target \<Rightarrow> u16" where
  "target_port (Domain _ p) = p"
| "target_port (Socket s) = socket_port s"

fun show_socket :: "socket_addr \<Rightarrow> string" where
  "show_socket (SockV4 ip p) = show_ipv4 ip @ '':'' @ show_nat (unat p)"
| "show_socket (SockV6 ip p _ scope) =
     ''['' @ show_ipv6 ip @ (if scope = 0 then '''' else ''%'' @ show_nat (unat scope))
       @ '']:'' @ show_nat (unat p)"

fun show_target :: "target \<Rightarrow> string" where
  "show_target (Domain host p) = host @ '':'' @ show_nat (unat p)"
| "show_target (Socket s) = show_socket s"

text \<open>The targets a header carries exactly: a name of at most 255 bytes, no flow label or scope.\<close>

fun target_wf :: "target \<Rightarrow> bool" where
  "target_wf (Domain host _) \<longleftrightarrow> is_str host \<and> length host \<le> 255"
| "target_wf (Socket (SockV4 _ _)) \<longleftrightarrow> True"
| "target_wf (Socket (SockV6 _ _ flow scope)) \<longleftrightarrow> flow = 0 \<and> scope = 0"

section \<open>VLESS headers\<close>

abbreviation (input) VLESS_VERSION :: u8 where "VLESS_VERSION \<equiv> 0"
abbreviation (input) VLESS_TCP :: u8 where "VLESS_TCP \<equiv> 1"
abbreviation (input) VLESS_UDP :: u8 where "VLESS_UDP \<equiv> 2"

fun push_address :: "target \<Rightarrow> bytes" where
  "push_address (Domain host _) =
     (let bs = str_bytes host; len = min (length bs) 255
      in [0x02, of_nat len] @ take len bs)"
| "push_address (Socket (SockV4 ip _)) = [0x01] @ be32 ip"
| "push_address (Socket (SockV6 ip _ _ _)) = [0x03] @ be128 ip"

text \<open>
  The loop that writes the length of the flow string is the base-128 varint of a \<open>usize\<close>.
\<close>

definition flow_addon :: "string \<Rightarrow> bytes" where
  "flow_addon f = [0x0A] @ put_varint (of_nat (length (str_bytes f))) @ str_bytes f"

definition vless_request :: "bytes \<Rightarrow> string option \<Rightarrow> target \<Rightarrow> bytes" where
  "vless_request uuid flow target =
     [VLESS_VERSION] @ uuid
     @ (case flow of
          Some f \<Rightarrow> if f \<noteq> [] then of_nat (length (flow_addon f)) # flow_addon f else [0]
        | None \<Rightarrow> [0])
     @ [VLESS_TCP] @ be16 (target_port target) @ push_address target"

definition vless_request_udp :: "bytes \<Rightarrow> target \<Rightarrow> bytes" where
  "vless_request_udp uuid target =
     [VLESS_VERSION] @ uuid @ [0] @ [VLESS_UDP] @ be16 (target_port target) @ push_address target"

fun hex_pairs :: "string \<Rightarrow> bytes option" where
  "hex_pairs (a # b # rest) =
     (case (hex_digit_val a, hex_digit_val b) of
        (Some hi, Some lo) \<Rightarrow> map_option (\<lambda>out. of_nat (hi * 16 + lo) # out) (hex_pairs rest)
      | _ \<Rightarrow> None)"
| "hex_pairs _ = Some []"

definition parse_uuid :: "string \<Rightarrow> bytes option" where
  "parse_uuid s =
     (let hex = filter (\<lambda>c. c \<noteq> CHR ''-'') s
      in if length hex \<noteq> 32 then None else hex_pairs hex)"

section \<open>The documented format as a decoder\<close>

definition spec_address :: "u16 \<Rightarrow> bytes \<Rightarrow> io_error + target \<times> bytes" where
  "spec_address port r =
     rbind (read_u8 r) (\<lambda>(atyp, r).
       if atyp = 1 then rbind (read_exact 4 r) (\<lambda>(a, r). Inr (Socket (SockV4 (from_be a) port), r))
       else if atyp = 2 then rbind (read_u8 r) (\<lambda>(n, r). rbind (read_exact (unat n) r) (\<lambda>(h, r).
              Inr (Domain (bytes_str h) port, r)))
       else if atyp = 3 then rbind (read_exact 16 r) (\<lambda>(a, r). Inr (Socket (SockV6 (from_be a) port 0 0), r))
       else Inl (InvalidData ''address type''))"

text \<open>The command byte and the flow it carries.\<close>

datatype vless_cmd = Tcp "string option" | Udp

definition spec_flow :: "bytes \<Rightarrow> string option" where
  "spec_flow addon =
     (case addon of [] \<Rightarrow> None
      | _ # r \<Rightarrow> map_option (\<lambda>(n, f). bytes_str (take (unat n) f)) (varint_decode r))"

definition spec_header :: "bytes \<Rightarrow> io_error + (bytes \<times> vless_cmd \<times> target) \<times> bytes" where
  "spec_header r =
     rbind (read_u8 r) (\<lambda>(version, r).
     if version \<noteq> 0 then Inl (InvalidData ''version'')
     else rbind (read_exact 16 r) (\<lambda>(uuid, r).
     rbind (read_u8 r) (\<lambda>(n, r).
     rbind (read_exact (unat n) r) (\<lambda>(addon, r).
     rbind (read_u8 r) (\<lambda>(cmd, r).
     rbind (read_u16 r) (\<lambda>(port, r).
     rbind (spec_address port r) (\<lambda>(t, r).
       Inr ((uuid, if cmd = 2 then Udp else Tcp (spec_flow addon), t), r))))))))"

definition vless_decode :: "bytes \<Rightarrow> ((bytes \<times> vless_cmd \<times> target) \<times> bytes) option" where
  "vless_decode bs = result_ok (spec_header bs)"

definition vless_encode :: "bytes \<times> vless_cmd \<times> target \<Rightarrow> bytes" where
  "vless_encode h =
     (case h of (uuid, Tcp flow, t) \<Rightarrow> vless_request uuid flow t | (uuid, Udp, t) \<Rightarrow> vless_request_udp uuid t)"

definition vless_wf :: "bytes \<times> vless_cmd \<times> target \<Rightarrow> bool" where
  "vless_wf h =
     (case h of (uuid, cmd, t) \<Rightarrow> length uuid = 16 \<and> target_wf t \<and>
        (case cmd of Tcp (Some f) \<Rightarrow> f \<noteq> [] \<and> length f \<le> 127 | _ \<Rightarrow> True))"

lemma spec_address_push [codec_simps]:
  "target_wf t \<Longrightarrow> spec_address (target_port t) (push_address t @ rest) = Inr (t, rest)"
  by (cases t rule: push_address.cases)
    (auto simp: spec_address_def Let_def unat_of_nat take_bit_eq_mod)

lemma put_varint_short: "n \<le> 127 \<Longrightarrow> put_varint (of_nat n) = [of_nat n]"
proof -
  assume n: "n \<le> 127"
  have "unat (drop_bit 7 (of_nat n :: u64)) = 0"
    using n unfolding unat_drop_bit_eq by (simp add: drop_bit_eq_div unat_of_nat take_bit_eq_mod)
  then have "drop_bit 7 (of_nat n :: u64) = 0" by (simp add: unat_eq_0)
  moreover have "unat (take_bit 7 (of_nat n :: u64)) = unat (of_nat n :: u64)"
    using n unfolding unsigned_take_bit_eq by (simp add: unat_of_nat take_bit_eq_mod)
  then have "(of_nat n :: u64) AND 0x7F = of_nat n"
    unfolding numeral_7F by (simp only: word_unat_eq_iff flip: take_bit_eq_mask)
  moreover have "(ucast (of_nat n :: u64) :: u8) = of_nat n"
    using n by (simp add: word_unat_eq_iff unsigned_ucast_eq unat_of_nat_small take_bit_eq_mod)
  ultimately show ?thesis by (subst put_varint.simps) (simp add: Let_def)
qed

lemma length_flow_addon: "length f \<le> 127 \<Longrightarrow> length (flow_addon f) = length f + 2"
  by (simp add: flow_addon_def put_varint_short)

lemma spec_flow_addon:
  assumes "length f \<le> 127"
  shows "spec_flow (flow_addon f) = Some f"
proof -
  have "unat (of_nat (length f) :: u64) = length f"
    using assms by (simp add: unat_of_nat take_bit_eq_mod)
  then show ?thesis
    using varint.dec_enc [of "of_nat (length f)" "str_bytes f"]
    by (simp add: spec_flow_def flow_addon_def)
qed

interpretation vless: codec vless_encode vless_decode vless_wf
proof
  fix h rest
  assume wf: "vless_wf h"
  obtain uuid cmd t where h: "h = (uuid, cmd, t)" by (cases h)
  have t: "spec_address (target_port t) (push_address t @ rest) = Inr (t, rest)"
    using wf by (simp add: vless_wf_def h spec_address_push)
  consider "cmd = Udp" | "cmd = Tcp None"
    | f where "cmd = Tcp (Some f)" "f \<noteq> []" "length f \<le> 127"
    using wf by (cases cmd) (auto simp: vless_wf_def h split: option.splits)
  then have "spec_header (vless_encode h @ rest) = Inr (h, rest)"
  proof cases
    case 3
    then have "unat (of_nat (length (flow_addon f)) :: u8) = length (flow_addon f)"
      by (intro unat_of_nat_u8) (simp add: length_flow_addon)
    then show ?thesis
      using wf 3 t by (simp add: h vless_wf_def vless_encode_def vless_request_def spec_header_def spec_flow_addon)
  qed (use wf t in \<open>simp_all add: h vless_wf_def vless_encode_def vless_request_def
      vless_request_udp_def spec_header_def spec_flow_def read_exact_def\<close>)
  then show "vless_decode (vless_encode h @ rest) = Some (h, rest)"
    by (simp add: vless_decode_def)
qed

section \<open>UUIDs\<close>

definition lower_hex :: "nat \<Rightarrow> char" where
  "lower_hex n = (if n < 10 then char_of (48 + n) else char_of (87 + n))"

definition show_hex_bytes :: "bytes \<Rightarrow> string" where
  "show_hex_bytes bs = concat (map (\<lambda>b. [lower_hex (unat b div 16), lower_hex (unat b mod 16)]) bs)"

lemma hex_digit_val_lower [simp]: "n < 16 \<Longrightarrow> hex_digit_val (lower_hex n) = Some n"
  by (auto simp: hex_digit_val_def lower_hex_def of_char_of Let_def)

lemma hex_pairs_show: "hex_pairs (show_hex_bytes bs) = Some bs"
proof (induction bs)
  case (Cons b bs)
  have "unat b div 16 < 16" using unat_u8_less [of b] by (simp add: less_mult_imp_div_less)
  then show ?case
    using Cons by (simp add: show_hex_bytes_def)
qed (simp add: show_hex_bytes_def)

lemma length_show_hex_bytes [simp]: "length (show_hex_bytes bs) = 2 * length bs"
  by (induction bs) (auto simp: show_hex_bytes_def)

section \<open>Properties\<close>

text \<open>
  The VLESS headers are unambiguous on the wire: for every UUID of 16 bytes, every flow of at
  most 127 bytes and every target a header can carry, reading the documented format back from an
  encoded header followed by any payload returns the command, the flow, the target and exactly the
  payload; so two requests with the same bytes are the same request and no header is a prefix of
  another.
\<close>

theorem vless_header_unambiguous:
  assumes "vless_wf h" and "vless_wf h'"
  shows "spec_header (vless_encode h @ payload) = Inr (h, payload)
    \<and> (prefix (vless_encode h) (vless_encode h') \<longrightarrow> h = h')"
  using vless.dec_enc [OF assms(1), of payload] vless.prefix_free [OF assms]
  by (simp add: vless_decode_def)

text \<open>
  A UUID in hexadecimal parses to its 16 bytes however it is hyphenated: dashes anywhere are
  ignored and nothing else is.
\<close>

theorem parse_uuid_hex:
  assumes "filter (\<lambda>c. c \<noteq> CHR ''-'') s = show_hex_bytes u" and "length u = 16"
  shows "parse_uuid s = Some u"
  using assms by (simp add: parse_uuid_def hex_pairs_show)

section \<open>Witnesses\<close>

theorem vless_header_unambiguous_witness:
  "spec_header (vless_encode (replicate 16 7, Tcp (Some ''xtls-rprx-vision''), Domain ''a.com'' 443) @ [1, 2])
   = Inr ((replicate 16 7, Tcp (Some ''xtls-rprx-vision''), Domain ''a.com'' 443), [1, 2])"
proof -
  have "is_str ''a.com''" unfolding is_str_def by code_simp
  then have "vless_wf (replicate 16 7, Tcp (Some ''xtls-rprx-vision''), Domain ''a.com'' 443)"
    by (simp add: vless_wf_def)
  from vless_header_unambiguous [OF this this, of "[1, 2]"] show ?thesis by simp
qed

theorem parse_uuid_hex_witness:
  "parse_uuid ''00112233-4455-6677-8899-aabbccddeeff''
   = Some [0x00, 0x11, 0x22, 0x33, 0x44, 0x55, 0x66, 0x77, 0x88, 0x99, 0xaa, 0xbb, 0xcc, 0xdd, 0xee, 0xff]"
  by (rule parse_uuid_hex) code_simp+

end
