(* ===== verification/Base64.thy ===== *)
theory Base64
  imports Cidr
begin

text \<open>
  \<open>crates/core/src/base64.rs\<close> and \<open>crates/core/src/util.rs\<close>: the tolerant Base64 decoder, the
  standard encoder, and percent decoding. The decoder inverts the encoder, and its result depends
  only on the significant characters of the text.
\<close>

section \<open>Base64\<close>

definition ALPHABET :: bytes where
  "ALPHABET = str_bytes ''ABCDEFGHIJKLMNOPQRSTUVWXYZabcdefghijklmnopqrstuvwxyz0123456789+/''"

abbreviation (input) INVALID :: u8 where "INVALID \<equiv> 0xFF"

definition decode_table :: "u8 list" where
  "decode_table =
     (let t = foldl (\<lambda>t (i, c). t[unat c := of_nat i]) (replicate 256 INVALID) (enumerate 0 ALPHABET)
      in (t[45 := 62])[95 := 63])"

fun decode_loop :: "bytes \<Rightarrow> u32 \<Rightarrow> nat \<Rightarrow> bytes \<Rightarrow> parse_error + bytes" where
  "decode_loop [] buf bits out = Inr out"
| "decode_loop (b # bs) buf bits out =
     (if b = 0x3D \<or> b = 0x0D \<or> b = 0x0A \<or> b = 0x20 \<or> b = 0x09 then decode_loop bs buf bits out
      else let v = decode_table ! unat b
           in if v = INVALID then Inl (Base64Error (bytes_str [b]))
              else let buf = push_bit 6 buf OR ucast v; bits = bits + 6
                   in if 8 \<le> bits
                      then decode_loop bs buf (bits - 8) (out @ [ucast (drop_bit (bits - 8) buf)])
                      else decode_loop bs buf bits out)"

definition decode_loose :: "string \<Rightarrow> parse_error + bytes" where
  "decode_loose input = decode_loop (str_bytes input) 0 0 []"

definition decode_to_string :: "string \<Rightarrow> parse_error + string" where
  "decode_to_string input = rbind (decode_loose input) (\<lambda>bs. ok_or (from_utf8 bs) Utf8Error)"

fun encode_bytes :: "bytes \<Rightarrow> bytes" where
  "encode_bytes [] = []"
| "encode_bytes (b0 # rest) =
     (let n1 = length rest; b1 = (if 0 < n1 then rest ! 0 else 0); b2 = (if 1 < n1 then rest ! 1 else 0);
          n = push_bit 16 (ucast b0) OR push_bit 8 (ucast b1) OR (ucast b2 :: u32)
      in [ALPHABET ! unat (drop_bit 18 n AND 63), ALPHABET ! unat (drop_bit 12 n AND 63),
          if 0 < n1 then ALPHABET ! unat (drop_bit 6 n AND 63) else 0x3D,
          if 1 < n1 then ALPHABET ! unat (n AND 63) else 0x3D] @ encode_bytes (drop 2 rest))"

definition encode_standard :: "bytes \<Rightarrow> string" where
  "encode_standard input = bytes_str (encode_bytes input)"

section \<open>Decoding one character\<close>

definition ignored :: "u8 \<Rightarrow> bool" where
  "ignored b \<longleftrightarrow> b = 0x3D \<or> b = 0x0D \<or> b = 0x0A \<or> b = 0x20 \<or> b = 0x09"

text \<open>\<open>push_sextet\<close>: what one significant character does to the accumulator.\<close>

definition push_sextet :: "u32 \<Rightarrow> u32 \<times> nat \<times> bytes \<Rightarrow> u32 \<times> nat \<times> bytes" where
  "push_sextet v st =
     (case st of (buf, bits, out) \<Rightarrow>
        let buf = push_bit 6 buf OR v; bits = bits + 6
        in if 8 \<le> bits then (buf, bits - 8, out @ [ucast (drop_bit (bits - 8) buf)]) else (buf, bits, out))"

abbreviation decode_from :: "bytes \<Rightarrow> u32 \<times> nat \<times> bytes \<Rightarrow> parse_error + bytes" where
  "decode_from bs st \<equiv> (case st of (buf, bits, out) \<Rightarrow> decode_loop bs buf bits out)"

lemma decode_from_Nil [simp]: "decode_from [] st = Inr (snd (snd st))"
  by (cases st) simp

lemma alphabet_table: "(let t = decode_table in map (\<lambda>c. t ! unat c) ALPHABET) = map of_nat [0..<64]"
  by code_simp

lemma alphabet_significant: "length ALPHABET = 64 \<and> list_all (\<lambda>c. \<not> ignored c) ALPHABET"
  by code_simp

lemma alphabet_decodes:
  assumes "i < 64"
  shows "decode_table ! unat (ALPHABET ! i) = of_nat i" "\<not> ignored (ALPHABET ! i)" "(of_nat i :: u8) \<noteq> INVALID"
proof -
  have "map (\<lambda>c. decode_table ! unat c) ALPHABET ! i = map of_nat [0..<64] ! i"
    using alphabet_table by (simp add: Let_def)
  then show "decode_table ! unat (ALPHABET ! i) = of_nat i"
    using assms alphabet_significant by simp
  show "\<not> ignored (ALPHABET ! i)" using assms alphabet_significant by (simp add: list_all_length)
  show "(of_nat i :: u8) \<noteq> INVALID"
    using assms by (simp add: word_unat_eq_iff unat_of_nat take_bit_eq_mod)
qed

lemma decode_from_ignored [simp]: "ignored b \<Longrightarrow> decode_from (b # bs) st = decode_from bs st"
  by (cases st) (simp add: ignored_def)

lemma decode_from_sextet:
  assumes "v = x AND (63 :: u32)"
  shows "decode_from ((ALPHABET ! unat v) # bs) st = decode_from bs (push_sextet v st)"
proof -
  have "v \<le> 63" unfolding assms by (rule word_and_le1)
  then obtain i where i: "unat v = i" "i < 64" by (simp add: word_le_nat_alt)
  note t = alphabet_decodes [OF i(2)]
  have "ucast (of_nat i :: u8) = v"
    using i by (simp add: word_unat_eq_iff unsigned_ucast_eq unat_of_nat take_bit_eq_mod)
  then show ?thesis
    using t i(1) by (cases st) (auto simp: ignored_def push_sextet_def Let_def)
qed

lemma decode_filter: "decode_from (filter (\<lambda>b. \<not> ignored b) bs) st = decode_from bs st"
proof (induction bs arbitrary: st)
  case (Cons b bs)
  show ?case
  proof (cases "ignored b")
    case False
    obtain buf bits out where st: "st = (buf, bits, out)" by (cases st)
    show ?thesis
      using False Cons.IH [of "(push_bit 6 buf OR ucast (decode_table ! unat b), bits + 6, out)"]
        Cons.IH [of "(push_bit 6 buf OR ucast (decode_table ! unat b), bits + 6 - 8,
          out @ [ucast (drop_bit (bits + 6 - 8) (push_bit 6 buf OR ucast (decode_table ! unat b)))])"]
      by (simp add: st ignored_def Let_def)
  next
    case True
    then have "decode_from (b # bs) st = decode_from bs st" by (rule decode_from_ignored)
    then show ?thesis using True Cons.IH [of st] by (simp only: filter.simps if_False not_True_eq_False)
  qed
qed simp

section \<open>One group of three bytes\<close>

lemma numeral_63: "(63 :: 'a::len word) = mask 6"
  by (simp add: mask_numeral)

lemma bit_63: "bit (63 :: 'a::len word) n \<longleftrightarrow> n < 6 \<and> n < LENGTH('a)"
  unfolding numeral_63 by (auto simp: bit_simps)

lemmas bit_group = bit_and_iff bit_or_iff bit_ucast_iff bit_drop_bit_eq bit_push_bit_iff bit_63 o_apply

lemma u8_bit_high: "8 \<le> k \<Longrightarrow> \<not> bit (b :: u8) k"
  using bit_imp_le_length [of b k] by auto

lemma less_8_cases:
  "n < LENGTH(8) \<Longrightarrow> n = 0 \<or> n = 1 \<or> n = 2 \<or> n = 3 \<or> n = 4 \<or> n = 5 \<or> n = 6 \<or> n = 7"
  by auto

lemma group_bytes:
  fixes b0 b1 b2 :: u8 and buf :: u32
  defines "n \<equiv> push_bit 16 (ucast b0) OR push_bit 8 (ucast b1) OR (ucast b2 :: u32)"
  defines "s0 \<equiv> drop_bit 18 n AND 63" and "s1 \<equiv> drop_bit 12 n AND 63"
    and "s2 \<equiv> drop_bit 6 n AND 63" and "s3 \<equiv> n AND 63"
  shows "ucast (drop_bit 4 (push_bit 6 (push_bit 6 buf OR s0) OR s1)) = b0"
    and "ucast (drop_bit 2 (push_bit 6 (push_bit 6 (push_bit 6 buf OR s0) OR s1) OR s2)) = b1"
    and "ucast (push_bit 6 (push_bit 6 (push_bit 6 (push_bit 6 buf OR s0) OR s1) OR s2) OR s3) = b2"
  unfolding s0_def s1_def s2_def s3_def n_def
  by (rule bit_word_eqI, drule less_8_cases, elim disjE, (simp only: bit_group, simp add: u8_bit_high)+)+

lemma ignored_pad [simp]: "ignored 0x3D"
  by (simp add: ignored_def)

lemma decode_encode: "decode_from (encode_bytes bs) (buf, 0, out) = Inr (out @ bs)"
proof (induction bs arbitrary: buf out rule: encode_bytes.induct)
  case 1
  show ?case by simp
next
  case (2 b0 rest)
  define b1 where "b1 = (if 0 < length rest then rest ! 0 else 0)"
  define b2 where "b2 = (if 1 < length rest then rest ! 1 else 0)"
  define n where "n = push_bit 16 (ucast b0) OR push_bit 8 (ucast b1) OR (ucast b2 :: u32)"
  define s0 s1 s2 s3 where s: "s0 = drop_bit 18 n AND 63" "s1 = drop_bit 12 n AND 63"
    "s2 = drop_bit 6 n AND 63" "s3 = n AND 63"
  define a1 a2 a3 a4 where a: "a1 = push_bit 6 buf OR s0" "a2 = push_bit 6 a1 OR s1"
    "a3 = push_bit 6 a2 OR s2" "a4 = push_bit 6 a3 OR s3"
  note bytes = group_bytes [where ?b0.0 = b0 and ?b1.0 = b1 and ?b2.0 = b2 and buf = buf,
    folded n_def, folded s, folded a]
  have two: "push_sextet s1 (push_sextet s0 (buf, 0, out)) = (a2, 4, out @ [b0])"
    using bytes(1) by (simp add: push_sextet_def flip: a)
  have three: "push_sextet s2 (a2, 4, out @ [b0]) = (a3, 2, out @ [b0, b1])"
    using bytes(2) by (simp add: push_sextet_def flip: a)
  have four: "push_sextet s3 (a3, 2, out @ [b0, b1]) = (a4, 0, out @ [b0, b1, b2])"
    using bytes(3) by (simp add: push_sextet_def flip: a)
  note run = decode_from_sextet [OF s(1)] decode_from_sextet [OF s(2)]
    decode_from_sextet [OF s(3)] decode_from_sextet [OF s(4)]
  have enc: "encode_bytes (b0 # rest) =
      [ALPHABET ! unat s0, ALPHABET ! unat s1, if 0 < length rest then ALPHABET ! unat s2 else 0x3D,
       if 1 < length rest then ALPHABET ! unat s3 else 0x3D] @ encode_bytes (drop 2 rest)"
    unfolding s n_def b1_def b2_def by (simp add: Let_def)
  consider "rest = []" | b where "rest = [b]" | b c r where "rest = b # c # r"
    by (cases rest; cases "tl rest") auto
  then show ?case
  proof cases
    case 1
    then show ?thesis unfolding enc by (simp add: run two del: decode_loop.simps(2)) simp
  next
    case 2
    then show ?thesis
      unfolding enc by (simp add: run two three b1_def del: decode_loop.simps(2)) simp
  next
    case 3
    then have b: "b1 = b" "b2 = c" by (simp_all add: b1_def b2_def)
    have "decode_from (encode_bytes r) (a4, 0, out @ [b0, b1, b2]) = Inr (out @ b0 # rest)"
      using "2.IH" [OF refl refl refl refl] 3 b by simp
    then show ?thesis
      unfolding enc using 3 by (simp add: run two three four del: decode_loop.simps)
  qed
qed

section \<open>URL-safe aliases\<close>

definition std_byte :: "u8 \<Rightarrow> u8" where
  "std_byte b = (if b = 45 then 43 else if b = 95 then 47 else b)"

lemma decode_table_alias:
  "decode_table ! 45 = 62" "decode_table ! 43 = 62" "decode_table ! 95 = 63" "decode_table ! 47 = 63"
proof -
  have "(let t = decode_table in [t ! 45, t ! 43, t ! 95, t ! 47]) = [62, 62, 63, 63]" by code_simp
  then show "decode_table ! 45 = 62" "decode_table ! 43 = 62" "decode_table ! 95 = 63" "decode_table ! 47 = 63"
    by (simp_all add: Let_def)
qed

lemma decode_loop_std: "decode_loop (map std_byte bs) buf bits out = decode_loop bs buf bits out"
proof (induction bs arbitrary: buf bits out)
  case (Cons b bs)
  have "decode_table ! unat (std_byte b) = decode_table ! unat b"
    by (simp add: std_byte_def decode_table_alias)
  moreover have "std_byte b \<noteq> b \<Longrightarrow> decode_table ! unat b \<noteq> INVALID"
    by (auto simp: std_byte_def decode_table_alias split: if_splits)
  ultimately show ?case
    using Cons.IH by (cases "std_byte b = b") (auto simp: Let_def std_byte_def split: if_splits)
qed simp

section \<open>Percent decoding\<close>

definition hex_val :: "u8 \<Rightarrow> u8 option" where
  "hex_val b =
     (if 48 \<le> b \<and> b \<le> 57 then Some (b - 48)
      else if 97 \<le> b \<and> b \<le> 102 then Some (b - 97 + 10)
      else if 65 \<le> b \<and> b \<le> 70 then Some (b - 65 + 10)
      else None)"

fun percent_loop :: "bytes \<Rightarrow> bytes" where
  "percent_loop [] = []"
| "percent_loop [b] = [b]"
| "percent_loop [b, c] = [b, c]"
| "percent_loop (b # h # l # rest) =
     (if b = 0x25
      then case (hex_val h, hex_val l) of
             (Some hv, Some lv) \<Rightarrow> (push_bit 4 hv OR lv) # percent_loop rest
           | _ \<Rightarrow> b # percent_loop (h # l # rest)
      else b # percent_loop (h # l # rest))"

definition percent_decode :: "string \<Rightarrow> string" where
  "percent_decode input = from_utf8_lossy (percent_loop (str_bytes input))"

text \<open>
  A reference encoder: any set of bytes that contains the percent sign may be escaped.
\<close>

definition percent_hex :: "u8 \<Rightarrow> u8" where
  "percent_hex n = (if n < 10 then 48 + n else 55 + n)"

definition percent_encode :: "(u8 \<Rightarrow> bool) \<Rightarrow> bytes \<Rightarrow> bytes" where
  "percent_encode esc bs =
     concat (map (\<lambda>b. if esc b then [0x25, percent_hex (drop_bit 4 b), percent_hex (b AND 15)] else [b]) bs)"

lemma hex_val_char: "list_all (\<lambda>n. hex_val (percent_hex (of_nat n)) = Some (of_nat n)) [0..<16]"
  by code_simp

lemma hex_val_nibble: "n < 16 \<Longrightarrow> hex_val (percent_hex n) = Some n"
proof -
  assume "n < 16"
  then have "unat n < 16" by (simp add: word_less_nat_alt)
  then have "hex_val (percent_hex (of_nat (unat n))) = Some (of_nat (unat n))"
    using hex_val_char by (simp add: list_all_iff del: of_nat_unat)
  then show ?thesis by simp
qed

lemma numeral_15: "(15 :: u8) = mask 4"
  by (simp add: mask_numeral)

lemma bit_15: "bit (15 :: u8) n \<longleftrightarrow> n < 4"
  unfolding numeral_15 by (auto simp: bit_simps)

lemma nibbles: "push_bit 4 (drop_bit 4 b) OR (b AND 15) = (b :: u8)"
  "drop_bit 4 b < 16" "(b AND 15 :: u8) < 16"
proof -
  show "push_bit 4 (drop_bit 4 b) OR (b AND 15) = b"
    by (rule bit_word_eqI, simp only: bit_group bit_15, auto)
  have "unat (drop_bit 4 b) = unat b div 2 ^ 4" unfolding unat_drop_bit_eq by (rule drop_bit_eq_div)
  then show "drop_bit 4 b < 16" by (simp add: word_less_nat_alt less_mult_imp_div_less)
  have "b AND 15 \<le> 15" by (rule word_and_le1)
  then show "(b AND 15 :: u8) < 16" by (simp add: word_le_nat_alt word_less_nat_alt)
qed

lemma percent_loop_plain: "b \<noteq> 0x25 \<Longrightarrow> percent_loop (b # bs) = b # percent_loop bs"
  by (cases bs; cases "tl bs") auto

lemma percent_loop_escape:
  "percent_loop (0x25 # percent_hex (drop_bit 4 b) # percent_hex (b AND 15) # bs) = b # percent_loop bs"
  by (simp add: hex_val_nibble nibbles)

lemma percent_loop_encode:
  assumes "esc 0x25"
  shows "percent_loop (percent_encode esc bs) = bs"
proof (induction bs)
  case (Cons b bs)
  have "\<not> esc b \<Longrightarrow> b \<noteq> 0x25" using assms by auto
  then show ?case
    using Cons.IH percent_loop_plain [of b] percent_loop_escape [of b]
    by (cases "esc b") (simp_all add: percent_encode_def del: percent_loop.simps)
qed (simp add: percent_encode_def)

section \<open>Properties\<close>

text \<open>
  The significant part of a Base64 text: padding and white space dropped, the URL-safe alphabet
  mapped to the standard one.
\<close>

definition canon :: "string \<Rightarrow> bytes" where
  "canon s = map std_byte (filter (\<lambda>b. \<not> ignored b) (str_bytes s))"

lemma decode_loose_canon: "decode_loose s = decode_loop (canon s) 0 0 []"
  using decode_filter [of "str_bytes s" "(0, 0, [])"]
  by (simp add: decode_loose_def canon_def decode_loop_std)

text \<open>
  Base64 round trip, tolerantly: any text whose significant characters are those of the
  standard encoding of some bytes - with or without padding, in either alphabet, broken by spaces
  and line ends - decodes to exactly those bytes.
\<close>

theorem base64_roundtrip:
  assumes "canon s = canon (encode_standard bs)"
  shows "decode_loose s = Inr bs"
proof -
  have "decode_loose s = decode_loose (encode_standard bs)"
    using assms by (simp add: decode_loose_canon)
  also have "\<dots> = Inr bs"
    using decode_encode [of bs 0 "[]"] by (simp add: decode_loose_def encode_standard_def)
  finally show ?thesis .
qed

theorem base64_roundtrip_witness:
  "decode_loose (''Zm9v'' @ [newline] @ ''-_8'') = Inr [102, 111, 111, 251, 255]"
proof -
  have "canon (''Zm9v'' @ [newline] @ ''-_8'') = canon (encode_standard [102, 111, 111, 251, 255])"
    by code_simp
  then show ?thesis by (rule base64_roundtrip)
qed

text \<open>
  Percent decoding inverts percent encoding: whichever bytes are escaped, as long as the
  percent sign itself is, the decoder returns the original text.
\<close>

lemma percent_roundtrip:
  assumes "esc 0x25" and "is_str s"
  shows "percent_decode (bytes_str (percent_encode esc (str_bytes s))) = s"
  using assms by (simp add: percent_decode_def percent_loop_encode from_utf8_lossy_str)

end
