(* ===== verification/HttpText.thy ===== *)
theory HttpText
  imports Target Base64
begin

text \<open>
  The HTTP text the sources read and write by hand: the head of a request to the local proxy and its
  addresses (\<open>crates/net/src/engine.rs\<close>), the CONNECT request to an HTTP proxy and its answer
  (\<open>crates/net/src/outbound.rs\<close>), and the DNS-over-HTTPS answer and address
  (\<open>crates/net/src/dns/mod.rs\<close>). The reader of the proxy is shown to find in a CONNECT request what the
  writer put there, and to leave the bytes behind the head in the stream.
\<close>

section \<open>Text functions\<close>

definition CRLF :: bytes where "CRLF = [13, 10]"

definition CRLF2 :: bytes where "CRLF2 = [13, 10, 13, 10]"

text \<open>\<open>windows(n).position(|w| w == pat)\<close>, for a pattern of \<open>n\<close> bytes.\<close>

fun find_bytes :: "bytes \<Rightarrow> bytes \<Rightarrow> nat option" where
  "find_bytes pat [] = (if pat = [] then Some 0 else None)"
| "find_bytes pat (x # xs) =
     (if prefix pat (x # xs) then Some 0 else map_option Suc (find_bytes pat xs))"

text \<open>\<open>str::split_whitespace\<close>: the non-empty pieces between white space; \<open>cur\<close> is the piece so far.\<close>

function split_ws :: "string \<Rightarrow> string \<Rightarrow> string list" where
  "split_ws cur s =
     (if s = [] then (if cur = [] then [] else [cur])
      else case ws_prefix s of
        Some w \<Rightarrow> (if cur = [] then [] else [cur]) @ split_ws [] (drop (length w) s)
      | None \<Rightarrow> split_ws (cur @ [hd s]) (tl s))"
  by pat_completeness auto
termination
  by (relation "measure (\<lambda>(_, s). length s)") (auto dest!: ws_prefix_SomeD)

declare split_ws.simps [simp del]

definition split_whitespace :: "string \<Rightarrow> string list" where
  "split_whitespace s = split_ws [] s"

definition nth_opt :: "'a list \<Rightarrow> nat \<Rightarrow> 'a option" where
  "nth_opt xs i = (if i < length xs then Some (xs ! i) else None)"

definition first_or :: "'a \<Rightarrow> 'a list \<Rightarrow> 'a" where
  "first_or d xs = (case xs of [] \<Rightarrow> d | x # _ \<Rightarrow> x)"

section \<open>Reading a request head\<close>

fun read_head_loop :: "bytes \<Rightarrow> bytes \<Rightarrow> io_error + bytes \<times> bytes" where
  "read_head_loop buf [] = Inl (IoOther ''http: closed'')"
| "read_head_loop buf (b # r) =
     (let buf = buf @ [b]
      in if suffix CRLF2 buf then Inr (buf, r)
         else if 16384 < length buf then Inl (IoOther ''http: head too long'')
         else read_head_loop buf r)"

definition read_http_head :: "bytes \<Rightarrow> io_error + bytes \<times> bytes" where
  "read_http_head client = read_head_loop [] client"

definition split_host_port :: "string \<Rightarrow> u16 \<Rightarrow> string \<times> u16" where
  "split_host_port s dflt =
     (let plain = (case rsplit_once CHR '':'' s of
                     Some (h, p) \<Rightarrow> if h \<noteq> [] then (h, case parse_u16 p of Some n \<Rightarrow> n | None \<Rightarrow> dflt) else (s, dflt)
                   | None \<Rightarrow> (s, dflt))
      in case strip_prefix ''['' s of
           Some rest \<Rightarrow>
             (case find_str '']:'' rest of
                Some i \<Rightarrow> (take i rest, case parse_u16 (drop (i + 2) rest) of Some n \<Rightarrow> n | None \<Rightarrow> dflt)
              | None \<Rightarrow> (case strip_suffix '']'' rest of Some h \<Rightarrow> (h, dflt) | None \<Rightarrow> plain))
         | None \<Rightarrow> plain)"

definition parse_absolute_uri :: "string \<Rightarrow> (string \<times> u16 \<times> string) option" where
  "parse_absolute_uri uri =
     Option.bind (case strip_prefix ''http://'' uri of Some r \<Rightarrow> Some r | None \<Rightarrow> strip_prefix ''https://'' uri)
       (\<lambda>rest.
         let (authority, path) = (case find_str ''/'' rest of
                Some i \<Rightarrow> (take i rest, drop i rest) | None \<Rightarrow> (rest, ''/''));
             (host, port) = split_host_port authority 80
         in if host = [] then None else Some (host, port, path))"

text \<open>The request line: the method and the target, empty when they are missing.\<close>

definition request_line :: "bytes \<Rightarrow> string \<times> string" where
  "request_line head =
     (let text = from_utf8_lossy head;
          req_line = (case find_str (bytes_str CRLF) text of Some i \<Rightarrow> take i text | None \<Rightarrow> text);
          parts = split_whitespace req_line
      in (first_or [] parts, first_or [] (drop 1 parts)))"

section \<open>The CONNECT request\<close>

record http_config =
  hc_server :: string
  hc_username :: "string option"
  hc_password :: "string option"

definition http_connect_request :: "http_config \<Rightarrow> target \<Rightarrow> bytes" where
  "http_connect_request cfg t =
     (let hostport = show_target t
      in str_bytes (''CONNECT '' @ hostport @ '' HTTP/1.1'') @ CRLF @ str_bytes (''Host: '' @ hostport) @ CRLF
         @ (case hc_username cfg of
              Some user \<Rightarrow>
                let pass = (case hc_password cfg of Some p \<Rightarrow> p | None \<Rightarrow> []);
                    token = encode_standard (str_bytes (user @ '':'' @ pass))
                in str_bytes (''Proxy-Authorization: Basic '' @ token) @ CRLF
            | None \<Rightarrow> [])
         @ CRLF)"

fun read_status_loop :: "bytes \<Rightarrow> bytes \<Rightarrow> io_error + bytes \<times> bytes" where
  "read_status_loop buf [] = (if suffix CRLF2 buf then Inr (buf, []) else Inl (IoOther ''http connect: closed''))"
| "read_status_loop buf (b # r) =
     (if suffix CRLF2 buf then Inr (buf, b # r)
      else let buf = buf @ [b]
           in if 8192 < length buf then Inl (IoOther ''http connect: head'') else read_status_loop buf r)"

definition read_http_status :: "bytes \<Rightarrow> io_error + u16 \<times> bytes" where
  "read_http_status s =
     rbind (read_status_loop [] s) (\<lambda>(buf, s).
       let first = first_or [] (str_lines (from_utf8_lossy buf))
       in rbind (ok_or (Option.bind (nth_opt (split_whitespace first) 1) parse_u16) (IoOther ''http connect: status''))
            (\<lambda>status. Inr (status, s)))"

text \<open>What the dialer writes and, from the proxy's answer, what is left for the tunnel.\<close>

definition http_connect :: "http_config \<Rightarrow> target \<Rightarrow> bytes \<Rightarrow> bytes \<times> (io_error + bytes)" where
  "http_connect cfg t answer =
     (http_connect_request cfg t,
      rbind (read_http_status answer) (\<lambda>(status, rest).
        if 200 \<le> status \<and> status < 300 then Inr rest else Inl (IoOther ''http connect: status'')))"

section \<open>DNS over HTTPS\<close>

definition http_body :: "bytes \<Rightarrow> io_error + bytes" where
  "http_body raw =
     rbind (ok_or (find_bytes CRLF2 raw) (IoOther ''doh: head'')) (\<lambda>sep.
       let line_end = (case find_bytes [13] raw of Some i \<Rightarrow> i | None \<Rightarrow> 0);
           status = from_utf8_lossy (take line_end raw);
           ok = (case nth_opt (split_whitespace status) 1 of Some c \<Rightarrow> prefix ''2'' c | None \<Rightarrow> False)
       in if \<not> ok then Inl (IoOther ''doh: status'') else Inr (drop (sep + 4) raw))"

definition parse_https_url :: "string \<Rightarrow> io_error + string \<times> u16 \<times> string" where
  "parse_https_url url =
     rbind (ok_or (strip_prefix ''https://'' url) (IoOther ''doh: scheme'')) (\<lambda>rest.
       let (authority, path) = (case find_str ''/'' rest of
              Some i \<Rightarrow> (take i rest, drop i rest) | None \<Rightarrow> (rest, ''/dns-query''))
       in case rsplit_once CHR '':'' authority of
            Some (h, p) \<Rightarrow> rbind (ok_or (parse_u16 p) (IoOther ''doh: port'')) (\<lambda>port. Inr (h, port, path))
          | None \<Rightarrow> Inr (authority, 443, path))"

section \<open>Words of a line\<close>

definition graphic :: "char \<Rightarrow> bool" where
  "graphic c \<longleftrightarrow> 33 \<le> (of_char c :: nat) \<and> (of_char c :: nat) \<le> 126"

lemma white_space_heads: "w \<in> set white_space \<Longrightarrow> \<not> graphic (hd w)"
  by (auto simp: white_space_def graphic_def of_char_of)

lemma ws_prefix_graphic: "graphic c \<Longrightarrow> ws_prefix (c # s) = None"
  using white_space_heads white_space_nonempty
  by (fastforce simp: ws_prefix_def find_None_iff prefix_Cons)

lemma ws_prefix_space: "ws_prefix (CHR '' '' # s) = Some '' ''"
  by (simp add: ws_prefix_def white_space_def char_of_def bit_0)

lemma split_ws_graphic: "list_all graphic w \<Longrightarrow> split_ws cur (w @ s) = split_ws (cur @ w) s"
proof (induction w arbitrary: cur)
  case (Cons c w)
  then show ?case by (subst split_ws.simps) (simp add: ws_prefix_graphic)
qed simp

lemma split_ws_space: "split_ws cur (CHR '' '' # s) = (if cur = [] then [] else [cur]) @ split_ws [] s"
  by (subst split_ws.simps) (simp add: ws_prefix_space)

lemma split_ws_end: "split_ws cur [] = (if cur = [] then [] else [cur])"
  by (subst split_ws.simps) simp

lemma split_whitespace_word:
  "list_all graphic w \<Longrightarrow> w \<noteq> [] \<Longrightarrow> split_whitespace (w @ CHR '' '' # s) = w # split_whitespace s"
  by (simp add: split_whitespace_def split_ws_graphic split_ws_space)

lemma split_whitespace_last: "list_all graphic w \<Longrightarrow> w \<noteq> [] \<Longrightarrow> split_whitespace w = [w]"
  using split_ws_graphic [of w "[]" "[]"] by (simp add: split_whitespace_def split_ws_end)

section \<open>Reading a head line by line\<close>

lemma suffix_CRLF2_last: "suffix CRLF2 (buf @ [b]) \<Longrightarrow> b = 10"
  by (auto simp: CRLF2_def suffix_def)

lemma suffix_CRLF2_CRLF: "suffix CRLF2 (buf @ CRLF) \<longleftrightarrow> suffix CRLF buf"
  by (auto simp: CRLF2_def CRLF_def suffix_def)

lemma read_head_text:
  assumes "10 \<notin> set l" and "length buf + length l \<le> 16384"
  shows "read_head_loop buf (l @ r) = read_head_loop (buf @ l) r"
  using assms
proof (induction l arbitrary: buf)
  case (Cons b l)
  then have "\<not> suffix CRLF2 (buf @ [b])" using suffix_CRLF2_last by fastforce
  then show ?case using Cons by (auto simp: Let_def)
qed simp

lemma read_head_line:
  assumes "10 \<notin> set l" and "l \<noteq> []" and "length buf + length l + 2 \<le> 16384"
  shows "read_head_loop buf (l @ CRLF @ r) = read_head_loop (buf @ l @ CRLF) r"
proof -
  have "\<not> suffix CRLF (buf @ l)"
    using assms(1,2) by (cases l rule: rev_cases) (auto simp: CRLF_def suffix_def)
  then have "\<not> suffix CRLF2 ((buf @ l) @ CRLF)" by (subst suffix_CRLF2_CRLF)
  then have "read_head_loop ((buf @ l) @ [13]) (10 # r) = read_head_loop (buf @ l @ CRLF) r"
    using assms(3) by (simp add: CRLF_def Let_def)
  moreover have "read_head_loop buf (l @ [13] @ 10 # r) = read_head_loop (buf @ l @ [13]) (10 # r)"
    using read_head_text [of "l @ [13]" buf "10 # r"] assms(1,3) by simp
  ultimately show ?thesis by (simp add: CRLF_def)
qed

lemma read_head_lines:
  assumes "\<forall>l \<in> set ls. 10 \<notin> set l \<and> l \<noteq> []" and "length buf + length (concat (map (\<lambda>l. l @ CRLF) ls)) \<le> 16384"
  shows "read_head_loop buf (concat (map (\<lambda>l. l @ CRLF) ls) @ r)
    = read_head_loop (buf @ concat (map (\<lambda>l. l @ CRLF) ls)) r"
  using assms
proof (induction ls arbitrary: buf)
  case (Cons l ls)
  have "length buf + length l + 2 \<le> 16384" using Cons.prems(2) by (simp add: CRLF_def)
  then have "read_head_loop buf (l @ CRLF @ concat (map (\<lambda>l. l @ CRLF) ls) @ r)
    = read_head_loop (buf @ l @ CRLF) (concat (map (\<lambda>l. l @ CRLF) ls) @ r)"
    using Cons.prems(1) by (intro read_head_line) auto
  also have "\<dots> = read_head_loop ((buf @ l @ CRLF) @ concat (map (\<lambda>l. l @ CRLF) ls)) r"
    using Cons.prems by (intro Cons.IH) auto
  finally show ?case by simp
qed simp

text \<open>A head of non-empty lines closed by an empty one is read to its end and no further.\<close>

lemma read_http_head_lines:
  fixes ls :: "bytes list"
  defines "h \<equiv> concat (map (\<lambda>l. l @ CRLF) ls)"
  assumes "\<forall>l \<in> set ls. 10 \<notin> set l \<and> l \<noteq> []" and "ls \<noteq> []" and "length h \<le> 16382"
  shows "read_http_head (h @ CRLF @ rest) = Inr (h @ CRLF, rest)"
proof -
  have "suffix CRLF h"
    using assms(3) by (cases ls rule: rev_cases) (auto simp: h_def suffix_def)
  then have stop: "suffix CRLF2 (h @ CRLF)" by (subst suffix_CRLF2_CRLF)
  have "\<not> suffix CRLF2 (h @ [13])" using suffix_CRLF2_last [of h 13] by auto
  then have "read_head_loop h (CRLF @ rest) = Inr (h @ CRLF, rest)"
    using stop assms(4) by (simp add: CRLF_def Let_def)
  moreover have "read_http_head (h @ CRLF @ rest) = read_head_loop h (CRLF @ rest)"
    using read_head_lines [of ls "[]" "CRLF @ rest"] assms(2,4) by (simp add: read_http_head_def h_def)
  ultimately show ?thesis by simp
qed

section \<open>The text of addresses\<close>

lemma graphic_digits: "c \<in> set (show_nat n) \<Longrightarrow> graphic c"
  using show_nat_digits [of c n] by (auto simp: graphic_def)

lemma join_chars: "c \<in> set (join sep xs) \<Longrightarrow> c \<in> set sep \<or> (\<exists>x \<in> set xs. c \<in> set x)"
  by (induction sep xs rule: join.induct) auto

lemma show_hex_chars: "c \<in> set (show_hex n) \<Longrightarrow> \<exists>d < 16. c = hex_char d"
proof (induction n rule: show_hex.induct)
  case (1 n)
  show ?case using 1(2)
    by (subst (asm) show_hex.simps) (auto split: if_splits intro: 1(1) exI [of _ n] exI [of _ "n mod 16"])
qed

lemma hex_char_graphic: "d < 16 \<Longrightarrow> graphic (hex_char d) \<and> hex_char d \<noteq> CHR '']''"
  by (auto simp: hex_char_def graphic_def of_char_of char_of_eq_iff take_bit_eq_mod)

lemma show_ipv4_graphic: "c \<in> set (show_ipv4 a) \<Longrightarrow> graphic c \<and> c \<noteq> CHR '':'' \<and> c \<noteq> CHR '']'' \<and> c \<noteq> CHR ''[''"
  using show_ipv4_chars [of c a] by (auto simp: digit_val_def graphic_def Let_def split: if_splits)

lemma show_ipv6_graphic:
  assumes "c \<in> set (show_ipv6 a)"
  shows "graphic c \<and> c \<noteq> CHR '']''"
proof -
  have hex: "graphic c \<and> c \<noteq> CHR '']''" if "c \<in> set (join '':'' (map (\<lambda>s. show_hex (unat s)) xs))" for xs :: "u16 list"
    using join_chars [OF that] show_hex_chars hex_char_graphic by (fastforce simp: graphic_def)
  have "graphic CHR '':'' \<and> graphic CHR ''f''" by (simp add: graphic_def)
  then show ?thesis
    using assms hex show_ipv4_graphic
    by (auto simp: show_ipv6_def Let_def split: if_splits prod.splits)
qed

text \<open>The host a target is addressed by, and the targets whose text the proxy reads back.\<close>

fun host_text :: "target \<Rightarrow> string" where
  "host_text (Domain host _) = host"
| "host_text (Socket (SockV4 ip _)) = show_ipv4 ip"
| "host_text (Socket (SockV6 ip _ _ _)) = show_ipv6 ip"

fun text_ok :: "target \<Rightarrow> bool" where
  "text_ok (Domain host _) \<longleftrightarrow> host \<noteq> [] \<and> list_all graphic host \<and> CHR '':'' \<notin> set host \<and> hd host \<noteq> CHR ''[''"
| "text_ok (Socket (SockV4 _ _)) \<longleftrightarrow> True"
| "text_ok (Socket (SockV6 _ _ _ scope)) \<longleftrightarrow> scope = 0"

lemma show_target_graphic: "text_ok t \<Longrightarrow> list_all graphic (show_target t) \<and> show_target t \<noteq> []"
  using show_ipv4_graphic show_ipv6_graphic graphic_digits
  by (cases t rule: text_ok.cases) (auto simp: list_all_iff graphic_def)

lemma show_ipv4_neq_Nil: "show_ipv4 a \<noteq> []"
proof -
  obtain w x y z where "be32 a = [w, x, y, z]" using be32_Cons by blast
  then show ?thesis by (simp add: show_ipv4_def)
qed

lemma find_str_first_char: "c \<notin> set l \<Longrightarrow> find_str (c # p) (l @ (c # p) @ r) = Some (length l)"
  by (induction l) auto

lemma rsplit_port: "rsplit_once CHR '':'' (h @ CHR '':'' # show_nat n) = Some (h, show_nat n)"
  by (rule rsplit_once_append) (rule show_nat_no_sep, simp)

lemma strip_bracket: "h \<noteq> [] \<Longrightarrow> hd h \<noteq> CHR ''['' \<Longrightarrow> strip_prefix ''['' (h @ s) = None"
  by (cases h) (auto simp: strip_prefix_def)

lemma split_host_port_plain:
  "h \<noteq> [] \<Longrightarrow> hd h \<noteq> CHR ''['' \<Longrightarrow> split_host_port (h @ CHR '':'' # show_nat (unat p)) d = (h, p)"
  by (simp add: split_host_port_def strip_bracket rsplit_port parse_u16_show)

lemma split_host_port_show:
  assumes "text_ok t"
  shows "split_host_port (show_target t) d = (host_text t, target_port t)"
proof (cases t rule: text_ok.cases)
  case (1 host p)
  then show ?thesis using assms by (simp add: split_host_port_plain)
next
  case (2 ip p)
  have "hd (show_ipv4 ip) \<noteq> CHR ''[''"
    using show_ipv4_graphic [OF hd_in_set [OF show_ipv4_neq_Nil]] by blast
  then show ?thesis using 2 by (simp add: split_host_port_plain show_ipv4_neq_Nil)
next
  case (3 ip p f scope)
  have "find_str '']:'' (show_ipv6 ip @ '']:'' @ show_nat (unat p)) = Some (length (show_ipv6 ip))"
    using show_ipv6_graphic [of "CHR '']''" ip] by (intro find_str_first_char) auto
  then show ?thesis using 3 assms
    by (simp add: split_host_port_def strip_prefix_def parse_u16_show)
qed

section \<open>The request is read back\<close>

definition line_char :: "char \<Rightarrow> bool" where
  "line_char c \<longleftrightarrow> graphic c \<or> c = CHR '' ''"

lemma line_no_lf: "list_all line_char l \<Longrightarrow> 10 \<notin> set (str_bytes l)"
proof
  assume l: "list_all line_char l" and "10 \<in> set (str_bytes l)"
  then obtain c where c: "c \<in> set l" "(of_char c :: u8) = 10" by (auto simp: str_bytes_def)
  then have "(of_char c :: nat) = 10" using unat_of_char [of c] by simp
  then show False using l c(1) by (auto simp: list_all_iff line_char_def graphic_def)
qed

lemma line_no_cr: "list_all line_char l \<Longrightarrow> char_of (13 :: nat) \<notin> set l"
proof
  assume "list_all line_char l" and "char_of (13 :: nat) \<in> set l"
  then have "line_char (char_of (13 :: nat))" by (auto simp: list_all_iff)
  then show False by (auto simp: line_char_def graphic_def of_char_of char_of_eq_iff)
qed

lemma line_ascii: "list_all line_char l \<Longrightarrow> \<forall>b \<in> set (str_bytes l). unat b < 128"
  by (auto simp: list_all_iff str_bytes_def line_char_def graphic_def)

lemma alphabet_graphic: "list_all (\<lambda>b. 33 \<le> unat b \<and> unat b \<le> 126) ALPHABET"
  by (simp add: ALPHABET_def str_bytes_def of_char_def)

lemma encode_bytes_graphic: "b \<in> set (encode_bytes bs) \<Longrightarrow> 33 \<le> unat b \<and> unat b \<le> 126"
proof (induction bs rule: encode_bytes.induct)
  case (2 b0 rest)
  have alpha: "33 \<le> unat (ALPHABET ! unat (w AND 63)) \<and> unat (ALPHABET ! unat (w AND 63)) \<le> 126" for w :: u32
  proof -
    have "w AND 63 \<le> 63" by (rule word_and_le1)
    then have "unat (w AND 63) < 64" by (simp add: word_le_nat_alt)
    then show ?thesis using alphabet_graphic alphabet_significant by (simp add: list_all_length)
  qed
  from 2(2) show ?case
    by (auto simp: Let_def alpha split: if_splits dest: 2(1) [OF refl refl refl refl])
qed simp

lemma token_graphic: "list_all graphic (encode_standard bs)"
  using encode_bytes_graphic [of _ bs]
  by (auto simp: encode_standard_def bytes_str_def list_all_iff graphic_def of_char_of take_bit_eq_mod)

definition request_lines :: "http_config \<Rightarrow> target \<Rightarrow> string list" where
  "request_lines cfg t =
     [''CONNECT '' @ show_target t @ '' HTTP/1.1'', ''Host: '' @ show_target t]
     @ (case hc_username cfg of
          Some user \<Rightarrow> [''Proxy-Authorization: Basic ''
            @ encode_standard (str_bytes (user @ '':'' @ (case hc_password cfg of Some p \<Rightarrow> p | None \<Rightarrow> [])))]
        | None \<Rightarrow> [])"

lemma http_connect_request_lines:
  "http_connect_request cfg t = concat (map (\<lambda>l. l @ CRLF) (map str_bytes (request_lines cfg t))) @ CRLF"
  by (simp add: http_connect_request_def request_lines_def Let_def split: option.split)

lemma line_literals:
  "list_all line_char ''CONNECT ''" "list_all line_char '' HTTP/1.1''" "list_all line_char ''Host: ''"
  "list_all line_char ''Proxy-Authorization: Basic ''"
  by (simp_all add: line_char_def graphic_def)

lemma line_graphic: "list_all graphic w \<Longrightarrow> list_all line_char w"
  by (simp add: list_all_iff line_char_def)

lemma request_lines_ok:
  assumes "text_ok t" and "l \<in> set (request_lines cfg t)"
  shows "list_all line_char l \<and> l \<noteq> []"
proof -
  note graphic = show_target_graphic [OF assms(1), THEN conjunct1, THEN line_graphic]
    token_graphic [THEN line_graphic]
  from assms(2) consider "l = ''CONNECT '' @ show_target t @ '' HTTP/1.1''" | "l = ''Host: '' @ show_target t"
    | bs where "l = ''Proxy-Authorization: Basic '' @ encode_standard bs"
    unfolding request_lines_def by (cases "hc_username cfg") auto
  then show ?thesis
    by cases (simp_all only: list_all_append line_literals graphic, simp_all)
qed

lemma bytes_str_append: "bytes_str (a @ b) = bytes_str a @ bytes_str b"
  by (simp add: bytes_str_def)

lemma request_line_first:
  assumes "list_all graphic w" and "w \<noteq> []" and "\<forall>b \<in> set rest. unat b < 128"
  shows "request_line (str_bytes (''CONNECT '' @ w @ '' HTTP/1.1'') @ CRLF @ rest) = (''CONNECT'', w)"
proof -
  let ?l = "''CONNECT '' @ w @ '' HTTP/1.1''"
  have line: "list_all line_char ?l"
    using assms(1) by (auto simp: line_char_def graphic_def list_all_iff)
  then have cr: "char_of (13 :: nat) \<notin> set ?l" by (rule line_no_cr)
  have "utf8_valid (str_bytes ?l @ CRLF @ rest)"
    using line_ascii [OF line] assms(3) by (intro utf8_valid_ascii) (auto simp: CRLF_def)
  then have decoded: "from_utf8_lossy (str_bytes ?l @ CRLF @ rest) = ?l @ bytes_str CRLF @ bytes_str rest"
    by (simp only: from_utf8_lossy_valid bytes_str_append bytes_str_str_bytes)
  have crlf: "bytes_str CRLF = [char_of (13 :: nat), char_of (10 :: nat)]"
    by (simp add: CRLF_def bytes_str_def)
  have cut: "find_str (bytes_str CRLF) (?l @ bytes_str CRLF @ bytes_str rest) = Some (length ?l)"
    unfolding crlf by (rule find_str_first_char [OF cr])
  have words: "split_whitespace ?l = [''CONNECT'', w, ''HTTP/1.1'']"
    using split_whitespace_word [of "''CONNECT''" "w @ '' HTTP/1.1''"] split_whitespace_word [of w "''HTTP/1.1''"]
      split_whitespace_last [of "''HTTP/1.1''"] assms(1,2) by (simp add: graphic_def)
  show ?thesis
    unfolding request_line_def Let_def decoded cut using words by (simp add: first_or_def)
qed

lemma connect_request_read:
  assumes "text_ok t" and "length (http_connect_request cfg t) \<le> 16384"
  shows "read_http_head (http_connect_request cfg t @ rest) = Inr (http_connect_request cfg t, rest)"
    and "request_line (http_connect_request cfg t) = (''CONNECT'', show_target t)"
proof -
  let ?ls = "map str_bytes (request_lines cfg t)"
  let ?more = "concat (map (\<lambda>l. l @ CRLF) (tl ?ls)) @ CRLF"
  have req: "http_connect_request cfg t = concat (map (\<lambda>l. l @ CRLF) ?ls) @ CRLF"
    by (rule http_connect_request_lines)
  have ok: "list_all line_char l \<and> l \<noteq> []" if "l \<in> set (request_lines cfg t)" for l
    using request_lines_ok [OF assms(1) that] .
  have lines: "\<forall>l \<in> set ?ls. 10 \<notin> set l \<and> l \<noteq> []" "?ls \<noteq> []"
    using ok line_no_lf by (auto simp: request_lines_def)
  have "length (concat (map (\<lambda>l. l @ CRLF) ?ls)) \<le> 16382"
    using assms(2) unfolding req by (simp add: CRLF_def)
  from read_http_head_lines [OF lines this, of rest]
  show "read_http_head (http_connect_request cfg t @ rest) = Inr (http_connect_request cfg t, rest)"
    unfolding req by (simp only: append_assoc)
  have first: "http_connect_request cfg t = str_bytes (''CONNECT '' @ show_target t @ '' HTTP/1.1'') @ CRLF @ ?more"
    unfolding req by (simp add: request_lines_def)
  have "\<forall>l \<in> set ?ls. \<forall>b \<in> set l. unat b < 128"
    using ok line_ascii by auto
  then have "\<forall>l \<in> set (tl ?ls). \<forall>b \<in> set l. unat b < 128"
    using list.set_sel(2) [OF lines(2)] by blast
  then have "\<forall>b \<in> set ?more. unat b < 128" by (auto simp: CRLF_def)
  then show "request_line (http_connect_request cfg t) = (''CONNECT'', show_target t)"
    unfolding first using show_target_graphic [OF assms(1)] by (intro request_line_first) auto
qed

section \<open>The answer of the proxy\<close>

lemma read_head_extends: "read_head_loop buf r = Inr (h, rest) \<Longrightarrow> length buf < length h"
  by (induction buf r rule: read_head_loop.induct) (auto simp: Let_def split: if_splits)

text \<open>The two readers agree on heads both accept.\<close>

lemma read_status_head:
  "read_head_loop buf r = Inr (h, rest) \<Longrightarrow> length h \<le> 8192 \<Longrightarrow> \<not> suffix CRLF2 buf
    \<Longrightarrow> read_status_loop buf r = Inr (h, rest)"
proof (induction buf r rule: read_head_loop.induct)
  case (2 buf b r)
  show ?case
  proof (cases "suffix CRLF2 (buf @ [b])")
    case True
    with 2 have "h = buf @ [b]" "rest = r" by (simp_all add: Let_def)
    then show ?thesis using 2(3,4) True by (cases r) (simp_all add: Let_def)
  next
    case False
    with 2(2) have l: "read_head_loop (buf @ [b]) r = Inr (h, rest)" and n: "\<not> 16384 < length (buf @ [b])"
      by (auto simp: Let_def split: if_splits)
    have "length (buf @ [b]) < length h" by (rule read_head_extends [OF l])
    then show ?thesis using 2(1) [OF refl False n l 2(3) False] 2(3,4) by (simp add: Let_def)
  qed
qed simp

lemma first_line:
  assumes "list_all line_char l"
  shows "first_or [] (str_lines (from_utf8_lossy (str_bytes l @ CRLF2))) = l"
proof -
  let ?cr = "carriage_return" and ?lf = "newline"
  have "utf8_valid (str_bytes l @ CRLF2)"
    using line_ascii [OF assms] by (intro utf8_valid_ascii) (auto simp: CRLF2_def)
  then have decoded: "from_utf8_lossy (str_bytes l @ CRLF2) = (l @ [?cr]) @ ?lf # [?cr, ?lf]"
    by (simp add: from_utf8_lossy_valid bytes_str_append) (simp add: CRLF2_def bytes_str_def carriage_return_def newline_def)
  have "?lf \<notin> set (l @ [?cr])"
  proof
    assume "?lf \<in> set (l @ [?cr])"
    then have "?lf = ?cr \<or> line_char ?lf" using assms by (auto simp: list_all_iff)
    then show False
      by (auto simp: newline_def carriage_return_def line_char_def graphic_def of_char_of char_of_eq_iff)
  qed
  then have cut: "split_on ?lf ((l @ [?cr]) @ ?lf # [?cr, ?lf]) = (l @ [?cr]) # split_on ?lf [?cr, ?lf]"
    by (rule split_on_append)
  show ?thesis
    unfolding decoded str_lines_def cut
    by (simp add: Let_def first_or_def strip_cr_def strip_suffix_def)
qed

definition established :: bytes where
  "established = str_bytes ''HTTP/1.1 200 Connection Established'' @ CRLF2"

lemma established_read: "read_http_status (established @ rest) = Inr (200, rest)"
proof -
  let ?l = "str_bytes ''HTTP/1.1 200 Connection Established''"
  have l: "list_all line_char ''HTTP/1.1 200 Connection Established''"
    by (simp add: line_char_def graphic_def)
  have e: "established = concat (map (\<lambda>l. l @ CRLF) [?l]) @ CRLF"
    by (simp add: established_def CRLF_def CRLF2_def)
  have "read_http_head (concat (map (\<lambda>l. l @ CRLF) [?l]) @ CRLF @ rest) = Inr (concat (map (\<lambda>l. l @ CRLF) [?l]) @ CRLF, rest)"
    using line_no_lf [OF l] by (intro read_http_head_lines) (auto simp: CRLF_def)
  then have "read_http_head (established @ rest) = Inr (established, rest)"
    unfolding e by (simp only: append_assoc)
  then have "read_status_loop [] (established @ rest) = Inr (established, rest)"
    unfolding read_http_head_def by (rule read_status_head) (simp_all add: established_def CRLF2_def)
  moreover have "first_or [] (str_lines (from_utf8_lossy established)) = ''HTTP/1.1 200 Connection Established''"
    unfolding established_def by (rule first_line [OF l])
  moreover have "split_whitespace ''HTTP/1.1 200 Connection Established'' = [''HTTP/1.1'', ''200'', ''Connection'', ''Established'']"
    using split_whitespace_word [of "''HTTP/1.1''" "''200 Connection Established''"]
      split_whitespace_word [of "''200''" "''Connection Established''"]
      split_whitespace_word [of "''Connection''" "''Established''"] split_whitespace_last [of "''Established''"]
    by (simp add: graphic_def)
  moreover have "parse_u16 ''200'' = Some 200" by (simp add: text_eval)
  ultimately show ?thesis by (simp add: read_http_status_def Let_def nth_opt_def)
qed

text \<open>The local proxy reads a CONNECT request as the dialer of an HTTP proxy writes it, with or without credentials, to its
  last byte and no further, and finds in it the host and the port of the target.\<close>

theorem http_connect_read_back:
  assumes "text_ok t" and "length (http_connect_request cfg t) \<le> 16384"
  shows "\<exists>head. read_http_head (http_connect_request cfg t @ rest) = Inr (head, rest)
    \<and> request_line head = (''CONNECT'', show_target t)
    \<and> split_host_port (snd (request_line head)) 443 = (host_text t, target_port t)"
  using connect_request_read [OF assms] split_host_port_show [OF assms(1)] by simp

theorem http_connect_read_back_witness:
  "\<exists>head. read_http_head (http_connect_request \<lparr>hc_server = [], hc_username = None, hc_password = None\<rparr>
       (Domain ''a.com'' 443) @ [22, 3, 1]) = Inr (head, [22, 3, 1])
    \<and> split_host_port (snd (request_line head)) 443 = (''a.com'', 443)"
proof -
  let ?cfg = "\<lparr>hc_server = [], hc_username = None, hc_password = None\<rparr>"
  have ok: "text_ok (Domain ''a.com'' 443)" by (simp add: graphic_def)
  have "length (http_connect_request ?cfg (Domain ''a.com'' 443)) < 200"
    by (simp add: http_connect_request_def CRLF_def show_nat.simps)
  then have "length (http_connect_request ?cfg (Domain ''a.com'' 443)) \<le> 16384" by linarith
  from http_connect_read_back [OF ok this, of "[22, 3, 1]"] show ?thesis by auto
qed

end
