(* ===== verification/Socks.thy ===== *)
theory Socks
  imports Target
begin

text \<open>
  SOCKS5 as the local proxy serves it (\<open>crates/net/src/inbound.rs\<close>), as a dialer speaks it to a proxy
  (\<open>socks5_connect\<close> of \<open>crates/net/src/outbound.rs\<close>), and the header of its UDP datagrams
  (\<open>crates/net/src/udp.rs\<close>). A side of a TCP dialogue is a function from the bytes the other side
  sends to the bytes it writes and its result.
\<close>

section \<open>The server\<close>

datatype socks_request = SConnect target | SUdpAssociate

definition socks_reply :: "u8 \<Rightarrow> bytes" where
  "socks_reply rep = [0x05, rep, 0x00, 0x01, 0, 0, 0, 0, 0, 0]"

definition reply_addr :: "u8 \<Rightarrow> socket_addr \<Rightarrow> bytes" where
  "reply_addr rep addr =
     [0x05, rep, 0x00]
     @ (case addr of SockV4 ip _ \<Rightarrow> 0x01 # be32 ip | SockV6 ip _ _ _ \<Rightarrow> 0x04 # be128 ip)
     @ be16 (socket_port addr)"

definition read_target :: "u8 \<Rightarrow> bytes \<Rightarrow> io_error + target \<times> bytes" where
  "read_target atyp r =
     (if atyp = 0x01 then
        rbind (read_exact 4 r) (\<lambda>(a, r). rbind (read_exact 2 r) (\<lambda>(p, r).
          Inr (Socket (SockV4 (from_be a) (from_be p)), r)))
      else if atyp = 0x04 then
        rbind (read_exact 16 r) (\<lambda>(a, r). rbind (read_exact 2 r) (\<lambda>(p, r).
          Inr (Socket (SockV6 (from_be a) (from_be p) 0 0), r)))
      else if atyp = 0x03 then
        rbind (read_u8 r) (\<lambda>(l, r). rbind (read_exact (unat l) r) (\<lambda>(d, r).
        rbind (ok_or (from_utf8 d) (IoOther ''socks5: domain'')) (\<lambda>host.
        rbind (read_exact 2 r) (\<lambda>(p, r). Inr (Domain host (from_be p), r)))))
      else Inl (IoOther ''socks5: atyp''))"

definition writing :: "bytes \<Rightarrow> bytes \<times> 'r \<Rightarrow> bytes \<times> 'r" where
  "writing w d = (w @ fst d, snd d)"

text \<open>\<open>reading r k\<close>: a read that fails ends the side, writing no more.\<close>

definition reading :: "io_error + 'a \<Rightarrow> ('a \<Rightarrow> bytes \<times> (io_error + 'r)) \<Rightarrow> bytes \<times> (io_error + 'r)" where
  "reading r k = (case r of Inl e \<Rightarrow> ([], Inl e) | Inr x \<Rightarrow> k x)"

definition socks_handshake :: "bytes \<Rightarrow> bytes \<times> (io_error + socks_request \<times> bytes)" where
  "socks_handshake client =
     reading (read_exact 2 client) (\<lambda>(head, client).
       if head ! 0 \<noteq> 0x05 then ([], Inl (IoOther ''socks5: version''))
       else reading (read_exact (unat (head ! 1)) client) (\<lambda>(_, client).
         writing [0x05, 0x00] (
           reading (read_exact 4 client) (\<lambda>(rhead, client).
           reading (read_target (rhead ! 3) client) (\<lambda>(addr, client).
             if rhead ! 1 = 0x01 then ([], Inr (SConnect addr, client))
             else if rhead ! 1 = 0x03 then ([], Inr (SUdpAssociate, client))
             else (socks_reply 0x07, Inl (IoOther ''socks5: command'')))))))"

section \<open>The dialer\<close>

record socks5_config =
  s5_server :: string
  s5_username :: "string option"
  s5_password :: "string option"

fun connect_request :: "target \<Rightarrow> bytes" where
  "connect_request (Domain host port) =
     [0x05, 0x01, 0x00, 0x03, of_nat (length (str_bytes host))] @ str_bytes host @ be16 port"
| "connect_request (Socket (SockV4 ip port)) = [0x05, 0x01, 0x00, 0x01] @ be32 ip @ be16 port"
| "connect_request (Socket (SockV6 ip port _ _)) = [0x05, 0x01, 0x00, 0x04] @ be128 ip @ be16 port"

definition auth_request :: "socks5_config \<Rightarrow> bytes" where
  "auth_request cfg =
     (let user = str_bytes (case s5_username cfg of Some u \<Rightarrow> u | None \<Rightarrow> []);
          pass = str_bytes (case s5_password cfg of Some p \<Rightarrow> p | None \<Rightarrow> [])
      in [0x01, of_nat (length user)] @ user @ [of_nat (length pass)] @ pass)"

text \<open>The request and the answer, once a method is agreed; the result is what is left of the answer.\<close>

definition connect_exchange :: "target \<Rightarrow> bytes \<Rightarrow> bytes \<times> (io_error + bytes)" where
  "connect_exchange t server =
     writing (connect_request t) (
       reading (read_exact 4 server) (\<lambda>(head, server).
         if head ! 1 \<noteq> 0x00 then ([], Inl (IoOther ''socks5: refused''))
         else reading (if head ! 3 = 0x01 then Inr (4, server) else if head ! 3 = 0x04 then Inr (16, server)
                       else if head ! 3 = 0x03 then rbind (read_u8 server) (\<lambda>(l, server). Inr (unat l, server))
                       else Inl (IoOther ''socks5: atyp'')) (\<lambda>(bnd_len, server).
              reading (read_exact (bnd_len + 2) server) (\<lambda>(_, server). ([], Inr server)))))"

definition socks5_connect :: "socks5_config \<Rightarrow> target \<Rightarrow> bytes \<Rightarrow> bytes \<times> (io_error + bytes)" where
  "socks5_connect cfg t server =
     writing (if s5_username cfg \<noteq> None then [0x05, 0x01, 0x02] else [0x05, 0x01, 0x00]) (
       reading (read_exact 2 server) (\<lambda>(m, server).
         if m ! 0 \<noteq> 0x05 then ([], Inl (IoOther ''socks5: version''))
         else if m ! 1 = 0x00 then connect_exchange t server
         else if m ! 1 = 0x02 then
           writing (auth_request cfg) (
             reading (read_exact 2 server) (\<lambda>(ar, server).
               if ar ! 1 \<noteq> 0x00 then ([], Inl (IoOther ''socks5: auth'')) else connect_exchange t server))
         else ([], Inl (IoOther ''socks5: method''))))"

section \<open>Datagrams\<close>

definition parse_udp_datagram :: "bytes \<Rightarrow> io_error + u8 \<times> target \<times> nat" where
  "parse_udp_datagram buf =
     (if length buf < 4 then Inl UnexpectedEof
      else rbind (index buf 2) (\<lambda>frag. rbind (index buf 3) (\<lambda>atyp.
        if atyp = 0x01 then
          if length buf < 10 then Inl UnexpectedEof
          else rbind (slice buf 4 8) (\<lambda>ip. rbind (index_u16 buf 8) (\<lambda>port.
            Inr (frag, Socket (SockV4 (from_be ip) port), 10)))
        else if atyp = 0x04 then
          if length buf < 22 then Inl UnexpectedEof
          else rbind (slice buf 4 20) (\<lambda>ip. rbind (index_u16 buf 20) (\<lambda>port.
            Inr (frag, Socket (SockV6 (from_be ip) port 0 0), 22)))
        else if atyp = 0x03 then
          rbind (index buf 4) (\<lambda>l.
            let len = unat l; fin = 5 + len + 2
            in if length buf < fin then Inl UnexpectedEof
               else rbind (slice buf 5 (5 + len)) (\<lambda>h. rbind (index_u16 buf (5 + len)) (\<lambda>port.
                 Inr (frag, Domain (from_utf8_lossy h) port, fin))))
        else Inl (IoOther ''udp: atyp''))))"

fun udp_address :: "target \<Rightarrow> bytes" where
  "udp_address (Socket (SockV4 ip port)) = [0x01] @ be32 ip @ be16 port"
| "udp_address (Socket (SockV6 ip port _ _)) = [0x04] @ be128 ip @ be16 port"
| "udp_address (Domain host port) =
     (let h = str_bytes host; len = min (length h) 255 in [0x03, of_nat len] @ take len h @ be16 port)"

definition encode_udp_datagram :: "target \<Rightarrow> bytes \<Rightarrow> bytes" where
  "encode_udp_datagram t payload = [0, 0, 0] @ udp_address t @ payload"

section \<open>A dialogue between the two sides\<close>

lemma reading_Inr [simp]: "reading (Inr x) k = k x"
  and reading_Inl [simp]: "reading (Inl e) k = ([], Inl e)"
  by (simp_all add: reading_def)

lemma writing_simps [simp]: "writing w (w', r) = (w @ w', r)"
  by (simp add: writing_def)

lemma read_target_request:
  assumes "target_wf t"
  shows "\<exists>a body. connect_request t = [0x05, 0x01, 0x00, a] @ body \<and> read_target a (body @ rest) = Inr (t, rest)"
  using assms
  by (cases t rule: connect_request.cases)
    (auto simp: read_target_def unat_of_nat_u8 from_utf8_str order_le_less_trans)

text \<open>C31. A dialer and the local proxy understand each other: for every target whose name fits its length byte, and whether or not
  credentials are configured, the proxy reads from what the dialer writes exactly this target, leaving what the client sent
  early, and the dialer reads the positive reply to its end, leaving the tunnel's data.\<close>

theorem socks_dialogue:
  assumes "target_wf t"
  shows "\<exists>w. socks5_connect cfg t ([0x05, 0x00] @ socks_reply 0x00 @ data) = (w, Inr data)
    \<and> socks_handshake (w @ early) = ([0x05, 0x00], Inr (SConnect t, early))"
proof -
  obtain a body where req: "connect_request t = [0x05, 0x01, 0x00, a] @ body"
    and tgt: "read_target a (body @ early) = Inr (t, early)"
    using read_target_request [OF assms] by blast
  let ?greet = "if s5_username cfg \<noteq> None then [0x05, 0x01, 0x02] else [0x05, 0x01, 0x00]"
  let ?w = "?greet @ connect_request t"
  have "socks5_connect cfg t ([0x05, 0x00] @ socks_reply 0x00 @ data) = (?w, Inr data)"
    by (simp add: socks5_connect_def connect_exchange_def socks_reply_def read_exact_def)
  moreover have "socks_handshake (?w @ early) = ([0x05, 0x00], Inr (SConnect t, early))"
    using tgt by (simp add: socks_handshake_def read_exact_def req)
  ultimately show ?thesis by blast
qed

theorem socks_dialogue_witness:
  "\<exists>w. socks5_connect \<lparr>s5_server = [], s5_username = Some ''u'', s5_password = None\<rparr> (Domain ''a.com'' 443)
       ([0x05, 0x00] @ socks_reply 0x00 @ [7]) = (w, Inr [7])
     \<and> socks_handshake (w @ [9]) = ([0x05, 0x00], Inr (SConnect (Domain ''a.com'' 443), [9]))"
proof (rule socks_dialogue)
  show "target_wf (Domain ''a.com'' 443)" by code_simp
qed

text \<open>A name of 256 bytes is announced as empty: the proxy takes the first two bytes of the name for the port.\<close>

lemma socks_long_host:
  assumes "str_bytes host = a # b # h" and "length host = 256"
  shows "connect_request (Domain host p) = [0x05, 0x01, 0x00, 0x03, 0] @ a # b # h @ be16 p"
    and "read_target 0x03 (0 # a # b # h @ be16 p) = Inr (Domain [] (from_be [a, b]), h @ be16 p)"
proof -
  have "(of_nat (length (str_bytes host)) :: u8) = 0" by (simp only: length_str_bytes assms(2)) simp
  then show "connect_request (Domain host p) = [0x05, 0x01, 0x00, 0x03, 0] @ a # b # h @ be16 p"
    by (simp only: connect_request.simps assms(1)) simp
  have "from_utf8 [] = Some []" by (simp add: from_utf8_def utf8_valid.simps bytes_str_def)
  then show "read_target 0x03 (0 # a # b # h @ be16 p) = Inr (Domain [] (from_be [a, b]), h @ be16 p)"
    by (simp add: read_target_def read_exact_def)
qed

section \<open>Datagrams are read back\<close>

text \<open>A datagram the relay writes for a target is read back as this target, unfragmented, with the payload at the offset
  returned.\<close>

theorem udp_datagram_roundtrip:
  assumes "target_wf t"
  shows "\<exists>off. parse_udp_datagram (encode_udp_datagram t payload) = Inr (0, t, off)
    \<and> drop off (encode_udp_datagram t payload) = payload"
proof (cases t rule: udp_address.cases)
  case (1 ip port)
  have "slice ([0, 0, 0, 1] @ be32 ip @ be16 port @ payload) 4 8 = Inr (be32 ip)"
    "index_u16 ([0, 0, 0, 1] @ be32 ip @ be16 port @ payload) 8 = Inr port"
    using slice_append [of 8 "[0, 0, 0, 1]" "be32 ip" "be16 port @ payload"]
      index_u16_append [of "[0, 0, 0, 1] @ be32 ip" port payload] by simp_all
  then show ?thesis using 1 by (simp add: parse_udp_datagram_def encode_udp_datagram_def)
next
  case (2 ip port flow scope)
  have "slice ([0, 0, 0, 4] @ be128 ip @ be16 port @ payload) 4 20 = Inr (be128 ip)"
    "index_u16 ([0, 0, 0, 4] @ be128 ip @ be16 port @ payload) 20 = Inr port"
    using slice_append [of 20 "[0, 0, 0, 4]" "be128 ip" "be16 port @ payload"]
      index_u16_append [of "[0, 0, 0, 4] @ be128 ip" port payload] by simp_all
  then show ?thesis using 2 assms by (simp add: parse_udp_datagram_def encode_udp_datagram_def)
next
  case (3 host port)
  have wf: "is_str host" "length host \<le> 255" using 3 assms by simp_all
  let ?l = "of_nat (length host) :: u8"
  have l: "unat ?l = length host" using wf(2) by (simp add: unat_of_nat_u8)
  have "slice ([0, 0, 0, 3, ?l] @ str_bytes host @ be16 port @ payload) 5 (5 + length host) = Inr (str_bytes host)"
    "index_u16 ([0, 0, 0, 3, ?l] @ str_bytes host @ be16 port @ payload) (5 + length host) = Inr port"
    using slice_append [of "5 + length host" "[0, 0, 0, 3, ?l]" "str_bytes host" "be16 port @ payload"]
      index_u16_append [of "[0, 0, 0, 3, ?l] @ str_bytes host" port payload] by simp_all
  moreover have "drop (7 + length host) ([0, 0, 0, 3, ?l] @ str_bytes host @ be16 port @ payload) = payload"
    by (simp add: drop_Cons' numeral_eq_Suc)
  ultimately show ?thesis using 3 wf l
    by (simp add: parse_udp_datagram_def encode_udp_datagram_def from_utf8_lossy_str)
qed

theorem udp_datagram_roundtrip_witness:
  "\<exists>off. parse_udp_datagram (encode_udp_datagram (Domain ''ya.ru'' 443) [1, 2]) = Inr (0, Domain ''ya.ru'' 443, off)
    \<and> drop off (encode_udp_datagram (Domain ''ya.ru'' 443) [1, 2]) = [1, 2]"
proof (rule udp_datagram_roundtrip)
  show "target_wf (Domain ''ya.ru'' 443)" by code_simp
qed

text \<open>C40. The reader of datagrams from the client panics on exactly one shape of input: the four bytes of a header that announces
  a domain name and end there, because the length byte is read without a check. Every other input is read or rejected.\<close>

theorem udp_datagram_panics_iff:
  "parse_udp_datagram buf = Inl Panic \<longleftrightarrow> length buf = 4 \<and> buf ! 3 = 0x03"
proof (cases "length buf < 4")
  case False
  then show ?thesis
    by (auto simp: parse_udp_datagram_def rbind_eq_Inl index_def slice_def index_u16_def Let_def split: if_splits)
qed (auto simp: parse_udp_datagram_def)

end
