(* ===== verification/Engine.thy ===== *)
theory Engine
  imports Geo FakeIp Resolver HttpText Socks
begin

text \<open>
  The traffic engine, \<open>crates/net/src/engine.rs\<close>: the choice of an outbound for a target by the routing
  rules, the geo databases, the fake-IP allocator and the resolver; dialling with retries and the
  fallback to the default node; and the handlers of the local SOCKS5 and HTTP proxy.

  The proxied variants of \<open>Outbound\<close> are one constructor over a parameter type of configurations. The
  resolver is the function from a name to the outcome of \<open>resolve\<close> (theory \<open>Resolver\<close>); dialling an
  outbound is a parameter that gives the outcome of each attempt.
\<close>

section \<open>The engine\<close>

datatype 'c outbound = ODirect | OProxy 'c

record 'c engine =
  en_outbounds :: "string \<rightharpoonup> 'c outbound"
  en_default_proxy :: "string option"
  en_rules :: "rule list"
  en_default_action :: route_action
  en_resolver :: "(string \<Rightarrow> dns_result) option"
  en_fakeip :: "fake_ip option"
  en_geosite :: "geosite_db option"
  en_geoip :: "geoip_db option"

datatype 'c decision = Connect "'c outbound" | DBlock

record 'c routed =
  rt_decision :: "'c decision"
  rt_target :: target
  rt_chosen_node :: "string option"
  rt_fallback :: "'c outbound option"
  rt_fallback_name :: "string option"

definition engine_new ::
    "(string \<rightharpoonup> 'c outbound) \<Rightarrow> string option \<Rightarrow> rule list \<Rightarrow> route_action \<Rightarrow> 'c engine" where
  "engine_new obs dflt rules act =
     \<lparr>en_outbounds = obs, en_default_proxy = dflt, en_rules = rules, en_default_action = act,
      en_resolver = None, en_fakeip = None, en_geosite = None, en_geoip = None\<rparr>"

definition single_proxy :: "'c outbound \<Rightarrow> 'c engine" where
  "single_proxy ob = engine_new [''proxy'' \<mapsto> ob] (Some ''proxy'') [] (RProxy None)"

text \<open>The rules that name a geo category without its database: their positions, counted from one.\<close>

definition missing_geo_refs :: "'c engine \<Rightarrow> (nat \<times> string list) list" where
  "missing_geo_refs e =
     concat (map (\<lambda>(i, r).
         (if geosite r \<noteq> [] \<and> en_geosite e = None then [(i + 1, geosite r)] else [])
       @ (if geoip r \<noteq> [] \<and> en_geoip e = None then [(i + 1, geoip r)] else []))
       (enumerate 0 (en_rules e)))"

section \<open>Matching a rule\<close>

definition has_ip_crit :: "rule \<Rightarrow> bool" where
  "has_ip_crit r \<longleftrightarrow> ip_cidrs r \<noteq> [] \<or> geoip r \<noteq> []"

definition literal_ip :: "string \<Rightarrow> ip_addr option" where
  "literal_ip host =
     (let h = (case strip_suffix ''.'' host of Some x \<Rightarrow> x | None \<Rightarrow> host);
          h = (case Option.bind (strip_prefix ''['' h) (strip_suffix '']'') of Some x \<Rightarrow> x | None \<Rightarrow> h)
      in parse_ip h)"

definition domain_in_rule :: "'c engine \<Rightarrow> rule \<Rightarrow> string \<Rightarrow> bool" where
  "domain_in_rule e r host \<longleftrightarrow>
     list_ex (\<lambda>d. domain_matches d host) (domains r)
     \<or> list_ex (\<lambda>cat. is_some_and (en_geosite e) (\<lambda>db. geosite_matches db cat host)) (geosite r)"

definition ip_in_rule :: "'c engine \<Rightarrow> rule \<Rightarrow> ip_addr \<Rightarrow> bool" where
  "ip_in_rule e r ip \<longleftrightarrow>
     list_ex (\<lambda>c. cidr_contains c ip) (ip_cidrs r)
     \<or> list_ex (\<lambda>cc. is_some_and (en_geoip e) (\<lambda>db. geoip_matches db cc ip)) (geoip r)"

definition conn_app_default :: conn_app where
  "conn_app_default = \<lparr>exe_path = None, process_name = None\<rparr>"

definition non_ip_ok :: "'c engine \<Rightarrow> rule \<Rightarrow> string option \<Rightarrow> u16 \<Rightarrow> conn_app \<Rightarrow> bool" where
  "non_ip_ok e r domain port app =
     (if (domains r \<noteq> [] \<or> geosite r \<noteq> []) \<and> \<not> is_some_and domain (domain_in_rule e r) then False
      else if ports r \<noteq> [] \<and> \<not> List.member (ports r) port then False
      else if processes r \<noteq> [] \<and> \<not> list_ex (\<lambda>m. app_matches m app) (processes r) then False
      else True)"

section \<open>From an action to an outbound\<close>

definition act_full ::
    "'c engine \<Rightarrow> route_action \<Rightarrow> 'c decision \<times> string option \<times> 'c outbound option \<times> string option" where
  "act_full e action =
     (case action of
        RDirect \<Rightarrow> (Connect ODirect, None, None, None)
      | RBlock \<Rightarrow> (DBlock, None, None, None)
      | RProxy node \<Rightarrow>
          let key = (case node of Some t \<Rightarrow> Some t | None \<Rightarrow> en_default_proxy e);
              decision = (case Option.bind key (en_outbounds e) of Some ob \<Rightarrow> Connect ob | None \<Rightarrow> DBlock);
              (chosen, fallback, fb_name) =
                (case (node, en_default_proxy e) of
                   (Some t, Some d) \<Rightarrow> if t \<noteq> d then (Some t, en_outbounds e d, Some d) else (None, None, None)
                 | _ \<Rightarrow> (None, None, None))
          in (decision, chosen, fallback, fb_name))"

definition act :: "'c engine \<Rightarrow> route_action \<Rightarrow> 'c decision" where
  "act e action = fst (act_full e action)"

section \<open>Routing\<close>

definition target_parts :: "target \<Rightarrow> string option \<times> ip_addr option" where
  "target_parts t =
     (case t of
        Domain host _ \<Rightarrow> (Some host, literal_ip host)
      | Socket (SockV4 ip _) \<Rightarrow> (None, Some (V4 ip))
      | Socket (SockV6 ip _ _ _) \<Rightarrow> (None, Some (V6 ip)))"

fun resolve_target_loop ::
    "'c engine \<Rightarrow> string option \<Rightarrow> ip_addr option \<Rightarrow> u16 \<Rightarrow> rule list \<Rightarrow> route_action" where
  "resolve_target_loop e domain ip port [] = en_default_action e"
| "resolve_target_loop e domain ip port (r # rs) =
     (if \<not> non_ip_ok e r domain port conn_app_default then resolve_target_loop e domain ip port rs
      else if \<not> has_ip_crit r then rule_action r
      else if is_some_and ip (ip_in_rule e r) then rule_action r
      else resolve_target_loop e domain ip port rs)"

definition resolve_target :: "'c engine \<Rightarrow> target \<Rightarrow> 'c decision" where
  "resolve_target e t =
     (let (domain, ip) = target_parts t
      in act e (resolve_target_loop e domain ip (target_port t) (en_rules e)))"

text \<open>
  The loop of \<open>route\<close>. \<open>resolved\<close> is what the one query returned, once it was made (a failure as \<open>None\<close>
  inside); the result is the action of the rule that matched, whether a block could not be confirmed,
  and \<open>resolved\<close> at the end.
\<close>

fun route_loop ::
    "'c engine \<Rightarrow> string option \<Rightarrow> ip_addr option \<Rightarrow> u16 \<Rightarrow> ip_addr list option option \<Rightarrow> bool \<Rightarrow> rule list
     \<Rightarrow> route_action option \<times> bool \<times> ip_addr list option option" where
  "route_loop e domain ip port resolved pending_block [] = (None, pending_block, resolved)"
| "route_loop e domain ip port resolved pending_block (r # rs) =
     (if \<not> non_ip_ok e r domain port conn_app_default
        then route_loop e domain ip port resolved pending_block rs
      else if \<not> has_ip_crit r then (Some (rule_action r), pending_block, resolved)
      else case ip of
        Some i \<Rightarrow>
          if ip_in_rule e r i then (Some (rule_action r), pending_block, resolved)
          else route_loop e domain ip port resolved pending_block rs
      | None \<Rightarrow>
          (case en_resolver e of
             None \<Rightarrow> route_loop e domain ip port resolved pending_block rs
           | Some resolve \<Rightarrow>
               let answer = (case resolved of
                      Some a \<Rightarrow> a
                    | None \<Rightarrow> result_ok (resolve (case domain of Some d \<Rightarrow> d | None \<Rightarrow> [])))
               in (case answer of
                     Some ips \<Rightarrow>
                       if list_ex (ip_in_rule e r) ips then (Some (rule_action r), pending_block, Some answer)
                       else route_loop e domain ip port (Some answer) pending_block rs
                   | None \<Rightarrow>
                       route_loop e domain ip port (Some answer) (pending_block \<or> rule_action r = RBlock) rs)))"

text \<open>The target after the fake-IP reversal: a synthetic address becomes its domain again.\<close>

definition unfake :: "'c engine \<Rightarrow> target \<Rightarrow> target \<times> string option \<times> ip_addr option" where
  "unfake e t =
     (let (domain, ip) = target_parts t
      in case (en_fakeip e, ip) of
           (Some fi, Some i) \<Rightarrow>
             (case domain_of fi i of
                Some d \<Rightarrow> (Domain d (target_port t), Some d, None)
              | None \<Rightarrow> (t, domain, ip))
         | _ \<Rightarrow> (t, domain, ip))"

definition route_action_of :: "'c engine \<Rightarrow> target \<Rightarrow> route_action" where
  "route_action_of e t =
     (let (_, domain, ip) = unfake e t;
          (matched, pending_block, _) = route_loop e domain ip (target_port t) None False (en_rules e)
      in case matched of
           Some a \<Rightarrow> a
         | None \<Rightarrow> if pending_block then RBlock else en_default_action e)"

definition route :: "'c engine \<Rightarrow> target \<Rightarrow> 'c routed" where
  "route e t =
     (let (decision, chosen, fallback, fb_name) = act_full e (route_action_of e t)
      in \<lparr>rt_decision = decision, rt_target = fst (unfake e t), rt_chosen_node = chosen,
          rt_fallback = fallback, rt_fallback_name = fb_name\<rparr>)"

section \<open>Dialling\<close>

abbreviation (input) CONNECT_ATTEMPTS :: nat where "CONNECT_ATTEMPTS \<equiv> 3"

text \<open>\<open>attempt i\<close> is the outcome of the \<open>i\<close>-th attempt, a timeout being a failure.\<close>

fun connect_loop :: "(nat \<Rightarrow> io_error + 's) \<Rightarrow> nat \<Rightarrow> nat \<Rightarrow> io_error option \<Rightarrow> io_error + 's" where
  "connect_loop attempt i 0 last_err = Inl (case last_err of Some e \<Rightarrow> e | None \<Rightarrow> IoOther ''connect'')"
| "connect_loop attempt i (Suc k) last_err =
     (case attempt i of Inr up \<Rightarrow> Inr up | Inl e \<Rightarrow> connect_loop attempt (i + 1) k (Some e))"

definition connect_with_retry :: "(nat \<Rightarrow> io_error + 's) \<Rightarrow> io_error + 's" where
  "connect_with_retry attempt = connect_loop attempt 0 CONNECT_ATTEMPTS None"

definition via_label :: "'c outbound \<Rightarrow> string" where
  "via_label ob = (case ob of ODirect \<Rightarrow> ''direct'' | OProxy _ \<Rightarrow> ''proxy'')"

record route_notice =
  rn_host :: string
  rn_failed_node :: string
  rn_via :: string

type_synonym ('c, 's) dialer = "'c outbound \<Rightarrow> target \<Rightarrow> nat \<Rightarrow> io_error + 's"

definition connect_routed ::
    "('c, 's) dialer \<Rightarrow> 'c routed \<Rightarrow> 'c outbound \<Rightarrow> ('s \<times> string) option \<times> route_notice option" where
  "connect_routed dial routed ob =
     (case connect_with_retry (dial ob (rt_target routed)) of
        Inr up \<Rightarrow> (Some (up, via_label ob), None)
      | Inl _ \<Rightarrow>
          (case (rt_fallback routed, rt_chosen_node routed, rt_fallback_name routed) of
             (Some fb, Some node, Some fb_name) \<Rightarrow>
               (case connect_with_retry (dial fb (rt_target routed)) of
                  Inr up \<Rightarrow> (Some (up, via_label fb),
                    Some \<lparr>rn_host = show_target (rt_target routed), rn_failed_node = node, rn_via = fb_name\<rparr>)
                | Inl _ \<Rightarrow> (None, None))
           | _ \<Rightarrow> (None, None)))"

section \<open>The handlers of the local proxy\<close>

text \<open>
  How a connection of a client ends: closed, or relayed between the client and an upstream stream, to
  which some bytes were written first, and with what the client has sent already.
\<close>

datatype 's session = Closed | Relayed 's string bytes bytes

definition serve_connect :: "'c engine \<Rightarrow> ('c, 's) dialer \<Rightarrow> target \<Rightarrow> bytes \<Rightarrow> bytes \<times> 's session" where
  "serve_connect e dial t client =
     (let routed = route e t
      in case rt_decision routed of
           Connect ob \<Rightarrow>
             (case fst (connect_routed dial routed ob) of
                Some (up, via) \<Rightarrow> (socks_reply 0x00, Relayed up via [] client)
              | None \<Rightarrow> (socks_reply 0x05, Closed))
         | DBlock \<Rightarrow> (socks_reply 0x02, Closed))"

text \<open>The server of \<open>inbound.rs\<close>, which proxies everything through one outbound.\<close>

definition relay_through :: "('c, 's) dialer \<Rightarrow> 'c outbound \<Rightarrow> target \<Rightarrow> bytes \<Rightarrow> bytes \<times> 's session" where
  "relay_through dial ob t client =
     (case dial ob t 0 of
        Inr up \<Rightarrow> (socks_reply 0x00, Relayed up (via_label ob) [] client)
      | Inl _ \<Rightarrow> (socks_reply 0x05, Closed))"

definition handle_client :: "('c, 's) dialer \<Rightarrow> 'c outbound \<Rightarrow> bytes \<Rightarrow> bytes \<times> 's session" where
  "handle_client dial ob client =
     (case socks_handshake client of
        (w, Inr (SConnect t, client)) \<Rightarrow> writing w (relay_through dial ob t client)
      | (w, Inr (SUdpAssociate, client)) \<Rightarrow> (w @ socks_reply 0x07, Closed)
      | (w, Inl _) \<Rightarrow> (w, Closed))"

definition http_line :: "string \<Rightarrow> bytes" where
  "http_line l = str_bytes l @ CRLF2"

text \<open>What both forms of an HTTP request do once the target is known; \<open>greet\<close> is written to the client and
  \<open>forward\<close> to the upstream on success.\<close>

definition http_connect_to ::
    "'c engine \<Rightarrow> ('c, 's) dialer \<Rightarrow> target \<Rightarrow> bytes \<Rightarrow> bytes \<Rightarrow> bytes \<Rightarrow> bytes \<times> 's session" where
  "http_connect_to e dial t greet forward client =
     (let routed = route e t
      in case rt_decision routed of
           Connect ob \<Rightarrow>
             (case fst (connect_routed dial routed ob) of
                Some (up, via) \<Rightarrow> (greet, Relayed up via forward client)
              | None \<Rightarrow> (http_line ''HTTP/1.1 502 Bad Gateway'', Closed))
         | DBlock \<Rightarrow> (http_line ''HTTP/1.1 403 Forbidden'', Closed))"

definition handle_http :: "'c engine \<Rightarrow> ('c, 's) dialer \<Rightarrow> bytes \<Rightarrow> bytes \<times> 's session" where
  "handle_http e dial client =
     (case read_http_head client of
        Inl _ \<Rightarrow> ([], Closed)
      | Inr (head, client) \<Rightarrow>
          let (method, target_str) = request_line head
          in if eq_ignore_ascii_case method ''CONNECT'' then
               let (host, port) = split_host_port target_str 443
               in http_connect_to e dial (Domain host port) established [] client
             else
               (case parse_absolute_uri target_str of
                  None \<Rightarrow> (http_line ''HTTP/1.1 400 Bad Request'', Closed)
                | Some (host, port, path) \<Rightarrow>
                    let headers_block = (case find_bytes CRLF head of Some i \<Rightarrow> drop (i + 2) head | None \<Rightarrow> []);
                        out = str_bytes (method @ '' '' @ path @ '' HTTP/1.1'') @ CRLF @ headers_block
                    in http_connect_to e dial (Domain host port) [] out client))"

text \<open>A redirected connection has no protocol of its own: it is dialled and relayed, or closed.\<close>

definition serve_transparent ::
    "'c engine \<Rightarrow> ('c, 's) dialer \<Rightarrow> socket_addr option \<Rightarrow> bytes \<Rightarrow> 's session" where
  "serve_transparent e dial original_dst client =
     (case original_dst of
        None \<Rightarrow> Closed
      | Some dst \<Rightarrow>
          let routed = route e (Socket dst)
          in case rt_decision routed of
               Connect ob \<Rightarrow>
                 (case connect_with_retry (dial ob (rt_target routed)) of
                    Inr up \<Rightarrow> Relayed up (via_label ob) [] client
                  | Inl _ \<Rightarrow> Closed)
             | DBlock \<Rightarrow> Closed)"

text \<open>One port for both protocols: the first byte tells them apart. UDP ASSOCIATE is left to \<open>udp.rs\<close>.\<close>

definition serve_client ::
    "'c engine \<Rightarrow> ('c, 's) dialer \<Rightarrow> (bytes \<Rightarrow> bytes \<times> 's session) \<Rightarrow> bytes \<Rightarrow> bytes \<times> 's session" where
  "serve_client e dial udp_associate client =
     (case client of
        [] \<Rightarrow> ([], Closed)
      | first # _ \<Rightarrow>
          if first \<noteq> 0x05 then handle_http e dial client
          else (case socks_handshake client of
                  (w, Inr (SConnect t, client)) \<Rightarrow> writing w (serve_connect e dial t client)
                | (w, Inr (SUdpAssociate, client)) \<Rightarrow> writing w (udp_associate client)
                | (w, Inl _) \<Rightarrow> (w, Closed)))"

section \<open>First match\<close>

text \<open>
  What the loop of \<open>route\<close> computes, without its state: a rule applies when its other criteria hold and,
  if it has an address criterion, the known address or one of the resolved ones meets it.
\<close>

record query =
  q_domain :: "string option"
  q_ip :: "ip_addr option"
  q_port :: u16
  q_answer :: "ip_addr list option option"

definition query_of :: "'c engine \<Rightarrow> target \<Rightarrow> query" where
  "query_of e t =
     (let (_, domain, ip) = unfake e t
      in \<lparr>q_domain = domain, q_ip = ip, q_port = target_port t,
          q_answer = (if ip = None
             then map_option (\<lambda>res. result_ok (res (case domain of Some d \<Rightarrow> d | None \<Rightarrow> []))) (en_resolver e)
             else None)\<rparr>)"

definition others_ok :: "'c engine \<Rightarrow> query \<Rightarrow> rule \<Rightarrow> bool" where
  "others_ok e q r \<longleftrightarrow> non_ip_ok e r (q_domain q) (q_port q) conn_app_default"

definition query_ips :: "query \<Rightarrow> ip_addr list" where
  "query_ips q =
     (case q_ip q of Some i \<Rightarrow> [i] | None \<Rightarrow> (case q_answer q of Some (Some ips) \<Rightarrow> ips | _ \<Rightarrow> []))"

definition rule_applies :: "'c engine \<Rightarrow> rule \<Rightarrow> query \<Rightarrow> bool" where
  "rule_applies e r q \<longleftrightarrow> others_ok e q r \<and> (has_ip_crit r \<longrightarrow> list_ex (ip_in_rule e r) (query_ips q))"

fun engine_eval :: "'c engine \<Rightarrow> rule list \<Rightarrow> query \<Rightarrow> route_action \<Rightarrow> route_action" where
  "engine_eval e [] q d = d"
| "engine_eval e (r # rs) q d = (if rule_applies e r q then rule_action r else engine_eval e rs q d)"

interpretation engine: first_match "rule_applies e" rule_action "engine_eval e" for e
  by unfold_locales simp_all

text \<open>A block that the failed query left open.\<close>

definition unconfirmed_block :: "'c engine \<Rightarrow> query \<Rightarrow> rule list \<Rightarrow> bool" where
  "unconfirmed_block e q rs \<longleftrightarrow>
     q_answer q = Some None \<and> list_ex (\<lambda>r. others_ok e q r \<and> has_ip_crit r \<and> rule_action r = RBlock) rs"

definition answer_ok :: "'c engine \<Rightarrow> query \<Rightarrow> bool" where
  "answer_ok e q \<longleftrightarrow> q_answer q = (if q_ip q = None
      then map_option (\<lambda>res. result_ok (res (case q_domain q of Some d \<Rightarrow> d | None \<Rightarrow> []))) (en_resolver e) else None)"

text \<open>The rules that make the engine ask the resolver.\<close>

definition asks :: "'c engine \<Rightarrow> query \<Rightarrow> rule \<Rightarrow> bool" where
  "asks e q r \<longleftrightarrow> others_ok e q r \<and> has_ip_crit r \<and> q_answer q \<noteq> None"

abbreviation run_loop where
  "run_loop e q resolved pb rs \<equiv> route_loop e (q_domain q) (q_ip q) (q_port q) resolved pb rs"

lemma route_loop_asks:
  assumes "answer_ok e q" and "resolved = None \<or> resolved = q_answer q" and "asks e q r"
  shows "run_loop e q resolved pb (r # rs) =
    (if rule_applies e r q then (Some (rule_action r), pb, q_answer q)
     else run_loop e q (q_answer q) (pb \<or> (q_answer q = Some None \<and> rule_action r = RBlock)) rs)"
proof -
  obtain res where res: "en_resolver e = Some res" and ip: "q_ip q = None"
    and ok: "others_ok e q r" "has_ip_crit r"
    using assms(1,3) by (auto simp: asks_def answer_ok_def split: if_splits)
  define answer where "answer = result_ok (res (case q_domain q of Some d \<Rightarrow> d | None \<Rightarrow> []))"
  have qa: "q_answer q = Some answer" using assms(1) res ip by (simp add: answer_ok_def answer_def)
  have now: "(case resolved of Some a \<Rightarrow> a | None \<Rightarrow> result_ok (res (case q_domain q of Some d \<Rightarrow> d | None \<Rightarrow> []))) = answer"
    using assms(2) qa by (auto simp: answer_def)
  show ?thesis
    using ok ip qa
    by (cases answer) (simp_all add: now res rule_applies_def others_ok_def query_ips_def)
qed

lemma route_loop_silent:
  assumes "answer_ok e q" and "\<not> asks e q r"
  shows "run_loop e q resolved pb (r # rs) =
    (if rule_applies e r q then (Some (rule_action r), pb, resolved) else run_loop e q resolved pb rs)"
  using assms
  by (cases "q_ip q"; cases "en_resolver e")
    (simp_all add: asks_def answer_ok_def rule_applies_def others_ok_def query_ips_def)

lemma route_loop_spec:
  assumes ok: "answer_ok e q" and "resolved = None \<or> resolved = q_answer q"
    and "run_loop e q resolved pb rs = (matched, pb', resolved')"
  shows "engine_eval e rs q d = (case matched of Some a \<Rightarrow> a | None \<Rightarrow> d)
    \<and> (matched = None \<longrightarrow> pb' = (pb \<or> unconfirmed_block e q rs))"
  using assms(2,3)
proof (induction rs arbitrary: resolved pb)
  case Nil
  then show ?case by (auto simp: unconfirmed_block_def)
next
  case (Cons r rs)
  show ?case
  proof (cases "asks e q r")
    case True
    then show ?thesis
      using Cons.prems(2) Cons.IH [of "q_answer q"] unfolding route_loop_asks [OF ok Cons.prems(1) True]
      by (auto simp: unconfirmed_block_def asks_def split: if_splits)
  next
    case False
    then show ?thesis
      using Cons.prems(2) Cons.IH [OF Cons.prems(1)] unfolding route_loop_silent [OF ok False]
      by (auto simp: unconfirmed_block_def asks_def split: if_splits)
  qed
qed

lemma answer_ok_query_of: "answer_ok e (query_of e t)"
  by (simp add: answer_ok_def query_of_def split: prod.split)

lemma engine_route_first_match_aux:
  "route_action_of e t =
     engine_eval e (en_rules e) (query_of e t)
       (if unconfirmed_block e (query_of e t) (en_rules e) then RBlock else en_default_action e)"
proof -
  define q where "q = query_of e t"
  obtain t' domain ip where u: "unfake e t = (t', domain, ip)" by (cases "unfake e t")
  have q: "q_domain q = domain" "q_ip q = ip" "q_port q = target_port t"
    by (simp_all add: q_def query_of_def u)
  obtain matched pb resolved where l: "run_loop e q None False (en_rules e) = (matched, pb, resolved)"
    by (cases "run_loop e q None False (en_rules e)")
  have "answer_ok e q" by (simp add: q_def answer_ok_query_of)
  from route_loop_spec [OF this _ l] show ?thesis
    using l q by (auto simp: route_action_of_def u q_def [symmetric] split: option.splits)
qed

text \<open>C14. Routing is first match: the action for a target is that of the first rule that applies to it, counting for an address
  criterion the target's own address or else every address its name resolves to; when none applies it is the default, except that
  a blocking rule which only the failed resolution left open blocks.\<close>

theorem engine_route_first_match:
  "route_action_of e t =
     engine_eval e (en_rules e) (query_of e t)
       (if unconfirmed_block e (query_of e t) (en_rules e) then RBlock else en_default_action e)"
  by (rule engine_route_first_match_aux)

section \<open>Blocking fails closed\<close>

lemma engine_eval_explicit:
  assumes "query_ips q = []" and "\<forall>r \<in> set rs. others_ok e q r \<longrightarrow> has_ip_crit r"
  shows "engine_eval e rs q d = d"
  using assms(2) by (intro engine.eval_no_match) (auto simp: rule_applies_def assms(1))

text \<open>C5. Suppressing DNS does not open a block: when the resolution of the target's name fails, a blocking rule with an address
  criterion whose other criteria hold blocks the connection, unless a rule without an address criterion matches explicitly.\<close>

theorem engine_block_fails_closed:
  assumes "unfake e t = (t', Some name, None)" and "en_resolver e = Some res" and "res name = Inl err"
    and "r \<in> set (en_rules e)" and "rule_action r = RBlock" and "has_ip_crit r"
    and "non_ip_ok e r (Some name) (target_port t) conn_app_default"
    and "\<forall>x \<in> set (en_rules e). non_ip_ok e x (Some name) (target_port t) conn_app_default \<longrightarrow> has_ip_crit x"
  shows "rt_decision (route e t) = DBlock"
proof -
  define q where "q = query_of e t"
  have q: "q_domain q = Some name" "q_ip q = None" "q_port q = target_port t" "q_answer q = Some None"
    using assms(1-3) by (simp_all add: q_def query_of_def)
  have "unconfirmed_block e q (en_rules e)"
    using assms(4-7) q by (auto simp: unconfirmed_block_def others_ok_def list_ex_iff)
  moreover have "query_ips q = []" by (simp add: query_ips_def q)
  moreover have "\<forall>x \<in> set (en_rules e). others_ok e q x \<longrightarrow> has_ip_crit x"
    using assms(8) q by (simp add: others_ok_def)
  ultimately have "route_action_of e t = RBlock"
    by (simp add: engine_route_first_match_aux q_def [symmetric] engine_eval_explicit)
  then show ?thesis by (simp add: route_def act_full_def)
qed

section \<open>Synthetic addresses\<close>

lemma unfake_allocated:
  assumes "fakeip_wf g" and "allocate g d = (g', ip)" and "en_fakeip e = Some g'"
  shows "unfake e (Socket (SockV4 ip p)) = (Domain d p, Some d, None)"
proof -
  have "ip_to_dom g' ip = Some d" using pool.alloc_name [OF assms(1), of d] assms(2) by simp
  then show ?thesis by (simp add: unfake_def target_parts_def domain_of_def assms(3))
qed

lemma unfake_name: "literal_ip d = None \<Longrightarrow> unfake e (Domain d p) = (Domain d p, Some d, None)"
  by (simp add: unfake_def target_parts_def split: option.split)

text \<open>C18. Synthetic addresses are transparent: a connection to the address the allocator gave for a name is routed, dialled and
  labelled exactly like a connection to the name itself.\<close>

theorem engine_fakeip_transparent:
  assumes "fakeip_wf g" and "allocate g d = (g', ip)" and "en_fakeip e = Some g'" and "literal_ip d = None"
  shows "route e (Socket (SockV4 ip p)) = route e (Domain d p)"
  by (simp add: route_def route_action_of_def unfake_allocated [OF assms(1-3)] unfake_name [OF assms(4)])

section \<open>The two routers and the core evaluator\<close>

lemma resolve_target_loop_eval:
  assumes "q_answer q = None"
  shows "resolve_target_loop e (q_domain q) (q_ip q) (q_port q) rs = engine_eval e rs q (en_default_action e)"
  using assms
  by (induction rs) (auto simp: rule_applies_def others_ok_def query_ips_def is_some_and_def split: option.splits)

text \<open>The synchronous router and the asynchronous one decide alike as long as nothing has to be resolved: when no resolver is
  configured or the target has an address of its own, and the address is not a synthetic one.\<close>

theorem engine_routers_agree:
  assumes "unfake e t = (t, target_parts t)" and "en_resolver e = None \<or> snd (target_parts t) \<noteq> None"
  shows "rt_decision (route e t) = resolve_target e t"
proof -
  define q where "q = query_of e t"
  obtain domain ip where parts: "target_parts t = (domain, ip)" by (cases "target_parts t")
  have q: "q_domain q = domain" "q_ip q = ip" "q_port q = target_port t" "q_answer q = None"
    using assms parts by (auto simp: q_def query_of_def)
  have "route_action_of e t = resolve_target_loop e domain ip (target_port t) (en_rules e)"
    using resolve_target_loop_eval [OF q(4), of e "en_rules e"] q
    by (simp add: engine_route_first_match_aux q_def [symmetric] unconfirmed_block_def)
  then show ?thesis
    by (simp add: route_def resolve_target_def parts act_def split: prod.split)
qed


section \<open>Nothing leaves directly unasked\<close>

definition all_proxied :: "'c engine \<Rightarrow> bool" where
  "all_proxied e \<longleftrightarrow> (\<forall>n ob. en_outbounds e n = Some ob \<longrightarrow> ob \<noteq> ODirect)"

lemma route_not_direct:
  assumes "all_proxied e" and "route_action_of e t \<noteq> RDirect"
  shows "rt_decision (route e t) \<noteq> Connect ODirect \<and> rt_fallback (route e t) \<noteq> Some ODirect"
  using assms
  by (auto simp: route_def act_full_def all_proxied_def Let_def bind_eq_Some_conv
      split: route_action.splits option.splits if_splits)

lemma connect_routed_not_direct:
  assumes "ob \<noteq> ODirect" and "rt_fallback routed \<noteq> Some ODirect"
  shows "connect_routed dial routed ob = connect_routed (dial(ODirect := x)) routed ob"
    and "fst (connect_routed dial routed ob) = Some (up, via) \<Longrightarrow> via = ''proxy''"
  using assms
  by (auto simp: connect_routed_def via_label_def split: sum.splits option.splits outbound.splits)

text \<open>C2. When the rules do not send a target out directly and every configured node is a proxy, nothing of the connection goes
  out directly: neither handler depends on how a direct connection would turn out, so none is attempted, and what is relayed is
  relayed through a proxy, also after the fallback to the default node.\<close>

theorem engine_no_direct_leak:
  assumes "all_proxied e" and "route_action_of e t \<noteq> RDirect"
  shows "serve_connect e dial t client = serve_connect e (dial(ODirect := x)) t client
    \<and> http_connect_to e dial t greet forward client = http_connect_to e (dial(ODirect := x)) t greet forward client
    \<and> (serve_connect e dial t client = (w, Relayed up via f r) \<longrightarrow> via = ''proxy'')"
proof (cases "rt_decision (route e t)")
  case (Connect ob)
  then have nd: "ob \<noteq> ODirect" "rt_fallback (route e t) \<noteq> Some ODirect"
    using route_not_direct [OF assms] by auto
  note same = connect_routed_not_direct(1) [OF nd, of dial x] and via = connect_routed_not_direct(2) [OF nd, of dial]
  show ?thesis
    using via by (auto simp: serve_connect_def http_connect_to_def Connect same [symmetric] split: option.splits)
qed (simp add: serve_connect_def http_connect_to_def)

section \<open>Through the local HTTP proxy\<close>

lemma connect_with_retry_first: "attempt 0 = Inr up \<Longrightarrow> connect_with_retry attempt = Inr up"
  by (simp add: connect_with_retry_def numeral_eq_Suc)

text \<open>Dialling fails only when every attempt fails, and then with the last error.\<close>

lemma connect_with_retry_fails:
  "connect_with_retry attempt = Inl err \<longleftrightarrow> (\<forall>i < 3. \<exists>e. attempt i = Inl e) \<and> attempt 2 = Inl err"
  by (auto simp: connect_with_retry_def numeral_eq_Suc less_Suc_eq split: sum.splits)

text \<open>C22. End to end through the local HTTP proxy: the request a dialer of an HTTP proxy writes for a target reaches the routing
  engine as this host and port, the engine's choice is dialled for it, what the client sent early is relayed first, and the
  dialer accepts the answer and leaves the tunnel's data untouched.\<close>

theorem http_proxy_end_to_end:
  assumes "text_ok t" and "length (http_connect_request cfg t) \<le> 16384"
    and "rt_decision (route e (Domain (host_text t) (target_port t))) = Connect ob"
    and "dial ob (rt_target (route e (Domain (host_text t) (target_port t)))) 0 = Inr up"
  shows "handle_http e dial (http_connect_request cfg t @ early) = (established, Relayed up (via_label ob) [] early)
    \<and> http_connect cfg t (established @ data) = (http_connect_request cfg t, Inr data)"
proof -
  have "eq_ignore_ascii_case ''CONNECT'' ''CONNECT''" by simp
  then have "handle_http e dial (http_connect_request cfg t @ early) = (established, Relayed up (via_label ob) [] early)"
    using connect_request_read [OF assms(1,2)] split_host_port_show [OF assms(1)] assms(3)
      connect_with_retry_first [of "dial ob (rt_target (route e (Domain (host_text t) (target_port t))))", OF assms(4)]
    by (simp add: handle_http_def http_connect_to_def connect_routed_def)
  moreover have "http_connect cfg t (established @ data) = (http_connect_request cfg t, Inr data)"
    by (simp add: http_connect_def established_read)
  ultimately show ?thesis by blast
qed

section \<open>Sample engine\<close>

definition block_rule :: rule where
  "block_rule = rule_default\<lparr>ip_cidrs := [\<lparr>cidr_base = V4 0x01010100, cidr_prefix = 24\<rparr>], rule_action := RBlock\<rparr>"

definition sample_engine :: "nat engine" where
  "sample_engine = (engine_new [''n'' \<mapsto> OProxy 0] (Some ''n'') [block_rule] (RProxy None))
     \<lparr>en_resolver := Some (\<lambda>_. Inl UnexpectedEof)\<rparr>"

lemma sample_block:
  "cidr_contains \<lparr>cidr_base = V4 0x01010100, cidr_prefix = 24\<rparr> (V4 0x01010109)"
  "\<not> cidr_contains \<lparr>cidr_base = V4 0x01010100, cidr_prefix = 24\<rparr> (V4 7)"
  by code_simp+

lemma sample_literal: "literal_ip ''a.com'' = None"
  by (simp add: literal_ip_def text_eval)

lemma sample_unfake: "unfake sample_engine (Domain ''a.com'' 443) = (Domain ''a.com'' 443, Some ''a.com'', None)"
  by (rule unfake_name) (rule sample_literal)

theorem engine_block_fails_closed_witness:
  "rt_decision (route sample_engine (Domain ''a.com'' 443)) = DBlock"
  by (rule engine_block_fails_closed [OF sample_unfake, of _ _ block_rule])
    (simp_all add: sample_engine_def engine_new_def block_rule_def rule_default_def has_ip_crit_def non_ip_ok_def)

theorem engine_fakeip_transparent_witness:
  "\<exists>g ip. en_fakeip (single_proxy ODirect\<lparr>en_fakeip := Some g\<rparr>) = Some g
     \<and> route (single_proxy ODirect\<lparr>en_fakeip := Some g\<rparr>) (Socket (SockV4 ip 443))
       = route (single_proxy ODirect\<lparr>en_fakeip := Some g\<rparr>) (Domain ''a.com'' 443)"
proof -
  obtain g' ip where a: "allocate sample_pool ''a.com'' = (g', ip)" by fastforce
  have "en_fakeip (single_proxy ODirect\<lparr>en_fakeip := Some g'\<rparr>) = Some g'" by simp
  with engine_fakeip_transparent [OF fakeip_new_wf [OF sample_pool_new] a this sample_literal] show ?thesis by blast
qed

theorem engine_routers_agree_witness:
  "rt_decision (route (sample_engine\<lparr>en_resolver := None\<rparr>) (Domain ''a.com'' 443))
   = resolve_target (sample_engine\<lparr>en_resolver := None\<rparr>) (Domain ''a.com'' 443)"
proof -
  have "unfake (sample_engine\<lparr>en_resolver := None\<rparr>) (Domain ''a.com'' 443)
    = (Domain ''a.com'' 443, target_parts (Domain ''a.com'' 443))"
    by (simp add: unfake_name target_parts_def sample_literal)
  then show ?thesis by (rule engine_routers_agree) simp
qed


theorem engine_no_direct_leak_witness:
  "serve_connect sample_engine (\<lambda>_ _ _. Inr (5 :: nat)) (Socket (SockV4 7 443)) []
   = serve_connect sample_engine ((\<lambda>_ _ _. Inr 5)(ODirect := \<lambda>_ _. Inl UnexpectedEof)) (Socket (SockV4 7 443)) []"
proof -
  have "all_proxied sample_engine"
    by (auto simp: all_proxied_def sample_engine_def engine_new_def split: if_splits)
  moreover have "route_action_of sample_engine (Socket (SockV4 7 443)) = RProxy None"
    by (simp add: engine_route_first_match_aux query_of_def unfake_def target_parts_def sample_engine_def engine_new_def
        rule_applies_def query_ips_def has_ip_crit_def block_rule_def rule_default_def ip_in_rule_def sample_block
        unconfirmed_block_def del: cidr_contains.simps)
  ultimately show ?thesis
    using engine_no_direct_leak [of sample_engine "Socket (SockV4 7 443)" "\<lambda>_ _ _. Inr (5 :: nat)"] by simp
qed

theorem http_proxy_end_to_end_witness:
  "handle_http (single_proxy (OProxy (0 :: nat))) (\<lambda>_ _ _. Inr (5 :: nat))
       (http_connect_request \<lparr>hc_server = [], hc_username = None, hc_password = None\<rparr> (Domain ''a.com'' 443) @ [1])
     = (established, Relayed 5 ''proxy'' [] [1])"
proof -
  let ?cfg = "\<lparr>hc_server = [], hc_username = None, hc_password = None\<rparr>"
  have ok: "text_ok (Domain ''a.com'' 443)" by (simp add: graphic_def)
  have "length (http_connect_request ?cfg (Domain ''a.com'' 443)) < 200"
    by (simp add: http_connect_request_def CRLF_def show_nat.simps)
  then have len: "length (http_connect_request ?cfg (Domain ''a.com'' 443)) \<le> 16384" by linarith
  have "rt_decision (route (single_proxy (OProxy (0 :: nat))) (Domain (host_text (Domain ''a.com'' 443))
      (target_port (Domain ''a.com'' 443)))) = Connect (OProxy 0)"
    by (simp add: route_def engine_route_first_match_aux single_proxy_def engine_new_def unconfirmed_block_def act_full_def)
  from http_proxy_end_to_end [OF ok len this, of "\<lambda>_ _ _. Inr (5 :: nat)" 5 "[1]"] show ?thesis
    by (simp add: via_label_def)
qed

end
