(* ===== verification/UdpAssoc.thy ===== *)
theory UdpAssoc
  imports Engine
begin

text \<open>
  The relay of \<open>crates/net/src/udp.rs\<close> for one SOCKS5 UDP association: it binds itself to the first
  client of the right host, keeps one flow per destination, and opens the flow through the outbound
  the routing engine chooses. Opening a session (\<open>connect_udp\<close>) is a parameter; a flow's channel is
  the list of what waits in it.
\<close>

section \<open>State\<close>

record 'c flow =
  fl_dst :: target
  fl_out :: "'c outbound"
  fl_target :: target
  fl_queue :: "bytes list"
  fl_alive :: bool

record 'c assoc =
  as_client :: "socket_addr option"
  as_flows :: "string \<rightharpoonup> 'c flow"
  as_warned :: bool

definition assoc_new :: "'c assoc" where
  "assoc_new = \<lparr>as_client = None, as_flows = Map.empty, as_warned = False\<rparr>"

definition sock_ip :: "socket_addr \<Rightarrow> ip_addr" where
  "sock_ip a = (case a of SockV4 ip _ \<Rightarrow> V4 ip | SockV6 ip _ _ _ \<Rightarrow> V6 ip)"

abbreviation (input) UDP_FLOW_QUEUE :: nat where "UDP_FLOW_QUEUE \<equiv> 64"

text \<open>\<open>try_send\<close>: refused when the task has ended or the queue is full.\<close>

definition try_send :: "'c flow \<Rightarrow> bytes \<Rightarrow> 'c flow option" where
  "try_send fl payload =
     (if fl_alive fl \<and> length (fl_queue fl) < UDP_FLOW_QUEUE
      then Some (fl\<lparr>fl_queue := fl_queue fl @ [payload]\<rparr>) else None)"

definition spawn_flow ::
    "('c outbound \<Rightarrow> target \<Rightarrow> bool) \<Rightarrow> target \<Rightarrow> 'c outbound \<Rightarrow> target \<Rightarrow> bytes \<Rightarrow> 'c flow option" where
  "spawn_flow opens client_dst ob dst payload =
     (if opens ob dst
      then Some \<lparr>fl_dst = client_dst, fl_out = ob, fl_target = dst, fl_queue = [payload], fl_alive = True\<rparr>
      else None)"

section \<open>The loop\<close>

text \<open>A new flow: the destination is routed, a block drops the datagram.\<close>

definition open_flow ::
    "'c engine \<Rightarrow> ('c outbound \<Rightarrow> target \<Rightarrow> bool) \<Rightarrow> target \<Rightarrow> bytes \<Rightarrow> 'c assoc \<Rightarrow> 'c assoc" where
  "open_flow e opens t payload s =
     (let routed = route e t
      in case rt_decision routed of
           DBlock \<Rightarrow> s
         | Connect ob \<Rightarrow>
             (case spawn_flow opens t ob (rt_target routed) payload of
                Some fl \<Rightarrow> s\<lparr>as_flows := (as_flows s)(show_target t \<mapsto> fl)\<rparr>
              | None \<Rightarrow> if ob \<noteq> ODirect \<and> \<not> as_warned s then s\<lparr>as_warned := True\<rparr> else s))"

definition relay_datagram ::
    "'c engine \<Rightarrow> ('c outbound \<Rightarrow> target \<Rightarrow> bool) \<Rightarrow> target \<Rightarrow> bytes \<Rightarrow> 'c assoc \<Rightarrow> 'c assoc" where
  "relay_datagram e opens t payload s =
     (case as_flows s (show_target t) of
        None \<Rightarrow> open_flow e opens t payload s
      | Some fl \<Rightarrow>
          (case try_send fl payload of
             Some fl' \<Rightarrow> s\<lparr>as_flows := (as_flows s)(show_target t \<mapsto> fl')\<rparr>
           | None \<Rightarrow> open_flow e opens t payload (s\<lparr>as_flows := (as_flows s)(show_target t := None)\<rparr>)))"

definition on_datagram ::
    "'c engine \<Rightarrow> ('c outbound \<Rightarrow> target \<Rightarrow> bool) \<Rightarrow> ip_addr \<Rightarrow> socket_addr \<Rightarrow> bytes \<Rightarrow> 'c assoc \<Rightarrow> io_error + 'c assoc" where
  "on_datagram e opens control_peer_ip src dg s =
     (if sock_ip src \<noteq> control_peer_ip then Inr s
      else if (case as_client s of None \<Rightarrow> False | Some c \<Rightarrow> c \<noteq> src) then Inr s
      else let s = s\<lparr>as_client := Some src\<rparr>
           in case parse_udp_datagram dg of
                Inl Panic \<Rightarrow> Inl Panic
              | Inl _ \<Rightarrow> Inr s
              | Inr (frag, t, off) \<Rightarrow> if frag \<noteq> 0 then Inr s else Inr (relay_datagram e opens t (drop off dg) s))"

text \<open>
  The events of an association: a datagram at the relay socket, a flow that takes the next payload out
  of its queue and sends it, and a flow whose task ends.
\<close>

datatype assoc_event = FromClient socket_addr bytes | FlowSends string | FlowEnds string

fun assoc_step ::
    "'c engine \<Rightarrow> ('c outbound \<Rightarrow> target \<Rightarrow> bool) \<Rightarrow> ip_addr \<Rightarrow> 'c assoc \<Rightarrow> assoc_event \<Rightarrow> io_error + 'c assoc" where
  "assoc_step e opens peer s (FromClient src dg) = on_datagram e opens peer src dg s"
| "assoc_step e opens peer s (FlowSends key) =
     Inr (case as_flows s key of
            Some fl \<Rightarrow> s\<lparr>as_flows := (as_flows s)(key \<mapsto> fl\<lparr>fl_queue := tl (fl_queue fl)\<rparr>)\<rparr>
          | None \<Rightarrow> s)"
| "assoc_step e opens peer s (FlowEnds key) =
     Inr (case as_flows s key of
            Some fl \<Rightarrow> s\<lparr>as_flows := (as_flows s)(key \<mapsto> fl\<lparr>fl_alive := False\<rparr>)\<rparr>
          | None \<Rightarrow> s)"

fun assoc_run ::
    "'c engine \<Rightarrow> ('c outbound \<Rightarrow> target \<Rightarrow> bool) \<Rightarrow> ip_addr \<Rightarrow> 'c assoc \<Rightarrow> assoc_event list \<Rightarrow> io_error + 'c assoc" where
  "assoc_run e opens peer s [] = Inr s"
| "assoc_run e opens peer s (ev # evs) = rbind (assoc_step e opens peer s ev) (\<lambda>s. assoc_run e opens peer s evs)"

text \<open>The answer of a destination, as the flow sends it to the client.\<close>

definition flow_reply :: "'c flow \<Rightarrow> bytes \<Rightarrow> bytes" where
  "flow_reply fl payload = encode_udp_datagram (fl_dst fl) payload"

section \<open>Flows follow the rules\<close>

text \<open>What the client asked to be sent: a payload of an unfragmented datagram to a destination.\<close>

definition asked :: "assoc_event list \<Rightarrow> socket_addr \<Rightarrow> string \<Rightarrow> bytes \<Rightarrow> bool" where
  "asked evs src key payload \<longleftrightarrow>
     (\<exists>dg t off. FromClient src dg \<in> set evs \<and> parse_udp_datagram dg = Inr (0, t, off)
        \<and> show_target t = key \<and> payload = drop off dg)"

definition flow_ok :: "'c engine \<Rightarrow> assoc_event list \<Rightarrow> 'c assoc \<Rightarrow> string \<Rightarrow> 'c flow \<Rightarrow> bool" where
  "flow_ok e evs s key fl \<longleftrightarrow>
     show_target (fl_dst fl) = key \<and> rt_decision (route e (fl_dst fl)) = Connect (fl_out fl)
     \<and> fl_target fl = rt_target (route e (fl_dst fl)) \<and> length (fl_queue fl) \<le> UDP_FLOW_QUEUE
     \<and> (\<forall>p \<in> set (fl_queue fl). \<exists>c. as_client s = Some c \<and> asked evs c key p)"

definition assoc_inv :: "'c engine \<Rightarrow> ip_addr \<Rightarrow> assoc_event list \<Rightarrow> 'c assoc \<Rightarrow> bool" where
  "assoc_inv e peer evs s \<longleftrightarrow>
     (\<forall>c. as_client s = Some c \<longrightarrow> sock_ip c = peer) \<and> (\<forall>key fl. as_flows s key = Some fl \<longrightarrow> flow_ok e evs s key fl)"

lemma asked_more: "asked evs c key p \<Longrightarrow> asked (evs @ later) c key p"
  by (auto simp: asked_def)

lemma flow_ok_more: "flow_ok e evs s key fl \<Longrightarrow> flow_ok e (evs @ later) s key fl"
  by (auto simp: flow_ok_def intro: asked_more)

lemma open_flow_inv:
  assumes "assoc_inv e peer evs s" and "as_client s = Some c" and "asked evs c (show_target t) payload"
  shows "assoc_inv e peer evs (open_flow e opens t payload s)"
  using assms
  by (auto simp: open_flow_def spawn_flow_def assoc_inv_def flow_ok_def Let_def split: decision.splits option.splits)

lemma assoc_inv_update:
  "assoc_inv e peer evs s \<Longrightarrow> flow_ok e evs s key fl \<Longrightarrow> assoc_inv e peer evs (s\<lparr>as_flows := (as_flows s)(key \<mapsto> fl)\<rparr>)"
  by (auto simp: assoc_inv_def flow_ok_def)

lemma flow_ok_keeps:
  "flow_ok e evs s key fl \<Longrightarrow> flow_ok e evs s key (fl\<lparr>fl_queue := tl (fl_queue fl)\<rparr>)"
  "flow_ok e evs s key fl \<Longrightarrow> flow_ok e evs s key (fl\<lparr>fl_alive := False\<rparr>)"
  by (cases "fl_queue fl"; simp add: flow_ok_def)+

lemma relay_datagram_inv:
  assumes "assoc_inv e peer evs s" and "as_client s = Some c" and "asked evs c (show_target t) payload"
  shows "assoc_inv e peer evs (relay_datagram e opens t payload s)"
proof (cases "as_flows s (show_target t)")
  case None
  then show ?thesis using open_flow_inv [OF assms] by (simp add: relay_datagram_def)
next
  case (Some fl)
  have removed: "assoc_inv e peer evs (s\<lparr>as_flows := (as_flows s)(show_target t := None)\<rparr>)"
    using assms(1) by (auto simp: assoc_inv_def flow_ok_def)
  show ?thesis
  proof (cases "try_send fl payload")
    case None
    then show ?thesis using open_flow_inv [OF removed] assms(2,3) Some by (simp add: relay_datagram_def)
  next
    case sent: (Some fl')
    have "flow_ok e evs s (show_target t) fl" using assms(1) Some by (simp add: assoc_inv_def)
    then have "flow_ok e evs s (show_target t) fl'"
      using sent assms(2,3) by (auto simp: flow_ok_def try_send_def split: if_splits)
    then show ?thesis using assms(1) Some sent by (auto simp: relay_datagram_def intro: assoc_inv_update)
  qed
qed

lemma assoc_inv_more: "assoc_inv e peer evs s \<Longrightarrow> assoc_inv e peer (evs @ later) s"
  by (auto simp: assoc_inv_def intro: flow_ok_more)

lemma assoc_inv_client:
  assumes "assoc_inv e peer evs s" and "sock_ip src = peer" and "as_client s = None \<or> as_client s = Some src"
  shows "assoc_inv e peer evs (s\<lparr>as_client := Some src\<rparr>)"
  using assms by (fastforce simp: assoc_inv_def flow_ok_def)

lemma on_datagram_cases:
  assumes "on_datagram e opens peer src dg s = Inr s'"
  obtains (ignored) "s' = s"
  | (bound) "sock_ip src = peer" "as_client s = None \<or> as_client s = Some src" "s' = s\<lparr>as_client := Some src\<rparr>"
  | (relayed) t off where "sock_ip src = peer" "as_client s = None \<or> as_client s = Some src"
      "parse_udp_datagram dg = Inr (0, t, off)" "s' = relay_datagram e opens t (drop off dg) (s\<lparr>as_client := Some src\<rparr>)"
proof (cases "sock_ip src = peer \<and> (as_client s = None \<or> as_client s = Some src)")
  case False
  then have "s' = s" using assms by (auto simp: on_datagram_def split: option.splits if_splits)
  then show ?thesis by (rule ignored)
next
  case True
  then have "(case as_client s of None \<Rightarrow> False | Some c \<Rightarrow> c \<noteq> src) = False" by auto
  then show ?thesis
    using assms True bound relayed by (auto simp: on_datagram_def Let_def split: sum.splits io_error.splits if_splits)
qed

lemma assoc_step_inv:
  assumes "assoc_inv e peer evs s" and "assoc_step e opens peer s ev = Inr s'"
  shows "assoc_inv e peer (evs @ [ev]) s'"
proof (cases ev)
  case (FromClient src dg)
  note inv = assoc_inv_more [OF assms(1), of "[ev]"]
  from assms(2) FromClient have "on_datagram e opens peer src dg s = Inr s'" by simp
  then show ?thesis
  proof (cases rule: on_datagram_cases)
    case ignored
    then show ?thesis using inv by simp
  next
    case bound
    then show ?thesis using assoc_inv_client [OF inv] by simp
  next
    case (relayed t off)
    have "asked (evs @ [ev]) src (show_target t) (drop off dg)"
      using relayed(3) FromClient by (auto simp: asked_def)
    then show ?thesis
      unfolding relayed(4) by (intro relay_datagram_inv [OF assoc_inv_client [OF inv relayed(1,2)]]) simp_all
  qed
next
  case (FlowSends key)
  note inv = assoc_inv_more [OF assms(1), of "[ev]"]
  show ?thesis
  proof (cases "as_flows s key")
    case (Some fl)
    then have "flow_ok e (evs @ [ev]) s key fl" using inv by (simp add: assoc_inv_def)
    then show ?thesis
      using assms(2) FlowSends Some assoc_inv_update [OF inv flow_ok_keeps(1)] by auto
  qed (use inv assms(2) FlowSends in simp)
next
  case (FlowEnds key)
  note inv = assoc_inv_more [OF assms(1), of "[ev]"]
  show ?thesis
  proof (cases "as_flows s key")
    case (Some fl)
    then have "flow_ok e (evs @ [ev]) s key fl" using inv by (simp add: assoc_inv_def)
    then show ?thesis
      using assms(2) FlowEnds Some assoc_inv_update [OF inv flow_ok_keeps(2)] by auto
  qed (use inv assms(2) FlowEnds in simp)
qed

lemma assoc_run_inv:
  "assoc_inv e peer evs s \<Longrightarrow> assoc_run e opens peer s new = Inr s' \<Longrightarrow> assoc_inv e peer (evs @ new) s'"
proof (induction new arbitrary: s evs)
  case (Cons ev new)
  then obtain s1 where "assoc_step e opens peer s ev = Inr s1" "assoc_run e opens peer s1 new = Inr s'" by auto
  then show ?case using Cons.IH [OF assoc_step_inv [OF Cons.prems(1)]] by simp
qed simp

text \<open>C23. Through every sequence of datagrams, sends and flow endings, a flow of an association goes through the outbound and to the
  target the routing engine chose for its destination, its queue keeps its bound, and what waits in it is what the one bound
  client, from the host of the control connection, asked to be sent to a destination of this text.\<close>

theorem udp_flows_follow_rules:
  assumes "assoc_run e opens peer assoc_new evs = Inr s" and "as_flows s key = Some fl"
  shows "rt_decision (route e (fl_dst fl)) = Connect (fl_out fl) \<and> fl_target fl = rt_target (route e (fl_dst fl))
    \<and> length (fl_queue fl) \<le> 64
    \<and> (\<forall>p \<in> set (fl_queue fl). \<exists>c. as_client s = Some c \<and> sock_ip c = peer \<and> asked evs c key p)"
proof -
  have "assoc_inv e peer [] assoc_new" by (simp add: assoc_inv_def assoc_new_def)
  from assoc_run_inv [OF this assms(1)] have "assoc_inv e peer evs s" by simp
  then show ?thesis using assms(2) by (fastforce simp: assoc_inv_def flow_ok_def)
qed

section \<open>A full queue\<close>

text \<open>
  The comment at the constant says that a datagram beyond the queue is dropped; the code takes the
  full queue for an ended task, forgets the live flow and opens another session.
\<close>

lemma full_queue_replaces_flow:
  assumes "as_flows s (show_target t) = Some fl" and "fl_alive fl" and "length (fl_queue fl) = 64"
    and "rt_decision (route e t) = Connect ob" and "opens ob (rt_target (route e t))"
  shows "as_flows (relay_datagram e opens t payload s) (show_target t)
    = Some \<lparr>fl_dst = t, fl_out = ob, fl_target = rt_target (route e t), fl_queue = [payload], fl_alive = True\<rparr>"
  using assms by (simp add: relay_datagram_def try_send_def open_flow_def spawn_flow_def)

theorem udp_flows_follow_rules_witness:
  "\<exists>s fl. assoc_run (single_proxy (OProxy (0 :: nat))) (\<lambda>_ _. True) (V4 1) assoc_new
       [FromClient (SockV4 1 9) (encode_udp_datagram (Socket (SockV4 7 53)) [4, 2])] = Inr s
     \<and> as_flows s (show_target (Socket (SockV4 7 53))) = Some fl \<and> fl_out fl = OProxy 0
     \<and> rt_decision (route (single_proxy (OProxy (0 :: nat))) (fl_dst fl)) = Connect (fl_out fl)"
proof -
  let ?e = "single_proxy (OProxy (0 :: nat))" and ?t = "Socket (SockV4 7 53)"
  let ?evs = "[FromClient (SockV4 1 9) (encode_udp_datagram ?t [4, 2])]"
  have r: "rt_decision (route ?e t) = Connect (OProxy 0)" for t
    by (simp add: route_def engine_route_first_match_aux single_proxy_def engine_new_def unconfirmed_block_def act_full_def)
  have p: "parse_udp_datagram (encode_udp_datagram ?t [4, 2]) = Inr (0, ?t, 10)"
    by code_simp
  define fl where "fl = \<lparr>fl_dst = ?t, fl_out = OProxy (0 :: nat), fl_target = rt_target (route ?e ?t),
    fl_queue = [drop 10 (encode_udp_datagram ?t [4, 2])], fl_alive = True\<rparr>"
  define s where "s = (assoc_new :: nat assoc)\<lparr>as_client := Some (SockV4 1 9), as_flows := [show_target ?t \<mapsto> fl]\<rparr>"
  have run: "assoc_run ?e (\<lambda>_ _. True) (V4 1) assoc_new ?evs = Inr s"
    by (simp add: on_datagram_def p sock_ip_def assoc_new_def relay_datagram_def open_flow_def r spawn_flow_def s_def fl_def)
  have f: "as_flows s (show_target ?t) = Some fl" by (simp add: s_def)
  from udp_flows_follow_rules [OF run f] run f show ?thesis by (auto simp: fl_def)
qed

end
