(* ===== verification/Trojan.thy ===== *)
theory Trojan
  imports Target
begin

text \<open>
  \<open>crates/net/src/trojan.rs\<close>: Trojan request headers and UDP packets. SHA-224 (crate \<open>sha2\<close>) is the
  parameter \<open>sha224\<close>; what the code relies on is that a digest has 28 bytes. The UDP packet format is
  a self-delimiting codec, so a stream of packets is read back packet by packet.
\<close>

abbreviation (input) CRLF :: bytes where "CRLF \<equiv> [0x0D, 0x0A]"
abbreviation (input) TROJAN_CONNECT :: u8 where "TROJAN_CONNECT \<equiv> 1"
abbreviation (input) TROJAN_UDP :: u8 where "TROJAN_UDP \<equiv> 3"

fun encode_address :: "target \<Rightarrow> bytes" where
  "encode_address (Domain host port) =
     (let h = str_bytes host; len = min (length h) 255
      in [0x03, of_nat len] @ take len h @ be16 port)"
| "encode_address (Socket (SockV4 ip port)) = [0x01] @ be32 ip @ be16 port"
| "encode_address (Socket (SockV6 ip port _ _)) = [0x04] @ be128 ip @ be16 port"

definition hex_digit :: "u8 \<Rightarrow> char" where
  "hex_digit n = char_of (unat (if n \<le> 9 then 48 + n else 97 + (n - 10)))"

definition password_hash_hex :: "(bytes \<Rightarrow> bytes) \<Rightarrow> string \<Rightarrow> string" where
  "password_hash_hex sha224 password =
     concat (map (\<lambda>b. [hex_digit (drop_bit 4 b), hex_digit (b AND 0x0F)]) (sha224 (str_bytes password)))"

definition encode_request_cmd :: "(bytes \<Rightarrow> bytes) \<Rightarrow> string \<Rightarrow> target \<Rightarrow> u8 \<Rightarrow> bytes" where
  "encode_request_cmd sha224 password t cmd =
     str_bytes (password_hash_hex sha224 password) @ CRLF @ [cmd] @ encode_address t @ CRLF"

definition trojan_request :: "(bytes \<Rightarrow> bytes) \<Rightarrow> string \<Rightarrow> target \<Rightarrow> bytes" where
  "trojan_request sha224 password t = encode_request_cmd sha224 password t TROJAN_CONNECT"

definition trojan_request_udp :: "(bytes \<Rightarrow> bytes) \<Rightarrow> string \<Rightarrow> target \<Rightarrow> bytes" where
  "trojan_request_udp sha224 password t = encode_request_cmd sha224 password t TROJAN_UDP"

definition encode_udp_packet :: "target \<Rightarrow> bytes \<Rightarrow> bytes" where
  "encode_udp_packet t payload =
     encode_address t @ be16 (of_nat (length payload)) @ CRLF @ payload"

definition read_address :: "bytes \<Rightarrow> io_error + target \<times> bytes" where
  "read_address r =
     rbind (read_u8 r) (\<lambda>(atyp, r).
       if atyp = 0x01 then
         rbind (read_exact 4 r) (\<lambda>(o4, r). rbind (read_u16 r) (\<lambda>(port, r).
           Inr (Socket (SockV4 (from_be o4) port), r)))
       else if atyp = 0x04 then
         rbind (read_exact 16 r) (\<lambda>(o16, r). rbind (read_u16 r) (\<lambda>(port, r).
           Inr (Socket (SockV6 (from_be o16) port 0 0), r)))
       else if atyp = 0x03 then
         rbind (read_u8 r) (\<lambda>(len, r). rbind (read_exact (unat len) r) (\<lambda>(host, r).
         rbind (read_u16 r) (\<lambda>(port, r). Inr (Domain (from_utf8_lossy host) port, r))))
       else Inl (InvalidData ''trojan: ATYP''))"

definition read_udp_packet :: "bytes \<Rightarrow> io_error + (target \<times> bytes) \<times> bytes" where
  "read_udp_packet r =
     rbind (read_address r) (\<lambda>(t, r).
     rbind (read_u16 r) (\<lambda>(len, r).
     rbind (read_exact 2 r) (\<lambda>(crlf, r).
       if crlf \<noteq> CRLF then Inl (InvalidData ''trojan udp: CRLF'')
       else rbind (read_exact (unat len) r) (\<lambda>(payload, r). Inr ((t, payload), r)))))"

section \<open>Round trips\<close>

lemma read_address_encode [codec_simps]:
  "target_wf t \<Longrightarrow> read_address (encode_address t @ rest) = Inr (t, rest)"
  by (cases t rule: encode_address.cases)
    (auto simp: read_address_def Let_def unat_of_nat_small from_utf8_lossy_str)

definition packet_wf :: "target \<times> bytes \<Rightarrow> bool" where
  "packet_wf p \<longleftrightarrow> target_wf (fst p) \<and> length (snd p) < 65536"

definition packet_encode :: "target \<times> bytes \<Rightarrow> bytes" where
  "packet_encode p = encode_udp_packet (fst p) (snd p)"

definition packet_decode :: "bytes \<Rightarrow> ((target \<times> bytes) \<times> bytes) option" where
  "packet_decode bs = result_ok (read_udp_packet bs)"

interpretation trojan_udp: codec packet_encode packet_decode packet_wf
proof
  fix p rest
  assume wf: "packet_wf p"
  have "read_exact 2 (0x0D # 0x0A # r) = Inr (CRLF, r)" for r
    by (simp add: read_exact_def numeral_2_eq_2)
  then show "packet_decode (packet_encode p @ rest) = Some (p, rest)"
    using wf by (simp add: packet_wf_def packet_decode_def packet_encode_def encode_udp_packet_def
        read_udp_packet_def read_address_encode unat_of_nat_small)
qed

section \<open>The password digest\<close>

lemma hex_digit_val_digit:
  assumes "unat n < 16"
  shows "hex_digit_val (hex_digit n) = Some (unat n)"
proof (cases "unat n \<le> 9")
  case True
  then have "unat (48 + n) = 48 + unat n" by (simp add: unat_word_ariths)
  then show ?thesis
    using True by (simp add: hex_digit_def hex_digit_val_def word_le_nat_alt of_char_of Let_def)
next
  case False
  then have "unat (n - 10) = unat n - 10" by (subst unat_sub) (simp_all add: word_le_nat_alt)
  then have "unat (97 + (n - 10)) = 87 + unat n"
    using False assms by (simp only: unat_word_ariths) simp
  then show ?thesis
    using False assms by (simp add: hex_digit_def hex_digit_val_def word_le_nat_alt of_char_of Let_def)
qed

lemma byte_nibbles: "unat (drop_bit 4 b) = unat b div 16" "unat (b AND 0x0F :: u8) = unat b mod 16"
proof -
  show "unat (drop_bit 4 b) = unat b div 16"
    using drop_bit_eq_div [of 4 "unat b"] unfolding unat_drop_bit_eq by simp
  have "(0x0F :: u8) = mask 4" by (simp add: mask_numeral)
  then have "unat (b AND 0x0F) = unat (take_bit 4 b)" by (simp add: take_bit_eq_mask)
  also have "\<dots> = unat b mod 16" using take_bit_eq_mod [of 4 "unat b"] unfolding unsigned_take_bit_eq by simp
  finally show "unat (b AND 0x0F) = unat b mod 16" .
qed

lemma hex_pairs_digest:
  "hex_pairs (concat (map (\<lambda>b. [hex_digit (drop_bit 4 b), hex_digit (b AND 0x0F)]) bs)) = Some bs"
proof (induction bs)
  case (Cons b bs)
  have lt: "unat b div 16 < 16" using unat_u8_less [of b] by (simp add: less_mult_imp_div_less)
  have "of_nat (unat b div 16 * 16 + unat b mod 16) = b" by (simp only: div_mult_mod_eq) simp
  then show ?case
    using Cons lt hex_digit_val_digit [of "drop_bit 4 b"] hex_digit_val_digit [of "b AND 0x0F"]
    by (simp add: byte_nibbles)
qed simp

lemma length_password_hash:
  "length (password_hash_hex sha224 password) = 2 * length (sha224 (str_bytes password))"
  by (simp add: password_hash_hex_def length_concat comp_def sum_list_triv)

section \<open>Properties\<close>

text \<open>
  A stream of Trojan UDP packets is read back packet by packet: for any sequence of packets
  with sendable targets and payloads below 64 KiB, repeated \<open>read_udp_packet\<close> on the concatenation
  of their encodings returns exactly these packets in order and leaves exactly what follows.
\<close>

theorem trojan_udp_stream:
  assumes "\<forall>p \<in> set ps. packet_wf p"
  shows "decode_n packet_decode (length ps) (concat (map packet_encode ps) @ rest) = Some (ps, rest)"
  by (rule trojan_udp.decode_frames [OF assms])

text \<open>
  Layout of a Trojan request: with a 28-byte digest the header is the 56 hexadecimal characters
  of the digest, a line end, the command, the address and a line end; the hexadecimal part decodes
  to the digest and the address part to the target.
\<close>

theorem trojan_request_layout:
  assumes "length (sha224 (str_bytes password)) = 28" and "target_wf t"
  shows "hex_pairs (bytes_str (take 56 (encode_request_cmd sha224 password t cmd))) = Some (sha224 (str_bytes password))
    \<and> take 3 (drop 56 (encode_request_cmd sha224 password t cmd)) = CRLF @ [cmd]
    \<and> read_address (drop 59 (encode_request_cmd sha224 password t cmd)) = Inr (t, CRLF)"
proof -
  define h where "h = str_bytes (password_hash_hex sha224 password)"
  have enc: "encode_request_cmd sha224 password t cmd = h @ CRLF @ [cmd] @ encode_address t @ CRLF"
    by (simp add: encode_request_cmd_def h_def)
  have len: "length h = 56" using assms(1) by (simp add: h_def length_password_hash)
  have "hex_pairs (bytes_str h) = Some (sha224 (str_bytes password))"
    by (simp add: h_def password_hash_hex_def hex_pairs_digest)
  moreover have "drop 59 (h @ CRLF @ [cmd] @ encode_address t @ CRLF) = encode_address t @ CRLF"
    using len by simp
  ultimately show ?thesis
    using read_address_encode [OF assms(2), of CRLF] len by (simp only: enc) simp
qed

section \<open>Witnesses\<close>

theorem trojan_udp_stream_witness:
  "decode_n packet_decode 2
     (packet_encode (Socket (SockV4 0x08080808 53), [1, 2]) @ packet_encode (Socket (SockV4 1 2), []) @ [9])
   = Some ([(Socket (SockV4 0x08080808 53), [1, 2]), (Socket (SockV4 1 2), [])], [9])"
  using trojan_udp_stream [of "[(Socket (SockV4 0x08080808 53), [1, 2]), (Socket (SockV4 1 2), [])]" "[9]"]
  by (simp add: packet_wf_def numeral_2_eq_2)

theorem trojan_request_layout_witness:
  "read_address (drop 59 (encode_request_cmd (\<lambda>_. replicate 28 0xAB) ''secret'' (Socket (SockV4 1 443)) 1))
   = Inr (Socket (SockV4 1 443), [0x0D, 0x0A])"
  using trojan_request_layout [of "\<lambda>_. replicate 28 0xAB" "''secret''" "Socket (SockV4 1 443)" 1] by simp

end
