(* ===== verification/Reassembly.thy ===== *)
theory Reassembly
  imports Prelude "HOL-Library.AList"
begin

text \<open>
  The fragment reassembly of \<open>crates/net/src/tuic/udp.rs\<close> and \<open>crates/net/src/hysteria2/udp.rs\<close> (the
  same function on two key types): a table of partial packets with a lifetime and a size limit. The
  hash map is an association list in its iteration order, the clock an argument in nanoseconds. The
  function is shown never to panic, to keep the table within its limit, and to deliver a packet
  exactly when the last missing fragment arrives, whatever the order, the duplicates and the
  fragments of other packets in between.
\<close>

section \<open>The table\<close>

record reasm =
  frags :: "bytes option list"
  have_n :: nat
  created :: nat

type_synonym 'k reasm_map = "('k \<times> reasm) list"

definition MAX_REASM :: nat where "MAX_REASM = 256"

definition REASM_TTL :: nat where "REASM_TTL = 10 * 10 ^ 9"

fun oldest :: "'k reasm_map \<Rightarrow> ('k \<times> reasm) option" where
  "oldest [] = None"
| "oldest (x # xs) =
     (case oldest xs of None \<Rightarrow> Some x
      | Some y \<Rightarrow> if created (snd x) \<le> created (snd y) then Some x else Some y)"

definition evict :: "'k \<Rightarrow> 'k reasm_map \<Rightarrow> 'k reasm_map" where
  "evict key m =
     (if MAX_REASM \<le> length m \<and> map_of m key = None
      then case oldest m of Some (k, _) \<Rightarrow> AList.delete k m | None \<Rightarrow> m
      else m)"

definition entry_or_insert :: "nat \<Rightarrow> 'k \<Rightarrow> nat \<Rightarrow> 'k reasm_map \<Rightarrow> 'k reasm_map \<times> reasm" where
  "entry_or_insert now key ftotal m =
     (case map_of m key of
        Some e \<Rightarrow> (m, e)
      | None \<Rightarrow> (let e = \<lparr>frags = replicate ftotal None, have_n = 0, created = now\<rparr> in (m @ [(key, e)], e)))"

fun unwrap_all :: "bytes option list \<Rightarrow> io_error + bytes" where
  "unwrap_all [] = Inr []"
| "unwrap_all (None # fs) = Inl Panic"
| "unwrap_all (Some f # fs) = rbind (unwrap_all fs) (\<lambda>out. Inr (f @ out))"

definition reassemble ::
    "nat \<Rightarrow> 'k reasm_map \<Rightarrow> 'k \<Rightarrow> nat \<Rightarrow> nat \<Rightarrow> bytes \<Rightarrow> 'k reasm_map \<times> (io_error + bytes option)" where
  "reassemble now m key ftotal idx frag =
     (let m = filter (\<lambda>(_, e). now - created e < REASM_TTL) m;
          m = evict key m;
          (m, e) = entry_or_insert now key ftotal m
      in if length (frags e) \<noteq> ftotal then (m, Inr None)
         else if length (frags e) \<le> idx then (m, Inl Panic)
         else let e = (if frags e ! idx = None
                       then e\<lparr>frags := (frags e)[idx := Some frag], have_n := have_n e + 1\<rparr> else e)
              in if have_n e = ftotal
                 then (AList.delete key m, rbind (unwrap_all (frags e)) (\<lambda>out. Inr (Some out)))
                 else (AList.update key e m, Inr None))"

section \<open>Invariant\<close>

definition entry_wf :: "reasm \<Rightarrow> bool" where
  "entry_wf e \<longleftrightarrow> have_n e = length (filter (\<lambda>f. f \<noteq> None) (frags e)) \<and> have_n e < length (frags e)"

definition reasm_wf :: "'k reasm_map \<Rightarrow> bool" where
  "reasm_wf m \<longleftrightarrow> distinct (map fst m) \<and> length m \<le> MAX_REASM \<and> (\<forall>e \<in> snd ` set m. entry_wf e)"

lemma reasm_wf_entry: "reasm_wf m \<Longrightarrow> map_of m k = Some e \<Longrightarrow> entry_wf e"
  by (auto simp: reasm_wf_def dest!: map_of_SomeD)

lemma reasm_wf_filter: "reasm_wf m \<Longrightarrow> reasm_wf (filter P m)"
  by (auto simp: reasm_wf_def distinct_map_filter intro: order_trans [OF length_filter_le])

lemma reasm_wf_delete: "reasm_wf m \<Longrightarrow> reasm_wf (AList.delete k m)"
  unfolding AList.delete_eq by (rule reasm_wf_filter)

lemma oldest_in: "oldest m = Some x \<Longrightarrow> x \<in> set m"
  by (induction m arbitrary: x) (auto split: option.splits if_splits)

lemma oldest_None: "oldest m = None \<longleftrightarrow> m = []"
  by (cases m) (auto split: option.splits)

lemma evict_wf:
  assumes "reasm_wf m"
  shows "reasm_wf (evict key m) \<and> (map_of (evict key m) key = None \<longrightarrow> length (evict key m) < MAX_REASM)"
proof (cases "MAX_REASM \<le> length m \<and> map_of m key = None")
  case True
  then have "m \<noteq> []" by (auto simp: MAX_REASM_def)
  then obtain k e where old: "oldest m = Some (k, e)"
    using oldest_None [of m] by (cases "oldest m") auto
  then have "k \<in> fst ` set m" by (force dest: oldest_in)
  then have "length (AList.delete k m) < length m"
    by (auto simp: AList.delete_eq intro!: length_filter_less)
  then show ?thesis
    using assms True old reasm_wf_delete [OF assms, of k] by (auto simp: evict_def reasm_wf_def)
next
  case False
  then show ?thesis using assms by (auto simp: evict_def not_le)
qed

lemma entry_or_insert_wf:
  assumes "reasm_wf m" and "map_of m key = None \<longrightarrow> length m < MAX_REASM" and "0 < ftotal"
    and "entry_or_insert now key ftotal m = (m', e)"
  shows "reasm_wf m' \<and> map_of m' key = Some e \<and> entry_wf e"
proof (cases "map_of m key")
  case None
  then have "key \<notin> fst ` set m" by (simp add: map_of_eq_None_iff)
  then show ?thesis
    using assms None
    by (auto simp: entry_or_insert_def reasm_wf_def entry_wf_def map_add_def Let_def)
next
  case (Some e')
  then show ?thesis using assms reasm_wf_entry by (fastforce simp: entry_or_insert_def)
qed

lemma update_wf:
  assumes "reasm_wf m" and "map_of m key \<noteq> None" and "entry_wf e"
  shows "reasm_wf (AList.update key e m)"
proof -
  have "key \<in> fst ` set m" using assms(2) by (simp add: map_of_eq_None_iff)
  then have "length (AList.update key e m) = length m" by (induction m) auto
  moreover have "distinct (map fst (AList.update key e m))"
    using assms(1) by (simp add: reasm_wf_def distinct_update)
  moreover have "entry_wf x" if "(k, x) \<in> set (AList.update key e m)" for k x
  proof -
    have "map_of (AList.update key e m) k = Some x"
      using that calculation(2) by (simp add: map_of_eq_Some_iff)
    then show ?thesis
      using assms(1,3) reasm_wf_entry [OF assms(1), of k x] by (simp add: update_conv' split: if_splits)
  qed
  ultimately show ?thesis using assms(1) by (auto simp: reasm_wf_def)
qed

lemma count_update:
  assumes "i < length fs" and "fs ! i = None"
  shows "length (filter (\<lambda>f. f \<noteq> None) (fs[i := Some x])) = Suc (length (filter (\<lambda>f. f \<noteq> None) fs))"
proof -
  have "fs = take i fs @ None # drop (Suc i) fs" using assms by (simp add: id_take_nth_drop [symmetric] flip: assms(2))
  then obtain a b where "fs = a @ None # b" "i = length a"
    using assms(1) by (metis length_take min.absorb2 less_imp_le)
  then show ?thesis by simp
qed

lemma all_some: "length (filter (\<lambda>f. f \<noteq> None) fs) = length fs \<Longrightarrow> \<forall>f \<in> set fs. f \<noteq> None"
  by (metis (mono_tags, lifting) filter_False filter_id_conv length_filter_less nat_neq_iff)

lemma unwrap_all_ok: "\<forall>f \<in> set fs. f \<noteq> None \<Longrightarrow> unwrap_all fs = Inr (concat (map the fs))"
  by (induction fs rule: unwrap_all.induct) auto

text \<open>The table and the entry a fragment meets, and the entry with the fragment put in.\<close>

definition admitted :: "nat \<Rightarrow> 'k reasm_map \<Rightarrow> 'k \<Rightarrow> nat \<Rightarrow> 'k reasm_map \<times> reasm" where
  "admitted now m key n = entry_or_insert now key n (evict key (filter (\<lambda>(_, e). now - created e < REASM_TTL) m))"

definition put_frag :: "nat \<Rightarrow> bytes \<Rightarrow> reasm \<Rightarrow> reasm" where
  "put_frag i f e = (if frags e ! i = None then e\<lparr>frags := (frags e)[i := Some f], have_n := have_n e + 1\<rparr> else e)"

lemma reassemble_cases:
  assumes "admitted now m key n = (m1, e)"
  shows "reassemble now m key n i f =
    (if length (frags e) \<noteq> n then (m1, Inr None)
     else if n \<le> i then (m1, Inl Panic)
     else if have_n (put_frag i f e) = n
       then (AList.delete key m1, rbind (unwrap_all (frags (put_frag i f e))) (\<lambda>out. Inr (Some out)))
     else (AList.update key (put_frag i f e) m1, Inr None))"
  using assms by (simp add: reassemble_def admitted_def put_frag_def Let_def)

lemma put_frag_count:
  assumes "entry_wf e" and "i < length (frags e)"
  shows "have_n (put_frag i f e) = length (filter (\<lambda>f. f \<noteq> None) (frags (put_frag i f e)))
    \<and> length (frags (put_frag i f e)) = length (frags e)
    \<and> have_n (put_frag i f e) \<le> length (frags e)"
  using assms count_update [of i "frags e" f] by (auto simp: put_frag_def entry_wf_def)

lemma admitted_wf:
  assumes "reasm_wf m" and "0 < n" and "admitted now m key n = (m1, e)"
  shows "reasm_wf m1 \<and> map_of m1 key = Some e \<and> entry_wf e"
  by (rule entry_or_insert_wf [OF _ _ assms(2) assms(3) [unfolded admitted_def]])
    (use evict_wf [OF reasm_wf_filter [OF assms(1)]] in auto)

lemma reassemble_wf:
  assumes "reasm_wf m" and "i < n"
  shows "reasm_wf (fst (reassemble now m key n i f)) \<and> snd (reassemble now m key n i f) \<noteq> Inl Panic"
proof -
  obtain m1 e where adm: "admitted now m key n = (m1, e)" by fastforce
  have wf: "reasm_wf m1" "map_of m1 key = Some e" "entry_wf e"
    using admitted_wf [OF assms(1) _ adm] assms(2) by auto
  show ?thesis
  proof (cases "length (frags e) = n")
    case True
    note c = put_frag_count [OF wf(3), of i f, unfolded True, OF assms(2)]
    have "entry_wf (put_frag i f e)" if "have_n (put_frag i f e) \<noteq> n"
      using c that by (simp add: entry_wf_def)
    moreover have "unwrap_all (frags (put_frag i f e)) = Inr (concat (map the (frags (put_frag i f e))))"
      if "have_n (put_frag i f e) = n"
      using c that by (intro unwrap_all_ok all_some) simp
    ultimately show ?thesis
      using assms(2) True wf reasm_wf_delete [OF wf(1)] update_wf [OF wf(1)]
      by (simp add: reassemble_cases [OF adm])
  qed (use wf in \<open>simp add: reassemble_cases [OF adm]\<close>)
qed

section \<open>One packet among others\<close>

lemma map_of_filter_distinct:
  "distinct (map fst m) \<Longrightarrow> map_of (filter P m) k
     = (case map_of m k of Some e \<Rightarrow> if P (k, e) then Some e else None | None \<Rightarrow> None)"
  by (induction m) (auto split: option.splits simp: map_of_eq_None_iff dest!: map_of_SomeD)

definition partial_entry :: "bytes list \<Rightarrow> nat set \<Rightarrow> nat \<Rightarrow> reasm" where
  "partial_entry cs S t = \<lparr>frags = map (\<lambda>i. if i \<in> S then Some (cs ! i) else None) [0..<length cs],
     have_n = card S, created = t\<rparr>"

text \<open>\<open>tracked cs k S t m\<close>: of the packet \<open>cs\<close> under key \<open>k\<close> the fragments \<open>S\<close> have arrived, the first at \<open>t\<close>.\<close>

definition tracked :: "bytes list \<Rightarrow> 'k \<Rightarrow> nat set \<Rightarrow> nat \<Rightarrow> 'k reasm_map \<Rightarrow> bool" where
  "tracked cs k S t m \<longleftrightarrow> map_of m k = (if S = {} then None else Some (partial_entry cs S t))"

lemma put_frag_partial:
  assumes "S \<subseteq> {..<length cs}" and "j < length cs"
  shows "put_frag j (cs ! j) (partial_entry cs S t) = partial_entry cs (insert j S) t"
proof (cases "j \<in> S")
  case True
  then show ?thesis using assms by (simp add: put_frag_def partial_entry_def insert_absorb)
next
  case False
  have "finite S" by (rule finite_subset [OF assms(1)]) simp
  moreover have "(map (\<lambda>i. if i \<in> S then Some (cs ! i) else None) [0..<length cs])[j := Some (cs ! j)]
    = map (\<lambda>i. if i \<in> insert j S then Some (cs ! i) else None) [0..<length cs]"
    using assms(2) by (intro nth_equalityI) (auto simp: nth_list_update)
  ultimately show ?thesis using False assms(2) by (simp add: put_frag_def partial_entry_def)
qed

lemma partial_full: "concat (map the (frags (partial_entry cs {..<length cs} t))) = concat cs"
proof -
  have "map the (frags (partial_entry cs {..<length cs} t)) = cs"
    by (intro nth_equalityI) (auto simp: partial_entry_def)
  then show ?thesis by simp
qed

lemma evict_present: "map_of m key \<noteq> None \<Longrightarrow> evict key m = m"
  by (auto simp: evict_def)

lemma map_of_delete_alist: "map_of (AList.delete k m) x = (if x = k then None else map_of m x)"
  by (simp add: AList.delete_conv')

lemma evict_None: "map_of m k = None \<Longrightarrow> map_of (evict key m) k = None"
  by (auto simp: evict_def map_of_delete_alist split: option.splits)

lemma reassemble_own:
  assumes wf: "reasm_wf m" and tr: "tracked cs k S t m"
    and S: "S \<subset> {..<length cs}" and j: "j < length cs" and live: "S \<noteq> {} \<Longrightarrow> now - t < REASM_TTL"
  defines "t' \<equiv> (if S = {} then now else t)"
  shows "insert j S = {..<length cs} \<Longrightarrow> snd (reassemble now m k (length cs) j (cs ! j)) = Inr (Some (concat cs))"
    and "insert j S \<noteq> {..<length cs} \<Longrightarrow> snd (reassemble now m k (length cs) j (cs ! j)) = Inr None
      \<and> tracked cs k (insert j S) t' (fst (reassemble now m k (length cs) j (cs ! j)))"
proof -
  let ?m = "filter (\<lambda>(_, e). now - created e < REASM_TTL) m"
  have dist: "distinct (map fst m)" using wf by (simp add: reasm_wf_def)
  obtain m1 e where adm: "admitted now m k (length cs) = (m1, e)" by fastforce
  have e: "e = partial_entry cs S t'"
  proof (cases "S = {}")
    case True
    then have "map_of (evict k ?m) k = None"
      using tr by (intro evict_None) (simp add: tracked_def map_of_filter_distinct [OF dist])
    then show ?thesis
      using adm True by (auto simp: admitted_def entry_or_insert_def partial_entry_def t'_def Let_def
          map_replicate_const)
  next
    case False
    then have "map_of ?m k = Some (partial_entry cs S t)"
      using tr live by (simp add: tracked_def map_of_filter_distinct [OF dist] partial_entry_def)
    then show ?thesis
      using adm False by (simp add: admitted_def evict_present entry_or_insert_def t'_def)
  qed
  have put: "put_frag j (cs ! j) e = partial_entry cs (insert j S) t'"
    unfolding e by (rule put_frag_partial [OF psubset_imp_subset [OF S] j])
  have le: "length (frags e) = length cs" by (simp add: e partial_entry_def)
  have have': "have_n (partial_entry cs (insert j S) t') = card (insert j S)" by (simp add: partial_entry_def)
  have sub: "insert j S \<subseteq> {..<length cs}" using psubset_imp_subset [OF S] j by simp
  have full: "card (insert j S) = length cs \<longleftrightarrow> insert j S = {..<length cs}"
  proof
    assume "card (insert j S) = length cs"
    then show "insert j S = {..<length cs}" by (intro card_subset_eq [OF finite_lessThan sub]) simp
  qed (simp only: card_lessThan)
  note step = reassemble_cases [OF adm, of j "cs ! j", unfolded put le have' full]
  show "insert j S = {..<length cs} \<Longrightarrow> snd (reassemble now m k (length cs) j (cs ! j)) = Inr (Some (concat cs))"
    using j unwrap_all_ok [of "frags (partial_entry cs {..<length cs} t')"] partial_full [of cs t']
    by (simp add: step) (simp add: partial_entry_def)
  show "insert j S \<noteq> {..<length cs} \<Longrightarrow> snd (reassemble now m k (length cs) j (cs ! j)) = Inr None
      \<and> tracked cs k (insert j S) t' (fst (reassemble now m k (length cs) j (cs ! j)))"
    using j by (simp add: step tracked_def update_conv')
qed

lemma entry_or_insert_keys: "fst ` set (fst (entry_or_insert now k n m)) = insert k (fst ` set m)"
  by (cases "map_of m k") (auto simp: entry_or_insert_def Let_def dest!: map_of_SomeD intro: rev_image_eqI)

lemma evict_keys: "fst ` set (evict k m) \<subseteq> fst ` set m"
  by (auto simp: evict_def AList.delete_eq split: option.splits)

lemma reassemble_keys: "fst ` set (fst (reassemble now m k n i f)) \<subseteq> insert k (fst ` set m)"
proof -
  obtain m1 e where adm: "admitted now m k n = (m1, e)" by fastforce
  have "fst ` set m1 = insert k (fst ` set (evict k (filter (\<lambda>(_, e). now - created e < REASM_TTL) m)))"
    using entry_or_insert_keys adm by (metis admitted_def fst_conv)
  also have "\<dots> \<subseteq> insert k (fst ` set m)"
    using evict_keys [of k "filter (\<lambda>(_, e). now - created e < REASM_TTL) m"] by auto
  finally have m1: "fst ` set m1 \<subseteq> insert k (fst ` set m)" .
  have "fst ` set (AList.delete k m1) \<subseteq> fst ` set m1" by (auto simp: AList.delete_eq)
  from subset_trans [OF this m1] show ?thesis using m1 by (simp add: reassemble_cases [OF adm] dom_update)
qed

lemma reassemble_other:
  assumes wf: "reasm_wf m" and ne: "k' \<noteq> k" and room: "length m < MAX_REASM \<or> k' \<in> fst ` set m"
    and live: "\<And>e. map_of m k = Some e \<Longrightarrow> now - created e < REASM_TTL"
  shows "map_of (fst (reassemble now m k' n i f)) k = map_of m k"
proof -
  let ?m = "filter (\<lambda>(_, e). now - created e < REASM_TTL) m"
  have dist: "distinct (map fst m)" using wf by (simp add: reasm_wf_def)
  obtain m1 e1 where adm: "admitted now m k' n = (m1, e1)" by fastforce
  have "evict k' ?m = ?m"
  proof (cases "map_of ?m k' = None")
    case True
    have "length ?m < MAX_REASM"
    proof (cases "length m < MAX_REASM")
      case False
      then obtain e' where "map_of m k' = Some e'" using room by (cases "map_of m k'") (auto simp: map_of_eq_None_iff)
      then have "(k', e') \<in> set m" "\<not> now - created e' < REASM_TTL"
        using True by (auto simp: map_of_filter_distinct [OF dist] split: if_splits dest: map_of_SomeD)
      then have "length ?m < length m" by (intro length_filter_less [of "(k', e')"]) auto
      then show ?thesis using wf by (simp add: reasm_wf_def)
    qed (use le_less_trans [OF length_filter_le] in blast)
    then show ?thesis by (simp add: evict_def)
  qed (simp add: evict_present)
  then have "map_of m1 k = map_of ?m k"
    using adm ne by (auto simp: admitted_def entry_or_insert_def Let_def map_add_def split: option.splits)
  also have "\<dots> = map_of m k"
    using live by (auto simp: map_of_filter_distinct [OF dist] split: option.splits)
  finally show ?thesis
    using ne by (simp add: reassemble_cases [OF adm] map_of_delete_alist update_conv')
qed

section \<open>Sequences of fragments\<close>

text \<open>An arriving fragment: the time, the key, the number of fragments, its index and its bytes.\<close>

type_synonym 'k arrival = "nat \<times> 'k \<times> nat \<times> nat \<times> bytes"

definition arrive :: "'k reasm_map \<Rightarrow> 'k arrival \<Rightarrow> 'k reasm_map \<times> (io_error + bytes option)" where
  "arrive m a = (case a of (now, k, n, i, f) \<Rightarrow> reassemble now m k n i f)"

definition arrive_all :: "'k reasm_map \<Rightarrow> 'k arrival list \<Rightarrow> 'k reasm_map" where
  "arrive_all m as = foldl (\<lambda>m a. fst (arrive m a)) m as"

abbreviation arr_key :: "'k arrival \<Rightarrow> 'k" where "arr_key a \<equiv> fst (snd a)"

definition arr_wf :: "'k arrival \<Rightarrow> bool" where
  "arr_wf a \<longleftrightarrow> (case a of (now, k, n, i, f) \<Rightarrow> i < n)"

text \<open>The indices of packet \<open>k\<close> seen in a sequence, and that its fragments are those of \<open>cs\<close>.\<close>

definition seen :: "'k \<Rightarrow> 'k arrival list \<Rightarrow> nat set" where
  "seen k as = (\<lambda>(now, k', n, i, f). i) ` set (filter (\<lambda>a. arr_key a = k) as)"

definition fragments_of :: "bytes list \<Rightarrow> 'k \<Rightarrow> 'k arrival list \<Rightarrow> bool" where
  "fragments_of cs k as \<longleftrightarrow>
     (\<forall>(now, k', n, i, f) \<in> set as. k' = k \<longrightarrow> n = length cs \<and> i < length cs \<and> f = cs ! i)"

definition within :: "nat \<Rightarrow> 'k arrival list \<Rightarrow> bool" where
  "within t0 as \<longleftrightarrow> (\<forall>a \<in> set as. t0 \<le> fst a \<and> fst a < t0 + REASM_TTL)"

lemma arrive_all_snoc: "arrive_all m (as @ [a]) = fst (arrive (arrive_all m as) a)"
  by (simp add: arrive_all_def)

lemma arrive_wf: "reasm_wf m \<Longrightarrow> arr_wf a \<Longrightarrow> reasm_wf (fst (arrive m a)) \<and> snd (arrive m a) \<noteq> Inl Panic"
  by (auto simp: arrive_def arr_wf_def split: prod.splits dest: reassemble_wf)

lemma arrive_all_wf: "reasm_wf m \<Longrightarrow> \<forall>a \<in> set as. arr_wf a \<Longrightarrow> reasm_wf (arrive_all m as)"
  by (induction as rule: rev_induct) (auto simp: arrive_all_snoc arrive_wf, simp add: arrive_all_def)

lemma arrive_all_keys: "fst ` set (arrive_all m as) \<subseteq> fst ` set m \<union> arr_key ` set as"
proof (induction as rule: rev_induct)
  case (snoc a as)
  obtain now k n i f where a: "a = (now, k, n, i, f)" by (cases a)
  have "fst ` set (fst (reassemble now (arrive_all m as) k n i f)) \<subseteq> insert k (fst ` set m \<union> arr_key ` set as)"
    by (rule subset_trans [OF reassemble_keys insert_mono [OF snoc]])
  then show ?case by (simp add: arrive_all_snoc arrive_def a)
qed (simp add: arrive_all_def)

lemma seen_snoc: "seen k (as @ [(now, k', n, i, f)]) = (if k' = k then insert i (seen k as) else seen k as)"
  by (auto simp: seen_def)

lemma seen_fragments: "fragments_of cs k as \<Longrightarrow> seen k as \<subseteq> {..<length cs}"
  by (auto simp: fragments_of_def seen_def)

lemma room_for:
  assumes "reasm_wf m" and "finite K" and "card K \<le> MAX_REASM" and "fst ` set m \<subseteq> K" and "k' \<in> K"
  shows "length m < MAX_REASM \<or> k' \<in> fst ` set m"
proof (rule disjCI)
  assume "k' \<notin> fst ` set m"
  then have "card (fst ` set m) < card K" using assms(2,4,5) by (intro psubset_card_mono) auto
  moreover have "card (fst ` set m) = length m"
    using assms(1) by (simp add: reasm_wf_def distinct_card flip: set_map)
  ultimately show "length m < MAX_REASM" using assms(3) by simp
qed

lemma tracked_all:
  assumes "reasm_wf m" and "map_of m k = None" and "finite K" and "card K \<le> MAX_REASM"
    and "fst ` set m \<union> arr_key ` set as \<subseteq> K" and "within t0 as" and "\<forall>a \<in> set as. arr_wf a"
    and "fragments_of cs k as" and "seen k as \<noteq> {..<length cs}"
  shows "\<exists>t \<ge> t0. tracked cs k (seen k as) t (arrive_all m as)"
  using assms(5-)
proof (induction as rule: rev_induct)
  case Nil
  then show ?case using assms(2) by (auto simp: tracked_def seen_def arrive_all_def)
next
  case (snoc a as)
  obtain now k' n i f where a: "a = (now, k', n, i, f)" by (cases a)
  let ?m = "arrive_all m as"
  have frag: "fragments_of cs k as" and now: "t0 \<le> now" "now < t0 + REASM_TTL" and wfa: "i < n"
    using snoc.prems a by (auto simp: fragments_of_def within_def arr_wf_def)
  have sub: "seen k as \<subset> {..<length cs}"
    using snoc.prems(4,5) seen_fragments [OF frag] seen_fragments [OF snoc.prems(4)]
    by (auto simp: a seen_snoc split: if_splits)
  obtain t where t: "t0 \<le> t" "tracked cs k (seen k as) t ?m"
    using snoc.IH snoc.prems frag sub by (auto simp: within_def)
  have wf: "reasm_wf ?m" using assms(1) snoc.prems(3) by (simp add: arrive_all_wf)
  have live: "now - t < REASM_TTL" using now t(1) by linarith
  show ?case
  proof (cases "k' = k")
    case True
    then have nf: "n = length cs" "i < length cs" "f = cs ! i"
      using snoc.prems(4) by (auto simp: fragments_of_def a)
    have "insert i (seen k as) \<noteq> {..<length cs}"
      using snoc.prems(5) True by (simp add: a seen_snoc)
    then show ?thesis
      using reassemble_own(2) [OF wf t(2) sub nf(2) live] True nf now t(1)
      by (auto simp: arrive_all_snoc a arrive_def seen_snoc)
  next
    case False
    have "length ?m < MAX_REASM \<or> k' \<in> fst ` set ?m"
      by (rule room_for [OF wf assms(3,4) subset_trans [OF arrive_all_keys]])
        (use snoc.prems(1) a in simp_all)
    then have "map_of (fst (reassemble now ?m k' n i f)) k = map_of ?m k"
      using t(2) live False wf
      by (intro reassemble_other) (auto simp: tracked_def partial_entry_def split: if_splits)
    then show ?thesis
      using t False by (auto simp: arrive_all_snoc a arrive_def seen_snoc tracked_def)
  qed
qed

lemma fragment_result:
  assumes "reasm_wf m" and "map_of m k = None" and "finite K" and "card K \<le> MAX_REASM"
    and "fst ` set m \<union> arr_key ` set (as @ [a]) \<subseteq> K" and "within t0 (as @ [a])"
    and "\<forall>x \<in> set (as @ [a]). arr_wf x" and "fragments_of cs k (as @ [a])"
    and "seen k as \<noteq> {..<length cs}" and "arr_key a = k"
  shows "snd (arrive (arrive_all m as) a) =
    Inr (if seen k (as @ [a]) = {..<length cs} then Some (concat cs) else None)"
proof -
  obtain now n i f where a: "a = (now, k, n, i, f)" using assms(10) by (cases a) auto
  have frag: "fragments_of cs k as" and nf: "n = length cs" "i < length cs" "f = cs ! i"
    and now: "t0 \<le> now" "now < t0 + REASM_TTL"
    using assms(6,8) by (auto simp: fragments_of_def within_def a)
  obtain t where t: "t0 \<le> t" "tracked cs k (seen k as) t (arrive_all m as)"
    using tracked_all [OF assms(1-4) _ _ _ frag assms(9), of t0] assms(5-7) by (auto simp: within_def)
  have wf: "reasm_wf (arrive_all m as)" using assms(1,7) by (simp add: arrive_all_wf)
  have sub: "seen k as \<subset> {..<length cs}" using assms(9) seen_fragments [OF frag] by blast
  have live: "now - t < REASM_TTL" using now t(1) by linarith
  show ?thesis
    using reassemble_own [OF wf t(2) sub nf(2) live] nf by (auto simp: a arrive_def seen_snoc)
qed

text \<open>The fragments \<open>j\<close> of one packet \<open>cs\<close>, at their arrival times, in a table where it is new.\<close>

abbreviation arrivals :: "'k \<Rightarrow> bytes list \<Rightarrow> (nat \<times> nat) list \<Rightarrow> 'k arrival list" where
  "arrivals k cs js \<equiv> map (\<lambda>x. (fst x, k, length cs, snd x, cs ! snd x)) js"

definition timely :: "nat \<Rightarrow> nat \<Rightarrow> (nat \<times> nat) list \<Rightarrow> bool" where
  "timely t0 n js \<longleftrightarrow> (\<forall>x \<in> set js. t0 \<le> fst x \<and> fst x < t0 + REASM_TTL \<and> snd x < n)"

lemma arrival_result:
  assumes "reasm_wf m" and "map_of m k = None" and "length m < MAX_REASM"
    and js: "timely t0 (length cs) (js @ [x])" and "snd ` set js \<noteq> {..<length cs}"
  shows "snd (arrive (arrive_all m (arrivals k cs js)) (fst x, k, length cs, snd x, cs ! snd x)) =
    Inr (if insert (snd x) (snd ` set js) = {..<length cs} then Some (concat cs) else None)"
proof -
  let ?a = "(fst x, k, length cs, snd x, cs ! snd x)"
  have card: "card (insert k (fst ` set m)) \<le> MAX_REASM"
    using card_insert_le_m1 [of MAX_REASM "fst ` set m" k] card_image_le [of "set m" fst]
      card_length [of m] assms(3) by (simp add: MAX_REASM_def)
  have seen: "seen k (arrivals k cs ys) = snd ` set ys" for ys
    by (simp add: seen_def filter_map comp_def image_image)
  have "within t0 (arrivals k cs js @ [?a])" "\<forall>y \<in> set (arrivals k cs js @ [?a]). arr_wf y"
      "fragments_of cs k (arrivals k cs js @ [?a])"
    using js by (auto simp: timely_def within_def arr_wf_def fragments_of_def)
  moreover have "fst ` set m \<union> arr_key ` set (arrivals k cs js @ [?a]) \<subseteq> insert k (fst ` set m)"
    by auto
  moreover have "seen k (arrivals k cs js @ [?a]) = insert (snd x) (snd ` set js)"
    using seen [of "js @ [x]"] by simp
  ultimately show ?thesis
    using fragment_result [OF assms(1,2) _ card, of "arrivals k cs js" ?a t0 cs] assms(5) seen by simp
qed

section \<open>Properties\<close>

text \<open>
  Reassembly never panics and keeps its table sound: in any table it has built, any fragment
  with a validated header (index below the count) is processed without an out-of-range index or an
  empty slot unwrapped, the table never exceeds 256 partial packets, no entry is complete, and the
  fragment counters agree with the slots.
\<close>

theorem reassemble_sound:
  assumes "reasm_wf m" and "i < n"
  shows "reasm_wf (fst (reassemble now m key n i f)) \<and> snd (reassemble now m key n i f) \<noteq> Inl Panic"
  by (rule reassemble_wf [OF assms])

text \<open>
  C25. A packet is delivered exactly when its last missing fragment arrives: take any sequence of
  arriving fragments within ten seconds, those of packet \<open>k\<close> being pieces of \<open>cs\<close> in any order with
  any duplicates and mixed with any fragments of other packets, at most 256 packets being in play.
  As long as some piece of \<open>cs\<close> had not arrived before, the next fragment of \<open>k\<close> returns the whole
  payload, in order, if it is the last missing piece, and nothing otherwise.
\<close>

theorem reassembly_delivers:
  assumes "reasm_wf m" and "map_of m k = None"
    and "card (fst ` set m \<union> arr_key ` set (as @ [a])) \<le> MAX_REASM" and "within t0 (as @ [a])"
    and "\<forall>x \<in> set (as @ [a]). arr_wf x" and "fragments_of cs k (as @ [a])"
    and "seen k as \<noteq> {..<length cs}" and "arr_key a = k"
  shows "snd (arrive (arrive_all m as) a) =
    Inr (if seen k (as @ [a]) = {..<length cs} then Some (concat cs) else None)"
  by (rule fragment_result [OF assms(1,2) _ assms(3) _ assms(4-8)]) auto

section \<open>Witnesses\<close>

theorem reassemble_sound_witness:
  "reasm_wf (fst (reassemble 5 [] (7 :: nat) 2 1 [1])) \<and> snd (reassemble 5 [] (7 :: nat) 2 1 [1]) \<noteq> Inl Panic"
  by (rule reassemble_sound) (simp_all add: reasm_wf_def)

theorem reassembly_delivers_witness:
  "snd (arrive (arrive_all [] [(0, 7 :: nat, 2, 1, [3]), (1, 8, 3, 0, [9]), (2, 7, 2, 1, [3])]) (3, 7, 2, 0, [1, 2]))
   = Inr (Some [1, 2, 3])"
proof -
  let ?as = "[(0, 7 :: nat, 2, 1, [3 :: u8]), (1, 8, 3, 0, [9]), (2, 7, 2, 1, [3])]"
  let ?a = "(3, 7 :: nat, 2, 0, [1 :: u8, 2])"
  have "seen 7 ?as = {1}" "seen 7 (?as @ [?a]) = {..<2}"
    by (auto simp: seen_def)
  then show ?thesis
    using reassembly_delivers [of "[]" 7 ?as ?a 0 "[[1, 2], [3]]"]
    by (simp add: reasm_wf_def MAX_REASM_def within_def REASM_TTL_def arr_wf_def fragments_of_def
        lessThan_Suc numeral_2_eq_2 card_insert_if)
qed

end
