(* ===== verification/Relay.thy ===== *)
theory Relay
  imports Reassembly
begin

text \<open>
  The contract of the two UDP relays (\<open>TuicUdp\<close> and \<open>Hysteria2Udp\<close>): one receive step decodes a
  datagram, hands a whole packet on, puts a fragment into the reassembly table and hands on what it
  completes. From the contract follow, once for both protocols, that the table stays sound under
  any traffic and that a fragmented packet reaches its flow exactly when its last piece arrives.
\<close>

text \<open>
  Handing a payload to a flow: an unknown flow drops it, a flow whose receiver is gone is removed.
\<close>

definition deliver :: "('i \<Rightarrow> bool) \<Rightarrow> ('i \<rightharpoonup> bytes list) \<Rightarrow> 'i \<Rightarrow> bytes \<Rightarrow> ('i \<rightharpoonup> bytes list)" where
  "deliver alive fl i payload =
     (case fl i of None \<Rightarrow> fl
      | Some q \<Rightarrow> if alive i then fl(i \<mapsto> q @ [payload]) else fl(i := None))"

text \<open>Receiving datagrams at their arrival times.\<close>

definition recv_all ::
    "(nat \<Rightarrow> ('i \<Rightarrow> bool) \<Rightarrow> 's \<Rightarrow> bytes \<Rightarrow> 's) \<Rightarrow> ('i \<Rightarrow> bool) \<Rightarrow> 's \<Rightarrow> (nat \<times> bytes) list \<Rightarrow> 's" where
  "recv_all recv alive s ds = foldl (\<lambda>s (now, dg). recv now alive s dg) s ds"

text \<open>\<open>pieces_of dec ds k cs\<close>: the datagrams \<open>ds\<close> decode to the fragments of the packet \<open>cs\<close> under key \<open>k\<close>.\<close>

definition pieces_of ::
    "(bytes \<Rightarrow> (('i \<times> 'p) \<times> nat \<times> nat \<times> bytes) option) \<Rightarrow> bytes list \<Rightarrow> 'i \<times> 'p \<Rightarrow> bytes list \<Rightarrow> bool" where
  "pieces_of dec ds k cs \<longleftrightarrow> length ds = length cs \<and> (\<forall>j < length cs. dec (ds ! j) = Some (k, length cs, j, cs ! j))"

locale datagram_relay =
  fixes dec :: "bytes \<Rightarrow> (('i \<times> 'p) \<times> nat \<times> nat \<times> bytes) option"
    and recv :: "nat \<Rightarrow> ('i \<Rightarrow> bool) \<Rightarrow> 's \<Rightarrow> bytes \<Rightarrow> 's"
    and queues :: "'s \<Rightarrow> 'i \<rightharpoonup> bytes list"
    and table :: "'s \<Rightarrow> ('i \<times> 'p) reasm_map"
  assumes dec_valid: "dec dg = Some (k, n, j, f) \<Longrightarrow> j < n"
    and recv_reject: "dec dg = None \<Longrightarrow> recv now alive s dg = s"
    and recv_whole: "dec dg = Some ((i, p), n, j, f) \<Longrightarrow> n \<le> 1 \<Longrightarrow>
      table (recv now alive s dg) = table s \<and> queues (recv now alive s dg) = deliver alive (queues s) i f"
    and recv_frag: "dec dg = Some ((i, p), n, j, f) \<Longrightarrow> 1 < n \<Longrightarrow>
      table (recv now alive s dg) = fst (arrive (table s) (now, (i, p), n, j, f))
      \<and> queues (recv now alive s dg) =
          (case snd (arrive (table s) (now, (i, p), n, j, f)) of
             Inr (Some payload) \<Rightarrow> deliver alive (queues s) i payload | _ \<Rightarrow> queues s)"
begin

lemma recv_wf:
  assumes "reasm_wf (table s)"
  shows "reasm_wf (table (recv now alive s dg))"
proof (cases "dec dg")
  case None
  then show ?thesis using assms by (simp add: recv_reject)
next
  case (Some x)
  obtain i p n j f where x: "x = ((i, p), n, j, f)" by (cases x) auto
  show ?thesis
  proof (cases "n \<le> 1")
    case True
    then show ?thesis using assms Some x recv_whole by fastforce
  next
    case False
    have "arr_wf (now, (i, p), n, j, f)" using dec_valid Some x by (simp add: arr_wf_def)
    then show ?thesis using False Some x recv_frag [of dg i p n j f] arrive_wf [OF assms] by simp
  qed
qed

lemma recv_all_snoc: "recv_all recv alive s (ds @ [d]) = recv (fst d) alive (recv_all recv alive s ds) (snd d)"
  by (simp add: recv_all_def split_def)

lemma recv_all_partial:
  assumes ds: "pieces_of dec ds (i, p) cs" and n: "1 < length cs"
    and wf: "reasm_wf (table s)" and fresh: "map_of (table s) (i, p) = None" "length (table s) < MAX_REASM"
    and "timely t0 (length cs) js" and "snd ` set js \<noteq> {..<length cs}"
  shows "table (recv_all recv alive s (map (\<lambda>x. (fst x, ds ! snd x)) js)) = arrive_all (table s) (arrivals (i, p) cs js)
    \<and> queues (recv_all recv alive s (map (\<lambda>x. (fst x, ds ! snd x)) js)) = queues s"
  using assms(6,7)
proof (induction js rule: rev_induct)
  case Nil
  show ?case by (simp add: recv_all_def arrive_all_def)
next
  case (snoc x js)
  have j: "snd x < length cs" and tj: "timely t0 (length cs) js"
    using snoc.prems(1) by (auto simp: timely_def)
  have miss: "snd ` set js \<noteq> {..<length cs}" using snoc.prems(2) j by (auto simp: insert_absorb)
  have "snd (arrive (arrive_all (table s) (arrivals (i, p) cs js))
      (fst x, (i, p), length cs, snd x, cs ! snd x)) = Inr None"
    using arrival_result [OF wf fresh snoc.prems(1) miss] snoc.prems(2) by simp
  then show ?case
    using recv_frag [of "ds ! snd x" i p "length cs" "snd x" "cs ! snd x" "fst x" alive] ds j n snoc.IH [OF tj miss]
    by (simp add: pieces_of_def recv_all_snoc arrive_all_snoc)
qed

lemma end_to_end:
  assumes ds: "pieces_of dec ds (i, p) cs"
    and wf: "reasm_wf (table s)" and fresh: "map_of (table s) (i, p) = None" "length (table s) < MAX_REASM"
    and q: "queues s i = Some q" "alive i"
    and t: "timely t0 (length cs) (js @ [x])" and miss: "snd ` set js \<noteq> {..<length cs}"
    and full: "insert (snd x) (snd ` set js) = {..<length cs}"
  shows "queues (recv_all recv alive s (map (\<lambda>y. (fst y, ds ! snd y)) js)) i = Some q"
    and "queues (recv_all recv alive s (map (\<lambda>y. (fst y, ds ! snd y)) (js @ [x]))) i = Some (q @ [concat cs])"
proof -
  have j: "snd x < length cs" and tj: "timely t0 (length cs) js" using t by (auto simp: timely_def)
  have dx: "dec (ds ! snd x) = Some ((i, p), length cs, snd x, cs ! snd x)"
    using ds j by (simp add: pieces_of_def)
  have *: "queues (recv_all recv alive s (map (\<lambda>y. (fst y, ds ! snd y)) js)) i = Some q \<and>
    queues (recv_all recv alive s (map (\<lambda>y. (fst y, ds ! snd y)) (js @ [x]))) i = Some (q @ [concat cs])"
  proof (cases "1 < length cs")
    case True
    show ?thesis
      using recv_frag [OF dx True, of "fst x" alive] recv_all_partial [OF ds True wf fresh tj miss, of alive]
        arrival_result [OF wf fresh t miss] full q
      by (simp add: recv_all_snoc deliver_def)
  next
    case False
    then have one: "length cs = 1" using j by linarith
    then have "js = []" using tj miss by (cases js) (auto simp: timely_def lessThan_Suc)
    moreover obtain c where "cs = [c]" using one by (cases cs) auto
    ultimately show ?thesis
      using recv_whole [OF dx, of "fst x" alive s] j q by (simp add: recv_all_def deliver_def)
  qed
  then show "queues (recv_all recv alive s (map (\<lambda>y. (fst y, ds ! snd y)) js)) i = Some q"
    and "queues (recv_all recv alive s (map (\<lambda>y. (fst y, ds ! snd y)) (js @ [x]))) i = Some (q @ [concat cs])"
    by blast+
qed

end

sublocale datagram_relay \<subseteq> machine: invariant_machine
  "\<lambda>s (now, alive, dg). recv now alive s dg" "\<lambda>s. reasm_wf (table s)"
  by unfold_locales (auto simp: recv_wf)

text \<open>Cutting a payload into pieces, as both protocols do.\<close>

function chunks :: "nat \<Rightarrow> 'a list \<Rightarrow> 'a list list" where
  "chunks cap xs = (if xs = [] \<or> cap = 0 then [] else take cap xs # chunks cap (drop cap xs))"
  by pat_completeness auto
termination
  by (relation "measure (\<lambda>(_, xs). length xs)") auto

declare chunks.simps [simp del]

definition div_ceil :: "nat \<Rightarrow> nat \<Rightarrow> nat" where
  "div_ceil a b = a div b + (if a mod b = 0 then 0 else 1)"

definition pieces :: "nat \<Rightarrow> bytes \<Rightarrow> bytes list" where
  "pieces cap payload = (if payload = [] then [[]] else chunks cap payload)"

lemma concat_chunks: "0 < cap \<Longrightarrow> concat (chunks cap xs) = xs"
  by (induction cap xs rule: chunks.induct) (subst chunks.simps, auto)

lemma chunk_length: "c \<in> set (chunks cap xs) \<Longrightarrow> length c \<le> cap"
proof (induction cap xs rule: chunks.induct)
  case (1 cap xs)
  show ?case using 1 by (cases "xs = [] \<or> cap = 0") (auto simp: chunks.simps [of cap xs])
qed

lemma length_chunks: "0 < cap \<Longrightarrow> length (chunks cap xs) = div_ceil (length xs) cap"
proof (induction cap xs rule: chunks.induct)
  case (1 cap xs)
  show ?case
  proof (cases "xs = []")
    case False
    have IH: "length (chunks cap (drop cap xs)) = div_ceil (length xs - cap) cap" using 1 False by simp
    show ?thesis
    proof (cases "length xs < cap")
      case True
      then show ?thesis using IH False 1(2) by (subst chunks.simps) (simp add: div_ceil_def)
    next
      case nlt: False
      then show ?thesis
        using IH False 1(2) by (subst chunks.simps) (simp add: div_ceil_def le_div_geq le_mod_geq)
    qed
  qed (simp add: chunks.simps [of cap "[]"] div_ceil_def)
qed

lemma nth_chunks: "i < length (chunks cap xs) \<Longrightarrow> chunks cap xs ! i = take cap (drop (i * cap) xs)"
proof (induction cap xs arbitrary: i rule: chunks.induct)
  case (1 cap xs)
  show ?case
    using 1 by (cases "xs = [] \<or> cap = 0"; cases i) (auto simp: chunks.simps [of cap xs] add.commute)
qed

lemma concat_pieces: "0 < cap \<Longrightarrow> concat (pieces cap payload) = payload"
  by (simp add: pieces_def concat_chunks)

lemma piece_length: "c \<in> set (pieces cap payload) \<Longrightarrow> length c \<le> cap"
  by (auto simp: pieces_def chunk_length split: if_splits)

lemma pieces_nonempty: "0 < cap \<Longrightarrow> pieces cap payload \<noteq> []"
  by (simp add: pieces_def chunks.simps [of cap payload])

lemma length_pieces: "0 < cap \<Longrightarrow> length (pieces cap payload) = max 1 (div_ceil (length payload) cap)"
proof (cases "payload = []")
  case False
  assume cap: "0 < cap"
  have "chunks cap payload \<noteq> []" using False cap by (simp add: chunks.simps [of cap payload])
  then have "0 < length (chunks cap payload)" by simp
  then show ?thesis using False length_chunks [OF cap, of payload] by (simp add: pieces_def)
qed (simp add: pieces_def div_ceil_def)

lemma nth_pieces: "0 < cap \<Longrightarrow> i < length (pieces cap payload) \<Longrightarrow> pieces cap payload ! i = take cap (drop (i * cap) payload)"
  by (auto simp: pieces_def nth_chunks)

end
