(* ===== verification/Tuic.thy ===== *)
theory Tuic
  imports Target Relay
begin

text \<open>
  \<open>crates/net/src/tuic/proto.rs\<close> and \<open>crates/net/src/tuic/udp.rs\<close>: the TUIC v5 commands, the
  fragmentation of UDP packets into datagrams, the datagram decoder, and the relay state (flow
  registration, receive step). Decoding a datagram never indexes out of bounds; the datagrams of a
  packet decode to its pieces and fit the datagram size; registration never hands out a live id.
\<close>

section \<open>Commands\<close>

abbreviation (input) TUIC_VERSION :: u8 where "TUIC_VERSION \<equiv> 5"
abbreviation (input) CMD_AUTHENTICATE :: u8 where "CMD_AUTHENTICATE \<equiv> 0"
abbreviation (input) CMD_CONNECT :: u8 where "CMD_CONNECT \<equiv> 1"
abbreviation (input) CMD_PACKET :: u8 where "CMD_PACKET \<equiv> 2"
abbreviation (input) CMD_DISSOCIATE :: u8 where "CMD_DISSOCIATE \<equiv> 3"
abbreviation (input) ATYP_DOMAIN :: u8 where "ATYP_DOMAIN \<equiv> 0"
abbreviation (input) ATYP_IPV4 :: u8 where "ATYP_IPV4 \<equiv> 1"
abbreviation (input) ATYP_IPV6 :: u8 where "ATYP_IPV6 \<equiv> 2"
abbreviation (input) ATYP_NONE :: u8 where "ATYP_NONE \<equiv> 0xFF"

record packet_head =
  assoc_id :: u16
  pkt_id :: u16
  frag_total :: u8
  frag_id :: u8
  head_addr :: "target option"

fun tuic_address :: "target \<Rightarrow> io_error + bytes" where
  "tuic_address (Domain host port) =
     (if 255 < length host then Inl (InvalidInput ''tuic: domain'')
      else Inr ([ATYP_DOMAIN, of_nat (length host)] @ str_bytes host @ be16 port))"
| "tuic_address (Socket (SockV4 ip port)) = Inr ([ATYP_IPV4] @ be32 ip @ be16 port)"
| "tuic_address (Socket (SockV6 ip port _ _)) = Inr ([ATYP_IPV6] @ be128 ip @ be16 port)"

definition encode_authenticate :: "bytes \<Rightarrow> bytes \<Rightarrow> bytes" where
  "encode_authenticate uuid token = [TUIC_VERSION, CMD_AUTHENTICATE] @ uuid @ token"

definition encode_connect :: "target \<Rightarrow> io_error + bytes" where
  "encode_connect t = rbind (tuic_address t) (\<lambda>a. Inr ([TUIC_VERSION, CMD_CONNECT] @ a))"

definition encode_dissociate :: "u16 \<Rightarrow> bytes" where
  "encode_dissociate assoc = [TUIC_VERSION, CMD_DISSOCIATE] @ be16 assoc"

fun address_len :: "target \<Rightarrow> io_error + nat" where
  "address_len (Domain host _) =
     (if 255 < length host then Inl (InvalidInput ''tuic: domain'') else Inr (1 + 1 + length host + 2))"
| "address_len (Socket (SockV4 _ _)) = Inr (1 + 4 + 2)"
| "address_len (Socket (SockV6 _ _ _ _)) = Inr (1 + 16 + 2)"

definition encode_packet_one ::
    "u16 \<Rightarrow> u16 \<Rightarrow> u8 \<Rightarrow> u8 \<Rightarrow> target option \<Rightarrow> bytes \<Rightarrow> io_error + bytes" where
  "encode_packet_one assoc pkt ftotal fid addr payload =
     rbind (case addr of Some t \<Rightarrow> tuic_address t | None \<Rightarrow> Inr [ATYP_NONE]) (\<lambda>a.
       Inr ([TUIC_VERSION, CMD_PACKET] @ be16 assoc @ be16 pkt @ [ftotal, fid]
            @ be16 (of_nat (length payload)) @ a @ payload))"

fun encode_chunks ::
    "u16 \<Rightarrow> u16 \<Rightarrow> target \<Rightarrow> u8 \<Rightarrow> nat \<Rightarrow> bytes list \<Rightarrow> io_error + bytes list" where
  "encode_chunks assoc pkt t ftotal i [] = Inr []"
| "encode_chunks assoc pkt t ftotal i (c # cs) =
     rbind (encode_packet_one assoc pkt ftotal (of_nat i) (if i = 0 then Some t else None) c) (\<lambda>d.
     rbind (encode_chunks assoc pkt t ftotal (i + 1) cs) (\<lambda>ds. Inr (d # ds)))"

definition encode_packets :: "u16 \<Rightarrow> u16 \<Rightarrow> target \<Rightarrow> bytes \<Rightarrow> nat \<Rightarrow> io_error + bytes list" where
  "encode_packets assoc pkt t payload max_datagram =
     rbind (address_len t) (\<lambda>al.
       let header = 10 + al
       in if max_datagram \<le> header then Inl (IoOther ''tuic: datagram'')
          else let cap = max_datagram - header
               in if payload = []
                  then rbind (encode_packet_one assoc pkt 1 0 (Some t) []) (\<lambda>d. Inr [d])
                  else let ftotal = div_ceil (length payload) cap
                       in if 255 < ftotal then Inl (IoOther ''tuic: fragments'')
                          else encode_chunks assoc pkt t (of_nat ftotal) 0 (chunks cap payload))"

definition need :: "bytes \<Rightarrow> nat \<Rightarrow> nat \<Rightarrow> io_error + unit" where
  "need buf p n = (if length buf < p + n then Inl (InvalidData ''tuic: address'') else Inr ())"

definition parse_address_sync :: "bytes \<Rightarrow> nat \<Rightarrow> io_error + target option \<times> nat" where
  "parse_address_sync buf pos =
     rbind (need buf pos 1) (\<lambda>_.
     rbind (index buf pos) (\<lambda>atyp.
       let pos = pos + 1
       in if atyp = ATYP_NONE then Inr (None, pos)
          else if atyp = ATYP_IPV4 then
            rbind (need buf pos 6) (\<lambda>_.
            rbind (slice buf pos (pos + 4)) (\<lambda>o4.
            rbind (index_u16 buf (pos + 4)) (\<lambda>port.
              Inr (Some (Socket (SockV4 (from_be o4) port)), pos + 6))))
          else if atyp = ATYP_IPV6 then
            rbind (need buf pos 18) (\<lambda>_.
            rbind (slice buf pos (pos + 16)) (\<lambda>o16.
            rbind (index_u16 buf (pos + 16)) (\<lambda>port.
              Inr (Some (Socket (SockV6 (from_be o16) port 0 0)), pos + 18))))
          else if atyp = ATYP_DOMAIN then
            rbind (need buf pos 1) (\<lambda>_.
            rbind (index buf pos) (\<lambda>len.
              let len = unat len; pos = pos + 1
              in rbind (need buf pos (len + 2)) (\<lambda>_.
                 rbind (slice buf pos (pos + len)) (\<lambda>host.
                 rbind (index_u16 buf (pos + len)) (\<lambda>port.
                   Inr (Some (Domain (from_utf8_lossy host) port), pos + len + 2))))))
          else Inl (InvalidData ''tuic: ATYP'')))"

definition decode_packet :: "bytes \<Rightarrow> io_error + packet_head \<times> bytes" where
  "decode_packet buf =
     (if length buf < 10 then Inl (InvalidData ''tuic: short'')
      else rbind (index buf 0) (\<lambda>b0. rbind (index buf 1) (\<lambda>b1.
        if b0 \<noteq> TUIC_VERSION \<or> b1 \<noteq> CMD_PACKET then Inl (InvalidData ''tuic: not Packet'')
        else rbind (index_u16 buf 2) (\<lambda>assoc. rbind (index_u16 buf 4) (\<lambda>pkt.
             rbind (index buf 6) (\<lambda>ftotal. rbind (index buf 7) (\<lambda>fid.
               if ftotal = 0 \<or> ftotal \<le> fid then Inl (InvalidData ''tuic: frag'')
               else rbind (index_u16 buf 8) (\<lambda>size.
                    rbind (parse_address_sync buf 10) (\<lambda>(addr, pos).
                      let end' = pos + unat size
                      in if length buf < end' then Inl (InvalidData ''tuic: payload'')
                         else rbind (slice buf pos end') (\<lambda>p.
                           Inr (\<lparr>assoc_id = assoc, pkt_id = pkt, frag_total = ftotal, frag_id = fid,
                                  head_addr = addr\<rparr>, p)))))))))))"

section \<open>Relay state\<close>

text \<open>
  The flows with the payloads queued for them; the receive loop owns the reassembly table. The
  queue of a flow is unbounded here: \<open>send\<close> waits while the channel is full. A flow whose receiver
  is gone is removed when a payload comes for it.
\<close>

record tuic_udp =
  next_assoc :: u16
  next_pkt :: u16
  flows :: "u16 \<rightharpoonup> bytes list"
  reasm_map :: "(u16 \<times> u16) reasm_map"

definition tuic_start :: tuic_udp where
  "tuic_start = \<lparr>next_assoc = 1, next_pkt = 1, flows = Map.empty, reasm_map = []\<rparr>"

fun register_loop :: "nat \<Rightarrow> tuic_udp \<Rightarrow> tuic_udp \<times> u16 option" where
  "register_loop 0 s = (s, None)"
| "register_loop (Suc n) s =
     (let i = next_assoc s; s = s\<lparr>next_assoc := i + 1\<rparr>
      in if i \<noteq> 0 \<and> flows s i = None then (s\<lparr>flows := (flows s)(i \<mapsto> [])\<rparr>, Some i)
         else register_loop n s)"

definition register :: "tuic_udp \<Rightarrow> tuic_udp \<times> u16 option" where
  "register s = register_loop 65536 s"

definition tuic_send :: "nat option \<Rightarrow> tuic_udp \<Rightarrow> u16 \<Rightarrow> target \<Rightarrow> bytes \<Rightarrow> tuic_udp \<times> (io_error + bytes list)" where
  "tuic_send max_datagram s assoc t payload =
     (case max_datagram of None \<Rightarrow> (s, Inl (IoOther ''tuic: datagrams''))
      | Some m \<Rightarrow> (s\<lparr>next_pkt := next_pkt s + 1\<rparr>, encode_packets assoc (next_pkt s) t payload m))"

definition dissociate :: "tuic_udp \<Rightarrow> u16 \<Rightarrow> tuic_udp \<times> bytes" where
  "dissociate s assoc = (s\<lparr>flows := (flows s)(assoc := None)\<rparr>, encode_dissociate assoc)"

definition recv_datagram :: "nat \<Rightarrow> (u16 \<Rightarrow> bool) \<Rightarrow> tuic_udp \<Rightarrow> bytes \<Rightarrow> tuic_udp" where
  "recv_datagram now alive s dg =
     (case decode_packet dg of
        Inl _ \<Rightarrow> s
      | Inr (head, frag) \<Rightarrow>
          (let (s, full) =
             (if frag_total head \<le> 1 then (s, Some frag)
              else let (m, r) = reassemble now (reasm_map s) (assoc_id head, pkt_id head)
                                  (unat (frag_total head)) (unat (frag_id head)) frag
                   in (s\<lparr>reasm_map := m\<rparr>, (case r of Inr p \<Rightarrow> p | Inl _ \<Rightarrow> None)))
           in case full of None \<Rightarrow> s
              | Some payload \<Rightarrow>
                  (case flows s (assoc_id head) of None \<Rightarrow> s
                   | Some q \<Rightarrow> if alive (assoc_id head)
                                then s\<lparr>flows := (flows s)(assoc_id head \<mapsto> q @ [payload])\<rparr>
                                else s\<lparr>flows := (flows s)(assoc_id head := None)\<rparr>)))"

section \<open>Datagram decoding is safe\<close>

lemma parse_address_sync_safe: "parse_address_sync buf pos \<noteq> Inl Panic"
  by (auto simp: parse_address_sync_def need_def Let_def rbind_eq_Inl)

lemma decode_packet_safe: "decode_packet buf \<noteq> Inl Panic"
proof -
  have "parse_address_sync buf 10 = Inr (a, p) \<Longrightarrow> p + n \<le> length buf \<Longrightarrow> slice buf p (p + n) \<noteq> Inl Panic" for a p n
    by simp
  moreover have "10 \<le> length buf \<Longrightarrow> index buf 0 = Inr (buf ! 0)" by (intro index_in) linarith
  ultimately show ?thesis
    using parse_address_sync_safe [of buf 10]
    by (auto simp: decode_packet_def Let_def rbind_eq_Inl not_less split: prod.splits)
qed

lemma decode_packet_frag:
  assumes "decode_packet buf = Inr (head, p)"
  shows "unat (frag_id head) < unat (frag_total head)"
  using assms by (auto simp: decode_packet_def Let_def word_le_nat_alt split: if_splits prod.splits)

section \<open>Round trip of one datagram\<close>

lemma parse_address_none:
  "parse_address_sync (pre @ [0xFF] @ r) (length pre) = Inr (None, length pre + 1)"
  by (simp add: parse_address_sync_def need_def Let_def)

lemma parse_address_some:
  assumes "tuic_address t = Inr a" and "target_wf t"
  shows "parse_address_sync (pre @ a @ r) (length pre) = Inr (Some t, length pre + length a)"
proof (cases t rule: tuic_address.cases)
  case (1 host port)
  let ?n = "of_nat (length host) :: u8"
  have n: "unat ?n = length host" using assms 1 by (auto intro!: unat_of_nat_u8 split: if_splits)
  have a: "a = 0 # ?n # str_bytes host @ be16 port" using assms(1) 1 by (simp split: if_splits)
  have i: "index (pre @ a @ r) (length pre + 1) = Inr ?n"
    using index_append [of "pre @ [0]" ?n "str_bytes host @ be16 port @ r"] a by simp
  have s: "slice (pre @ a @ r) (length pre + 2) (length pre + 2 + length host) = Inr (str_bytes host)"
    using slice_append [of _ "pre @ [0, ?n]" "str_bytes host" "be16 port @ r"] a by simp
  have p: "index_u16 (pre @ a @ r) (length pre + 2 + length host) = Inr port"
    using index_u16_append [of "pre @ [0, ?n] @ str_bytes host" port r] a by simp
  show ?thesis
    using n i s p assms(2) 1
    by (simp add: parse_address_sync_def need_def Let_def a from_utf8_lossy_str)
next
  case (2 ip port)
  then have a: "a = 1 # be32 ip @ be16 port" using assms(1) by simp
  have "slice (pre @ a @ r) (length pre + 1) (length pre + 5) = Inr (be32 ip)"
    using slice_append [of _ "pre @ [1]" "be32 ip" "be16 port @ r"] a by simp
  moreover have "index_u16 (pre @ a @ r) (5 + length pre) = Inr port"
    using index_u16_append [of "pre @ [1] @ be32 ip" port r] a by (simp add: add.commute del: index_u16_in)
  ultimately show ?thesis
    by (simp add: 2 parse_address_sync_def need_def Let_def a del: index_u16_in)
next
  case (3 ip port flow scope)
  then have a: "a = 2 # be128 ip @ be16 port" using assms(1) by simp
  have "slice (pre @ a @ r) (length pre + 1) (length pre + 17) = Inr (be128 ip)"
    using slice_append [of _ "pre @ [2]" "be128 ip" "be16 port @ r"] a by simp
  moreover have "index_u16 (pre @ a @ r) (17 + length pre) = Inr port"
    using index_u16_append [of "pre @ [2] @ be128 ip" port r] a by (simp add: add.commute del: index_u16_in)
  ultimately show ?thesis
    using 3 assms(2) by (simp add: parse_address_sync_def need_def Let_def a del: index_u16_in)
qed

lemma decode_packet_one:
  assumes "encode_packet_one assoc pkt n i addr payload = Inr d" and "i < n"
    and "length payload < 65536" and "\<And>t. addr = Some t \<Longrightarrow> target_wf t"
  shows "decode_packet d = Inr (\<lparr>assoc_id = assoc, pkt_id = pkt, frag_total = n, frag_id = i,
    head_addr = addr\<rparr>, payload)"
proof -
  let ?size = "of_nat (length payload) :: u16"
  define h where "h = [5, 2] @ be16 assoc @ be16 pkt @ [n, i] @ be16 ?size"
  obtain a where a: "(case addr of Some t \<Rightarrow> tuic_address t | None \<Rightarrow> Inr [0xFF]) = Inr a"
      and d: "d = h @ a @ payload"
    using assms(1) by (auto simp: encode_packet_one_def h_def)
  have len: "length h = 10" by (simp add: h_def)
  have addr: "parse_address_sync d 10 = Inr (addr, 10 + length a)"
    using parse_address_some [of _ a h payload] parse_address_none [of h payload] a assms(4) len
    by (cases addr) (auto simp: d)
  have size: "unat ?size = length payload" using assms(3) by (intro unat_of_nat_u16)
  have pay: "slice d (10 + length a) (10 + length a + length payload) = Inr payload"
    using slice_append [of _ "h @ a" payload "[]"] len by (simp add: d)
  have nz: "n \<noteq> 0" using assms(2) by (auto simp: word_less_nat_alt)
  have heads: "index d 0 = Inr 5" "index d 1 = Inr 2" "index_u16 d 2 = Inr assoc" "index_u16 d 4 = Inr pkt"
      "index d 6 = Inr n" "index d 7 = Inr i" "index_u16 d 8 = Inr ?size"
    by (simp_all add: d h_def index_def index_u16_def be16_pair)
  show ?thesis
    using assms(2) nz len heads addr pay size
    by (simp add: decode_packet_def Let_def d [symmetric] not_le) (simp add: d)
qed

section \<open>Fragmentation\<close>

lemma address_len_encode: "address_len t = Inr n \<Longrightarrow> \<exists>a. tuic_address t = Inr a \<and> length a = n"
  by (cases t rule: tuic_address.cases) (auto split: if_splits)

lemma encode_packet_one_length:
  assumes "encode_packet_one assoc pkt n i addr payload = Inr d" and "address_len t = Inr al"
    and "addr = None \<or> addr = Some t"
  shows "length d \<le> 10 + al + length payload"
proof -
  obtain a where "tuic_address t = Inr a" "length a = al" using address_len_encode [OF assms(2)] by blast
  moreover have "1 \<le> al" using assms(2) by (cases t rule: tuic_address.cases) (auto split: if_splits)
  ultimately show ?thesis using assms(1,3) by (auto simp: encode_packet_one_def)
qed

lemma encode_chunks_nth:
  assumes "encode_chunks assoc pkt t n i cs = Inr ds"
  shows "length ds = length cs \<and> (\<forall>j < length cs.
    encode_packet_one assoc pkt n (of_nat (i + j)) (if i + j = 0 then Some t else None) (cs ! j) = Inr (ds ! j))"
  using assms
proof (induction cs arbitrary: i ds)
  case (Cons c cs)
  then obtain d ds' where ds: "ds = d # ds'" "encode_chunks assoc pkt t n (i + 1) cs = Inr ds'"
      "encode_packet_one assoc pkt n (of_nat i) (if i = 0 then Some t else None) c = Inr d"
    by auto
  have "encode_packet_one assoc pkt n (of_nat (i + j)) (if i + j = 0 then Some t else None) ((c # cs) ! j)
      = Inr (ds ! j)" if "j < length (c # cs)" for j
    using that ds Cons.IH [OF ds(2)] by (cases j) auto
  then show ?case using Cons.IH [OF ds(2)] ds by auto
qed simp

lemma encode_packets_nth:
  assumes "encode_packets assoc pkt t payload max_dg = Inr ds" and "address_len t = Inr al"
  defines "cs \<equiv> pieces (max_dg - (10 + al)) payload"
  shows "10 + al < max_dg \<and> length cs \<le> 255 \<and> length ds = length cs \<and> (\<forall>j < length cs.
    encode_packet_one assoc pkt (of_nat (length cs)) (of_nat j) (if j = 0 then Some t else None) (cs ! j)
    = Inr (ds ! j))"
proof (cases "payload = []")
  case True
  then show ?thesis using assms by (auto simp: encode_packets_def Let_def pieces_def split: if_splits)
next
  case False
  let ?cap = "max_dg - (10 + al)"
  have cap: "0 < ?cap" and enc: "encode_chunks assoc pkt t (of_nat (length cs)) 0 cs = Inr ds"
      and few: "length cs \<le> 255"
    using assms False
    by (auto simp: encode_packets_def Let_def pieces_def length_chunks split: if_splits)
  then show ?thesis using encode_chunks_nth [OF enc] by auto
qed

lemma encode_packets_address: "encode_packets assoc pkt t payload m = Inr ds \<Longrightarrow> \<exists>al. address_len t = Inr al"
  by (auto simp: encode_packets_def)

lemma packets_decode:
  assumes enc: "encode_packets assoc pkt t payload max_dg = Inr ds" and al: "address_len t = Inr al"
    and wf: "target_wf t" and m: "max_dg \<le> 65535" and j: "j < length ds"
  defines "cs \<equiv> pieces (max_dg - (10 + al)) payload"
  shows "decode_packet (ds ! j) = Inr (\<lparr>assoc_id = assoc, pkt_id = pkt, frag_total = of_nat (length cs),
      frag_id = of_nat j, head_addr = (if j = 0 then Some t else None)\<rparr>, cs ! j)
    \<and> length (ds ! j) \<le> max_dg"
proof -
  note nth = encode_packets_nth [OF enc al, folded cs_def]
  have one: "encode_packet_one assoc pkt (of_nat (length cs)) (of_nat j) (if j = 0 then Some t else None) (cs ! j)
      = Inr (ds ! j)" using nth j by simp
  have few: "length cs \<le> 255" "j < length cs" using nth j by auto
  then have lt: "(of_nat j :: u8) < of_nat (length cs)"
    by (simp add: word_less_nat_alt unat_of_nat_small)
  have piece: "length (cs ! j) \<le> max_dg - (10 + al)"
    using few piece_length [of "cs ! j" "max_dg - (10 + al)" payload] by (simp add: cs_def)
  have "length (ds ! j) \<le> 10 + al + length (cs ! j)"
    by (rule encode_packet_one_length [OF one al]) simp
  then have "length (ds ! j) \<le> max_dg" using piece nth by linarith
  then show ?thesis
    using decode_packet_one [OF one lt] piece m wf by (auto split: if_splits)
qed

section \<open>Registration\<close>

lemma register_loop_Some:
  "register_loop n s = (s', Some i) \<Longrightarrow>
     i \<noteq> 0 \<and> flows s i = None \<and> flows s' = (flows s)(i \<mapsto> []) \<and> reasm_map s' = reasm_map s"
proof (induction n arbitrary: s)
  case (Suc n)
  let ?s = "s\<lparr>next_assoc := next_assoc s + 1\<rparr>"
  show ?case
  proof (cases "next_assoc s \<noteq> 0 \<and> flows s (next_assoc s) = None")
    case False
    then have "register_loop n ?s = (s', Some i)" using Suc.prems by (auto simp: Let_def split: if_splits)
    from Suc.IH [OF this] show ?thesis by simp
  qed (use Suc.prems in \<open>auto simp: Let_def\<close>)
qed simp

lemma register_loop_None:
  "register_loop n s = (s', None) \<Longrightarrow>
     flows s' = flows s \<and> (\<forall>k < n. next_assoc s + of_nat k = 0 \<or> flows s (next_assoc s + of_nat k) \<noteq> None)"
proof (induction n arbitrary: s)
  case (Suc n)
  let ?s = "s\<lparr>next_assoc := next_assoc s + 1\<rparr>"
  have head: "next_assoc s = 0 \<or> flows s (next_assoc s) \<noteq> None" and rest: "register_loop n ?s = (s', None)"
    using Suc.prems by (auto simp: Let_def split: if_splits)
  have "next_assoc s + of_nat k = 0 \<or> flows s (next_assoc s + of_nat k) \<noteq> None" if "k < Suc n" for k
  proof (cases k)
    case 0
    then show ?thesis using head by simp
  next
    case (Suc k')
    then show ?thesis using Suc.IH [OF rest] that by (simp add: add.assoc)
  qed
  then show ?case using Suc.IH [OF rest] by simp
qed simp

section \<open>The receive step\<close>

definition tuic_wf :: "tuic_udp \<Rightarrow> bool" where
  "tuic_wf s \<longleftrightarrow> reasm_wf (reasm_map s)"

definition tuic_dec :: "bytes \<Rightarrow> ((u16 \<times> u16) \<times> nat \<times> nat \<times> bytes) option" where
  "tuic_dec dg = map_option (\<lambda>(h, f). ((assoc_id h, pkt_id h), unat (frag_total h), unat (frag_id h), f))
     (result_ok (decode_packet dg))"

interpretation tuic_relay: datagram_relay tuic_dec recv_datagram flows reasm_map
proof
  fix dg k n j f
  assume "tuic_dec dg = Some (k, n, j, f)"
  then show "j < n" by (auto simp: tuic_dec_def dest: decode_packet_frag)
next
  fix dg now alive s
  assume "tuic_dec dg = None"
  then show "recv_datagram now alive s dg = s"
    by (cases "decode_packet dg") (auto simp: tuic_dec_def recv_datagram_def)
next
  fix dg i p n j f now alive s
  assume "tuic_dec dg = Some ((i, p), n, j, f)"
  then obtain h where h: "decode_packet dg = Inr (h, f)" "assoc_id h = i" "pkt_id h = p"
      "unat (frag_total h) = n" "unat (frag_id h) = j"
    by (auto simp: tuic_dec_def)
  have le: "frag_total h \<le> 1 \<longleftrightarrow> n \<le> 1" using h(4) by (simp add: word_le_nat_alt)
  show "n \<le> 1 \<Longrightarrow> reasm_map (recv_datagram now alive s dg) = reasm_map s
      \<and> flows (recv_datagram now alive s dg) = deliver alive (flows s) i f"
    using h le by (simp add: recv_datagram_def deliver_def split: option.splits)
  show "1 < n \<Longrightarrow> reasm_map (recv_datagram now alive s dg) = fst (arrive (reasm_map s) (now, (i, p), n, j, f))
      \<and> flows (recv_datagram now alive s dg) = (case snd (arrive (reasm_map s) (now, (i, p), n, j, f)) of
          Inr (Some payload) \<Rightarrow> deliver alive (flows s) i payload | _ \<Rightarrow> flows s)"
    using h le by (auto simp: recv_datagram_def deliver_def arrive_def split: option.splits prod.splits sum.splits)
qed

lemma packets_pieces:
  assumes "encode_packets assoc pkt t payload max_dg = Inr ds" and "target_wf t" and "max_dg \<le> 65535"
  obtains cs where "pieces_of tuic_dec ds (assoc, pkt) cs" and "concat cs = payload"
    and "length ds = length cs" and "\<forall>d \<in> set ds. length d \<le> max_dg"
proof -
  obtain al where al: "address_len t = Inr al" using encode_packets_address [OF assms(1)] by blast
  let ?cs = "pieces (max_dg - (10 + al)) payload"
  note nth = encode_packets_nth [OF assms(1) al] and dec = packets_decode [OF assms(1) al assms(2,3)]
  have "tuic_dec (ds ! j) = Some ((assoc, pkt), length ?cs, j, ?cs ! j)" if "j < length ?cs" for j
  proof -
    have "unat (of_nat (length ?cs) :: u8) = length ?cs" "unat (of_nat j :: u8) = j"
      using nth that by (auto intro!: unat_of_nat_u8)
    then show ?thesis using dec [of j] that nth by (simp add: tuic_dec_def)
  qed
  then have "pieces_of tuic_dec ds (assoc, pkt) ?cs" using nth by (simp add: pieces_of_def)
  moreover have "concat ?cs = payload" by (rule concat_pieces) (use nth in simp)
  moreover have "\<forall>d \<in> set ds. length d \<le> max_dg" using dec by (auto simp: in_set_conv_nth)
  ultimately show thesis using that nth by blast
qed

section \<open>Properties\<close>

text \<open>
  Decoding a TUIC datagram is memory safe: whatever bytes arrive, the decoder answers with a
  packet or an error and never indexes or slices outside the datagram.
\<close>

theorem tuic_decode_never_panics: "decode_packet dg \<noteq> Inl Panic"
  by (rule decode_packet_safe)

text \<open>
  C13. End to end, a UDP packet crosses TUIC whole: the datagrams of a sent packet each fit the
  datagram size, and whichever order they arrive in, with any duplicates, within ten seconds, at a
  relay that has no partial packet of that id, the flow receives exactly the payload at the
  arrival of the last missing datagram, and nothing before.
\<close>

theorem tuic_udp_end_to_end:
  assumes enc: "encode_packets assoc pkt t payload max_dg = Inr ds" and "target_wf t" and "max_dg \<le> 65535"
    and "tuic_wf s" and "map_of (reasm_map s) (assoc, pkt) = None" and "length (reasm_map s) < MAX_REASM"
    and "flows s assoc = Some q" and "alive assoc"
    and "timely t0 (length ds) (js @ [x])" and "snd ` set js \<noteq> {..<length ds}"
    and "insert (snd x) (snd ` set js) = {..<length ds}"
  shows "(\<forall>d \<in> set ds. length d \<le> max_dg)
    \<and> flows (recv_all recv_datagram alive s (map (\<lambda>y. (fst y, ds ! snd y)) js)) assoc = Some q
    \<and> flows (recv_all recv_datagram alive s (map (\<lambda>y. (fst y, ds ! snd y)) (js @ [x]))) assoc = Some (q @ [payload])"
proof -
  obtain cs where cs: "pieces_of tuic_dec ds (assoc, pkt) cs" "concat cs = payload" "length ds = length cs"
      "\<forall>d \<in> set ds. length d \<le> max_dg"
    by (rule packets_pieces [OF assms(1-3)])
  show ?thesis
    using tuic_relay.end_to_end [of ds assoc pkt cs s q alive t0 js x] assms(4-) cs by (simp add: tuic_wf_def)
qed

text \<open>
  Registration never disturbs a live flow and never gives up early: a returned id is non-zero,
  was free and is now registered with an empty queue, every other flow is untouched; no id is
  returned only when all 65535 non-zero ids are in use.
\<close>

theorem tuic_register_fresh:
  "case register s of
     (s', Some i) \<Rightarrow> i \<noteq> 0 \<and> flows s i = None \<and> flows s' = (flows s)(i \<mapsto> [])
   | (s', None) \<Rightarrow> flows s' = flows s \<and> dom (flows s) \<union> {0} = UNIV"
proof -
  obtain s' r where r: "register s = (s', r)" by fastforce
  show ?thesis
  proof (cases r)
    case None
    have loop: "register_loop 65536 s = (s', None)" using r None by (simp only: register_def)
    have "i = 0 \<or> flows s i \<noteq> None" for i
    proof -
      have "next_assoc s + of_nat (unat (i - next_assoc s)) = i" by simp
      then show ?thesis using register_loop_None [OF loop] unat_u16_less [of "i - next_assoc s"] by metis
    qed
    then show ?thesis using register_loop_None [OF loop] r None by auto
  next
    case (Some i)
    then have "register_loop 65536 s = (s', Some i)" using r by (simp only: register_def)
    from register_loop_Some [OF this] show ?thesis using r Some by simp
  qed
qed

text \<open>
  The relay survives any traffic: after any sequence of arriving datagrams, of any content, at
  any times, from a consistent state, the reassembly table is still consistent and within its limit
  of 256 partial packets.
\<close>

theorem tuic_relay_sound:
  assumes "tuic_wf s"
  shows "tuic_wf (foldl (\<lambda>s (now, alive, dg). recv_datagram now alive s dg) s events)
    \<and> length (reasm_map (foldl (\<lambda>s (now, alive, dg). recv_datagram now alive s dg) s events)) \<le> 256"
  using tuic_relay.machine.run_inv [of s events] assms by (simp add: tuic_wf_def reasm_wf_def MAX_REASM_def)

section \<open>Witnesses\<close>

definition sample_relay :: tuic_udp where
  "sample_relay = tuic_start\<lparr>flows := [9 \<mapsto> []]\<rparr>"

lemma sample_packets:
  "\<exists>d0 d1. encode_packets 9 1 (Socket (SockV4 1 53)) [1, 2, 3] 19 = Inr [d0, d1]"
  by (simp add: encode_packets_def encode_packet_one_def div_ceil_def chunks.simps Let_def)

theorem tuic_udp_end_to_end_witness:
  "\<exists>ds. encode_packets 9 1 (Socket (SockV4 1 53)) [1, 2, 3] 19 = Inr ds
     \<and> flows (recv_all recv_datagram (\<lambda>_. True) sample_relay [(0, ds ! 1), (1, ds ! 1), (2, ds ! 0)]) 9 = Some [[1, 2, 3]]"
proof -
  obtain d0 d1 where ds: "encode_packets 9 1 (Socket (SockV4 1 53)) [1, 2, 3] 19 = Inr [d0, d1]"
    using sample_packets by blast
  show ?thesis
    using tuic_udp_end_to_end [OF ds, of sample_relay "[]" "\<lambda>_. True" 0 "[(0, 1), (1, 1)]" "(2, 0)"] ds
    by (simp add: sample_relay_def tuic_start_def tuic_wf_def reasm_wf_def MAX_REASM_def REASM_TTL_def
        timely_def lessThan_Suc insert_commute)
qed

theorem tuic_relay_sound_witness:
  "length (reasm_map (foldl (\<lambda>s (now, alive, dg). recv_datagram now alive s dg) tuic_start [(0, \<lambda>_. True, [5, 2])])) \<le> 256"
  using tuic_relay_sound [of tuic_start "[(0, \<lambda>_. True, [5, 2])]"]
  by (simp add: tuic_wf_def tuic_start_def reasm_wf_def)

end
