(* ===== verification/Hysteria2.thy ===== *)
theory Hysteria2
  imports Target Relay
begin

text \<open>
  \<open>crates/net/src/hysteria2/proto.rs\<close> and \<open>crates/net/src/hysteria2/udp.rs\<close>: QUIC varints, the TCP
  request and response, UDP datagrams with fragmentation, and the relay state. The varint reader
  inverts the writer below \<open>2 ^ 62\<close>, datagram decoding never indexes out of bounds, and the relay
  satisfies the contract of \<open>Relay\<close>.
\<close>

section \<open>QUIC varints\<close>

definition quic_put_varint :: "u64 \<Rightarrow> bytes" where
  "quic_put_varint v =
     (if v < 2 ^ 6 then [ucast v]
      else if v < 2 ^ 14 then be16 (ucast v OR 0x4000)
      else if v < 2 ^ 30 then be32 (ucast v OR 0x80000000)
      else be_bytes 8 (v OR 0xC000000000000000))"

definition varint_extra :: "u8 \<Rightarrow> nat" where
  "varint_extra tg = (if tg = 0 then 0 else if tg = 1 then 1 else if tg = 2 then 3 else 7)"

fun read_varint_bytes :: "nat \<Rightarrow> u64 \<Rightarrow> bytes \<Rightarrow> io_error + u64 \<times> bytes" where
  "read_varint_bytes 0 val r = Inr (val, r)"
| "read_varint_bytes (Suc n) val r =
     rbind (read_u8 r) (\<lambda>(b, r). read_varint_bytes n (push_bit 8 val OR ucast b) r)"

definition quic_read_varint :: "bytes \<Rightarrow> io_error + u64 \<times> bytes" where
  "quic_read_varint r =
     rbind (read_u8 r) (\<lambda>(first, r).
       read_varint_bytes (varint_extra (drop_bit 6 first)) (ucast (first AND 0x3F)) r)"

definition read_varint_buf :: "bytes \<Rightarrow> (u64 \<times> nat) option" where
  "read_varint_buf buf =
     (case buf of [] \<Rightarrow> None
      | first # rest \<Rightarrow>
          (let extra = varint_extra (drop_bit 6 first)
           in if length buf < 1 + extra then None
              else Some (foldl (\<lambda>val b. push_bit 8 val OR ucast b) (ucast (first AND 0x3F)) (take extra rest),
                         1 + extra)))"

section \<open>TCP requests\<close>

definition encode_tcp_request :: "target \<Rightarrow> bytes" where
  "encode_tcp_request t =
     (let addr = str_bytes (show_target t)
      in quic_put_varint 0x401 @ quic_put_varint (of_nat (length addr)) @ addr @ quic_put_varint 0)"

record tcp_response =
  rsp_ok :: bool
  rsp_message :: string

definition read_bounded_string :: "bytes \<Rightarrow> u64 \<Rightarrow> io_error + string \<times> bytes" where
  "read_bounded_string r len =
     (if 4096 < len then Inl (IoOther ''hysteria2: message'')
      else rbind (read_exact (unat len) r) (\<lambda>(buf, r). Inr (from_utf8_lossy buf, r)))"

function skip_loop :: "bytes \<Rightarrow> nat \<Rightarrow> io_error + bytes" where
  "skip_loop r left =
     (if left = 0 then Inr r
      else let n = min left 1024 in rbind (read_exact n r) (\<lambda>(_, r). skip_loop r (left - n)))"
  by pat_completeness auto
termination
  by (relation "measure snd") auto

declare skip_loop.simps [simp del]

definition skip_padding :: "bytes \<Rightarrow> u64 \<Rightarrow> io_error + bytes" where
  "skip_padding r n = (if 2 ^ 20 < n then Inl (IoOther ''hysteria2: padding'') else skip_loop r (unat n))"

definition read_tcp_response :: "bytes \<Rightarrow> io_error + tcp_response \<times> bytes" where
  "read_tcp_response r =
     rbind (read_u8 r) (\<lambda>(status, r).
     rbind (quic_read_varint r) (\<lambda>(msg_len, r).
     rbind (read_bounded_string r msg_len) (\<lambda>(msg, r).
     rbind (quic_read_varint r) (\<lambda>(pad_len, r).
     rbind (skip_padding r pad_len) (\<lambda>r.
       Inr (\<lparr>rsp_ok = (status = 0), rsp_message = msg\<rparr>, r))))))"

section \<open>UDP datagrams\<close>

record udp_head =
  uh_session :: u32
  uh_pkt_id :: u16
  uh_frag_id :: u8
  uh_frag_total :: u8

fun encode_udp_loop :: "bytes \<Rightarrow> nat \<Rightarrow> bytes \<Rightarrow> u32 \<Rightarrow> u16 \<Rightarrow> nat \<Rightarrow> nat list \<Rightarrow> io_error + bytes list" where
  "encode_udp_loop addr cap payload session pkt ftotal [] = Inr []"
| "encode_udp_loop addr cap payload session pkt ftotal (i # is) =
     (let start = i * cap; end' = min (start + cap) (length payload)
      in rbind (slice payload start end') (\<lambda>piece.
         rbind (encode_udp_loop addr cap payload session pkt ftotal is) (\<lambda>ds.
           Inr ((be32 session @ be16 pkt @ [of_nat i, of_nat ftotal]
                 @ quic_put_varint (of_nat (length addr)) @ addr @ piece) # ds))))"

definition encode_udp_packets :: "u32 \<Rightarrow> u16 \<Rightarrow> target \<Rightarrow> bytes \<Rightarrow> nat \<Rightarrow> io_error + bytes list" where
  "encode_udp_packets session pkt t payload max_datagram =
     (let addr = str_bytes (show_target t);
          header = 4 + 2 + 1 + 1 + length (quic_put_varint (of_nat (length addr))) + length addr
      in if max_datagram \<le> header then Inl (IoOther ''hysteria2: datagram'')
         else let cap = max_datagram - header; ftotal = max (div_ceil (length payload) cap) 1
              in if 255 < ftotal then Inl (IoOther ''hysteria2: fragments'')
                 else encode_udp_loop addr cap payload session pkt ftotal [0..<ftotal])"

definition decode_udp_packet :: "bytes \<Rightarrow> io_error + udp_head \<times> bytes" where
  "decode_udp_packet dg =
     (if length dg < 8 then Inl (IoOther ''hysteria2: short'')
      else rbind (slice dg 0 4) (\<lambda>s4. rbind (index_u16 dg 4) (\<lambda>pkt.
           rbind (index dg 6) (\<lambda>fid. rbind (index dg 7) (\<lambda>ftotal.
             if ftotal = 0 \<or> ftotal \<le> fid then Inl (IoOther ''hysteria2: frag'')
             else rbind (slice dg 8 (length dg)) (\<lambda>tail.
                  rbind (ok_or (read_varint_buf tail) (IoOther ''hysteria2: addr-len'')) (\<lambda>(addr_len, consumed).
                    let off = 8 + consumed + unat addr_len
                    in if length dg < off then Inl (IoOther ''hysteria2: addr'')
                       else rbind (slice dg off (length dg)) (\<lambda>p.
                         Inr (\<lparr>uh_session = from_be s4, uh_pkt_id = pkt, uh_frag_id = fid,
                                uh_frag_total = ftotal\<rparr>, p)))))))))"

section \<open>Relay state\<close>

record hysteria2_udp =
  next_session :: u32
  hy_next_pkt :: u16
  hy_flows :: "u32 \<rightharpoonup> bytes list"
  hy_reasm :: "(u32 \<times> u16) reasm_map"

definition hysteria2_start :: hysteria2_udp where
  "hysteria2_start = \<lparr>next_session = 1, hy_next_pkt = 1, hy_flows = Map.empty, hy_reasm = []\<rparr>"

fun hy_register_loop :: "nat \<Rightarrow> hysteria2_udp \<Rightarrow> hysteria2_udp \<times> u32 option" where
  "hy_register_loop 0 s = (s, None)"
| "hy_register_loop (Suc n) s =
     (let i = next_session s; s = s\<lparr>next_session := i + 1\<rparr>
      in if i \<noteq> 0 \<and> hy_flows s i = None then (s\<lparr>hy_flows := (hy_flows s)(i \<mapsto> [])\<rparr>, Some i)
         else hy_register_loop n s)"

definition hy_register :: "hysteria2_udp \<Rightarrow> hysteria2_udp \<times> u32 option" where
  "hy_register s = hy_register_loop 1024 s"

definition hy_send ::
    "nat option \<Rightarrow> hysteria2_udp \<Rightarrow> u32 \<Rightarrow> target \<Rightarrow> bytes \<Rightarrow> hysteria2_udp \<times> (io_error + bytes list)" where
  "hy_send max_datagram s session t payload =
     (case max_datagram of None \<Rightarrow> (s, Inl (IoOther ''hysteria2: datagrams''))
      | Some m \<Rightarrow> (s\<lparr>hy_next_pkt := hy_next_pkt s + 1\<rparr>, encode_udp_packets session (hy_next_pkt s) t payload m))"

definition hy_close :: "hysteria2_udp \<Rightarrow> u32 \<Rightarrow> hysteria2_udp" where
  "hy_close s session = s\<lparr>hy_flows := (hy_flows s)(session := None)\<rparr>"

definition hy_recv_datagram :: "nat \<Rightarrow> (u32 \<Rightarrow> bool) \<Rightarrow> hysteria2_udp \<Rightarrow> bytes \<Rightarrow> hysteria2_udp" where
  "hy_recv_datagram now alive s dg =
     (case decode_udp_packet dg of
        Inl _ \<Rightarrow> s
      | Inr (head, frag) \<Rightarrow>
          (let (s, full) =
             (if uh_frag_total head \<le> 1 then (s, Some frag)
              else let (m, r) = reassemble now (hy_reasm s) (uh_session head, uh_pkt_id head)
                                  (unat (uh_frag_total head)) (unat (uh_frag_id head)) frag
                   in (s\<lparr>hy_reasm := m\<rparr>, (case r of Inr p \<Rightarrow> p | Inl _ \<Rightarrow> None)))
           in case full of None \<Rightarrow> s
              | Some payload \<Rightarrow>
                  (case hy_flows s (uh_session head) of None \<Rightarrow> s
                   | Some q \<Rightarrow> if alive (uh_session head)
                                then s\<lparr>hy_flows := (hy_flows s)(uh_session head \<mapsto> q @ [payload])\<rparr>
                                else s\<lparr>hy_flows := (hy_flows s)(uh_session head := None)\<rparr>)))"

section \<open>Varint round trip\<close>

lemma be_bytes_cong:
  fixes x :: "'a::len word" and y :: "'b::len word"
  assumes "\<And>i. i < 8 * n \<Longrightarrow> bit x i = bit y i"
  shows "be_bytes n x = be_bytes n y"
  using assms
proof (induction n)
  case (Suc n)
  have "ucast (drop_bit (8 * n) x) = (ucast (drop_bit (8 * n) y) :: u8)"
    using Suc.prems by (intro bit_word_eqI) (auto simp: bit_simps)
  then show ?case using Suc by simp
qed simp

lemma bits_below: "unat (v :: 'a::len word) < 2 ^ k \<Longrightarrow> bit v i \<Longrightarrow> i < k"
proof -
  assume "unat v < 2 ^ k" and "bit v i"
  then have "take_bit k (unat v) = unat v" by (simp add: take_bit_nat_eq_self_iff)
  then have "take_bit k v = v" by (simp add: word_unat_eq_iff unsigned_take_bit_eq)
  then show ?thesis using \<open>bit v i\<close> by (metis bit_take_bit_iff)
qed

lemma numeral_3F: "(0x3F :: u8) = mask 6"
  by (simp add: mask_numeral)

lemma bit_3F: "bit (0x3F :: u8) i \<longleftrightarrow> i < 6"
  unfolding numeral_3F by (auto simp: bit_simps)

text \<open>A tagged big-endian word: the two top bits are the tag, the others those of the value.\<close>

lemma tagged_head:
  fixes w :: "'a::len word" and v :: u64
  assumes len: "LENGTH('a) = 8 * n + 8" and low: "\<And>i. i < 8 * n + 6 \<Longrightarrow> bit w i = bit v i"
    and small: "unat v < 2 ^ (8 * n + 6)"
  defines "first \<equiv> ucast (drop_bit (8 * n) w) :: u8"
  shows "be_bytes (Suc n) w = first # be_bytes n v" and "ucast (first AND 0x3F) = drop_bit (8 * n) v"
    and "\<And>i. bit (drop_bit 6 first) i \<longleftrightarrow> i < 2 \<and> bit w (8 * n + 6 + i)"
proof -
  show "be_bytes (Suc n) w = first # be_bytes n v"
    using be_bytes_cong [of n w v] low by (simp add: first_def)
  have "bit (ucast (first AND 0x3F) :: u64) i = bit (drop_bit (8 * n) v) i" if "i < 64" for i
    using low [of "8 * n + i"] bits_below [OF small, of "8 * n + i"] that
    unfolding first_def by (simp only: bit_and_iff bit_ucast_iff bit_drop_bit_eq bit_3F o_apply) auto
  then show "ucast (first AND 0x3F) = drop_bit (8 * n) v" by (intro bit_word_eqI) simp
  show "bit (drop_bit 6 first) i \<longleftrightarrow> i < 2 \<and> bit w (8 * n + 6 + i)" for i
    using bit_imp_le_length [of w "8 * n + 6 + i"] len
    by (auto simp: first_def bit_ucast_iff bit_drop_bit_eq add.assoc add.left_commute)
qed

lemma numeral_3: "(3 :: u8) = mask 2"
  by (simp add: mask_numeral)

lemma bit_small: "bit (1 :: u8) i \<longleftrightarrow> i = 0" "bit (2 :: u8) i \<longleftrightarrow> i = 1" "bit (3 :: u8) i \<longleftrightarrow> i < 2"
proof -
  show "bit (1 :: u8) i \<longleftrightarrow> i = 0" by (auto simp: bit_1_iff)
  show "bit (2 :: u8) i \<longleftrightarrow> i = 1" using bit_exp_iff [of 1 i, where 'a = "8 word"] by auto
  show "bit (3 :: u8) i \<longleftrightarrow> i < 2" unfolding numeral_3 by (auto simp: bit_mask_iff)
qed

lemma small_words:
  "(\<And>i. bit (x :: u8) i \<longleftrightarrow> i < 2 \<and> i = 0) \<Longrightarrow> x = 1"
  "(\<And>i. bit (x :: u8) i \<longleftrightarrow> i < 2 \<and> i = 1) \<Longrightarrow> x = 2"
  "(\<And>i. bit (x :: u8) i \<longleftrightarrow> i < 2) \<Longrightarrow> x = 3"
  by (rule bit_word_eqI, force simp only: bit_small)+

lemma bit_tags:
  "bit (0x4000 :: u16) i \<longleftrightarrow> i = 14" "bit (0x80000000 :: u32) i \<longleftrightarrow> i = 31"
  "bit (0xC000000000000000 :: u64) i \<longleftrightarrow> i = 62 \<or> i = 63"
proof -
  show "bit (0x4000 :: u16) i \<longleftrightarrow> i = 14" using bit_exp_iff [of 14 i, where 'a = "16 word"] by auto
  show "bit (0x80000000 :: u32) i \<longleftrightarrow> i = 31" using bit_exp_iff [of 31 i, where 'a = "32 word"] by auto
  have "(0xC000000000000000 :: u64) = 2 ^ 62 OR 2 ^ 63" by simp
  then show "bit (0xC000000000000000 :: u64) i \<longleftrightarrow> i = 62 \<or> i = 63"
    using bit_exp_iff [of 62 i, where 'a = "64 word"] bit_exp_iff [of 63 i, where 'a = "64 word"]
    by (auto simp only: bit_or_iff possible_bit_word) auto
qed

lemma quic_put_varint_shape:
  assumes "v < 2 ^ 62"
  obtains first n where "quic_put_varint v = first # be_bytes n v"
    and "varint_extra (drop_bit 6 first) = n" and "ucast (first AND 0x3F) = drop_bit (8 * n) v"
proof -
  have v: "unat v < 2 ^ 62" using assms by (simp add: word_less_nat_alt)
  consider (1) "unat v < 2 ^ 6" | (2) "2 ^ 6 \<le> unat v" "unat v < 2 ^ 14"
    | (4) "2 ^ 14 \<le> unat v" "unat v < 2 ^ 30" | (8) "2 ^ 30 \<le> unat v" by linarith
  then show thesis
  proof cases
    case 1
    have enc: "quic_put_varint v = [ucast v]" using 1 by (simp add: quic_put_varint_def word_less_nat_alt)
    have "drop_bit 6 (ucast v :: u8) = 0"
      by (rule bit_word_eqI) (auto simp: bit_ucast_iff bit_drop_bit_eq dest: bits_below [OF 1])
    moreover have "ucast ((ucast v :: u8) AND 0x3F) = v"
      by (rule bit_word_eqI, simp only: bit_and_iff bit_ucast_iff bit_3F) (auto dest: bits_below [OF 1])
    ultimately show thesis using that [of "ucast v" 0] enc by (simp add: varint_extra_def)
  next
    case 2
    let ?w = "ucast v OR 0x4000 :: u16"
    have suc: "Suc 1 = 2" by simp
    have enc: "quic_put_varint v = be_bytes (Suc 1) ?w"
      unfolding suc using 2 by (simp add: quic_put_varint_def word_less_nat_alt)
    have low: "bit ?w i = bit v i" if "i < 8 * 1 + 6" for i
      using that by (simp only: bit_or_iff bit_ucast_iff bit_tags) auto
    have small: "unat v < 2 ^ (8 * 1 + 6)" using 2 by simp
    have len: "LENGTH(16) = 8 * 1 + 8" by simp
    note h = tagged_head [OF len low small]
    have "drop_bit 6 (ucast (drop_bit (8 * 1) ?w) :: u8) = 1"
      by (rule small_words(1), simp only: h(3), simp only: bit_or_iff bit_ucast_iff bit_tags)
        (auto dest: bits_below [OF small])
    then show thesis using that [OF _ _ h(2)] enc h(1) by (simp add: varint_extra_def)
  next
    case 4
    let ?w = "ucast v OR 0x80000000 :: u32"
    have suc: "Suc 3 = 4" by simp
    have enc: "quic_put_varint v = be_bytes (Suc 3) ?w"
      unfolding suc using 4 by (simp add: quic_put_varint_def word_less_nat_alt)
    have low: "bit ?w i = bit v i" if "i < 8 * 3 + 6" for i
      using that by (simp only: bit_or_iff bit_ucast_iff bit_tags) auto
    have small: "unat v < 2 ^ (8 * 3 + 6)" using 4 by simp
    have len: "LENGTH(32) = 8 * 3 + 8" by simp
    note h = tagged_head [OF len low small]
    have "drop_bit 6 (ucast (drop_bit (8 * 3) ?w) :: u8) = 2"
      by (rule small_words(2), simp only: h(3), simp only: bit_or_iff bit_ucast_iff bit_tags)
        (auto dest: bits_below [OF small])
    then show thesis using that [OF _ _ h(2)] enc h(1) by (simp add: varint_extra_def)
  next
    case 8
    let ?w = "v OR 0xC000000000000000 :: u64"
    have suc: "Suc 7 = 8" by simp
    have enc: "quic_put_varint v = be_bytes (Suc 7) ?w"
      unfolding suc using 8 by (simp add: quic_put_varint_def word_less_nat_alt)
    have low: "bit ?w i = bit v i" if "i < 8 * 7 + 6" for i
      using that by (simp only: bit_or_iff bit_tags) auto
    have small: "unat v < 2 ^ (8 * 7 + 6)" using v by simp
    have len: "LENGTH(64) = 8 * 7 + 8" by simp
    note h = tagged_head [OF len low small]
    have "drop_bit 6 (ucast (drop_bit (8 * 7) ?w) :: u8) = 3"
      by (rule small_words(3), simp only: h(3), simp only: bit_or_iff bit_tags)
        (auto dest: bits_below [OF small])
    then show thesis using that [OF _ _ h(2)] enc h(1) by (simp add: varint_extra_def)
  qed
qed

lemma read_varint_bytes_append:
  "n = length bs \<Longrightarrow> read_varint_bytes n val (bs @ r) = Inr (from_be_acc val bs, r)"
  by (induction bs arbitrary: n val) auto

lemma quic_read_put [codec_simps]:
  assumes "v < 2 ^ 62"
  shows "quic_read_varint (quic_put_varint v @ r) = Inr (v, r)"
    and "read_varint_buf (quic_put_varint v @ r) = Some (v, length (quic_put_varint v))"
proof -
  obtain first n where s: "quic_put_varint v = first # be_bytes n v"
      "varint_extra (drop_bit 6 first) = n" "ucast (first AND 0x3F) = drop_bit (8 * n) v"
    by (rule quic_put_varint_shape [OF assms])
  show "quic_read_varint (quic_put_varint v @ r) = Inr (v, r)"
    by (simp add: quic_read_varint_def s read_varint_bytes_append from_be_acc_be_bytes)
  show "read_varint_buf (quic_put_varint v @ r) = Some (v, length (quic_put_varint v))"
    using from_be_acc_be_bytes [of n v] by (simp add: read_varint_buf_def s from_be_acc_def)
qed

interpretation quic_varint: codec quic_put_varint "\<lambda>bs. result_ok (quic_read_varint bs)" "\<lambda>v. v < 2 ^ 62"
  by unfold_locales (simp add: quic_read_put)

section \<open>Responses\<close>

lemma skip_loop_append: "skip_loop (xs @ r) (length xs) = Inr r"
proof (induction "length xs" arbitrary: xs rule: less_induct)
  case less
  show ?case
  proof (cases "xs = []")
    case True
    then show ?thesis by (simp add: skip_loop.simps [of _ 0])
  next
    case False
    let ?n = "min (length xs) 1024"
    have "read_exact ?n (xs @ r) = Inr (take ?n xs, drop ?n xs @ r)" by (simp add: read_exact_def)
    moreover have "skip_loop (drop ?n xs @ r) (length (drop ?n xs)) = Inr r"
      by (rule less) (use False in auto)
    ultimately show ?thesis using False by (subst skip_loop.simps) (simp add: Let_def)
  qed
qed

section \<open>Datagrams\<close>

lemma decode_udp_packet_safe: "decode_udp_packet dg \<noteq> Inl Panic"
  by (auto simp: decode_udp_packet_def Let_def rbind_eq_Inl not_less split: prod.splits)

lemma decode_udp_packet_frag:
  "decode_udp_packet dg = Inr (head, p) \<Longrightarrow> unat (uh_frag_id head) < unat (uh_frag_total head)"
  by (auto simp: decode_udp_packet_def Let_def word_le_nat_alt split: if_splits prod.splits)

lemma decode_udp_datagram:
  assumes "i < n" and "length addr < 2 ^ 62"
  shows "decode_udp_packet (be32 session @ be16 pkt @ [i, n] @ quic_put_varint (of_nat (length addr)) @ addr @ piece)
    = Inr (\<lparr>uh_session = session, uh_pkt_id = pkt, uh_frag_id = i, uh_frag_total = n\<rparr>, piece)"
proof -
  let ?v = "quic_put_varint (of_nat (length addr))"
  define h where "h = be32 session @ be16 pkt @ [i, n]"
  define dg where "dg = h @ ?v @ addr @ piece"
  have len: "length h = 8" "length (be32 session @ be16 pkt) = 6" by (simp_all add: h_def)
  have u: "unat (of_nat (length addr) :: u64) = length addr"
    by (rule unat_of_nat_u64) (use assms(2) in simp)
  then have "(of_nat (length addr) :: u64) < 2 ^ 62" using assms(2) by (simp add: word_less_nat_alt)
  note v = quic_read_put(2) [OF this]
  have "slice dg 0 4 = Inr (be32 session)" by (simp add: slice_def dg_def h_def)
  moreover have "index_u16 dg 4 = Inr pkt"
    using index_u16_append [of "be32 session" pkt "[i, n] @ ?v @ addr @ piece"] by (simp add: dg_def h_def)
  moreover have "index dg 6 = Inr i" "index dg 7 = Inr n"
    using len(2) by (simp_all add: index_def dg_def h_def nth_append)
  moreover have "slice dg 8 (length dg) = Inr (?v @ addr @ piece)"
    using len(1) by (simp add: slice_def dg_def)
  moreover have "slice dg (8 + length ?v + length addr) (length dg) = Inr piece"
    using slice_append [of "length dg" "h @ ?v @ addr" piece "[]"] len(1) by (simp add: dg_def)
  moreover have "n \<noteq> 0" using assms(1) by (auto simp: word_less_nat_alt)
  ultimately have "decode_udp_packet dg =
      Inr (\<lparr>uh_session = session, uh_pkt_id = pkt, uh_frag_id = i, uh_frag_total = n\<rparr>, piece)"
    using assms(1) len(1) v u by (simp add: decode_udp_packet_def Let_def not_le dg_def)
  then show ?thesis by (simp add: dg_def h_def)
qed

section \<open>Fragmentation\<close>

lemma encode_udp_loop_nth:
  assumes "\<forall>i \<in> set is. i * cap \<le> length payload"
  shows "\<exists>ds. encode_udp_loop addr cap payload session pkt n is = Inr ds \<and> length ds = length is \<and>
    (\<forall>j < length is. ds ! j = be32 session @ be16 pkt @ [of_nat (is ! j), of_nat n]
       @ quic_put_varint (of_nat (length addr)) @ addr @ take cap (drop (is ! j * cap) payload))"
  using assms
proof (induction "is")
  case (Cons i "is")
  have piece: "slice payload (i * cap) (min (i * cap + cap) (length payload)) = Inr (take cap (drop (i * cap) payload))"
    using Cons.prems by (simp add: slice_def min_def)
  obtain ds where ds: "encode_udp_loop addr cap payload session pkt n is = Inr ds" "length ds = length is"
      "\<forall>j < length is. ds ! j = be32 session @ be16 pkt @ [of_nat (is ! j), of_nat n]
         @ quic_put_varint (of_nat (length addr)) @ addr @ take cap (drop (is ! j * cap) payload)"
    using Cons by auto
  let ?d = "be32 session @ be16 pkt @ [of_nat i, of_nat n]
    @ quic_put_varint (of_nat (length addr)) @ addr @ take cap (drop (i * cap) payload)"
  have "encode_udp_loop addr cap payload session pkt n (i # is) = Inr (?d # ds)"
    using piece ds(1) by (simp add: Let_def)
  moreover have "(?d # ds) ! j = be32 session @ be16 pkt @ [of_nat ((i # is) ! j), of_nat n]
      @ quic_put_varint (of_nat (length addr)) @ addr @ take cap (drop ((i # is) ! j * cap) payload)"
    if "j < length (i # is)" for j
    using that ds(3) by (cases j) auto
  ultimately show ?case using ds(2) by auto
qed simp

lemma piece_start: "0 < cap \<Longrightarrow> i < max (div_ceil len cap) 1 \<Longrightarrow> i * cap \<le> len"
proof (cases "i = 0")
  case False
  assume "0 < cap" and "i < max (div_ceil len cap) 1"
  then have "i \<le> len div cap" using False by (auto simp: div_ceil_def split: if_splits)
  then show ?thesis using \<open>0 < cap\<close> by (simp add: less_eq_div_iff_mult_less_eq)
qed simp

definition hy_dec :: "bytes \<Rightarrow> ((u32 \<times> u16) \<times> nat \<times> nat \<times> bytes) option" where
  "hy_dec dg = map_option (\<lambda>(h, f). ((uh_session h, uh_pkt_id h), unat (uh_frag_total h), unat (uh_frag_id h), f))
     (result_ok (decode_udp_packet dg))"

lemma udp_packets_pieces:
  assumes "encode_udp_packets session pkt t payload max_dg = Inr ds" and "max_dg < 2 ^ 62"
  obtains cs where "pieces_of hy_dec ds (session, pkt) cs" and "concat cs = payload"
    and "length ds = length cs" and "\<forall>d \<in> set ds. length d \<le> max_dg"
proof -
  define addr where "addr = str_bytes (show_target t)"
  define header where "header = 8 + length (quic_put_varint (of_nat (length addr))) + length addr"
  define cap where "cap = max_dg - header"
  define n where "n = max (div_ceil (length payload) cap) 1"
  have room: "header < max_dg" "n \<le> 255"
      and enc: "encode_udp_loop addr cap payload session pkt n [0..<n] = Inr ds"
    using assms(1) by (auto simp: encode_udp_packets_def Let_def n_def cap_def header_def addr_def split: if_splits)
  have cap: "0 < cap" using room by (simp add: cap_def)
  let ?cs = "pieces cap payload"
  have n: "length ?cs = n" using length_pieces [OF cap] by (simp add: n_def max.commute)
  have addr: "length addr < 2 ^ 62" using room assms(2) by (simp add: header_def)
  have "\<forall>i \<in> set [0..<n]. i * cap \<le> length payload" using piece_start [OF cap] by (simp add: n_def)
  from encode_udp_loop_nth [OF this, of addr session pkt n] enc
  have len: "length ds = n" and nth: "\<And>j. j < n \<Longrightarrow> ds ! j = be32 session @ be16 pkt @ [of_nat j, of_nat n]
      @ quic_put_varint (of_nat (length addr)) @ addr @ ?cs ! j"
    using nth_pieces [OF cap, of _ payload] n by auto
  have "hy_dec (ds ! j) = Some ((session, pkt), length ?cs, j, ?cs ! j)" if "j < length ?cs" for j
  proof -
    have u: "unat (of_nat n :: u8) = n" "unat (of_nat j :: u8) = j"
      using that n room(2) by (auto intro!: unat_of_nat_u8)
    then have "(of_nat j :: u8) < of_nat n" using that n by (simp add: word_less_nat_alt)
    from decode_udp_datagram [OF this addr] nth [of j] that n u show ?thesis by (simp add: hy_dec_def)
  qed
  then have "pieces_of hy_dec ds (session, pkt) ?cs" using len n by (simp add: pieces_of_def)
  moreover have "length (ds ! j) \<le> max_dg" if "j < n" for j
    using nth [OF that] piece_length [of "?cs ! j" cap payload] that n room(1) by (simp add: cap_def header_def)
  then have "\<forall>d \<in> set ds. length d \<le> max_dg" using len by (auto simp: in_set_conv_nth)
  ultimately show thesis using that [of ?cs] concat_pieces [OF cap] len n by simp
qed

section \<open>The relay\<close>

interpretation hysteria2_relay: datagram_relay hy_dec hy_recv_datagram hy_flows hy_reasm
proof
  fix dg k n j f
  assume "hy_dec dg = Some (k, n, j, f)"
  then show "j < n" by (auto simp: hy_dec_def dest: decode_udp_packet_frag)
next
  fix dg now alive s
  assume "hy_dec dg = None"
  then show "hy_recv_datagram now alive s dg = s"
    by (cases "decode_udp_packet dg") (auto simp: hy_dec_def hy_recv_datagram_def)
next
  fix dg i p n j f now alive s
  assume "hy_dec dg = Some ((i, p), n, j, f)"
  then obtain h where h: "decode_udp_packet dg = Inr (h, f)" "uh_session h = i" "uh_pkt_id h = p"
      "unat (uh_frag_total h) = n" "unat (uh_frag_id h) = j"
    by (auto simp: hy_dec_def)
  have le: "uh_frag_total h \<le> 1 \<longleftrightarrow> n \<le> 1" using h(4) by (simp add: word_le_nat_alt)
  show "n \<le> 1 \<Longrightarrow> hy_reasm (hy_recv_datagram now alive s dg) = hy_reasm s
      \<and> hy_flows (hy_recv_datagram now alive s dg) = deliver alive (hy_flows s) i f"
    using h le by (simp add: hy_recv_datagram_def deliver_def split: option.splits)
  show "1 < n \<Longrightarrow> hy_reasm (hy_recv_datagram now alive s dg) = fst (arrive (hy_reasm s) (now, (i, p), n, j, f))
      \<and> hy_flows (hy_recv_datagram now alive s dg) = (case snd (arrive (hy_reasm s) (now, (i, p), n, j, f)) of
          Inr (Some payload) \<Rightarrow> deliver alive (hy_flows s) i payload | _ \<Rightarrow> hy_flows s)"
    using h le by (auto simp: hy_recv_datagram_def deliver_def arrive_def split: option.splits prod.splits sum.splits)
qed

section \<open>Properties\<close>

text \<open>
  The QUIC varint reader, on a stream or on a buffer, inverts the writer on every value below
  \<open>2 ^ 62\<close>, whatever follows, and both agree on the number of bytes used.
\<close>

theorem quic_varint_roundtrip:
  assumes "v < 2 ^ 62"
  shows "quic_read_varint (quic_put_varint v @ r) = Inr (v, r)
    \<and> read_varint_buf (quic_put_varint v @ r) = Some (v, length (quic_put_varint v))"
  using quic_read_put [OF assms] by blast

text \<open>
  A server response is read exactly or refused by size: message and padding are consumed to the
  byte; a message above 4096 bytes or a padding above one mebibyte is an error before any of it is
  read.
\<close>

theorem tcp_response_bounded:
  assumes "length msg < 2 ^ 62" and "length pad < 2 ^ 62"
  shows "read_tcp_response ([st] @ quic_put_varint (of_nat (length msg)) @ msg
      @ quic_put_varint (of_nat (length pad)) @ pad @ rest)
    = (if 4096 < length msg then Inl (IoOther ''hysteria2: message'')
       else if 2 ^ 20 < length pad then Inl (IoOther ''hysteria2: padding'')
       else Inr (\<lparr>rsp_ok = (st = 0), rsp_message = from_utf8_lossy msg\<rparr>, rest))"
proof -
  have small: "unat (of_nat (length xs) :: u64) = length xs" "(of_nat (length xs) :: u64) < 2 ^ 62"
    if "length xs < 2 ^ 62" for xs :: bytes
    using that by (simp_all add: word_less_nat_alt unat_of_nat_u64)
  show ?thesis
    using assms small [OF assms(1)] small [OF assms(2)]
    by (simp add: read_tcp_response_def quic_read_put read_bounded_string_def skip_padding_def
        word_less_nat_alt skip_loop_append)
qed

text \<open>
  C37. Hysteria2 datagrams are decoded without ever leaving the buffer, and end to end a UDP packet
  crosses whole: its datagrams fit the datagram size, and in any order of arrival, with duplicates,
  within ten seconds, the session receives exactly the payload when the last one arrives.
\<close>

theorem hysteria2_udp_end_to_end:
  assumes "encode_udp_packets session pkt t payload max_dg = Inr ds" and "max_dg < 2 ^ 62"
    and "reasm_wf (hy_reasm s)" and "map_of (hy_reasm s) (session, pkt) = None" and "length (hy_reasm s) < MAX_REASM"
    and "hy_flows s session = Some q" and "alive session"
    and "timely t0 (length ds) (js @ [x])" and "snd ` set js \<noteq> {..<length ds}"
    and "insert (snd x) (snd ` set js) = {..<length ds}"
  shows "decode_udp_packet dg \<noteq> Inl Panic \<and> (\<forall>d \<in> set ds. length d \<le> max_dg)
    \<and> hy_flows (recv_all hy_recv_datagram alive s (map (\<lambda>y. (fst y, ds ! snd y)) js)) session = Some q
    \<and> hy_flows (recv_all hy_recv_datagram alive s (map (\<lambda>y. (fst y, ds ! snd y)) (js @ [x]))) session
        = Some (q @ [payload])"
proof -
  obtain cs where cs: "pieces_of hy_dec ds (session, pkt) cs" "concat cs = payload" "length ds = length cs"
      "\<forall>d \<in> set ds. length d \<le> max_dg"
    by (rule udp_packets_pieces [OF assms(1,2)])
  show ?thesis
    using hysteria2_relay.end_to_end [of ds session pkt cs s q alive t0 js x] assms(3-) cs decode_udp_packet_safe
    by simp
qed

section \<open>Witnesses\<close>

theorem quic_varint_roundtrip_witness:
  "quic_read_varint (quic_put_varint 15293 @ [7]) = Inr (15293, [7])"
  using quic_varint_roundtrip [of 15293 "[7]"] by simp

theorem tcp_response_bounded_witness:
  "read_tcp_response ([0] @ quic_put_varint 2 @ [0x6F, 0x6B] @ quic_put_varint 0 @ [9])
   = Inr (\<lparr>rsp_ok = True, rsp_message = from_utf8_lossy [0x6F, 0x6B]\<rparr>, [9])"
  using tcp_response_bounded [of "[0x6F, 0x6B]" "[]" 0 "[9]"] by simp

definition sample_hy_relay :: hysteria2_udp where
  "sample_hy_relay = hysteria2_start\<lparr>hy_flows := [9 \<mapsto> []]\<rparr>"

theorem hysteria2_udp_end_to_end_witness:
  "\<exists>ds. encode_udp_packets 9 1 (Domain ''a'' 5) [1, 2, 3] 14 = Inr ds
     \<and> hy_flows (recv_all hy_recv_datagram (\<lambda>_. True) sample_hy_relay [(0, ds ! 1), (2, ds ! 0)]) 9 = Some [[1, 2, 3]]"
proof -
  have "\<exists>d0 d1. encode_udp_packets 9 1 (Domain ''a'' 5) [1, 2, 3] 14 = Inr [d0, d1]"
    by (simp add: encode_udp_packets_def div_ceil_def Let_def quic_put_varint_def slice_def
        upt_rec show_nat.simps)
  then obtain d0 d1 where ds: "encode_udp_packets 9 1 (Domain ''a'' 5) [1, 2, 3] 14 = Inr [d0, d1]" by blast
  show ?thesis
    using hysteria2_udp_end_to_end [OF ds, of sample_hy_relay "[]" "\<lambda>_. True" 0 "[(0, 1)]" "(2, 0)" "[]"] ds
    by (simp add: sample_hy_relay_def hysteria2_start_def reasm_wf_def MAX_REASM_def REASM_TTL_def
        timely_def lessThan_Suc insert_commute)
qed

end
