(* ===== verification/SlideBuffer.thy ===== *)
theory SlideBuffer
  imports Prelude
begin

text \<open>
  The sliding buffer of \<open>slide_buffer.rs\<close> and the reader over it of
  \<open>reality/reality_reader_writer.rs\<close>. The storage is a fixed array with a start and an end offset;
  data is appended at the end, consumed at the front, and moved back to offset 0 only by
  \<open>compact\<close>. Indexing and slicing out of the storage is \<open>Panic\<close>; so is a failed \<open>debug_assert!\<close> in a
  build with debug assertions, which the flag \<open>dbg\<close> selects. The uninitialised storage
  \<open>allocate_vec\<close> returns is an argument of \<open>slide_new\<close>: nothing read depends on it.

  The locale \<open>byte_queue\<close> is the contract the buffer's clients rely on, a bounded first-in first-out
  queue of bytes; it is interpreted on the buffer at the end.
\<close>

section \<open>The buffer\<close>

record slide_buffer =
  sb_data :: bytes
  sb_start :: nat
  sb_end :: nat

definition slide_new :: "bytes \<Rightarrow> slide_buffer" where
  "slide_new garbage = \<lparr>sb_data = garbage, sb_start = 0, sb_end = 0\<rparr>"

definition sb_len :: "slide_buffer \<Rightarrow> nat" where
  "sb_len b = sb_end b - sb_start b"

definition sb_is_empty :: "slide_buffer \<Rightarrow> bool" where
  "sb_is_empty b \<longleftrightarrow> sb_start b \<ge> sb_end b"

definition remaining_capacity :: "slide_buffer \<Rightarrow> nat" where
  "remaining_capacity b = length (sb_data b) - sb_end b"

definition as_slice :: "slide_buffer \<Rightarrow> io_error + bytes" where
  "as_slice b = slice (sb_data b) (sb_start b) (sb_end b)"

text \<open>\<open>write_slice\<close> lends the tail of the storage to the caller, who overwrites its first bytes.\<close>

definition write_slice :: "slide_buffer \<Rightarrow> bytes \<Rightarrow> io_error + slide_buffer" where
  "write_slice b d =
     (if sb_end b + length d \<le> length (sb_data b)
      then Inr (b\<lparr>sb_data := take (sb_end b) (sb_data b) @ d @ drop (sb_end b + length d) (sb_data b)\<rparr>)
      else Inl Panic)"

definition debug_assert :: "bool \<Rightarrow> bool \<Rightarrow> io_error + unit" where
  "debug_assert dbg c = (if dbg \<and> \<not> c then Inl Panic else Inr ())"

definition sb_extend :: "bool \<Rightarrow> slide_buffer \<Rightarrow> bytes \<Rightarrow> io_error + slide_buffer" where
  "sb_extend dbg b d =
     rbind (debug_assert dbg (remaining_capacity b \<ge> length d)) (\<lambda>_.
     rbind (write_slice b d) (\<lambda>b'.
     Inr (b'\<lparr>sb_end := sb_end b' + length d\<rparr>)))"

definition advance_write :: "bool \<Rightarrow> slide_buffer \<Rightarrow> nat \<Rightarrow> io_error + slide_buffer" where
  "advance_write dbg b n =
     rbind (debug_assert dbg (sb_end b + n \<le> length (sb_data b))) (\<lambda>_.
     Inr (b\<lparr>sb_end := sb_end b + n\<rparr>))"

definition sb_consume :: "bool \<Rightarrow> slide_buffer \<Rightarrow> nat \<Rightarrow> io_error + slide_buffer" where
  "sb_consume dbg b n =
     rbind (debug_assert dbg (n \<le> sb_len b)) (\<lambda>_.
     let b' = b\<lparr>sb_start := sb_start b + n\<rparr> in
     Inr (if sb_start b' \<ge> sb_end b' then b'\<lparr>sb_start := 0, sb_end := 0\<rparr> else b'))"

text \<open>\<open>copy_within(start..end, 0)\<close>: the bytes move to the front, the rest of the storage keeps its bytes.\<close>

definition copy_to_front :: "bytes \<Rightarrow> nat \<Rightarrow> nat \<Rightarrow> bytes" where
  "copy_to_front d s e = take (e - s) (drop s d) @ drop (e - s) d"

definition compact :: "slide_buffer \<Rightarrow> slide_buffer" where
  "compact b =
     (if sb_start b > 0 \<and> sb_start b < sb_end b
      then b\<lparr>sb_data := copy_to_front (sb_data b) (sb_start b) (sb_end b),
             sb_end := sb_end b - sb_start b, sb_start := 0\<rparr>
      else if sb_start b \<ge> sb_end b then b\<lparr>sb_start := 0, sb_end := 0\<rparr>
      else b)"

definition maybe_compact :: "nat \<Rightarrow> slide_buffer \<Rightarrow> slide_buffer" where
  "maybe_compact threshold b = (if sb_start b > threshold then compact b else b)"

definition get_u16_be :: "slide_buffer \<Rightarrow> nat \<Rightarrow> io_error + u16 option" where
  "get_u16_be b off =
     (if off + 2 \<le> sb_len b
      then rbind (index_u16 (sb_data b) (sb_start b + off)) (\<lambda>v. Inr (Some v))
      else Inr None)"

text \<open>\<open>Index<usize>\<close>, \<open>Index<Range>\<close> (and \<open>slice_mut\<close>, which reads the same range), \<open>Index<RangeFrom>\<close> and \<open>Index<RangeTo>\<close>.\<close>

definition sb_index :: "slide_buffer \<Rightarrow> nat \<Rightarrow> io_error + u8" where
  "sb_index b i = index (sb_data b) (sb_start b + i)"

definition sb_range :: "slide_buffer \<Rightarrow> nat \<Rightarrow> nat \<Rightarrow> io_error + bytes" where
  "sb_range b i j = slice (sb_data b) (sb_start b + i) (sb_start b + j)"

definition sb_range_from :: "slide_buffer \<Rightarrow> nat \<Rightarrow> io_error + bytes" where
  "sb_range_from b i = slice (sb_data b) (sb_start b + i) (sb_end b)"

definition sb_range_to :: "slide_buffer \<Rightarrow> nat \<Rightarrow> io_error + bytes" where
  "sb_range_to b j = slice (sb_data b) (sb_start b) (sb_start b + j)"

text \<open>\<open>Read::read\<close> into a buffer of \<open>n\<close> bytes: the bytes copied out.\<close>

definition sb_read :: "bool \<Rightarrow> slide_buffer \<Rightarrow> nat \<Rightarrow> io_error + slide_buffer \<times> bytes" where
  "sb_read dbg b n =
     (let available = sb_len b in
      if available = 0 then Inr (b, [])
      else let to_read = min n available in
        rbind (slice (sb_data b) (sb_start b) (sb_start b + to_read)) (\<lambda>out.
        rbind (sb_consume dbg b to_read) (\<lambda>b'. Inr (b', out))))"

section \<open>The reader of decrypted data\<close>

datatype fill_result = Filled bytes | WouldBlock

definition reader_read :: "bool \<Rightarrow> slide_buffer \<Rightarrow> nat \<Rightarrow> io_error + slide_buffer \<times> bytes" where
  "reader_read dbg b n =
     (let to_read = min n (sb_len b) in
      if to_read > 0 then
        rbind (sb_range_to b to_read) (\<lambda>out.
        rbind (sb_consume dbg b to_read) (\<lambda>b'. Inr (b', out)))
      else Inr (b, []))"

definition reader_fill_buf :: "slide_buffer \<Rightarrow> bool \<Rightarrow> io_error + fill_result" where
  "reader_fill_buf b received_close_notify =
     (if \<not> sb_is_empty b then rbind (as_slice b) (\<lambda>d. Inr (Filled d))
      else if received_close_notify then Inr (Filled [])
      else Inr WouldBlock)"

definition reader_consume :: "bool \<Rightarrow> slide_buffer \<Rightarrow> nat \<Rightarrow> io_error + slide_buffer" where
  "reader_consume dbg b amt = sb_consume dbg b (min amt (sb_len b))"

section \<open>The invariant and the bytes a buffer holds\<close>

definition sb_wf :: "slide_buffer \<Rightarrow> bool" where
  "sb_wf b \<longleftrightarrow> sb_start b \<le> sb_end b \<and> sb_end b \<le> length (sb_data b)"

definition sb_bytes :: "slide_buffer \<Rightarrow> bytes" where
  "sb_bytes b = take (sb_end b - sb_start b) (drop (sb_start b) (sb_data b))"

abbreviation sb_capacity :: "slide_buffer \<Rightarrow> nat" where
  "sb_capacity b \<equiv> length (sb_data b)"

lemma sb_new_wf [simp]: "sb_wf (slide_new g)" "sb_bytes (slide_new g) = []" "sb_data (slide_new g) = g"
  by (simp_all add: sb_wf_def slide_new_def sb_bytes_def)

lemma sb_len_bytes: "sb_wf b \<Longrightarrow> length (sb_bytes b) = sb_len b"
  by (auto simp: sb_wf_def sb_bytes_def sb_len_def min_def)

lemma sb_is_empty_iff: "sb_wf b \<Longrightarrow> sb_is_empty b \<longleftrightarrow> sb_bytes b = []"
  by (auto simp: sb_is_empty_def sb_wf_def sb_bytes_def)

lemma as_slice_bytes: "sb_wf b \<Longrightarrow> as_slice b = Inr (sb_bytes b)"
  by (simp add: as_slice_def sb_wf_def sb_bytes_def)

lemma sb_extend_ok:
  assumes "sb_wf b" and "length d \<le> remaining_capacity b"
  shows "\<exists>b'. sb_extend dbg b d = Inr b' \<and> sb_wf b' \<and> sb_bytes b' = sb_bytes b @ d
    \<and> sb_capacity b' = sb_capacity b"
  using assms
  by (auto simp: sb_extend_def debug_assert_def write_slice_def sb_wf_def sb_bytes_def
      remaining_capacity_def drop_take)

lemma sb_extend_overflow:
  assumes "sb_wf b" and "remaining_capacity b < length d"
  shows "sb_extend dbg b d = Inl Panic"
  using assms by (auto simp: sb_extend_def debug_assert_def write_slice_def sb_wf_def remaining_capacity_def)

lemma write_advance_eq_extend:
  assumes "sb_wf b" and "length d \<le> remaining_capacity b"
  shows "rbind (write_slice b d) (\<lambda>b'. advance_write dbg b' (length d)) = sb_extend dbg b d"
  using assms
  by (auto simp: sb_extend_def debug_assert_def write_slice_def advance_write_def sb_wf_def
      remaining_capacity_def)

lemma sb_consume_ok:
  assumes "sb_wf b" and "n \<le> length (sb_bytes b)"
  shows "\<exists>b'. sb_consume dbg b n = Inr b' \<and> sb_wf b' \<and> sb_bytes b' = drop n (sb_bytes b)
    \<and> sb_capacity b' = sb_capacity b"
  using assms
  by (auto simp: sb_consume_def debug_assert_def sb_wf_def sb_bytes_def sb_len_def Let_def
      drop_take add.commute)

lemma compact_ok:
  assumes "sb_wf b"
  shows "sb_wf (compact b) \<and> sb_bytes (compact b) = sb_bytes b \<and> sb_capacity (compact b) = sb_capacity b
    \<and> remaining_capacity (compact b) = sb_capacity b - length (sb_bytes b)"
  using assms
  by (auto simp: compact_def copy_to_front_def sb_wf_def sb_bytes_def remaining_capacity_def)

lemma maybe_compact_ok:
  assumes "sb_wf b"
  shows "sb_wf (maybe_compact t b) \<and> sb_bytes (maybe_compact t b) = sb_bytes b
    \<and> sb_capacity (maybe_compact t b) = sb_capacity b"
  using compact_ok [OF assms] assms by (simp add: maybe_compact_def)

lemma sb_range_bytes:
  assumes "sb_wf b" and "i \<le> j" and "j \<le> length (sb_bytes b)"
  shows "sb_range b i j = Inr (take (j - i) (drop i (sb_bytes b)))"
proof -
  have "j \<le> sb_len b" using assms by (simp add: sb_len_bytes)
  then have "sb_start b + j \<le> sb_capacity b" and m: "j - i \<le> sb_len b - i"
    using assms(1) by (auto simp: sb_len_def sb_wf_def)
  then have "sb_range b i j = Inr (take (j - i) (drop (sb_start b + i) (sb_data b)))"
    using assms(2) by (simp add: sb_range_def)
  also have "take (j - i) (drop (sb_start b + i) (sb_data b)) = take (j - i) (drop i (sb_bytes b))"
    using m by (simp add: sb_bytes_def sb_len_def drop_take min_def add.commute)
  finally show ?thesis .
qed

lemma sb_range_to_range: "sb_range_to b j = sb_range b 0 j"
  by (simp add: sb_range_to_def sb_range_def)

lemma sb_range_from_range: "sb_wf b \<Longrightarrow> sb_range_from b i = sb_range b i (length (sb_bytes b))"
  by (simp add: sb_range_from_def sb_range_def sb_len_bytes sb_len_def sb_wf_def)

lemma sb_index_bytes:
  assumes "sb_wf b" and "i < length (sb_bytes b)"
  shows "sb_index b i = Inr (sb_bytes b ! i)"
  using assms by (auto simp: sb_index_def index_def sb_wf_def sb_bytes_def)

lemma get_u16_be_bytes:
  assumes "sb_wf b"
  shows "get_u16_be b off = Inr (if off + 2 \<le> length (sb_bytes b)
    then Some (from_be [sb_bytes b ! off, sb_bytes b ! (off + 1)]) else None)"
  using assms by (auto simp: get_u16_be_def index_u16_def index_def sb_len_bytes sb_wf_def sb_bytes_def sb_len_def)

lemma reader_read_ok:
  assumes "sb_wf b"
  shows "\<exists>b'. reader_read dbg b n = Inr (b', take n (sb_bytes b)) \<and> sb_wf b'
    \<and> sb_bytes b' = drop n (sb_bytes b) \<and> sb_capacity b' = sb_capacity b"
proof -
  let ?k = "min n (sb_len b)"
  have k: "?k \<le> length (sb_bytes b)" and t: "take ?k (sb_bytes b) = take n (sb_bytes b)"
    "drop ?k (sb_bytes b) = drop n (sb_bytes b)"
    using sb_len_bytes [OF assms] by (simp_all add: min_def)
  have "sb_range_to b ?k = Inr (take n (sb_bytes b))"
    using sb_range_bytes [OF assms _ k, of 0] t by (simp add: sb_range_to_range)
  then show ?thesis
    using sb_consume_ok [OF assms k, of dbg] t assms by (auto simp: reader_read_def Let_def)
qed

lemma sb_read_eq_reader:
  assumes "sb_wf b"
  shows "\<exists>b'. sb_read dbg b n = Inr (b', take n (sb_bytes b)) \<and> sb_wf b'
    \<and> sb_bytes b' = drop n (sb_bytes b) \<and> sb_capacity b' = sb_capacity b"
proof -
  let ?k = "min n (sb_len b)"
  have k: "?k \<le> length (sb_bytes b)" and t: "take ?k (sb_bytes b) = take n (sb_bytes b)"
    "drop ?k (sb_bytes b) = drop n (sb_bytes b)"
    using sb_len_bytes [OF assms] by (simp_all add: min_def)
  have "slice (sb_data b) (sb_start b) (sb_start b + ?k) = Inr (take n (sb_bytes b))"
    using sb_range_bytes [OF assms _ k, of 0] t by (simp add: sb_range_def)
  then show ?thesis
    using sb_consume_ok [OF assms k, of dbg] t assms sb_len_bytes [OF assms]
    by (auto simp: sb_read_def Let_def)
qed

section \<open>The queue contract\<close>

text \<open>
  A client of the buffer appends, takes and makes room. \<open>bq_run\<close> runs a sequence of its
  operations; an append makes room first when the space at the end is too small, as \<open>read_tls\<close> does.
\<close>

datatype bq_op = Append bytes | Take nat | Compact nat

fun bq_step ::
  "('b \<Rightarrow> bytes \<Rightarrow> io_error + 'b) \<Rightarrow> ('b \<Rightarrow> nat \<Rightarrow> io_error + 'b \<times> bytes) \<Rightarrow> ('b \<Rightarrow> 'b) \<Rightarrow> (nat \<Rightarrow> 'b \<Rightarrow> 'b)
   \<Rightarrow> ('b \<Rightarrow> nat) \<Rightarrow> 'b \<Rightarrow> bq_op \<Rightarrow> io_error + 'b \<times> bytes" where
  "bq_step put get pack tidy room b (Append d) =
     rbind (put (if room b < length d then pack b else b) d) (\<lambda>b'. Inr (b', []))"
| "bq_step put get pack tidy room b (Take n) = get b n"
| "bq_step put get pack tidy room b (Compact t) = Inr (tidy t b, [])"

fun bq_run ::
  "('b \<Rightarrow> bytes \<Rightarrow> io_error + 'b) \<Rightarrow> ('b \<Rightarrow> nat \<Rightarrow> io_error + 'b \<times> bytes) \<Rightarrow> ('b \<Rightarrow> 'b) \<Rightarrow> (nat \<Rightarrow> 'b \<Rightarrow> 'b)
   \<Rightarrow> ('b \<Rightarrow> nat) \<Rightarrow> 'b \<Rightarrow> bq_op list \<Rightarrow> io_error + 'b \<times> bytes" where
  "bq_run put get pack tidy room b [] = Inr (b, [])"
| "bq_run put get pack tidy room b (x # xs) =
     rbind (bq_step put get pack tidy room b x) (\<lambda>(b', out).
     rbind (bq_run put get pack tidy room b' xs) (\<lambda>(b'', out'). Inr (b'', out @ out')))"

text \<open>The ideal queue, a list of at most \<open>cap\<close> bytes: it fails exactly on an append that does not fit.\<close>

fun queue_run :: "nat \<Rightarrow> bytes \<Rightarrow> bq_op list \<Rightarrow> io_error + bytes \<times> bytes" where
  "queue_run cap q [] = Inr (q, [])"
| "queue_run cap q (Append d # xs) =
     (if length q + length d \<le> cap then queue_run cap (q @ d) xs else Inl Panic)"
| "queue_run cap q (Take n # xs) =
     rbind (queue_run cap (drop n q) xs) (\<lambda>(q', out). Inr (q', take n q @ out))"
| "queue_run cap q (Compact t # xs) = queue_run cap q xs"

fun appended :: "bq_op list \<Rightarrow> bytes" where
  "appended [] = []"
| "appended (Append d # xs) = d @ appended xs"
| "appended (_ # xs) = appended xs"

lemma queue_run_fifo: "queue_run cap q xs = Inr (q', out) \<Longrightarrow> out @ q' = q @ appended xs"
proof (induction cap q xs arbitrary: q' out rule: queue_run.induct)
  case (3 cap q n xs)
  then obtain out' where "queue_run cap (drop n q) xs = Inr (q', out')" and "out = take n q @ out'"
    by auto
  then show ?case using 3 by simp
qed (auto split: if_splits)

locale byte_queue =
  fixes inv :: "'b \<Rightarrow> bool"
    and bytes_of :: "'b \<Rightarrow> bytes"
    and cap :: "'b \<Rightarrow> nat"
    and room :: "'b \<Rightarrow> nat"
    and put :: "'b \<Rightarrow> bytes \<Rightarrow> io_error + 'b"
    and get :: "'b \<Rightarrow> nat \<Rightarrow> io_error + 'b \<times> bytes"
    and pack :: "'b \<Rightarrow> 'b"
    and tidy :: "nat \<Rightarrow> 'b \<Rightarrow> 'b"
  assumes put_fits: "inv b \<Longrightarrow> length d \<le> room b \<Longrightarrow>
      \<exists>b'. put b d = Inr b' \<and> inv b' \<and> bytes_of b' = bytes_of b @ d \<and> cap b' = cap b"
    and put_full: "inv b \<Longrightarrow> room b < length d \<Longrightarrow> put b d = Inl Panic"
    and get_ok: "inv b \<Longrightarrow> \<exists>b'. get b n = Inr (b', take n (bytes_of b)) \<and> inv b'
      \<and> bytes_of b' = drop n (bytes_of b) \<and> cap b' = cap b"
    and pack_ok: "inv b \<Longrightarrow> inv (pack b) \<and> bytes_of (pack b) = bytes_of b \<and> cap (pack b) = cap b
      \<and> room (pack b) = cap b - length (bytes_of b)"
    and tidy_ok: "inv b \<Longrightarrow> inv (tidy t b) \<and> bytes_of (tidy t b) = bytes_of b \<and> cap (tidy t b) = cap b"
    and room_le: "inv b \<Longrightarrow> room b + length (bytes_of b) \<le> cap b"
begin

abbreviation "run \<equiv> bq_run put get pack tidy room"

lemma append_step:
  assumes "inv b"
  shows "if length (bytes_of b) + length d \<le> cap b
    then \<exists>b'. put (if room b < length d then pack b else b) d = Inr b' \<and> inv b'
      \<and> bytes_of b' = bytes_of b @ d \<and> cap b' = cap b
    else put (if room b < length d then pack b else b) d = Inl Panic"
  using put_fits [OF assms, of d] put_fits [of "pack b" d] put_full [of "pack b" d]
    pack_ok [OF assms] room_le [OF assms]
  by (auto simp: not_less)

lemma refines_queue:
  assumes "inv b"
  shows "case queue_run (cap b) (bytes_of b) xs of
      Inl e \<Rightarrow> run b xs = Inl e
    | Inr (q, out) \<Rightarrow> \<exists>b'. run b xs = Inr (b', out) \<and> inv b' \<and> bytes_of b' = q \<and> cap b' = cap b"
  using assms
proof (induction xs arbitrary: b)
  case Nil
  then show ?case by simp
next
  case (Cons x xs)
  show ?case
  proof (cases x)
    case (Append d)
    show ?thesis
    proof (cases "length (bytes_of b) + length d \<le> cap b")
      case True
      then obtain b' where b': "put (if room b < length d then pack b else b) d = Inr b'" "inv b'"
        "bytes_of b' = bytes_of b @ d" "cap b' = cap b"
        using append_step [OF Cons.prems, of d] by auto
      show ?thesis
        using Cons.IH [OF b'(2)] b' True Append by (auto split: sum.splits)
    next
      case False
      then show ?thesis using append_step [OF Cons.prems, of d] Append by simp
    qed
  next
    case (Take n)
    obtain b' where "get b n = Inr (b', take n (bytes_of b))" "inv b'"
      "bytes_of b' = drop n (bytes_of b)" "cap b' = cap b"
      using get_ok [OF Cons.prems] by blast
    then show ?thesis using Cons.IH [of b'] Take by (auto split: sum.splits)
  next
    case (Compact t)
    then show ?thesis
      using tidy_ok [OF Cons.prems, of t] Cons.IH [of "tidy t b"] by (auto split: sum.splits)
  qed
qed

end

interpretation slide: byte_queue sb_wf sb_bytes "\<lambda>b. length (sb_data b)" remaining_capacity
  "sb_extend dbg" "reader_read dbg" compact maybe_compact for dbg
proof unfold_locales
  fix b d
  assume "sb_wf b"
  then show "remaining_capacity b + length (sb_bytes b) \<le> length (sb_data b)"
    by (auto simp: remaining_capacity_def sb_len_bytes sb_len_def sb_wf_def)
qed (simp_all add: sb_extend_ok sb_extend_overflow reader_read_ok compact_ok maybe_compact_ok)

text \<open>
  The sliding buffer refines a bounded queue of bytes, in builds with and without debug
  assertions: any sequence of appends, reads and compactions on a new buffer gives the bytes the
  queue gives, leaves the bytes the queue leaves, and panics exactly where the queue is over its
  capacity. The uninitialised storage never shows.
\<close>

theorem slide_buffer_refines_queue:
  "(case queue_run (length garbage) [] xs of
      Inl e \<Rightarrow> bq_run (sb_extend dbg) (reader_read dbg) compact maybe_compact remaining_capacity
                 (slide_new garbage) xs = Inl e
    | Inr (q, out) \<Rightarrow> \<exists>b'. bq_run (sb_extend dbg) (reader_read dbg) compact maybe_compact
                 remaining_capacity (slide_new garbage) xs = Inr (b', out)
               \<and> as_slice b' = Inr q \<and> out @ q = appended xs)"
  using slide.refines_queue [of "slide_new garbage" dbg xs] queue_run_fifo [of "length garbage" "[]" xs]
  by (auto simp: as_slice_bytes split: sum.splits)

end
