(* ===== verification/Chunked.thy ===== *)
theory Chunked
  imports Prelude
begin

text \<open>
  Incremental decoders. Data from a socket arrives cut at arbitrary places, so a decoder keeps what
  it could not use yet and is fed again. \<open>feed_all\<close> feeds a list of chunks; the locale
  \<open>chunked_decoder\<close> is the contract (feeding two chunks is feeding their concatenation) from which
  it follows, once and for all, that the way the stream is cut does not matter.
\<close>

primrec feed_all ::
  "('s \<Rightarrow> 'a list \<Rightarrow> ('s \<times> 'o list) option) \<Rightarrow> 's \<Rightarrow> 'a list list \<Rightarrow> ('s \<times> 'o list) option" where
  "feed_all step s [] = Some (s, [])"
| "feed_all step s (c # cs) =
     (case step s c of None \<Rightarrow> None
      | Some (s', out) \<Rightarrow> map_option (\<lambda>(s'', outs). (s'', out @ outs)) (feed_all step s' cs))"

locale chunked_decoder =
  fixes step :: "'s \<Rightarrow> 'a list \<Rightarrow> ('s \<times> 'o list) option"
    and ready :: "'s \<Rightarrow> bool"
  assumes step_Nil: "ready s \<Longrightarrow> step s [] = Some (s, [])"
    and step_append: "ready s \<Longrightarrow> step s (a @ b) =
      (case step s a of None \<Rightarrow> None
       | Some (s', out) \<Rightarrow> map_option (\<lambda>(s'', outs). (s'', out @ outs)) (step s' b))"
    and step_ready: "ready s \<Longrightarrow> step s a = Some (s', out) \<Longrightarrow> ready s'"
begin

lemma feed_all_concat: "ready s \<Longrightarrow> feed_all step s cs = step s (concat cs)"
proof (induction cs arbitrary: s)
  case Nil
  then show ?case by (simp add: step_Nil)
next
  case (Cons c cs)
  then show ?case by (auto simp: step_append split: option.splits dest: step_ready)
qed

lemma chunking_irrelevant:
  "ready s \<Longrightarrow> concat cs = concat ds \<Longrightarrow> feed_all step s cs = feed_all step s ds"
  by (simp add: feed_all_concat)

lemma feed_all_ready: "ready s \<Longrightarrow> feed_all step s cs = Some (s', out) \<Longrightarrow> ready s'"
  by (auto simp: feed_all_concat dest: step_ready)

end

end
