(* ===== verification/TlsDeframer.thy ===== *)
theory TlsDeframer
  imports Chunked
begin

text \<open>
  The TLS record deframer of \<open>vision/tls_deframer.rs\<close>: bytes are fed as they arrive and complete
  records are taken out. A \<open>BytesMut\<close> is the list of its bytes. \<open>take_record\<close> and \<open>split_records\<close> are
  the specification: the cut of a whole byte sequence into records, which the two-state machine is
  shown to compute however the sequence is cut.
\<close>

section \<open>The deframer\<close>

definition TLS_RECORD_HEADER_SIZE :: nat where "TLS_RECORD_HEADER_SIZE = 5"

definition MAX_TLS_CIPHERTEXT_LEN :: nat where "MAX_TLS_CIPHERTEXT_LEN = 16384 + 2048"

datatype deframer_state = ReadingHeader | ReadingPayload nat

record tls_deframer =
  td_buffer :: bytes
  td_state :: deframer_state

definition deframer_new :: tls_deframer where
  "deframer_new = \<lparr>td_buffer = [], td_state = ReadingHeader\<rparr>"

definition deframer_feed :: "tls_deframer \<Rightarrow> bytes \<Rightarrow> tls_deframer" where
  "deframer_feed d bs = d\<lparr>td_buffer := td_buffer d @ bs\<rparr>"

definition payload_len :: "bytes \<Rightarrow> nat" where
  "payload_len buf = unat (from_be [buf ! 3, buf ! 4] :: u16)"

definition check_header :: "bytes \<Rightarrow> io_error + nat" where
  "check_header buf =
     (let content_type = buf ! 0; version_major = buf ! 1; version_minor = buf ! 2;
          payload_len = payload_len buf
      in if version_major \<noteq> 3 \<or> \<not> (1 \<le> version_minor \<and> version_minor \<le> 3)
         then Inl (InvalidData ''Invalid TLS protocol version'')
         else if payload_len > MAX_TLS_CIPHERTEXT_LEN
         then Inl (InvalidData ''TLS record ciphertext length exceeds maximum'')
         else if \<not> (0x14 \<le> content_type \<and> content_type \<le> 0x18)
         then Inl (InvalidData ''Invalid TLS content type'')
         else Inr payload_len)"

definition read_payload :: "tls_deframer \<Rightarrow> nat \<Rightarrow> tls_deframer \<times> (io_error + bytes option)" where
  "read_payload d n =
     (let total_len = TLS_RECORD_HEADER_SIZE + n in
      if length (td_buffer d) < total_len then (d, Inr None)
      else (\<lparr>td_buffer = drop total_len (td_buffer d), td_state = ReadingHeader\<rparr>,
            Inr (Some (take total_len (td_buffer d)))))"

definition next_record :: "tls_deframer \<Rightarrow> tls_deframer \<times> (io_error + bytes option)" where
  "next_record d =
     (case td_state d of
        ReadingHeader \<Rightarrow>
          if length (td_buffer d) < TLS_RECORD_HEADER_SIZE then (d, Inr None)
          else (case check_header (td_buffer d) of
                  Inl e \<Rightarrow> (d, Inl e)
                | Inr n \<Rightarrow> read_payload (d\<lparr>td_state := ReadingPayload n\<rparr>) n)
      | ReadingPayload n \<Rightarrow> read_payload d n)"

lemma next_record_shrinks:
  "next_record d = (d', Inr (Some r)) \<Longrightarrow> length (td_buffer d') < length (td_buffer d)"
  by (auto simp: next_record_def read_payload_def TLS_RECORD_HEADER_SIZE_def Let_def
      split: deframer_state.splits if_splits sum.splits)

function next_records :: "tls_deframer \<Rightarrow> tls_deframer \<times> (io_error + bytes list)" where
  "next_records d =
     (case next_record d of
        (d', Inl e) \<Rightarrow> (d', Inl e)
      | (d', Inr None) \<Rightarrow> (d', Inr [])
      | (d', Inr (Some r)) \<Rightarrow>
          (case next_records d' of (d'', rs) \<Rightarrow> (d'', rbind rs (\<lambda>rs. Inr (r # rs)))))"
  by pat_completeness auto
termination
  by (relation "measure (\<lambda>d. length (td_buffer d))") (auto dest: next_record_shrinks [OF sym])

declare next_records.simps [simp del]

lemma next_records_unfold:
  "next_record d = (d', Inl e) \<Longrightarrow> next_records d = (d', Inl e)"
  "next_record d = (d', Inr None) \<Longrightarrow> next_records d = (d', Inr [])"
  "next_record d = (d', Inr (Some r)) \<Longrightarrow> next_records d =
     (case next_records d' of (d'', rs) \<Rightarrow> (d'', rbind rs (\<lambda>rs. Inr (r # rs))))"
  by (subst next_records.simps, simp)+

definition pending_bytes :: "tls_deframer \<Rightarrow> nat" where
  "pending_bytes d = length (td_buffer d)"

definition remaining_data :: "tls_deframer \<Rightarrow> bytes" where
  "remaining_data d = td_buffer d"

definition deframer_clear :: "tls_deframer \<Rightarrow> tls_deframer" where
  "deframer_clear d = \<lparr>td_buffer = [], td_state = ReadingHeader\<rparr>"

definition deframer_deallocate :: "tls_deframer \<Rightarrow> tls_deframer" where
  "deframer_deallocate d = d\<lparr>td_buffer := []\<rparr>"

section \<open>Specification: cutting a byte sequence into records\<close>

definition take_record :: "bytes \<Rightarrow> io_error + (bytes \<times> bytes) option" where
  "take_record buf =
     (if length buf < 5 then Inr None
      else rbind (check_header buf) (\<lambda>n.
        Inr (if length buf < 5 + n then None else Some (take (5 + n) buf, drop (5 + n) buf))))"

lemma take_record_split: "take_record buf = Inr (Some (r, rest)) \<Longrightarrow> buf = r @ rest \<and> 5 \<le> length r"
  by (auto simp: take_record_def split: if_splits)

lemma take_record_shrinks: "take_record buf = Inr (Some (r, rest)) \<Longrightarrow> length rest < length buf"
  by (auto simp: take_record_def split: if_splits)

function split_records :: "bytes \<Rightarrow> io_error + bytes list \<times> bytes" where
  "split_records buf =
     (case take_record buf of
        Inl e \<Rightarrow> Inl e
      | Inr None \<Rightarrow> Inr ([], buf)
      | Inr (Some (r, rest)) \<Rightarrow> rbind (split_records rest) (\<lambda>(rs, t). Inr (r # rs, t)))"
  by pat_completeness auto
termination
  by (relation "measure length") (auto dest: take_record_shrinks)

declare split_records.simps [simp del]

lemma split_records_unfold:
  "take_record buf = Inl e \<Longrightarrow> split_records buf = Inl e"
  "take_record buf = Inr None \<Longrightarrow> split_records buf = Inr ([], buf)"
  "take_record buf = Inr (Some (r, rest)) \<Longrightarrow>
     split_records buf = rbind (split_records rest) (\<lambda>(rs, t). Inr (r # rs, t))"
  by (subst split_records.simps, simp)+

lemma check_header_append:
  assumes "5 \<le> length a"
  shows "check_header (a @ b) = check_header a"
proof -
  have "\<And>i. i < 5 \<Longrightarrow> (a @ b) ! i = a ! i" using assms by (simp add: nth_append)
  then show ?thesis by (simp add: check_header_def payload_len_def)
qed

lemma take_record_append_Inl: "take_record a = Inl e \<Longrightarrow> take_record (a @ b) = Inl e"
  by (auto simp: take_record_def check_header_append rbind_eq_Inl split: if_splits)

lemma take_record_append_Some:
  assumes "take_record a = Inr (Some (r, rest))"
  shows "take_record (a @ b) = Inr (Some (r, rest @ b))"
proof -
  from assms obtain n where n: "check_header a = Inr n" "5 + n \<le> length a"
    "r = take (5 + n) a" "rest = drop (5 + n) a"
    by (auto simp: take_record_def split: if_splits)
  then have "check_header (a @ b) = Inr n" by (simp add: check_header_append)
  then show ?thesis using n by (simp add: take_record_def)
qed

lemma split_records_append:
  "split_records (a @ b) =
     rbind (split_records a) (\<lambda>(rs, t). rbind (split_records (t @ b)) (\<lambda>(ss, u). Inr (rs @ ss, u)))"
proof (induction a rule: split_records.induct)
  case (1 a)
  show ?case
  proof (cases "take_record a")
    case (Inl e)
    then show ?thesis using take_record_append_Inl [OF Inl, of b] by (simp add: split_records.simps)
  next
    case (Inr x)
    show ?thesis
    proof (cases x)
      case None
      then have "split_records a = Inr ([], a)" using Inr by (simp add: split_records.simps)
      then show ?thesis by (cases "split_records (a @ b)") auto
    next
      case (Some p)
      obtain r rest where p: "p = (r, rest)" by force
      have a: "take_record a = Inr (Some (r, rest))" using Inr Some p by simp
      have "split_records (a @ b) = rbind (split_records (rest @ b)) (\<lambda>(rs, t). Inr (r # rs, t))"
        using take_record_append_Some [OF a, of b] by (simp add: split_records.simps [of "a @ b"])
      moreover have "split_records a = rbind (split_records rest) (\<lambda>(rs, t). Inr (r # rs, t))"
        using a by (simp add: split_records.simps [of a])
      ultimately show ?thesis
        using "1" [OF Inr Some p [symmetric]]
        by (cases "split_records rest") (auto simp: rbind_assoc split: rbind_split)
    qed
  qed
qed

lemma split_records_rest:
  "split_records buf = Inr (rs, t) \<Longrightarrow> concat rs @ t = buf \<and> take_record t = Inr None"
proof (induction buf arbitrary: rs rule: split_records.induct)
  case (1 buf)
  then show ?case
    by (auto simp: split_records.simps [of buf] split: sum.splits option.splits dest!: take_record_split)
qed

section \<open>The machine computes the specification\<close>

text \<open>
  A reachable deframer is determined by its bytes (\<open>deframer_of\<close>): it waits for the payload exactly
  when the bytes begin with a complete header.
\<close>

definition deframer_of :: "bytes \<Rightarrow> tls_deframer" where
  "deframer_of buf = \<lparr>td_buffer = buf,
     td_state = (if length buf < 5 then ReadingHeader else ReadingPayload (payload_len buf))\<rparr>"

definition deframer_wf :: "tls_deframer \<Rightarrow> bool" where
  "deframer_wf d \<longleftrightarrow> (case td_state d of ReadingHeader \<Rightarrow> True
     | ReadingPayload n \<Rightarrow> 5 \<le> length (td_buffer d) \<and> check_header (td_buffer d) = Inr n)"

lemma check_header_len: "check_header buf = Inr n \<Longrightarrow> n = payload_len buf"
  by (auto simp: check_header_def Let_def split: if_splits)

lemma deframer_new_of: "deframer_new = deframer_of []"
  by (simp add: deframer_new_def deframer_of_def)

lemma deframer_wf_of: "take_record buf = Inr None \<Longrightarrow> deframer_wf (deframer_feed (deframer_of buf) c)"
  by (auto simp: deframer_wf_def deframer_of_def deframer_feed_def take_record_def
      check_header_append dest: check_header_len split: if_splits)

lemma next_record_spec:
  assumes "deframer_wf d"
  shows "next_record d =
    (case take_record (td_buffer d) of
       Inl e \<Rightarrow> (d, Inl e)
     | Inr None \<Rightarrow> (deframer_of (td_buffer d), Inr None)
     | Inr (Some (r, rest)) \<Rightarrow> (\<lparr>td_buffer = rest, td_state = ReadingHeader\<rparr>, Inr (Some r)))"
proof (cases "td_state d")
  case ReadingHeader
  show ?thesis
  proof (cases "check_header (td_buffer d)")
    case (Inl e)
    then show ?thesis
      using ReadingHeader
      by (simp add: next_record_def take_record_def deframer_of_def TLS_RECORD_HEADER_SIZE_def)
  next
    case (Inr n)
    then show ?thesis
      using ReadingHeader check_header_len [OF Inr]
      by (simp add: next_record_def read_payload_def take_record_def deframer_of_def
          TLS_RECORD_HEADER_SIZE_def Let_def)
  qed
next
  case (ReadingPayload n)
  then have "\<not> length (td_buffer d) < 5" and n: "check_header (td_buffer d) = Inr n"
    using assms by (auto simp: deframer_wf_def)
  then show ?thesis
    using ReadingPayload check_header_len [OF n]
    by (simp add: next_record_def read_payload_def take_record_def deframer_of_def
        TLS_RECORD_HEADER_SIZE_def Let_def)
qed

lemma next_records_spec:
  assumes "deframer_wf d"
  shows "case split_records (td_buffer d) of
      Inl e \<Rightarrow> snd (next_records d) = Inl e
    | Inr (rs, rest) \<Rightarrow> next_records d = (deframer_of rest, Inr rs)"
  using assms
proof (induction d rule: next_records.induct)
  case (1 d)
  note spec = next_record_spec [OF "1.prems"]
  consider (err) e where "take_record (td_buffer d) = Inl e"
    | (none) "take_record (td_buffer d) = Inr None"
    | (more) r rest where "take_record (td_buffer d) = Inr (Some (r, rest))"
    by (metis option.exhaust sum.exhaust surj_pair)
  then show ?case
  proof cases
    case err
    then show ?thesis using spec by (simp add: split_records_unfold next_records_unfold)
  next
    case none
    then show ?thesis using spec by (simp add: split_records_unfold next_records_unfold)
  next
    case more
    let ?d = "\<lparr>td_buffer = rest, td_state = ReadingHeader\<rparr>"
    have nr: "next_record d = (?d, Inr (Some r))" using spec more by simp
    have "case split_records rest of Inl e \<Rightarrow> snd (next_records ?d) = Inl e
      | Inr (rs, rest') \<Rightarrow> next_records ?d = (deframer_of rest', Inr rs)"
      using "1.IH" [OF nr [symmetric] refl refl] by (simp add: deframer_wf_def)
    then show ?thesis
      using next_records_unfold(3) [OF nr] split_records_unfold(3) [OF more]
      by (auto split: sum.splits prod.splits)
  qed
qed

definition deframe_chunk :: "tls_deframer \<Rightarrow> bytes \<Rightarrow> (tls_deframer \<times> bytes list) option" where
  "deframe_chunk d c =
     (case next_records (deframer_feed d c) of (d', rs) \<Rightarrow> map_option (Pair d') (result_ok rs))"

definition deframer_ready :: "tls_deframer \<Rightarrow> bool" where
  "deframer_ready d \<longleftrightarrow> d = deframer_of (td_buffer d) \<and> take_record (td_buffer d) = Inr None"

lemma deframe_chunk_spec:
  assumes "deframer_ready d"
  shows "deframe_chunk d c =
    (case split_records (td_buffer d @ c) of
       Inl _ \<Rightarrow> None | Inr (rs, rest) \<Rightarrow> Some (deframer_of rest, rs))"
proof -
  have "deframer_wf (deframer_feed d c)"
    using assms deframer_wf_of [of "td_buffer d" c] by (simp add: deframer_ready_def)
  from next_records_spec [OF this] show ?thesis
    by (cases "next_records (deframer_feed d c)")
      (auto simp: deframe_chunk_def deframer_feed_def split: sum.splits)
qed

interpretation deframer: chunked_decoder deframe_chunk deframer_ready
proof unfold_locales
  fix d and a b :: bytes
  assume d: "deframer_ready d"
  then show "deframe_chunk d [] = Some (d, [])"
    using deframe_chunk_spec [OF d, of "[]"] by (auto simp: deframer_ready_def split_records.simps)
  have ready: "deframer_ready (deframer_of t)" if "split_records x = Inr (rs, t)" for x rs t
    using split_records_rest [OF that] by (simp add: deframer_ready_def deframer_of_def)
  show "deframer_ready d'" if "deframe_chunk d a = Some (d', rs)" for d' rs
    using that deframe_chunk_spec [OF d, of a] by (auto intro: ready split: sum.splits)
  show "deframe_chunk d (a @ b) = (case deframe_chunk d a of None \<Rightarrow> None
    | Some (d', out) \<Rightarrow> map_option (\<lambda>(d'', outs). (d'', out @ outs)) (deframe_chunk d' b))"
  proof (cases "split_records (td_buffer d @ a)")
    case (Inl e)
    then show ?thesis
      using split_records_append [of "td_buffer d @ a" b] deframe_chunk_spec [OF d] by simp
  next
    case (Inr x)
    obtain rs t where x: "x = (rs, t)" by force
    have t: "deframer_ready (deframer_of t)" using ready Inr x by blast
    have "td_buffer (deframer_of t) = t" by (simp add: deframer_of_def)
    then show ?thesis
      using split_records_append [of "td_buffer d @ a" b] deframe_chunk_spec [OF d] Inr x
        deframe_chunk_spec [OF t, of b]
      by (auto split: sum.splits rbind_split)
  qed
qed

section \<open>Properties\<close>

definition tls_record :: "u8 \<Rightarrow> u8 \<Rightarrow> bytes \<Rightarrow> bytes" where
  "tls_record ct minor payload = [ct, 3, minor] @ be16 (of_nat (length payload)) @ payload"

fun record_valid :: "u8 \<times> u8 \<times> bytes \<Rightarrow> bool" where
  "record_valid (ct, minor, payload) \<longleftrightarrow>
     0x14 \<le> ct \<and> ct \<le> 0x18 \<and> 1 \<le> minor \<and> minor \<le> 3 \<and> length payload \<le> MAX_TLS_CIPHERTEXT_LEN"

abbreviation record_bytes :: "u8 \<times> u8 \<times> bytes \<Rightarrow> bytes" where
  "record_bytes \<equiv> \<lambda>(ct, minor, payload). tls_record ct minor payload"

lemma length_tls_record [simp]: "length (tls_record ct minor payload) = 5 + length payload"
  by (simp add: tls_record_def)

lemma take_record_tls_record:
  assumes "record_valid (ct, minor, payload)"
  shows "take_record (tls_record ct minor payload @ rest) = Inr (Some (tls_record ct minor payload, rest))"
proof -
  have "payload_len (tls_record ct minor payload @ rest) = length payload"
    using assms by (simp add: payload_len_def tls_record_def be16_pair unat_of_nat_u16 MAX_TLS_CIPHERTEXT_LEN_def)
  then have "check_header (tls_record ct minor payload @ rest) = Inr (length payload)"
    using assms by (simp add: check_header_def tls_record_def)
  then show ?thesis by (simp add: take_record_def)
qed

lemma split_records_tls_records:
  "\<forall>r \<in> set rs. record_valid r \<Longrightarrow> take_record t = Inr None \<Longrightarrow>
    split_records (concat (map record_bytes rs) @ t) = Inr (map record_bytes rs, t)"
proof (induction rs)
  case Nil
  then show ?case by (simp add: split_records.simps)
next
  case (Cons r rs)
  obtain ct minor payload where r: "r = (ct, minor, payload)" by (cases r)
  show ?case
    using Cons r take_record_tls_record [of ct minor payload "concat (map record_bytes rs) @ t"]
    by (simp add: split_records.simps [of "tls_record ct minor payload @ concat (map record_bytes rs) @ t"])
qed

text \<open>
  However a stream of TLS records is cut into chunks, the deframer returns exactly the records,
  in order, and keeps exactly the incomplete record at the end of what has arrived.
\<close>

theorem deframe_any_chunking:
  assumes "\<forall>r \<in> set rs. record_valid r" and "take_record tail = Inr None"
    and "concat chunks = concat (map record_bytes rs) @ tail"
  shows "\<exists>d. feed_all deframe_chunk deframer_new chunks = Some (d, map record_bytes rs)
    \<and> remaining_data d = tail"
proof -
  have new: "deframer_ready deframer_new"
    by (simp add: deframer_new_of deframer_ready_def deframer_of_def take_record_def)
  have "feed_all deframe_chunk deframer_new chunks = deframe_chunk deframer_new (concat chunks)"
    by (rule deframer.feed_all_concat [OF new])
  also have "\<dots> = Some (deframer_of tail, map record_bytes rs)"
    using deframe_chunk_spec [OF new] split_records_tls_records [OF assms(1,2)] assms(3)
    by (simp add: deframer_new_def)
  finally show ?thesis by (simp add: remaining_data_def deframer_of_def)
qed

theorem deframe_any_chunking_witness:
  "\<exists>d. feed_all deframe_chunk deframer_new [[0x17, 3], [3, 0, 1, 9, 0x16], [3, 1, 0, 0, 0x17]] =
     Some (d, [[0x17, 3, 3, 0, 1, 9], [0x16, 3, 1, 0, 0]]) \<and> remaining_data d = [0x17]"
  using deframe_any_chunking [of "[(0x17, 3, [9]), (0x16, 1, [])]" "[0x17]"
      "[[0x17, 3], [3, 0, 1, 9, 0x16], [3, 1, 0, 0, 0x17]]"]
  by (simp add: tls_record_def take_record_def MAX_TLS_CIPHERTEXT_LEN_def be16_pair)

end
