(* ===== verification/FuzzyDeframer.thy ===== *)
theory FuzzyDeframer
  imports TlsDeframer
begin

text \<open>
  The search for the first TLS handshake in a stream, \<open>vision/tls_handshake_util.rs\<close>, and the
  deframer that skips what comes before it, \<open>vision/tls_fuzzy_deframer.rs\<close>. The substring search of
  the crate \<open>memchr\<close> for the two bytes 16 03 is a parameter \<open>memmem\<close>; what its documentation promises,
  the first position of the needle, is the predicate \<open>memmem_spec\<close>.

  The specification is \<open>skip_len\<close>: the first position from which the bytes seen so far could still be
  a handshake record.
\<close>

section \<open>Handshake patterns\<close>

definition MIN_TLS_HANDSHAKE_PATTERN_LEN :: nat where "MIN_TLS_HANDSHAKE_PATTERN_LEN = 6"

definition is_valid_tls_handshake_prefix :: "bytes \<Rightarrow> bool" where
  "is_valid_tls_handshake_prefix data =
     (if data = [] then True
      else if data ! 0 \<noteq> 0x16 then False
      else if length data \<ge> 2 \<and> data ! 1 \<noteq> 0x03 then False
      else if length data \<ge> 3 \<and> \<not> (1 \<le> data ! 2 \<and> data ! 2 \<le> 3) then False
      else True)"

function find_loop :: "(bytes \<Rightarrow> nat option) \<Rightarrow> bytes \<Rightarrow> nat \<Rightarrow> nat option" where
  "find_loop memmem data pos =
     (case memmem (drop pos data) of
        None \<Rightarrow> None
      | Some off \<Rightarrow>
          let absolute_offset = pos + off in
          if absolute_offset + MIN_TLS_HANDSHAKE_PATTERN_LEN > length data then None
          else
            let candidate = drop absolute_offset data in
            if 1 \<le> candidate ! 2 \<and> candidate ! 2 \<le> 3 \<and> (candidate ! 5 = 1 \<or> candidate ! 5 = 2)
            then Some absolute_offset
            else find_loop memmem data (absolute_offset + 1))"
  by pat_completeness auto
termination
  by (relation "measure (\<lambda>(memmem, data, pos). length data - pos)")
    (auto simp: MIN_TLS_HANDSHAKE_PATTERN_LEN_def)

declare find_loop.simps [simp del]

definition find_tls_handshake_start :: "(bytes \<Rightarrow> nat option) \<Rightarrow> bytes \<Rightarrow> nat option" where
  "find_tls_handshake_start memmem data =
     (if length data < MIN_TLS_HANDSHAKE_PATTERN_LEN then None else find_loop memmem data 0)"

definition find_potential_tls_suffix_len :: "bytes \<Rightarrow> nat" where
  "find_potential_tls_suffix_len data =
     (let len = length data in
      if len = 0 then 0
      else
        let max_suffix = min len 5 in
        case List.find (\<lambda>k. is_valid_tls_handshake_prefix (drop (len - k) data)) (rev [1..<Suc max_suffix]) of
          Some k \<Rightarrow> k
        | None \<Rightarrow> 0)"

section \<open>The fuzzy deframer\<close>

datatype deframe_result = TlsRecord bytes | UnknownPrefix bytes | NeedData

datatype fuzzy_state = Searching | Deframing

record fuzzy_deframer =
  fz_inner :: tls_deframer
  fz_search_buffer :: bytes
  fz_state :: fuzzy_state
  fz_total_prefix_bytes :: nat

definition fuzzy_new :: fuzzy_deframer where
  "fuzzy_new = \<lparr>fz_inner = deframer_new, fz_search_buffer = [], fz_state = Searching,
     fz_total_prefix_bytes = 0\<rparr>"

definition fuzzy_feed :: "fuzzy_deframer \<Rightarrow> bytes \<Rightarrow> fuzzy_deframer" where
  "fuzzy_feed f data =
     (case fz_state f of
        Searching \<Rightarrow> f\<lparr>fz_search_buffer := fz_search_buffer f @ data\<rparr>
      | Deframing \<Rightarrow> f\<lparr>fz_inner := deframer_feed (fz_inner f) data\<rparr>)"

text \<open>The \<open>Deframing\<close> arm of the loop, which always returns.\<close>

definition fuzzy_deframe :: "fuzzy_deframer \<Rightarrow> fuzzy_deframer \<times> (io_error + deframe_result)" where
  "fuzzy_deframe f =
     (case next_record (fz_inner f) of
        (inner, Inl e) \<Rightarrow> (f\<lparr>fz_inner := inner\<rparr>, Inl e)
      | (inner, Inr (Some record)) \<Rightarrow> (f\<lparr>fz_inner := inner\<rparr>, Inr (TlsRecord record))
      | (inner, Inr None) \<Rightarrow> (f\<lparr>fz_inner := inner\<rparr>, Inr NeedData))"

text \<open>What both branches of a found pattern do: the bytes from it on go to the inner deframer.\<close>

definition fuzzy_switch :: "fuzzy_deframer \<Rightarrow> bytes \<Rightarrow> fuzzy_deframer" where
  "fuzzy_switch f tls =
     f\<lparr>fz_inner := deframer_feed (fz_inner f) tls, fz_search_buffer := [], fz_state := Deframing\<rparr>"

definition fuzzy_next ::
  "(bytes \<Rightarrow> nat option) \<Rightarrow> fuzzy_deframer \<Rightarrow> fuzzy_deframer \<times> (io_error + deframe_result)" where
  "fuzzy_next memmem f =
     (case fz_state f of
        Searching \<Rightarrow>
          let buf = fz_search_buffer f in
          if buf = [] then (f, Inr NeedData)
          else
            let found = (if length buf \<ge> MIN_TLS_HANDSHAKE_PATTERN_LEN
                         then find_tls_handshake_start memmem buf else None) in
            (case found of
               Some offset \<Rightarrow>
                 if offset > 0 then
                   (fuzzy_switch (f\<lparr>fz_total_prefix_bytes := fz_total_prefix_bytes f + length (take offset buf)\<rparr>)
                      (drop offset buf), Inr (UnknownPrefix (take offset buf)))
                 else fuzzy_deframe (fuzzy_switch f buf)
             | None \<Rightarrow>
                 let suffix_len = find_potential_tls_suffix_len buf in
                 if suffix_len < length buf then
                   let prefix_len = length buf - suffix_len in
                   (f\<lparr>fz_search_buffer := drop prefix_len buf,
                      fz_total_prefix_bytes := fz_total_prefix_bytes f + length (take prefix_len buf)\<rparr>,
                    Inr (UnknownPrefix (take prefix_len buf)))
                 else (f, Inr NeedData))
      | Deframing \<Rightarrow> fuzzy_deframe f)"

definition fuzzy_pending_bytes :: "fuzzy_deframer \<Rightarrow> nat" where
  "fuzzy_pending_bytes f =
     (case fz_state f of Searching \<Rightarrow> length (fz_search_buffer f) | Deframing \<Rightarrow> pending_bytes (fz_inner f))"

definition fuzzy_remaining_data :: "fuzzy_deframer \<Rightarrow> bytes" where
  "fuzzy_remaining_data f =
     (case fz_state f of Searching \<Rightarrow> fz_search_buffer f | Deframing \<Rightarrow> remaining_data (fz_inner f))"

definition fuzzy_clear :: "fuzzy_deframer \<Rightarrow> fuzzy_deframer" where
  "fuzzy_clear f = \<lparr>fz_inner = deframer_clear (fz_inner f), fz_search_buffer = [], fz_state = Searching,
     fz_total_prefix_bytes = 0\<rparr>"

definition fuzzy_deallocate :: "fuzzy_deframer \<Rightarrow> fuzzy_deframer" where
  "fuzzy_deallocate f = f\<lparr>fz_search_buffer := [], fz_inner := deframer_deallocate (fz_inner f)\<rparr>"

section \<open>Specification of the search\<close>

text \<open>\<open>could_be_tls d\<close>: the bytes \<open>d\<close> are, as far as they go, the beginning of a handshake record.\<close>

definition could_be_tls :: "bytes \<Rightarrow> bool" where
  "could_be_tls d \<longleftrightarrow> is_valid_tls_handshake_prefix d \<and> (length d \<ge> 6 \<longrightarrow> d ! 5 = 1 \<or> d ! 5 = 2)"

fun skip_len :: "bytes \<Rightarrow> nat" where
  "skip_len [] = 0"
| "skip_len (b # r) = (if could_be_tls (b # r) then 0 else Suc (skip_len r))"

definition needle_at :: "bytes \<Rightarrow> nat \<Rightarrow> bool" where
  "needle_at h i \<longleftrightarrow> i + 1 < length h \<and> h ! i = 0x16 \<and> h ! (i + 1) = 0x03"

definition memmem_spec :: "(bytes \<Rightarrow> nat option) \<Rightarrow> bool" where
  "memmem_spec memmem \<longleftrightarrow> (\<forall>h. case memmem h of
       None \<Rightarrow> \<forall>i. \<not> needle_at h i
     | Some i \<Rightarrow> needle_at h i \<and> (\<forall>j < i. \<not> needle_at h j))"

lemma could_be_tls_Nil [simp]: "could_be_tls []"
  by (simp add: could_be_tls_def is_valid_tls_handshake_prefix_def)

lemma could_be_tls_prefix: "could_be_tls (x @ y) \<Longrightarrow> could_be_tls x"
  by (cases x) (auto simp: could_be_tls_def is_valid_tls_handshake_prefix_def nth_append split: if_splits)

lemma could_be_tls_short: "length d \<le> 5 \<Longrightarrow> could_be_tls d \<longleftrightarrow> is_valid_tls_handshake_prefix d"
  by (auto simp: could_be_tls_def)

lemma could_be_tls_long:
  assumes "6 \<le> length d"
  shows "could_be_tls d \<longleftrightarrow>
    d ! 0 = 0x16 \<and> d ! 1 = 0x03 \<and> 1 \<le> d ! 2 \<and> d ! 2 \<le> 3 \<and> (d ! 5 = 1 \<or> d ! 5 = 2)"
  using assms by (auto simp: could_be_tls_def is_valid_tls_handshake_prefix_def)

lemma skip_len_le: "skip_len d \<le> length d"
  by (induction d) auto

lemma skip_len_could_be: "could_be_tls (drop (skip_len d) d)"
  by (induction d) auto

lemma skip_len_least: "i < skip_len d \<Longrightarrow> \<not> could_be_tls (drop i d)"
proof (induction d arbitrary: i)
  case (Cons b r)
  then show ?case by (cases i) (auto split: if_splits)
qed simp

lemma skip_len_eqI:
  "could_be_tls (drop i d) \<Longrightarrow> i \<le> length d \<Longrightarrow> (\<And>j. j < i \<Longrightarrow> \<not> could_be_tls (drop j d)) \<Longrightarrow> skip_len d = i"
  by (metis linorder_neqE_nat skip_len_could_be skip_len_least)

lemma skip_len_append: "skip_len (x @ y) = skip_len x + skip_len (drop (skip_len x) x @ y)"
  by (induction x) (auto dest: could_be_tls_prefix [of "_ # _", simplified])

section \<open>The search finds the specified position\<close>

lemma could_be_tls_needle: "could_be_tls (drop i d) \<Longrightarrow> i + 6 \<le> length d \<Longrightarrow> needle_at d i"
  by (auto simp: could_be_tls_long needle_at_def)

lemma needle_at_drop: "needle_at (drop p h) i \<longleftrightarrow> needle_at h (p + i)"
  by (cases "p \<le> length h") (auto simp: needle_at_def)

lemma find_loop_spec:
  assumes "memmem_spec memmem" and "pos \<le> skip_len data"
  shows "find_loop memmem data pos = (if skip_len data + 6 \<le> length data then Some (skip_len data) else None)"
  using assms
proof (induction memmem data pos rule: find_loop.induct)
  case (1 memmem data pos)
  let ?k = "skip_len data"
  have found: "case memmem (drop pos data) of None \<Rightarrow> \<forall>i. \<not> needle_at (drop pos data) i
    | Some i \<Rightarrow> needle_at (drop pos data) i \<and> (\<forall>j < i. \<not> needle_at (drop pos data) j)"
    using "1.prems"(1) by (simp add: memmem_spec_def)
  have first: "\<not> needle_at data j" if "pos \<le> j" "\<And>off. memmem (drop pos data) = Some off \<Longrightarrow> j < pos + off" for j
    using found that needle_at_drop [of pos data "j - pos"]
    by (cases "memmem (drop pos data)") auto
  show ?case
  proof (cases "memmem (drop pos data)")
    case None
    then show ?thesis
      using first [OF "1.prems"(2)] could_be_tls_needle [OF skip_len_could_be, of data]
      by (auto simp: find_loop.simps [of memmem data pos])
  next
    case (Some off)
    let ?a = "pos + off"
    have needle: "needle_at data ?a"
      using found Some needle_at_drop [of pos data off] by simp
    have before: "\<not> (j < ?a \<and> pos \<le> j \<and> j + 6 \<le> length data \<and> could_be_tls (drop j data))" for j
      using first [of j] Some could_be_tls_needle [of j data] by auto
    show ?thesis
    proof (cases "?a + 6 \<le> length data")
      case False
      then show ?thesis
        using Some before [of ?k] "1.prems"(2) skip_len_could_be [of data]
        by (auto simp: find_loop.simps [of memmem data pos] Let_def MIN_TLS_HANDSHAKE_PATTERN_LEN_def)
    next
      case a: True
      have cand: "could_be_tls (drop ?a data) \<longleftrightarrow> 1 \<le> drop ?a data ! 2 \<and> drop ?a data ! 2 \<le> 3
        \<and> (drop ?a data ! 5 = 1 \<or> drop ?a data ! 5 = 2)"
        using needle a by (auto simp: could_be_tls_long needle_at_def)
      have ge: "?a \<le> ?k"
        using before [of ?k] "1.prems"(2) skip_len_could_be [of data] a by (meson add_le_mono1 le_trans not_le_imp_less less_imp_le)
      show ?thesis
      proof (cases "could_be_tls (drop ?a data)")
        case True
        then have "?k = ?a" using ge skip_len_least [of ?a data] by (metis le_neq_implies_less)
        then show ?thesis
          using Some a True cand
          by (simp add: find_loop.simps [of memmem data pos] Let_def MIN_TLS_HANDSHAKE_PATTERN_LEN_def)
      next
        case False
        then have "?a \<noteq> ?k" using skip_len_could_be [of data] by auto
        then have "?a + 1 \<le> ?k" using ge by simp
        then show ?thesis
          using "1.IH" [OF Some refl _ refl] "1.prems"(1) Some a False cand
          by (simp add: find_loop.simps [of memmem data pos] Let_def MIN_TLS_HANDSHAKE_PATTERN_LEN_def)
      qed
    qed
  qed
qed

lemma find_start_spec:
  assumes "memmem_spec memmem"
  shows "find_tls_handshake_start memmem data =
    (if skip_len data + 6 \<le> length data then Some (skip_len data) else None)"
  using find_loop_spec [OF assms, of 0 data]
  by (auto simp: find_tls_handshake_start_def MIN_TLS_HANDSHAKE_PATTERN_LEN_def)

lemma find_Some_first: "List.find P xs = Some x \<Longrightarrow> \<exists>ys zs. xs = ys @ x # zs \<and> P x \<and> (\<forall>y \<in> set ys. \<not> P y)"
proof (induction xs)
  case (Cons a xs)
  show ?case
  proof (cases "P a")
    case True
    then show ?thesis using Cons.prems by (intro exI [of _ "[]"] exI [of _ xs]) simp
  next
    case False
    then obtain ys zs where "xs = ys @ x # zs" "P x" "\<forall>y \<in> set ys. \<not> P y"
      using Cons by auto
    then show ?thesis using False by (intro exI [of _ "a # ys"] exI [of _ zs]) simp
  qed
qed simp

lemma suffix_len_spec:
  assumes "length data < skip_len data + 6"
  shows "find_potential_tls_suffix_len data = length data - skip_len data"
proof -
  let ?P = "\<lambda>k. is_valid_tls_handshake_prefix (drop (length data - k) data)"
  let ?k = "length data - skip_len data"
  define L where "L = rev [1..<Suc (min (length data) 5)]"
  have "rev L = [1..<Suc (min (length data) 5)]" by (simp only: L_def rev_rev_ident)
  then have L: "set L = {1..min (length data) 5}" "sorted (rev L)"
    by (auto simp: L_def simp del: upt_Suc)
  have P: "?P k \<longleftrightarrow> could_be_tls (drop (length data - k) data)" if "k \<in> set L" for k
    using that L(1) by (auto simp: could_be_tls_short)
  have longer: "\<not> ?P k" if "k \<in> set L" "?k < k" for k
  proof -
    have "length data - k < skip_len data" using that L(1) skip_len_le [of data] by auto
    then show ?thesis using skip_len_least [of "length data - k" data] that P [OF that(1)] by auto
  qed
  have "(case List.find ?P L of Some k \<Rightarrow> k | None \<Rightarrow> 0) = ?k"
  proof (cases "List.find ?P L")
    case None
    then have "?k \<notin> set L"
      using P [of ?k] skip_len_could_be [of data] skip_len_le [of data] by (auto simp: find_None_iff)
    then have "?k < 1 \<or> min (length data) 5 < ?k" using L(1) by auto
    moreover have "?k \<le> min (length data) 5" using assms by auto
    ultimately show ?thesis using None by simp
  next
    case (Some x)
    then obtain ys zs where split: "L = ys @ x # zs" "?P x" "\<forall>y \<in> set ys. \<not> ?P y"
      using find_Some_first [OF Some] by blast
    have "\<forall>z \<in> set zs. z \<le> x" using L(2) by (auto simp: split(1) sorted_append)
    have x: "x \<in> set L" by (simp add: split(1))
    then have "x \<le> ?k" using longer [of x] split(2) by fastforce
    then have "?k \<in> set L" using x L(1) assms by auto
    then have "?P ?k" using P [of ?k] skip_len_could_be [of data] skip_len_le [of data] by auto
    then have "?k \<le> x"
      using \<open>?k \<in> set L\<close> \<open>\<forall>z \<in> set zs. z \<le> x\<close> split by auto
    then show ?thesis using \<open>x \<le> ?k\<close> Some by simp
  qed
  then show ?thesis by (auto simp: find_potential_tls_suffix_len_def L_def Let_def)
qed

section \<open>Draining the fuzzy deframer\<close>

text \<open>
  Calling \<open>next_record\<close> until it needs more data, as its callers do; the skipped bytes one by one and
  the records, in order. \<open>None\<close> is an invalid record header after the handshake was found.
\<close>

datatype fuzzy_item = Skipped u8 | Rec bytes

fun item_bytes :: "fuzzy_item \<Rightarrow> bytes" where
  "item_bytes (Skipped b) = [b]"
| "item_bytes (Rec r) = r"

lemma fuzzy_deframe_shrinks:
  "fuzzy_deframe f = (f', Inr r) \<Longrightarrow> r \<noteq> NeedData \<Longrightarrow>
    length (td_buffer (fz_inner f')) < length (td_buffer (fz_inner f)) \<and> fz_search_buffer f' = fz_search_buffer f"
  by (auto simp: fuzzy_deframe_def dest: next_record_shrinks split: prod.splits sum.splits option.splits)

definition fuzzy_size :: "fuzzy_deframer \<Rightarrow> nat" where
  "fuzzy_size f = length (fz_search_buffer f) + length (td_buffer (fz_inner f))"

lemma fuzzy_next_shrinks:
  assumes "fuzzy_next memmem f = (f', Inr r)" and "r \<noteq> NeedData"
  shows "fuzzy_size f' < fuzzy_size f"
proof (cases "fz_state f")
  case Deframing
  then show ?thesis using assms fuzzy_deframe_shrinks [of f f' r] by (simp add: fuzzy_next_def fuzzy_size_def)
next
  case Searching
  let ?buf = "fz_search_buffer f"
  have ne: "?buf \<noteq> []" using assms Searching by (auto simp: fuzzy_next_def Let_def)
  let ?found = "if length ?buf \<ge> MIN_TLS_HANDSHAKE_PATTERN_LEN then find_tls_handshake_start memmem ?buf else None"
  show ?thesis
  proof (cases ?found)
    case None
    then show ?thesis
      using assms Searching ne by (auto simp: fuzzy_next_def fuzzy_size_def Let_def split: if_splits)
  next
    case (Some off)
    show ?thesis
    proof (cases "off > 0")
      case True
      then show ?thesis
        using assms Searching ne Some
        by (auto simp: fuzzy_next_def fuzzy_size_def fuzzy_switch_def deframer_feed_def Let_def split: if_splits)
    next
      case False
      then have "fuzzy_deframe (fuzzy_switch f ?buf) = (f', Inr r)"
        using assms Searching ne Some by (auto simp: fuzzy_next_def Let_def split: if_splits)
      from fuzzy_deframe_shrinks [OF this assms(2)] show ?thesis
        by (auto simp: fuzzy_size_def fuzzy_switch_def deframer_feed_def)
    qed
  qed
qed

function fuzzy_drain ::
  "(bytes \<Rightarrow> nat option) \<Rightarrow> fuzzy_deframer \<Rightarrow> (fuzzy_deframer \<times> fuzzy_item list) option" where
  "fuzzy_drain memmem f =
     (case fuzzy_next memmem f of
        (f', Inl e) \<Rightarrow> None
      | (f', Inr NeedData) \<Rightarrow> Some (f', [])
      | (f', Inr (TlsRecord r)) \<Rightarrow> map_option (\<lambda>(f'', out). (f'', Rec r # out)) (fuzzy_drain memmem f')
      | (f', Inr (UnknownPrefix p)) \<Rightarrow>
          map_option (\<lambda>(f'', out). (f'', map Skipped p @ out)) (fuzzy_drain memmem f'))"
  by pat_completeness auto
termination
  by (relation "measure (\<lambda>(memmem, f). fuzzy_size f)") (auto dest: fuzzy_next_shrinks [OF sym])

declare fuzzy_drain.simps [simp del]

lemma fuzzy_drain_unfold:
  "fuzzy_next memmem f = (f', Inl e) \<Longrightarrow> fuzzy_drain memmem f = None"
  "fuzzy_next memmem f = (f', Inr NeedData) \<Longrightarrow> fuzzy_drain memmem f = Some (f', [])"
  "fuzzy_next memmem f = (f', Inr (TlsRecord r)) \<Longrightarrow>
     fuzzy_drain memmem f = map_option (\<lambda>(f'', out). (f'', Rec r # out)) (fuzzy_drain memmem f')"
  "fuzzy_next memmem f = (f', Inr (UnknownPrefix p)) \<Longrightarrow>
     fuzzy_drain memmem f = map_option (\<lambda>(f'', out). (f'', map Skipped p @ out)) (fuzzy_drain memmem f')"
  by (subst fuzzy_drain.simps, simp)+

definition searching :: "nat \<Rightarrow> bytes \<Rightarrow> fuzzy_deframer" where
  "searching t s = \<lparr>fz_inner = deframer_new, fz_search_buffer = s, fz_state = Searching,
     fz_total_prefix_bytes = t\<rparr>"

definition deframing :: "nat \<Rightarrow> tls_deframer \<Rightarrow> fuzzy_deframer" where
  "deframing t d = \<lparr>fz_inner = d, fz_search_buffer = [], fz_state = Deframing,
     fz_total_prefix_bytes = t\<rparr>"

lemma fuzzy_switch_searching:
  "fuzzy_switch (searching t s) x = deframing t \<lparr>td_buffer = x, td_state = ReadingHeader\<rparr>"
  by (simp add: fuzzy_switch_def searching_def deframing_def deframer_feed_def deframer_new_def)

lemma drain_deframing:
  assumes "deframer_wf d"
  shows "fuzzy_drain memmem (deframing t d) =
    (case split_records (td_buffer d) of
       Inl _ \<Rightarrow> None | Inr (rs, rest) \<Rightarrow> Some (deframing t (deframer_of rest), map Rec rs))"
  using assms
proof (induction "td_buffer d" arbitrary: d rule: split_records.induct)
  case 1
  note spec = next_record_spec [OF "1.prems"]
  have nxt: "fuzzy_next memmem (deframing t d) = fuzzy_deframe (deframing t d)"
    by (simp add: fuzzy_next_def deframing_def)
  consider (err) e where "take_record (td_buffer d) = Inl e"
    | (none) "take_record (td_buffer d) = Inr None"
    | (more) r rest where "take_record (td_buffer d) = Inr (Some (r, rest))"
    by (metis option.exhaust sum.exhaust surj_pair)
  then show ?case
  proof cases
    case err
    have "fuzzy_next memmem (deframing t d) = (deframing t d, Inl e)"
      using spec err unfolding nxt by (simp add: fuzzy_deframe_def deframing_def)
    then show ?thesis using err by (simp add: fuzzy_drain_unfold split_records_unfold)
  next
    case none
    have "fuzzy_next memmem (deframing t d) = (deframing t (deframer_of (td_buffer d)), Inr NeedData)"
      using spec none unfolding nxt by (simp add: fuzzy_deframe_def deframing_def)
    then show ?thesis using none by (simp add: fuzzy_drain_unfold split_records_unfold)
  next
    case more
    let ?d = "\<lparr>td_buffer = rest, td_state = ReadingHeader\<rparr>"
    have "fuzzy_next memmem (deframing t d) = (deframing t ?d, Inr (TlsRecord r))"
      using spec more unfolding nxt by (simp add: fuzzy_deframe_def deframing_def)
    moreover have "fuzzy_drain memmem (deframing t ?d) =
      (case split_records (td_buffer ?d) of Inl _ \<Rightarrow> None
       | Inr (rs, rest') \<Rightarrow> Some (deframing t (deframer_of rest'), map Rec rs))"
      by (rule "1.hyps" [OF more refl]) (simp_all add: deframer_wf_def)
    ultimately show ?thesis
      using split_records_unfold(3) [OF more] by (simp add: fuzzy_drain_unfold split: sum.splits)
  qed
qed

lemma drain_searching:
  assumes "memmem_spec memmem"
  shows "fuzzy_drain memmem (searching t x) =
    (let k = skip_len x in
     if k + 6 \<le> length x then
       (case split_records (drop k x) of
          Inl _ \<Rightarrow> None
        | Inr (rs, rest) \<Rightarrow> Some (deframing (t + k) (deframer_of rest), map Skipped (take k x) @ map Rec rs))
     else Some (searching (t + k) (drop k x), map Skipped (take k x)))"
proof -
  let ?k = "skip_len x"
  have idle: "fuzzy_next memmem (searching u y) = (searching u y, Inr NeedData)"
    if "could_be_tls y" "length y < 6" for u y
  proof -
    have "skip_len y = 0" using that(1) by (cases y) auto
    then show ?thesis
      using suffix_len_spec [of y] that(2)
      by (simp add: fuzzy_next_def searching_def MIN_TLS_HANDSHAKE_PATTERN_LEN_def Let_def)
  qed
  show ?thesis
  proof (cases "?k + 6 \<le> length x")
    case True
    then have found: "find_tls_handshake_start memmem x = Some ?k" "x \<noteq> []" "6 \<le> length x"
      using find_start_spec [OF assms, of x] by auto
    let ?f = "deframing (t + ?k) \<lparr>td_buffer = drop ?k x, td_state = ReadingHeader\<rparr>"
    have "fuzzy_drain memmem (searching t x) =
      map_option (\<lambda>(f'', out). (f'', map Skipped (take ?k x) @ out)) (fuzzy_drain memmem ?f)"
    proof (cases "?k > 0")
      case True
      then have "fuzzy_next memmem (searching t x) = (?f, Inr (UnknownPrefix (take ?k x)))"
        using found fuzzy_switch_searching [of "t + ?k" x "drop ?k x"] min.absorb2 [OF skip_len_le [of x]]
        by (simp add: fuzzy_next_def searching_def MIN_TLS_HANDSHAKE_PATTERN_LEN_def Let_def)
      then show ?thesis by (rule fuzzy_drain_unfold(4))
    next
      case False
      then have "fuzzy_next memmem (searching t x) = fuzzy_next memmem ?f"
        using found fuzzy_switch_searching [of t x x]
        by (simp add: fuzzy_next_def searching_def deframing_def MIN_TLS_HANDSHAKE_PATTERN_LEN_def Let_def)
      then have "fuzzy_drain memmem (searching t x) = fuzzy_drain memmem ?f"
        by (simp add: fuzzy_drain.simps [of memmem "searching t x"] fuzzy_drain.simps [of memmem ?f])
      then show ?thesis using False by (simp add: case_prod_unfold option.map_ident)
    qed
    then show ?thesis
      using True drain_deframing [of "\<lparr>td_buffer = drop ?k x, td_state = ReadingHeader\<rparr>" memmem "t + ?k"]
      by (auto simp: deframer_wf_def Let_def split: sum.splits)
  next
    case False
    let ?g = "searching (t + ?k) (drop ?k x)"
    have g: "fuzzy_next memmem ?g = (?g, Inr NeedData)"
      by (rule idle) (use False skip_len_could_be in auto)
    show ?thesis
    proof (cases "?k > 0")
      case True
      then have "fuzzy_next memmem (searching t x) = (?g, Inr (UnknownPrefix (take ?k x)))"
        using False find_start_spec [OF assms, of x] suffix_len_spec [of x] skip_len_le [of x]
        by (auto simp: fuzzy_next_def searching_def Let_def min_def)
      then show ?thesis using False by (simp add: fuzzy_drain_unfold(4) fuzzy_drain_unfold(2) [OF g] Let_def)
    next
      case k: False
      then show ?thesis using False fuzzy_drain_unfold(2) [OF g] by simp
    qed
  qed
qed

section \<open>Chunks\<close>

definition fuzzy_chunk ::
  "(bytes \<Rightarrow> nat option) \<Rightarrow> fuzzy_deframer \<Rightarrow> bytes \<Rightarrow> (fuzzy_deframer \<times> fuzzy_item list) option" where
  "fuzzy_chunk memmem f c = fuzzy_drain memmem (fuzzy_feed f c)"

definition fuzzy_ready :: "fuzzy_deframer \<Rightarrow> bool" where
  "fuzzy_ready f \<longleftrightarrow>
     (\<exists>t s. f = searching t s \<and> could_be_tls s \<and> length s < 6)
     \<or> (\<exists>t d. f = deframing t (deframer_of d) \<and> take_record d = Inr None)"

lemma fuzzy_chunk_searching: "fuzzy_chunk memmem (searching t s) c = fuzzy_drain memmem (searching t (s @ c))"
  by (simp add: fuzzy_chunk_def fuzzy_feed_def searching_def)

lemma fuzzy_chunk_deframing:
  assumes "take_record d = Inr None"
  shows "fuzzy_chunk memmem (deframing t (deframer_of d)) c =
    (case split_records (d @ c) of
       Inl _ \<Rightarrow> None | Inr (rs, rest) \<Rightarrow> Some (deframing t (deframer_of rest), map Rec rs))"
proof -
  have "fuzzy_feed (deframing t (deframer_of d)) c = deframing t (deframer_feed (deframer_of d) c)"
    by (simp add: fuzzy_feed_def deframing_def)
  moreover have "td_buffer (deframer_feed (deframer_of d) c) = d @ c"
    by (simp add: deframer_feed_def deframer_of_def)
  ultimately show ?thesis
    using drain_deframing [OF deframer_wf_of [OF assms, of c], of memmem t] by (simp add: fuzzy_chunk_def)
qed

lemma could_be_tls_append: "could_be_tls x \<Longrightarrow> 6 \<le> length x \<Longrightarrow> could_be_tls (x @ y)"
  by (auto simp: could_be_tls_long nth_append)

lemma skip_len_0: "could_be_tls x \<Longrightarrow> skip_len x = 0"
  by (cases x) auto

lemma drain_searching_append:
  assumes spec: "memmem_spec memmem"
  shows "fuzzy_drain memmem (searching t (x @ b)) =
    (case fuzzy_drain memmem (searching t x) of
       None \<Rightarrow> None
     | Some (f', out) \<Rightarrow> map_option (\<lambda>(f'', outs). (f'', out @ outs)) (fuzzy_chunk memmem f' b))"
proof -
  let ?k = "skip_len x"
  let ?y = "drop ?k x"
  have k: "skip_len (x @ b) = ?k + skip_len (?y @ b)" by (rule skip_len_append)
  have le: "?k \<le> length x" by (rule skip_len_le)
  show ?thesis
  proof (cases "?k + 6 \<le> length x")
    case True
    have "skip_len (?y @ b) = 0"
      by (rule skip_len_0, rule could_be_tls_append [OF skip_len_could_be]) (use True in simp)
    then have k0: "skip_len (x @ b) = ?k" using k by simp
    show ?thesis
    proof (cases "split_records ?y")
      case (Inl e)
      then show ?thesis
        using True le k0 split_records_append [of ?y b] by (simp add: drain_searching [OF spec] Let_def)
    next
      case (Inr p)
      obtain rs rest where p: "p = (rs, rest)" by force
      have rest: "take_record rest = Inr None" using split_records_rest [of ?y rs rest] Inr p by simp
      show ?thesis
        using True le k0 split_records_append [of ?y b] Inr p fuzzy_chunk_deframing [OF rest, of memmem "t + ?k" b]
        by (auto simp: drain_searching [OF spec] Let_def split: sum.splits rbind_split)
    qed
  next
    case False
    define z where "z = ?y @ b"
    have here: "fuzzy_drain memmem (searching t x) = Some (searching (t + ?k) ?y, map Skipped (take ?k x))"
      using False by (simp add: drain_searching [OF spec] Let_def)
    have cut: "take (?k + skip_len z) (x @ b) = take ?k x @ take (skip_len z) z"
      "drop (?k + skip_len z) (x @ b) = drop (skip_len z) z"
      "?k + skip_len z + 6 \<le> length (x @ b) \<longleftrightarrow> skip_len z + 6 \<le> length z"
      using le by (auto simp: z_def take_add add.commute)
    have k': "skip_len (x @ b) = ?k + skip_len z" using k by (simp only: z_def)
    show ?thesis
      unfolding here option.case prod.case fuzzy_chunk_searching z_def [symmetric]
        drain_searching [OF spec, of t "x @ b"] drain_searching [OF spec, of "t + ?k" z] Let_def k' cut
      by (simp add: add.assoc split: sum.split)
  qed
qed

lemma fuzzy_drain_ready:
  "memmem_spec memmem \<Longrightarrow> fuzzy_drain memmem (searching t x) = Some (f, out) \<Longrightarrow> fuzzy_ready f"
  using skip_len_could_be [of x] split_records_rest [of "drop (skip_len x) x"]
  by (fastforce simp: drain_searching Let_def fuzzy_ready_def split: if_splits sum.splits)

interpretation fuzzy: chunked_decoder "fuzzy_chunk memmem" "\<lambda>f. memmem_spec memmem \<and> fuzzy_ready f"
  for memmem
proof unfold_locales
  fix f and a b :: bytes
  assume "memmem_spec memmem \<and> fuzzy_ready f"
  then have spec: "memmem_spec memmem" and f: "fuzzy_ready f" by auto
  have split_ready: "fuzzy_ready (deframing t (deframer_of rest))" if "split_records x = Inr (rs, rest)" for t x rs rest
    using split_records_rest [OF that] by (auto simp: fuzzy_ready_def)
  from f consider (s) t s where "f = searching t s" "could_be_tls s" "length s < 6"
    | (d) t d where "f = deframing t (deframer_of d)" "take_record d = Inr None"
    by (auto simp: fuzzy_ready_def)
  then show "fuzzy_chunk memmem f [] = Some (f, [])"
  proof cases
    case s
    then show ?thesis using skip_len_0 [of s] by (simp add: fuzzy_chunk_searching drain_searching [OF spec])
  next
    case d
    then show ?thesis by (simp add: fuzzy_chunk_deframing split_records_unfold)
  qed
  from f consider (s) t s where "f = searching t s"
    | (d) t d where "f = deframing t (deframer_of d)" "take_record d = Inr None"
    by (auto simp: fuzzy_ready_def)
  then show "memmem_spec memmem \<and> fuzzy_ready f'" if "fuzzy_chunk memmem f a = Some (f', out)" for f' out
    using that spec
    by cases (auto simp: fuzzy_chunk_searching fuzzy_chunk_deframing intro: split_ready
        dest: fuzzy_drain_ready split: sum.splits)
  from f consider (s) t s where "f = searching t s"
    | (d) t d where "f = deframing t (deframer_of d)" "take_record d = Inr None"
    by (auto simp: fuzzy_ready_def)
  then show "fuzzy_chunk memmem f (a @ b) = (case fuzzy_chunk memmem f a of None \<Rightarrow> None
    | Some (f', out) \<Rightarrow> map_option (\<lambda>(f'', outs). (f'', out @ outs)) (fuzzy_chunk memmem f' b))"
  proof cases
    case s
    then show ?thesis
      using drain_searching_append [OF spec, of t "s @ a" b] by (simp add: fuzzy_chunk_searching)
  next
    case d
    show ?thesis
    proof (cases "split_records (d @ a)")
      case (Inl e)
      then show ?thesis using d split_records_append [of "d @ a" b] by (simp add: fuzzy_chunk_deframing)
    next
      case (Inr p)
      obtain rs rest where p: "p = (rs, rest)" by force
      have "take_record rest = Inr None" using split_records_rest [of "d @ a" rs rest] Inr p by simp
      then show ?thesis
        using d Inr p split_records_append [of "d @ a" b]
        by (auto simp: fuzzy_chunk_deframing split: sum.splits rbind_split)
    qed
  qed
qed

section \<open>Properties\<close>

definition tls_pattern_at :: "bytes \<Rightarrow> nat \<Rightarrow> bool" where
  "tls_pattern_at d i \<longleftrightarrow> i + 6 \<le> length d \<and> d ! i = 0x16 \<and> d ! (i + 1) = 0x03
     \<and> 1 \<le> d ! (i + 2) \<and> d ! (i + 2) \<le> 3 \<and> (d ! (i + 5) = 1 \<or> d ! (i + 5) = 2)"

lemma tls_pattern_could_be: "i + 6 \<le> length d \<Longrightarrow> tls_pattern_at d i \<longleftrightarrow> could_be_tls (drop i d)"
  by (simp add: tls_pattern_at_def could_be_tls_long)

lemma fuzzy_new_searching: "fuzzy_new = searching 0 []"
  by (simp add: fuzzy_new_def searching_def)

text \<open>
  C35. However the stream is cut, the fuzzy deframer passes over exactly the bytes before the first
  handshake pattern and returns exactly the records from it on: when the stream is some bytes with
  no pattern in them, then records of which the first begins with the pattern, then an incomplete
  record, its output is the bytes one after the other, then the records, and the incomplete record
  is what it keeps. The pattern is found also when it is cut between chunks.
\<close>

theorem fuzzy_any_chunking:
  assumes "memmem_spec memmem"
    and "\<forall>r \<in> set rs. record_valid r" and "take_record tail = Inr None"
    and "concat chunks = pre @ concat (map record_bytes rs) @ tail"
    and "tls_pattern_at (concat chunks) (length pre)"
    and "\<forall>i < length pre. \<not> tls_pattern_at (concat chunks) i"
  shows "\<exists>f. feed_all (fuzzy_chunk memmem) fuzzy_new chunks =
      Some (f, map Skipped pre @ map Rec (map record_bytes rs)) \<and> fuzzy_remaining_data f = tail"
proof -
  let ?x = "concat chunks"
  have new: "memmem_spec memmem \<and> fuzzy_ready fuzzy_new"
    using assms(1) unfolding fuzzy_ready_def fuzzy_new_searching
    by (intro conjI disjI1 exI [of _ 0] exI [of _ "[]"]) simp_all
  have len: "length pre + 6 \<le> length ?x" using assms(5) by (simp add: tls_pattern_at_def)
  have k: "skip_len ?x = length pre"
  proof (rule skip_len_eqI)
    show "could_be_tls (drop (length pre) ?x)" using assms(5) len by (simp add: tls_pattern_could_be)
    show "\<not> could_be_tls (drop j ?x)" if "j < length pre" for j
      using assms(6) len that tls_pattern_could_be [of j ?x] by simp
  qed (use len in simp)
  have "feed_all (fuzzy_chunk memmem) fuzzy_new chunks = fuzzy_drain memmem (searching 0 ?x)"
    using fuzzy.feed_all_concat [OF new] by (simp add: fuzzy_new_searching fuzzy_chunk_searching)
  also have "\<dots> = Some (deframing (length pre) (deframer_of tail), map Skipped pre @ map Rec (map record_bytes rs))"
    using split_records_tls_records [OF assms(2,3)] k len
    unfolding drain_searching [OF assms(1)] Let_def k by (simp add: assms(4))
  finally show ?thesis
    by (simp add: fuzzy_remaining_data_def deframing_def remaining_data_def deframer_of_def)
qed

fun naive_find :: "bytes \<Rightarrow> nat option" where
  "naive_find (a # b # r) = (if a = 0x16 \<and> b = 0x03 then Some 0 else map_option Suc (naive_find (b # r)))"
| "naive_find _ = None"

lemma naive_find_spec:
  "case naive_find h of None \<Rightarrow> \<forall>i. \<not> needle_at h i | Some i \<Rightarrow> needle_at h i \<and> (\<forall>j < i. \<not> needle_at h j)"
proof (induction h rule: naive_find.induct)
  case (1 a b r)
  have shift: "needle_at (a # b # r) (Suc j) \<longleftrightarrow> needle_at (b # r) j"
    and zero: "needle_at (a # b # r) 0 \<longleftrightarrow> a = 0x16 \<and> b = 0x03" for j
    by (auto simp: needle_at_def)
  show ?case
  proof (cases "a = 0x16 \<and> b = 0x03")
    case False
    have all: "(\<forall>i < n. \<not> needle_at (a # b # r) i)" if "\<forall>j < n - 1. \<not> needle_at (b # r) j" for n
    proof (intro allI impI)
      fix i
      assume "i < n"
      then show "\<not> needle_at (a # b # r) i" using False that by (cases i) (auto simp: shift zero)
    qed
    show ?thesis
    proof (cases "naive_find (b # r)")
      case None
      then have "\<not> needle_at (a # b # r) i" for i using 1 False all [of "Suc i"] by simp
      then show ?thesis using None False by auto
    next
      case (Some k)
      then show ?thesis using 1 False all [of "Suc k"] by (auto simp: shift)
    qed
  qed (simp add: needle_at_def)
qed (simp_all add: needle_at_def)

theorem fuzzy_any_chunking_witness:
  "\<exists>f. feed_all (fuzzy_chunk naive_find) fuzzy_new [[0x16, 7, 0x16, 3], [1, 0, 1, 1, 0x17, 3]] =
     Some (f, [Skipped 0x16, Skipped 7, Rec [0x16, 3, 1, 0, 1, 1]]) \<and> fuzzy_remaining_data f = [0x17, 3]"
proof -
  have "memmem_spec naive_find" by (simp add: memmem_spec_def naive_find_spec)
  from fuzzy_any_chunking [OF this, of "[(0x16, 1, [1])]" "[0x17, 3]"
      "[[0x16, 7, 0x16, 3], [1, 0, 1, 1, 0x17, 3]]" "[0x16, 7]"]
  show ?thesis
    by (simp add: tls_record_def take_record_def MAX_TLS_CIPHERTEXT_LEN_def be16_pair tls_pattern_at_def
        less_Suc_eq)
qed

end
