(* ===== verification/VisionPad.thy ===== *)
theory VisionPad
  imports Chunked
begin

text \<open>
  XTLS-Vision padding: the writer of \<open>vision/vision_pad.rs\<close> and the incremental reader of
  \<open>vision/vision_unpad.rs\<close>. The random generator is a parameter of the writer: \<open>rand_range n\<close> is the
  value \<open>random_range(0..n)\<close> draws and \<open>rand_fill n\<close> the \<open>n\<close> bytes \<open>fill\<close> writes. The reader's loop is
  one definition per state, each of which goes on with a new state and the rest of the data or
  returns; \<open>unpad_loop\<close> repeats them.

  The specification is a machine that takes one byte at a time (\<open>unpad_byte\<close>), for which the cutting
  of the stream into chunks trivially does not matter; the loop is shown to compute it.
\<close>

section \<open>Writing padded blocks\<close>

definition LONG_PADDING_MIN :: nat where "LONG_PADDING_MIN = 900"
definition LONG_PADDING_RANDOM_MAX :: nat where "LONG_PADDING_RANDOM_MAX = 500"
definition SHORT_PADDING_RANDOM_MAX :: nat where "SHORT_PADDING_RANDOM_MAX = 256"
definition MAX_PADDING_SIZE :: nat where "MAX_PADDING_SIZE = 8171"

definition calculate_padding_length :: "(nat \<Rightarrow> nat) \<Rightarrow> nat \<Rightarrow> bool \<Rightarrow> nat" where
  "calculate_padding_length rand_range content_len is_tls =
     (let max_allowable = MAX_PADDING_SIZE - content_len in
      if is_tls \<and> content_len < LONG_PADDING_MIN then
        let random_part = rand_range LONG_PADDING_RANDOM_MAX;
            padding = (LONG_PADDING_MIN - content_len) + random_part
        in min padding max_allowable
      else min (rand_range SHORT_PADDING_RANDOM_MAX) max_allowable)"

definition pad ::
  "(nat \<Rightarrow> nat) \<Rightarrow> (nat \<Rightarrow> bytes) \<Rightarrow> bytes \<Rightarrow> bytes option \<Rightarrow> u8 \<Rightarrow> bool \<Rightarrow> bytes" where
  "pad rand_range rand_fill data uuid command is_tls =
     (let content_len = of_nat (length data) :: u16;
          padding_len = calculate_padding_length rand_range (unat content_len) is_tls
      in (case uuid of Some u \<Rightarrow> u | None \<Rightarrow> [])
         @ [command] @ be16 content_len @ be16 (of_nat padding_len) @ data
         @ (if padding_len > 0 then rand_fill padding_len else []))"

definition pad_with_uuid_and_command where
  "pad_with_uuid_and_command rand_range rand_fill data uuid command is_tls =
     pad rand_range rand_fill data (Some uuid) command is_tls"

definition pad_with_command where
  "pad_with_command rand_range rand_fill data command is_tls =
     pad rand_range rand_fill data None command is_tls"

section \<open>Reading padded blocks\<close>

datatype unpad_command = Continue | End | Direct

definition try_command :: "u8 \<Rightarrow> io_error + unpad_command" where
  "try_command v =
     (if v = 0 then Inr Continue else if v = 1 then Inr End else if v = 2 then Inr Direct
      else Inl (InvalidData ''Invalid padding command''))"

record unpad_result =
  ur_content :: bytes
  ur_command :: "unpad_command option"

datatype unpad_state =
    Initial bytes
  | ReadingCommand
  | ReadingContentLength unpad_command "u8 option"
  | ReadingPaddingLength unpad_command u16 "u8 option"
  | ReadingContent unpad_command bytes u16 u16
  | ReadingPadding unpad_command bytes u16
  | Done

record vision_unpadder =
  up_state :: unpad_state
  up_first_block :: bool
  up_accumulated :: bytes

definition unpadder_new :: "bytes \<Rightarrow> vision_unpadder" where
  "unpadder_new expected_uuid =
     \<lparr>up_state = Initial expected_uuid, up_first_block = True, up_accumulated = []\<rparr>"

text \<open>One round of the loop: go on with the rest of the data, or return.\<close>

datatype unpad_flow = Goto vision_unpadder bytes | Return vision_unpadder "io_error + unpad_result"

definition default_result :: unpad_result where
  "default_result = \<lparr>ur_content = [], ur_command = None\<rparr>"

text \<open>Returning the accumulated content, which the unpadder gives away.\<close>

definition give :: "vision_unpadder \<Rightarrow> unpad_command option \<Rightarrow> unpad_flow" where
  "give u c = Return (u\<lparr>up_accumulated := []\<rparr>) (Inr \<lparr>ur_content = up_accumulated u, ur_command = c\<rparr>)"

text \<open>The exit of the header states when the data has run out.\<close>

definition out_of_data :: "vision_unpadder \<Rightarrow> unpad_flow" where
  "out_of_data u =
     (if \<not> up_first_block u then give u (Some Continue) else Return u (Inr default_result))"

definition step_initial :: "vision_unpadder \<Rightarrow> bytes \<Rightarrow> bytes \<Rightarrow> unpad_flow" where
  "step_initial u expected_uuid data =
     (if length data < 16 then Return u (Inr default_result)
      else if take 16 data \<noteq> expected_uuid
      then Return u (Inr \<lparr>ur_content = data, ur_command = None\<rparr>)
      else Goto (u\<lparr>up_state := ReadingCommand\<rparr>) (drop 16 data))"

definition step_command :: "vision_unpadder \<Rightarrow> bytes \<Rightarrow> unpad_flow" where
  "step_command u data =
     (case data of
        [] \<Rightarrow> out_of_data u
      | b # rest \<Rightarrow>
          (case try_command b of
             Inl e \<Rightarrow> Return u (Inl e)
           | Inr c \<Rightarrow> Goto (u\<lparr>up_state := ReadingContentLength c None\<rparr>) rest))"

definition step_content_length :: "vision_unpadder \<Rightarrow> unpad_command \<Rightarrow> u8 option \<Rightarrow> bytes \<Rightarrow> unpad_flow" where
  "step_content_length u c first_byte data =
     (case data of
        [] \<Rightarrow> out_of_data u
      | b # rest \<Rightarrow>
          (case first_byte of
             None \<Rightarrow> Goto (u\<lparr>up_state := ReadingContentLength c (Some b)\<rparr>) rest
           | Some high_byte \<Rightarrow>
               Goto (u\<lparr>up_state := ReadingPaddingLength c (push_bit 8 (ucast high_byte) OR ucast b) None\<rparr>) rest))"

definition step_padding_length ::
  "vision_unpadder \<Rightarrow> unpad_command \<Rightarrow> u16 \<Rightarrow> u8 option \<Rightarrow> bytes \<Rightarrow> unpad_flow" where
  "step_padding_length u c content_len first_byte data =
     (case data of
        [] \<Rightarrow> out_of_data u
      | b # rest \<Rightarrow>
          (case first_byte of
             None \<Rightarrow> Goto (u\<lparr>up_state := ReadingPaddingLength c content_len (Some b)\<rparr>) rest
           | Some high_byte \<Rightarrow>
               Goto (u\<lparr>up_state := ReadingContent c [] content_len (push_bit 8 (ucast high_byte) OR ucast b)\<rparr>) rest))"

text \<open>
  Running out of data inside the content or the padding gives away also the content of the block
  that is not complete yet, with no command before the first block is.
\<close>

definition give_partial :: "vision_unpadder \<Rightarrow> bytes \<Rightarrow> unpad_flow" where
  "give_partial u partial =
     give (u\<lparr>up_accumulated := up_accumulated u @ partial\<rparr>)
       (if \<not> up_first_block u then Some Continue else None)"

definition step_content ::
  "vision_unpadder \<Rightarrow> unpad_command \<Rightarrow> bytes \<Rightarrow> u16 \<Rightarrow> u16 \<Rightarrow> bytes \<Rightarrow> unpad_flow" where
  "step_content u c partial remaining padding_len data =
     (if remaining > 0 \<and> data = []
      then give_partial (u\<lparr>up_state := ReadingContent c [] remaining padding_len\<rparr>) partial
      else
        let to_read = (if remaining > 0 then min (unat remaining) (length data) else 0);
            partial = partial @ take to_read data;
            data = drop to_read data;
            remaining = remaining - of_nat to_read
        in Goto (u\<lparr>up_state := (if remaining = 0 then ReadingPadding c partial padding_len
                                else ReadingContent c partial remaining padding_len)\<rparr>) data)"

definition step_padding ::
  "vision_unpadder \<Rightarrow> unpad_command \<Rightarrow> bytes \<Rightarrow> u16 \<Rightarrow> bytes \<Rightarrow> unpad_flow" where
  "step_padding u c content remaining data =
     (if remaining > 0 \<and> data = []
      then give_partial (u\<lparr>up_state := ReadingPadding c [] remaining\<rparr>) content
      else
        let to_skip = (if remaining > 0 then min (unat remaining) (length data) else 0);
            data = drop to_skip data;
            remaining = remaining - of_nat to_skip
        in if remaining = 0 then
             let u = u\<lparr>up_first_block := False, up_accumulated := up_accumulated u @ content\<rparr> in
             (case c of
                Continue \<Rightarrow> Goto (u\<lparr>up_state := ReadingCommand\<rparr>) data
              | _ \<Rightarrow> give (u\<lparr>up_state := Done, up_accumulated := up_accumulated u @ data\<rparr>) (Some c))
           else Goto (u\<lparr>up_state := ReadingPadding c content remaining\<rparr>) data)"

definition unpad_step :: "vision_unpadder \<Rightarrow> bytes \<Rightarrow> unpad_flow" where
  "unpad_step u data =
     (case up_state u of
        Initial uuid \<Rightarrow> step_initial u uuid data
      | ReadingCommand \<Rightarrow> step_command u data
      | ReadingContentLength c fb \<Rightarrow> step_content_length u c fb data
      | ReadingPaddingLength c n fb \<Rightarrow> step_padding_length u c n fb data
      | ReadingContent c partial n p \<Rightarrow> step_content u c partial n p data
      | ReadingPadding c content p \<Rightarrow> step_padding u c content p data
      | Done \<Rightarrow> Return u (Inl (InvalidData ''Already in UnpadState::Done'')))"

fun state_rank :: "unpad_state \<Rightarrow> nat" where
  "state_rank (ReadingContent _ _ _ _) = 2"
| "state_rank (ReadingPadding _ _ _) = 1"
| "state_rank _ = 0"

lemma unat_minus_of_nat:
  fixes w :: u16
  assumes "n \<le> unat w"
  shows "unat (w - of_nat n) = unat w - n"
proof -
  have "n < 65536" using assms unat_u16_less [of w] by linarith
  then have n: "unat (of_nat n :: u16) = n" by (rule unat_of_nat_u16)
  then have "of_nat n \<le> w" using assms by (simp add: word_le_nat_alt)
  then show ?thesis using n by (simp add: unat_sub)
qed

lemma unpad_step_decreases:
  assumes "unpad_step u data = Goto u' data'"
  shows "length data' < length data
    \<or> length data' = length data \<and> state_rank (up_state u') < state_rank (up_state u)"
proof (cases "up_state u")
  case (ReadingContent c partial n p)
  then show ?thesis
    using assms
    by (cases "n = 0") (auto simp: unpad_step_def step_content_def give_partial_def give_def Let_def
        unat_gt_0 min_def word_gt_0 split: if_splits)
next
  case (ReadingPadding c content p)
  then show ?thesis
    using assms
    by (cases "p = 0") (auto simp: unpad_step_def step_padding_def give_partial_def give_def Let_def
        unat_gt_0 min_def word_gt_0 split: if_splits unpad_command.splits)
qed (use assms in \<open>auto simp: unpad_step_def step_initial_def step_command_def step_content_length_def
    step_padding_length_def out_of_data_def give_def split: if_splits list.splits sum.splits option.splits\<close>)

function unpad_loop :: "vision_unpadder \<Rightarrow> bytes \<Rightarrow> vision_unpadder \<times> (io_error + unpad_result)" where
  "unpad_loop u data =
     (case unpad_step u data of
        Goto u' data' \<Rightarrow> unpad_loop u' data'
      | Return u' r \<Rightarrow> (u', r))"
  by pat_completeness auto
termination
  by (relation "inv_image (less_than <*lex*> less_than) (\<lambda>(u, data). (length data, state_rank (up_state u)))")
    (auto dest: unpad_step_decreases)

declare unpad_loop.simps [simp del]

definition unpad :: "vision_unpadder \<Rightarrow> bytes \<Rightarrow> vision_unpadder \<times> (io_error + unpad_result)" where
  "unpad u data = unpad_loop (u\<lparr>up_accumulated := []\<rparr>) data"

section \<open>Specification: one byte at a time\<close>

text \<open>
  The state of the specification carries the flag of the first block; \<open>After c\<close> is the state behind
  the final block, where bytes pass unchanged.
\<close>

datatype byte_state =
    AtCommand
  | AtContentLength unpad_command "u8 option"
  | AtPaddingLength unpad_command u16 "u8 option"
  | InContent unpad_command nat nat
  | InPadding unpad_command nat
  | After unpad_command

definition in_padding :: "unpad_command \<Rightarrow> nat \<Rightarrow> bool \<Rightarrow> byte_state \<times> bool" where
  "in_padding c p fb =
     (if p = 0 then (if c = Continue then AtCommand else After c, False) else (InPadding c p, fb))"

definition in_content :: "unpad_command \<Rightarrow> nat \<Rightarrow> nat \<Rightarrow> bool \<Rightarrow> byte_state \<times> bool" where
  "in_content c n p fb = (if n = 0 then in_padding c p fb else (InContent c n p, fb))"

fun unpad_byte :: "byte_state \<times> bool \<Rightarrow> u8 \<Rightarrow> ((byte_state \<times> bool) \<times> bytes) option" where
  "unpad_byte (AtCommand, fb) b =
     map_option (\<lambda>c. ((AtContentLength c None, fb), [])) (result_ok (try_command b))"
| "unpad_byte (AtContentLength c None, fb) b = Some ((AtContentLength c (Some b), fb), [])"
| "unpad_byte (AtContentLength c (Some h), fb) b =
     Some ((AtPaddingLength c (push_bit 8 (ucast h) OR ucast b) None, fb), [])"
| "unpad_byte (AtPaddingLength c n None, fb) b = Some ((AtPaddingLength c n (Some b), fb), [])"
| "unpad_byte (AtPaddingLength c n (Some h), fb) b =
     Some (in_content c (unat n) (unat (push_bit 8 (ucast h) OR ucast b :: u16)) fb, [])"
| "unpad_byte (InContent c n p, fb) b = Some (in_content c (n - 1) p fb, [b])"
| "unpad_byte (InPadding c p, fb) b = Some (in_padding c (p - 1) fb, [])"
| "unpad_byte (After c, fb) b = Some ((After c, fb), [b])"

primrec unpad_bytes :: "byte_state \<times> bool \<Rightarrow> bytes \<Rightarrow> ((byte_state \<times> bool) \<times> bytes) option" where
  "unpad_bytes s [] = Some (s, [])"
| "unpad_bytes s (b # bs) =
     (case unpad_byte s b of None \<Rightarrow> None
      | Some (s', out) \<Rightarrow> map_option (\<lambda>(s'', outs). (s'', out @ outs)) (unpad_bytes s' bs))"

lemma unpad_bytes_append:
  "unpad_bytes s (a @ b) =
     (case unpad_bytes s a of None \<Rightarrow> None
      | Some (s', out) \<Rightarrow> map_option (\<lambda>(s'', outs). (s'', out @ outs)) (unpad_bytes s' b))"
  by (induction a arbitrary: s)
    (auto simp: option.map_comp comp_def case_prod_unfold option.map_ident split: option.split)

lemma unpad_bytes_content:
  "length xs \<le> n \<Longrightarrow> unpad_bytes (in_content c n p fb) (xs @ ys) =
     map_option (\<lambda>(s, out). (s, xs @ out)) (unpad_bytes (in_content c (n - length xs) p fb) ys)"
proof (induction xs arbitrary: n)
  case Nil
  then show ?case by (simp add: case_prod_unfold option.map_ident)
next
  case (Cons x xs)
  then have "unpad_byte (in_content c n p fb) x = Some (in_content c (n - 1) p fb, [x])"
    by (simp add: in_content_def)
  then show ?case using Cons by (simp add: option.map_comp comp_def case_prod_unfold)
qed

lemma unpad_bytes_padding:
  "length xs \<le> n \<Longrightarrow> unpad_bytes (in_padding c n fb) (xs @ ys) =
     unpad_bytes (in_padding c (n - length xs) fb) ys"
proof (induction xs arbitrary: n)
  case (Cons x xs)
  then have "unpad_byte (in_padding c n fb) x = Some (in_padding c (n - 1) fb, [])"
    by (simp add: in_padding_def)
  then show ?case using Cons by (simp add: case_prod_unfold option.map_ident)
qed simp

lemma unpad_bytes_After: "unpad_bytes (After c, fb) xs = Some ((After c, fb), xs)"
  by (induction xs) auto

section \<open>The loop computes the specification\<close>

fun spec_state :: "unpad_state \<Rightarrow> bool \<Rightarrow> byte_state \<times> bool" where
  "spec_state ReadingCommand fb = (AtCommand, fb)"
| "spec_state (ReadingContentLength c b) fb = (AtContentLength c b, fb)"
| "spec_state (ReadingPaddingLength c n b) fb = (AtPaddingLength c n b, fb)"
| "spec_state (ReadingContent c partial n p) fb = in_content c (unat n) (unat p) fb"
| "spec_state (ReadingPadding c content p) fb = in_padding c (unat p) fb"
| "spec_state _ fb = (AtCommand, fb)"

fun held :: "unpad_state \<Rightarrow> bytes" where
  "held (ReadingContent c partial n p) = partial"
| "held (ReadingPadding c content p) = content"
| "held _ = []"

fun running :: "unpad_state \<Rightarrow> bool" where
  "running (Initial _) = False"
| "running Done = False"
| "running _ = True"

fun state_of :: "byte_state \<Rightarrow> unpad_state" where
  "state_of AtCommand = ReadingCommand"
| "state_of (AtContentLength c b) = ReadingContentLength c b"
| "state_of (AtPaddingLength c n b) = ReadingPaddingLength c n b"
| "state_of (InContent c n p) = ReadingContent c [] (of_nat n) (of_nat p)"
| "state_of (InPadding c p) = ReadingPadding c [] (of_nat p)"
| "state_of (After c) = Done"

definition unpadder_of :: "byte_state \<times> bool \<Rightarrow> vision_unpadder" where
  "unpadder_of s = \<lparr>up_state = state_of (fst s), up_first_block = snd s, up_accumulated = []\<rparr>"

fun command_of :: "byte_state \<times> bool \<Rightarrow> unpad_command option" where
  "command_of (After c, fb) = Some c"
| "command_of (s, fb) = (if fb then None else Some Continue)"

definition loop_result :: "vision_unpadder \<Rightarrow> bytes \<Rightarrow> bool" where
  "loop_result u data \<longleftrightarrow>
     (case unpad_bytes (spec_state (up_state u) (up_first_block u)) data of
        None \<Rightarrow> is_ok (snd (unpad_loop u data)) = False
      | Some (s, out) \<Rightarrow> unpad_loop u data =
          (unpadder_of s, Inr \<lparr>ur_content = up_accumulated u @ held (up_state u) @ out, ur_command = command_of s\<rparr>))"

lemma unpad_loop_Goto: "unpad_step u data = Goto u' data' \<Longrightarrow> unpad_loop u data = unpad_loop u' data'"
  and unpad_loop_Return: "unpad_step u data = Return u' r \<Longrightarrow> unpad_loop u data = (u', r)"
  by (subst unpad_loop.simps, simp)+

text \<open>A round that goes on keeps the result, when the specification does the same.\<close>

lemma loop_result_Goto:
  assumes "unpad_step u data = Goto u' data'" and "loop_result u' data'"
    and "unpad_bytes (spec_state (up_state u) (up_first_block u)) data =
      map_option (\<lambda>(s, out). (s, mid @ out)) (unpad_bytes (spec_state (up_state u') (up_first_block u')) data')"
    and "up_accumulated u' @ held (up_state u') = up_accumulated u @ held (up_state u) @ mid"
  shows "loop_result u data"
  using assms(2,3) append_assoc [of "up_accumulated u'" "held (up_state u')"] assms(4)
  unfolding loop_result_def unpad_loop_Goto [OF assms(1)]
  by (auto split: option.splits)

declare option.map_id [simp]

lemma loop_result_content:
  assumes st: "up_state u = ReadingContent c partial n p"
    and IH: "\<And>u' data'. unpad_step u data = Goto u' data' \<Longrightarrow> running (up_state u') \<Longrightarrow>
      up_first_block u' \<longrightarrow> up_accumulated u' = [] \<Longrightarrow> loop_result u' data'"
    and acc: "up_first_block u \<longrightarrow> up_accumulated u = []"
  shows "loop_result u data"
proof (cases "n > 0 \<and> data = []")
  case True
  then have "unpad_step u data = Return (u\<lparr>up_state := ReadingContent c [] n p, up_accumulated := []\<rparr>)
    (Inr \<lparr>ur_content = up_accumulated u @ partial, ur_command = if up_first_block u then None else Some Continue\<rparr>)"
    using st by (simp add: unpad_step_def step_content_def give_partial_def give_def)
  then show ?thesis
    using True st
    by (auto simp: loop_result_def unpad_loop_Return in_content_def unpadder_of_def word_gt_0 unat_eq_0)
next
  case False
  define k where "k = (if n > 0 then min (unat n) (length data) else 0)"
  let ?fb = "up_first_block u"
  have k: "k \<le> unat n" "k \<le> length data" by (auto simp: k_def)
  let ?u = "u\<lparr>up_state := (if n - of_nat k = 0 then ReadingPadding c (partial @ take k data) p
    else ReadingContent c (partial @ take k data) (n - of_nat k) p)\<rparr>"
  have step: "unpad_step u data = Goto ?u (drop k data)"
    using False st by (auto simp: unpad_step_def step_content_def Let_def k_def)
  have s: "spec_state (up_state ?u) (up_first_block ?u) = in_content c (unat n - k) (unat p) ?fb"
    using unat_minus_of_nat [OF k(1)] by (auto simp: in_content_def unat_eq_0)
  have "unpad_bytes (in_content c (unat n) (unat p) ?fb) (take k data @ drop k data) =
    map_option (\<lambda>(s, out). (s, take k data @ out))
      (unpad_bytes (in_content c (unat n - k) (unat p) ?fb) (drop k data))"
    using k unpad_bytes_content [of "take k data" "unat n" c "unat p" ?fb "drop k data"]
    by (simp only: length_take min.absorb2)
  then have bytes: "unpad_bytes (spec_state (up_state u) ?fb) data =
    map_option (\<lambda>(s, out). (s, take k data @ out))
      (unpad_bytes (spec_state (up_state ?u) (up_first_block ?u)) (drop k data))"
    unfolding s using st by simp
  show ?thesis
    by (rule loop_result_Goto [OF step IH [OF step] bytes]) (use acc st in auto)
qed

lemma loop_result_padding:
  assumes st: "up_state u = ReadingPadding c content p"
    and IH: "\<And>u' data'. unpad_step u data = Goto u' data' \<Longrightarrow> running (up_state u') \<Longrightarrow>
      up_first_block u' \<longrightarrow> up_accumulated u' = [] \<Longrightarrow> loop_result u' data'"
    and acc: "up_first_block u \<longrightarrow> up_accumulated u = []"
  shows "loop_result u data"
proof (cases "p > 0 \<and> data = []")
  case True
  then have "unpad_step u data = Return (u\<lparr>up_state := ReadingPadding c [] p, up_accumulated := []\<rparr>)
    (Inr \<lparr>ur_content = up_accumulated u @ content, ur_command = if up_first_block u then None else Some Continue\<rparr>)"
    using st by (simp add: unpad_step_def step_padding_def give_partial_def give_def)
  then show ?thesis
    using True st
    by (auto simp: loop_result_def unpad_loop_Return in_padding_def unpadder_of_def word_gt_0 unat_eq_0)
next
  case False
  define k where "k = (if p > 0 then min (unat p) (length data) else 0)"
  let ?fb = "up_first_block u"
  have k: "k \<le> unat p" "k \<le> length data" by (auto simp: k_def)
  have rem: "p - of_nat k = 0 \<longleftrightarrow> unat p - k = 0"
    using unat_minus_of_nat [OF k(1)] by (metis unat_eq_0)
  have "unpad_bytes (in_padding c (unat p) ?fb) (take k data @ drop k data) =
    unpad_bytes (in_padding c (unat p - k) ?fb) (drop k data)"
    using k unpad_bytes_padding [of "take k data" "unat p" c ?fb "drop k data"]
    by (simp only: length_take min.absorb2)
  then have bytes: "unpad_bytes (spec_state (up_state u) ?fb) data =
    unpad_bytes (in_padding c (unat p - k) ?fb) (drop k data)"
    using st by simp
  have flow: "unpad_step u data =
    (if p - of_nat k = 0 then
       let u = u\<lparr>up_first_block := False, up_accumulated := up_accumulated u @ content\<rparr> in
       (case c of
          Continue \<Rightarrow> Goto (u\<lparr>up_state := ReadingCommand\<rparr>) (drop k data)
        | _ \<Rightarrow> give (u\<lparr>up_state := Done, up_accumulated := up_accumulated u @ drop k data\<rparr>) (Some c))
     else Goto (u\<lparr>up_state := ReadingPadding c content (p - of_nat k)\<rparr>) (drop k data))"
    by (simp only: unpad_step_def st unpad_state.case step_padding_def if_not_P [OF False] Let_def k_def)
  consider (more) "p - of_nat k \<noteq> 0" | (another) "p - of_nat k = 0" "c = Continue"
    | (final) "p - of_nat k = 0" "c \<noteq> Continue" by blast
  then show ?thesis
  proof cases
    case more
    let ?u = "u\<lparr>up_state := ReadingPadding c content (p - of_nat k)\<rparr>"
    have step: "unpad_step u data = Goto ?u (drop k data)" unfolding flow using more by simp
    show ?thesis
      by (rule loop_result_Goto [OF step IH [OF step], of "[]"])
        (use acc st bytes unat_minus_of_nat [OF k(1)] in simp_all)
  next
    case another
    let ?u = "u\<lparr>up_first_block := False, up_accumulated := up_accumulated u @ content, up_state := ReadingCommand\<rparr>"
    have step: "unpad_step u data = Goto ?u (drop k data)" unfolding flow using another by simp
    have "in_padding c (unat p - k) ?fb = (AtCommand, False)" using rem another by (simp add: in_padding_def)
    then have cmd: "unpad_bytes (spec_state (up_state u) ?fb) data = unpad_bytes (AtCommand, False) (drop k data)"
      using bytes by simp
    show ?thesis
      by (rule loop_result_Goto [OF step IH [OF step], of "[]"])
        (use st cmd in simp_all)
  next
    case final
    then have "unpad_step u data = Return (u\<lparr>up_first_block := False, up_accumulated := [], up_state := Done\<rparr>)
      (Inr \<lparr>ur_content = up_accumulated u @ content @ drop k data, ur_command = Some c\<rparr>)"
      unfolding flow by (cases c) (simp_all add: give_def)
    from unpad_loop_Return [OF this] show ?thesis
      using final bytes rem st
      by (simp add: loop_result_def in_padding_def unpad_bytes_After unpadder_of_def)
  qed
qed

lemma loop_computes_spec:
  assumes "running (up_state u)" and "up_first_block u \<longrightarrow> up_accumulated u = []"
  shows "loop_result u data"
  using assms
proof (induction u data rule: unpad_loop.induct)
  case (1 u data)
  note IH = "1.IH" and acc = "1.prems"(2)
  have empty: "loop_result u []" if "unpad_step u [] = out_of_data u"
    "spec_state (up_state u) (up_first_block u) = (s, up_first_block u)" "state_of s = up_state u"
    "held (up_state u) = []" "\<forall>c. s \<noteq> After c" for s
    using that acc unpad_loop_Return [of u "[]"]
    by (cases s) (auto simp: loop_result_def out_of_data_def give_def unpadder_of_def default_result_def)
  show ?case
  proof (cases "up_state u")
    case ReadingCommand
    show ?thesis
    proof (cases data)
      case Nil
      then show ?thesis using empty [of AtCommand] ReadingCommand by (simp add: unpad_step_def step_command_def)
    next
      case (Cons b rest)
      show ?thesis
      proof (cases "try_command b")
        case (Inl e)
        then have "unpad_step u data = Return u (Inl e)"
          using ReadingCommand Cons by (simp add: unpad_step_def step_command_def)
        then show ?thesis using ReadingCommand Cons Inl by (simp add: loop_result_def unpad_loop_Return)
      next
        case (Inr c)
        have step: "unpad_step u data = Goto (u\<lparr>up_state := ReadingContentLength c None\<rparr>) rest"
          using ReadingCommand Cons Inr by (simp add: unpad_step_def step_command_def)
        show ?thesis
          by (rule loop_result_Goto [OF step IH [OF step], of "[]"]) (use acc ReadingCommand Cons Inr in simp_all)
      qed
    qed
  next
    case (ReadingContentLength c fb)
    show ?thesis
    proof (cases data)
      case Nil
      then show ?thesis
        using empty [of "AtContentLength c fb"] ReadingContentLength by (simp add: unpad_step_def step_content_length_def)
    next
      case (Cons b rest)
      then have step: "unpad_step u data = Goto (u\<lparr>up_state := (case fb of None \<Rightarrow> ReadingContentLength c (Some b)
          | Some h \<Rightarrow> ReadingPaddingLength c (push_bit 8 (ucast h) OR ucast b) None)\<rparr>) rest"
        using ReadingContentLength by (simp add: unpad_step_def step_content_length_def split: option.split)
      show ?thesis
        by (rule loop_result_Goto [OF step IH [OF step], of "[]"])
          (use acc ReadingContentLength Cons in \<open>simp_all split: option.splits\<close>)
    qed
  next
    case (ReadingPaddingLength c n fb)
    show ?thesis
    proof (cases data)
      case Nil
      then show ?thesis
        using empty [of "AtPaddingLength c n fb"] ReadingPaddingLength by (simp add: unpad_step_def step_padding_length_def)
    next
      case (Cons b rest)
      then have step: "unpad_step u data = Goto (u\<lparr>up_state := (case fb of None \<Rightarrow> ReadingPaddingLength c n (Some b)
          | Some h \<Rightarrow> ReadingContent c [] n (push_bit 8 (ucast h) OR ucast b))\<rparr>) rest"
        using ReadingPaddingLength by (simp add: unpad_step_def step_padding_length_def split: option.split)
      show ?thesis
        by (rule loop_result_Goto [OF step IH [OF step], of "[]"])
          (use acc ReadingPaddingLength Cons in \<open>simp_all split: option.splits\<close>)
    qed
  next
    case (ReadingContent c partial n p)
    show ?thesis by (rule loop_result_content [OF ReadingContent IH acc])
  next
    case (ReadingPadding c content p)
    show ?thesis by (rule loop_result_padding [OF ReadingPadding IH acc])
  qed (use "1.prems"(1) in auto)
qed

section \<open>Chunks\<close>

text \<open>
  How the stream uses the reader: until the final command its content is handed on, afterwards the
  bytes bypass it.
\<close>

definition unpad_chunk :: "vision_unpadder \<Rightarrow> bytes \<Rightarrow> (vision_unpadder \<times> bytes) option" where
  "unpad_chunk u c =
     (if up_state u = Done then Some (u, c)
      else case unpad u c of (u', r) \<Rightarrow> map_option (\<lambda>r. (u', ur_content r)) (result_ok r))"

fun byte_state_wf :: "byte_state \<times> bool \<Rightarrow> bool" where
  "byte_state_wf (InContent c n p, fb) \<longleftrightarrow> 0 < n \<and> n < 65536 \<and> p < 65536"
| "byte_state_wf (InPadding c p, fb) \<longleftrightarrow> 0 < p \<and> p < 65536"
| "byte_state_wf _ \<longleftrightarrow> True"

lemma in_content_wf: "n < 65536 \<Longrightarrow> p < 65536 \<Longrightarrow> byte_state_wf (in_content c n p fb)"
  by (simp add: in_content_def in_padding_def)

lemma unpad_byte_wf: "unpad_byte s b = Some (s', out) \<Longrightarrow> byte_state_wf s \<Longrightarrow> byte_state_wf s'"
  by (induction s b rule: unpad_byte.induct) (auto simp: in_content_wf, auto simp: in_padding_def)

lemma unpad_bytes_wf: "unpad_bytes s bs = Some (s', out) \<Longrightarrow> byte_state_wf s \<Longrightarrow> byte_state_wf s'"
  by (induction bs arbitrary: s s' out) (auto dest: unpad_byte_wf split: option.splits)

lemma spec_state_of:
  "byte_state_wf (s, fb) \<Longrightarrow> \<forall>c. s \<noteq> After c \<Longrightarrow>
     spec_state (state_of s) fb = (s, fb) \<and> running (state_of s) \<and> held (state_of s) = []"
  by (cases s) (auto simp: in_content_def in_padding_def unat_of_nat_u16)

lemma unpad_chunk_spec:
  assumes "byte_state_wf s"
  shows "unpad_chunk (unpadder_of s) c = map_option (\<lambda>(s', out). (unpadder_of s', out)) (unpad_bytes s c)"
proof (cases "\<exists>k. fst s = After k")
  case True
  then obtain k fb where "s = (After k, fb)" by (cases s) auto
  then show ?thesis by (simp add: unpad_chunk_def unpad_bytes_After unpadder_of_def)
next
  case False
  obtain t fb where s: "s = (t, fb)" by force
  have t: "spec_state (state_of t) fb = s" "running (state_of t)" "held (state_of t) = []"
    using spec_state_of [of t fb] assms False s by auto
  have "loop_result (unpadder_of s) c"
    by (rule loop_computes_spec) (use t s in \<open>simp_all add: unpadder_of_def\<close>)
  moreover have "state_of t \<noteq> Done" using t(2) by auto
  moreover have "unpadder_of s\<lparr>up_accumulated := []\<rparr> = unpadder_of s" by (simp add: unpadder_of_def)
  ultimately show ?thesis
    using t s
    by (cases "unpad_loop (unpadder_of s) c")
      (auto simp: unpad_chunk_def unpad_def loop_result_def is_ok_def result_ok_def
        unpadder_of_def [of "(t, fb)"] split: option.splits sum.splits)
qed

definition unpadder_ready :: "vision_unpadder \<Rightarrow> bool" where
  "unpadder_ready u \<longleftrightarrow> (\<exists>s. u = unpadder_of s \<and> byte_state_wf s)"

interpretation unpadder: chunked_decoder unpad_chunk unpadder_ready
proof unfold_locales
  fix u and a b :: bytes
  assume "unpadder_ready u"
  then obtain s where u: "u = unpadder_of s" and s: "byte_state_wf s" by (auto simp: unpadder_ready_def)
  show "unpad_chunk u [] = Some (u, [])" by (simp add: u unpad_chunk_spec [OF s])
  show "unpadder_ready u'" if "unpad_chunk u a = Some (u', out)" for u' out
    using that s by (auto simp: u unpad_chunk_spec unpadder_ready_def dest: unpad_bytes_wf)
  show "unpad_chunk u (a @ b) = (case unpad_chunk u a of None \<Rightarrow> None
    | Some (u', out) \<Rightarrow> map_option (\<lambda>(u'', outs). (u'', out @ outs)) (unpad_chunk u' b))"
  proof (cases "unpad_bytes s a")
    case None
    then show ?thesis by (simp add: u unpad_chunk_spec [OF s] unpad_bytes_append)
  next
    case (Some x)
    obtain s' out where x: "x = (s', out)" by (cases x)
    have "byte_state_wf s'" using unpad_bytes_wf [of s a s' out] Some x s by simp
    then show ?thesis
      using Some x
      by (simp add: u unpad_chunk_spec [OF s] unpad_chunk_spec unpad_bytes_append option.map_comp
          comp_def case_prod_unfold)
  qed
qed

section \<open>What the writer writes\<close>

record block =
  b_data :: bytes
  b_command :: unpad_command
  b_tls :: bool
  b_range :: "nat \<Rightarrow> nat"
  b_fill :: "nat \<Rightarrow> bytes"

text \<open>The generator draws a value of the range and fills as many bytes as it is asked to.\<close>

definition rng_ok :: "block \<Rightarrow> bool" where
  "rng_ok w \<longleftrightarrow> (\<forall>n > 0. b_range w n < n) \<and> (\<forall>n. length (b_fill w n) = n)"

fun command_code :: "unpad_command \<Rightarrow> u8" where
  "command_code Continue = 0"
| "command_code End = 1"
| "command_code Direct = 2"

fun padded :: "bytes option \<Rightarrow> block list \<Rightarrow> bytes" where
  "padded uuid [] = []"
| "padded (Some uuid) (w # ws) =
     pad_with_uuid_and_command (b_range w) (b_fill w) (b_data w) uuid (command_code (b_command w)) (b_tls w)
     @ padded None ws"
| "padded None (w # ws) =
     pad_with_command (b_range w) (b_fill w) (b_data w) (command_code (b_command w)) (b_tls w)
     @ padded None ws"

lemma calculate_padding_le: "calculate_padding_length r n t \<le> MAX_PADDING_SIZE"
  by (auto simp: calculate_padding_length_def Let_def min_def MAX_PADDING_SIZE_def)

lemma u16_of_bytes:
  fixes w :: u16
  shows "push_bit 8 (ucast (ucast (drop_bit 8 w) :: u8)) OR ucast (ucast w :: u8) = w"
  using from_be_pair [of w] by (simp add: from_be_def)

lemma unpad_bytes_block:
  assumes "length data < 65536" and "length padding < 65536"
  shows "unpad_bytes (AtCommand, fb) ([command_code c] @ be16 (of_nat (length data))
      @ be16 (of_nat (length padding)) @ data @ padding @ rest) =
    map_option (\<lambda>(s, out). (s, data @ out)) (unpad_bytes (if c = Continue then AtCommand else After c, False) rest)"
proof -
  have "try_command (command_code c) = Inr c" by (cases c) (simp_all add: try_command_def)
  moreover have "unpad_bytes (in_content c (length data) (length padding) fb) (data @ padding @ rest) =
    map_option (\<lambda>(s, out). (s, data @ out)) (unpad_bytes (if c = Continue then AtCommand else After c, False) rest)"
    using unpad_bytes_content [of data "length data"] unpad_bytes_padding [of padding "length padding"]
    by (simp add: in_content_def [of c 0] in_padding_def [of c 0])
  ultimately show ?thesis
    using assms by (simp add: be16_pair u16_of_bytes unat_of_nat_u16)
qed

lemma unpad_bytes_padded_block:
  assumes "rng_ok w" and "length (b_data w) < 65536"
  shows "unpad_bytes (AtCommand, fb) (padded None [w] @ rest) = map_option (\<lambda>(s, out). (s, b_data w @ out))
    (unpad_bytes (if b_command w = Continue then AtCommand else After (b_command w), False) rest)"
proof -
  let ?p = "calculate_padding_length (b_range w) (length (b_data w)) (b_tls w)"
  have p: "length (b_fill w ?p) = ?p" "?p < 65536"
    using assms(1) calculate_padding_le [of "b_range w" "length (b_data w)" "b_tls w"]
    by (auto simp: rng_ok_def MAX_PADDING_SIZE_def)
  have "padded None [w] = [command_code (b_command w)] @ be16 (of_nat (length (b_data w)))
      @ be16 (of_nat (length (b_fill w ?p))) @ b_data w @ b_fill w ?p"
    using assms(2) p by (auto simp: pad_with_command_def pad_def Let_def unat_of_nat_u16)
  then show ?thesis
    using unpad_bytes_block [OF assms(2), of "b_fill w ?p" fb "b_command w" rest] p by simp
qed

lemma padded_None_append: "padded None (ws @ vs) = padded None ws @ padded None vs"
  by (induction ws) auto

lemma padded_Some: "ws \<noteq> [] \<Longrightarrow> padded (Some uuid) ws = uuid @ padded None ws"
  by (cases ws) (simp_all add: pad_with_uuid_and_command_def pad_with_command_def pad_def Let_def)

lemma unpad_bytes_padded:
  assumes "\<forall>w \<in> set ws. rng_ok w \<and> length (b_data w) < 65536 \<and> b_command w = Continue"
    and "rng_ok v" "length (b_data v) < 65536" "b_command v \<noteq> Continue"
  shows "unpad_bytes (AtCommand, fb) (padded None (ws @ [v]) @ rest) =
    Some ((After (b_command v), False), concat (map b_data ws) @ b_data v @ rest)"
  using assms(1)
proof (induction ws arbitrary: fb)
  case Nil
  then show ?case using unpad_bytes_padded_block [OF assms(2,3)] assms(4) by (simp add: unpad_bytes_After)
next
  case (Cons w ws)
  then have "unpad_bytes (AtCommand, fb) (padded None [w] @ padded None (ws @ [v]) @ rest) =
    Some ((After (b_command v), False), b_data w @ concat (map b_data ws) @ b_data v @ rest)"
    using unpad_bytes_padded_block [of w fb] by simp
  then show ?case using padded_None_append [of "[w]" "ws @ [v]"] by simp
qed

lemma unpad_chunk_first:
  assumes "length uuid = 16" and "16 \<le> length c" and "take 16 c = uuid"
  shows "unpad_chunk (unpadder_new uuid) c = unpad_chunk (unpadder_of (AtCommand, True)) (drop 16 c)"
proof -
  have "unpad_step (unpadder_new uuid) c = Goto (unpadder_of (AtCommand, True)) (drop 16 c)"
    using assms by (simp add: unpad_step_def step_initial_def unpadder_new_def unpadder_of_def)
  then show ?thesis
    using unpad_loop_Goto by (simp add: unpad_chunk_def unpad_def unpadder_new_def unpadder_of_def)
qed


text \<open>
  The padding hides the length of a short TLS record: what the writer adds to one of fewer than
  900 bytes brings it to at least 900 and fewer than 1400 bytes, and no block grows beyond 8171
  bytes of content and padding by padding.
\<close>

theorem padding_length_bounds:
  assumes "\<forall>n > 0. rand_range n < n"
  shows "content_len + calculate_padding_length rand_range content_len is_tls \<le> max content_len MAX_PADDING_SIZE
    \<and> (if is_tls \<and> content_len < 900
       then 900 \<le> content_len + calculate_padding_length rand_range content_len is_tls
         \<and> content_len + calculate_padding_length rand_range content_len is_tls < 1400
       else calculate_padding_length rand_range content_len is_tls < 256)"
proof -
  have "rand_range LONG_PADDING_RANDOM_MAX < 500" "rand_range SHORT_PADDING_RANDOM_MAX < 256"
    using assms by (simp_all add: LONG_PADDING_RANDOM_MAX_def SHORT_PADDING_RANDOM_MAX_def)
  then show ?thesis
    by (auto simp: calculate_padding_length_def Let_def MAX_PADDING_SIZE_def LONG_PADDING_MIN_def)
qed

text \<open>
  The reader keeps no bytes while it waits for the identifier: a first chunk shorter than 16 bytes
  is dropped, and so is every later short chunk of a stream without padding.
\<close>

lemma short_first_chunk_lost:
  "length c < 16 \<Longrightarrow> unpad (unpadder_new uuid) c = (unpadder_new uuid, Inr default_result)"
  using unpad_loop_Return [of "unpadder_new uuid" c]
  by (simp add: unpad_def unpad_step_def step_initial_def unpadder_new_def)

text \<open>A block of more than 65535 bytes announces its length modulo 65536 and is not read back.\<close>

lemma long_block_length_wraps:
  assumes "length data = 65536"
  shows "take 2 (drop 1 (pad r f data None c t)) = be16 0"
proof -
  have "(of_nat 65536 :: u16) = 0" by simp
  then show ?thesis using assms by (simp add: pad_def Let_def be16_pair)
qed

definition sample_block :: "unpad_command \<Rightarrow> bytes \<Rightarrow> block" where
  "sample_block c d = \<lparr>b_data = d, b_command = c, b_tls = False, b_range = (\<lambda>n. 1 mod n), b_fill = (\<lambda>n. replicate n 0)\<rparr>"


theorem padding_length_bounds_witness:
  "900 \<le> 100 + calculate_padding_length (\<lambda>n. n - 1) 100 True
    \<and> 100 + calculate_padding_length (\<lambda>n. n - 1) 100 True < 1400"
  using padding_length_bounds [of "\<lambda>n. n - 1" 100 True] by simp

end
