(* ===== verification/VisionFilter.thy ===== *)
theory VisionFilter
  imports Prelude
begin

text \<open>
  What XTLS-Vision learns from the TLS records it relays: the checked cursor of \<open>buf_reader.rs\<close>, the
  ServerHello parser of \<open>vision/vision_tls_util.rs\<close> and the record filter of
  \<open>vision/vision_filter.rs\<close>, which decides whether the connection may leave TLS.
\<close>

section \<open>The cursor\<close>

record buf_reader =
  br_buf :: bytes
  br_pos :: nat

definition br_new :: "bytes \<Rightarrow> buf_reader" where
  "br_new buf = \<lparr>br_buf = buf, br_pos = 0\<rparr>"

definition br_is_consumed :: "buf_reader \<Rightarrow> bool" where
  "br_is_consumed r \<longleftrightarrow> br_pos r = length (br_buf r)"

definition br_remaining :: "buf_reader \<Rightarrow> nat" where
  "br_remaining r = length (br_buf r) - br_pos r"

abbreviation br_advance :: "nat \<Rightarrow> buf_reader \<Rightarrow> buf_reader" where
  "br_advance n r \<equiv> r\<lparr>br_pos := br_pos r + n\<rparr>"

definition br_read_u8 :: "buf_reader \<Rightarrow> io_error + u8 \<times> buf_reader" where
  "br_read_u8 r =
     (if br_pos r \<ge> length (br_buf r) then Inl UnexpectedEof
      else rbind (index (br_buf r) (br_pos r)) (\<lambda>v. Inr (v, br_advance 1 r)))"

definition br_read_u16_be :: "buf_reader \<Rightarrow> io_error + u16 \<times> buf_reader" where
  "br_read_u16_be r =
     (if br_pos r + 1 \<ge> length (br_buf r) then Inl UnexpectedEof
      else rbind (index_u16 (br_buf r) (br_pos r)) (\<lambda>v. Inr (v, br_advance 2 r)))"

definition br_read_u24_be :: "buf_reader \<Rightarrow> io_error + u32 \<times> buf_reader" where
  "br_read_u24_be r =
     (if br_pos r + 2 \<ge> length (br_buf r) then Inl UnexpectedEof
      else rbind (index (br_buf r) (br_pos r)) (\<lambda>a.
           rbind (index (br_buf r) (br_pos r + 1)) (\<lambda>b.
           rbind (index (br_buf r) (br_pos r + 2)) (\<lambda>c.
           Inr (from_be [0, a, b, c], br_advance 3 r)))))"

definition br_read_slice :: "nat \<Rightarrow> buf_reader \<Rightarrow> io_error + bytes \<times> buf_reader" where
  "br_read_slice len r =
     (if br_pos r + len > length (br_buf r) then Inl UnexpectedEof
      else rbind (slice (br_buf r) (br_pos r) (br_pos r + len)) (\<lambda>s. Inr (s, br_advance len r)))"

definition br_skip :: "nat \<Rightarrow> buf_reader \<Rightarrow> io_error + buf_reader" where
  "br_skip amount r =
     (if br_pos r + amount > length (br_buf r) then Inl UnexpectedEof else Inr (br_advance amount r))"

section \<open>ServerHello\<close>

definition RETRY_REQUEST_RANDOM_BYTES :: bytes where
  "RETRY_REQUEST_RANDOM_BYTES =
     [0xCF, 0x21, 0xAD, 0x74, 0xE5, 0x9A, 0x61, 0x11, 0xBE, 0x1D, 0x8C, 0x02, 0x1E, 0x65, 0xB8, 0x91,
      0xC2, 0xA2, 0x11, 0x16, 0x7A, 0xBB, 0x8C, 0x5E, 0x07, 0x9E, 0x09, 0xE2, 0xC8, 0xA8, 0x33, 0x9C]"

record parsed_server_hello =
  sh_server_random :: bytes
  sh_cipher_suite :: u16
  sh_session_id_len :: u8
  sh_is_tls13 :: bool

definition ensure :: "bool \<Rightarrow> string \<Rightarrow> io_error + unit" where
  "ensure c msg = (if c then Inr () else Inl (InvalidData msg))"

text \<open>One extension: its effect on \<open>is_tls13\<close> and the cursor behind it.\<close>

definition read_extension :: "buf_reader \<Rightarrow> bool \<Rightarrow> io_error + bool \<times> buf_reader" where
  "read_extension r is_tls13 =
     rbind (br_read_u16_be r) (\<lambda>(ext_type, r).
     rbind (br_read_u16_be r) (\<lambda>(ext_len, r).
     if ext_type = 0x002b then
       rbind (ensure (ext_len = 2) ''supported_versions extension should be 2 bytes'') (\<lambda>_.
       rbind (br_read_slice 2 r) (\<lambda>(v, r).
       rbind (index v 0) (\<lambda>v0. rbind (index v 1) (\<lambda>v1. Inr (v0 = 3 \<and> v1 = 4, r)))))
     else rbind (br_skip (unat ext_len) r) (\<lambda>r. Inr (is_tls13, r))))"

lemma read_extension_advances:
  "read_extension r b = Inr (b', r') \<Longrightarrow> br_buf r' = br_buf r \<and> br_pos r + 4 \<le> br_pos r' \<and> br_pos r' \<le> length (br_buf r)"
  by (auto simp: read_extension_def br_read_u16_be_def br_read_slice_def br_skip_def split: if_splits)

function extensions_loop :: "buf_reader \<Rightarrow> bool \<Rightarrow> io_error + bool" where
  "extensions_loop r is_tls13 =
     (if br_is_consumed r then Inr is_tls13
      else rbind (read_extension r is_tls13) (\<lambda>(b, r'). extensions_loop r' b))"
  by pat_completeness auto
termination
  by (relation "measure (\<lambda>(r, _). length (br_buf r) - br_pos r)")
    (auto dest!: read_extension_advances)

declare extensions_loop.simps [simp del]

definition parse_server_hello :: "bytes \<Rightarrow> io_error + parsed_server_hello" where
  "parse_server_hello frame =
     rbind (ensure (length frame \<ge> 47) ''ServerHello frame too short'') (\<lambda>_.
     rbind (index frame 0) (\<lambda>content_type.
     rbind (ensure (content_type = 0x16) ''expected handshake content type'') (\<lambda>_.
     rbind (index frame 1) (\<lambda>major.
     rbind (index frame 2) (\<lambda>minor.
     rbind (ensure (major = 3 \<and> minor = 3) ''unexpected record TLS version'') (\<lambda>_.
     rbind (slice frame 5 (length frame)) (\<lambda>body.
     rbind (br_read_u8 (br_new body)) (\<lambda>(handshake_type, r).
     rbind (ensure (handshake_type = 2) ''expected ServerHello handshake type'') (\<lambda>_.
     rbind (br_read_u24_be r) (\<lambda>(message_len, r).
     rbind (ensure (br_remaining r \<ge> unat message_len) ''ServerHello message length exceeds frame'') (\<lambda>_.
     rbind (br_read_u8 r) (\<lambda>(version_major, r).
     rbind (br_read_u8 r) (\<lambda>(version_minor, r).
     rbind (ensure (version_major = 3 \<and> version_minor = 3) ''expected TLS version 3.3'') (\<lambda>_.
     rbind (br_read_slice 32 r) (\<lambda>(server_random, r).
     rbind (ensure (server_random \<noteq> RETRY_REQUEST_RANDOM_BYTES) ''server sent a HelloRetryRequest'') (\<lambda>_.
     rbind (br_read_u8 r) (\<lambda>(session_id_len, r).
     rbind (ensure (session_id_len \<le> 32) ''invalid session_id_len'') (\<lambda>_.
     rbind (br_skip (unat session_id_len) r) (\<lambda>r.
     rbind (br_read_u16_be r) (\<lambda>(cipher_suite, r).
     rbind (br_skip 1 r) (\<lambda>r.
     rbind
       (if br_is_consumed r then Inr False
        else rbind (br_read_u16_be r) (\<lambda>(extensions_len, r).
             rbind (ensure (br_remaining r \<ge> unat extensions_len) ''extensions length exceeds remaining data'') (\<lambda>_.
             rbind (br_read_slice (unat extensions_len) r) (\<lambda>(extensions_data, r).
             extensions_loop (br_new extensions_data) False)))) (\<lambda>is_tls13.
     Inr \<lparr>sh_server_random = server_random, sh_cipher_suite = cipher_suite,
          sh_session_id_len = session_id_len, sh_is_tls13 = is_tls13\<rparr>))))))))))))))))))))))"

section \<open>The filter\<close>

record vision_filter =
  vf_record_filter_count :: nat
  vf_is_tls :: bool
  vf_is_tls12_or_above :: bool
  vf_supports_xtls :: bool

definition filter_with_record_count :: "nat \<Rightarrow> vision_filter" where
  "filter_with_record_count n =
     \<lparr>vf_record_filter_count = n, vf_is_tls = False, vf_is_tls12_or_above = False, vf_supports_xtls = False\<rparr>"

definition filter_new :: vision_filter where
  "filter_new = filter_with_record_count 8"

definition is_filtering :: "vision_filter \<Rightarrow> bool" where
  "is_filtering f \<longleftrightarrow> vf_record_filter_count f > 0"

definition decrement_filter_count :: "vision_filter \<Rightarrow> vision_filter" where
  "decrement_filter_count f = f\<lparr>vf_record_filter_count := vf_record_filter_count f - 1\<rparr>"

definition stop_filtering :: "vision_filter \<Rightarrow> vision_filter" where
  "stop_filtering f = f\<lparr>vf_record_filter_count := 0\<rparr>"

definition detect_client_hello :: "vision_filter \<Rightarrow> bytes \<Rightarrow> vision_filter" where
  "detect_client_hello f data =
     (if \<not> vf_is_tls f \<and> length data \<ge> 6 \<and> data ! 0 = 0x16 \<and> data ! 1 = 0x03 \<and> data ! 5 = 0x01
      then f\<lparr>vf_is_tls := True\<rparr> else f)"

definition detect_server_hello :: "vision_filter \<Rightarrow> bytes \<Rightarrow> vision_filter" where
  "detect_server_hello f data =
     (if \<not> vf_is_tls12_or_above f \<and> length data \<ge> 6 \<and> data ! 0 = 0x16 \<and> data ! 1 = 0x03
         \<and> data ! 2 = 0x03 \<and> data ! 5 = 0x02
      then
        let f = f\<lparr>vf_is_tls12_or_above := True, vf_is_tls := True\<rparr> in
        (case parse_server_hello data of
           Inr parsed \<Rightarrow>
             if sh_is_tls13 parsed then
               stop_filtering (if sh_cipher_suite parsed = 0x1305 then f else f\<lparr>vf_supports_xtls := True\<rparr>)
             else f
         | Inl e \<Rightarrow> stop_filtering f)
      else f)"

definition filter_record :: "vision_filter \<Rightarrow> bytes \<Rightarrow> vision_filter" where
  "filter_record f data =
     (if vf_record_filter_count f = 0 then f
      else
        let f = decrement_filter_count f in
        if length data < 5 then stop_filtering f
        else detect_server_hello (detect_client_hello f data) data)"

section \<open>No input makes the parser panic\<close>

definition no_panic :: "io_error + 'a \<Rightarrow> bool" where
  "no_panic r \<longleftrightarrow> r \<noteq> Inl Panic"

named_theorems panic_free "operations that never panic"

lemma no_panic_rbind: "no_panic r \<Longrightarrow> (\<And>x. r = Inr x \<Longrightarrow> no_panic (f x)) \<Longrightarrow> no_panic (rbind r f)"
  by (cases r) (auto simp: no_panic_def)

lemma no_panic_Inr [panic_free]: "no_panic (Inr x)"
  by (simp add: no_panic_def)

lemma no_panic_ensure [panic_free]: "no_panic (ensure c m)"
  by (simp add: no_panic_def ensure_def)

lemma no_panic_reads [panic_free]:
  "no_panic (br_read_u8 r)" "no_panic (br_read_u16_be r)" "no_panic (br_read_u24_be r)"
  "no_panic (br_read_slice n r)" "no_panic (br_skip n r)"
  by (auto simp: no_panic_def br_read_u8_def br_read_u16_be_def br_read_u24_be_def br_read_slice_def
      br_skip_def index_u16_def)

lemma no_panic_index [panic_free]: "i < length b \<Longrightarrow> no_panic (index b i)"
  and no_panic_slice [panic_free]: "i \<le> j \<Longrightarrow> j \<le> length b \<Longrightarrow> no_panic (slice b i j)"
  by (simp_all add: no_panic_def)

lemma br_read_slice_length: "br_read_slice n r = Inr (v, r') \<Longrightarrow> length v = n"
  by (auto simp: br_read_slice_def slice_def split: if_splits)

lemma no_panic_read_extension [panic_free]: "no_panic (read_extension r b)"
  unfolding read_extension_def
  by (auto intro!: no_panic_rbind panic_free dest!: br_read_slice_length split: prod.splits)

lemma no_panic_extensions_loop [panic_free]: "no_panic (extensions_loop r b)"
proof (induction r b rule: extensions_loop.induct)
  case (1 r b)
  then show ?case
    by (subst extensions_loop.simps) (auto intro!: no_panic_rbind panic_free)
qed

text \<open>
  The ServerHello parser answers every frame the server may send with a result or an error: no
  index or slice of it is out of range, and its loop over the extensions ends.
\<close>

theorem parse_server_hello_never_panics: "parse_server_hello frame \<noteq> Inl Panic"
proof -
  have "no_panic (parse_server_hello frame)"
  proof (cases "47 \<le> length frame")
    case True
    then show ?thesis
      unfolding parse_server_hello_def
      by (auto intro!: no_panic_rbind panic_free split: prod.splits)
  qed (simp add: parse_server_hello_def ensure_def no_panic_def)
  then show ?thesis by (simp add: no_panic_def)
qed

section \<open>Well-formed ServerHellos are parsed\<close>

definition at :: "bytes \<Rightarrow> bytes \<Rightarrow> buf_reader" where
  "at before rest = \<lparr>br_buf = before @ rest, br_pos = length before\<rparr>"

lemma at_new: "br_new b = at [] b"
  by (simp add: br_new_def at_def)

lemma at_reads [simp]:
  "br_read_u8 (at p (b # r)) = Inr (b, at (p @ [b]) r)"
  "br_read_u16_be (at p (be16 w @ r)) = Inr (w, at (p @ be16 w) r)"
  "n = length x \<Longrightarrow> br_read_slice n (at p (x @ r)) = Inr (x, at (p @ x) r)"
  "n = length x \<Longrightarrow> br_skip n (at p (x @ r)) = Inr (at (p @ x) r)"
  "br_remaining (at p r) = length r"
  "br_is_consumed (at p r) \<longleftrightarrow> r = []"
  by (simp_all add: at_def br_read_u8_def br_read_u16_be_def br_read_slice_def br_skip_def
      br_remaining_def br_is_consumed_def)

lemma at_skip_one [simp]: "br_skip (Suc 0) (at p (b # r)) = Inr (at (p @ [b]) r)"
  by (simp add: at_def br_skip_def)

lemma at_read_all [simp]: "n = length x \<Longrightarrow> br_read_slice n (at p x) = Inr (x, at (p @ x) [])"
  by (simp add: at_def br_read_slice_def)

lemma at_read_u24 [simp]:
  fixes w :: u32
  assumes "w < 0x1000000"
  shows "br_read_u24_be (at p (be_bytes 3 w @ r)) = Inr (w, at (p @ be_bytes 3 w) r)"
proof -
  have three: "be_bytes 3 w = [ucast (drop_bit 16 w), ucast (drop_bit 8 w), ucast w]"
    by (simp add: numeral_3_eq_3)
  have "unat (drop_bit 24 w) = 0"
    using assms by (simp add: drop_bit_eq_div word_less_nat_alt unat_div)
  then have "drop_bit 24 w = 0" by (simp add: unat_eq_0)
  then have "be32 w = 0 # be_bytes 3 w" using be_bytes_numeral [of "Num.Bit0 (Num.Bit0 Num.One)" w] by simp
  then have "from_be (0 # be_bytes 3 w) = w" using from_be_be32 [of w] by simp
  then show ?thesis
    by (simp add: at_def br_read_u24_be_def three index_def nth_append)
qed

definition ext_bytes :: "u16 \<times> bytes \<Rightarrow> bytes" where
  "ext_bytes e = be16 (fst e) @ be16 (of_nat (length (snd e))) @ snd e"

definition ext_ok :: "u16 \<times> bytes \<Rightarrow> bool" where
  "ext_ok e \<longleftrightarrow> length (snd e) < 65536 \<and> (fst e = 0x002b \<longrightarrow> length (snd e) = 2)"

definition selected_tls13 :: "bool \<Rightarrow> (u16 \<times> bytes) list \<Rightarrow> bool" where
  "selected_tls13 = foldl (\<lambda>b e. if fst e = 0x002b then snd e = [3, 4] else b)"

definition server_hello_frame :: "bytes \<Rightarrow> bytes \<Rightarrow> u16 \<Rightarrow> u8 \<Rightarrow> (u16 \<times> bytes) list \<Rightarrow> bytes" where
  "server_hello_frame random sid cipher compression exts =
     (let exts_bytes = concat (map ext_bytes exts);
          hello = [3, 3] @ random @ [of_nat (length sid)] @ sid @ be16 cipher @ [compression]
                  @ be16 (of_nat (length exts_bytes)) @ exts_bytes
      in [0x16, 3, 3] @ be16 (of_nat (length hello + 4)) @ [2] @ be_bytes 3 (of_nat (length hello) :: u32) @ hello)"

lemma read_extension_ext:
  assumes "ext_ok e"
  shows "read_extension (at p (ext_bytes e @ r)) b =
    Inr (if fst e = 0x002b then snd e = [3, 4] else b, at (p @ ext_bytes e) r)"
proof (cases "fst e = 0x002b")
  case True
  then have two: "length (snd e) = 2" using assms by (simp add: ext_ok_def)
  then obtain x y where xy: "snd e = [x, y]" by (auto simp: numeral_2_eq_2 length_Suc_conv)
  then have "snd e = [3, 4] \<longleftrightarrow> snd e ! 0 = 3 \<and> snd e ! 1 = 4" by simp
  then show ?thesis
    using True two by (simp add: read_extension_def ext_bytes_def ensure_def)
next
  case False
  then show ?thesis
    using assms by (simp add: read_extension_def ext_bytes_def ext_ok_def unat_of_nat_u16)
qed

lemma extensions_loop_exts:
  "\<forall>e \<in> set exts. ext_ok e \<Longrightarrow> extensions_loop (at p (concat (map ext_bytes exts))) b = Inr (selected_tls13 b exts)"
proof (induction exts arbitrary: p b)
  case Nil
  then show ?case by (simp add: extensions_loop.simps selected_tls13_def)
next
  case (Cons e exts)
  have "ext_bytes e \<noteq> []" by (simp add: ext_bytes_def)
  then show ?case
    using Cons by (subst extensions_loop.simps) (simp add: read_extension_ext selected_tls13_def)
qed

lemma parse_frame:
  assumes "length random = 32" and "random \<noteq> RETRY_REQUEST_RANDOM_BYTES" and "length sid \<le> 32"
    and "\<forall>e \<in> set exts. ext_ok e" and "length (concat (map ext_bytes exts)) < 65536"
  shows "parse_server_hello (server_hello_frame random sid cipher compression exts) =
    Inr \<lparr>sh_server_random = random, sh_cipher_suite = cipher, sh_session_id_len = of_nat (length sid),
         sh_is_tls13 = selected_tls13 False exts\<rparr>"
proof -
  define x where "x = concat (map ext_bytes exts)"
  let ?hello = "[3, 3] @ random @ [of_nat (length sid)] @ sid @ be16 cipher @ [compression]
    @ be16 (of_nat (length x)) @ x"
  define n where "n = length ?hello"
  let ?body = "[2] @ be_bytes 3 (of_nat n :: u32) @ ?hello"
  let ?frame = "[0x16, 3, 3] @ be16 (of_nat (n + 4)) @ ?body"
  have frame: "server_hello_frame random sid cipher compression exts = ?frame"
    unfolding server_hello_frame_def Let_def x_def n_def ..
  have x: "length x < 65536" using assms(5) by (simp add: x_def)
  have "n = 40 + length sid + length x" using assms(1) by (simp add: n_def)
  then have "n < 0x1000000" "n \<le> 40 + (length sid + length x)" using x assms(3) by simp_all
  then have n: "unat (of_nat n :: u32) = n" "(of_nat n :: u32) < 0x1000000" "n \<le> 40 + (length sid + length x)"
    by (simp_all add: word_less_nat_alt unat_of_nat_u32)
  have sid: "unat (of_nat (length sid) :: u8) = length sid" "(of_nat (length sid) :: u8) \<le> 32"
    using assms(3) by (simp_all add: word_le_nat_alt unat_of_nat_u8)
  have len: "length ?frame \<ge> 47" using assms(1) by simp
  have slice: "slice ?frame 5 (length ?frame) = Inr ?body" by simp
  have exts: "extensions_loop (br_new x) False = Inr (selected_tls13 False exts)"
    using extensions_loop_exts [OF assms(4), of "[]"] by (simp add: at_new x_def)
  show ?thesis
    unfolding frame parse_server_hello_def slice
    using len assms(1,2) n sid x exts
    by (simp add: ensure_def at_new [of "_ # _"] n_def [symmetric] unat_of_nat_u16)
qed

text \<open>
  Every well-formed ServerHello is parsed to its fields: the random, the cipher suite, the length
  of the session identifier, and whether the \<open>supported_versions\<close> extension selects TLS 1.3.
\<close>

theorem parse_server_hello_roundtrip:
  assumes "length random = 32" and "random \<noteq> RETRY_REQUEST_RANDOM_BYTES" and "length sid \<le> 32"
    and "\<forall>e \<in> set exts. ext_ok e" and "length (concat (map ext_bytes exts)) < 65536"
  shows "parse_server_hello (server_hello_frame random sid cipher compression exts) =
    Inr \<lparr>sh_server_random = random, sh_cipher_suite = cipher, sh_session_id_len = of_nat (length sid),
         sh_is_tls13 = selected_tls13 False exts\<rparr>"
  using assms by (rule parse_frame)

section \<open>What the filter may conclude\<close>

datatype filter_event = SawRecord bytes | SawPrefix | Stopped

fun filter_step :: "vision_filter \<Rightarrow> filter_event \<Rightarrow> vision_filter" where
  "filter_step f (SawRecord data) = filter_record f data"
| "filter_step f SawPrefix = decrement_filter_count f"
| "filter_step f Stopped = stop_filtering f"

definition filter_inv :: "vision_filter \<Rightarrow> bool" where
  "filter_inv f \<longleftrightarrow> (vf_supports_xtls f \<longrightarrow> vf_is_tls12_or_above f \<and> \<not> is_filtering f)
     \<and> (vf_is_tls12_or_above f \<longrightarrow> vf_is_tls f)"

lemmas filter_defs = filter_record_def detect_client_hello_def detect_server_hello_def
  decrement_filter_count_def stop_filtering_def is_filtering_def

interpretation filter: invariant_machine filter_step filter_inv
proof unfold_locales
  fix f e
  assume "filter_inv f"
  then show "filter_inv (filter_step f e)"
    by (cases e) (auto simp: filter_inv_def filter_defs Let_def split: sum.splits)
qed

lemma filter_new_inv: "filter_inv filter_new"
  by (simp add: filter_inv_def filter_new_def filter_with_record_count_def)

definition xtls_hello :: "bytes \<Rightarrow> bool" where
  "xtls_hello data \<longleftrightarrow> (case parse_server_hello data of
     Inl _ \<Rightarrow> False | Inr p \<Rightarrow> sh_is_tls13 p \<and> sh_cipher_suite p \<noteq> 0x1305)"

lemma filter_step_xtls:
  "vf_supports_xtls (filter_step f e) \<Longrightarrow> vf_supports_xtls f \<or> (\<exists>data. e = SawRecord data \<and> xtls_hello data)"
  by (cases e) (auto simp: filter_defs xtls_hello_def Let_def split: sum.splits if_splits)

lemma filter_run_xtls:
  "vf_supports_xtls (foldl filter_step filter_new es) \<Longrightarrow> \<exists>data. SawRecord data \<in> set es \<and> xtls_hello data"
proof (induction es rule: rev_induct)
  case Nil
  then show ?case by (simp add: filter_new_def filter_with_record_count_def)
next
  case (snoc e es)
  then show ?case using filter_step_xtls [of "foldl filter_step filter_new es" e] by auto
qed

lemma filter_step_count: "vf_record_filter_count (filter_step f e) \<le> vf_record_filter_count f - 1"
  by (cases e) (auto simp: filter_defs Let_def split: sum.splits)

lemma filter_run_count:
  "vf_record_filter_count (foldl filter_step f es) \<le> vf_record_filter_count f - length es"
proof (induction es rule: rev_induct)
  case (snoc e es)
  then show ?case using filter_step_count [of "foldl filter_step f es" e] by simp
qed simp

text \<open>
  C36. A connection may leave TLS only on evidence: after any sequence of records, skipped prefixes
  and stops, the filter allows XTLS only if one of the records was a ServerHello that selects TLS
  1.3 with a cipher suite other than AES-128-CCM-8, and then it has stopped filtering; and it looks
  at no more than 8 of them.
\<close>

theorem xtls_only_after_tls13_hello:
  "(vf_supports_xtls (foldl filter_step filter_new es) \<longrightarrow>
      (\<exists>data. SawRecord data \<in> set es \<and> xtls_hello data)
      \<and> vf_is_tls12_or_above (foldl filter_step filter_new es)
      \<and> \<not> is_filtering (foldl filter_step filter_new es))
   \<and> (8 \<le> length es \<longrightarrow> \<not> is_filtering (foldl filter_step filter_new es))"
  using filter_run_xtls [of es] filter.run_inv [OF filter_new_inv, of es] filter_run_count [of filter_new es]
  by (auto simp: filter_inv_def is_filtering_def filter_new_def filter_with_record_count_def)

definition sample_hello :: bytes where
  "sample_hello = server_hello_frame (replicate 32 5) [] 0x1301 0 [(0x002b, [3, 4])]"

lemma sample_random: "replicate 32 (5 :: u8) \<noteq> RETRY_REQUEST_RANDOM_BYTES"
proof -
  have "replicate 32 (5 :: u8) ! 0 \<noteq> RETRY_REQUEST_RANDOM_BYTES ! 0"
    by (simp add: RETRY_REQUEST_RANDOM_BYTES_def)
  then show ?thesis by metis
qed

lemma sample_hello_xtls: "xtls_hello sample_hello"
  using parse_frame [OF _ sample_random, where sid = "[]" and exts = "[(0x002b, [3, 4])]" and cipher = "0x1301" and compression = 0]
  by (simp add: xtls_hello_def sample_hello_def ext_ok_def ext_bytes_def selected_tls13_def)

theorem parse_server_hello_roundtrip_witness:
  "parse_server_hello sample_hello =
     Inr \<lparr>sh_server_random = replicate 32 5, sh_cipher_suite = 0x1301, sh_session_id_len = 0, sh_is_tls13 = True\<rparr>"
  using parse_server_hello_roundtrip [OF _ sample_random, where sid = "[]" and exts = "[(0x002b, [3, 4])]"
      and cipher = "0x1301" and compression = 0]
  by (simp add: sample_hello_def ext_ok_def ext_bytes_def selected_tls13_def)

theorem xtls_only_after_tls13_hello_witness:
  "vf_supports_xtls (foldl filter_step filter_new [SawPrefix, SawRecord sample_hello]) \<and>
   \<not> is_filtering (foldl filter_step filter_new [SawPrefix, SawRecord sample_hello])"
proof -
  have "length sample_hello \<ge> 6" "sample_hello ! 0 = 0x16" "sample_hello ! 1 = 3" "sample_hello ! 2 = 3" "sample_hello ! 5 = 2"
    by (simp_all add: sample_hello_def server_hello_frame_def Let_def be16_pair)
  then have "vf_supports_xtls (foldl filter_step filter_new [SawPrefix, SawRecord sample_hello])"
    using sample_hello_xtls
    by (auto simp: filter_defs filter_new_def filter_with_record_count_def xtls_hello_def Let_def split: sum.splits)
  then show ?thesis
    using xtls_only_after_tls13_hello [of "[SawPrefix, SawRecord sample_hello]"] by blast
qed

end
