(* ===== verification/VisionStream.thy ===== *)
theory VisionStream
  imports FuzzyDeframer VisionPad VisionFilter
begin

text \<open>
  The state machine of \<open>vision/vision_stream.rs\<close> that puts the Vision parts together: the write path
  in the padding phase (\<open>poll_write_padding_tls\<close>) with the switch to plain TLS or to direct input and
  output, and the handler of decrypted data on the read path (\<open>handle_padded_bytes\<close>).

  The TLS session is seen through its plaintext: \<open>vs_session_in\<close> is everything written to it, in
  order, whether it is still in \<open>pending_plain_writes\<close> (which is drained first) or not. What the
  socket does is a parameter: \<open>drain\<close> gives the outcome of an attempt to drain the write buffers in a
  state. \<open>rng\<close> is the generator of the padding in a state, \<open>memmem\<close> the substring search.
\<close>

section \<open>State\<close>

datatype vision_mode = PaddingTls | Tls | DirectIo

record vision_stream =
  vs_read_mode :: vision_mode
  vs_write_mode :: vision_mode
  vs_outer_read_deframer :: "tls_deframer option"
  vs_read_unpadder :: vision_unpadder
  vs_inner_read_deframer :: fuzzy_deframer
  vs_inner_write_deframer :: fuzzy_deframer
  vs_write_first_packet :: bool
  vs_user_uuid :: bytes
  vs_filter :: vision_filter
  vs_pending_read :: bytes
  vs_vless_response_to_send :: bool
  vs_pending_direct_mode_switch :: bool
  vs_pending_tls_mode_switch :: bool
  vs_session_in :: bytes

definition new_common :: "bytes \<Rightarrow> bool \<Rightarrow> vision_stream" where
  "new_common user_uuid vless_response_to_send =
     \<lparr>vs_read_mode = PaddingTls, vs_write_mode = PaddingTls,
      vs_outer_read_deframer = Some deframer_new, vs_read_unpadder = unpadder_new user_uuid,
      vs_inner_read_deframer = fuzzy_new, vs_inner_write_deframer = fuzzy_new,
      vs_write_first_packet = True, vs_user_uuid = user_uuid, vs_filter = filter_new,
      vs_pending_read = [], vs_vless_response_to_send = vless_response_to_send,
      vs_pending_direct_mode_switch = False, vs_pending_tls_mode_switch = False, vs_session_in = []\<rparr>"

definition new_client :: "bytes \<Rightarrow> vision_stream" where
  "new_client user_uuid = new_common user_uuid False"

definition post_padding_cleanup :: "vision_stream \<Rightarrow> vision_stream" where
  "post_padding_cleanup vs =
     (if vs_read_mode vs = PaddingTls \<or> vs_write_mode vs = PaddingTls then vs
      else vs\<lparr>vs_inner_read_deframer := fuzzy_deallocate (vs_inner_read_deframer vs),
              vs_inner_write_deframer := fuzzy_deallocate (vs_inner_write_deframer vs)\<rparr>)"

definition switch_read_to_direct_mode :: "vision_stream \<Rightarrow> io_error + vision_stream" where
  "switch_read_to_direct_mode vs =
     (if vs_read_mode vs \<noteq> PaddingTls then Inl (IoOther ''switch_read_to_direct_mode'')
      else Inr (post_padding_cleanup (vs\<lparr>vs_read_mode := DirectIo\<rparr>)))"

definition switch_read_to_tls_mode :: "vision_stream \<Rightarrow> io_error + vision_stream" where
  "switch_read_to_tls_mode vs =
     (if vs_read_mode vs \<noteq> PaddingTls then Inl (IoOther ''switch_read_to_tls_mode'')
      else Inr (post_padding_cleanup (vs\<lparr>vs_read_mode := Tls\<rparr>)))"

definition switch_write_to_direct_mode :: "vision_stream \<Rightarrow> io_error + vision_stream" where
  "switch_write_to_direct_mode vs =
     (if vs_write_mode vs \<noteq> PaddingTls then Inl (IoOther ''switch_write_to_direct_mode'')
      else Inr (post_padding_cleanup (vs\<lparr>vs_write_mode := DirectIo\<rparr>)))"

definition switch_write_to_tls_mode :: "vision_stream \<Rightarrow> io_error + vision_stream" where
  "switch_write_to_tls_mode vs =
     (if vs_write_mode vs \<noteq> PaddingTls then Inl (IoOther ''switch_write_to_tls_mode'')
      else Inr (post_padding_cleanup (vs\<lparr>vs_write_mode := Tls\<rparr>)))"

section \<open>The write path\<close>

type_synonym rng = "vision_stream \<Rightarrow> (nat \<Rightarrow> nat) \<times> (nat \<Rightarrow> bytes)"

datatype drain_result = Drained | Blocked | DrainErr io_error

text \<open>
  The results of \<open>poll_write\<close>; \<open>ForwardDirect\<close> and \<open>ForwardTls\<close> are the calls of the socket's
  \<open>poll_write\<close> and of \<open>poll_write_tls\<close> after a switch of mode.
\<close>

datatype write_result = WritePending | WriteErr io_error | Written nat | ForwardDirect | ForwardTls

datatype write_flow = Loop vision_stream nat | Leave vision_stream write_result

definition write_to_session :: "vision_stream \<Rightarrow> bytes \<Rightarrow> vision_stream" where
  "write_to_session vs data = vs\<lparr>vs_session_in := vs_session_in vs @ data\<rparr>"

text \<open>The packet of every branch: with the identifier on the first packet, without it on the others.\<close>

definition send_padded :: "rng \<Rightarrow> vision_stream \<Rightarrow> bytes \<Rightarrow> unpad_command \<Rightarrow> bool \<Rightarrow> vision_stream" where
  "send_padded rng vs data command is_tls =
     (case rng vs of (rand_range, rand_fill) \<Rightarrow>
        let packet = (if vs_write_first_packet vs
              then pad_with_uuid_and_command rand_range rand_fill data (vs_user_uuid vs) (command_code command) is_tls
              else pad_with_command rand_range rand_fill data (command_code command) is_tls)
        in write_to_session (vs\<lparr>vs_write_first_packet := False\<rparr>) packet)"

definition clear_write_deframer :: "vision_stream \<Rightarrow> vision_stream" where
  "clear_write_deframer vs = vs\<lparr>vs_inner_write_deframer := fuzzy_clear (vs_inner_write_deframer vs)\<rparr>"

text \<open>\<open>Ok(processed_len - existing_inner_len)\<close>, where the subtraction of \<open>usize\<close> values may overflow.\<close>

definition accept_result :: "nat \<Rightarrow> nat \<Rightarrow> write_result" where
  "accept_result processed existing = (if existing \<le> processed then Written (processed - existing) else WriteErr Panic)"

definition on_record ::
  "rng \<Rightarrow> (vision_stream \<Rightarrow> drain_result) \<Rightarrow> nat \<Rightarrow> nat \<Rightarrow> vision_stream \<Rightarrow> nat \<Rightarrow> bytes \<Rightarrow> write_flow" where
  "on_record rng drain buf_len existing vs processed record =
     (let processed = processed + length record;
          vs = vs\<lparr>vs_filter := filter_record (vs_filter vs) record\<rparr>;
          is_app_data = vf_is_tls (vs_filter vs) \<and> length record \<ge> 3 \<and> record ! 0 = 0x17 \<and> record ! 1 = 0x03;
          non_tls_filtering_ended = (\<not> is_app_data \<and> \<not> is_filtering (vs_filter vs)
            \<and> \<not> vf_is_tls12_or_above (vs_filter vs))
      in if is_app_data \<or> non_tls_filtering_ended then
           let (vs, command) = (if vf_supports_xtls (vs_filter vs)
                 then (vs\<lparr>vs_pending_direct_mode_switch := True\<rparr>, Direct)
                 else (vs\<lparr>vs_pending_tls_mode_switch := True\<rparr>, End));
               vs = send_padded rng vs record command True
           in if \<not> processed > existing then Leave vs (WriteErr Panic)
              else (case drain vs of
                      DrainErr e \<Rightarrow> Leave vs (WriteErr e)
                    | _ \<Rightarrow> Leave (clear_write_deframer vs) (accept_result processed existing))
         else
           let vs = send_padded rng vs record Continue (vf_is_tls (vs_filter vs))
           in (case drain vs of
                 Blocked \<Rightarrow>
                   if existing \<le> processed \<and> processed - existing \<le> buf_len
                      \<and> fuzzy_pending_bytes (vs_inner_write_deframer vs) = buf_len - (processed - existing)
                   then Leave (clear_write_deframer vs) (accept_result processed existing)
                   else Leave vs (WriteErr Panic)
               | Drained \<Rightarrow> Loop vs processed
               | DrainErr e \<Rightarrow> Leave vs (WriteErr e)))"

definition on_prefix ::
  "rng \<Rightarrow> (vision_stream \<Rightarrow> drain_result) \<Rightarrow> nat \<Rightarrow> vision_stream \<Rightarrow> nat \<Rightarrow> bytes \<Rightarrow> write_flow" where
  "on_prefix rng drain existing vs processed pre =
     (let processed = processed + length pre;
          vs = vs\<lparr>vs_filter := decrement_filter_count (vs_filter vs)\<rparr>
      in if is_filtering (vs_filter vs) then
           let vs = send_padded rng vs pre Continue (vf_is_tls (vs_filter vs))
           in (case drain vs of DrainErr e \<Rightarrow> Leave vs (WriteErr e) | _ \<Rightarrow> Loop vs processed)
         else
           let vs = send_padded rng (vs\<lparr>vs_pending_tls_mode_switch := True\<rparr>) pre End (vf_is_tls (vs_filter vs));
               vs = clear_write_deframer vs
           in (case drain vs of DrainErr e \<Rightarrow> Leave vs (WriteErr e) | _ \<Rightarrow> Leave vs (accept_result processed existing)))"

definition on_error :: "rng \<Rightarrow> (vision_stream \<Rightarrow> drain_result) \<Rightarrow> nat \<Rightarrow> vision_stream \<Rightarrow> write_flow" where
  "on_error rng drain buf_len vs =
     (let vs = vs\<lparr>vs_pending_tls_mode_switch := True, vs_filter := stop_filtering (vs_filter vs)\<rparr>;
          vs = send_padded rng vs (fuzzy_remaining_data (vs_inner_write_deframer vs)) End (vf_is_tls (vs_filter vs))
      in (case drain vs of
            DrainErr e \<Rightarrow> Leave vs (WriteErr e)
          | _ \<Rightarrow> Leave (clear_write_deframer vs) (Written buf_len)))"

definition write_round ::
  "(bytes \<Rightarrow> nat option) \<Rightarrow> rng \<Rightarrow> (vision_stream \<Rightarrow> drain_result) \<Rightarrow> nat \<Rightarrow> nat \<Rightarrow> vision_stream \<Rightarrow> nat \<Rightarrow> write_flow" where
  "write_round memmem rng drain buf_len existing vs processed =
     (case fuzzy_next memmem (vs_inner_write_deframer vs) of
        (f, Inr (TlsRecord r)) \<Rightarrow> on_record rng drain buf_len existing (vs\<lparr>vs_inner_write_deframer := f\<rparr>) processed r
      | (f, Inr NeedData) \<Rightarrow> Leave (vs\<lparr>vs_inner_write_deframer := f\<rparr>) (Written buf_len)
      | (f, Inr (UnknownPrefix p)) \<Rightarrow> on_prefix rng drain existing (vs\<lparr>vs_inner_write_deframer := f\<rparr>) processed p
      | (f, Inl e) \<Rightarrow> on_error rng drain buf_len (vs\<lparr>vs_inner_write_deframer := f\<rparr>))"

lemma send_padded_simps [simp]:
  "vs_inner_write_deframer (send_padded rng vs d c t) = vs_inner_write_deframer vs"
  "vs_filter (send_padded rng vs d c t) = vs_filter vs"
  "vs_pending_direct_mode_switch (send_padded rng vs d c t) = vs_pending_direct_mode_switch vs"
  "vs_pending_tls_mode_switch (send_padded rng vs d c t) = vs_pending_tls_mode_switch vs"
  "vs_user_uuid (send_padded rng vs d c t) = vs_user_uuid vs"
  "vs_write_first_packet (send_padded rng vs d c t) = False"
  "vs_write_mode (send_padded rng vs d c t) = vs_write_mode vs"
  "vs_vless_response_to_send (send_padded rng vs d c t) = vs_vless_response_to_send vs"
  by (simp_all add: send_padded_def write_to_session_def Let_def case_prod_unfold)

lemma write_round_decreases:
  assumes "write_round memmem rng drain n existing vs processed = Loop vs' processed'"
  shows "fuzzy_size (vs_inner_write_deframer vs') < fuzzy_size (vs_inner_write_deframer vs)"
proof -
  obtain f r where nxt: "fuzzy_next memmem (vs_inner_write_deframer vs) = (f, r)" by force
  then have "\<exists>x. r = Inr x \<and> x \<noteq> NeedData \<and> vs_inner_write_deframer vs' = f"
    using assms
    by (auto simp: write_round_def on_record_def on_prefix_def on_error_def Let_def case_prod_unfold
        split: sum.splits deframe_result.splits if_splits drain_result.splits)
  then show ?thesis using fuzzy_next_shrinks [of memmem "vs_inner_write_deframer vs" f] nxt by auto
qed

function write_loop ::
  "(bytes \<Rightarrow> nat option) \<Rightarrow> rng \<Rightarrow> (vision_stream \<Rightarrow> drain_result) \<Rightarrow> nat \<Rightarrow> nat \<Rightarrow> vision_stream \<Rightarrow> nat
   \<Rightarrow> vision_stream \<times> write_result" where
  "write_loop memmem rng drain buf_len existing vs processed =
     (case write_round memmem rng drain buf_len existing vs processed of
        Loop vs' processed' \<Rightarrow> write_loop memmem rng drain buf_len existing vs' processed'
      | Leave vs' r \<Rightarrow> (vs', r))"
  by pat_completeness auto
termination
  by (relation "measure (\<lambda>(memmem, rng, drain, n, e, vs, p). fuzzy_size (vs_inner_write_deframer vs))")
    (auto dest: write_round_decreases)

declare write_loop.simps [simp del]

definition poll_write_padding_tls ::
  "(bytes \<Rightarrow> nat option) \<Rightarrow> rng \<Rightarrow> (vision_stream \<Rightarrow> drain_result) \<Rightarrow> vision_stream \<Rightarrow> bytes
   \<Rightarrow> vision_stream \<times> write_result" where
  "poll_write_padding_tls memmem rng drain vs buf =
     (let vs = (if vs_vless_response_to_send vs
                then (write_to_session vs [0, 0])\<lparr>vs_vless_response_to_send := False\<rparr> else vs)
      in case drain vs of
           Blocked \<Rightarrow> (vs, WritePending)
         | DrainErr e \<Rightarrow> (vs, WriteErr e)
         | Drained \<Rightarrow>
             if vs_pending_direct_mode_switch vs then
               (case switch_write_to_direct_mode (vs\<lparr>vs_pending_direct_mode_switch := False\<rparr>) of
                  Inl e \<Rightarrow> (vs\<lparr>vs_pending_direct_mode_switch := False\<rparr>, WriteErr e)
                | Inr vs' \<Rightarrow> (vs', ForwardDirect))
             else if vs_pending_tls_mode_switch vs then
               (case switch_write_to_tls_mode (vs\<lparr>vs_pending_tls_mode_switch := False\<rparr>) of
                  Inl e \<Rightarrow> (vs\<lparr>vs_pending_tls_mode_switch := False\<rparr>, WriteErr e)
                | Inr vs' \<Rightarrow> (vs', ForwardTls))
             else
               let existing = fuzzy_pending_bytes (vs_inner_write_deframer vs);
                   vs = vs\<lparr>vs_inner_write_deframer := fuzzy_feed (vs_inner_write_deframer vs) buf\<rparr>
               in write_loop memmem rng drain (length buf) existing vs 0)"

section \<open>The bytes of the fuzzy deframer\<close>

definition fuzzy_wf :: "fuzzy_deframer \<Rightarrow> bool" where
  "fuzzy_wf f \<longleftrightarrow> (case fz_state f of
       Searching \<Rightarrow> fz_inner f = deframer_new
     | Deframing \<Rightarrow> deframer_wf (fz_inner f))"

lemma fuzzy_wf_new [simp]: "fuzzy_wf fuzzy_new" "fuzzy_remaining_data fuzzy_new = []"
  by (simp_all add: fuzzy_wf_def fuzzy_new_def fuzzy_remaining_data_def)

lemma fuzzy_clear_bytes [simp]: "fuzzy_wf (fuzzy_clear f)" "fuzzy_remaining_data (fuzzy_clear f) = []"
  by (simp_all add: fuzzy_wf_def fuzzy_clear_def fuzzy_remaining_data_def deframer_clear_def deframer_new_def)

lemma deframer_feed_wf: "deframer_wf d \<Longrightarrow> deframer_wf (deframer_feed d c)"
  by (auto simp: deframer_wf_def deframer_feed_def check_header_append split: deframer_state.splits)

lemma fuzzy_feed_wf: "fuzzy_wf f \<Longrightarrow> fuzzy_wf (fuzzy_feed f c)"
  by (auto simp: fuzzy_wf_def fuzzy_feed_def deframer_feed_wf split: fuzzy_state.splits)

lemma fuzzy_feed_bytes: "fuzzy_remaining_data (fuzzy_feed f c) = fuzzy_remaining_data f @ c"
  by (auto simp: fuzzy_feed_def fuzzy_remaining_data_def remaining_data_def deframer_feed_def
      split: fuzzy_state.splits)

lemma fuzzy_pending_length: "fuzzy_pending_bytes f = length (fuzzy_remaining_data f)"
  by (simp add: fuzzy_pending_bytes_def fuzzy_remaining_data_def pending_bytes_def remaining_data_def
      split: fuzzy_state.splits)

fun output_bytes :: "io_error + deframe_result \<Rightarrow> bytes" where
  "output_bytes (Inr (TlsRecord r)) = r"
| "output_bytes (Inr (UnknownPrefix p)) = p"
| "output_bytes _ = []"

lemma deframer_of_wf: "take_record buf = Inr None \<Longrightarrow> deframer_wf (deframer_of buf)"
  using deframer_wf_of [of buf "[]"] by (simp add: deframer_feed_def)

lemma fuzzy_deframe_bytes:
  assumes "deframer_wf (fz_inner f)" and "fz_state f = Deframing" and "fuzzy_deframe f = (f', r)"
  shows "fuzzy_wf f' \<and> td_buffer (fz_inner f) = output_bytes r @ fuzzy_remaining_data f'"
  using assms next_record_spec [OF assms(1)] deframer_of_wf [of "td_buffer (fz_inner f)"]
    take_record_split [of "td_buffer (fz_inner f)"]
  by (auto simp: fuzzy_deframe_def fuzzy_wf_def fuzzy_remaining_data_def remaining_data_def
      deframer_of_def deframer_wf_def split: sum.splits option.splits)

lemma fuzzy_next_bytes:
  assumes "fuzzy_wf f" and "fuzzy_next memmem f = (f', r)"
  shows "fuzzy_wf f' \<and> fuzzy_remaining_data f = output_bytes r @ fuzzy_remaining_data f'"
proof (cases "fz_state f")
  case Deframing
  then show ?thesis
    using assms fuzzy_deframe_bytes [of f f' r]
    by (simp add: fuzzy_next_def fuzzy_wf_def fuzzy_remaining_data_def remaining_data_def)
next
  case Searching
  let ?buf = "fz_search_buffer f"
  have inner: "fz_inner f = deframer_new" using assms(1) Searching by (simp add: fuzzy_wf_def)
  have fed: "deframer_wf (deframer_feed deframer_new x)" "td_buffer (deframer_feed deframer_new x) = x" for x
    by (simp_all add: deframer_wf_def deframer_feed_def deframer_new_def)
  let ?g = "fuzzy_switch f ?buf"
  have sw: "fz_state ?g = Deframing" "fz_inner ?g = deframer_feed deframer_new ?buf"
    using inner by (simp_all add: fuzzy_switch_def)
  have "fuzzy_deframe ?g = (f', r) \<Longrightarrow> ?thesis"
    using fuzzy_deframe_bytes [of ?g f' r] sw fed Searching by (simp add: fuzzy_remaining_data_def)
  then show ?thesis
    using assms(2) Searching inner fed
    by (auto simp: fuzzy_next_def fuzzy_wf_def fuzzy_remaining_data_def remaining_data_def fuzzy_switch_def Let_def
        split: if_splits option.splits)
qed

section \<open>Nothing is lost on the write path\<close>

text \<open>
  \<open>sent vs ws\<close>: the plaintext of the session is exactly the padded blocks \<open>ws\<close>. While the padding
  phase lasts all of them are \<open>Continue\<close> blocks; when a switch is pending the last one ends the phase
  and the inner deframer is empty (\<open>write_inv\<close>).
\<close>

definition rng_good :: "rng \<Rightarrow> bool" where
  "rng_good rng \<longleftrightarrow> (\<forall>vs. (\<forall>n > 0. fst (rng vs) n < n) \<and> (\<forall>n. length (snd (rng vs) n) = n))"

definition sent :: "vision_stream \<Rightarrow> block list \<Rightarrow> bool" where
  "sent vs ws \<longleftrightarrow> vs_session_in vs = padded (Some (vs_user_uuid vs)) ws
     \<and> (vs_write_first_packet vs \<longleftrightarrow> ws = []) \<and> (\<forall>w \<in> set ws. rng_ok w \<and> length (b_data w) < 65536)"

abbreviation all_continue :: "block list \<Rightarrow> bool" where
  "all_continue ws \<equiv> \<forall>w \<in> set ws. b_command w = Continue"

definition switching :: "vision_stream \<Rightarrow> bool" where
  "switching vs \<longleftrightarrow> vs_pending_direct_mode_switch vs \<or> vs_pending_tls_mode_switch vs"

abbreviation pend :: "vision_stream \<Rightarrow> bytes" where
  "pend vs \<equiv> fuzzy_remaining_data (vs_inner_write_deframer vs)"

abbreviation payload :: "block list \<Rightarrow> bytes" where
  "payload ws \<equiv> concat (map b_data ws)"

definition write_inv :: "vision_stream \<Rightarrow> block list \<Rightarrow> bool" where
  "write_inv vs ws \<longleftrightarrow> sent vs ws \<and> fuzzy_wf (vs_inner_write_deframer vs) \<and> \<not> vs_vless_response_to_send vs
     \<and> (if switching vs then \<exists>us v. ws = us @ [v] \<and> all_continue us \<and> b_command v \<noteq> Continue \<and> pend vs = []
        else all_continue ws)"

lemma padded_snoc:
  "padded (Some u) (ws @ [w]) = padded (Some u) ws @ padded (if ws = [] then Some u else None) [w]"
  by (cases ws) (simp_all add: padded_None_append)

lemma sent_send_padded:
  assumes "rng_good rng" and "sent vs ws" and "length d < 65536"
  obtains w where "b_data w = d" and "b_command w = c" and "sent (send_padded rng vs d c t) (ws @ [w])"
proof -
  define w where "w = \<lparr>b_data = d, b_command = c, b_tls = t, b_range = fst (rng vs), b_fill = snd (rng vs)\<rparr>"
  have "rng_ok w" using assms(1) by (simp add: rng_good_def rng_ok_def w_def)
  moreover have "vs_session_in (send_padded rng vs d c t) =
    vs_session_in vs @ padded (if vs_write_first_packet vs then Some (vs_user_uuid vs) else None) [w]"
    by (simp add: send_padded_def write_to_session_def w_def Let_def case_prod_unfold)
  ultimately have "sent (send_padded rng vs d c t) (ws @ [w])"
    using assms(2,3) padded_snoc [of "vs_user_uuid vs" ws w] by (auto simp: sent_def w_def)
  then show ?thesis using that [of w] by (simp add: w_def)
qed

lemma sent_updates [simp]:
  "sent (vs\<lparr>vs_inner_write_deframer := f\<rparr>) ws \<longleftrightarrow> sent vs ws"
  "sent (vs\<lparr>vs_filter := g\<rparr>) ws \<longleftrightarrow> sent vs ws"
  "sent (vs\<lparr>vs_pending_direct_mode_switch := b\<rparr>) ws \<longleftrightarrow> sent vs ws"
  "sent (vs\<lparr>vs_pending_tls_mode_switch := b\<rparr>) ws \<longleftrightarrow> sent vs ws"
  by (simp_all add: sent_def)

text \<open>What the three branches of the loop have in common: one block is sent, and the deframer is cleared or kept.\<close>

lemma inv_after_block:
  assumes "rng_good rng" and "sent vs ws" and "all_continue ws" and "length d < 65536"
    and "\<not> vs_vless_response_to_send vs" and "c = Continue \<longleftrightarrow> \<not> switching vs"
  shows "\<exists>w. b_data w = d \<and> write_inv (clear_write_deframer (send_padded rng vs d c t)) (ws @ [w])"
    and "\<not> switching vs \<Longrightarrow> fuzzy_wf (vs_inner_write_deframer vs) \<Longrightarrow>
      \<exists>w. b_data w = d \<and> write_inv (send_padded rng vs d c t) (ws @ [w])"
proof -
  obtain w where w: "b_data w = d" "b_command w = c" "sent (send_padded rng vs d c t) (ws @ [w])"
    using sent_send_padded [OF assms(1,2,4)] by blast
  show "\<exists>w. b_data w = d \<and> write_inv (clear_write_deframer (send_padded rng vs d c t)) (ws @ [w])"
    using w assms(3,5,6) by (intro exI [of _ w]) (auto simp: write_inv_def clear_write_deframer_def switching_def)
  show "\<exists>w. b_data w = d \<and> write_inv (send_padded rng vs d c t) (ws @ [w])"
    if "\<not> switching vs" "fuzzy_wf (vs_inner_write_deframer vs)"
    using w assms(3,5,6) that by (intro exI [of _ w]) (auto simp: write_inv_def switching_def)
qed

definition same_session :: "vision_stream \<Rightarrow> vision_stream \<Rightarrow> bool" where
  "same_session vs vs' \<longleftrightarrow> (\<forall>ws. sent vs ws \<longrightarrow> sent vs' ws)
     \<and> vs_vless_response_to_send vs' = vs_vless_response_to_send vs
     \<and> vs_inner_write_deframer vs' = vs_inner_write_deframer vs"

lemma on_record_Leave:
  assumes "on_record rng drain n existing vs processed r = Leave vs1 (Written m)" and "\<not> switching vs"
  shows "existing \<le> processed + length r \<and> m = processed + length r - existing \<and>
    (\<exists>vs0 c t. same_session vs vs0 \<and> (c = Continue \<longleftrightarrow> \<not> switching vs0) \<and>
       vs1 = clear_write_deframer (send_padded rng vs0 r c t))"
  using assms unfolding on_record_def Let_def accept_result_def switching_def
  by (auto split: if_splits drain_result.splits prod.splits; (intro exI conjI)?; (rule refl)?; simp add: same_session_def)

lemma on_record_Loop:
  assumes "on_record rng drain n existing vs processed r = Loop vs1 p1" and "\<not> switching vs"
  shows "p1 = processed + length r \<and> (\<exists>vs0 t. same_session vs vs0 \<and> \<not> switching vs0 \<and> vs1 = send_padded rng vs0 r Continue t)"
  using assms unfolding on_record_def Let_def switching_def
  by (auto split: if_splits drain_result.splits prod.splits; (intro exI conjI)?; (rule refl)?; simp add: same_session_def)

lemma on_prefix_Leave:
  assumes "on_prefix rng drain existing vs processed x = Leave vs1 (Written m)"
  shows "existing \<le> processed + length x \<and> m = processed + length x - existing \<and>
    (\<exists>vs0 t. same_session vs vs0 \<and> switching vs0 \<and> vs1 = clear_write_deframer (send_padded rng vs0 x End t))"
  using assms unfolding on_prefix_def Let_def accept_result_def switching_def
  by (auto split: if_splits drain_result.splits; (intro exI conjI)?; (rule refl)?; simp add: same_session_def)

lemma on_prefix_Loop:
  assumes "on_prefix rng drain existing vs processed x = Loop vs1 p1" and "\<not> switching vs"
  shows "p1 = processed + length x \<and> (\<exists>vs0 t. same_session vs vs0 \<and> \<not> switching vs0 \<and> vs1 = send_padded rng vs0 x Continue t)"
  using assms unfolding on_prefix_def Let_def switching_def
  by (auto split: if_splits drain_result.splits; (intro exI conjI)?; (rule refl)?; simp add: same_session_def)

lemma on_error_Leave:
  assumes "on_error rng drain n vs = Leave vs1 (Written m)"
  shows "m = n \<and> (\<exists>vs0 t. same_session vs vs0 \<and> switching vs0 \<and> vs1 = clear_write_deframer (send_padded rng vs0 (pend vs) End t))"
  using assms unfolding on_error_def Let_def switching_def
  by (auto split: if_splits drain_result.splits; (intro exI conjI)?; (rule refl)?; simp add: same_session_def)

lemma write_round_Loop:
  assumes "rng_good rng" and inv: "write_inv vs ws" "\<not> switching vs" "length (pend vs) < 65536"
    and step: "write_round memmem rng drain n existing vs processed = Loop vs1 p1"
  shows "\<exists>w. write_inv vs1 (ws @ [w]) \<and> \<not> switching vs1 \<and> pend vs = b_data w @ pend vs1
    \<and> p1 = processed + length (b_data w)"
proof -
  obtain f r where nxt: "fuzzy_next memmem (vs_inner_write_deframer vs) = (f, r)" by force
  let ?vs = "vs\<lparr>vs_inner_write_deframer := f\<rparr>"
  have bytes: "fuzzy_wf f" "pend vs = output_bytes r @ fuzzy_remaining_data f"
    using fuzzy_next_bytes [OF _ nxt] inv(1) by (auto simp: write_inv_def)
  have sw: "\<not> switching ?vs" using inv(2) by (simp add: switching_def)
  have "p1 = processed + length (output_bytes r) \<and>
    (\<exists>vs0 t. same_session ?vs vs0 \<and> \<not> switching vs0 \<and> vs1 = send_padded rng vs0 (output_bytes r) Continue t)"
    using step nxt on_record_Loop [OF _ sw] on_prefix_Loop [OF _ sw] on_error_def
    by (auto simp: write_round_def on_error_def Let_def split: sum.splits deframe_result.splits drain_result.splits)
  then obtain vs0 t where vs0: "same_session ?vs vs0" "\<not> switching vs0"
    "vs1 = send_padded rng vs0 (output_bytes r) Continue t" and p1: "p1 = processed + length (output_bytes r)"
    by blast
  have len: "length (output_bytes r) < 65536" using bytes(2) inv(3) by simp
  have "sent vs0 ws" "\<not> vs_vless_response_to_send vs0" "vs_inner_write_deframer vs0 = f" "all_continue ws"
    using vs0(1) inv by (auto simp: same_session_def write_inv_def)
  then obtain w where "b_data w = output_bytes r" "write_inv vs1 (ws @ [w])"
    using inv_after_block(2) [OF assms(1) _ _ len, of vs0 ws Continue t] vs0(2,3) bytes(1) by auto
  moreover have "\<not> switching vs1" "pend vs1 = fuzzy_remaining_data f"
    using vs0 by (simp_all add: switching_def same_session_def)
  ultimately show ?thesis using bytes(2) p1 by (intro exI [of _ w]) simp
qed

lemma write_round_Leave:
  assumes "rng_good rng" and inv: "write_inv vs ws" "\<not> switching vs" "length (pend vs) < 65536"
    and step: "write_round memmem rng drain n existing vs processed = Leave vs1 (Written m)"
    and len: "processed + length (pend vs) = existing + n"
  shows "\<exists>ws'. write_inv vs1 ws' \<and> m \<le> n \<and> processed \<le> existing + m
    \<and> payload ws' @ pend vs1 = payload ws @ take (existing + m - processed) (pend vs)"
proof -
  obtain f r where nxt: "fuzzy_next memmem (vs_inner_write_deframer vs) = (f, r)" by force
  let ?vs = "vs\<lparr>vs_inner_write_deframer := f\<rparr>"
  have bytes: "fuzzy_wf f" "pend vs = output_bytes r @ fuzzy_remaining_data f"
    using fuzzy_next_bytes [OF _ nxt] inv(1) by (auto simp: write_inv_def)
  have sw: "\<not> switching ?vs" using inv(2) by (simp add: switching_def)
  have cont: "all_continue ws" using inv(1,2) by (simp add: write_inv_def)
  have close: "\<exists>w. b_data w = d \<and> write_inv (clear_write_deframer (send_padded rng vs0 d c t)) (ws @ [w])"
    if "same_session ?vs vs0" "c = Continue \<longleftrightarrow> \<not> switching vs0" "length d < 65536" for vs0 c t d
  proof -
    have "sent vs0 ws" "\<not> vs_vless_response_to_send vs0"
      using that(1) inv(1) by (auto simp: same_session_def write_inv_def)
    then show ?thesis using inv_after_block(1) [OF assms(1) _ cont that(3) _ that(2)] by blast
  qed
  have cleared: "pend (clear_write_deframer x) = []" for x by (simp add: clear_write_deframer_def)
  have out: "length (output_bytes r) < 65536" "length (fuzzy_remaining_data f) < 65536" using bytes(2) inv(3) by auto
  consider (need) "r = Inr NeedData" | (err) e where "r = Inl e"
    | (out) "existing \<le> processed + length (output_bytes r)" "m = processed + length (output_bytes r) - existing"
       "\<exists>vs0 c t. same_session ?vs vs0 \<and> (c = Continue \<longleftrightarrow> \<not> switching vs0) \<and>
          vs1 = clear_write_deframer (send_padded rng vs0 (output_bytes r) c t)"
  proof (cases r rule: output_bytes.cases)
    case (1 x)
    then show ?thesis using that(3) step nxt on_record_Leave [OF _ sw] by (simp add: write_round_def)
  next
    case (2 x)
    then show ?thesis using that(3) step nxt on_prefix_Leave [of rng drain existing ?vs processed x vs1 m]
      by (auto simp: write_round_def)
  qed (use that in auto)
  then show ?thesis
  proof cases
    case need
    have "m = n" "vs1 = ?vs" using step nxt need by (auto simp: write_round_def)
    moreover have "write_inv ?vs ws" using inv sw bytes(1) by (simp add: write_inv_def)
    ultimately show ?thesis
      using bytes(2) need len by (intro exI [of _ ws]) (simp flip: len)
  next
    case err
    have "m = n \<and> (\<exists>vs0 t. same_session ?vs vs0 \<and> switching vs0 \<and>
        vs1 = clear_write_deframer (send_padded rng vs0 (fuzzy_remaining_data f) End t))"
      using step nxt err on_error_Leave [of rng drain n ?vs vs1 m] by (simp add: write_round_def)
    then obtain vs0 t where m: "m = n" and vs0: "same_session ?vs vs0" "switching vs0"
      and vs1: "vs1 = clear_write_deframer (send_padded rng vs0 (fuzzy_remaining_data f) End t)" by blast
    obtain w where "b_data w = fuzzy_remaining_data f" "write_inv vs1 (ws @ [w])"
      using close [OF vs0(1) _ out(2), of End t] vs0(2) vs1 by auto
    then show ?thesis
      using bytes(2) err len m cleared vs1 by (intro exI [of _ "ws @ [w]"]) (simp flip: len)
  next
    case out
    then obtain vs0 c t where vs0: "same_session ?vs vs0" "c = Continue \<longleftrightarrow> \<not> switching vs0"
      "vs1 = clear_write_deframer (send_padded rng vs0 (output_bytes r) c t)" by blast
    obtain w where w: "b_data w = output_bytes r" "write_inv vs1 (ws @ [w])"
      using close [OF vs0(1,2)] \<open>length (output_bytes r) < 65536\<close> vs0(3) by blast
    have "existing + m - processed = length (output_bytes r)" "processed \<le> existing + m" using out(1,2) by simp_all
    moreover have "m \<le> n" using out(1,2) len bytes(2) by simp
    ultimately show ?thesis
      using w bytes(2) cleared vs0(3) by (intro exI [of _ "ws @ [w]"]) simp
  qed
qed

lemma write_loop_accounts:
  assumes "rng_good rng" and "write_inv vs ws" and "\<not> switching vs" and "length (pend vs) < 65536"
    and "write_loop memmem rng drain n existing vs processed = (vs1, Written m)"
    and "processed + length (pend vs) = existing + n"
  shows "\<exists>ws'. write_inv vs1 ws' \<and> m \<le> n \<and> processed \<le> existing + m
    \<and> payload ws' @ pend vs1 = payload ws @ take (existing + m - processed) (pend vs)"
  using assms
proof (induction memmem rng drain n existing vs processed arbitrary: ws rule: write_loop.induct)
  case (1 memmem rng drain n existing vs processed)
  show ?case
  proof (cases "write_round memmem rng drain n existing vs processed")
    case (Leave vs2 res)
    then show ?thesis
      using write_round_Leave [OF "1.prems"(1-4), of memmem drain n existing processed] "1.prems"(5,6)
      by (simp add: write_loop.simps [of memmem rng drain n existing vs processed])
  next
    case (Loop vs2 p2)
    obtain w where w: "write_inv vs2 (ws @ [w])" "\<not> switching vs2" "pend vs = b_data w @ pend vs2"
      "p2 = processed + length (b_data w)"
      using write_round_Loop [OF "1.prems"(1-4) Loop] by blast
    have "write_loop memmem rng drain n existing vs2 p2 = (vs1, Written m)"
      using "1.prems"(5) Loop by (simp add: write_loop.simps [of memmem rng drain n existing vs processed])
    then obtain ws' where ws': "write_inv vs1 ws'" "m \<le> n" "p2 \<le> existing + m"
      "payload ws' @ pend vs1 = payload (ws @ [w]) @ take (existing + m - p2) (pend vs2)"
      using "1.IH" [OF Loop "1.prems"(1) w(1,2)] "1.prems"(4,6) w(3,4) by auto
    have "existing + m - processed = length (b_data w) + (existing + m - p2)" using ws'(3) w(4) by simp
    then show ?thesis using ws' w(3,4) by (intro exI [of _ ws']) simp
  qed
qed

lemma poll_write_accounts:
  assumes "rng_good rng" and "write_inv vs ws" and "\<not> switching vs" and "length (pend vs) + length buf < 65536"
    and "poll_write_padding_tls memmem rng drain vs buf = (vs1, Written m)"
  shows "\<exists>ws'. write_inv vs1 ws' \<and> m \<le> length buf \<and> payload ws' @ pend vs1 = payload ws @ pend vs @ take m buf"
proof -
  let ?vs = "vs\<lparr>vs_inner_write_deframer := fuzzy_feed (vs_inner_write_deframer vs) buf\<rparr>"
  have "write_loop memmem rng drain (length buf) (length (pend vs)) ?vs 0 = (vs1, Written m)"
    using assms(2,3,5)
    by (auto simp: poll_write_padding_tls_def write_inv_def switching_def Let_def fuzzy_pending_length
        split: drain_result.splits)
  moreover have "write_inv ?vs ws" "\<not> switching ?vs"
    using assms(2,3) by (auto simp: write_inv_def switching_def fuzzy_feed_wf)
  ultimately show ?thesis
    using write_loop_accounts [OF assms(1), of ?vs ws memmem drain "length buf" "length (pend vs)" 0 vs1 m] assms(4)
    by (auto simp: fuzzy_feed_bytes)
qed

text \<open>
  A run of the write side in the padding phase: each call offers some bytes and the stream accepts
  the first of them. Calls that report \<open>Pending\<close> before they take anything leave the stream as it is.
\<close>

inductive writes ::
  "(bytes \<Rightarrow> nat option) \<Rightarrow> rng \<Rightarrow> bytes \<Rightarrow> vision_stream \<Rightarrow> bytes \<Rightarrow> bool"
  for memmem :: "bytes \<Rightarrow> nat option" and rng :: rng and uuid :: bytes
where
  writes_start: "writes memmem rng uuid (new_client uuid) []"
| writes_write: "writes memmem rng uuid vs done \<Longrightarrow> \<not> switching vs \<Longrightarrow> length (pend vs) + length buf < 65536 \<Longrightarrow>
    poll_write_padding_tls memmem rng drain vs buf = (vs', Written m) \<Longrightarrow>
    writes memmem rng uuid vs' (done @ take m buf)"
| writes_blocked: "writes memmem rng uuid vs done \<Longrightarrow>
    poll_write_padding_tls memmem rng drain vs buf = (vs', WritePending) \<Longrightarrow>
    writes memmem rng uuid vs' done"

lemma write_round_uuid:
  "write_round memmem rng drain n existing vs processed = Loop vs1 p1 \<Longrightarrow> vs_user_uuid vs1 = vs_user_uuid vs"
  "write_round memmem rng drain n existing vs processed = Leave vs1 res \<Longrightarrow> vs_user_uuid vs1 = vs_user_uuid vs"
  by (auto simp: write_round_def on_record_def on_prefix_def on_error_def Let_def clear_write_deframer_def
      split: prod.splits sum.splits deframe_result.splits if_splits drain_result.splits)

lemma write_loop_uuid:
  "write_loop memmem rng drain n existing vs processed = (vs1, res) \<Longrightarrow> vs_user_uuid vs1 = vs_user_uuid vs"
proof (induction memmem rng drain n existing vs processed rule: write_loop.induct)
  case (1 memmem rng drain n existing vs processed)
  then show ?case
    by (cases "write_round memmem rng drain n existing vs processed")
      (auto simp: write_loop.simps [of memmem rng drain n existing vs processed] dest: write_round_uuid)
qed

lemma poll_write_uuid:
  assumes "\<not> switching vs" and "poll_write_padding_tls memmem rng drain vs buf = (vs1, res)"
  shows "vs_user_uuid vs1 = vs_user_uuid vs"
  using assms
  by (auto simp: poll_write_padding_tls_def switching_def write_to_session_def Let_def
      dest: write_loop_uuid split: drain_result.splits if_splits)

lemma write_loop_pending: "write_loop memmem rng drain n existing vs processed \<noteq> (vs1, WritePending)"
proof (induction memmem rng drain n existing vs processed rule: write_loop.induct)
  case (1 memmem rng drain n existing vs processed)
  have "write_round memmem rng drain n existing vs processed \<noteq> Leave vs1 WritePending"
    by (auto simp: write_round_def on_record_def on_prefix_def on_error_def accept_result_def Let_def
        split: prod.splits sum.splits deframe_result.splits if_splits drain_result.splits)
  then show ?case
    using 1 by (cases "write_round memmem rng drain n existing vs processed")
      (auto simp: write_loop.simps [of memmem rng drain n existing vs processed])
qed

lemma poll_write_pending:
  "poll_write_padding_tls memmem rng drain vs buf = (vs1, WritePending) \<Longrightarrow> \<not> vs_vless_response_to_send vs \<Longrightarrow> vs1 = vs"
  by (auto simp: poll_write_padding_tls_def Let_def write_loop_pending
      split: drain_result.splits if_splits sum.splits)

lemma new_client_inv: "write_inv (new_client uuid) []" "pend (new_client uuid) = []" "vs_user_uuid (new_client uuid) = uuid"
  by (simp_all add: write_inv_def sent_def new_client_def new_common_def switching_def)

lemma writes_invariant:
  assumes "rng_good rng" and "writes memmem rng uuid vs done"
  shows "vs_user_uuid vs = uuid \<and> (\<exists>ws. write_inv vs ws \<and> payload ws @ pend vs = done)"
  using assms(2)
proof (induction rule: writes.induct)
  case writes_start
  then show ?case using new_client_inv by (intro conjI exI [of _ "[]"]) simp_all
next
  case (writes_write vs d buf drain vs' m)
  then obtain ws where "write_inv vs ws" and "payload ws @ pend vs = d" by blast
  then obtain ws' where "write_inv vs' ws'" "payload ws' @ pend vs' = d @ take m buf"
    using poll_write_accounts [OF assms(1) _ writes_write.hyps(2-4), of ws] by auto
  then show ?case using poll_write_uuid [OF writes_write.hyps(2,4)] writes_write.IH by auto
next
  case (writes_blocked vs d drain buf vs')
  then obtain ws where inv: "write_inv vs ws" by blast
  then have "vs' = vs"
    using writes_blocked.hyps(2) by (auto simp: write_inv_def dest: poll_write_pending)
  then show ?case using writes_blocked.IH by simp
qed

lemma unpad_bytes_continue:
  "\<forall>w \<in> set ws. rng_ok w \<and> length (b_data w) < 65536 \<Longrightarrow> all_continue ws \<Longrightarrow> \<exists>fb'.
    unpad_bytes (AtCommand, fb) (padded None ws) = Some ((AtCommand, fb'), payload ws)"
proof (induction ws arbitrary: fb)
  case (Cons w ws)
  have "unpad_bytes (AtCommand, fb) (padded None [w] @ padded None ws) =
    map_option (\<lambda>(s, out). (s, b_data w @ out)) (unpad_bytes (AtCommand, False) (padded None ws))"
    using unpad_bytes_padded_block [of w fb "padded None ws"] Cons.prems by simp
  moreover obtain fb' where "unpad_bytes (AtCommand, False) (padded None ws) = Some ((AtCommand, fb'), payload ws)"
    using Cons.IH [of False] Cons.prems by auto
  ultimately show ?case using padded_None_append [of "[w]" ws] by simp
qed simp

lemma peer_reads_blocks:
  assumes "length uuid = 16" and "ws \<noteq> []" and "c @ concat cs = padded (Some uuid) ws" and "16 \<le> length c"
  shows "feed_all unpad_chunk (unpadder_new uuid) (c # cs) =
    map_option (\<lambda>(s, out). (unpadder_of s, out)) (unpad_bytes (AtCommand, True) (padded None ws))"
proof -
  let ?s = "(AtCommand, True)"
  have stream: "c @ concat cs = uuid @ padded None ws" using assms(2,3) by (simp add: padded_Some)
  have "take 16 (c @ concat cs) = uuid" unfolding stream using assms(1) by simp
  then have uuid: "take 16 c = uuid" using assms(4) by simp
  have "drop 16 (c @ concat cs) = padded None ws" unfolding stream using assms(1) by simp
  then have tail: "concat (drop 16 c # cs) = padded None ws" using assms(4) by simp
  have "feed_all unpad_chunk (unpadder_new uuid) (c # cs) = feed_all unpad_chunk (unpadder_of ?s) (drop 16 c # cs)"
    using unpad_chunk_first [OF assms(1,4) uuid] by simp
  also have "\<dots> = unpad_chunk (unpadder_of ?s) (padded None ws)"
    unfolding tail [symmetric]
    by (rule unpadder.feed_all_concat) (auto simp: unpadder_ready_def simp del: split_paired_Ex intro!: exI [of _ ?s])
  finally show ?thesis by (simp add: unpad_chunk_spec)
qed


text \<open>
  The subtraction of the write path overflows when bytes held back from an earlier call turn out not
  to be TLS and fewer of them are given up than were held back, in the call that ends the filtering:
  with 16 03 01 16 03 held back and one record left to look at, writing the byte 03 gives up only the
  first three bytes.
\<close>

definition sample_rng :: rng where
  "sample_rng vs = ((\<lambda>n. 0), (\<lambda>n. replicate n 0))"

lemma write_length_overflow:
  "snd (poll_write_padding_tls naive_find sample_rng (\<lambda>_. Drained)
     ((new_client (replicate 16 7))\<lparr>vs_filter := filter_with_record_count 1,
        vs_inner_write_deframer := fuzzy_feed fuzzy_new [0x16, 3, 1, 0x16, 3]\<rparr>) [3]) = WriteErr Panic"
  by code_simp

lemma sample_rng_good: "rng_good sample_rng"
  by (simp add: rng_good_def sample_rng_def)

definition sample_stream :: vision_stream where
  "sample_stream = fst (poll_write_padding_tls naive_find sample_rng (\<lambda>_. Drained) (new_client (replicate 16 7)) [9, 0x16])"

lemma sample_stream_eval:
  "snd (poll_write_padding_tls naive_find sample_rng (\<lambda>_. Drained) (new_client (replicate 16 7)) [9, 0x16]) = Written 2"
  "vs_session_in sample_stream = replicate 16 7 @ [0, 0, 1, 0, 0, 9]"
  "fuzzy_remaining_data (vs_inner_write_deframer sample_stream) = [0x16]"
  by code_simp+


end
