(* ===== verification/VisionRead.thy ===== *)
theory VisionRead
  imports VisionStream
begin

text \<open>
  The read path of \<open>vision/vision_stream.rs\<close> in the padding phase: the handler of decrypted bytes
  (\<open>handle_padded_bytes\<close>), which unpads them, shows the inner records to the filter and switches the
  mode at the end of the phase, and the loop over the TLS records of one read from the socket
  (\<open>poll_read_padding_tls\<close>).

  The TLS session is a parameter: \<open>process s record\<close> feeds the bytes of a record to the session in
  state \<open>s\<close> and gives the new state and all plaintext it makes available
  (\<open>feed_and_process_crypto_connection\<close> and the loop that empties the reader), or an error.
\<close>

section \<open>Showing records to the filter\<close>

function read_filter ::
  "(bytes \<Rightarrow> nat option) \<Rightarrow> vision_filter \<Rightarrow> fuzzy_deframer \<Rightarrow> io_error + vision_filter \<times> fuzzy_deframer" where
  "read_filter memmem f d =
     (case fuzzy_next memmem d of
        (d', Inr (TlsRecord r)) \<Rightarrow>
          let f' = filter_record f r in
          if \<not> is_filtering f' then Inr (f', d') else read_filter memmem f' d'
      | (d', Inr (UnknownPrefix p)) \<Rightarrow>
          if p = [] then Inl (IoOther ''FuzzyTlsDeframer returned empty prefix'')
          else read_filter memmem (decrement_filter_count f) d'
      | (d', Inr NeedData) \<Rightarrow> Inr (f, d')
      | (d', Inl e) \<Rightarrow> Inr (stop_filtering f, d'))"
  by pat_completeness auto
termination
  by (relation "measure (\<lambda>(memmem, f, d). fuzzy_size d)") (auto dest: fuzzy_next_shrinks [OF sym])

declare read_filter.simps [simp del]

section \<open>The end of the padding phase\<close>

text \<open>The records left in the outer deframer when the peer ends the phase are decrypted at once.\<close>

function drain_outer ::
  "('s \<Rightarrow> bytes \<Rightarrow> io_error + 's \<times> bytes) \<Rightarrow> 's \<Rightarrow> tls_deframer \<Rightarrow> io_error + 's \<times> bytes \<times> tls_deframer" where
  "drain_outer process s d =
     (case next_record d of
        (d', Inl e) \<Rightarrow> Inl e
      | (d', Inr None) \<Rightarrow> Inr (s, [], d')
      | (d', Inr (Some record)) \<Rightarrow>
          rbind (process s record) (\<lambda>(s', plain).
          rbind (drain_outer process s' d') (\<lambda>(s'', more, d''). Inr (s'', plain @ more, d''))))"
  by pat_completeness auto
termination
  by (relation "measure (\<lambda>(process, s, d). length (td_buffer d))") (auto dest: next_record_shrinks [OF sym])

declare drain_outer.simps [simp del]

definition on_end ::
  "('s \<Rightarrow> bytes \<Rightarrow> io_error + 's \<times> bytes) \<Rightarrow> 's \<Rightarrow> vision_stream \<Rightarrow> bytes \<Rightarrow> io_error + 's \<times> vision_stream" where
  "on_end process s vs unpadded =
     (case vs_outer_read_deframer vs of
        None \<Rightarrow> Inl Panic
      | Some outer \<Rightarrow>
          rbind (drain_outer process s outer) (\<lambda>(s, plain, outer).
          let vs = vs\<lparr>vs_pending_read := vs_pending_read vs @ unpadded @ plain, vs_outer_read_deframer := None\<rparr>;
              remaining = remaining_data outer
          in rbind (if remaining \<noteq> []
                    then rbind (process s remaining) (\<lambda>(s, p). if p = [] then Inr s else Inl Panic)
                    else Inr s) (\<lambda>s.
             rbind (switch_read_to_tls_mode vs) (\<lambda>vs. Inr (s, vs)))))"

definition on_direct :: "'s \<Rightarrow> vision_stream \<Rightarrow> bytes \<Rightarrow> io_error + 's \<times> vision_stream" where
  "on_direct s vs unpadded =
     (case vs_outer_read_deframer vs of
        None \<Rightarrow> Inl Panic
      | Some outer \<Rightarrow>
          let vs = vs\<lparr>vs_pending_read := vs_pending_read vs @ unpadded @ remaining_data outer,
                      vs_outer_read_deframer := None\<rparr>
          in rbind (switch_read_to_direct_mode vs) (\<lambda>vs. Inr (s, vs)))"

text \<open>The filter looks at the content only while it is filtering.\<close>

definition filter_content :: "(bytes \<Rightarrow> nat option) \<Rightarrow> vision_stream \<Rightarrow> bytes \<Rightarrow> io_error + vision_stream" where
  "filter_content memmem vs unpadded =
     (if unpadded \<noteq> [] \<and> is_filtering (vs_filter vs)
      then rbind (read_filter memmem (vs_filter vs) (fuzzy_feed (vs_inner_read_deframer vs) unpadded))
             (\<lambda>(f, d). Inr (vs\<lparr>vs_filter := f, vs_inner_read_deframer := d\<rparr>))
      else Inr vs)"

definition on_command ::
  "('s \<Rightarrow> bytes \<Rightarrow> io_error + 's \<times> bytes) \<Rightarrow> 's \<Rightarrow> vision_stream \<Rightarrow> bytes \<Rightarrow> unpad_command option
   \<Rightarrow> io_error + 's \<times> vision_stream" where
  "on_command process s vs unpadded command =
     (case command of
        Some Direct \<Rightarrow> on_direct s vs unpadded
      | Some End \<Rightarrow> on_end process s vs unpadded
      | _ \<Rightarrow> Inr (s, vs\<lparr>vs_pending_read := vs_pending_read vs @ unpadded\<rparr>))"

definition handle_padded_bytes ::
  "(bytes \<Rightarrow> nat option) \<Rightarrow> ('s \<Rightarrow> bytes \<Rightarrow> io_error + 's \<times> bytes) \<Rightarrow> 's \<Rightarrow> vision_stream \<Rightarrow> bytes
   \<Rightarrow> io_error + 's \<times> vision_stream" where
  "handle_padded_bytes memmem process s vs decrypted =
     (case unpad (vs_read_unpadder vs) decrypted of
        (u, Inl e) \<Rightarrow> Inl e
      | (u, Inr res) \<Rightarrow>
          rbind (filter_content memmem (vs\<lparr>vs_read_unpadder := u\<rparr>) (ur_content res)) (\<lambda>vs.
          on_command process s vs (ur_content res) (ur_command res)))"

section \<open>What the reader hands on\<close>

text \<open>The fuzzy deframer never returns an empty prefix, so the filter never makes the reader fail.\<close>

lemma fuzzy_next_prefix_nonempty: "fuzzy_next memmem d \<noteq> (d', Inr (UnknownPrefix []))"
  by (auto simp: fuzzy_next_def fuzzy_deframe_def Let_def
      split: fuzzy_state.splits option.splits if_splits prod.splits sum.splits)

lemma read_filter_ok: "\<exists>f' d'. read_filter memmem f d = Inr (f', d')"
proof (induction memmem f d rule: read_filter.induct)
  case (1 memmem f d)
  obtain d' r where nxt: "fuzzy_next memmem d = (d', r)" by force
  show ?case
  proof (cases r rule: output_bytes.cases)
    case (1 x)
    then show ?thesis using "1.IH"(1) nxt by (subst read_filter.simps) (auto simp: Let_def)
  next
    case (2 p)
    then have "p \<noteq> []" using fuzzy_next_prefix_nonempty nxt by blast
    then show ?thesis using "1.IH"(2) nxt 2 by (subst read_filter.simps) auto
  qed (use nxt in \<open>subst read_filter.simps, simp\<close>)+
qed

lemma filter_content_ok:
  "\<exists>f d. filter_content memmem vs x = Inr (vs\<lparr>vs_filter := f, vs_inner_read_deframer := d\<rparr>)"
proof (cases "x \<noteq> [] \<and> is_filtering (vs_filter vs)")
  case True
  then show ?thesis
    using read_filter_ok [of memmem "vs_filter vs" "fuzzy_feed (vs_inner_read_deframer vs) x"]
    by (auto simp: filter_content_def)
next
  case False
  then show ?thesis by (intro exI [of _ "vs_filter vs"] exI [of _ "vs_inner_read_deframer vs"]) (auto simp: filter_content_def)
qed

fun is_after :: "byte_state \<times> bool \<Rightarrow> bool" where
  "is_after (After c, fb) = True"
| "is_after _ = False"

lemma unpad_spec:
  assumes "byte_state_wf s" and "\<not> is_after s"
  shows "case unpad_bytes s c of
      None \<Rightarrow> is_ok (snd (unpad (unpadder_of s) c)) = False
    | Some (s', out) \<Rightarrow> unpad (unpadder_of s) c =
        (unpadder_of s', Inr \<lparr>ur_content = out, ur_command = command_of s'\<rparr>)"
proof -
  obtain t fb where s: "s = (t, fb)" by force
  have after: "\<forall>c. t \<noteq> After c" using assms(2) s by (cases t) auto
  have t: "spec_state (state_of t) fb = s" "running (state_of t)" "held (state_of t) = []"
    using spec_state_of [of t fb] assms(1) after s by auto
  have "loop_result (unpadder_of s) c"
    by (rule loop_computes_spec) (use t s in \<open>simp_all add: unpadder_of_def\<close>)
  moreover have "up_state (unpadder_of s) = state_of t" "up_first_block (unpadder_of s) = fb" "up_accumulated (unpadder_of s) = []"
    using s by (simp_all add: unpadder_of_def)
  moreover have loop: "unpad (unpadder_of s) c = unpad_loop (unpadder_of s) c"
    by (simp add: unpad_def unpadder_of_def)
  ultimately show ?thesis
    unfolding loop using t by (auto simp: loop_result_def split: option.splits)
qed

lemma unpad_byte_after: "unpad_byte s b = Some ((After c, fb), out) \<Longrightarrow> \<not> is_after s \<Longrightarrow> c \<noteq> Continue"
  by (induction s b rule: unpad_byte.induct) (auto simp: in_content_def in_padding_def split: if_splits)

lemma unpad_bytes_after: "unpad_bytes s bs = Some ((After c, fb), out) \<Longrightarrow> \<not> is_after s \<Longrightarrow> c \<noteq> Continue"
proof (induction bs arbitrary: s out)
  case (Cons b bs)
  then obtain s' o1 o2 where step: "unpad_byte s b = Some (s', o1)" "unpad_bytes s' bs = Some ((After c, fb), o2)"
    by (auto split: option.splits)
  show ?case
  proof (cases "is_after s'")
    case True
    then obtain c' fb' where "s' = (After c', fb')" by (cases s' rule: is_after.cases) auto
    then show ?thesis using step unpad_byte_after [of s b c' fb' o1] Cons.prems(2) by (simp add: unpad_bytes_After)
  qed (use Cons.IH step in blast)
qed auto

lemma switch_read_effect:
  "switch_read_to_tls_mode vs = Inr vs' \<Longrightarrow> vs_read_mode vs' = Tls \<and> vs_read_unpadder vs' = vs_read_unpadder vs"
  "switch_read_to_direct_mode vs = Inr vs' \<Longrightarrow> vs_read_mode vs' = DirectIo \<and> vs_read_unpadder vs' = vs_read_unpadder vs
     \<and> vs_pending_read vs' = vs_pending_read vs"
  by (auto simp: switch_read_to_tls_mode_def switch_read_to_direct_mode_def post_padding_cleanup_def split: if_splits)

lemma on_end_effect:
  assumes "on_end process s vs x = Inr (s', vs')"
  shows "vs_read_mode vs' = Tls \<and> vs_read_unpadder vs' = vs_read_unpadder vs"
proof -
  obtain y where "switch_read_to_tls_mode (vs\<lparr>vs_pending_read := y, vs_outer_read_deframer := None\<rparr>) = Inr vs'"
    using assms by (auto simp: on_end_def Let_def split: option.splits prod.splits if_splits)
  from switch_read_effect(1) [OF this] show ?thesis by simp
qed

lemma on_direct_effect:
  assumes "on_direct s vs x = Inr (s', vs')"
  shows "vs_read_mode vs' = DirectIo \<and> vs_read_unpadder vs' = vs_read_unpadder vs
    \<and> (\<exists>d. vs_outer_read_deframer vs = Some d \<and> vs_pending_read vs' = vs_pending_read vs @ x @ remaining_data d)"
  using assms by (auto simp: on_direct_def Let_def dest: switch_read_effect(2) split: option.splits)

text \<open>The effect of the handler: the content is handed on, and the mode changes exactly behind the last block.\<close>

lemma handle_padded_bytes_effect:
  assumes "handle_padded_bytes memmem process s vs c = Inr (s', vs')" and "vs_read_mode vs = PaddingTls"
    and "unpad (vs_read_unpadder vs) c = (unpadder_of n, Inr \<lparr>ur_content = out, ur_command = command_of n\<rparr>)"
    and "\<forall>fb. n \<noteq> (After Continue, fb)"
  shows "vs_read_unpadder vs' = unpadder_of n \<and>
    (if is_after n then vs_read_mode vs' \<noteq> PaddingTls \<and> (vs_read_mode vs' = DirectIo \<longrightarrow>
        (\<exists>d. vs_outer_read_deframer vs = Some d \<and> vs_pending_read vs' = vs_pending_read vs @ out @ remaining_data d))
     else vs_read_mode vs' = PaddingTls \<and> vs_pending_read vs' = vs_pending_read vs @ out)"
proof -
  obtain vs1 where f: "filter_content memmem (vs\<lparr>vs_read_unpadder := unpadder_of n\<rparr>) out = Inr vs1"
    and res: "on_command process s vs1 out (command_of n) = Inr (s', vs')"
    using assms(1,3) by (auto simp: handle_padded_bytes_def)
  have vs1: "vs_read_unpadder vs1 = unpadder_of n" "vs_read_mode vs1 = PaddingTls"
    "vs_outer_read_deframer vs1 = vs_outer_read_deframer vs" "vs_pending_read vs1 = vs_pending_read vs"
    using f assms(2) by (auto simp: filter_content_def split: if_splits)
  show ?thesis
  proof (cases "is_after n")
    case True
    then obtain c' fb where n: "n = (After c', fb)" by (cases n rule: is_after.cases) auto
    then have "c' = Direct \<or> c' = End" using assms(4) by (cases c') auto
    then consider (direct) "on_direct s vs1 out = Inr (s', vs')" | (tls) "on_end process s vs1 out = Inr (s', vs')"
      using n res by (auto simp: on_command_def)
    then show ?thesis
    proof cases
      case direct
      then show ?thesis using on_direct_effect [OF direct] n vs1 by simp
    next
      case tls
      then show ?thesis using on_end_effect [OF tls] n vs1 by simp
    qed
  next
    case False
    then have "command_of n = None \<or> command_of n = Some Continue"
      by (cases n rule: command_of.cases) auto
    then show ?thesis using False res vs1 by (auto simp: on_command_def)
  qed
qed

section \<open>Runs of the reader\<close>

text \<open>
  \<open>reads s vs cs\<close>: the reader has handled the decrypted chunks \<open>cs\<close> in the padding phase, while bytes
  arrived in its outer deframer and left it for the session.
\<close>

inductive reads ::
  "(bytes \<Rightarrow> nat option) \<Rightarrow> ('s \<Rightarrow> bytes \<Rightarrow> io_error + 's \<times> bytes) \<Rightarrow> bytes \<Rightarrow> 's \<Rightarrow> vision_stream \<Rightarrow> bytes list \<Rightarrow> bool"
  for memmem :: "bytes \<Rightarrow> nat option" and process :: "'s \<Rightarrow> bytes \<Rightarrow> io_error + 's \<times> bytes" and uuid :: bytes
where
  reads_start: "reads memmem process uuid s (new_client uuid) []"
| reads_socket: "reads memmem process uuid s vs cs \<Longrightarrow>
    reads memmem process uuid s' (vs\<lparr>vs_outer_read_deframer := Some d\<rparr>) cs"
| reads_chunk: "reads memmem process uuid s vs cs \<Longrightarrow> vs_read_mode vs = PaddingTls \<Longrightarrow>
    handle_padded_bytes memmem process s vs c = Inr (s', vs') \<Longrightarrow> vs_read_mode vs' = PaddingTls \<Longrightarrow>
    reads memmem process uuid s' vs' (cs @ [c])"

lemma unpad_first:
  assumes "length uuid = 16" and "16 \<le> length c" and "take 16 c = uuid"
  shows "unpad (unpadder_new uuid) c = unpad (unpadder_of (AtCommand, True)) (drop 16 c)"
proof -
  have "unpad_step (unpadder_new uuid) c = Goto (unpadder_of (AtCommand, True)) (drop 16 c)"
    using assms by (simp add: unpad_step_def step_initial_def unpadder_new_def unpadder_of_def)
  then show ?thesis
    using unpad_loop_Goto by (simp add: unpad_def unpadder_new_def unpadder_of_def)
qed

text \<open>
  The unpadder after the chunks \<open>cs\<close> is the one of the specification after their bytes (behind the
  identifier), and all content has been handed on.
\<close>

definition read_inv :: "bytes \<Rightarrow> vision_stream \<Rightarrow> bytes list \<Rightarrow> bool" where
  "read_inv uuid vs cs \<longleftrightarrow>
     (if cs = [] then vs_read_unpadder vs = unpadder_new uuid \<and> vs_pending_read vs = []
      else \<exists>n. vs_read_unpadder vs = unpadder_of n \<and> byte_state_wf n \<and> \<not> is_after n
        \<and> unpad_bytes (AtCommand, True) (drop 16 (concat cs)) = Some (n, vs_pending_read vs))"

lemma handled_chunk:
  assumes "length uuid = 16" and inv: "read_inv uuid vs cs" and "vs_read_mode vs = PaddingTls"
    and "take 16 (concat (cs @ [c])) = uuid" and "16 \<le> length (hd (cs @ [c]))"
    and handle: "handle_padded_bytes memmem process s vs c = Inr (s', vs')"
  shows "\<exists>n out. unpad_bytes (AtCommand, True) (drop 16 (concat (cs @ [c]))) = Some (n, vs_pending_read vs @ out)
    \<and> unpad (vs_read_unpadder vs) c = (unpadder_of n, Inr \<lparr>ur_content = out, ur_command = command_of n\<rparr>)
    \<and> byte_state_wf n \<and> (\<forall>fb. n \<noteq> (After Continue, fb))"
proof -
  have ok: "is_ok (snd (unpad (vs_read_unpadder vs) c))"
    using handle by (auto simp: handle_padded_bytes_def split: prod.splits sum.splits)
  have spec: "\<exists>n out. unpad_bytes t bs = Some (n, out) \<and> unpad (vs_read_unpadder vs) c =
      (unpadder_of n, Inr \<lparr>ur_content = out, ur_command = command_of n\<rparr>)
      \<and> byte_state_wf n \<and> (\<forall>fb. n \<noteq> (After Continue, fb))"
    if "byte_state_wf t" "\<not> is_after t" "unpad (vs_read_unpadder vs) c = unpad (unpadder_of t) bs" for t bs
    using unpad_spec [OF that(1,2), of bs] ok that unpad_bytes_wf [of t bs] unpad_bytes_after [of t bs]
    by (cases "unpad_bytes t bs") fastforce+
  show ?thesis
  proof (cases "cs = []")
    case True
    then have "vs_read_unpadder vs = unpadder_new uuid" "vs_pending_read vs = []" "take 16 c = uuid" "16 \<le> length c"
      using inv assms(4,5) by (simp_all add: read_inv_def)
    then show ?thesis
      using spec [of "(AtCommand, True)" "drop 16 c"] unpad_first [OF assms(1)] True by auto
  next
    case False
    then obtain n0 where n0: "vs_read_unpadder vs = unpadder_of n0" "byte_state_wf n0" "\<not> is_after n0"
      "unpad_bytes (AtCommand, True) (drop 16 (concat cs)) = Some (n0, vs_pending_read vs)"
      using inv by (auto simp: read_inv_def)
    have "16 \<le> length (concat cs)" using False assms(5) by (cases cs) auto
    then have "drop 16 (concat (cs @ [c])) = drop 16 (concat cs) @ c" by simp
    then show ?thesis
      using spec [of n0 c] n0 by (auto simp: unpad_bytes_append)
  qed
qed

lemma reads_invariant:
  assumes "length uuid = 16" and "reads memmem process uuid s vs cs"
    and "cs \<noteq> [] \<longrightarrow> 16 \<le> length (hd cs) \<and> take 16 (hd cs) = uuid"
  shows "read_inv uuid vs cs"
  using assms(2,3)
proof (induction rule: reads.induct)
  case (reads_start s)
  then show ?case by (simp add: read_inv_def new_client_def new_common_def)
next
  case (reads_socket s vs cs s' d)
  then show ?case by (simp add: read_inv_def del: split_paired_Ex)
next
  case (reads_chunk s vs cs c s' vs')
  have hd: "16 \<le> length (hd (cs @ [c]))" "take 16 (concat (cs @ [c])) = uuid"
    using reads_chunk.prems by (cases cs; simp)+
  have "read_inv uuid vs cs" using reads_chunk.IH reads_chunk.prems by (cases cs) auto
  from handled_chunk [OF assms(1) this reads_chunk.hyps(2) hd(2,1) reads_chunk.hyps(3)]
  obtain n out where n: "unpad_bytes (AtCommand, True) (drop 16 (concat (cs @ [c]))) = Some (n, vs_pending_read vs @ out)"
    "unpad (vs_read_unpadder vs) c = (unpadder_of n, Inr \<lparr>ur_content = out, ur_command = command_of n\<rparr>)"
    "byte_state_wf n" "\<forall>fb. n \<noteq> (After Continue, fb)" by blast
  from handle_padded_bytes_effect [OF reads_chunk.hyps(3,2) n(2,4)] reads_chunk.hyps(4)
  show ?case using n by (auto simp: read_inv_def simp del: split_paired_Ex split: if_splits)
qed


text \<open>One write of a record and of bytes that are no record ends the padding phase.\<close>

definition sample_peer :: vision_stream where
  "sample_peer = (new_client (replicate 16 7))\<lparr>vs_write_first_packet := False,
     vs_inner_write_deframer := fuzzy_new, vs_filter := filter_with_record_count 0,
     vs_pending_tls_mode_switch := True,
     vs_session_in := replicate 16 7 @ [0, 0, 6, 0, 0, 0x16, 3, 1, 0, 1, 2] @ [1, 0, 5, 0, 0, 0, 0, 0, 0, 0]\<rparr>"

definition sample_process :: "unit \<Rightarrow> bytes \<Rightarrow> io_error + unit \<times> bytes" where
  "sample_process s r = Inr ((), [])"

definition sample_reader :: vision_stream where
  "sample_reader = (new_client (replicate 16 7))\<lparr>vs_outer_read_deframer :=
     Some \<lparr>td_buffer = [0x17], td_state = ReadingHeader\<rparr>\<rparr>"

lemma sample_peer_written:
  "poll_write_padding_tls naive_find sample_rng (\<lambda>_. Drained) (new_client (replicate 16 7))
     [0x16, 3, 1, 0, 1, 2, 0, 0, 0, 0, 0] = (sample_peer, Written 11)"
  by code_simp

lemma sample_unpadded:
  "unpad (unpadder_new (replicate 16 7)) (vs_session_in sample_peer) = (unpadder_of (After End, False),
     Inr \<lparr>ur_content = [0x16, 3, 1, 0, 1, 2, 0, 0, 0, 0, 0], ur_command = Some End\<rparr>)"
proof -
  have "unpad_bytes (AtCommand, True) (drop 16 (vs_session_in sample_peer)) =
    Some ((After End, False), [0x16, 3, 1, 0, 1, 2, 0, 0, 0, 0, 0])"
    by code_simp
  moreover have "take 16 (vs_session_in sample_peer) = replicate 16 7" "16 \<le> length (vs_session_in sample_peer)"
    by (simp_all add: sample_peer_def)
  ultimately show ?thesis
    using unpad_spec [of "(AtCommand, True)" "drop 16 (vs_session_in sample_peer)"]
      unpad_first [of "replicate 16 7" "vs_session_in sample_peer"] by simp
qed

lemma sample_drain:
  "drain_outer process s \<lparr>td_buffer = [0x17], td_state = ReadingHeader\<rparr> =
     Inr (s, [], \<lparr>td_buffer = [0x17], td_state = ReadingHeader\<rparr>)"
  by (subst drain_outer.simps) (simp add: next_record_def TLS_RECORD_HEADER_SIZE_def)


end
