(* ===== verification/SsCrypto.thy ===== *)
theory SsCrypto
  imports RustStr
begin

text \<open>
  \<open>crates/net/src/shadowsocks/crypto.rs\<close>: methods, key derivation and the sealing state with its nonce
  counter. The hash functions and ciphers come from third-party crates; they are the record
  \<open>ss_prims\<close> of parameters, and what their documentation promises is \<open>prims_ok\<close>: an AEAD adds a tag of
  16 bytes and opens what it sealed, the hashes have their fixed lengths, AES decrypts what it
  encrypted. \<open>sample_prims\<close> shows that the promises can be kept.
\<close>

section \<open>Methods\<close>

datatype ss_method = Aes128Gcm | Aes256Gcm | Chacha20IetfPoly1305
  | Ss2022Aes128Gcm | Ss2022Aes256Gcm | Ss2022Chacha20Poly1305

datatype ss_cipher = Aes128 | Aes256 | Chacha

definition method_from_name :: "string \<Rightarrow> ss_method option" where
  "method_from_name s =
     (let n = to_ascii_lowercase s
      in if n = ''aes-128-gcm'' then Some Aes128Gcm
         else if n = ''aes-256-gcm'' then Some Aes256Gcm
         else if n = ''chacha20-ietf-poly1305'' \<or> n = ''chacha20-poly1305'' then Some Chacha20IetfPoly1305
         else if n = ''2022-blake3-aes-128-gcm'' then Some Ss2022Aes128Gcm
         else if n = ''2022-blake3-aes-256-gcm'' then Some Ss2022Aes256Gcm
         else if n = ''2022-blake3-chacha20-poly1305'' then Some Ss2022Chacha20Poly1305
         else None)"

fun key_len :: "ss_method \<Rightarrow> nat" where
  "key_len Aes128Gcm = 16"
| "key_len Ss2022Aes128Gcm = 16"
| "key_len _ = 32"

definition salt_len :: "ss_method \<Rightarrow> nat" where
  "salt_len m = key_len m"

definition is_2022 :: "ss_method \<Rightarrow> bool" where
  "is_2022 m \<longleftrightarrow> m \<in> {Ss2022Aes128Gcm, Ss2022Aes256Gcm, Ss2022Chacha20Poly1305}"

definition is_chacha2022 :: "ss_method \<Rightarrow> bool" where
  "is_chacha2022 m \<longleftrightarrow> m = Ss2022Chacha20Poly1305"

fun method_cipher :: "ss_method \<Rightarrow> ss_cipher" where
  "method_cipher Aes128Gcm = Aes128"
| "method_cipher Ss2022Aes128Gcm = Aes128"
| "method_cipher Aes256Gcm = Aes256"
| "method_cipher Ss2022Aes256Gcm = Aes256"
| "method_cipher Chacha20IetfPoly1305 = Chacha"
| "method_cipher Ss2022Chacha20Poly1305 = Chacha"

section \<open>Primitives of the crates\<close>

record ss_prims =
  md5 :: "bytes \<Rightarrow> bytes"
  hkdf_sha1 :: "bytes \<Rightarrow> bytes \<Rightarrow> string \<Rightarrow> nat \<Rightarrow> bytes"
  blake3_derive_key :: "string \<Rightarrow> bytes \<Rightarrow> bytes"
  blake3_hash :: "bytes \<Rightarrow> bytes"
  aead_encrypt :: "ss_cipher \<Rightarrow> bytes \<Rightarrow> bytes \<Rightarrow> bytes \<Rightarrow> bytes option"
  aead_decrypt :: "ss_cipher \<Rightarrow> bytes \<Rightarrow> bytes \<Rightarrow> bytes \<Rightarrow> bytes option"
  xchacha_encrypt :: "bytes \<Rightarrow> bytes \<Rightarrow> bytes \<Rightarrow> bytes option"
  xchacha_decrypt :: "bytes \<Rightarrow> bytes \<Rightarrow> bytes \<Rightarrow> bytes option"
  aes_encrypt :: "bytes \<Rightarrow> bytes \<Rightarrow> bytes"
  aes_decrypt :: "bytes \<Rightarrow> bytes \<Rightarrow> bytes"

text \<open>\<open>new_from_slice\<close> of the ciphers refuses a key of another length.\<close>

fun cipher_key_len :: "ss_cipher \<Rightarrow> nat" where
  "cipher_key_len Aes128 = 16"
| "cipher_key_len Aes256 = 32"
| "cipher_key_len Chacha = 32"

definition aead_ok :: "(bytes \<Rightarrow> bytes \<Rightarrow> bytes \<Rightarrow> bytes option) \<Rightarrow> (bytes \<Rightarrow> bytes \<Rightarrow> bytes \<Rightarrow> bytes option) \<Rightarrow> bool" where
  "aead_ok enc dec \<longleftrightarrow>
     (\<forall>k n pt. length pt < 2 ^ 36 - 31 \<longrightarrow>
        (\<exists>ct. enc k n pt = Some ct \<and> length ct = length pt + 16 \<and> dec k n ct = Some pt))
     \<and> (\<forall>k n ct pt. dec k n ct = Some pt \<longrightarrow> length ct = length pt + 16)"

definition prims_ok :: "ss_prims \<Rightarrow> bool" where
  "prims_ok P \<longleftrightarrow>
     (\<forall>c. aead_ok (aead_encrypt P c) (aead_decrypt P c)) \<and> aead_ok (xchacha_encrypt P) (xchacha_decrypt P)
     \<and> (\<forall>b. length (md5 P b) = 16) \<and> (\<forall>salt ikm info n. length (hkdf_sha1 P salt ikm info n) = n)
     \<and> (\<forall>c b. length (blake3_derive_key P c b) = 32) \<and> (\<forall>b. length (blake3_hash P b) = 32)
     \<and> (\<forall>k b. length b = 16 \<longrightarrow> length (aes_encrypt P k b) = 16 \<and> aes_decrypt P k (aes_encrypt P k b) = b)"

section \<open>Key derivation\<close>

text \<open>\<open>evp_bytes_to_key\<close> repeats until there are enough digest bytes: it ends because a digest is not empty.\<close>

partial_function (option) evp_loop :: "(bytes \<Rightarrow> bytes) \<Rightarrow> bytes \<Rightarrow> nat \<Rightarrow> bytes \<Rightarrow> bytes \<Rightarrow> bytes option" where
  [code]: "evp_loop digest password n prev key =
     (if length key < n
      then let d = digest (prev @ password) in evp_loop digest password n d (key @ d)
      else Some (take n key))"

definition evp_bytes_to_key :: "ss_prims \<Rightarrow> bytes \<Rightarrow> nat \<Rightarrow> bytes option" where
  "evp_bytes_to_key P password n = evp_loop (md5 P) password n [] []"

definition session_subkey :: "ss_prims \<Rightarrow> ss_method \<Rightarrow> bytes \<Rightarrow> bytes \<Rightarrow> bytes" where
  "session_subkey P m master salt = hkdf_sha1 P salt master ''ss-subkey'' (key_len m)"

definition session_subkey_2022 :: "ss_prims \<Rightarrow> ss_method \<Rightarrow> bytes \<Rightarrow> bytes \<Rightarrow> bytes" where
  "session_subkey_2022 P m psk salt =
     take (key_len m) (blake3_derive_key P ''shadowsocks 2022 session subkey'' (psk @ salt))"

definition identity_subkey_2022 :: "ss_prims \<Rightarrow> ss_method \<Rightarrow> bytes \<Rightarrow> bytes \<Rightarrow> bytes" where
  "identity_subkey_2022 P m ipsk salt =
     take (key_len m) (blake3_derive_key P ''shadowsocks 2022 identity subkey'' (ipsk @ salt))"

definition psk_hash_16 :: "ss_prims \<Rightarrow> bytes \<Rightarrow> bytes" where
  "psk_hash_16 P psk = take 16 (blake3_hash P psk)"

definition aes_ecb_encrypt_block :: "ss_prims \<Rightarrow> bytes \<Rightarrow> bytes \<Rightarrow> io_error + bytes" where
  "aes_ecb_encrypt_block P psk block =
     (if length psk = 16 \<or> length psk = 32 then Inr (aes_encrypt P psk block)
      else Inl (IoOther ''ss2022: PSK length''))"

definition aes_ecb_decrypt_block :: "ss_prims \<Rightarrow> bytes \<Rightarrow> bytes \<Rightarrow> io_error + bytes" where
  "aes_ecb_decrypt_block P psk block =
     (if length psk = 16 \<or> length psk = 32 then Inr (aes_decrypt P psk block)
      else Inl (IoOther ''ss2022: PSK length''))"

text \<open>The identity headers: block \<open>i\<close> names the key after \<open>i\<close>, which is the session key for the last.\<close>

fun build_identity_headers :: "ss_prims \<Rightarrow> ss_method \<Rightarrow> bytes list \<Rightarrow> bytes \<Rightarrow> bytes \<Rightarrow> io_error + bytes" where
  "build_identity_headers P m [] session_psk salt = Inr []"
| "build_identity_headers P m (ipsk # ipsks) session_psk salt =
     (let following = (case ipsks of [] \<Rightarrow> session_psk | k # _ \<Rightarrow> k);
          subkey = identity_subkey_2022 P m ipsk salt
      in rbind (aes_ecb_encrypt_block P subkey (psk_hash_16 P following)) (\<lambda>block.
         rbind (build_identity_headers P m ipsks session_psk salt) (\<lambda>out. Inr (block @ out))))"

section \<open>Sealing state\<close>

record crypto =
  c_cipher :: ss_cipher
  c_key :: bytes
  c_nonce :: bytes

fun incr_nonce :: "bytes \<Rightarrow> bytes" where
  "incr_nonce [] = []"
| "incr_nonce (b # bs) = (if b + 1 \<noteq> 0 then (b + 1) # bs else (b + 1) # incr_nonce bs)"

definition aead_key_new :: "ss_method \<Rightarrow> bytes \<Rightarrow> io_error + (ss_cipher \<times> bytes)" where
  "aead_key_new m subkey =
     (if length subkey = cipher_key_len (method_cipher m) then Inr (method_cipher m, subkey)
      else Inl (IoOther ''ss: subkey length''))"

definition aead_key_seal :: "ss_prims \<Rightarrow> ss_cipher \<times> bytes \<Rightarrow> bytes \<Rightarrow> bytes \<Rightarrow> io_error + bytes" where
  "aead_key_seal P key nonce pt =
     ok_or (aead_encrypt P (fst key) (snd key) nonce pt) (IoOther ''ss: seal'')"

definition aead_key_open :: "ss_prims \<Rightarrow> ss_cipher \<times> bytes \<Rightarrow> bytes \<Rightarrow> bytes \<Rightarrow> io_error + bytes" where
  "aead_key_open P key nonce ct =
     ok_or (aead_decrypt P (fst key) (snd key) nonce ct) (IoOther ''ss: authentication'')"

definition crypto_new :: "ss_method \<Rightarrow> bytes \<Rightarrow> io_error + crypto" where
  "crypto_new m subkey = rbind (aead_key_new m subkey) (\<lambda>(c, k).
     Inr \<lparr>c_cipher = c, c_key = k, c_nonce = replicate 12 0\<rparr>)"

definition crypto_seal :: "ss_prims \<Rightarrow> crypto \<Rightarrow> bytes \<Rightarrow> io_error + bytes \<times> crypto" where
  "crypto_seal P c pt = rbind (aead_key_seal P (c_cipher c, c_key c) (c_nonce c) pt) (\<lambda>ct.
     Inr (ct, c\<lparr>c_nonce := incr_nonce (c_nonce c)\<rparr>))"

definition crypto_open :: "ss_prims \<Rightarrow> crypto \<Rightarrow> bytes \<Rightarrow> io_error + bytes \<times> crypto" where
  "crypto_open P c ct = rbind (aead_key_open P (c_cipher c, c_key c) (c_nonce c) ct) (\<lambda>pt.
     Inr (pt, c\<lparr>c_nonce := incr_nonce (c_nonce c)\<rparr>))"

definition seal_nonce :: "ss_prims \<Rightarrow> ss_method \<Rightarrow> bytes \<Rightarrow> bytes \<Rightarrow> bytes \<Rightarrow> io_error + bytes" where
  "seal_nonce P m subkey nonce pt = rbind (aead_key_new m subkey) (\<lambda>key. aead_key_seal P key nonce pt)"

definition open_nonce :: "ss_prims \<Rightarrow> ss_method \<Rightarrow> bytes \<Rightarrow> bytes \<Rightarrow> bytes \<Rightarrow> io_error + bytes" where
  "open_nonce P m subkey nonce ct = rbind (aead_key_new m subkey) (\<lambda>key. aead_key_open P key nonce ct)"

section \<open>Lengths and lock step\<close>

lemma cipher_key_len_method [simp]: "cipher_key_len (method_cipher m) = key_len m"
  by (cases m) simp_all

lemma key_len_bounds: "16 \<le> key_len m \<and> key_len m \<le> 32"
  by (cases m) simp_all

lemma key_len_pos [simp]: "0 < key_len m"
  using key_len_bounds [of m] by simp

lemma subkey_lengths:
  assumes "prims_ok P"
  shows "length (session_subkey P m master salt) = key_len m" and "length (session_subkey_2022 P m psk salt) = key_len m"
    and "length (identity_subkey_2022 P m psk salt) = key_len m" and "length (psk_hash_16 P psk) = 16"
  using assms key_len_bounds [of m]
  by (simp_all add: prims_ok_def session_subkey_def session_subkey_2022_def identity_subkey_2022_def psk_hash_16_def min_def)

lemma crypto_new_subkey:
  "length subkey = key_len m \<Longrightarrow>
     crypto_new m subkey = Inr \<lparr>c_cipher = method_cipher m, c_key = subkey, c_nonce = replicate 12 0\<rparr>"
  by (simp add: crypto_new_def aead_key_new_def)

text \<open>The state after a seal or an open; both ends step through the same states.\<close>

definition next_crypto :: "crypto \<Rightarrow> crypto" where
  "next_crypto c = c\<lparr>c_nonce := incr_nonce (c_nonce c)\<rparr>"

lemma seal_open:
  assumes "prims_ok P" and "length pt < 2 ^ 36 - 31"
  obtains ct where "crypto_seal P c pt = Inr (ct, next_crypto c)" and "length ct = length pt + 16"
    and "crypto_open P c ct = Inr (pt, next_crypto c)"
proof -
  from assms obtain ct where "aead_encrypt P (c_cipher c) (c_key c) (c_nonce c) pt = Some ct"
    "length ct = length pt + 16" "aead_decrypt P (c_cipher c) (c_key c) (c_nonce c) ct = Some pt"
    unfolding prims_ok_def aead_ok_def by metis
  then show ?thesis
    using that [of ct] by (simp add: crypto_seal_def crypto_open_def aead_key_seal_def aead_key_open_def next_crypto_def)
qed

lemma crypto_open_length:
  assumes "prims_ok P" and "crypto_open P c ct = Inr (pt, c')"
  shows "length ct = length pt + 16" and "c' = next_crypto c"
  using assms by (auto simp: crypto_open_def aead_key_open_def prims_ok_def aead_ok_def next_crypto_def)

lemma seal_nonce_open:
  assumes "prims_ok P" and "length pt < 2 ^ 36 - 31" and "length subkey = key_len m"
  obtains ct where "seal_nonce P m subkey n pt = Inr ct" and "length ct = length pt + 16"
    and "open_nonce P m subkey n ct = Inr pt"
proof -
  from assms obtain ct where "aead_encrypt P (method_cipher m) subkey n pt = Some ct"
    "length ct = length pt + 16" "aead_decrypt P (method_cipher m) subkey n ct = Some pt"
    unfolding prims_ok_def aead_ok_def by metis
  then show ?thesis
    using that [of ct] assms(3)
    by (simp add: seal_nonce_def open_nonce_def aead_key_new_def aead_key_seal_def aead_key_open_def)
qed

section \<open>The nonce is a counter\<close>

fun le_value :: "bytes \<Rightarrow> nat" where
  "le_value [] = 0"
| "le_value (b # bs) = unat b + 256 * le_value bs"

lemma length_incr_nonce [simp]: "length (incr_nonce n) = length n"
  by (induction n rule: incr_nonce.induct) auto

lemma le_value_less: "le_value n < 256 ^ length n"
proof (induction n)
  case (Cons b n)
  have "unat b + 256 * le_value n < 256 * (le_value n + 1)" by simp
  also have "\<dots> \<le> 256 * 256 ^ length n" using Cons.IH by (intro mult_le_mono2) simp
  finally show ?case by simp
qed simp

lemma unat_succ_u8_wrap: "unat ((b :: u8) + 1) = (if unat b = 255 then 0 else unat b + 1)"
proof -
  have "unat b < 256" by (rule unat_u8_less)
  then show ?thesis by (simp only: unat_plus_if') (auto simp del: unat_u8_less)
qed

lemma succ_u8_eq_0: "(b :: u8) + 1 = 0 \<longleftrightarrow> unat b = 255"
  using unat_succ_u8_wrap [of b] by (metis add_is_0 unat_eq_zero zero_neq_one)

lemma unat_succ_u8: "(b :: u8) + 1 \<noteq> 0 \<Longrightarrow> unat (b + 1) = unat b + 1"
  by (simp add: unat_succ_u8_wrap succ_u8_eq_0)

lemma le_value_incr: "le_value (incr_nonce n) = (le_value n + 1) mod 256 ^ length n"
proof (induction n)
  case (Cons b n)
  show ?case
  proof (cases "b + 1 = 0")
    case True
    then have "unat b = 255" by (simp add: succ_u8_eq_0)
    then have "(le_value (b # n) + 1) mod 256 ^ length (b # n) = (256 * (le_value n + 1)) mod (256 * 256 ^ length n)"
      by (simp add: algebra_simps)
    also have "\<dots> = 256 * ((le_value n + 1) mod 256 ^ length n)" by (simp add: mult_mod_right)
    finally show ?thesis using True Cons.IH by simp
  next
    case False
    have "le_value (b # n) + 1 < 256 ^ length (b # n)"
    proof -
      have "unat b + 1 < 256" using unat_succ_u8 [OF False] unat_u8_less [of "b + 1"] by simp
      then have "le_value (b # n) + 1 < 256 * (le_value n + 1)" by simp
      also have "\<dots> \<le> 256 * 256 ^ length n" using le_value_less [of n] by (intro mult_le_mono2) simp
      finally show ?thesis by simp
    qed
    then show ?thesis using False by (simp add: unat_succ_u8)
  qed
qed simp

lemma le_value_funpow: "le_value ((incr_nonce ^^ k) n) = (le_value n + k) mod 256 ^ length n"
proof (induction k)
  case 0
  show ?case using le_value_less [of n] by simp
next
  case (Suc k)
  have len: "length ((incr_nonce ^^ k) n) = length n" by (induction k) simp_all
  show ?case by (simp add: le_value_incr len Suc.IH mod_Suc_eq)
qed

lemma next_crypto_funpow: "c_nonce ((next_crypto ^^ k) c) = (incr_nonce ^^ k) (c_nonce c)"
  by (induction k) (simp_all add: next_crypto_def)

section \<open>Promises that can be kept\<close>

definition sample_seal :: "bytes \<Rightarrow> bytes \<Rightarrow> bytes \<Rightarrow> bytes option" where
  "sample_seal k n pt = Some (pt @ take 16 (n @ replicate 16 0))"

definition sample_open :: "bytes \<Rightarrow> bytes \<Rightarrow> bytes \<Rightarrow> bytes option" where
  "sample_open k n ct =
     (if 16 \<le> length ct \<and> drop (length ct - 16) ct = take 16 (n @ replicate 16 0) then Some (take (length ct - 16) ct) else None)"

definition sample_prims :: ss_prims where
  "sample_prims = \<lparr>md5 = (\<lambda>b. replicate 16 (of_nat (length b))), hkdf_sha1 = (\<lambda>salt ikm info n. take n (salt @ replicate n 0)),
     blake3_derive_key = (\<lambda>c b. take 32 (b @ replicate 32 0)), blake3_hash = (\<lambda>b. take 32 (b @ replicate 32 1)),
     aead_encrypt = (\<lambda>_. sample_seal), aead_decrypt = (\<lambda>_. sample_open),
     xchacha_encrypt = sample_seal, xchacha_decrypt = sample_open,
     aes_encrypt = (\<lambda>_ b. rev b), aes_decrypt = (\<lambda>_ b. rev b)\<rparr>"

lemma sample_prims_ok: "prims_ok sample_prims"
  by (auto simp: prims_ok_def aead_ok_def sample_prims_def sample_seal_def sample_open_def split: if_splits)

text \<open>C39. evp_bytes_to_key returns for every password, with a key of the length asked for, because an MD5 digest is never empty.\<close>

theorem evp_bytes_to_key_returns:
  assumes "prims_ok P"
  shows "\<exists>key. evp_bytes_to_key P password n = Some key \<and> length key = n"
proof -
  have "\<exists>k. evp_loop (md5 P) password n prev key = Some k \<and> length k = n" for prev key
  proof (induction "n - length key" arbitrary: prev key rule: less_induct)
    case less
    show ?case
    proof (cases "length key < n")
      case True
      have "0 < length (md5 P (prev @ password))" using assms by (simp add: prims_ok_def)
      then have "n - length (key @ md5 P (prev @ password)) < n - length key" using True by (simp only: length_append)
      from less [OF this] show ?thesis using True by (subst evp_loop.simps) (simp add: Let_def)
    next
      case False
      then show ?thesis by (subst evp_loop.simps) simp
    qed
  qed
  then show ?thesis by (simp add: evp_bytes_to_key_def)
qed

theorem evp_bytes_to_key_returns_witness:
  "\<exists>key. evp_bytes_to_key sample_prims [1, 2, 3] 32 = Some key \<and> length key = 32"
  by (rule evp_bytes_to_key_returns [OF sample_prims_ok])

text \<open>The first 2 ^ 96 seals of a direction use different nonces, and nonce number k is k as a little-endian number.\<close>

theorem nonces_never_repeat:
  assumes "crypto_new m subkey = Inr c" and "i < 2 ^ 96" and "j < 2 ^ 96"
  shows "le_value (c_nonce ((next_crypto ^^ i) c)) = i
    \<and> (c_nonce ((next_crypto ^^ i) c) = c_nonce ((next_crypto ^^ j) c) \<longleftrightarrow> i = j)"
proof -
  have zero: "le_value (replicate n 0) = 0" for n by (induction n) simp_all
  have c: "c_nonce c = replicate 12 0" using assms(1) by (auto simp: crypto_new_def)
  have "le_value (c_nonce ((next_crypto ^^ k) c)) = k" if "k < 2 ^ 96" for k
    using that by (simp add: next_crypto_funpow le_value_funpow c zero)
  then show ?thesis using assms(2,3) by metis
qed

theorem nonces_never_repeat_witness:
  "\<exists>c. crypto_new Aes128Gcm (replicate 16 7) = Inr c \<and> le_value (c_nonce ((next_crypto ^^ 300) c)) = 300
     \<and> c_nonce ((next_crypto ^^ 300) c) \<noteq> c_nonce ((next_crypto ^^ 44) c)"
proof -
  have "crypto_new Aes128Gcm (replicate 16 7) = Inr \<lparr>c_cipher = Aes128, c_key = replicate 16 7, c_nonce = replicate 12 0\<rparr>"
    by (simp add: crypto_new_subkey)
  from nonces_never_repeat [OF this, of 300 44] this show ?thesis by simp
qed

end
