(* ===== verification/PollIo.thy ===== *)
theory PollIo
  imports Prelude
begin

text \<open>
  Streams with a framing layer over an asynchronous transport: the part that the Shadowsocks streams
  (\<open>shadowsocks/stream.rs\<close>, \<open>shadowsocks/ss2022.rs\<close>) and the VLESS encryption stream share. A stream
  collects the bytes of a frame in \<open>rtmp\<close>, hands decrypted bytes out of \<open>plain\<close> and queues sealed
  bytes in \<open>wbuf\<close>.

  The transport below is described by what its next polls give: the segments of bytes that have
  arrived and what follows them, and how many bytes each write accepts. A segment is never empty
  (an empty read is the end of the stream), so every way of cutting a byte stream is covered.

  The locale \<open>due_reader\<close> is the contract of a reading side; a reader that meets it gives back what the
  wire carries, however it is cut. The locale \<open>frame_reader\<close> is the contract of a reading loop that is
  driven by stages, which meets it. The locale
  \<open>frame_writer\<close> is the contract of the writing side.
\<close>

section \<open>The transport below\<close>

datatype 'a poll = PollPending | PollReady 'a

datatype peer_end = StillOpen | PeerClosed | Broken io_error

datatype write_reply = Accept nat | NoRoom | WriteFails io_error

fun outcome :: "(io_error + bytes) poll \<Rightarrow> bytes option" where
  "outcome PollPending = Some []"
| "outcome (PollReady (Inr b)) = Some b"
| "outcome (PollReady (Inl _)) = None"

record transport =
  arrived :: "bytes list"
  peer :: peer_end
  replies :: "write_reply list"
  sent :: bytes

text \<open>A transport on which nothing has happened yet.\<close>

definition open_transport :: "write_reply list \<Rightarrow> transport" where
  "open_transport rs = \<lparr>arrived = [], peer = StillOpen, replies = rs, sent = []\<rparr>"

definition inner_read :: "nat \<Rightarrow> transport \<Rightarrow> (io_error + bytes) poll \<times> transport" where
  "inner_read want t =
     (case arrived t of
        seg # segs \<Rightarrow>
          (PollReady (Inr (take want seg)),
           t\<lparr>arrived := if drop want seg = [] then segs else drop want seg # segs\<rparr>)
      | [] \<Rightarrow> (case peer t of
          StillOpen \<Rightarrow> (PollPending, t)
        | PeerClosed \<Rightarrow> (PollReady (Inr []), t)
        | Broken e \<Rightarrow> (PollReady (Inl e), t)))"

definition inner_write :: "bytes \<Rightarrow> transport \<Rightarrow> (io_error + nat) poll \<times> transport" where
  "inner_write buf t =
     (case replies t of
        [] \<Rightarrow> (PollPending, t)
      | NoRoom # rs \<Rightarrow> (PollPending, t\<lparr>replies := rs\<rparr>)
      | WriteFails e # rs \<Rightarrow> (PollReady (Inl e), t\<lparr>replies := rs\<rparr>)
      | Accept n # rs \<Rightarrow>
          (PollReady (Inr (min n (length buf))), t\<lparr>replies := rs, sent := sent t @ take n buf\<rparr>))"

section \<open>The stream and its buffers\<close>

text \<open>The fields every such stream has; \<open>prot\<close> holds what is particular to the protocol.\<close>

record 'p fstream =
  inner :: transport
  rtmp :: bytes
  plain :: bytes
  ppos :: nat
  wbuf :: bytes
  wpos :: nat
  prot :: 'p

definition fstream_new :: "transport \<Rightarrow> bytes \<Rightarrow> 'p \<Rightarrow> 'p fstream" where
  "fstream_new t w p = \<lparr>inner = t, rtmp = [], plain = [], ppos = 0, wbuf = w, wpos = 0, prot = p\<rparr>"

text \<open>\<open>fill\<close>: \<open>Inr False\<close> is a clean end of the stream, before the first byte of the frame.\<close>

function fill :: "nat \<Rightarrow> 'p fstream \<Rightarrow> (io_error + bool) poll \<times> 'p fstream" where
  "fill need s =
     (if length (rtmp s) < need
      then (case inner_read (min (need - length (rtmp s)) 4096) (inner s) of
          (PollReady (Inr filled), t) \<Rightarrow>
            if filled = []
            then (PollReady (if rtmp s = [] then Inr False else Inl UnexpectedEof), s\<lparr>inner := t\<rparr>)
            else fill need (s\<lparr>inner := t, rtmp := rtmp s @ filled\<rparr>)
        | (PollReady (Inl e), t) \<Rightarrow> (PollReady (Inl e), s\<lparr>inner := t\<rparr>)
        | (PollPending, t) \<Rightarrow> (PollPending, s\<lparr>inner := t\<rparr>))
      else (PollReady (Inr True), s))"
  by pat_completeness auto

termination
  by (relation "measure (\<lambda>(need, s). need - length (rtmp s))") (auto simp: neq_Nil_conv)

declare fill.simps [simp del]

function flush_wbuf :: "'p fstream \<Rightarrow> (io_error + unit) poll \<times> 'p fstream" where
  "flush_wbuf s =
     (if wpos s < length (wbuf s)
      then (case inner_write (drop (wpos s) (wbuf s)) (inner s) of
          (PollReady (Inr n), t) \<Rightarrow>
            if n = 0 then (PollReady (Inl (IoOther ''WriteZero'')), s\<lparr>inner := t\<rparr>)
            else flush_wbuf (s\<lparr>inner := t, wpos := wpos s + n\<rparr>)
        | (PollReady (Inl e), t) \<Rightarrow> (PollReady (Inl e), s\<lparr>inner := t\<rparr>)
        | (PollPending, t) \<Rightarrow> (PollPending, s\<lparr>inner := t\<rparr>))
      else (PollReady (Inr ()), s\<lparr>wbuf := [], wpos := 0\<rparr>))"
  by pat_completeness auto

termination
  by (relation "measure (\<lambda>s. length (wbuf s) - wpos s)") auto

declare flush_wbuf.simps [simp del]

text \<open>\<open>deliver\<close> copies decrypted bytes into the caller's buffer, which has room for \<open>cap\<close> bytes.\<close>

definition deliver :: "nat \<Rightarrow> 'p fstream \<Rightarrow> bytes \<times> 'p fstream" where
  "deliver cap s =
     (let n = min cap (length (plain s) - ppos s);
          out = take n (drop (ppos s) (plain s));
          pos = ppos s + n
      in (out, if pos = length (plain s) then s\<lparr>plain := [], ppos := 0\<rparr> else s\<lparr>ppos := pos\<rparr>))"

section \<open>What the buffers keep\<close>

abbreviation waiting_plain :: "'p fstream \<Rightarrow> bytes" where
  "waiting_plain s \<equiv> drop (ppos s) (plain s)"

abbreviation unsent :: "'p fstream \<Rightarrow> bytes" where
  "unsent s \<equiv> drop (wpos s) (wbuf s)"

definition segments_ok :: "transport \<Rightarrow> bool" where
  "segments_ok t \<longleftrightarrow> [] \<notin> set (arrived t)"

lemma deliver_waiting:
  assumes "deliver cap s = (out, s')"
  shows "waiting_plain s = out @ waiting_plain s'" and "length out \<le> cap"
    and "length out = min cap (length (waiting_plain s))"
    and "inner s' = inner s" and "rtmp s' = rtmp s" and "prot s' = prot s" and "wbuf s' = wbuf s" and "wpos s' = wpos s"
  using assms
  by (auto simp: deliver_def Let_def min_def add.commute split: if_splits simp flip: drop_drop)

lemma inner_read_some:
  assumes "segments_ok t" and "arrived t \<noteq> []" and "0 < want"
  obtains got t' where "inner_read want t = (PollReady (Inr got), t')" and "got \<noteq> []" and "length got \<le> want"
    and "segments_ok t'" and "got @ concat (arrived t') = concat (arrived t)" and "peer t' = peer t"
    and "t' = t\<lparr>arrived := arrived t'\<rparr>"
proof -
  from assms(2) obtain seg segs where a: "arrived t = seg # segs" by (cases "arrived t") auto
  have "seg \<noteq> []" using assms(1) a by (auto simp: segments_ok_def)
  then show ?thesis
    using that [of "take want seg" "t\<lparr>arrived := if drop want seg = [] then segs else drop want seg # segs\<rparr>"] a assms
    by (auto simp: inner_read_def segments_ok_def)
qed

text \<open>What a call of \<open>fill\<close> does on a transport with non-empty segments: bytes only move into \<open>rtmp\<close>, and
  it reports success exactly when the frame is there.\<close>

definition short_reply :: "transport \<Rightarrow> bytes \<Rightarrow> (io_error + bool) poll" where
  "short_reply t got =
     (case peer t of StillOpen \<Rightarrow> PollPending | Broken e \<Rightarrow> PollReady (Inl e)
      | PeerClosed \<Rightarrow> PollReady (if got = [] then Inr False else Inl UnexpectedEof))"

lemma fill_spec:
  assumes "segments_ok (inner s)" and "length (rtmp s) \<le> need"
  shows "\<exists>segs got. [] \<notin> set segs \<and> got @ concat segs = rtmp s @ concat (arrived (inner s))
    \<and> fill need s = ((if need \<le> length (rtmp s @ concat (arrived (inner s))) then PollReady (Inr True)
                      else short_reply (inner s) got), s\<lparr>inner := (inner s)\<lparr>arrived := segs\<rparr>, rtmp := got\<rparr>)
    \<and> (if need \<le> length (rtmp s @ concat (arrived (inner s))) then length got = need else segs = [])"
  using assms
proof (induction need s rule: fill.induct)
  case (1 need s)
  consider (complete) "length (rtmp s) = need" | (out) "length (rtmp s) < need" "arrived (inner s) = []"
    | (step) "length (rtmp s) < need" "arrived (inner s) \<noteq> []"
    using "1.prems"(2) by linarith
  then show ?case
  proof cases
    case complete
    then have "fill need s = (PollReady (Inr True), s)" by (simp add: fill.simps)
    then show ?thesis using complete "1.prems"(1)
      by (intro exI [of _ "arrived (inner s)"] exI [of _ "rtmp s"]) (simp add: segments_ok_def)
  next
    case out
    then show ?thesis
      by (intro exI [of _ "[]"] exI [of _ "rtmp s"], cases "peer (inner s)")
        (simp_all add: fill.simps inner_read_def short_reply_def)
  next
    case step
    let ?want = "min (need - length (rtmp s)) 4096"
    from step have "0 < ?want" by simp
    from inner_read_some [OF "1.prems"(1) step(2) this] obtain got t'
      where r: "inner_read ?want (inner s) = (PollReady (Inr got), t')" "got \<noteq> []" "length got \<le> ?want"
        and t: "segments_ok t'" "got @ concat (arrived t') = concat (arrived (inner s))" "peer t' = peer (inner s)"
          "t' = (inner s)\<lparr>arrived := arrived t'\<rparr>" .
    let ?s = "s\<lparr>inner := t', rtmp := rtmp s @ got\<rparr>"
    have more: "fill need s = fill need ?s" using step r by (subst fill.simps) simp
    have cat: "rtmp ?s @ concat (arrived (inner ?s)) = rtmp s @ concat (arrived (inner s))"
      using t(2) by simp
    have upd: "?s\<lparr>inner := (inner ?s)\<lparr>arrived := segs\<rparr>, rtmp := g\<rparr> = s\<lparr>inner := (inner s)\<lparr>arrived := segs\<rparr>, rtmp := g\<rparr>" for segs g
      by (subst t(4)) simp
    have rep: "short_reply (inner ?s) = short_reply (inner s)"
      using t(3) by (auto simp: short_reply_def)
    have "length (rtmp ?s) \<le> need" using r(3) step by auto
    from "1.IH" [OF step(1) r(1) [symmetric] refl refl r(2) _ this] t(1)
    show ?thesis unfolding more cat upd rep by simp
  qed
qed

lemma fill_full:
  assumes "segments_ok (inner s)" and "length (rtmp s) \<le> need"
    and "rtmp s @ concat (arrived (inner s)) = frame @ rest" and "length frame = need"
  obtains segs where "fill need s = (PollReady (Inr True), s\<lparr>inner := (inner s)\<lparr>arrived := segs\<rparr>, rtmp := frame\<rparr>)"
    and "concat segs = rest" and "[] \<notin> set segs"
  using fill_spec [OF assms(1,2)] assms(3,4) by auto

lemma fill_short:
  assumes "segments_ok (inner s)" and "length (rtmp s @ concat (arrived (inner s))) < need"
  shows "fill need s = (short_reply (inner s) (rtmp s @ concat (arrived (inner s))),
    s\<lparr>inner := (inner s)\<lparr>arrived := []\<rparr>, rtmp := rtmp s @ concat (arrived (inner s))\<rparr>)"
  using fill_spec [OF assms(1), of need] assms(2) by auto

text \<open>Flushing moves bytes from the queue to the transport and loses none, also when it fails half way.\<close>

lemma inner_write_sent:
  assumes "inner_write buf t = (r, t')"
  shows "sent t' = sent t @ (case r of PollReady (Inr n) \<Rightarrow> take n buf | _ \<Rightarrow> [])"
    and "arrived t' = arrived t" and "peer t' = peer t" and "r = PollReady (Inr n) \<Longrightarrow> n \<le> length buf"
  using assms by (auto simp: inner_write_def min_def split: list.splits write_reply.splits)

lemma flush_wbuf_spec:
  assumes "flush_wbuf s = (r, s')"
  shows "sent (inner s') @ unsent s' = sent (inner s) @ unsent s \<and> (r = PollReady (Inr ()) \<longrightarrow> wbuf s' = [] \<and> wpos s' = 0)
    \<and> arrived (inner s') = arrived (inner s) \<and> peer (inner s') = peer (inner s)
    \<and> s' = s\<lparr>inner := inner s', wbuf := wbuf s', wpos := wpos s'\<rparr>"
  using assms
proof (induction s arbitrary: r s' rule: flush_wbuf.induct)
  case (1 s)
  show ?case
  proof (cases "wpos s < length (wbuf s)")
    case True
    obtain wr t' where w: "inner_write (unsent s) (inner s) = (wr, t')" by fastforce
    note facts = inner_write_sent [OF w]
    show ?thesis
    proof (cases "\<exists>n. wr = PollReady (Inr n) \<and> n \<noteq> 0")
      case True
      then obtain n where n: "wr = PollReady (Inr n)" "n \<noteq> 0" by blast
      let ?s = "s\<lparr>inner := t', wpos := wpos s + n\<rparr>"
      have "flush_wbuf ?s = (r, s')"
        using "1.prems" \<open>wpos s < length (wbuf s)\<close> w n by (subst (asm) flush_wbuf.simps) simp
      from "1.IH" [OF \<open>wpos s < length (wbuf s)\<close> w [symmetric] n(1) refl n(2) this]
      moreover have "take n (unsent s) @ drop (wpos s + n) (wbuf s) = unsent s"
        by (metis add.commute append_take_drop_id drop_drop)
      ultimately show ?thesis using facts n(1) by auto
    next
      case False
      then show ?thesis using "1.prems" \<open>wpos s < length (wbuf s)\<close> w facts
        by (subst (asm) flush_wbuf.simps) (auto split: poll.splits sum.splits if_splits)
    qed
  next
    case False
    then show ?thesis using "1.prems" by (subst (asm) flush_wbuf.simps) auto
  qed
qed

text \<open>The measure that ends a reading loop: a frame that is not empty uses up bytes that have arrived.\<close>

definition stock :: "'p fstream \<Rightarrow> nat" where
  "stock s = length (rtmp s) + length (concat (arrived (inner s)))"

lemma inner_read_bytes:
  assumes "inner_read want t = (r, t')"
  shows "length (concat (arrived t)) = (case r of PollReady (Inr got) \<Rightarrow> length got | _ \<Rightarrow> 0) + length (concat (arrived t'))"
  using assms by (auto simp: inner_read_def split: list.splits peer_end.splits if_splits)

lemma fill_stock:
  assumes "fill need s = (r, s')"
  shows "stock s' = stock s \<and> prot s' = prot s \<and> (r = PollReady (Inr True) \<longrightarrow> need \<le> length (rtmp s'))"
  using assms
proof (induction need s arbitrary: r s' rule: fill.induct)
  case (1 need s)
  obtain ir t where i: "inner_read (min (need - length (rtmp s)) 4096) (inner s) = (ir, t)" by fastforce
  note bytes = inner_read_bytes [OF i]
  show ?case
  proof (cases "length (rtmp s) < need")
    case short: True
    show ?thesis
    proof (cases "\<exists>got. ir = PollReady (Inr got) \<and> got \<noteq> []")
      case True
      then obtain got where got: "ir = PollReady (Inr got)" "got \<noteq> []" by blast
      then have "fill need (s\<lparr>inner := t, rtmp := rtmp s @ got\<rparr>) = (r, s')"
        using "1.prems" short i by (subst (asm) fill.simps) simp
      from "1.IH" [OF short i [symmetric] got(1) refl got(2) this] show ?thesis
        using bytes got(1) by (simp add: stock_def)
    next
      case False
      then obtain q where q: "fill need s = (q, s\<lparr>inner := t\<rparr>)" "q \<noteq> PollReady (Inr True)"
          "length (concat (arrived t)) = length (concat (arrived (inner s)))"
        using short i bytes by (cases ir rule: outcome.cases) (simp_all add: fill.simps [of need s])
      then show ?thesis using "1.prems" by (simp add: stock_def)
    qed
  next
    case False
    then show ?thesis using "1.prems" by (subst (asm) fill.simps) auto
  qed
qed

lemma fill_progress:
  "fill need s = (PollReady (Inr True), s') \<Longrightarrow> 0 < need \<Longrightarrow> stock (s'\<lparr>rtmp := [], prot := p\<rparr>) < stock s"
  using fill_stock [of need s] by (fastforce simp: stock_def)

section \<open>Reading frames\<close>

text \<open>
  What a wire carries for a reader in the protocol state \<open>p\<close>: frames of the length the state asks
  for, each of which is either consumed by the protocol or yields a chunk for the application.
\<close>

inductive carries :: "('p \<Rightarrow> nat) \<Rightarrow> ('p \<Rightarrow> bool) \<Rightarrow> ('p \<Rightarrow> bytes \<Rightarrow> 'p \<times> (io_error + bytes option))
    \<Rightarrow> 'p \<Rightarrow> bytes \<Rightarrow> bytes list \<Rightarrow> bool"
  for need eof_ok handle where
  carries_end: "eof_ok p \<Longrightarrow> 0 < need p \<Longrightarrow> carries need eof_ok handle p [] []"
| carries_skip: "length frame = need p \<Longrightarrow> handle p frame = (p', Inr None) \<Longrightarrow> carries need eof_ok handle p' w cs
    \<Longrightarrow> carries need eof_ok handle p (frame @ w) cs"
| carries_chunk: "length frame = need p \<Longrightarrow> handle p frame = (p', Inr (Some pt)) \<Longrightarrow> pt \<noteq> []
    \<Longrightarrow> carries need eof_ok handle p' w cs \<Longrightarrow> carries need eof_ok handle p (frame @ w) (pt # cs)"

lemma carries_maybe:
  "length frame = need p \<Longrightarrow> handle p frame = (p', Inr (if pt = [] then None else Some pt)) \<Longrightarrow> carries need eof_ok handle p' w cs
    \<Longrightarrow> carries need eof_ok handle p (frame @ w) (if pt = [] then cs else pt # cs)"
  by (cases "pt = []") (simp_all add: carries_skip carries_chunk)

text \<open>What happens to a reader: bytes arrive, or the application reads with room for some bytes.\<close>

datatype read_event = Arrive bytes | Read nat

fun run_reads :: "(nat \<Rightarrow> 'p fstream \<Rightarrow> (io_error + bytes) poll \<times> 'p fstream) \<Rightarrow> 'p fstream \<Rightarrow> read_event list
    \<Rightarrow> (io_error + bytes) poll list \<times> 'p fstream" where
  "run_reads poll s [] = ([], s)"
| "run_reads poll s (Arrive seg # evs) =
     run_reads poll (s\<lparr>inner := (inner s)\<lparr>arrived := arrived (inner s) @ [seg]\<rparr>\<rparr>) evs"
| "run_reads poll s (Read cap # evs) =
     (let (r, s) = poll cap s; (rs, s) = run_reads poll s evs in (r # rs, s))"

fun arrivals :: "read_event list \<Rightarrow> bytes" where
  "arrivals [] = []"
| "arrivals (Arrive seg # evs) = seg @ arrivals evs"
| "arrivals (Read _ # evs) = arrivals evs"

text \<open>The bytes a run of reads gave the application; \<open>None\<close> when one of them failed.\<close>

fun delivered :: "(io_error + bytes) poll list \<Rightarrow> bytes option" where
  "delivered [] = Some []"
| "delivered (r # rs) = (case outcome r of None \<Rightarrow> None | Some b \<Rightarrow> map_option (\<lambda>bs. b @ bs) (delivered rs))"

lemma run_reads_append:
  "run_reads poll s (evs @ evs') =
     (let (rs, s) = run_reads poll s evs; (rs', s) = run_reads poll s evs' in (rs @ rs', s))"
  by (induction poll s evs rule: run_reads.induct) (auto split: prod.split)

section \<open>A stream of bytes that is due\<close>

text \<open>
  A reader that owes its application the bytes \<open>todo\<close> when \<open>future\<close> is still to arrive: every poll takes a
  prefix of them, and a poll with room takes at least one byte once everything has arrived.
\<close>

locale due_reader =
  fixes poll :: "nat \<Rightarrow> 'p fstream \<Rightarrow> (io_error + bytes) poll \<times> 'p fstream"
    and due :: "bytes \<Rightarrow> bytes \<Rightarrow> 'p fstream \<Rightarrow> bool"
  assumes poll_takes: "due future todo s \<Longrightarrow> \<exists>r s' out todo'. poll cap s = (r, s') \<and> outcome r = Some out
      \<and> todo = out @ todo' \<and> due future todo' s' \<and> (future = [] \<longrightarrow> 0 < cap \<longrightarrow> todo \<noteq> [] \<longrightarrow> out \<noteq> [])"
    and arrive_keeps: "due (seg @ future) todo s \<Longrightarrow> seg \<noteq> [] \<Longrightarrow>
      due future todo (s\<lparr>inner := (inner s)\<lparr>arrived := arrived (inner s) @ [seg]\<rparr>\<rparr>)"
begin

lemma run_due:
  assumes "due (arrivals evs @ future) todo s" and "Arrive [] \<notin> set evs"
  shows "\<exists>rs s' out todo'. run_reads poll s evs = (rs, s') \<and> delivered rs = Some out
    \<and> todo = out @ todo' \<and> due future todo' s'"
  using assms
proof (induction evs arbitrary: s todo)
  case Nil
  then show ?case by simp
next
  case (Cons e evs)
  show ?case
  proof (cases e)
    case (Arrive seg)
    let ?s = "s\<lparr>inner := (inner s)\<lparr>arrived := arrived (inner s) @ [seg]\<rparr>\<rparr>"
    have "seg \<noteq> []" using Cons.prems(2) Arrive by auto
    then have "due (arrivals evs @ future) todo ?s"
      using Cons.prems(1) Arrive by (auto intro: arrive_keeps)
    then show ?thesis using Cons.IH Cons.prems(2) Arrive by simp
  next
    case (Read cap)
    then have "due (arrivals evs @ future) todo s" using Cons.prems(1) by simp
    from poll_takes [OF this, of cap] obtain r s1 out todo1
      where p: "poll cap s = (r, s1)" "outcome r = Some out" "todo = out @ todo1"
        "due (arrivals evs @ future) todo1 s1" by blast
    from Cons.IH [OF p(4)] Cons.prems(2) obtain rs s' out' todo'
      where "run_reads poll s1 evs = (rs, s')" "delivered rs = Some out'"
        "todo1 = out' @ todo'" "due future todo' s'" by auto
    then show ?thesis using Read p by auto
  qed
qed

lemma reads_finish:
  assumes "due [] todo s" and "length todo \<le> length caps" and "\<forall>c \<in> set caps. 0 < c"
  shows "\<exists>rs s'. run_reads poll s (map Read caps) = (rs, s') \<and> delivered rs = Some todo"
  using assms
proof (induction caps arbitrary: s todo)
  case Nil
  then show ?case by simp
next
  case (Cons c caps)
  from poll_takes [OF Cons.prems(1), of c] obtain r s1 out todo1
    where p: "poll c s = (r, s1)" "outcome r = Some out" "todo = out @ todo1" "due [] todo1 s1"
      and pos: "todo \<noteq> [] \<Longrightarrow> out \<noteq> []" using Cons.prems(3) by auto
  have "length todo1 \<le> length caps" using Cons.prems(2) pos p(3) by (cases "todo = []") (auto simp: neq_Nil_conv)
  from Cons.IH [OF p(4) this] Cons.prems(3) show ?case using p by (auto split: prod.split)
qed


lemma delivered_append: "delivered (rs @ rs') =
    (case (delivered rs, delivered rs') of (Some a, Some b) \<Rightarrow> Some (a @ b) | _ \<Rightarrow> None)"
  by (induction rs) (auto split: option.splits)

text \<open>The contract for the application: however the wire is cut and whatever room the reads have, nothing
  but the chunks of the wire is given out, in order; and all of it once it has arrived and was asked for.\<close>

lemma reads_back:
  assumes "due (arrivals evs) todo s" and "Arrive [] \<notin> set evs"
    and "\<forall>c \<in> set caps. 0 < c" and "length todo \<le> length caps"
  shows "delivered (fst (run_reads poll s (evs @ map Read caps))) = Some todo"
proof -
  from run_due [of evs "[]" todo s] assms(1,2) obtain rs s' out todo'
    where a: "run_reads poll s evs = (rs, s')" "delivered rs = Some out" "todo = out @ todo'" "due [] todo' s'"
    by auto
  from reads_finish [OF a(4), of caps] assms(3,4) a(3) obtain rs' s2
    where "run_reads poll s' (map Read caps) = (rs', s2)" "delivered rs' = Some todo'" by auto
  then show ?thesis using a by (simp add: run_reads_append delivered_append)
qed

end

section \<open>Reading frames in stages\<close>

definition framed_poll_read ::
  "('p fstream \<Rightarrow> (io_error + bool) poll \<times> 'p fstream) \<Rightarrow> nat \<Rightarrow> 'p fstream \<Rightarrow> (io_error + bytes) poll \<times> 'p fstream" where
  "framed_poll_read loop cap s =
     (if ppos s < length (plain s)
      then let (out, s) = deliver cap s in (PollReady (Inr out), s)
      else case loop s of
          (PollPending, s) \<Rightarrow> (PollPending, s)
        | (PollReady (Inl e), s) \<Rightarrow> (PollReady (Inl e), s)
        | (PollReady (Inr False), s) \<Rightarrow> (PollReady (Inr []), s)
        | (PollReady (Inr True), s) \<Rightarrow> (let (out, s) = deliver cap s in (PollReady (Inr out), s)))"

locale frame_reader =
  fixes need :: "'p \<Rightarrow> nat"
    and eof_ok :: "'p \<Rightarrow> bool"
    and handle :: "'p \<Rightarrow> bytes \<Rightarrow> 'p \<times> (io_error + bytes option)"
    and loop :: "'p fstream \<Rightarrow> (io_error + bool) poll \<times> 'p fstream"
  assumes loop_unfold: "loop s =
     (case fill (need (prot s)) s of
        (PollPending, s) \<Rightarrow> (PollPending, s)
      | (PollReady (Inl e), s) \<Rightarrow> (PollReady (Inl e), s)
      | (PollReady (Inr False), s) \<Rightarrow> (PollReady (if eof_ok (prot s) then Inr False else Inl UnexpectedEof), s)
      | (PollReady (Inr True), s) \<Rightarrow>
          (case handle (prot s) (rtmp s) of
             (p, Inl e) \<Rightarrow> (PollReady (Inl e), s\<lparr>rtmp := [], prot := p\<rparr>)
           | (p, Inr None) \<Rightarrow> loop (s\<lparr>rtmp := [], prot := p\<rparr>)
           | (p, Inr (Some pt)) \<Rightarrow> (PollReady (Inr True), s\<lparr>rtmp := [], prot := p, plain := pt, ppos := 0\<rparr>)))"
begin

abbreviation wire :: "'p \<Rightarrow> bytes \<Rightarrow> bytes list \<Rightarrow> bool" where
  "wire \<equiv> carries need eof_ok handle"

text \<open>The reader \<open>s\<close> will get \<open>future\<close> after what has arrived, and all of it carries \<open>cs\<close>.\<close>

definition reading :: "bytes \<Rightarrow> bytes list \<Rightarrow> 'p fstream \<Rightarrow> bool" where
  "reading future cs s \<longleftrightarrow> segments_ok (inner s) \<and> peer (inner s) = StillOpen \<and> length (rtmp s) \<le> need (prot s)
     \<and> wire (prot s) (rtmp s @ concat (arrived (inner s)) @ future) cs"

lemma wire_short: "wire p w cs \<Longrightarrow> length w < need p \<Longrightarrow> cs = []"
  by (auto elim: carries.cases)

lemma loop_waits:
  assumes "reading future cs s" and "length (rtmp s @ concat (arrived (inner s))) < need (prot s)"
  shows "\<exists>s'. loop s = (PollPending, s') \<and> reading future cs s' \<and> plain s' = plain s \<and> ppos s' = ppos s
    \<and> (future = [] \<longrightarrow> cs = [])"
proof -
  let ?s = "s\<lparr>inner := (inner s)\<lparr>arrived := []\<rparr>, rtmp := rtmp s @ concat (arrived (inner s))\<rparr>"
  have "segments_ok (inner s)" "peer (inner s) = StillOpen" using assms(1) by (simp_all add: reading_def)
  with fill_short [OF this(1) assms(2)] have "loop s = (PollPending, ?s)"
    by (subst loop_unfold) (simp add: short_reply_def)
  moreover have "reading future cs ?s" using assms by (simp add: reading_def segments_ok_def)
  moreover have "future = [] \<longrightarrow> cs = []"
    using assms wire_short [of "prot s" "rtmp s @ concat (arrived (inner s)) @ future" cs] by (auto simp: reading_def)
  ultimately show ?thesis by auto
qed

lemma loop_takes_frame:
  assumes "segments_ok (inner s)" and "peer (inner s) = StillOpen" and "length (rtmp s) \<le> need (prot s)"
    and "rtmp s @ concat (arrived (inner s)) @ future = frame @ w" and "length frame = need (prot s)"
    and "need (prot s) \<le> length (rtmp s @ concat (arrived (inner s)))"
  obtains t where "fill (need (prot s)) s = (PollReady (Inr True), s\<lparr>inner := t, rtmp := frame\<rparr>)"
    and "segments_ok t" and "peer t = StillOpen" and "concat (arrived t) @ future = w"
proof -
  let ?got = "rtmp s @ concat (arrived (inner s))"
  from assms(4) have "take (need (prot s)) (?got @ future) = take (need (prot s)) (frame @ w)" by simp
  then have "take (need (prot s)) ?got = frame" using assms(5,6) by (simp only: take_append) simp
  then have split: "?got = frame @ drop (need (prot s)) ?got" by (metis append_take_drop_id)
  then have rest: "drop (need (prot s)) ?got @ future = w"
    using assms(4) by (metis append_assoc same_append_eq)
  from fill_full [OF assms(1,3) split assms(5)] obtain segs
    where "fill (need (prot s)) s = (PollReady (Inr True), s\<lparr>inner := (inner s)\<lparr>arrived := segs\<rparr>, rtmp := frame\<rparr>)"
      "concat segs = drop (need (prot s)) ?got" "[] \<notin> set segs" .
  then show ?thesis
    using that [of "(inner s)\<lparr>arrived := segs\<rparr>"] rest assms(2) by (simp add: segments_ok_def)
qed

lemma loop_reading:
  assumes "reading future cs s"
  shows "\<exists>s'. (\<exists>pt cs'. cs = pt # cs' \<and> pt \<noteq> [] \<and> loop s = (PollReady (Inr True), s') \<and> plain s' = pt \<and> ppos s' = 0 \<and> reading future cs' s')
    \<or> (loop s = (PollPending, s') \<and> reading future cs s' \<and> plain s' = plain s \<and> ppos s' = ppos s
        \<and> (future = [] \<longrightarrow> cs = []))"
proof -
  have "wire p w cs \<Longrightarrow> reading future cs s \<Longrightarrow> p = prot s \<Longrightarrow> w = rtmp s @ concat (arrived (inner s)) @ future \<Longrightarrow> ?thesis" for p w
  proof (induction arbitrary: s rule: carries.induct)
    case (carries_end p)
    then have "length (rtmp s @ concat (arrived (inner s))) < need (prot s)" by (metis append_is_Nil_conv append.assoc list.size(3))
    from loop_waits [OF carries_end.prems(1) this] show ?case by blast
  next
    case (carries_skip frame p p' w cs)
    show ?case
    proof (cases "need (prot s) \<le> length (rtmp s @ concat (arrived (inner s)))")
      case True
      obtain t where f: "fill (need (prot s)) s = (PollReady (Inr True), s\<lparr>inner := t, rtmp := frame\<rparr>)"
        and t: "segments_ok t" "peer t = StillOpen" "concat (arrived t) @ future = w"
        by (rule loop_takes_frame [OF _ _ _ carries_skip.prems(3) [symmetric] _ True])
          (use carries_skip in \<open>auto simp: reading_def\<close>)
      let ?s = "s\<lparr>inner := t, rtmp := [], prot := p'\<rparr>"
      have "loop s = loop ?s" using f carries_skip by (subst loop_unfold) simp
      moreover have "reading future cs ?s" using t carries_skip.hyps(3) by (simp add: reading_def)
      ultimately show ?thesis using carries_skip.IH [of ?s] t(3) by simp
    next
      case False
      then have "length (rtmp s @ concat (arrived (inner s))) < need (prot s)" by simp
      from loop_waits [OF carries_skip.prems(1) this] show ?thesis by blast
    qed
  next
    case (carries_chunk frame p p' pt w cs)
    show ?case
    proof (cases "need (prot s) \<le> length (rtmp s @ concat (arrived (inner s)))")
      case True
      obtain t where f: "fill (need (prot s)) s = (PollReady (Inr True), s\<lparr>inner := t, rtmp := frame\<rparr>)"
        and t: "segments_ok t" "peer t = StillOpen" "concat (arrived t) @ future = w"
        by (rule loop_takes_frame [OF _ _ _ carries_chunk.prems(3) [symmetric] _ True])
          (use carries_chunk in \<open>auto simp: reading_def\<close>)
      let ?s = "s\<lparr>inner := t, rtmp := [], prot := p', plain := pt, ppos := 0\<rparr>"
      have "loop s = (PollReady (Inr True), ?s)" using f carries_chunk by (subst loop_unfold) simp
      moreover have "reading future cs ?s" using t carries_chunk.hyps(4) by (simp add: reading_def)
      ultimately show ?thesis using carries_chunk.hyps(3) by auto
    next
      case False
      then have "length (rtmp s @ concat (arrived (inner s))) < need (prot s)" by simp
      from loop_waits [OF carries_chunk.prems(1) this] show ?thesis by blast
    qed
  qed
  then show ?thesis using assms by (auto simp: reading_def)
qed

text \<open>
  The bytes still to be given to the application: \<open>todo\<close>. Every poll takes a prefix of them, and a
  poll with room takes at least one byte once the rest of the wire has arrived.
\<close>

definition due :: "bytes \<Rightarrow> bytes \<Rightarrow> 'p fstream \<Rightarrow> bool" where
  "due future todo s \<longleftrightarrow> (\<exists>cs. reading future cs s \<and> todo = waiting_plain s @ concat cs)"

lemma deliver_reading: "deliver cap s = (out, s') \<Longrightarrow> reading future cs s' = reading future cs s"
  by (simp add: reading_def deliver_waiting)

lemma poll_due:
  assumes "due future todo s"
  shows "\<exists>r s' out. framed_poll_read loop cap s = (r, s') \<and> outcome r = Some out \<and> length out \<le> cap
    \<and> (\<exists>todo'. todo = out @ todo' \<and> due future todo' s')
    \<and> (future = [] \<longrightarrow> 0 < cap \<longrightarrow> todo \<noteq> [] \<longrightarrow> out \<noteq> [])"
proof -
  from assms obtain cs where r: "reading future cs s" and todo: "todo = waiting_plain s @ concat cs"
    unfolding due_def by blast
  have given: "framed_poll_read loop cap s = (PollReady (Inr (fst (deliver cap s1))), snd (deliver cap s1)) \<Longrightarrow>
      reading future cs1 s1 \<Longrightarrow> todo = waiting_plain s1 @ concat cs1 \<Longrightarrow> waiting_plain s1 \<noteq> [] \<Longrightarrow> ?thesis" for s1 cs1
  proof -
    assume p: "framed_poll_read loop cap s = (PollReady (Inr (fst (deliver cap s1))), snd (deliver cap s1))"
      and r1: "reading future cs1 s1" and t1: "todo = waiting_plain s1 @ concat cs1" and ne: "waiting_plain s1 \<noteq> []"
    obtain out s' where d: "deliver cap s1 = (out, s')" by fastforce
    note dw = deliver_waiting [OF d]
    have "due future (waiting_plain s' @ concat cs1) s'"
      using r1 deliver_reading [OF d] by (auto simp: due_def)
    moreover have "todo = out @ waiting_plain s' @ concat cs1" using t1 dw(1) by simp
    moreover have "0 < cap \<Longrightarrow> out \<noteq> []" using dw(3) ne by (auto simp: min_def split: if_splits)
    ultimately show ?thesis using p dw(2) by (auto simp: d)
  qed
  show ?thesis
  proof (cases "ppos s < length (plain s)")
    case True
    show ?thesis by (rule given [OF _ r todo]) (use True in \<open>simp_all add: framed_poll_read_def split: prod.split\<close>)
  next
    case False
    then have empty: "waiting_plain s = []" by simp
    from loop_reading [OF r] obtain s1 where
      "(\<exists>pt cs'. cs = pt # cs' \<and> pt \<noteq> [] \<and> loop s = (PollReady (Inr True), s1) \<and> plain s1 = pt \<and> ppos s1 = 0 \<and> reading future cs' s1)
      \<or> (loop s = (PollPending, s1) \<and> reading future cs s1 \<and> plain s1 = plain s \<and> ppos s1 = ppos s \<and> (future = [] \<longrightarrow> cs = []))" ..
    then consider (chunk) pt cs' where "cs = pt # cs'" "pt \<noteq> []" "loop s = (PollReady (Inr True), s1)" "plain s1 = pt" "ppos s1 = 0" "reading future cs' s1"
      | (wait) "loop s = (PollPending, s1)" "reading future cs s1" "plain s1 = plain s" "ppos s1 = ppos s" "future = [] \<longrightarrow> cs = []"
      by blast
    then show ?thesis
    proof cases
      case chunk
      show ?thesis
        by (rule given [OF _ chunk(6)]) (use False chunk todo empty in \<open>simp_all add: framed_poll_read_def split: prod.split\<close>)
    next
      case wait
      then have "framed_poll_read loop cap s = (PollPending, s1)" using False by (simp add: framed_poll_read_def)
      moreover have "due future todo s1" using wait todo by (auto simp: due_def)
      ultimately show ?thesis using wait(5) todo empty by auto
    qed
  qed
qed

lemma due_new:
  assumes "wire p w cs"
  shows "due w (concat cs) (fstream_new \<lparr>arrived = [], peer = StillOpen, replies = rs, sent = []\<rparr> q p)"
  using assms by (auto simp: due_def reading_def fstream_new_def segments_ok_def)

lemma due_arrives:
  "due (seg @ future) todo s \<Longrightarrow> seg \<noteq> [] \<Longrightarrow> due future todo (s\<lparr>inner := (inner s)\<lparr>arrived := arrived (inner s) @ [seg]\<rparr>\<rparr>)"
  by (auto simp: due_def reading_def segments_ok_def)

end

sublocale frame_reader \<subseteq> due_reader "framed_poll_read loop" due
proof
  fix future todo s cap
  assume "due future todo s"
  from poll_due [OF this, of cap] show "\<exists>r s' out todo'. framed_poll_read loop cap s = (r, s') \<and> outcome r = Some out
      \<and> todo = out @ todo' \<and> due future todo' s' \<and> (future = [] \<longrightarrow> 0 < cap \<longrightarrow> todo \<noteq> [] \<longrightarrow> out \<noteq> [])"
    by blast
qed (rule due_arrives)

section \<open>Writing frames\<close>

text \<open>
  \<open>poll_write\<close> of the streams: finish what is queued, seal one chunk of the caller's bytes, try to
  send it. \<open>encode\<close> is the sealing part: the new protocol state, the bytes it queues, and the number
  of bytes of the caller it took.
\<close>

definition framed_poll_write :: "('p \<Rightarrow> bytes \<Rightarrow> 'p \<times> bytes \<times> (io_error + nat)) \<Rightarrow> bytes \<Rightarrow> 'p fstream
    \<Rightarrow> (io_error + nat) poll \<times> 'p fstream" where
  "framed_poll_write encode buf s =
     (case flush_wbuf s of
        (PollPending, s) \<Rightarrow> (PollPending, s)
      | (PollReady (Inl e), s) \<Rightarrow> (PollReady (Inl e), s)
      | (PollReady (Inr _), s) \<Rightarrow>
          if buf = [] then (PollReady (Inr 0), s)
          else case encode (prot s) buf of (p, queued, r) \<Rightarrow>
            (let s = s\<lparr>prot := p, wbuf := wbuf s @ queued\<rparr>
             in case r of
                  Inl e \<Rightarrow> (PollReady (Inl e), s)
                | Inr n \<Rightarrow> (case flush_wbuf s of
                      (PollReady (Inl e), s) \<Rightarrow> (PollReady (Inl e), s)
                    | (_, s) \<Rightarrow> (PollReady (Inr n), s))))"

text \<open>\<open>poll_flush\<close> and \<open>poll_shutdown\<close> empty the queue and pass the call on; \<open>below\<close> is what the transport answers to it.\<close>

definition framed_poll_flush :: "(io_error + unit) poll \<Rightarrow> 'p fstream \<Rightarrow> (io_error + unit) poll \<times> 'p fstream" where
  "framed_poll_flush below s =
     (case flush_wbuf s of
        (PollReady (Inr _), s) \<Rightarrow> (below, s)
      | (PollReady (Inl e), s) \<Rightarrow> (PollReady (Inl e), s)
      | (PollPending, s) \<Rightarrow> (PollPending, s))"

lemma flush_leaves_nothing:
  "framed_poll_flush (PollReady (Inr ())) s = (PollReady (Inr ()), s') \<Longrightarrow> unsent s' = []"
  using flush_wbuf_spec [of s] by (auto simp: framed_poll_flush_def split: prod.splits poll.splits sum.splits)

text \<open>The application's calls one after another, and the bytes that were taken from it (\<open>None\<close> after an error).\<close>

fun run_writes :: "(bytes \<Rightarrow> 'p fstream \<Rightarrow> (io_error + nat) poll \<times> 'p fstream) \<Rightarrow> 'p fstream \<Rightarrow> bytes list
    \<Rightarrow> bytes list option \<times> 'p fstream" where
  "run_writes poll s [] = (Some [], s)"
| "run_writes poll s (buf # bufs) =
     (case poll buf s of
        (PollReady (Inl e), s) \<Rightarrow> (None, s)
      | (PollReady (Inr n), s) \<Rightarrow>
          (let (rs, s) = run_writes poll s bufs in (map_option (\<lambda>rs. (if n = 0 then rs else take n buf # rs)) rs, s))
      | (PollPending, s) \<Rightarrow> run_writes poll s bufs)"

text \<open>
  The contract of a sealing function: if the primitives it rests on are \<open>sound\<close>, it fails or takes a
  non-empty chunk, and the state and the wire are functions of the chunks taken so far. \<open>ok\<close> is what
  holds of the chunks taken.
\<close>

locale fallible_writer =
  fixes encode :: "'p \<Rightarrow> bytes \<Rightarrow> 'p \<times> bytes \<times> (io_error + nat)"
    and state_after :: "bytes list \<Rightarrow> 'p"
    and wire_of :: "bytes list \<Rightarrow> bytes"
    and ok :: "bytes list \<Rightarrow> bool"
    and sound :: bool
  assumes encode_takes: "sound \<Longrightarrow> buf \<noteq> [] \<Longrightarrow> ok cs \<Longrightarrow> encode (state_after cs) buf = (p, queued, Inr n) \<Longrightarrow>
      0 < n \<and> n \<le> length buf \<and> ok (cs @ [take n buf]) \<and> p = state_after (cs @ [take n buf])
      \<and> wire_of (cs @ [take n buf]) = wire_of cs @ queued"
begin

definition wrote :: "bytes list \<Rightarrow> 'p fstream \<Rightarrow> bool" where
  "wrote cs s \<longleftrightarrow> sound \<and> prot s = state_after cs \<and> sent (inner s) @ unsent s = wire_of cs \<and> ok cs"

lemma flush_wrote: "flush_wbuf s = (r, s') \<Longrightarrow> wrote cs s' = wrote cs s"
proof -
  assume "flush_wbuf s = (r, s')"
  note spec = flush_wbuf_spec [OF this]
  then have "prot s' = prot s" by (metis fstream.select_convs(7) fstream.surjective fstream.update_convs(1,5,6))
  then show ?thesis using spec by (simp add: wrote_def)
qed

lemma poll_wrote:
  assumes "wrote cs s" and "framed_poll_write encode buf s = (r, s')"
  shows "r = PollPending \<and> wrote cs s' \<or> r = PollReady (Inr 0) \<and> buf = [] \<and> wrote cs s' \<or> (\<exists>e. r = PollReady (Inl e))
    \<or> (\<exists>n. r = PollReady (Inr n) \<and> 0 < n \<and> n \<le> length buf \<and> wrote (cs @ [take n buf]) s')"
proof -
  obtain r1 s1 where f: "flush_wbuf s = (r1, s1)" by fastforce
  note spec = flush_wbuf_spec [OF f]
  have w1: "wrote cs s1" using assms(1) flush_wrote [OF f] by simp
  consider "r1 = PollPending" | e where "r1 = PollReady (Inl e)" | (empty) "r1 = PollReady (Inr ())" "buf = []"
    | (go) "r1 = PollReady (Inr ())" "buf \<noteq> []"
    by (metis old.unit.exhaust poll.exhaust sum.exhaust)
  then show ?thesis
  proof cases
    case go
    have q: "wbuf s1 = []" "wpos s1 = 0" using spec go(1) by auto
    obtain p queued er where e: "encode (prot s1) buf = (p, queued, er)" by (metis prod_cases3)
    show ?thesis
    proof (cases er)
      case (Inl a)
      then show ?thesis using assms(2) f go e by (auto simp: framed_poll_write_def)
    next
      case (Inr n)
      have n: "0 < n" "n \<le> length buf" "ok (cs @ [take n buf])" "p = state_after (cs @ [take n buf])"
        and x: "wire_of (cs @ [take n buf]) = wire_of cs @ queued"
        using encode_takes [OF _ go(2), of cs p queued n] w1 e Inr unfolding wrote_def by auto
      let ?s = "s1\<lparr>prot := p, wbuf := queued\<rparr>"
      have w2: "wrote (cs @ [take n buf]) ?s" using w1 x q n(3,4) unfolding wrote_def by simp
      obtain r2 s2 where f2: "flush_wbuf ?s = (r2, s2)" by fastforce
      have "wrote (cs @ [take n buf]) s2" using w2 flush_wrote [OF f2] by simp
      then show ?thesis using assms(2) f go e f2 q n Inr
        by (auto simp: framed_poll_write_def split: poll.splits sum.splits)
    qed
  qed (use assms(2) f w1 in \<open>auto simp: framed_poll_write_def\<close>)
qed

lemma run_wrote:
  assumes "wrote cs s" and "run_writes (framed_poll_write encode) s bufs = (Some ds, s')"
  shows "wrote (cs @ ds) s'"
  using assms
proof (induction bufs arbitrary: cs s ds)
  case Nil
  then show ?case by simp
next
  case (Cons buf bufs)
  obtain r s1 where p: "framed_poll_write encode buf s = (r, s1)" by fastforce
  from poll_wrote [OF Cons.prems(1) p] show ?case
  proof (elim disjE exE conjE)
    fix n assume n: "r = PollReady (Inr n)" "0 < n" "wrote (cs @ [take n buf]) s1"
    with Cons.prems(2) p obtain ds' where "run_writes (framed_poll_write encode) s1 bufs = (Some ds', s')" "ds = take n buf # ds'"
      by (auto split: prod.splits)
    then show ?thesis using Cons.IH [OF n(3)] by simp
  qed (use Cons.prems p Cons.IH in \<open>auto split: prod.splits option.splits\<close>)
qed

end

text \<open>A sealing function that does not fail.\<close>

locale frame_writer =
  fixes encode :: "'p \<Rightarrow> bytes \<Rightarrow> 'p \<times> bytes \<times> (io_error + nat)"
    and state_after :: "bytes list \<Rightarrow> 'p"
    and wire_of :: "bytes list \<Rightarrow> bytes"
    and chunk_ok :: "bytes \<Rightarrow> bool"
    and sound :: bool
  assumes encode_chunk: "sound \<Longrightarrow> buf \<noteq> [] \<Longrightarrow> \<forall>c \<in> set cs. chunk_ok c \<Longrightarrow> \<exists>n. 0 < n \<and> n \<le> length buf \<and> chunk_ok (take n buf)
      \<and> (\<exists>queued. encode (state_after cs) buf = (state_after (cs @ [take n buf]), queued, Inr n)
            \<and> wire_of (cs @ [take n buf]) = wire_of cs @ queued)"

sublocale frame_writer \<subseteq> fallible_writer encode state_after wire_of "\<lambda>cs. \<forall>c \<in> set cs. chunk_ok c" sound
proof
  fix buf cs p queued n
  assume "sound" "buf \<noteq> []" "\<forall>c \<in> set cs. chunk_ok c" "encode (state_after cs) buf = (p, queued, Inr n)"
  then show "0 < n \<and> n \<le> length buf \<and> (\<forall>c \<in> set (cs @ [take n buf]). chunk_ok c) \<and> p = state_after (cs @ [take n buf])
      \<and> wire_of (cs @ [take n buf]) = wire_of cs @ queued"
    using encode_chunk [of buf cs] by auto
qed

end
