(* ===== verification/SsStream.thy ===== *)
theory SsStream
  imports SsCrypto PollIo
begin

text \<open>
  \<open>crates/net/src/shadowsocks/stream.rs\<close>: the stream of the older Shadowsocks methods. The writer sends
  a random salt and then, for every chunk, its sealed length and the sealed bytes; the reader goes
  through the stages \<open>Salt\<close>, \<open>Len\<close>, \<open>Data\<close>. The two ends are put together: what was taken from the
  writing application is what the reading application gets, whatever the transport accepts per
  write and however it cuts the bytes.
\<close>

abbreviation (input) SS_MAX_CHUNK :: nat where "SS_MAX_CHUNK \<equiv> 0x3FFF"
abbreviation (input) AEAD_TAG :: nat where "AEAD_TAG \<equiv> 16"

datatype ss_stage = SsSalt | SsLen | SsData nat

record ss_stream =
  ss_method :: ss_method
  ss_master :: bytes
  ss_send :: "crypto option"
  ss_recv :: "crypto option"
  ss_stage :: ss_stage

definition ss_new :: "ss_method \<Rightarrow> bytes \<Rightarrow> ss_stream" where
  "ss_new m master = \<lparr>ss_method = m, ss_master = master, ss_send = None, ss_recv = None, ss_stage = SsSalt\<rparr>"

definition ss_stream_new :: "transport \<Rightarrow> ss_method \<Rightarrow> bytes \<Rightarrow> ss_stream fstream" where
  "ss_stream_new t m master = fstream_new t [] (ss_new m master)"

section \<open>Reading\<close>

text \<open>How many bytes a stage waits for, whether the stream may end there, and what it does with the frame.\<close>

definition ss_need :: "ss_stream \<Rightarrow> nat" where
  "ss_need s =
     (case ss_stage s of SsSalt \<Rightarrow> salt_len (ss_method s) | SsLen \<Rightarrow> 2 + AEAD_TAG | SsData len \<Rightarrow> len + AEAD_TAG)"

definition ss_eof_ok :: "ss_stream \<Rightarrow> bool" where
  "ss_eof_ok s = (case ss_stage s of SsData _ \<Rightarrow> False | _ \<Rightarrow> True)"

definition be_length :: "bytes \<Rightarrow> io_error + nat" where
  "be_length pt = rbind (index pt 0) (\<lambda>hi. rbind (index pt 1) (\<lambda>lo. Inr (unat hi * 256 + unat lo)))"

definition ss_handle :: "ss_prims \<Rightarrow> ss_stream \<Rightarrow> bytes \<Rightarrow> ss_stream \<times> (io_error + bytes option)" where
  "ss_handle P s frame =
     (case ss_stage s of
        SsSalt \<Rightarrow>
          (case crypto_new (ss_method s) (session_subkey P (ss_method s) (ss_master s) frame) of
             Inl e \<Rightarrow> (s, Inl e)
           | Inr c \<Rightarrow> (s\<lparr>ss_recv := Some c, ss_stage := SsLen\<rparr>, Inr None))
      | SsLen \<Rightarrow>
          (case ss_recv s of
             None \<Rightarrow> (s, Inl Panic)
           | Some c \<Rightarrow> (case crypto_open P c frame of
               Inl e \<Rightarrow> (s, Inl e)
             | Inr (pt, c) \<Rightarrow>
                 (let s = s\<lparr>ss_recv := Some c\<rparr>
                  in case be_length pt of
                       Inl e \<Rightarrow> (s, Inl e)
                     | Inr len \<Rightarrow>
                         if len = 0 \<or> len > SS_MAX_CHUNK then (s, Inl (IoOther ''ss: chunk length''))
                         else (s\<lparr>ss_stage := SsData len\<rparr>, Inr None))))
      | SsData len \<Rightarrow>
          (case ss_recv s of
             None \<Rightarrow> (s, Inl Panic)
           | Some c \<Rightarrow> (case crypto_open P c frame of
               Inl e \<Rightarrow> (s, Inl e)
             | Inr (pt, c) \<Rightarrow> (s\<lparr>ss_recv := Some c, ss_stage := SsLen\<rparr>, Inr (Some pt)))))"

lemma ss_need_pos: "0 < ss_need s"
  by (simp add: ss_need_def salt_len_def split: ss_stage.split)

function ss_read_loop :: "ss_prims \<Rightarrow> ss_stream fstream \<Rightarrow> (io_error + bool) poll \<times> ss_stream fstream" where
  "ss_read_loop P s =
     (case fill (ss_need (prot s)) s of
        (PollPending, s) \<Rightarrow> (PollPending, s)
      | (PollReady (Inl e), s) \<Rightarrow> (PollReady (Inl e), s)
      | (PollReady (Inr False), s) \<Rightarrow> (PollReady (if ss_eof_ok (prot s) then Inr False else Inl UnexpectedEof), s)
      | (PollReady (Inr True), s) \<Rightarrow>
          (case ss_handle P (prot s) (rtmp s) of
             (p, Inl e) \<Rightarrow> (PollReady (Inl e), s\<lparr>rtmp := [], prot := p\<rparr>)
           | (p, Inr None) \<Rightarrow> ss_read_loop P (s\<lparr>rtmp := [], prot := p\<rparr>)
           | (p, Inr (Some pt)) \<Rightarrow> (PollReady (Inr True), s\<lparr>rtmp := [], prot := p, plain := pt, ppos := 0\<rparr>)))"
  by pat_completeness auto

termination
  by (relation "measure (\<lambda>(P, s). stock s)")
    (auto intro: fill_progress [OF _ ss_need_pos, OF sym])

declare ss_read_loop.simps [simp del]

definition ss_poll_read :: "ss_prims \<Rightarrow> nat \<Rightarrow> ss_stream fstream \<Rightarrow> (io_error + bytes) poll \<times> ss_stream fstream" where
  "ss_poll_read P cap s = framed_poll_read (ss_read_loop P) cap s"

section \<open>Writing\<close>

text \<open>\<open>rnd\<close> is what \<open>getrandom\<close> gives for the salt, \<open>None\<close> when it fails.\<close>

definition ss_ensure_send :: "ss_prims \<Rightarrow> bytes option \<Rightarrow> ss_stream \<Rightarrow> io_error + (ss_stream \<times> crypto \<times> bytes)" where
  "ss_ensure_send P rnd s =
     (case ss_send s of
        Some c \<Rightarrow> Inr (s, c, [])
      | None \<Rightarrow>
          rbind (ok_or rnd (IoOther ''getrandom'')) (\<lambda>salt.
          rbind (crypto_new (ss_method s) (session_subkey P (ss_method s) (ss_master s) salt)) (\<lambda>c.
            Inr (s\<lparr>ss_send := Some c\<rparr>, c, salt))))"

definition len_be :: "nat \<Rightarrow> bytes" where
  "len_be n = [of_nat (n div 256), of_nat n]"

definition seal_chunk :: "ss_prims \<Rightarrow> crypto \<Rightarrow> bytes \<Rightarrow> crypto \<times> bytes \<times> (io_error + nat)" where
  "seal_chunk P c chunk =
     (case crypto_seal P c (len_be (length chunk)) of
        Inl e \<Rightarrow> (c, [], Inl e)
      | Inr (ct, c) \<Rightarrow> (case crypto_seal P c chunk of
            Inl e \<Rightarrow> (c, ct, Inl e)
          | Inr (ct', c) \<Rightarrow> (c, ct @ ct', Inr (length chunk))))"

definition ss_encode :: "ss_prims \<Rightarrow> bytes option \<Rightarrow> ss_stream \<Rightarrow> bytes \<Rightarrow> ss_stream \<times> bytes \<times> (io_error + nat)" where
  "ss_encode P rnd s buf =
     (case ss_ensure_send P rnd s of
        Inl e \<Rightarrow> (s, [], Inl e)
      | Inr (s, c, salt) \<Rightarrow>
          (case seal_chunk P c (take (min (length buf) SS_MAX_CHUNK) buf) of
             (c, queued, r) \<Rightarrow> (s\<lparr>ss_send := Some c\<rparr>, salt @ queued, r)))"

definition ss_poll_write :: "ss_prims \<Rightarrow> bytes option \<Rightarrow> bytes \<Rightarrow> ss_stream fstream \<Rightarrow> (io_error + nat) poll \<times> ss_stream fstream" where
  "ss_poll_write P rnd buf s = framed_poll_write (ss_encode P rnd) buf s"

section \<open>The wire\<close>

text \<open>The frames of a list of chunks from a sealing state on, and the state behind them.\<close>

definition chunk_frames :: "ss_prims \<Rightarrow> crypto \<Rightarrow> bytes \<Rightarrow> bytes" where
  "chunk_frames P c d = (case seal_chunk P c d of (_, queued, _) \<Rightarrow> queued)"

definition two_on :: "crypto \<Rightarrow> crypto" where
  "two_on c = next_crypto (next_crypto c)"

fun frames :: "ss_prims \<Rightarrow> crypto \<Rightarrow> bytes list \<Rightarrow> bytes" where
  "frames P c [] = []"
| "frames P c (d # ds) = chunk_frames P c d @ frames P (two_on c) ds"

lemma frames_append: "frames P c (ds @ [d]) = frames P c ds @ chunk_frames P ((two_on ^^ length ds) c) d"
  by (induction ds arbitrary: c) (simp_all add: funpow_swap1)

lemma be_length_len_be: "n < 65536 \<Longrightarrow> be_length (len_be n) = Inr n"
  by (simp add: be_length_def len_be_def index_def unat_of_nat take_bit_eq_mod)

lemma seal_chunk_opens:
  assumes "prims_ok P" and "length d < 65536"
  obtains a b where "seal_chunk P c d = (two_on c, a @ b, Inr (length d))" and "length a = 18" and "length b = length d + 16"
    and "crypto_open P c a = Inr (len_be (length d), next_crypto c)" and "crypto_open P (next_crypto c) b = Inr (d, two_on c)"
proof -
  have "length (len_be (length d)) < 2 ^ 36 - 31" by (simp add: len_be_def)
  from seal_open [OF assms(1) this] obtain a where a: "crypto_seal P c (len_be (length d)) = Inr (a, next_crypto c)"
    "length a = length (len_be (length d)) + 16" "crypto_open P c a = Inr (len_be (length d), next_crypto c)" .
  have "length d < 2 ^ 36 - 31" using assms(2) by simp
  from seal_open [OF assms(1) this] obtain b where b: "crypto_seal P (next_crypto c) d = Inr (b, next_crypto (next_crypto c))"
    "length b = length d + 16" "crypto_open P (next_crypto c) b = Inr (d, next_crypto (next_crypto c))" .
  from a b show ?thesis using that [of a b] by (simp add: seal_chunk_def len_be_def two_on_def)
qed

definition first_crypto :: "ss_prims \<Rightarrow> ss_method \<Rightarrow> bytes \<Rightarrow> bytes \<Rightarrow> crypto" where
  "first_crypto P m master salt =
     \<lparr>c_cipher = method_cipher m, c_key = session_subkey P m master salt, c_nonce = replicate 12 0\<rparr>"

definition ss_wire :: "ss_prims \<Rightarrow> ss_method \<Rightarrow> bytes \<Rightarrow> bytes \<Rightarrow> bytes list \<Rightarrow> bytes" where
  "ss_wire P m master salt ds = (if ds = [] then [] else salt @ frames P (first_crypto P m master salt) ds)"

definition ss_state :: "ss_prims \<Rightarrow> ss_method \<Rightarrow> bytes \<Rightarrow> bytes \<Rightarrow> bytes list \<Rightarrow> ss_stream" where
  "ss_state P m master salt ds =
     (if ds = [] then ss_new m master
      else (ss_new m master)\<lparr>ss_send := Some ((two_on ^^ length ds) (first_crypto P m master salt))\<rparr>)"

definition ss_chunk_ok :: "bytes \<Rightarrow> bool" where
  "ss_chunk_ok d \<longleftrightarrow> d \<noteq> [] \<and> length d \<le> SS_MAX_CHUNK"

section \<open>Both ends\<close>

interpretation ss_reader: frame_reader ss_need ss_eof_ok "ss_handle P" "ss_read_loop P" for P
  by unfold_locales (rule ss_read_loop.simps)

interpretation ss_writer: frame_writer "ss_encode P (Some salt)" "ss_state P m master salt" "ss_wire P m master salt" ss_chunk_ok "prims_ok P"
  for P salt m master
proof
  fix buf :: bytes and cs :: "bytes list"
  assume P: "prims_ok P" and buf: "buf \<noteq> []"
  let ?n = "min (length buf) SS_MAX_CHUNK" and ?c = "(two_on ^^ length cs) (first_crypto P m master salt)"
  let ?d = "take ?n buf"
  have d: "length ?d = ?n" "length ?d < 65536" by auto
  from seal_chunk_opens [OF P d(2), of ?c] obtain q where q: "seal_chunk P ?c ?d = (two_on ?c, q, Inr ?n)"
    unfolding d(1) by metis
  have "ss_ensure_send P (Some salt) (ss_state P m master salt cs)
      = Inr ((ss_new m master)\<lparr>ss_send := Some ?c\<rparr>, ?c, if cs = [] then salt else [])"
    using crypto_new_subkey [OF subkey_lengths(1) [OF P]]
    by (simp add: ss_ensure_send_def ss_state_def first_crypto_def ss_new_def)
  then have "ss_encode P (Some salt) (ss_state P m master salt cs) buf
      = (ss_state P m master salt (cs @ [?d]), (if cs = [] then salt else []) @ q, Inr ?n)"
    using q by (simp add: ss_encode_def ss_state_def funpow_swap1)
  moreover have "ss_wire P m master salt (cs @ [?d]) = ss_wire P m master salt cs @ (if cs = [] then salt else []) @ q"
    using q by (simp add: ss_wire_def frames_append chunk_frames_def)
  moreover have "0 < ?n" "?n \<le> length buf" "ss_chunk_ok ?d" using buf by (auto simp: ss_chunk_ok_def)
  ultimately show "\<exists>n>0. n \<le> length buf \<and> ss_chunk_ok (take n buf) \<and> (\<exists>queued. ss_encode P (Some salt) (ss_state P m master salt cs) buf
        = (ss_state P m master salt (cs @ [take n buf]), queued, Inr n)
      \<and> ss_wire P m master salt (cs @ [take n buf]) = ss_wire P m master salt cs @ queued)"
    by blast
qed

lemma ss_frames_carried:
  assumes "prims_ok P" and "\<forall>d \<in> set ds. ss_chunk_ok d" and "ss_recv s = Some c" and "ss_stage s = SsLen"
  shows "ss_reader.wire P s (frames P c ds) ds"
  using assms(2-)
proof (induction ds arbitrary: c s)
  case Nil
  then show ?case by (auto intro!: carries_end simp: ss_eof_ok_def ss_need_pos)
next
  case (Cons d ds)
  then have d: "d \<noteq> []" "length d \<le> SS_MAX_CHUNK" by (simp_all add: ss_chunk_ok_def)
  then have "length d < 65536" by simp
  from seal_chunk_opens [OF assms(1) this, of c] obtain a b where f: "chunk_frames P c d = a @ b" "length a = 18" "length b = length d + 16"
    and o: "crypto_open P c a = Inr (len_be (length d), next_crypto c)" "crypto_open P (next_crypto c) b = Inr (d, two_on c)"
    unfolding chunk_frames_def by (metis case_prod_conv)
  let ?s1 = "s\<lparr>ss_recv := Some (next_crypto c), ss_stage := SsData (length d)\<rparr>"
  let ?s2 = "?s1\<lparr>ss_recv := Some (two_on c), ss_stage := SsLen\<rparr>"
  have "ss_reader.wire P ?s2 (frames P (two_on c) ds) ds" using Cons by simp
  moreover have "ss_handle P ?s1 b = (?s2, Inr (Some d))" using o(2) by (simp add: ss_handle_def)
  ultimately have "ss_reader.wire P ?s1 (b @ frames P (two_on c) ds) (d # ds)"
    using f(3) d(1) by (intro carries_chunk) (auto simp: ss_need_def)
  moreover have "ss_handle P s a = (?s1, Inr None)"
    using o(1) Cons.prems(2,3) d by (simp add: ss_handle_def be_length_len_be)
  moreover have "length a = ss_need s" using f(2) Cons.prems(3) by (simp add: ss_need_def)
  ultimately have "ss_reader.wire P s (a @ b @ frames P (two_on c) ds) (d # ds)"
    by (metis carries_skip)
  then show ?case by (simp add: f(1))
qed

lemma ss_wire_carried:
  assumes "prims_ok P" and "\<forall>d \<in> set ds. ss_chunk_ok d" and "length salt = salt_len m"
  shows "ss_reader.wire P (ss_new m master) (ss_wire P m master salt ds) ds"
proof (cases "ds = []")
  case True
  then show ?thesis by (auto simp: ss_wire_def ss_new_def ss_eof_ok_def ss_need_pos intro!: carries_end)
next
  case False
  let ?s = "(ss_new m master)\<lparr>ss_recv := Some (first_crypto P m master salt), ss_stage := SsLen\<rparr>"
  have "ss_handle P (ss_new m master) salt = (?s, Inr None)"
    using crypto_new_subkey [OF subkey_lengths(1) [OF assms(1)], of m master salt]
    by (simp add: ss_handle_def ss_new_def first_crypto_def)
  moreover have "ss_reader.wire P ?s (frames P (first_crypto P m master salt) ds) ds"
    by (rule ss_frames_carried [OF assms(1,2)]) simp_all
  moreover have "length salt = ss_need (ss_new m master)" using assms(3) by (simp add: ss_need_def ss_new_def)
  ultimately show ?thesis
    using False by (simp add: ss_wire_def) (metis carries_skip)
qed

text \<open>C10. Shadowsocks, both ends: whatever the transport accepts per write and however it cuts the bytes, once the writer's
  queue is flushed a reader with the same method and key, polled often enough with room for at least one byte, gets exactly the
  bytes that were taken from the writing application, in order and without an error.\<close>

theorem ss_stream_end_to_end:
  assumes "prims_ok P" and "length salt = salt_len m"
    and "run_writes (ss_poll_write P (Some salt)) (ss_stream_new (open_transport accepts) m master) bufs = (Some taken, s)"
    and "unsent s = []" and "arrivals evs = sent (inner s)" and "Arrive [] \<notin> set evs"
    and "\<forall>c \<in> set caps. 0 < c" and "length (concat taken) \<le> length caps"
  shows "delivered (fst (run_reads (ss_poll_read P) (ss_stream_new (open_transport []) m master) (evs @ map Read caps)))
    = Some (concat taken)"
proof -
  have "ss_writer.wrote P m master salt [] (ss_stream_new (open_transport accepts) m master)"
    using assms(1) unfolding ss_writer.wrote_def
    by (simp add: ss_stream_new_def fstream_new_def ss_state_def ss_wire_def open_transport_def)
  from ss_writer.run_wrote [OF this, of bufs taken s] assms(3)
  have "ss_writer.wrote P m master salt taken s" by (simp add: ss_poll_write_def [abs_def])
  then have "sent (inner s) = ss_wire P m master salt taken" "\<forall>d \<in> set taken. ss_chunk_ok d"
    using assms(4) by (simp_all add: ss_writer.wrote_def)
  with ss_wire_carried [OF assms(1) _ assms(2)] assms(5)
  have "ss_reader.wire P (ss_new m master) (arrivals evs) taken" by metis
  from ss_reader.due_new [OF this, of "[]" "[]"]
  have "ss_reader.due P (arrivals evs) (concat taken) (ss_stream_new (open_transport []) m master)"
    by (simp add: ss_stream_new_def open_transport_def)
  from ss_reader.reads_back [OF this assms(6-8)] show ?thesis by (simp add: ss_poll_read_def [abs_def])
qed

definition sample_writer :: "bytes list option \<times> ss_stream fstream" where
  "sample_writer = run_writes (ss_poll_write sample_prims (Some (replicate 16 5)))
     (ss_stream_new (open_transport [Accept 10, Accept 100]) Aes128Gcm [9]) [[1, 2, 3]]"

lemma sample_writer_runs: "fst sample_writer = Some [[1, 2, 3]] \<and> unsent (snd sample_writer) = [] \<and> length (sent (inner (snd sample_writer))) = 53"
  by (simp add: sample_writer_def ss_poll_write_def framed_poll_write_def ss_stream_new_def fstream_new_def open_transport_def
      flush_wbuf.simps inner_write_def ss_encode_def ss_ensure_send_def ss_new_def crypto_new_subkey session_subkey_def
      sample_prims_def sample_seal_def seal_chunk_def crypto_seal_def aead_key_seal_def len_be_def)

theorem ss_stream_end_to_end_witness:
  "delivered (fst (run_reads (ss_poll_read sample_prims) (ss_stream_new (open_transport []) Aes128Gcm [9])
     ([Arrive (take 20 (sent (inner (snd sample_writer)))), Read 5, Arrive (drop 20 (sent (inner (snd sample_writer))))] @ map Read [2, 2, 2])))
   = Some [1, 2, 3]"
proof -
  let ?w = "sent (inner (snd sample_writer))"
  have run: "run_writes (ss_poll_write sample_prims (Some (replicate 16 5)))
     (ss_stream_new (open_transport [Accept 10, Accept 100]) Aes128Gcm [9]) [[1, 2, 3]] = (Some [[1, 2, 3]], snd sample_writer)"
    using sample_writer_runs by (metis prod.collapse sample_writer_def)
  have "arrivals [Arrive (take 20 ?w), Read 5, Arrive (drop 20 ?w)] = ?w" by simp
  moreover have "Arrive [] \<notin> set [Arrive (take 20 ?w), Read 5, Arrive (drop 20 ?w)]" using sample_writer_runs by auto
  ultimately show ?thesis
    using ss_stream_end_to_end [OF sample_prims_ok _ run, of "[Arrive (take 20 ?w), Read 5, Arrive (drop 20 ?w)]" "[2, 2, 2]"]
      sample_writer_runs by (simp add: salt_len_def)
qed

end
