(* ===== verification/SsUdp.thy ===== *)
theory SsUdp
  imports SsCrypto Target
begin

text \<open>
  \<open>crates/net/src/shadowsocks/udp.rs\<close> and \<open>ss2022_udp.rs\<close>: Shadowsocks packets. An older packet is a
  salt and one sealed address and payload. A 2022 session numbers its packets and keeps a window of
  the server's packet numbers against replays. The clock and the random numbers are arguments.
\<close>

section \<open>Addresses\<close>

fun ss_encode_address :: "target \<Rightarrow> bytes" where
  "ss_encode_address (Domain host port) =
     (let h = str_bytes host; len = min (length h) 255
      in [0x03, of_nat len] @ take len h @ be16 port)"
| "ss_encode_address (Socket (SockV4 ip port)) = [0x01] @ be32 ip @ be16 port"
| "ss_encode_address (Socket (SockV6 ip port _ _)) = [0x04] @ be128 ip @ be16 port"

definition ss_parse_address :: "bytes \<Rightarrow> io_error + target \<times> bytes" where
  "ss_parse_address buf =
     (if buf = [] then Inl (InvalidData ''ss-udp: empty header'')
      else rbind (index buf 0) (\<lambda>atyp.
        if atyp = 0x01 then
          if length buf < 7 then Inl (InvalidData ''ss-udp: IPv4 address cut'')
          else rbind (slice buf 1 5) (\<lambda>ip. rbind (index_u16 buf 5) (\<lambda>port.
               rbind (slice buf 7 (length buf)) (\<lambda>r. Inr (Socket (SockV4 (from_be ip) port), r))))
        else if atyp = 0x04 then
          if length buf < 19 then Inl (InvalidData ''ss-udp: IPv6 address cut'')
          else rbind (slice buf 1 17) (\<lambda>ip. rbind (index_u16 buf 17) (\<lambda>port.
               rbind (slice buf 19 (length buf)) (\<lambda>r. Inr (Socket (SockV6 (from_be ip) port 0 0), r))))
        else if atyp = 0x03 then
          if length buf < 2 then Inl (InvalidData ''ss-udp: no length byte'')
          else rbind (index buf 1) (\<lambda>len8.
            let len = unat len8; e = 2 + len + 2
            in if length buf < e then Inl (InvalidData ''ss-udp: domain cut'')
               else rbind (slice buf 2 (2 + len)) (\<lambda>host. rbind (index_u16 buf (2 + len)) (\<lambda>port.
                    rbind (slice buf e (length buf)) (\<lambda>r. Inr (Domain (from_utf8_lossy host) port, r)))))
        else Inl (InvalidData ''ss-udp: ATYP'')))"

section \<open>Packets of the older methods\<close>

text \<open>\<open>rnd\<close> is what \<open>getrandom\<close> fills the salt with.\<close>

definition encrypt_packet :: "ss_prims \<Rightarrow> bytes option \<Rightarrow> ss_method \<Rightarrow> bytes \<Rightarrow> target \<Rightarrow> bytes \<Rightarrow> io_error + bytes" where
  "encrypt_packet P rnd m master t payload =
     rbind (ok_or rnd (IoOther ''ss-udp: random'')) (\<lambda>salt.
     rbind (crypto_new m (session_subkey P m master salt)) (\<lambda>c.
     rbind (crypto_seal P c (ss_encode_address t @ payload)) (\<lambda>(ct, _). Inr (salt @ ct))))"

definition decrypt_packet :: "ss_prims \<Rightarrow> ss_method \<Rightarrow> bytes \<Rightarrow> bytes \<Rightarrow> io_error + target \<times> bytes" where
  "decrypt_packet P m master packet =
     (if length packet < salt_len m then Inl (InvalidData ''ss-udp: shorter than the salt'')
      else rbind (slice packet 0 (salt_len m)) (\<lambda>salt.
           rbind (slice packet (salt_len m) (length packet)) (\<lambda>body.
           rbind (crypto_new m (session_subkey P m master salt)) (\<lambda>c.
           rbind (crypto_open P c body) (\<lambda>(pt, _). ss_parse_address pt)))))"

section \<open>The window against replays\<close>

record replay =
  rp_sid :: "bytes option"
  rp_highest :: u64
  rp_window :: u64

definition replay_default :: replay where
  "replay_default = \<lparr>rp_sid = None, rp_highest = 0, rp_window = 0\<rparr>"

abbreviation (input) REPLAY_WINDOW :: u64 where "REPLAY_WINDOW \<equiv> 64"

definition replay_accept :: "replay \<Rightarrow> bytes \<Rightarrow> u64 \<Rightarrow> bool \<times> replay" where
  "replay_accept r sid pid =
     (if rp_sid r \<noteq> Some sid then (True, \<lparr>rp_sid = Some sid, rp_highest = pid, rp_window = 1\<rparr>)
      else if pid > rp_highest r then
        (let shift = pid - rp_highest r;
             w = (if shift \<ge> REPLAY_WINDOW then 0 else push_bit (unat shift) (rp_window r))
         in (True, r\<lparr>rp_window := w OR 1, rp_highest := pid\<rparr>))
      else
        (let diff = rp_highest r - pid
         in if diff \<ge> REPLAY_WINDOW then (False, r)
            else let b = push_bit (unat diff) 1
                 in if rp_window r AND b \<noteq> 0 then (False, r)
                    else (True, r\<lparr>rp_window := rp_window r OR b\<rparr>)))"

section \<open>Packets of the 2022 methods\<close>

abbreviation (input) TYPE_CLIENT :: u8 where "TYPE_CLIENT \<equiv> 0"
abbreviation (input) TYPE_SERVER :: u8 where "TYPE_SERVER \<equiv> 1"
abbreviation (input) TIMESTAMP_WINDOW :: u64 where "TIMESTAMP_WINDOW \<equiv> 30"

definition abs_diff :: "u64 \<Rightarrow> u64 \<Rightarrow> u64" where
  "abs_diff a b = (if a \<le> b then b - a else a - b)"

text \<open>\<open>xchacha_seal\<close> and \<open>xchacha_open\<close>: the key must have 32 bytes.\<close>

definition xchacha_seal :: "ss_prims \<Rightarrow> bytes \<Rightarrow> bytes \<Rightarrow> bytes \<Rightarrow> io_error + bytes" where
  "xchacha_seal P psk nonce pt =
     (if length psk \<noteq> 32 then Inl (InvalidData ''ss2022: chacha key'')
      else ok_or (xchacha_encrypt P psk nonce pt) (InvalidData ''ss2022: seal''))"

definition xchacha_open :: "ss_prims \<Rightarrow> bytes \<Rightarrow> bytes \<Rightarrow> bytes \<Rightarrow> io_error + bytes" where
  "xchacha_open P psk nonce ct =
     (if length psk \<noteq> 32 then Inl (InvalidData ''ss2022: chacha key'')
      else ok_or (xchacha_decrypt P psk nonce ct) (InvalidData ''ss2022: authentication''))"

record ss2022_session =
  us_method :: ss_method
  us_psk :: bytes
  us_identity_psks :: "bytes list"
  us_session_id :: bytes
  us_next_packet_id :: u64
  us_replay :: replay

definition with_identity :: "bytes option \<Rightarrow> ss_method \<Rightarrow> bytes \<Rightarrow> bytes list \<Rightarrow> io_error + ss2022_session" where
  "with_identity rnd m psk ipsks = rbind (ok_or rnd (IoOther ''ss2022: random'')) (\<lambda>sid.
     Inr \<lparr>us_method = m, us_psk = psk, us_identity_psks = ipsks, us_session_id = sid, us_next_packet_id = 0,
          us_replay = replay_default\<rparr>)"

definition request_body :: "u64 \<Rightarrow> target \<Rightarrow> bytes \<Rightarrow> bytes" where
  "request_body now t payload = [TYPE_CLIENT] @ be_bytes 8 now @ be16 0 @ ss_encode_address t @ payload"

definition xor_block :: "bytes \<Rightarrow> bytes \<Rightarrow> bytes" where
  "xor_block a b = map (\<lambda>(x, y). x XOR y) (zip a b)"

fun udp_identity_headers :: "ss_prims \<Rightarrow> bytes \<Rightarrow> bytes list \<Rightarrow> bytes \<Rightarrow> io_error + bytes" where
  "udp_identity_headers P header [] psk = Inr []"
| "udp_identity_headers P header (ipsk # ipsks) psk =
     (let following = (case ipsks of [] \<Rightarrow> psk | k # _ \<Rightarrow> k)
      in rbind (aes_ecb_encrypt_block P ipsk (xor_block (psk_hash_16 P following) header)) (\<lambda>block.
         rbind (udp_identity_headers P header ipsks psk) (\<lambda>out. Inr (block @ out))))"

text \<open>\<open>encrypt\<close>: the packet number is used up even when the packet fails.\<close>

definition session_encrypt :: "ss_prims \<Rightarrow> bytes option \<Rightarrow> u64 \<Rightarrow> ss2022_session \<Rightarrow> target \<Rightarrow> bytes
    \<Rightarrow> (io_error + bytes) \<times> ss2022_session" where
  "session_encrypt P rnd now s t payload =
     (let packet_id = us_next_packet_id s;
          s' = s\<lparr>us_next_packet_id := packet_id + 1\<rparr>;
          body = request_body now t payload
      in (if is_chacha2022 (us_method s)
          then rbind (ok_or rnd (IoOther ''ss2022: random'')) (\<lambda>nonce.
               rbind (xchacha_seal P (us_psk s) nonce (us_session_id s @ be_bytes 8 packet_id @ body)) (\<lambda>ct.
                 Inr (nonce @ ct)))
          else let header = us_session_id s @ be_bytes 8 packet_id;
                   nonce = drop 4 header;
                   subkey = session_subkey_2022 P (us_method s) (us_psk s) (us_session_id s)
               in rbind (seal_nonce P (us_method s) subkey nonce body) (\<lambda>sealed.
                  rbind (udp_identity_headers P header (us_identity_psks s) (us_psk s)) (\<lambda>id_headers.
                  let header_key = (case us_identity_psks s of [] \<Rightarrow> us_psk s | k # _ \<Rightarrow> k)
                  in rbind (aes_ecb_encrypt_block P header_key header) (\<lambda>hk. Inr (hk @ id_headers @ sealed)))),
          s'))"

definition parse_response_body :: "u64 \<Rightarrow> ss2022_session \<Rightarrow> bytes \<Rightarrow> io_error + bytes" where
  "parse_response_body now s body =
     (if length body < 19 then Inl (InvalidData ''ss2022-udp: cut'')
      else rbind (index body 0) (\<lambda>ty. if ty \<noteq> TYPE_SERVER then Inl (InvalidData ''ss2022-udp: type'')
      else rbind (slice body 1 9) (\<lambda>ts8. if abs_diff now (from_be ts8) > TIMESTAMP_WINDOW then Inl (InvalidData ''ss2022-udp: timestamp'')
      else rbind (slice body 9 17) (\<lambda>client_sid. if client_sid \<noteq> us_session_id s then Inl (InvalidData ''ss2022-udp: client session'')
      else rbind (index_u16 body 17) (\<lambda>padding.
        let pos = 19 + unat padding
        in if pos > length body then Inl (InvalidData ''ss2022-udp: padding'')
           else rbind (slice body pos (length body)) (\<lambda>rest.
                rbind (ss_parse_address rest) (\<lambda>(_, payload). Inr payload)))))))"

definition open_response :: "ss_prims \<Rightarrow> ss2022_session \<Rightarrow> bytes \<Rightarrow> io_error + (bytes \<times> u64 \<times> bytes)" where
  "open_response P s packet =
     (if is_chacha2022 (us_method s) then
        if length packet < 24 then Inl (InvalidData ''ss2022-udp: nonce cut'')
        else rbind (slice packet 0 24) (\<lambda>nonce. rbind (slice packet 24 (length packet)) (\<lambda>ct.
             rbind (xchacha_open P (us_psk s) nonce ct) (\<lambda>pt.
               if length pt < 16 then Inl (InvalidData ''ss2022-udp: header cut'')
               else rbind (slice pt 0 8) (\<lambda>sid. rbind (slice pt 8 16) (\<lambda>pid. rbind (slice pt 16 (length pt)) (\<lambda>body.
                    Inr (sid, from_be pid, body)))))))
      else if length packet < 32 then Inl (InvalidData ''ss2022-udp: packet cut'')
      else rbind (slice packet 0 16) (\<lambda>sealed_header. rbind (aes_ecb_decrypt_block P (us_psk s) sealed_header) (\<lambda>header.
           rbind (slice header 0 8) (\<lambda>sid. rbind (slice header 8 16) (\<lambda>pid. rbind (slice header 4 16) (\<lambda>nonce.
           rbind (slice packet 16 (length packet)) (\<lambda>ct.
           rbind (open_nonce P (us_method s) (session_subkey_2022 P (us_method s) (us_psk s) sid) nonce ct) (\<lambda>body.
             Inr (sid, from_be pid, body)))))))))"

definition session_decrypt :: "ss_prims \<Rightarrow> u64 \<Rightarrow> ss2022_session \<Rightarrow> bytes \<Rightarrow> (io_error + bytes) \<times> ss2022_session" where
  "session_decrypt P now s packet =
     (case rbind (open_response P s packet) (\<lambda>(sid, pid, body).
             rbind (parse_response_body now s body) (\<lambda>payload. Inr (sid, pid, payload))) of
        Inl e \<Rightarrow> (Inl e, s)
      | Inr (sid, pid, payload) \<Rightarrow>
          (case replay_accept (us_replay s) sid pid of
             (ok, r) \<Rightarrow> (if ok then Inr payload else Inl (InvalidData ''ss2022-udp: replay''), s\<lparr>us_replay := r\<rparr>)))"

section \<open>Addresses and older packets read back\<close>

lemma ss_parse_encode [codec_simps]:
  "target_wf t \<Longrightarrow> ss_parse_address (ss_encode_address t @ rest) = Inr (t, rest)"
proof (cases t rule: ss_encode_address.cases)
  case (1 host port)
  assume "target_wf t"
  then have h: "is_str host" "length host \<le> 255" using 1 by simp_all
  let ?h = "str_bytes host"
  have buf: "ss_encode_address t @ rest = [0x03, of_nat (length host)] @ ?h @ be16 port @ rest"
    using 1 h by (simp add: Let_def min_def)
  have u: "unat (of_nat (length host) :: u8) = length host" using h by (simp add: unat_of_nat_small)
  have "slice ([0x03, of_nat (length host)] @ ?h @ be16 port @ rest) 2 (2 + length host) = Inr ?h"
    using slice_append [of _ "[0x03, of_nat (length host)]" ?h "be16 port @ rest"] by simp
  moreover have "index_u16 ([0x03, of_nat (length host)] @ ?h @ be16 port @ rest) (2 + length host) = Inr port"
    using index_u16_append [of "[0x03, of_nat (length host)] @ ?h" port rest] by simp
  ultimately show ?thesis unfolding buf
    using h 1 by (simp add: ss_parse_address_def u from_utf8_lossy_str Let_def)
next
  case (2 ip port)
  have "slice ([0x01] @ be32 ip @ be16 port @ rest) 1 5 = Inr (be32 ip)"
    using slice_append [of 5 "[0x01]" "be32 ip" "be16 port @ rest"] by simp
  moreover have "index_u16 ([0x01] @ be32 ip @ be16 port @ rest) 5 = Inr port"
    using index_u16_append [of "[0x01] @ be32 ip" port rest] by simp
  ultimately show ?thesis using 2 by (simp add: ss_parse_address_def)
next
  case (3 ip port flow scope)
  assume "target_wf t"
  have "slice ([0x04] @ be128 ip @ be16 port @ rest) 1 17 = Inr (be128 ip)"
    using slice_append [of 17 "[0x04]" "be128 ip" "be16 port @ rest"] by simp
  moreover have "index_u16 ([0x04] @ be128 ip @ be16 port @ rest) 17 = Inr port"
    using index_u16_append [of "[0x04] @ be128 ip" port rest] by simp
  ultimately show ?thesis using 3 \<open>target_wf t\<close> by (simp add: ss_parse_address_def)
qed

lemma ss_encode_address_length: "length (ss_encode_address t) \<le> 259"
  by (cases t rule: ss_encode_address.cases) (auto simp: Let_def)

lemma ss_parse_no_panic: "ss_parse_address buf \<noteq> Inl Panic"
  by (auto simp: ss_parse_address_def rbind_eq_Inl index_def slice_def index_u16_def Let_def split: if_splits)

text \<open>A Shadowsocks packet of the older methods, opened with the same method and key, gives back the target and the payload.\<close>

theorem ss_packet_roundtrip:
  assumes "prims_ok P" and "length salt = salt_len m" and "target_wf t" and "length payload < 65536"
  shows "\<exists>packet. encrypt_packet P (Some salt) m master t payload = Inr packet \<and> decrypt_packet P m master packet = Inr (t, payload)"
proof -
  let ?c = "\<lparr>c_cipher = method_cipher m, c_key = session_subkey P m master salt, c_nonce = replicate 12 0\<rparr>"
  have c: "crypto_new m (session_subkey P m master salt) = Inr ?c"
    by (rule crypto_new_subkey) (rule subkey_lengths [OF assms(1)])
  have "length (ss_encode_address t @ payload) < 2 ^ 36 - 31"
    using assms(4) ss_encode_address_length [of t] by simp
  from seal_open [OF assms(1) this, of ?c] obtain ct where ct: "crypto_seal P ?c (ss_encode_address t @ payload) = Inr (ct, next_crypto ?c)"
    "crypto_open P ?c ct = Inr (ss_encode_address t @ payload, next_crypto ?c)" .
  have "slice (salt @ ct) 0 (salt_len m) = Inr salt" "slice (salt @ ct) (salt_len m) (length (salt @ ct)) = Inr ct"
    using assms(2) by (simp_all add: slice_def)
  then show ?thesis using ct c assms by (simp add: encrypt_packet_def decrypt_packet_def ss_parse_encode)
qed

section \<open>The window, exactly\<close>

text \<open>
  The abstract rule: a packet number is refused when this server session has already had it or when
  it is 64 or more behind the highest number seen; a packet of another session starts afresh.
\<close>

definition spec_accept :: "(bytes \<times> u64 list) option \<Rightarrow> bytes \<Rightarrow> u64 \<Rightarrow> bool \<times> (bytes \<times> u64 list) option" where
  "spec_accept st sid pid =
     (case st of
        None \<Rightarrow> (True, Some (sid, [pid]))
      | Some (cur, seen) \<Rightarrow>
          if cur \<noteq> sid then (True, Some (sid, [pid]))
          else if pid \<notin> set seen \<and> (\<forall>q \<in> set seen. unat q < unat pid + 64) then (True, Some (cur, pid # seen))
          else (False, st))"

fun run_accept :: "('s \<Rightarrow> bytes \<Rightarrow> u64 \<Rightarrow> bool \<times> 's) \<Rightarrow> 's \<Rightarrow> (bytes \<times> u64) list \<Rightarrow> bool list" where
  "run_accept acc st [] = []"
| "run_accept acc st ((sid, pid) # ps) = (case acc st sid pid of (ok, st) \<Rightarrow> ok # run_accept acc st ps)"

definition window_abs :: "replay \<Rightarrow> (bytes \<times> u64 list) option \<Rightarrow> bool" where
  "window_abs r st \<longleftrightarrow>
     (case st of
        None \<Rightarrow> rp_sid r = None
      | Some (sid, seen) \<Rightarrow> rp_sid r = Some sid \<and> rp_highest r \<in> set seen \<and> (\<forall>q \<in> set seen. q \<le> rp_highest r)
          \<and> (\<forall>n < 64. n \<le> unat (rp_highest r) \<longrightarrow> bit (rp_window r) n = (\<exists>q \<in> set seen. unat q + n = unat (rp_highest r))))"

lemma unat_diff_u64: "(b :: u64) \<le> a \<Longrightarrow> unat (a - b) = unat a - unat b"
  by (simp add: unat_sub word_le_nat_alt)

lemma and_single_bit: "n < 64 \<Longrightarrow> (w AND push_bit n 1 = 0) = (\<not> bit (w :: u64) n)"
proof -
  have "bit (w AND push_bit n 1) m = (m = n \<and> bit w n)" if "n < 64" for m
    using that by (auto simp: bit_simps)
  moreover assume "n < 64"
  ultimately show ?thesis by (metis bit_0_eq bit_eqI bot_apply bot_bool_def)
qed

lemma window_abs_first: "window_abs \<lparr>rp_sid = Some sid, rp_highest = pid, rp_window = 1\<rparr> (Some (sid, [pid]))"
  by (auto simp: window_abs_def bit_1_iff)

text \<open>A number above the highest: the window moves up and keeps the bits that still fit.\<close>

lemma window_abs_above:
  assumes "window_abs r (Some (sid, seen))" and "rp_highest r < pid"
  defines "k \<equiv> unat pid - unat (rp_highest r)"
  shows "window_abs (r\<lparr>rp_window := (if 64 \<le> k then 0 else push_bit k (rp_window r)) OR 1, rp_highest := pid\<rparr>) (Some (sid, pid # seen))"
proof -
  have le: "q \<in> set seen \<Longrightarrow> unat q + k \<le> unat pid" for q
    using assms(1,2) unfolding window_abs_def k_def by (auto simp: word_le_nat_alt word_less_nat_alt)
  have k: "0 < k" "unat pid = unat (rp_highest r) + k" using assms(2) unfolding k_def by (simp_all add: word_less_nat_alt)
  have "bit ((if 64 \<le> k then 0 else push_bit k (rp_window r)) OR 1) n = (\<exists>q \<in> set (pid # seen). unat q + n = unat pid)"
    if n: "n < 64" "n \<le> unat pid" for n
  proof (cases "k \<le> n")
    case True
    then have "bit ((if 64 \<le> k then 0 else push_bit k (rp_window r)) OR 1) n = bit (rp_window r) (n - k)"
      using n k(1) by (auto simp: bit_simps)
    also have "\<dots> = (\<exists>q \<in> set seen. unat q + (n - k) = unat (rp_highest r))"
      using assms(1) n k by (auto simp: window_abs_def)
    also have "\<dots> = (\<exists>q \<in> set (pid # seen). unat q + n = unat pid)"
    proof -
      have "unat q + (n - k) = unat (rp_highest r) \<longleftrightarrow> unat q + n = unat pid" for q :: u64 using True k(2) by linarith
      then show ?thesis using True k(1) by simp
    qed
    finally show ?thesis .
  next
    case False
    then have "bit ((if 64 \<le> k then 0 else push_bit k (rp_window r)) OR 1) n = (n = 0)" by (auto simp: bit_simps)
    then show ?thesis using False le k by fastforce
  qed
  moreover have "q \<le> pid" if "q \<in> set seen" for q using le [OF that] by (simp add: word_le_nat_alt)
  ultimately show ?thesis using assms(1) by (simp add: window_abs_def)
qed

lemma window_abs_below:
  assumes "window_abs r (Some (sid, seen))" and "pid \<le> rp_highest r" and "unat (rp_highest r) - unat pid < 64"
  shows "bit (rp_window r) (unat (rp_highest r) - unat pid) = (pid \<in> set seen)"
    and "window_abs (r\<lparr>rp_window := rp_window r OR push_bit (unat (rp_highest r) - unat pid) 1\<rparr>) (Some (sid, pid # seen))"
proof -
  let ?d = "unat (rp_highest r) - unat pid"
  have d: "unat pid + ?d = unat (rp_highest r)" using assms(2) by (simp add: word_le_nat_alt)
  have bits: "bit (rp_window r) n = (\<exists>q \<in> set seen. unat q + n = unat (rp_highest r))" if "n < 64" "n \<le> unat (rp_highest r)" for n
    using assms(1) that by (simp add: window_abs_def)
  show "bit (rp_window r) ?d = (pid \<in> set seen)"
  proof -
    have "?d \<le> unat (rp_highest r)" by simp
    note b = bits [OF assms(3) this]
    have "unat q + ?d = unat (rp_highest r) \<longleftrightarrow> q = pid" for q :: u64
      using d by (metis add_right_cancel word_unat_eq_iff)
    then show ?thesis using b by simp
  qed
  have "bit (rp_window r OR push_bit ?d 1) n = (\<exists>q \<in> set (pid # seen). unat q + n = unat (rp_highest r))"
    if "n < 64" "n \<le> unat (rp_highest r)" for n
  proof -
    have "bit (push_bit ?d 1 :: u64) n = (unat pid + n = unat (rp_highest r))"
      using that d by (auto simp: bit_simps)
    then show ?thesis using bits [OF that] by (simp add: bit_or_iff disj_commute)
  qed
  then show "window_abs (r\<lparr>rp_window := rp_window r OR push_bit ?d 1\<rparr>) (Some (sid, pid # seen))"
    using assms(1,2) by (simp add: window_abs_def)
qed

lemma replay_accept_refines:
  assumes "window_abs r st"
  shows "fst (replay_accept r sid pid) = fst (spec_accept st sid pid)
    \<and> window_abs (snd (replay_accept r sid pid)) (snd (spec_accept st sid pid))"
proof (cases "\<exists>seen. st = Some (sid, seen)")
  case False
  then have "rp_sid r \<noteq> Some sid" "spec_accept st sid pid = (True, Some (sid, [pid]))"
    using assms by (auto simp: window_abs_def spec_accept_def split: option.splits)
  then show ?thesis using window_abs_first by (simp add: replay_accept_def)
next
  case True
  then obtain seen where st: "st = Some (sid, seen)" by blast
  note a = assms [unfolded st]
  have cur: "rp_sid r = Some sid" and top: "rp_highest r \<in> set seen" "\<And>q. q \<in> set seen \<Longrightarrow> unat q \<le> unat (rp_highest r)"
    using a by (simp_all add: window_abs_def word_le_nat_alt)
  show ?thesis
  proof (cases "rp_highest r < pid")
    case True
    then have "unat (rp_highest r) < unat pid" by (simp add: word_less_nat_alt)
    with top have "spec_accept st sid pid = (True, Some (sid, pid # seen))"
      unfolding st spec_accept_def by (fastforce)
    moreover have "REPLAY_WINDOW \<le> pid - rp_highest r \<longleftrightarrow> 64 \<le> unat pid - unat (rp_highest r)"
      "unat (pid - rp_highest r) = unat pid - unat (rp_highest r)"
      using unat_diff_u64 [OF order_less_imp_le [OF True]] by (simp_all add: word_le_nat_alt)
    ultimately show ?thesis
      using window_abs_above [OF a True] True cur by (auto simp: replay_accept_def Let_def split: if_splits)
  next
    case False
    then have le: "pid \<le> rp_highest r" by simp
    have d: "unat (rp_highest r - pid) = unat (rp_highest r) - unat pid" by (rule unat_diff_u64 [OF le])
    then have w: "REPLAY_WINDOW \<le> rp_highest r - pid \<longleftrightarrow> 64 \<le> unat (rp_highest r) - unat pid" by (simp add: word_le_nat_alt)
    show ?thesis
    proof (cases "unat (rp_highest r) - unat pid < 64")
      case True
      note b = window_abs_below [OF a le True]
      have "\<forall>q \<in> set seen. unat q < unat pid + 64" using top True by fastforce
      then have "spec_accept st sid pid = (if pid \<in> set seen then (False, st) else (True, Some (sid, pid # seen)))"
        by (simp add: st spec_accept_def)
      moreover have "replay_accept r sid pid = (if pid \<in> set seen then (False, r)
          else (True, r\<lparr>rp_window := rp_window r OR push_bit (unat (rp_highest r) - unat pid) 1\<rparr>))"
        using False cur w d True b(1) and_single_bit [OF True, of "rp_window r"] by (simp add: replay_accept_def Let_def)
      ultimately show ?thesis using b(2) a by (simp add: st)
    next
      case False
      then have "spec_accept st sid pid = (False, st)" using top(1) by (force simp: st spec_accept_def)
      then show ?thesis using False \<open>\<not> rp_highest r < pid\<close> cur w a by (simp add: replay_accept_def st)
    qed
  qed
qed

lemma run_accept_refines: "window_abs r st \<Longrightarrow> run_accept replay_accept r ps = run_accept spec_accept st ps"
proof (induction ps arbitrary: r st)
  case (Cons p ps)
  obtain sid pid where p: "p = (sid, pid)" by fastforce
  from replay_accept_refines [OF Cons.prems, of sid pid] show ?case
    using Cons.IH by (auto simp: p split: prod.split)
qed simp

text \<open>C21. The 64-bit sliding window decides exactly as the rule it stands for: for every sequence of server packets, a packet
  number is refused if and only if this server session has had it before or it is 64 or more behind the highest one seen, and
  a change of session starts afresh.\<close>

theorem replay_window_exact: "run_accept replay_accept replay_default ps = run_accept spec_accept None ps"
  by (rule run_accept_refines) (simp add: window_abs_def replay_default_def)

section \<open>Sessions\<close>

text \<open>Packets that reach a session one after another, each with the time of its arrival.\<close>

definition after_packets :: "ss_prims \<Rightarrow> ss2022_session \<Rightarrow> (u64 \<times> bytes) list \<Rightarrow> ss2022_session" where
  "after_packets P s ps = foldl (\<lambda>s (now, packet). snd (session_decrypt P now s packet)) s ps"

lemma replay_refused_unchanged: "replay_accept r sid pid = (False, r') \<Longrightarrow> r' = r"
  by (auto simp: replay_accept_def Let_def split: if_splits)

lemma session_decrypt_cases:
  obtains (ok) sid pid body payload r where "open_response P s packet = Inr (sid, pid, body)" "parse_response_body now s body = Inr payload"
      "replay_accept (us_replay s) sid pid = (True, r)" "session_decrypt P now s packet = (Inr payload, s\<lparr>us_replay := r\<rparr>)"
  | (refused) e where "session_decrypt P now s packet = (Inl e, s)"
proof (cases "rbind (open_response P s packet) (\<lambda>(sid, pid, body).
             rbind (parse_response_body now s body) (\<lambda>payload. Inr (sid, pid, payload)))")
  case (Inl e)
  then show ?thesis using refused by (simp add: session_decrypt_def)
next
  case (Inr v)
  then obtain sid pid payload body where v: "v = (sid, pid, payload)" "open_response P s packet = Inr (sid, pid, body)"
    "parse_response_body now s body = Inr payload" by (auto split: prod.splits)
  obtain acc r where a: "replay_accept (us_replay s) sid pid = (acc, r)" by fastforce
  then show ?thesis using ok [of sid pid body payload r] refused Inr v replay_refused_unchanged [of "us_replay s" sid pid r]
    by (cases acc) (auto simp: session_decrypt_def)
qed

lemma after_packets_keys:
  "us_method (after_packets P s ps) = us_method s \<and> us_psk (after_packets P s ps) = us_psk s
   \<and> us_session_id (after_packets P s ps) = us_session_id s"
  unfolding after_packets_def
proof (induction ps arbitrary: s)
  case (Cons p ps)
  obtain now packet where p: "p = (now, packet)" by fastforce
  show ?case using Cons.IH [of "snd (session_decrypt P now s packet)"]
    by (cases rule: session_decrypt_cases [of P s packet now]) (simp_all add: p)
qed simp

lemma open_response_after: "open_response P (after_packets P s ps) packet = open_response P s packet"
  by (simp add: open_response_def after_packets_keys)

lemma after_packets_abs:
  assumes "window_abs (us_replay s) st"
  shows "\<exists>st'. window_abs (us_replay (after_packets P s ps)) st'"
  unfolding after_packets_def
  using assms
proof (induction ps arbitrary: s st)
  case (Cons p ps)
  obtain now packet where p: "p = (now, packet)" by fastforce
  have "\<exists>st'. window_abs (us_replay (snd (session_decrypt P now s packet))) st'"
    by (cases rule: session_decrypt_cases [of P s packet now])
      (use Cons.prems replay_accept_refines [OF Cons.prems] in \<open>auto, metis snd_conv\<close>)
  then show ?case using Cons.IH by (auto simp: p)
qed auto

text \<open>As long as the server does not change its session, a number once seen stays seen.\<close>

definition has_seen :: "bytes \<Rightarrow> u64 \<Rightarrow> ss2022_session \<Rightarrow> bool" where
  "has_seen sid pid s \<longleftrightarrow> (\<exists>seen. window_abs (us_replay s) (Some (sid, seen)) \<and> pid \<in> set seen)"

lemma has_seen_refuses: "has_seen sid pid s \<Longrightarrow> \<not> fst (replay_accept (us_replay s) sid pid)"
  using replay_accept_refines [of "us_replay s" _ sid pid] by (fastforce simp: has_seen_def spec_accept_def)

lemma has_seen_accept:
  assumes "window_abs (us_replay s) st" and "replay_accept (us_replay s) sid pid = (True, r)"
  shows "has_seen sid pid (s\<lparr>us_replay := r\<rparr>)" and "has_seen sid q s \<Longrightarrow> has_seen sid q (s\<lparr>us_replay := r\<rparr>)"
proof -
  have g: "window_abs r (snd (spec_accept st' sid pid)) \<and> fst (spec_accept st' sid pid)" if "window_abs (us_replay s) st'" for st'
    using replay_accept_refines [OF that, of sid pid] assms(2) by simp
  show "has_seen sid pid (s\<lparr>us_replay := r\<rparr>)"
    using g [OF assms(1)] by (auto simp: has_seen_def spec_accept_def split: option.splits prod.splits if_splits)
  assume "has_seen sid q s"
  then obtain seen where "window_abs (us_replay s) (Some (sid, seen))" "q \<in> set seen" by (auto simp: has_seen_def)
  then show "has_seen sid q (s\<lparr>us_replay := r\<rparr>)"
    using g [of "Some (sid, seen)"] by (auto simp: has_seen_def spec_accept_def split: if_splits)
qed

lemma has_seen_after:
  assumes "has_seen sid pid s"
    and "\<forall>(now, packet) \<in> set ps. \<forall>sid' pid' body. open_response P s packet = Inr (sid', pid', body) \<longrightarrow> sid' = sid"
  shows "has_seen sid pid (after_packets P s ps)"
  using assms
proof (induction ps arbitrary: s)
  case Nil
  then show ?case by (simp add: after_packets_def)
next
  case (Cons p ps)
  obtain now packet where p: "p = (now, packet)" by fastforce
  let ?s = "snd (session_decrypt P now s packet)"
  have "has_seen sid pid ?s"
  proof (cases rule: session_decrypt_cases [of P s packet now])
    case (ok sid' pid' body payload r)
    then have "sid' = sid" using Cons.prems(2) p by auto
    then show ?thesis using ok Cons.prems(1) has_seen_accept(2) by (fastforce simp: has_seen_def)
  qed (use Cons.prems(1) in simp)
  moreover have "open_response P ?s = open_response P s"
    using open_response_after [of P s "[(now, packet)]"] by (intro ext) (simp add: after_packets_def)
  ultimately have "has_seen sid pid (after_packets P ?s ps)" using Cons.IH [of ?s] Cons.prems(2) by simp
  then show ?case by (simp add: after_packets_def p)
qed

text \<open>C12. No replay reaches the application: when a 2022 session has delivered a packet, then however many packets arrive after it,
  every packet with the same server session and packet number is refused and leaves the session as it was, as long as none of the
  packets in between opens under another server session.\<close>

theorem ss2022_no_replay:
  assumes "with_identity rnd m psk ipsks = Inr fresh" and "s = after_packets P fresh earlier"
    and "session_decrypt P now s packet = (Inr payload, s1)" and "open_response P s packet = Inr (sid, pid, body)"
    and "\<forall>(t, p) \<in> set later. \<forall>sid' pid' body'. open_response P s p = Inr (sid', pid', body') \<longrightarrow> sid' = sid"
    and "open_response P s again = Inr (sid, pid, body2)"
  shows "\<exists>e. session_decrypt P now2 (after_packets P s1 later) again = (Inl e, after_packets P s1 later)"
proof -
  have "window_abs (us_replay fresh) None" using assms(1) by (auto simp: with_identity_def window_abs_def replay_default_def)
  then obtain st where st: "window_abs (us_replay s) st" using after_packets_abs assms(2) by blast
  have seen1: "has_seen sid pid s1"
  proof (cases rule: session_decrypt_cases [of P s packet now])
    case (ok sid' pid' body' payload' r)
    then show ?thesis using assms(3,4) has_seen_accept(1) [OF st] by simp
  qed (use assms(3) in simp)
  have s1: "s1 = after_packets P s [(now, packet)]" using assms(3) by (simp add: after_packets_def)
  have "has_seen sid pid (after_packets P s1 later)"
    by (rule has_seen_after [OF seen1]) (use assms(5) in \<open>simp add: s1 open_response_after\<close>)
  then have no: "\<not> fst (replay_accept (us_replay (after_packets P s1 later)) sid pid)" by (rule has_seen_refuses)
  have "open_response P (after_packets P s1 later) again = Inr (sid, pid, body2)"
    using assms(6) by (simp add: s1 open_response_after)
  then show ?thesis using no by (cases rule: session_decrypt_cases [of P "after_packets P s1 later" again now2]) auto
qed

section \<open>The documented packets of a server\<close>

text \<open>
  The response format of the module comment, as the other end writes it: a body, put under the
  session key with the server's own session and packet number. \<open>nonce\<close> is used by the ChaCha method.
\<close>

definition response_body :: "u64 \<Rightarrow> bytes \<Rightarrow> bytes \<Rightarrow> target \<Rightarrow> bytes \<Rightarrow> bytes" where
  "response_body ts client_sid padding t payload =
     [TYPE_SERVER] @ be_bytes 8 ts @ client_sid @ be16 (of_nat (length padding)) @ padding @ ss_encode_address t @ payload"

definition server_packet :: "ss_prims \<Rightarrow> ss_method \<Rightarrow> bytes \<Rightarrow> bytes \<Rightarrow> bytes \<Rightarrow> u64 \<Rightarrow> bytes \<Rightarrow> io_error + bytes" where
  "server_packet P m psk nonce sid pid body =
     (if is_chacha2022 m
      then rbind (xchacha_seal P psk nonce (sid @ be_bytes 8 pid @ body)) (\<lambda>ct. Inr (nonce @ ct))
      else rbind (seal_nonce P m (session_subkey_2022 P m psk sid) (drop 4 (sid @ be_bytes 8 pid)) body) (\<lambda>sealed.
           rbind (aes_ecb_encrypt_block P psk (sid @ be_bytes 8 pid)) (\<lambda>header. Inr (header @ sealed))))"

lemma parse_response_body_ok:
  assumes "length client_sid = 8" and "length padding < 65536" and "abs_diff now ts \<le> TIMESTAMP_WINDOW" and "target_wf t"
    and "us_session_id s = client_sid"
  shows "parse_response_body now s (response_body ts client_sid padding t payload) = Inr payload"
proof -
  let ?body = "response_body ts client_sid padding t payload" and ?len = "of_nat (length padding) :: u16"
  have ty: "index ?body 0 = Inr 1" by (simp add: response_body_def)
  have ts: "slice ?body 1 9 = Inr (be_bytes 8 ts)"
    using slice_append [of 9 "[TYPE_SERVER]" "be_bytes 8 ts" "client_sid @ be16 ?len @ padding @ ss_encode_address t @ payload"]
    by (simp add: response_body_def)
  have sid: "slice ?body 9 17 = Inr client_sid"
    using slice_append [of 17 "[TYPE_SERVER] @ be_bytes 8 ts" client_sid "be16 ?len @ padding @ ss_encode_address t @ payload"] assms(1)
    by (simp add: response_body_def)
  have len: "index_u16 ?body 17 = Inr ?len"
    using index_u16_append [of "[TYPE_SERVER] @ be_bytes 8 ts @ client_sid" ?len "padding @ ss_encode_address t @ payload"] assms(1)
    by (simp add: response_body_def)
  have pos: "unat ?len = length padding" using assms(2) by (simp add: unat_of_nat_small)
  have rest: "slice ?body (19 + length padding) (length ?body) = Inr (ss_encode_address t @ payload)"
    using slice_append [of "length ?body" "[TYPE_SERVER] @ be_bytes 8 ts @ client_sid @ be16 ?len @ padding" "ss_encode_address t @ payload" "[]"] assms(1)
    by (simp add: response_body_def)
  have l: "19 + length padding \<le> length ?body" using assms(1) by (simp add: response_body_def)
  show ?thesis
    using ty ts sid len pos rest l assms(3-5) by (simp add: parse_response_body_def Let_def ss_parse_encode not_less del: slice_in index_in index_u16_in)
qed

lemma open_response_server:
  assumes "prims_ok P" and "length (us_psk s) = key_len (us_method s)"
    and "length sid = 8" and "length nonce = 24" and "16 \<le> length body" and "length body < 2 ^ 36 - 64"
  shows "\<exists>packet. server_packet P (us_method s) (us_psk s) nonce sid pid body = Inr packet
    \<and> open_response P s packet = Inr (sid, pid, body)"
proof (cases "is_chacha2022 (us_method s)")
  case True
  then have k: "length (us_psk s) = 32" using assms(2) by (simp add: is_chacha2022_def)
  let ?pt = "sid @ be_bytes 8 pid @ body"
  have "length ?pt < 2 ^ 36 - 31" using assms(3,6) by simp
  then obtain ct where ct: "xchacha_encrypt P (us_psk s) nonce ?pt = Some ct" "xchacha_decrypt P (us_psk s) nonce ct = Some ?pt"
    using assms(1) unfolding prims_ok_def aead_ok_def by metis
  have "slice ?pt 8 16 = Inr (be_bytes 8 pid)"
    using slice_append [of 16 sid "be_bytes 8 pid" body] assms(3) by simp
  then show ?thesis using True k ct assms(3,4)
    by (simp add: server_packet_def open_response_def xchacha_seal_def xchacha_open_def)
next
  case False
  let ?h = "sid @ be_bytes 8 pid" and ?k = "session_subkey_2022 P (us_method s) (us_psk s) sid"
  have "length body < 2 ^ 36 - 31" using assms(6) by simp
  from seal_nonce_open [OF assms(1) this subkey_lengths(2) [OF assms(1)], of "us_method s" "us_psk s" sid "drop 4 ?h"]
  obtain ct where ct: "seal_nonce P (us_method s) ?k (drop 4 ?h) body = Inr ct" "length ct = length body + 16"
    "open_nonce P (us_method s) ?k (drop 4 ?h) ct = Inr body" .
  have psk: "length (us_psk s) = 16 \<or> length (us_psk s) = 32" using assms(2) by (cases "us_method s") simp_all
  have h: "length ?h = 16" using assms(3) by simp
  then have aes: "length (aes_encrypt P (us_psk s) ?h) = 16" "aes_decrypt P (us_psk s) (aes_encrypt P (us_psk s) ?h) = ?h"
    using assms(1) by (simp_all add: prims_ok_def)
  have "slice ?h 8 16 = Inr (be_bytes 8 pid)" "slice ?h 0 8 = Inr sid" "slice ?h 4 16 = Inr (drop 4 ?h)"
    using slice_append [of 16 sid "be_bytes 8 pid" "[]"] assms(3) by simp_all
  then show ?thesis using False psk ct aes assms(5)
    by (simp add: server_packet_def open_response_def aes_ecb_encrypt_block_def aes_ecb_decrypt_block_def)
qed

lemma response_body_length:
  "length client_sid = 8 \<Longrightarrow> length padding < 65536 \<Longrightarrow> length payload < 65536
     \<Longrightarrow> 16 \<le> length (response_body ts client_sid padding t payload) \<and> length (response_body ts client_sid padding t payload) < 2 ^ 36 - 64"
  using ss_encode_address_length [of t] by (simp add: response_body_def)

text \<open>A 2022 server packet for this session that is at most 30 seconds off and whose number the window still admits is
  delivered: the application gets its payload.\<close>

theorem ss2022_udp_delivered:
  assumes "prims_ok P" and "length (us_psk s) = key_len (us_method s)" and "length (us_session_id s) = 8"
    and "length sid = 8" and "length nonce = 24" and "length padding < 65536" and "length payload < 65536" and "target_wf t"
    and "abs_diff now ts \<le> TIMESTAMP_WINDOW" and "replay_accept (us_replay s) sid pid = (True, r)"
  shows "\<exists>packet. server_packet P (us_method s) (us_psk s) nonce sid pid (response_body ts (us_session_id s) padding t payload) = Inr packet
    \<and> session_decrypt P now s packet = (Inr payload, s\<lparr>us_replay := r\<rparr>)"
proof -
  from open_response_server [OF assms(1,2,4,5)] response_body_length [OF assms(3,6,7), of ts t]
  obtain packet where "server_packet P (us_method s) (us_psk s) nonce sid pid (response_body ts (us_session_id s) padding t payload) = Inr packet"
    "open_response P s packet = Inr (sid, pid, response_body ts (us_session_id s) padding t payload)" by metis
  then show ?thesis using parse_response_body_ok [OF assms(3,6,9,8) refl] assms(10) by (simp add: session_decrypt_def)
qed

section \<open>Instances\<close>

definition sample_session :: ss2022_session where
  "sample_session = \<lparr>us_method = Ss2022Aes128Gcm, us_psk = replicate 16 3, us_identity_psks = [],
     us_session_id = replicate 8 4, us_next_packet_id = 0, us_replay = replay_default\<rparr>"

lemma sample_session_fresh: "with_identity (Some (replicate 8 4)) Ss2022Aes128Gcm (replicate 16 3) [] = Inr sample_session"
  by (simp add: with_identity_def sample_session_def)

theorem ss_packet_roundtrip_witness:
  "\<exists>packet. encrypt_packet sample_prims (Some (replicate 16 1)) Aes128Gcm [7] (Socket (SockV4 1 53)) [10, 11] = Inr packet
     \<and> decrypt_packet sample_prims Aes128Gcm [7] packet = Inr (Socket (SockV4 1 53), [10, 11])"
  by (rule ss_packet_roundtrip [OF sample_prims_ok]) (simp_all add: salt_len_def)

theorem ss2022_udp_delivered_witness:
  "\<exists>packet. server_packet sample_prims Ss2022Aes128Gcm (replicate 16 3) (replicate 24 0) (replicate 8 9) 5
       (response_body 1000 (replicate 8 4) [1, 2] (Socket (SockV4 1 53)) [10, 11]) = Inr packet
     \<and> fst (session_decrypt sample_prims 1010 sample_session packet) = Inr [10, 11]"
proof -
  have "replay_accept (us_replay sample_session) (replicate 8 9) 5 = (True, \<lparr>rp_sid = Some (replicate 8 9), rp_highest = 5, rp_window = 1\<rparr>)"
    by (simp add: sample_session_def replay_default_def replay_accept_def)
  moreover have "abs_diff 1010 1000 \<le> (30 :: u64)" by (simp add: abs_diff_def)
  ultimately show ?thesis
    using ss2022_udp_delivered [OF sample_prims_ok, of sample_session "replicate 8 9" "replicate 24 0" "[1, 2]" "[10, 11]" "Socket (SockV4 1 53)" 1010 1000 5]
    by (auto simp: sample_session_def)
qed

theorem ss2022_no_replay_witness:
  "\<exists>packet s1. session_decrypt sample_prims 1010 sample_session packet = (Inr [10, 11], s1)
     \<and> (\<exists>e. session_decrypt sample_prims 1020 s1 packet = (Inl e, s1))"
proof -
  let ?body = "response_body 1000 (replicate 8 4) [1, 2] (Socket (SockV4 1 53)) [10, 11]"
  have len: "16 \<le> length ?body \<and> length ?body < 2 ^ 36 - 64" by (rule response_body_length) simp_all
  from open_response_server [OF sample_prims_ok, of sample_session "replicate 8 9" "replicate 24 0" ?body 5] len
  obtain packet where o: "open_response sample_prims sample_session packet = Inr (replicate 8 9, 5, ?body)"
    by (auto simp: sample_session_def)
  moreover have "parse_response_body 1010 sample_session ?body = Inr [10, 11]"
    by (rule parse_response_body_ok) (simp_all add: sample_session_def abs_diff_def)
  ultimately obtain s1 where d: "session_decrypt sample_prims 1010 sample_session packet = (Inr [10, 11], s1)"
    by (simp add: session_decrypt_def sample_session_def replay_default_def replay_accept_def)
  have "sample_session = after_packets sample_prims sample_session []" by (simp add: after_packets_def)
  from ss2022_no_replay [OF sample_session_fresh this d o, of "[]" packet ?body 1020] o d
  show ?thesis by (auto simp: after_packets_def)
qed

end
