(* ===== verification/Ss2022.thy ===== *)
theory Ss2022
  imports SsStream SsUdp
begin

text \<open>
  \<open>crates/net/src/shadowsocks/ss2022.rs\<close>: the stream of the 2022 methods. The request header is queued
  when the stream is made; the response is only read after its header has been opened with the
  server's session key and its type, its time and the salt of the request in it have been checked.
  The clock is read once per response, when its header is opened; it is the argument \<open>now\<close>.
\<close>

abbreviation (input) S2_MAX_CHUNK :: nat where "S2_MAX_CHUNK \<equiv> 0xFFFF"
abbreviation (input) TYPE_REQUEST :: u8 where "TYPE_REQUEST \<equiv> 0"
abbreviation (input) TYPE_RESPONSE :: u8 where "TYPE_RESPONSE \<equiv> 1"

datatype s2_stage = ServerSalt | RespHeader | FirstPayload nat | S2Len | S2Data nat

record ss2022_stream =
  s2_method :: ss_method
  s2_psk :: bytes
  s2_client_salt :: bytes
  s2_send :: crypto
  s2_recv :: "crypto option"
  s2_stage :: s2_stage

section \<open>The request\<close>

definition request_fixed :: "u64 \<Rightarrow> bytes \<Rightarrow> bytes" where
  "request_fixed now variable = [TYPE_REQUEST] @ be_bytes 8 now @ be16 (of_nat (length variable))"

definition ss2022_new :: "ss_prims \<Rightarrow> bytes option \<Rightarrow> u64 \<Rightarrow> transport \<Rightarrow> ss_method \<Rightarrow> bytes \<Rightarrow> bytes list \<Rightarrow> bytes
    \<Rightarrow> io_error + ss2022_stream fstream" where
  "ss2022_new P rnd now t m psk ipsks addr =
     rbind (ok_or rnd (IoOther ''getrandom'')) (\<lambda>salt.
     rbind (crypto_new m (session_subkey_2022 P m psk salt)) (\<lambda>send.
     let variable = addr @ [0, 0]; fixed = request_fixed now variable
     in rbind (if ipsks \<noteq> [] then build_identity_headers P m ipsks psk salt else Inr []) (\<lambda>ids.
        rbind (crypto_seal P send fixed) (\<lambda>(f, send).
        rbind (crypto_seal P send variable) (\<lambda>(v, send).
          Inr (fstream_new t (salt @ ids @ f @ v)
            \<lparr>s2_method = m, s2_psk = psk, s2_client_salt = salt, s2_send = send, s2_recv = None, s2_stage = ServerSalt\<rparr>))))))"

definition s2_encode :: "ss_prims \<Rightarrow> ss2022_stream \<Rightarrow> bytes \<Rightarrow> ss2022_stream \<times> bytes \<times> (io_error + nat)" where
  "s2_encode P s buf =
     (case seal_chunk P (s2_send s) (take (min (length buf) S2_MAX_CHUNK) buf) of
        (c, queued, r) \<Rightarrow> (s\<lparr>s2_send := c\<rparr>, queued, r))"

definition ss2022_poll_write :: "ss_prims \<Rightarrow> bytes \<Rightarrow> ss2022_stream fstream \<Rightarrow> (io_error + nat) poll \<times> ss2022_stream fstream" where
  "ss2022_poll_write P buf s = framed_poll_write (s2_encode P) buf s"

section \<open>The response\<close>

definition resp_header_len :: "ss_method \<Rightarrow> nat" where
  "resp_header_len m = 1 + 8 + salt_len m + 2"

definition s2_need :: "ss2022_stream \<Rightarrow> nat" where
  "s2_need s =
     (case s2_stage s of
        ServerSalt \<Rightarrow> salt_len (s2_method s)
      | RespHeader \<Rightarrow> resp_header_len (s2_method s) + AEAD_TAG
      | FirstPayload len \<Rightarrow> len + AEAD_TAG
      | S2Len \<Rightarrow> 2 + AEAD_TAG
      | S2Data len \<Rightarrow> len + AEAD_TAG)"

definition s2_eof_ok :: "ss2022_stream \<Rightarrow> bool" where
  "s2_eof_ok s = (case s2_stage s of FirstPayload _ \<Rightarrow> False | S2Data _ \<Rightarrow> False | _ \<Rightarrow> True)"

text \<open>The checks of the response header; the length of the first payload when all hold.\<close>

definition check_resp_header :: "u64 \<Rightarrow> ss2022_stream \<Rightarrow> bytes \<Rightarrow> io_error + nat" where
  "check_resp_header now s pt =
     (let sl = salt_len (s2_method s)
      in if length pt \<noteq> resp_header_len (s2_method s) then Inl (IoOther ''ss2022: header size'')
         else rbind (index pt 0) (\<lambda>ty. if ty \<noteq> TYPE_RESPONSE then Inl (IoOther ''ss2022: type'')
         else rbind (slice pt 1 9) (\<lambda>ts. if abs_diff now (from_be ts) > 30 then Inl (IoOther ''ss2022: timestamp'')
         else rbind (slice pt 9 (9 + sl)) (\<lambda>req_salt. if req_salt \<noteq> s2_client_salt s then Inl (IoOther ''ss2022: request salt'')
         else rbind (index pt (9 + sl)) (\<lambda>hi. rbind (index pt (10 + sl)) (\<lambda>lo. Inr (unat hi * 256 + unat lo)))))))"

definition s2_open :: "ss_prims \<Rightarrow> ss2022_stream \<Rightarrow> bytes \<Rightarrow> io_error + bytes \<times> ss2022_stream" where
  "s2_open P s frame =
     (case s2_recv s of
        None \<Rightarrow> Inl Panic
      | Some c \<Rightarrow> rbind (crypto_open P c frame) (\<lambda>(pt, c). Inr (pt, s\<lparr>s2_recv := Some c\<rparr>)))"

definition s2_handle :: "ss_prims \<Rightarrow> u64 \<Rightarrow> ss2022_stream \<Rightarrow> bytes \<Rightarrow> ss2022_stream \<times> (io_error + bytes option)" where
  "s2_handle P now s frame =
     (case s2_stage s of
        ServerSalt \<Rightarrow>
          (case crypto_new (s2_method s) (session_subkey_2022 P (s2_method s) (s2_psk s) frame) of
             Inl e \<Rightarrow> (s, Inl e)
           | Inr c \<Rightarrow> (s\<lparr>s2_recv := Some c, s2_stage := RespHeader\<rparr>, Inr None))
      | RespHeader \<Rightarrow>
          (case s2_open P s frame of
             Inl e \<Rightarrow> (s, Inl e)
           | Inr (pt, s) \<Rightarrow> (case check_resp_header now s pt of
               Inl e \<Rightarrow> (s, Inl e)
             | Inr len \<Rightarrow> (s\<lparr>s2_stage := FirstPayload len\<rparr>, Inr None)))
      | FirstPayload len \<Rightarrow>
          (case s2_open P s frame of
             Inl e \<Rightarrow> (s, Inl e)
           | Inr (pt, s) \<Rightarrow> (s\<lparr>s2_stage := S2Len\<rparr>, Inr (if pt = [] then None else Some pt)))
      | S2Len \<Rightarrow>
          (case s2_open P s frame of
             Inl e \<Rightarrow> (s, Inl e)
           | Inr (pt, s) \<Rightarrow> (case be_length pt of
               Inl e \<Rightarrow> (s, Inl e)
             | Inr len \<Rightarrow>
                 if len = 0 \<or> len > S2_MAX_CHUNK then (s, Inl (IoOther ''ss2022: chunk length''))
                 else (s\<lparr>s2_stage := S2Data len\<rparr>, Inr None)))
      | S2Data len \<Rightarrow>
          (case s2_open P s frame of
             Inl e \<Rightarrow> (s, Inl e)
           | Inr (pt, s) \<Rightarrow> (s\<lparr>s2_stage := S2Len\<rparr>, Inr (Some pt))))"

lemma s2_need_pos: "0 < s2_need s"
  by (simp add: s2_need_def salt_len_def split: s2_stage.split)

function ss2022_read_loop :: "ss_prims \<Rightarrow> u64 \<Rightarrow> ss2022_stream fstream \<Rightarrow> (io_error + bool) poll \<times> ss2022_stream fstream" where
  "ss2022_read_loop P now s =
     (case fill (s2_need (prot s)) s of
        (PollPending, s) \<Rightarrow> (PollPending, s)
      | (PollReady (Inl e), s) \<Rightarrow> (PollReady (Inl e), s)
      | (PollReady (Inr False), s) \<Rightarrow> (PollReady (if s2_eof_ok (prot s) then Inr False else Inl UnexpectedEof), s)
      | (PollReady (Inr True), s) \<Rightarrow>
          (case s2_handle P now (prot s) (rtmp s) of
             (p, Inl e) \<Rightarrow> (PollReady (Inl e), s\<lparr>rtmp := [], prot := p\<rparr>)
           | (p, Inr None) \<Rightarrow> ss2022_read_loop P now (s\<lparr>rtmp := [], prot := p\<rparr>)
           | (p, Inr (Some pt)) \<Rightarrow> (PollReady (Inr True), s\<lparr>rtmp := [], prot := p, plain := pt, ppos := 0\<rparr>)))"
  by pat_completeness auto

termination
  by (relation "measure (\<lambda>(P, now, s). stock s)")
    (auto intro: fill_progress [OF _ s2_need_pos, OF sym])

declare ss2022_read_loop.simps [simp del]

definition ss2022_poll_read :: "ss_prims \<Rightarrow> u64 \<Rightarrow> nat \<Rightarrow> ss2022_stream fstream \<Rightarrow> (io_error + bytes) poll \<times> ss2022_stream fstream" where
  "ss2022_poll_read P now cap s = framed_poll_read (ss2022_read_loop P now) cap s"

interpretation s2_reader: frame_reader s2_need s2_eof_ok "s2_handle P now" "ss2022_read_loop P now" for P now
  by unfold_locales (rule ss2022_read_loop.simps)

section \<open>A response reaches the application\<close>

text \<open>The documented response of a server: its salt, the header, the first payload and chunks.\<close>

definition s2_crypto :: "ss_prims \<Rightarrow> ss_method \<Rightarrow> bytes \<Rightarrow> bytes \<Rightarrow> crypto" where
  "s2_crypto P m psk salt =
     \<lparr>c_cipher = method_cipher m, c_key = session_subkey_2022 P m psk salt, c_nonce = replicate 12 0\<rparr>"

definition sealed :: "ss_prims \<Rightarrow> crypto \<Rightarrow> bytes \<Rightarrow> bytes" where
  "sealed P c pt = (case crypto_seal P c pt of Inr (ct, _) \<Rightarrow> ct | Inl _ \<Rightarrow> [])"

definition response_header :: "u64 \<Rightarrow> bytes \<Rightarrow> nat \<Rightarrow> bytes" where
  "response_header ts req_salt len = [TYPE_RESPONSE] @ be_bytes 8 ts @ req_salt @ len_be len"

definition response_wire :: "ss_prims \<Rightarrow> ss_method \<Rightarrow> bytes \<Rightarrow> bytes \<Rightarrow> u64 \<Rightarrow> bytes \<Rightarrow> bytes \<Rightarrow> bytes list \<Rightarrow> bytes" where
  "response_wire P m psk salt ts req_salt first ds =
     (let c = s2_crypto P m psk salt
      in salt @ sealed P c (response_header ts req_salt (length first)) @ sealed P (next_crypto c) first @ frames P (two_on c) ds)"

lemma sealed_opens:
  "prims_ok P \<Longrightarrow> length pt < 2 ^ 36 - 31 \<Longrightarrow>
     crypto_open P c (sealed P c pt) = Inr (pt, next_crypto c) \<and> length (sealed P c pt) = length pt + 16"
  by (erule seal_open [of P pt c]) (auto simp: sealed_def)

lemma check_resp_header_ok:
  assumes "length (s2_client_salt s) = salt_len (s2_method s)" and "abs_diff now ts \<le> 30" and "len < 65536"
  shows "check_resp_header now s (response_header ts (s2_client_salt s) len) = Inr len"
proof -
  let ?h = "response_header ts (s2_client_salt s) len" and ?sl = "salt_len (s2_method s)"
  have "slice ?h 1 9 = Inr (be_bytes 8 ts)"
    using slice_append [of 9 "[TYPE_RESPONSE]" "be_bytes 8 ts" "s2_client_salt s @ len_be len"] by (simp add: response_header_def)
  moreover have "slice ?h 9 (9 + ?sl) = Inr (s2_client_salt s)"
    using slice_append [of "9 + ?sl" "[TYPE_RESPONSE] @ be_bytes 8 ts" "s2_client_salt s" "len_be len"] assms(1)
    by (simp add: response_header_def)
  moreover have "index ?h (9 + ?sl) = Inr (of_nat (len div 256))" "index ?h (10 + ?sl) = Inr (of_nat len)"
    using index_append [of "[TYPE_RESPONSE] @ be_bytes 8 ts @ s2_client_salt s" "of_nat (len div 256)" "[of_nat len]"]
      index_append [of "[TYPE_RESPONSE] @ be_bytes 8 ts @ s2_client_salt s @ [of_nat (len div 256)]" "of_nat len" "[]"] assms(1)
    by (simp_all add: response_header_def len_be_def)
  moreover have "index ?h 0 = Inr 1" "length ?h = resp_header_len (s2_method s)"
    using assms(1) by (simp_all add: response_header_def resp_header_len_def len_be_def)
  moreover have "unat (of_nat (len div 256) :: u8) * 256 + unat (of_nat len :: u8) = len"
    using assms(3) by (simp add: unat_of_nat take_bit_eq_mod)
  ultimately show ?thesis using assms(2)
    by (simp add: check_resp_header_def Let_def not_less del: slice_in index_in)
qed

lemma s2_frames_carried:
  assumes "prims_ok P" and "\<forall>d \<in> set ds. d \<noteq> [] \<and> length d \<le> S2_MAX_CHUNK" and "s2_recv s = Some c" and "s2_stage s = S2Len"
  shows "s2_reader.wire P now s (frames P c ds) ds"
  using assms(2-)
proof (induction ds arbitrary: c s)
  case Nil
  then show ?case by (auto intro!: carries_end simp: s2_eof_ok_def s2_need_pos)
next
  case (Cons d ds)
  then have d: "d \<noteq> []" "length d < 65536" by simp_all
  from seal_chunk_opens [OF assms(1) d(2), of c] obtain a b where f: "chunk_frames P c d = a @ b" "length a = 18" "length b = length d + 16"
    and o: "crypto_open P c a = Inr (len_be (length d), next_crypto c)" "crypto_open P (next_crypto c) b = Inr (d, two_on c)"
    unfolding chunk_frames_def by (metis case_prod_conv)
  let ?s1 = "s\<lparr>s2_recv := Some (next_crypto c), s2_stage := S2Data (length d)\<rparr>"
  let ?s2 = "?s1\<lparr>s2_recv := Some (two_on c), s2_stage := S2Len\<rparr>"
  have "s2_reader.wire P now ?s2 (frames P (two_on c) ds) ds" using Cons by simp
  moreover have "s2_handle P now ?s1 b = (?s2, Inr (Some d))" using o(2) by (simp add: s2_handle_def s2_open_def)
  ultimately have "s2_reader.wire P now ?s1 (b @ frames P (two_on c) ds) (d # ds)"
    using f(3) d(1) by (intro carries_chunk) (auto simp: s2_need_def)
  moreover have "s2_handle P now s a = (?s1, Inr None)"
    using o(1) Cons.prems d by (simp add: s2_handle_def s2_open_def be_length_len_be)
  moreover have "length a = s2_need s" using f(2) Cons.prems(3) by (simp add: s2_need_def)
  ultimately have "s2_reader.wire P now s (a @ b @ frames P (two_on c) ds) (d # ds)" by (metis carries_skip)
  then show ?case by (simp add: f(1))
qed

lemma response_carried:
  assumes "prims_ok P" and "length salt = salt_len (s2_method s)" and "length (s2_client_salt s) = salt_len (s2_method s)"
    and "s2_stage s = ServerSalt" and "abs_diff now ts \<le> 30" and "length first < 65536"
    and "\<forall>d \<in> set ds. d \<noteq> [] \<and> length d \<le> S2_MAX_CHUNK"
  shows "s2_reader.wire P now s (response_wire P (s2_method s) (s2_psk s) salt ts (s2_client_salt s) first ds)
    (if first = [] then ds else first # ds)"
proof -
  let ?c = "s2_crypto P (s2_method s) (s2_psk s) salt" and ?h = "response_header ts (s2_client_salt s) (length first)"
  let ?s1 = "s\<lparr>s2_recv := Some ?c, s2_stage := RespHeader\<rparr>"
  let ?s2 = "?s1\<lparr>s2_recv := Some (next_crypto ?c), s2_stage := FirstPayload (length first)\<rparr>"
  let ?s3 = "?s2\<lparr>s2_recv := Some (two_on ?c), s2_stage := S2Len\<rparr>"
  have hl: "length ?h = resp_header_len (s2_method s)" using assms(3) by (simp add: response_header_def resp_header_len_def len_be_def)
  have "length ?h < 2 ^ 36 - 31" using key_len_bounds [of "s2_method s"] by (simp add: hl resp_header_len_def salt_len_def)
  note h = sealed_opens [OF assms(1) this, of ?c]
  have "length first < 2 ^ 36 - 31" using assms(6) by simp
  note f = sealed_opens [OF assms(1) this, of "next_crypto ?c"]
  have w3: "s2_reader.wire P now ?s3 (frames P (two_on ?c) ds) ds"
    by (rule s2_frames_carried [OF assms(1,7)]) simp_all
  have "s2_handle P now ?s2 (sealed P (next_crypto ?c) first) = (?s3, Inr (if first = [] then None else Some first))"
    using f by (simp add: s2_handle_def s2_open_def two_on_def)
  moreover have "length (sealed P (next_crypto ?c) first) = s2_need ?s2" using f by (simp add: s2_need_def)
  ultimately have w2: "s2_reader.wire P now ?s2 (sealed P (next_crypto ?c) first @ frames P (two_on ?c) ds) (if first = [] then ds else first # ds)"
    using w3 by (metis carries_maybe)
  have "check_resp_header now (?s1\<lparr>s2_recv := Some (next_crypto ?c)\<rparr>) ?h = Inr (length first)"
    using check_resp_header_ok [of "?s1\<lparr>s2_recv := Some (next_crypto ?c)\<rparr>" now ts] assms(3,5,6) by simp
  then have "s2_handle P now ?s1 (sealed P ?c ?h) = (?s2, Inr None)"
    using h by (simp add: s2_handle_def s2_open_def)
  moreover have "length (sealed P ?c ?h) = s2_need ?s1" using h hl by (simp add: s2_need_def)
  ultimately have w1: "s2_reader.wire P now ?s1 (sealed P ?c ?h @ sealed P (next_crypto ?c) first @ frames P (two_on ?c) ds)
      (if first = [] then ds else first # ds)"
    using w2 by (metis carries_skip)
  have "s2_handle P now s salt = (?s1, Inr None)"
    using crypto_new_subkey [OF subkey_lengths(2) [OF assms(1)], of "s2_method s" "s2_psk s" salt] assms(4)
    by (simp add: s2_handle_def s2_crypto_def)
  moreover have "length salt = s2_need s" using assms(2,4) by (simp add: s2_need_def)
  ultimately show ?thesis unfolding response_wire_def Let_def using w1 by (metis carries_skip)
qed

lemma response_reads_back:
  assumes "prims_ok P" and "ss2022_new P (Some req_salt) sent_at t m psk ipsks addr = Inr s"
    and "t = open_transport accepts" and "length req_salt = salt_len m" and "length salt = salt_len m"
    and "abs_diff now ts \<le> 30" and "length first < 65536" and "\<forall>d \<in> set ds. d \<noteq> [] \<and> length d \<le> S2_MAX_CHUNK"
    and "arrivals evs = response_wire P m psk salt ts req_salt first ds" and "Arrive [] \<notin> set evs"
    and "\<forall>c \<in> set caps. 0 < c" and "length (first @ concat ds) \<le> length caps"
  shows "delivered (fst (run_reads (ss2022_poll_read P now) s (evs @ map Read caps))) = Some (first @ concat ds)"
proof -
  from assms(2) obtain q p where s: "s = fstream_new t q p" and p: "s2_method p = m" "s2_psk p = psk" "s2_client_salt p = req_salt" "s2_stage p = ServerSalt"
    by (auto simp: ss2022_new_def Let_def split: prod.splits)
  have "s2_reader.wire P now p (arrivals evs) (if first = [] then ds else first # ds)"
    using response_carried [OF assms(1), of salt p now ts first ds] assms(4-9) p by simp
  from s2_reader.due_new [OF this, of accepts q]
  have "s2_reader.due P now (arrivals evs) (first @ concat ds) s"
    using s assms(3) by (simp add: open_transport_def split: if_splits)
  from s2_reader.reads_back [OF this assms(10-12)] show ?thesis by (simp add: ss2022_poll_read_def [abs_def])
qed

text \<open>C32. A client stream of the 2022 methods gives the application exactly what the server wrote (first payload and chunks), when the
  response carries this client's salt and a time at most 30 seconds off, however the bytes are cut.\<close>

theorem ss2022_response_delivered:
  assumes "prims_ok P" and "ss2022_new P (Some req_salt) sent_at t m psk ipsks addr = Inr s"
    and "t = open_transport accepts" and "length req_salt = salt_len m" and "length salt = salt_len m"
    and "abs_diff now ts \<le> 30" and "length first < 65536" and "\<forall>d \<in> set ds. d \<noteq> [] \<and> length d \<le> S2_MAX_CHUNK"
    and "arrivals evs = response_wire P m psk salt ts req_salt first ds" and "Arrive [] \<notin> set evs"
    and "\<forall>c \<in> set caps. 0 < c" and "length (first @ concat ds) \<le> length caps"
  shows "delivered (fst (run_reads (ss2022_poll_read P now) s (evs @ map Read caps))) = Some (first @ concat ds)"
  using assms by (rule response_reads_back)

section \<open>Nothing is delivered without a checked header\<close>

definition header_checked :: "ss_prims \<Rightarrow> u64 \<Rightarrow> ss2022_stream \<Rightarrow> bool" where
  "header_checked P now s \<longleftrightarrow> (\<exists>salt frame pt n c c' len.
     crypto_new (s2_method s) (session_subkey_2022 P (s2_method s) (s2_psk s) salt) = Inr c
     \<and> crypto_open P ((next_crypto ^^ n) c) frame = Inr (pt, c') \<and> check_resp_header now s pt = Inr len)"

definition s2_inv :: "ss_prims \<Rightarrow> u64 \<Rightarrow> ss2022_stream \<Rightarrow> bool" where
  "s2_inv P now s \<longleftrightarrow>
     (case s2_stage s of
        ServerSalt \<Rightarrow> True
      | RespHeader \<Rightarrow> (\<exists>salt c n. crypto_new (s2_method s) (session_subkey_2022 P (s2_method s) (s2_psk s) salt) = Inr c
          \<and> s2_recv s = Some ((next_crypto ^^ n) c))
      | _ \<Rightarrow> header_checked P now s)"

text \<open>The parts of the state the checks look at never change.\<close>

lemma check_resp_header_cong:
  assumes "s2_method s' = s2_method s" and "s2_client_salt s' = s2_client_salt s"
  shows "check_resp_header now s' = check_resp_header now s"
  unfolding check_resp_header_def assms by (rule refl)

lemma s2_open_step:
  assumes "s2_open P s frame = Inr (pt, s')"
  shows "\<exists>c. s2_recv s = Some c \<and> crypto_open P c frame = Inr (pt, next_crypto c) \<and> s' = s\<lparr>s2_recv := Some (next_crypto c)\<rparr>"
  using assms by (auto simp: s2_open_def crypto_open_def next_crypto_def split: option.splits)

lemma header_checked_cong:
  "s2_method s' = s2_method s \<Longrightarrow> s2_psk s' = s2_psk s \<Longrightarrow> s2_client_salt s' = s2_client_salt s
     \<Longrightarrow> header_checked P now s' = header_checked P now s"
  by (simp add: header_checked_def check_resp_header_cong [of s' s])

lemma s2_handle_keys:
  assumes "s2_handle P now s frame = (s', r)"
  shows "s2_method s' = s2_method s \<and> s2_psk s' = s2_psk s \<and> s2_client_salt s' = s2_client_salt s"
  using assms
  by (auto simp: s2_handle_def split: s2_stage.splits sum.splits prod.splits if_splits dest!: s2_open_step)

lemma s2_handle_inv:
  assumes "s2_inv P now s" and "s2_handle P now s frame = (s', r)"
  shows "s2_inv P now s' \<and> (\<forall>pt. r = Inr (Some pt) \<longrightarrow> header_checked P now s')"
proof -
  note keys = s2_handle_keys [OF assms(2)]
  note cong = header_checked_cong [of s' s P now]
  show ?thesis
  proof (cases "s2_stage s")
    case ServerSalt
    then show ?thesis using assms(2) by (auto simp: s2_handle_def s2_inv_def split: sum.splits) (metis funpow_0)
  next
    case RespHeader
    with assms(1) obtain salt c n where c: "crypto_new (s2_method s) (session_subkey_2022 P (s2_method s) (s2_psk s) salt) = Inr c"
      "s2_recv s = Some ((next_crypto ^^ n) c)" by (auto simp: s2_inv_def)
    show ?thesis
    proof (cases "s2_open P s frame")
      case (Inl e)
      then show ?thesis using assms RespHeader by (auto simp: s2_handle_def)
    next
      case (Inr v)
      then obtain pt s1 where v: "v = (pt, s1)" by fastforce
      with Inr s2_open_step [of P s frame pt s1] c(2)
      have o: "crypto_open P ((next_crypto ^^ n) c) frame = Inr (pt, (next_crypto ^^ Suc n) c)"
        and s1: "s1 = s\<lparr>s2_recv := Some ((next_crypto ^^ Suc n) c)\<rparr>" by auto
      show ?thesis
      proof (cases "check_resp_header now s1 pt")
        case (Inl e)
        then have "s' = s1" "r = Inl e" using assms(2) RespHeader Inr v by (simp_all add: s2_handle_def)
        then show ?thesis using RespHeader c(1) s1 by (auto simp: s2_inv_def) (metis comp_apply funpow.simps(2))
      next
        case len: (Inr len)
        then have "check_resp_header now s pt = Inr len" using check_resp_header_cong [of s1 s now] s1 by simp
        then have "header_checked P now s" using c(1) o unfolding header_checked_def by blast
        then show ?thesis using assms(2) RespHeader Inr v len keys cong by (auto simp: s2_handle_def s2_inv_def)
      qed
    qed
  next
    case (FirstPayload l)
    then have "header_checked P now s'" using assms(1) keys cong by (simp add: s2_inv_def)
    then show ?thesis using assms(2) FirstPayload
      by (auto simp: s2_handle_def s2_inv_def split: sum.splits prod.splits dest!: s2_open_step)
  next
    case S2Len
    then have "header_checked P now s'" using assms(1) keys cong by (simp add: s2_inv_def)
    then show ?thesis using assms(2) S2Len
      by (auto simp: s2_handle_def s2_inv_def split: sum.splits prod.splits if_splits dest!: s2_open_step)
  next
    case (S2Data l)
    then have "header_checked P now s'" using assms(1) keys cong by (simp add: s2_inv_def)
    then show ?thesis using assms(2) S2Data
      by (auto simp: s2_handle_def s2_inv_def split: sum.splits prod.splits dest!: s2_open_step)
  qed
qed

text \<open>The invariant of the whole stream, for every transport, also one that lies or fails.\<close>

definition s2_stream_inv :: "ss_prims \<Rightarrow> u64 \<Rightarrow> ss2022_stream \<Rightarrow> ss2022_stream fstream \<Rightarrow> bool" where
  "s2_stream_inv P now p0 s \<longleftrightarrow> s2_inv P now (prot s) \<and> (waiting_plain s \<noteq> [] \<longrightarrow> header_checked P now (prot s))
     \<and> s2_method (prot s) = s2_method p0 \<and> s2_psk (prot s) = s2_psk p0 \<and> s2_client_salt (prot s) = s2_client_salt p0"

lemma fill_keeps: "fill need s = (r, s') \<Longrightarrow> prot s' = prot s \<and> plain s' = plain s \<and> ppos s' = ppos s"
proof (induction need s arbitrary: r s' rule: fill.induct)
  case (1 need s)
  obtain ir t where i: "inner_read (min (need - length (rtmp s)) 4096) (inner s) = (ir, t)" by fastforce
  show ?case
  proof (cases "length (rtmp s) < need \<and> (\<exists>got. ir = PollReady (Inr got) \<and> got \<noteq> [])")
    case True
    then obtain got where g: "length (rtmp s) < need" "ir = PollReady (Inr got)" "got \<noteq> []" by blast
    then have "fill need (s\<lparr>inner := t, rtmp := rtmp s @ got\<rparr>) = (r, s')"
      using "1.prems" i by (subst (asm) fill.simps) simp
    from "1.IH" [OF g(1) i [symmetric] g(2) refl g(3) this] show ?thesis by simp
  next
    case False
    then show ?thesis using "1.prems" i
      by (cases "length (rtmp s) < need"; cases ir rule: outcome.cases) (auto simp: fill.simps [of need s])
  qed
qed

lemma s2_loop_inv:
  assumes "ss2022_read_loop P now s = (r, s')" and "s2_stream_inv P now p0 s"
  shows "s2_stream_inv P now p0 s'"
  using assms
proof (induction P now s arbitrary: r s' rule: ss2022_read_loop.induct)
  case (1 P now s)
  obtain fr s1 where f: "fill (s2_need (prot s)) s = (fr, s1)" by fastforce
  have inv1: "s2_stream_inv P now p0 s1" using "1.prems"(2) fill_keeps [OF f] by (simp add: s2_stream_inv_def)
  show ?case
  proof (cases "fr = PollReady (Inr True)")
    case True
    obtain p hr where h: "s2_handle P now (prot s1) (rtmp s1) = (p, hr)" by fastforce
    have "s2_inv P now (prot s1)" using inv1 by (simp add: s2_stream_inv_def)
    note hi = s2_handle_inv [OF this h] and hk = s2_handle_keys [OF h]
    have inv2: "s2_stream_inv P now p0 (s1\<lparr>rtmp := [], prot := p\<rparr>)"
      using inv1 hi hk header_checked_cong [of p "prot s1"] by (auto simp: s2_stream_inv_def)
    show ?thesis
    proof (cases "hr = Inr None")
      case none: True
      then have "ss2022_read_loop P now (s1\<lparr>rtmp := [], prot := p\<rparr>) = (r, s')"
        using "1.prems"(1) f True h by (subst (asm) ss2022_read_loop.simps) simp
      from "1.IH" [OF f [symmetric] True refl _ h [symmetric] none refl this inv2] show ?thesis by simp
    next
      case False
      then show ?thesis
        using "1.prems"(1) f True h inv1 inv2 hi hk
        by (subst (asm) ss2022_read_loop.simps) (auto simp: s2_stream_inv_def split: sum.splits option.splits)
    qed
  next
    case False
    then have "s' = s1" using "1.prems"(1) f
      by (subst (asm) ss2022_read_loop.simps) (auto split: poll.splits sum.splits bool.splits)
    then show ?thesis using inv1 by simp
  qed
qed

lemma s2_poll_inv:
  assumes "s2_stream_inv P now p0 s" and "ss2022_poll_read P now cap s = (r, s')"
  shows "s2_stream_inv P now p0 s' \<and> (\<forall>b. r = PollReady (Inr b) \<longrightarrow> b \<noteq> [] \<longrightarrow> header_checked P now (prot s'))"
proof -
  have give: "?thesis" if "s2_stream_inv P now p0 s1" and "(let (out, s2) = deliver cap s1 in (PollReady (Inr out), s2)) = (r, s')" for s1
  proof -
    obtain b s2 where d: "deliver cap s1 = (b, s2)" by fastforce
    then have "r = PollReady (Inr b)" "s' = s2" using that(2) by simp_all
    moreover have "prot s2 = prot s1" by (rule deliver_waiting(6) [OF d])
    moreover have "waiting_plain s1 \<noteq> []" if "b \<noteq> [] \<or> waiting_plain s2 \<noteq> []"
      unfolding deliver_waiting(1) [OF d] using that by blast
    ultimately show ?thesis using that(1) unfolding s2_stream_inv_def by (metis poll.inject sum.inject(2))
  qed
  obtain lr s1 where l: "ss2022_read_loop P now s = (lr, s1)" by fastforce
  note inv1 = s2_loop_inv [OF l assms(1)]
  show ?thesis
  proof (cases "ppos s < length (plain s)")
    case True
    then show ?thesis using assms(2) by (intro give [OF assms(1)]) (simp add: ss2022_poll_read_def framed_poll_read_def)
  next
    case False
    show ?thesis
    proof (cases "lr = PollReady (Inr True)")
      case True
      then show ?thesis using assms(2) l False by (intro give [OF inv1]) (simp add: ss2022_poll_read_def framed_poll_read_def)
    next
      case other: False
      then have "s' = s1 \<and> (\<forall>b. r = PollReady (Inr b) \<longrightarrow> b = [])"
        using assms(2) l False by (auto simp: ss2022_poll_read_def framed_poll_read_def split: poll.splits sum.splits bool.splits)
      then show ?thesis using inv1 by blast
    qed
  qed
qed

lemma s2_run_inv:
  "s2_stream_inv P now p0 s \<Longrightarrow> run_reads (ss2022_poll_read P now) s evs = (rs, s') \<Longrightarrow> PollReady (Inr b) \<in> set rs \<Longrightarrow> b \<noteq> []
     \<Longrightarrow> header_checked P now p0"
proof (induction evs arbitrary: s rs)
  case Nil
  then show ?case by simp
next
  case (Cons e evs)
  show ?case
  proof (cases e)
    case (Arrive seg)
    let ?s = "s\<lparr>inner := (inner s)\<lparr>arrived := arrived (inner s) @ [seg]\<rparr>\<rparr>"
    have "s2_stream_inv P now p0 ?s" using Cons.prems(1) by (simp add: s2_stream_inv_def)
    from Cons.IH [OF this _ Cons.prems(3,4)] show ?thesis using Cons.prems(2) Arrive by simp
  next
    case (Read cap)
    obtain r s1 where p: "ss2022_poll_read P now cap s = (r, s1)" by fastforce
    note inv = s2_poll_inv [OF Cons.prems(1) p]
    show ?thesis
    proof (cases "r = PollReady (Inr b)")
      case True
      then show ?thesis using inv Cons.prems(4) header_checked_cong [of "prot s1" p0] by (auto simp: s2_stream_inv_def)
    next
      case False
      then show ?thesis using Cons.IH [of s1] Cons.prems Read p inv by (auto split: prod.splits)
    qed
  qed
qed


section \<open>The request on the wire\<close>

interpretation s2_writer: frame_writer "s2_encode P" "\<lambda>cs. p\<lparr>s2_send := (two_on ^^ length cs) c\<rparr>" "\<lambda>cs. header @ frames P c cs"
    "\<lambda>d. d \<noteq> [] \<and> length d \<le> S2_MAX_CHUNK" "prims_ok P"
  for P p c header
proof
  fix buf :: bytes and cs :: "bytes list"
  assume P: "prims_ok P" and buf: "buf \<noteq> []"
  let ?n = "min (length buf) S2_MAX_CHUNK" and ?c = "(two_on ^^ length cs) c"
  let ?d = "take ?n buf"
  have d: "length ?d = ?n" "length ?d < 65536" by auto
  from seal_chunk_opens [OF P d(2), of ?c] obtain q where q: "seal_chunk P ?c ?d = (two_on ?c, q, Inr ?n)"
    unfolding d(1) by metis
  then have "s2_encode P (p\<lparr>s2_send := ?c\<rparr>) buf = (p\<lparr>s2_send := (two_on ^^ length (cs @ [?d])) c\<rparr>, q, Inr ?n)"
    by (simp add: s2_encode_def)
  moreover have "header @ frames P c (cs @ [?d]) = (header @ frames P c cs) @ q"
    using q by (simp add: frames_append chunk_frames_def)
  moreover have "0 < ?n" "?n \<le> length buf" "?d \<noteq> [] \<and> length ?d \<le> S2_MAX_CHUNK" using buf by auto
  ultimately show "\<exists>n>0. n \<le> length buf \<and> (take n buf \<noteq> [] \<and> length (take n buf) \<le> S2_MAX_CHUNK)
      \<and> (\<exists>queued. s2_encode P (p\<lparr>s2_send := ?c\<rparr>) buf = (p\<lparr>s2_send := (two_on ^^ length (cs @ [take n buf])) c\<rparr>, queued, Inr n)
        \<and> header @ frames P c (cs @ [take n buf]) = (header @ frames P c cs) @ queued)"
    by blast
qed

lemma ss2022_new_ok:
  assumes "prims_ok P" and "length addr < 65000" and "(if ipsks \<noteq> [] then build_identity_headers P m ipsks psk salt else Inr []) = Inr eih"
  obtains f v where "ss2022_new P (Some salt) now t m psk ipsks addr = Inr (fstream_new t (salt @ eih @ f @ v)
      \<lparr>s2_method = m, s2_psk = psk, s2_client_salt = salt, s2_send = two_on (s2_crypto P m psk salt), s2_recv = None, s2_stage = ServerSalt\<rparr>)"
    and "crypto_open P (s2_crypto P m psk salt) f = Inr (request_fixed now (addr @ [0, 0]), next_crypto (s2_crypto P m psk salt))"
    and "crypto_open P (next_crypto (s2_crypto P m psk salt)) v = Inr (addr @ [0, 0], two_on (s2_crypto P m psk salt))"
proof -
  let ?c = "s2_crypto P m psk salt"
  have c: "crypto_new m (session_subkey_2022 P m psk salt) = Inr ?c"
    unfolding s2_crypto_def by (rule crypto_new_subkey) (rule subkey_lengths [OF assms(1)])
  have "length (request_fixed now (addr @ [0, 0])) < 2 ^ 36 - 31" by (simp add: request_fixed_def)
  from seal_open [OF assms(1) this, of ?c] obtain f where f: "crypto_seal P ?c (request_fixed now (addr @ [0, 0])) = Inr (f, next_crypto ?c)"
    "crypto_open P ?c f = Inr (request_fixed now (addr @ [0, 0]), next_crypto ?c)" .
  have "length (addr @ [0, 0]) < 2 ^ 36 - 31" using assms(2) by simp
  from seal_open [OF assms(1) this, of "next_crypto ?c"] obtain v where v: "crypto_seal P (next_crypto ?c) (addr @ [0, 0]) = Inr (v, two_on ?c)"
    "crypto_open P (next_crypto ?c) v = Inr (addr @ [0, 0], two_on ?c)" unfolding two_on_def .
  show ?thesis
    by (rule that [of f v]) (use c f v assms(3) in \<open>auto simp: ss2022_new_def Let_def split: if_splits\<close>)
qed

text \<open>What a 2022 client puts on the wire: its salt, the identity headers, a sealed header with type and time, the sealed address,
  and then sealed chunks with exactly the bytes that were taken from the application, whatever the transport accepts per write.\<close>

theorem ss2022_request_sent:
  assumes "prims_ok P" and "length addr < 65000" and "ipsks = []"
    and "ss2022_new P (Some salt) now (open_transport accepts) m psk ipsks addr = Inr s"
    and "run_writes (ss2022_poll_write P) s bufs = (Some taken, s')" and "unsent s' = []"
  shows "\<exists>c f v. crypto_new m (session_subkey_2022 P m psk salt) = Inr c \<and> sent (inner s') = salt @ f @ v @ frames P (two_on c) taken
    \<and> crypto_open P c f = Inr (request_fixed now (addr @ [0, 0]), next_crypto c)
    \<and> crypto_open P (next_crypto c) v = Inr (addr @ [0, 0], two_on c)"
proof -
  let ?c = "s2_crypto P m psk salt"
  let ?p = "\<lparr>s2_method = m, s2_psk = psk, s2_client_salt = salt, s2_send = two_on ?c, s2_recv = None, s2_stage = ServerSalt\<rparr>"
  from ss2022_new_ok [OF assms(1,2), of "[]" m psk salt "[]" now "open_transport accepts"] assms(3) obtain f v where
    new: "ss2022_new P (Some salt) now (open_transport accepts) m psk ipsks addr = Inr (fstream_new (open_transport accepts) (salt @ f @ v) ?p)"
    and o: "crypto_open P ?c f = Inr (request_fixed now (addr @ [0, 0]), next_crypto ?c)" "crypto_open P (next_crypto ?c) v = Inr (addr @ [0, 0], two_on ?c)"
    by auto
  then have "s = fstream_new (open_transport accepts) (salt @ f @ v) ?p" using assms(4) by simp
  then have "s2_writer.wrote (two_on ?c) ?p (salt @ f @ v) P [] s"
    using assms(1) unfolding s2_writer.wrote_def by (simp add: fstream_new_def open_transport_def)
  from s2_writer.run_wrote [OF this, of bufs taken s'] assms(5,6)
  have "sent (inner s') = salt @ f @ v @ frames P (two_on ?c) taken"
    unfolding s2_writer.wrote_def by (simp add: ss2022_poll_write_def [abs_def])
  moreover have "crypto_new m (session_subkey_2022 P m psk salt) = Inr ?c"
    unfolding s2_crypto_def by (rule crypto_new_subkey) (rule subkey_lengths [OF assms(1)])
  ultimately show ?thesis using o by blast
qed

section \<open>Instances\<close>

lemma delivered_nonempty: "delivered rs = Some (x # xs) \<Longrightarrow> \<exists>b. b \<noteq> [] \<and> PollReady (Inr b) \<in> set rs"
proof (induction rs)
  case (Cons r rs)
  then show ?case by (cases r rule: outcome.cases; cases "outcome r = Some []") auto
qed simp

definition sample_response :: bytes where
  "sample_response = response_wire sample_prims Ss2022Aes128Gcm (replicate 16 3) (replicate 16 8) 1000 (replicate 16 6) [1] [[2, 3]]"

lemma sample_client:
  "\<exists>s. ss2022_new sample_prims (Some (replicate 16 6)) 990 (open_transport [Accept 200]) Ss2022Aes128Gcm (replicate 16 3) [] [7] = Inr s"
  by (rule ss2022_new_ok [OF sample_prims_ok, of "[7]" "[]" Ss2022Aes128Gcm "replicate 16 3" "replicate 16 6" "[]" 990 "open_transport [Accept 200]"]) auto

theorem ss2022_response_delivered_witness:
  "\<exists>s. ss2022_new sample_prims (Some (replicate 16 6)) 990 (open_transport [Accept 200]) Ss2022Aes128Gcm (replicate 16 3) [] [7] = Inr s
     \<and> delivered (fst (run_reads (ss2022_poll_read sample_prims 1010) s ([Arrive sample_response] @ map Read [2, 1, 1]))) = Some [1, 2, 3]"
proof -
  obtain s where s: "ss2022_new sample_prims (Some (replicate 16 6)) 990 (open_transport [Accept 200]) Ss2022Aes128Gcm (replicate 16 3) [] [7] = Inr s"
    using sample_client by blast
  have "sample_response \<noteq> []" by (simp add: sample_response_def response_wire_def Let_def)
  then show ?thesis
    using ss2022_response_delivered [OF sample_prims_ok s refl, of "replicate 16 8" 1010 1000 "[1]" "[[2, 3]]" "[Arrive sample_response]" "[2, 1, 1]"] s
    by (simp add: salt_len_def abs_diff_def sample_response_def)
qed


lemma sample_request_writes:
  assumes "ss2022_new sample_prims (Some (replicate 16 6)) 990 (open_transport [Accept 200, Accept 200]) Ss2022Aes128Gcm (replicate 16 3) [] [7] = Inr s"
  shows "\<exists>s'. run_writes (ss2022_poll_write sample_prims) s [[5, 6]] = (Some [[5, 6]], s') \<and> unsent s' = []"
  using assms
  by (auto simp: ss2022_new_def ss2022_poll_write_def framed_poll_write_def fstream_new_def open_transport_def Let_def
      flush_wbuf.simps inner_write_def s2_encode_def crypto_new_subkey session_subkey_2022_def request_fixed_def
      sample_prims_def sample_seal_def seal_chunk_def crypto_seal_def aead_key_seal_def len_be_def)

theorem ss2022_request_sent_witness:
  "\<exists>(s :: ss2022_stream fstream) s' c f v. run_writes (ss2022_poll_write sample_prims) s [[5, 6]] = (Some [[5, 6]], s')
    \<and> sent (inner s') = replicate 16 6 @ f @ v @ frames sample_prims (two_on c) [[5, 6]]
    \<and> crypto_open sample_prims c f = Inr (request_fixed 990 [7, 0, 0], next_crypto c)
    \<and> crypto_open sample_prims (next_crypto c) v = Inr ([7, 0, 0], two_on c)"
proof -
  obtain s where s: "ss2022_new sample_prims (Some (replicate 16 6)) 990 (open_transport [Accept 200, Accept 200]) Ss2022Aes128Gcm (replicate 16 3) [] [7] = Inr s"
    by (rule ss2022_new_ok [OF sample_prims_ok, of "[7]" "[]" Ss2022Aes128Gcm "replicate 16 3" "replicate 16 6" "[]" 990 "open_transport [Accept 200, Accept 200]"]) auto
  from sample_request_writes [OF s] obtain s' where w: "run_writes (ss2022_poll_write sample_prims) s [[5, 6]] = (Some [[5, 6]], s')" "unsent s' = []" by blast
  have addr: "length [7 :: u8] < 65000" "[7 :: u8] @ [0, 0] = [7, 0, 0]" by simp_all
  from ss2022_request_sent [OF sample_prims_ok addr(1) refl s w] w(1) show ?thesis unfolding addr(2) by blast
qed

end
