(* ===== verification/Links.thy ===== *)
theory Links
  imports Base64
begin

text \<open>
  The import of share links and WireGuard configurations: \<open>crates/core/src/model\<close>,
  \<open>parse/uri.rs\<close>, \<open>parse/link.rs\<close>, \<open>parse/awg.rs\<close> and the link lists of \<open>parse/subscription.rs\<close>. A
  \<open>BTreeMap\<close> of parameters is a map; a later insertion of a key replaces an earlier one. Links that are
  written down in the documented form, with whatever had to be escaped escaped, are read back.
\<close>

section \<open>Profiles\<close>

datatype protocol_kind = Vless | Shadowsocks | TrojanKind | Wireguard | AmneziaWg | Socks5 | Http | Hysteria2Kind | TuicKind

record server_profile =
  sp_name :: string
  sp_protocol :: protocol_kind
  sp_address :: string
  sp_port :: u16
  sp_params :: "string \<Rightarrow> string option"
  sp_tags :: "string list"

definition param :: "server_profile \<Rightarrow> string \<Rightarrow> string option" where
  "param p key = sp_params p key"

fun protocol_as_str :: "protocol_kind \<Rightarrow> string" where
  "protocol_as_str Vless = ''vless''"
| "protocol_as_str Shadowsocks = ''shadowsocks''"
| "protocol_as_str TrojanKind = ''trojan''"
| "protocol_as_str Wireguard = ''wireguard''"
| "protocol_as_str AmneziaWg = ''amneziawg''"
| "protocol_as_str Socks5 = ''socks5''"
| "protocol_as_str Http = ''http''"
| "protocol_as_str Hysteria2Kind = ''hysteria2''"
| "protocol_as_str TuicKind = ''tuic''"

section \<open>URIs\<close>

record uri =
  u_scheme :: string
  u_userinfo :: "string option"
  u_host :: string
  u_port :: "u16 option"
  u_query :: "(string \<times> string) list"
  u_fragment :: "string option"

definition uri_host_port :: "string \<Rightarrow> parse_error + string \<times> u16 option" where
  "uri_host_port s =
     (case strip_prefix ''['' s of
        Some rest \<Rightarrow>
          (case split_once (CHR '']'') rest of
             None \<Rightarrow> Inl (MalformedUrl s)
           | Some (host, r) \<Rightarrow>
               (case strip_prefix '':'' r of
                  Some p \<Rightarrow> rbind (ok_or (parse_u16 p) (InvalidPort p)) (\<lambda>port. Inr (host, Some port))
                | None \<Rightarrow> Inr (host, None)))
      | None \<Rightarrow>
          (case rsplit_once (CHR '':'') s of
             Some (host, p) \<Rightarrow>
               if host = [] then Inl MissingHost
               else rbind (ok_or (parse_u16 p) (InvalidPort p)) (\<lambda>port. Inr (host, Some port))
           | None \<Rightarrow> Inr (s, None)))"

definition query_pair :: "string \<Rightarrow> string \<times> string" where
  "query_pair pair =
     (case split_once (CHR ''='') pair of
        Some (k, v) \<Rightarrow> (percent_decode k, percent_decode v)
      | None \<Rightarrow> (percent_decode pair, []))"

definition parse_query :: "string \<Rightarrow> (string \<times> string) list" where
  "parse_query q = map query_pair (filter (\<lambda>p. p \<noteq> []) (split_on (CHR ''&'') q))"

definition cut_fragment :: "string \<Rightarrow> string \<times> string option" where
  "cut_fragment rest =
     (case split_once (CHR ''#'') rest of Some (a, b) \<Rightarrow> (a, Some (percent_decode b)) | None \<Rightarrow> (rest, None))"

definition uri_parse :: "string \<Rightarrow> parse_error + uri" where
  "uri_parse input =
     rbind (ok_or (find_str ''://'' input) (MalformedUrl input)) (\<lambda>idx.
       let scheme = to_ascii_lowercase (take idx input);
           (before_frag, fragment) = cut_fragment (drop (idx + 3) input);
           (authority, query_str) =
             (case split_once (CHR ''?'') before_frag of Some (a, q) \<Rightarrow> (a, Some q) | None \<Rightarrow> (before_frag, None));
           (userinfo, hostport) =
             (case rsplit_once (CHR ''@'') authority of Some (u, h) \<Rightarrow> (Some u, h) | None \<Rightarrow> (None, authority))
       in if hostport = [] then Inl MissingHost
          else rbind (uri_host_port hostport) (\<lambda>(host, port).
            Inr \<lparr>u_scheme = scheme, u_userinfo = userinfo, u_host = host, u_port = port,
                 u_query = (case query_str of Some q \<Rightarrow> parse_query q | None \<Rightarrow> []), u_fragment = fragment\<rparr>))"

section \<open>Links\<close>

definition query_to_params :: "(string \<times> string) list \<Rightarrow> string \<Rightarrow> string option" where
  "query_to_params query = foldl (\<lambda>m (k, v). m(k \<mapsto> v)) (\<lambda>_. None) query"

definition make_profile :: "protocol_kind \<Rightarrow> string \<Rightarrow> u16 \<Rightarrow> (string \<Rightarrow> string option) \<Rightarrow> string option \<Rightarrow> server_profile" where
  "make_profile kind host port params fragment =
     \<lparr>sp_name = (case fragment of Some f \<Rightarrow> if f \<noteq> [] then f else host @ '':'' @ show_nat (unat port)
                 | None \<Rightarrow> host @ '':'' @ show_nat (unat port)),
      sp_protocol = kind, sp_address = host, sp_port = port, sp_params = params, sp_tags = []\<rparr>"

definition parse_vless :: "string \<Rightarrow> parse_error + server_profile" where
  "parse_vless s = rbind (uri_parse s) (\<lambda>u.
     rbind (ok_or (u_userinfo u) (MissingField ''uuid'')) (\<lambda>uuid.
     rbind (ok_or (u_port u) MissingPort) (\<lambda>port.
       Inr (make_profile Vless (u_host u) port ((query_to_params (u_query u))(''uuid'' \<mapsto> percent_decode uuid)) (u_fragment u)))))"

definition parse_trojan :: "string \<Rightarrow> parse_error + server_profile" where
  "parse_trojan s = rbind (uri_parse s) (\<lambda>u.
     rbind (ok_or (u_userinfo u) (MissingField ''password'')) (\<lambda>password.
     rbind (ok_or (u_port u) MissingPort) (\<lambda>port.
       Inr (make_profile TrojanKind (u_host u) port ((query_to_params (u_query u))(''password'' \<mapsto> percent_decode password)) (u_fragment u)))))"

definition parse_hysteria2 :: "string \<Rightarrow> parse_error + server_profile" where
  "parse_hysteria2 s = rbind (uri_parse s) (\<lambda>u.
     rbind (ok_or (u_port u) MissingPort) (\<lambda>port.
       let params = query_to_params (u_query u);
           params = (case u_userinfo u of
              Some auth \<Rightarrow> if auth \<noteq> [] then params(''auth'' \<mapsto> percent_decode auth) else params | None \<Rightarrow> params)
       in Inr (make_profile Hysteria2Kind (u_host u) port params (u_fragment u))))"

definition parse_tuic :: "string \<Rightarrow> parse_error + server_profile" where
  "parse_tuic s = rbind (uri_parse s) (\<lambda>u.
     rbind (ok_or (u_userinfo u) (MissingField ''uuid'')) (\<lambda>userinfo.
     rbind (ok_or (u_port u) MissingPort) (\<lambda>port.
       let params = query_to_params (u_query u);
           params = (case split_once (CHR '':'') userinfo of
              Some (uuid, password) \<Rightarrow> params(''uuid'' \<mapsto> percent_decode uuid, ''password'' \<mapsto> percent_decode password)
            | None \<Rightarrow> params(''uuid'' \<mapsto> percent_decode userinfo))
       in Inr (make_profile TuicKind (u_host u) port params (u_fragment u)))))"

definition proxy_profile :: "string \<Rightarrow> protocol_kind \<Rightarrow> parse_error + server_profile" where
  "proxy_profile s kind = rbind (uri_parse s) (\<lambda>u.
     rbind (ok_or (u_port u) MissingPort) (\<lambda>port.
       let params = query_to_params (u_query u);
           params = (case u_userinfo u of
              Some ui \<Rightarrow>
                if ui = [] then params
                else (case split_once (CHR '':'') ui of
                   Some (user, pass) \<Rightarrow> params(''username'' \<mapsto> percent_decode user, ''password'' \<mapsto> percent_decode pass)
                 | None \<Rightarrow> params(''username'' \<mapsto> percent_decode ui))
            | None \<Rightarrow> params)
       in Inr (make_profile kind (u_host u) port params (u_fragment u))))"

definition decode_userinfo :: "string \<Rightarrow> parse_error + string" where
  "decode_userinfo u =
     (case decode_to_string u of
        Inr decoded \<Rightarrow>
          if CHR '':'' \<in> set decoded then Inr decoded
          else if CHR '':'' \<in> set (percent_decode u) then Inr (percent_decode u)
          else Inl (MissingField ''method:password'')
      | Inl _ \<Rightarrow>
          if CHR '':'' \<in> set (percent_decode u) then Inr (percent_decode u)
          else Inl (MissingField ''method:password''))"

definition ss_from_parts :: "string \<Rightarrow> string \<Rightarrow> parse_error + string \<times> string \<times> string \<times> u16" where
  "ss_from_parts creds hostport =
     rbind (ok_or (split_once (CHR '':'') creds) (MissingField ''method:password'')) (\<lambda>(method, password).
     let hostport = hd (split_on (CHR ''/'') hostport)
     in rbind (uri_host_port hostport) (\<lambda>(host, port_opt).
        rbind (ok_or port_opt MissingPort) (\<lambda>port. Inr (method, password, host, port))))"

definition ss_transport_param :: "(string \<Rightarrow> string option) \<Rightarrow> string \<Rightarrow> string \<Rightarrow> string option" where
  "ss_transport_param params pair =
     (let (k, v) = (case split_once (CHR ''='') pair of Some (k, v) \<Rightarrow> (k, percent_decode v) | None \<Rightarrow> (pair, []))
      in if k \<in> {''security'', ''sni'', ''alpn'', ''fp'', ''insecure'', ''allowInsecure'', ''allow_insecure''}
         then params((if k = ''allowInsecure'' then ''allow_insecure'' else k) \<mapsto> v)
         else params)"

definition parse_shadowsocks :: "string \<Rightarrow> parse_error + server_profile" where
  "parse_shadowsocks s =
     rbind (ok_or (find_str ''://'' s) (MalformedUrl s)) (\<lambda>idx.
       let (before_frag, fragment) = cut_fragment (drop (idx + 3) s);
           (body, query) =
             (case split_once (CHR ''?'') before_frag of Some (a, q) \<Rightarrow> (a, q) | None \<Rightarrow> (before_frag, []))
       in rbind (case rsplit_once (CHR ''@'') body of
                   Some (userinfo, hostport) \<Rightarrow> rbind (decode_userinfo userinfo) (\<lambda>creds. ss_from_parts creds hostport)
                 | None \<Rightarrow> rbind (decode_to_string body) (\<lambda>decoded.
                     rbind (ok_or (rsplit_once (CHR ''@'') decoded) (MalformedUrl decoded)) (\<lambda>(creds, hostport).
                       ss_from_parts creds hostport))) (\<lambda>(method, password, host, port).
            let params = (\<lambda>_. None)(''method'' \<mapsto> method, ''password'' \<mapsto> password);
                params = foldl ss_transport_param params (filter (\<lambda>p. p \<noteq> []) (split_on (CHR ''&'') query))
            in Inr (make_profile Shadowsocks host port params fragment)))"

definition parse_link :: "string \<Rightarrow> parse_error + server_profile" where
  "parse_link input =
     (let s = trim input
      in if s = [] then Inl EmptyInput
         else rbind (ok_or (find_str ''://'' s) (MalformedUrl s)) (\<lambda>idx.
           let scheme = to_ascii_lowercase (take idx s)
           in if scheme = ''vless'' then parse_vless s
              else if scheme = ''trojan'' then parse_trojan s
              else if scheme = ''ss'' then parse_shadowsocks s
              else if scheme = ''socks'' \<or> scheme = ''socks5'' then proxy_profile s Socks5
              else if scheme = ''http'' \<or> scheme = ''https'' then proxy_profile s Http
              else if scheme = ''hysteria2'' \<or> scheme = ''hy2'' then parse_hysteria2 s
              else if scheme = ''tuic'' then parse_tuic s
              else Inl (UnknownScheme scheme)))"

section \<open>Lists of links\<close>

definition decode_body :: "string \<Rightarrow> string" where
  "decode_body body =
     (let trimmed = trim body
      in if find_str ''://'' trimmed \<noteq> None then trimmed
         else case decode_to_string trimmed of
             Inr decoded \<Rightarrow> if find_str ''://'' decoded \<noteq> None then decoded else trimmed
           | Inl _ \<Rightarrow> trimmed)"

text \<open>The branch of \<open>parse_subscription\<close> for a body that is neither JSON nor a Clash file.\<close>

definition parse_link_list :: "string \<Rightarrow> (parse_error + server_profile) list" where
  "parse_link_list body =
     map parse_link (filter (\<lambda>l. l \<noteq> [] \<and> \<not> prefix ''#'' l \<and> \<not> prefix ''//'' l) (map trim (str_lines (decode_body body))))"

section \<open>WireGuard configurations\<close>

definition AMNEZIA_KEYS :: "string list" where
  "AMNEZIA_KEYS = [''jc'', ''jmin'', ''jmax'', ''s1'', ''s2'', ''h1'', ''h2'', ''h3'', ''h4'']"

definition normalize_key :: "string \<Rightarrow> string" where
  "normalize_key raw =
     (let lower = to_ascii_lowercase raw
      in if lower = ''privatekey'' then ''private_key''
         else if lower = ''publickey'' then ''public_key''
         else if lower = ''presharedkey'' then ''preshared_key''
         else if lower = ''allowedips'' then ''allowed_ips''
         else if lower = ''persistentkeepalive'' then ''persistent_keepalive''
         else lower)"

definition strip_comment :: "string \<Rightarrow> string" where
  "strip_comment line = takeWhile (\<lambda>c. c \<noteq> CHR ''#'' \<and> c \<noteq> CHR '';'') line"

fun awg_lines :: "(string \<Rightarrow> string option) \<Rightarrow> bool \<Rightarrow> string list \<Rightarrow> parse_error + (string \<Rightarrow> string option)" where
  "awg_lines params in_section [] = Inr params"
| "awg_lines params in_section (l # ls) =
     (let line = trim (strip_comment l)
      in if line = [] then awg_lines params in_section ls
         else case Option.bind (strip_prefix ''['' line) (strip_suffix '']'') of
             Some sec \<Rightarrow>
               awg_lines params (let n = to_ascii_lowercase (trim sec) in n = ''interface'' \<or> n = ''peer'') ls
           | None \<Rightarrow>
               if \<not> in_section then awg_lines params in_section ls
               else rbind (ok_or (split_once (CHR ''='') line) (MissingField ''key = value'')) (\<lambda>(key, value).
                 let key = normalize_key (trim key); value = trim value
                 in if value = [] then awg_lines params in_section ls
                    else awg_lines (params(key \<mapsto> value)) in_section ls))"

definition parse_awg_conf :: "string \<Rightarrow> parse_error + server_profile" where
  "parse_awg_conf input =
     (if trim input = [] then Inl EmptyInput
      else rbind (awg_lines (\<lambda>_. None) False (str_lines input)) (\<lambda>params.
        rbind (ok_or (params ''endpoint'') MissingHost) (\<lambda>endpoint.
        rbind (uri_host_port endpoint) (\<lambda>(address, port_opt).
        rbind (ok_or port_opt MissingPort) (\<lambda>port.
          Inr \<lparr>sp_name = address @ '':'' @ show_nat (unat port),
               sp_protocol = (if list_ex (\<lambda>k. params k \<noteq> None) AMNEZIA_KEYS then AmneziaWg else Wireguard),
               sp_address = address, sp_port = port, sp_params = params, sp_tags = []\<rparr>)))))"

section \<open>Links as they are written\<close>

text \<open>
  The reference writer: everything but letters, digits and the four unreserved signs is escaped; a
  host with a colon stands in brackets.
\<close>

definition unreserved :: "nat \<Rightarrow> bool" where
  "unreserved n \<longleftrightarrow> 48 \<le> n \<and> n \<le> 57 \<or> 65 \<le> n \<and> n \<le> 90 \<or> 97 \<le> n \<and> n \<le> 122 \<or> n \<in> {45, 46, 95, 126}"

definition escaped :: "string \<Rightarrow> string" where
  "escaped s = bytes_str (percent_encode (\<lambda>b. \<not> unreserved (unat b)) (str_bytes s))"

definition host_text :: "string \<Rightarrow> string" where
  "host_text host = (if CHR '':'' \<in> set host then ''['' @ host @ '']'' else host)"

fun query_text :: "(string \<times> string) list \<Rightarrow> string" where
  "query_text [] = []"
| "query_text [(k, v)] = escaped k @ ''='' @ escaped v"
| "query_text ((k, v) # q) = escaped k @ ''='' @ escaped v @ ''&'' @ query_text q"

definition link_text :: "string \<Rightarrow> string \<Rightarrow> string \<Rightarrow> u16 \<Rightarrow> (string \<times> string) list \<Rightarrow> string \<Rightarrow> string" where
  "link_text scheme userinfo host port query name =
     scheme @ ''://'' @ userinfo @ ''@'' @ host_text host @ '':'' @ show_nat (unat port)
     @ (if query = [] then [] else ''?'' @ query_text query) @ ''#'' @ escaped name"

text \<open>Characters of an escaped text, of a host, and of a whole link.\<close>

definition escaped_char :: "char \<Rightarrow> bool" where
  "escaped_char c \<longleftrightarrow> unreserved (of_char c) \<or> c = CHR ''%''"

definition host_ok :: "string \<Rightarrow> bool" where
  "host_ok host \<longleftrightarrow> host \<noteq> [] \<and> (\<forall>c \<in> set host. unreserved (of_char c) \<or> c = CHR '':'')"

lemma percent_hex_unreserved: "list_all (\<lambda>n. unreserved (unat (percent_hex (of_nat n)))) [0..<16]"
  by code_simp

lemma percent_hex_nibble: "n < 16 \<Longrightarrow> unreserved (unat (percent_hex n))"
proof -
  assume "n < 16"
  then have "unat n < 16" by (simp add: word_less_nat_alt)
  then have "unreserved (unat (percent_hex (of_nat (unat n))))"
    using percent_hex_unreserved by (simp add: list_all_iff del: of_nat_unat)
  then show ?thesis by simp
qed

lemma of_char_of_byte: "of_char (char_of (unat (b :: u8)) :: char) = unat b"
  by (simp add: take_bit_nat_def)

lemma percent_char: "char_of (37 :: nat) = CHR ''%''"
  by code_simp

lemma escaped_chars: "c \<in> set (escaped s) \<Longrightarrow> escaped_char c"
proof -
  assume "c \<in> set (escaped s)"
  then obtain b where b: "b \<in> set (percent_encode (\<lambda>b. \<not> unreserved (unat b)) (str_bytes s))" "c = char_of (unat b)"
    by (auto simp: escaped_def bytes_str_def)
  then have "unreserved (unat b) \<or> b = 0x25"
    using percent_hex_nibble nibbles(2,3) by (auto simp: percent_encode_def split: if_splits)
  then show ?thesis
    using of_char_of_byte [of b] b(2) percent_char by (auto simp: escaped_char_def)
qed

lemma escaped_decode: "is_str s \<Longrightarrow> percent_decode (escaped s) = s"
  unfolding escaped_def by (rule percent_roundtrip) (simp_all add: unreserved_def)

lemma escaped_char_not:
  "escaped_char c \<Longrightarrow> c \<notin> {CHR ''#'', CHR ''?'', CHR ''@'', CHR ''&'', CHR ''='', CHR ''['', CHR '']'', CHR '':'', CHR ''/''}"
  by (auto simp: escaped_char_def unreserved_def)

lemma escaped_free [simp]:
  "CHR ''#'' \<notin> set (escaped s)" "CHR ''?'' \<notin> set (escaped s)" "CHR ''@'' \<notin> set (escaped s)" "CHR ''&'' \<notin> set (escaped s)"
  "CHR ''='' \<notin> set (escaped s)" "CHR '':'' \<notin> set (escaped s)"
  using escaped_chars [of _ s] escaped_char_not by blast+

lemma query_text_free [simp]: "CHR ''#'' \<notin> set (query_text q)"
  by (induction q rule: query_text.induct) auto

lemma parse_query_text:
  "\<forall>(k, v) \<in> set q. is_str k \<and> is_str v \<Longrightarrow> q \<noteq> [] \<Longrightarrow> parse_query (query_text q) = q"
proof (induction q rule: query_text.induct)
  case (2 k v)
  then show ?case
    by (simp add: parse_query_def split_on_notin query_pair_def split_once_append escaped_decode)
next
  case (3 k v p q)
  have "split_on (CHR ''&'') (query_text ((k, v) # p # q)) = (escaped k @ ''='' @ escaped v) # split_on (CHR ''&'') (query_text (p # q))"
    using split_on_append [of "CHR ''&''" "escaped k @ ''='' @ escaped v" "query_text (p # q)"] by simp
  then show ?case
    using 3 by (simp add: parse_query_def query_pair_def split_once_append escaped_decode)
qed simp

lemma find_scheme: "CHR '':'' \<notin> set scheme \<Longrightarrow> find_str ''://'' (scheme @ ''://'' @ r) = Some (length scheme)"
  by (induction scheme) auto

lemma host_chars:
  assumes "host_ok host"
  shows "CHR ''@'' \<notin> set (host_text host)" "CHR ''#'' \<notin> set (host_text host)" "CHR ''?'' \<notin> set (host_text host)"
    "CHR '']'' \<notin> set host" "CHR ''['' \<notin> set host" "host_text host \<noteq> []"
  using assms by (auto simp: host_ok_def host_text_def unreserved_def)

lemma show_nat_plain: "\<not> (48 \<le> (of_char c :: nat) \<and> (of_char c :: nat) \<le> 57) \<Longrightarrow> c \<notin> set (show_nat n)"
  by (rule show_nat_no_sep)

lemma host_port_read:
  assumes "host_ok host"
  shows "uri_host_port (host_text host @ '':'' @ show_nat (unat port)) = Inr (host, Some (port :: u16))"
proof (cases "CHR '':'' \<in> set host")
  case True
  have "split_once (CHR '']'') (host @ CHR '']'' # '':'' @ show_nat (unat port)) = Some (host, '':'' @ show_nat (unat port))"
    by (rule split_once_append) (rule host_chars(4) [OF assms])
  then show ?thesis using True by (simp add: uri_host_port_def host_text_def strip_prefix_def parse_u16_show)
next
  case False
  have "\<not> prefix ''['' (host @ '':'' @ show_nat (unat port))"
    using assms host_chars(5) [OF assms] by (cases host) (auto simp: host_ok_def)
  moreover have "rsplit_once (CHR '':'') (host @ CHR '':'' # show_nat (unat port)) = Some (host, show_nat (unat port))"
    by (rule rsplit_once_append) (simp add: show_nat_plain)
  ultimately show ?thesis
    using False assms by (simp add: uri_host_port_def host_text_def strip_prefix_def parse_u16_show host_ok_def)
qed

text \<open>Every part of a link that was written is found again.\<close>

lemma uri_parse_link:
  assumes "CHR '':'' \<notin> set scheme" and "host_ok host" and "\<forall>(k, v) \<in> set query. is_str k \<and> is_str v" and "is_str name"
    and "CHR ''#'' \<notin> set userinfo" and "CHR ''?'' \<notin> set userinfo"
  shows "uri_parse (link_text scheme userinfo host port query name) = Inr \<lparr>u_scheme = to_ascii_lowercase scheme, u_userinfo = Some userinfo,
     u_host = host, u_port = Some port, u_query = query, u_fragment = Some name\<rparr>"
proof -
  define hp where "hp = host_text host @ '':'' @ show_nat (unat port)"
  define auth where "auth = userinfo @ CHR ''@'' # hp"
  define before where "before = (if query = [] then auth else auth @ CHR ''?'' # query_text query)"
  have link: "link_text scheme userinfo host port query name = scheme @ ''://'' @ before @ CHR ''#'' # escaped name"
    by (simp add: link_text_def before_def auth_def hp_def)
  have free: "CHR ''#'' \<notin> set hp" "CHR ''?'' \<notin> set hp" "CHR ''@'' \<notin> set hp"
    unfolding hp_def using host_chars [OF assms(2)] by (simp_all add: show_nat_plain)
  have "split_once (CHR ''#'') (before @ CHR ''#'' # escaped name) = Some (before, escaped name)"
    by (rule split_once_append) (use free assms(5) in \<open>auto simp: before_def auth_def\<close>)
  then have frag: "cut_fragment (before @ CHR ''#'' # escaped name) = (before, Some name)"
    using assms(4) by (simp add: cut_fragment_def escaped_decode)
  have no_query: "CHR ''?'' \<notin> set auth" using free assms(6) by (auto simp: auth_def)
  have auth: "(case split_once (CHR ''?'') before of Some (a, q) \<Rightarrow> (a, Some q) | None \<Rightarrow> (before, None))
      = (auth, if query = [] then None else Some (query_text query))"
    using split_once_append [OF no_query] no_query by (simp add: before_def split_once_None [symmetric])
  have user: "rsplit_once (CHR ''@'') auth = Some (userinfo, hp)"
    unfolding auth_def by (rule rsplit_once_append [OF free(3)])
  have "hp \<noteq> []" "uri_host_port hp = Inr (host, Some port)"
    using host_chars(6) [OF assms(2)] host_port_read [OF assms(2), of port] by (simp_all add: hp_def)
  then show ?thesis
    unfolding uri_parse_def link
    using find_scheme [OF assms(1), of "before @ CHR ''#'' # escaped name"] frag auth user parse_query_text [OF assms(3)]
    by (simp del: append.simps) (simp add: frag auth user to_ascii_lowercase_def)
qed

definition graphic :: "char \<Rightarrow> bool" where
  "graphic c \<longleftrightarrow> 33 \<le> (of_char c :: nat) \<and> (of_char c :: nat) \<le> 126"

lemma graphic_signs [simp]:
  "graphic (CHR ''='')" "graphic (CHR ''&'')" "graphic (CHR ''#'')" "graphic (CHR ''?'')" "graphic (CHR ''@'')" "graphic (CHR '':'')"
  "graphic (CHR ''/'')" "graphic (CHR ''['')" "graphic (CHR '']'')"
  by (simp_all add: graphic_def)

lemma white_space_not_graphic: "list_all (\<lambda>w. \<not> graphic (hd w) \<and> \<not> graphic (last w)) white_space"
  by code_simp

lemma trim_graphic:
  assumes "\<forall>c \<in> set s. graphic c"
  shows "trim s = s"
proof -
  have "ws_prefix s = None"
  proof (rule ccontr)
    assume "ws_prefix s \<noteq> None"
    then obtain w where w: "w \<in> set white_space" "prefix w s" by (auto simp: ws_prefix_def find_None_iff)
    then have "hd w \<in> set s" using white_space_nonempty [OF w(1)] by (auto simp: prefix_def)
    then show False using assms w(1) white_space_not_graphic by (auto simp: list_all_iff)
  qed
  moreover have "ws_suffix s = None"
  proof (rule ccontr)
    assume "ws_suffix s \<noteq> None"
    then obtain w where w: "w \<in> set white_space" "suffix w s" by (auto simp: ws_suffix_def find_None_iff)
    then have "last w \<in> set s" using white_space_nonempty [OF w(1)] by (auto simp: suffix_def)
    then show False using assms w(1) white_space_not_graphic by (auto simp: list_all_iff)
  qed
  ultimately show ?thesis by (simp add: trim_def trim_start.simps [of s] trim_end.simps [of s])
qed

lemma escaped_char_graphic: "escaped_char c \<Longrightarrow> graphic c"
  by (auto simp: escaped_char_def unreserved_def graphic_def)

lemma link_graphic:
  assumes "\<forall>c \<in> set scheme. graphic c" and "host_ok host" and "\<forall>c \<in> set userinfo. graphic c"
  shows "\<forall>c \<in> set (link_text scheme userinfo host port query name). graphic c"
proof -
  have e: "c \<in> set (escaped t) \<Longrightarrow> graphic c" for c t by (rule escaped_char_graphic [OF escaped_chars])
  have q: "\<forall>c \<in> set (query_text query). graphic c"
    by (induction query rule: query_text.induct) (auto simp: e)
  have h: "\<forall>c \<in> set (host_text host). graphic c" using assms(2) by (auto simp: host_text_def host_ok_def graphic_def unreserved_def)
  have d: "\<forall>c \<in> set (show_nat (unat port)). graphic c" using show_nat_digits by (fastforce simp: graphic_def)
  show ?thesis using assms(1,3) e q h d by (auto simp: link_text_def)
qed

text \<open>What the parser of each scheme sees of a link that was written.\<close>

definition link_schemes :: "string list" where
  "link_schemes = [''vless'', ''trojan'', ''socks5'', ''http'', ''hysteria2'', ''tuic'']"

definition link_ok :: "string \<Rightarrow> string \<Rightarrow> string \<Rightarrow> (string \<times> string) list \<Rightarrow> string \<Rightarrow> bool" where
  "link_ok scheme userinfo host query name \<longleftrightarrow> scheme \<in> set link_schemes \<and> host_ok host
     \<and> (\<forall>c \<in> set userinfo. escaped_char c \<or> c = CHR '':'') \<and> list_all (\<lambda>(k, v). is_str k \<and> is_str v) query \<and> is_str name"

lemma schemes_plain: "list_all (\<lambda>s. CHR '':'' \<notin> set s \<and> list_all graphic s \<and> to_ascii_lowercase s = s \<and> s \<noteq> []) link_schemes"
  by code_simp

lemma link_parts:
  fixes port :: u16
  assumes "link_ok scheme userinfo host query name"
  defines "l \<equiv> link_text scheme userinfo host port query name"
  shows "trim l = l" and "l \<noteq> []" and "find_str ''://'' l = Some (length scheme)" and "to_ascii_lowercase (take (length scheme) l) = scheme"
    and "uri_parse l = Inr \<lparr>u_scheme = scheme, u_userinfo = Some userinfo,
     u_host = host, u_port = Some port, u_query = query, u_fragment = Some name\<rparr>"
proof -
  have sc: "CHR '':'' \<notin> set scheme" "\<forall>c \<in> set scheme. graphic c" "to_ascii_lowercase scheme = scheme" "scheme \<noteq> []"
    using assms(1) schemes_plain by (auto simp: link_ok_def list_all_iff)
  have ui: "\<forall>c \<in> set userinfo. graphic c" "CHR ''#'' \<notin> set userinfo" "CHR ''?'' \<notin> set userinfo"
    using assms(1) escaped_char_graphic escaped_char_not by (auto simp: link_ok_def) (fastforce+)?
  have ok: "host_ok host" "\<forall>(k, v) \<in> set query. is_str k \<and> is_str v" "is_str name"
    using assms(1) by (auto simp: link_ok_def list_all_iff)
  show "trim l = l" unfolding l_def by (rule trim_graphic) (rule link_graphic [OF sc(2) ok(1) ui(1)])
  show "l \<noteq> []" using sc(4) by (simp add: l_def link_text_def)
  show "find_str ''://'' l = Some (length scheme)" unfolding l_def link_text_def by (rule find_scheme [OF sc(1)])
  show "to_ascii_lowercase (take (length scheme) l) = scheme" using sc(3) by (simp add: l_def link_text_def)
  show "uri_parse l = Inr \<lparr>u_scheme = scheme, u_userinfo = Some userinfo,
     u_host = host, u_port = Some port, u_query = query, u_fragment = Some name\<rparr>"
    unfolding l_def using uri_parse_link [OF sc(1) ok ui(2,3)] sc(3) by simp
qed

lemma vless_link_read:
  assumes "link_ok ''vless'' (escaped uuid) host query name" and "is_str uuid"
  shows "parse_link (link_text ''vless'' (escaped uuid) host port query name)
    = Inr (make_profile Vless host port ((query_to_params query)(''uuid'' \<mapsto> uuid)) (Some name))"
  using link_parts [OF assms(1), of port] assms(2) unfolding parse_link_def Let_def
  by (simp add: parse_vless_def escaped_decode)

lemma trojan_link_read:
  assumes "link_ok ''trojan'' (escaped password) host query name" and "is_str password"
  shows "parse_link (link_text ''trojan'' (escaped password) host port query name)
    = Inr (make_profile TrojanKind host port ((query_to_params query)(''password'' \<mapsto> password)) (Some name))"
  using link_parts [OF assms(1), of port] assms(2) unfolding parse_link_def Let_def
  by (simp add: parse_trojan_def escaped_decode)

lemma tuic_link_read:
  assumes "link_ok ''tuic'' (escaped uuid @ '':'' @ escaped password) host query name" and "is_str uuid" and "is_str password"
  shows "parse_link (link_text ''tuic'' (escaped uuid @ '':'' @ escaped password) host port query name)
    = Inr (make_profile TuicKind host port ((query_to_params query)(''uuid'' \<mapsto> uuid, ''password'' \<mapsto> password)) (Some name))"
  using link_parts [OF assms(1), of port] assms(2,3) split_once_append [of "CHR '':''" "escaped uuid" "escaped password"]
  unfolding parse_link_def Let_def by (simp add: parse_tuic_def escaped_decode)

lemma escaped_link_char: "c \<in> set (escaped s) \<Longrightarrow> escaped_char c \<or> c = CHR '':''"
  using escaped_chars by blast

end
