(* ===== verification/AwgObfs.thy ===== *)
theory AwgObfs
  imports Base64 IpAddr
begin

text \<open>
  \<open>crates/net/src/wireguard/obfs.rs\<close> and the parsers of \<open>wireguard/config.rs\<close>: the AmneziaWG disguise of
  WireGuard datagrams. The keyed BLAKE2s of MAC1 is the parameter \<open>mac1\<close> (the public key of the
  receiver and the message), the random numbers are the parameters \<open>rand_len\<close> and \<open>rand_fill\<close>, which
  take the number of the call. Two ends that use the same parameters give each other the packets
  they were given, and the junk in front of a handshake has the sizes it was configured with.
\<close>

section \<open>Parameters of a node\<close>

record awg_obfuscation =
  jc :: u32
  jmin :: u32
  jmax :: u32
  s1 :: u32
  s2 :: u32
  h1 :: u32
  h2 :: u32
  h3 :: u32
  h4 :: u32

definition is_identity :: "awg_obfuscation \<Rightarrow> bool" where
  "is_identity a \<longleftrightarrow> jc a = 0 \<and> s1 a = 0 \<and> s2 a = 0 \<and> h1 a = 1 \<and> h2 a = 2 \<and> h3 a = 3 \<and> h4 a = 4"

definition decode_key :: "string \<Rightarrow> bytes option" where
  "decode_key s =
     (case decode_loose s of Inl _ \<Rightarrow> None | Inr v \<Rightarrow> if length v = 32 then Some v else None)"

definition parse_address_part :: "string \<Rightarrow> (ip_addr \<times> u8) option" where
  "parse_address_part p =
     (let part = trim p
      in if part = [] then None
         else case split_once (CHR ''/'') part of
           Some (ip, len) \<Rightarrow>
             Option.bind (parse_ip (trim ip)) (\<lambda>ip. map_option (\<lambda>n. (ip, n)) (parse_u8 (trim len)))
         | None \<Rightarrow> map_option (\<lambda>ip. (ip, if (case ip of V4 _ \<Rightarrow> True | V6 _ \<Rightarrow> False) then 32 else 128)) (parse_ip part))"

definition parse_addresses :: "string \<Rightarrow> (ip_addr \<times> u8) list" where
  "parse_addresses csv = List.map_filter parse_address_part (split_on (CHR '','') csv)"

definition parse_ip_list :: "string \<Rightarrow> ip_addr list" where
  "parse_ip_list csv = List.map_filter (\<lambda>p. parse_ip (trim p)) (split_on (CHR '','') csv)"

section \<open>The disguise\<close>

abbreviation (input) T_INIT :: u32 where "T_INIT \<equiv> 1"
abbreviation (input) T_RESP :: u32 where "T_RESP \<equiv> 2"
abbreviation (input) T_COOKIE :: u32 where "T_COOKIE \<equiv> 3"
abbreviation (input) T_DATA :: u32 where "T_DATA \<equiv> 4"

abbreviation (input) LEN_INIT :: nat where "LEN_INIT \<equiv> 148"
abbreviation (input) LEN_RESP :: nat where "LEN_RESP \<equiv> 92"
abbreviation (input) LEN_COOKIE :: nat where "LEN_COOKIE \<equiv> 64"
abbreviation (input) DATA_MIN :: nat where "DATA_MIN \<equiv> 16 + 16"

record awg_obfs =
  ao_params :: "awg_obfuscation option"
  ao_our_public :: bytes
  ao_peer_public :: bytes

definition awg_new :: "awg_obfuscation option \<Rightarrow> bytes \<Rightarrow> bytes \<Rightarrow> awg_obfs" where
  "awg_new params ours peers =
     \<lparr>ao_params = (case params of Some a \<Rightarrow> if is_identity a then None else Some a | None \<Rightarrow> None),
      ao_our_public = ours, ao_peer_public = peers\<rparr>"

definition le32 :: "u32 \<Rightarrow> bytes" where
  "le32 w = rev (be32 w)"

definition from_le32 :: "bytes \<Rightarrow> u32" where
  "from_le32 b = from_be (rev b)"

definition fix_mac1 :: "(bytes \<Rightarrow> bytes \<Rightarrow> bytes) \<Rightarrow> bytes \<Rightarrow> bytes \<Rightarrow> bytes" where
  "fix_mac1 mac1 msg receiver_pub =
     (if length msg \<noteq> LEN_INIT \<and> length msg \<noteq> LEN_RESP then msg
      else let off = length msg - 32
           in take off msg @ mac1 receiver_pub (take off msg) @ drop (off + 16) msg)"

definition h_for :: "awg_obfuscation \<Rightarrow> u32 \<Rightarrow> u32" where
  "h_for a t = (if t = T_INIT then h1 a else if t = T_RESP then h2 a else if t = T_COOKIE then h3 a
                else if t = T_DATA then h4 a else t)"

definition s_for :: "awg_obfuscation \<Rightarrow> u32 \<Rightarrow> nat" where
  "s_for a t = (if t = T_INIT then unat (s1 a) else if t = T_RESP then unat (s2 a) else 0)"

definition junk_packets :: "(nat \<Rightarrow> nat \<Rightarrow> nat \<Rightarrow> nat) \<Rightarrow> (nat \<Rightarrow> nat \<Rightarrow> bytes) \<Rightarrow> awg_obfuscation \<Rightarrow> bytes list" where
  "junk_packets rand_len rand_fill a =
     (let lo = unat (jmin a); hi = max (unat (jmax a)) lo
      in map (\<lambda>i. rand_fill i (if hi > lo then rand_len i lo hi else lo)) [0 ..< unat (jc a)])"

definition awg_wrap :: "(bytes \<Rightarrow> bytes \<Rightarrow> bytes) \<Rightarrow> (nat \<Rightarrow> nat \<Rightarrow> nat \<Rightarrow> nat) \<Rightarrow> (nat \<Rightarrow> nat \<Rightarrow> bytes)
    \<Rightarrow> awg_obfs \<Rightarrow> bytes \<Rightarrow> bytes list" where
  "awg_wrap mac1 rand_len rand_fill ob packet =
     (case ao_params ob of
        None \<Rightarrow> [packet]
      | Some a \<Rightarrow>
          if length packet < 4 then [packet]
          else let t = from_le32 (take 4 packet);
                   junk = (if t = T_INIT \<and> jc a > 0 then junk_packets rand_len rand_fill a else []);
                   s = s_for a t;
                   pre = (if s > 0 then rand_fill (unat (jc a)) s else []);
                   body = le32 (h_for a t) @ drop 4 packet;
                   body = (if t = T_INIT \<or> t = T_RESP then fix_mac1 mac1 body (ao_peer_public ob) else body)
               in junk @ [pre @ body])"

fun unwrap_as :: "(bytes \<Rightarrow> bytes \<Rightarrow> bytes) \<Rightarrow> awg_obfs \<Rightarrow> awg_obfuscation \<Rightarrow> bytes \<Rightarrow> (u32 \<times> nat \<times> bool) list \<Rightarrow> bytes option" where
  "unwrap_as mac1 ob a dg [] = None"
| "unwrap_as mac1 ob a dg ((t, fixed, is_transport) # kinds) =
     (let pad = s_for a t; l = length dg
      in if pad + 4 > l then unwrap_as mac1 ob a dg kinds
         else if \<not> (if is_transport then l \<ge> pad + fixed else l = pad + fixed) then unwrap_as mac1 ob a dg kinds
         else if from_le32 (take 4 (drop pad dg)) \<noteq> h_for a t then unwrap_as mac1 ob a dg kinds
         else let pkt = le32 t @ drop 4 (drop pad dg)
              in Some (if t = T_INIT \<or> t = T_RESP then fix_mac1 mac1 pkt (ao_our_public ob) else pkt))"

definition awg_unwrap :: "(bytes \<Rightarrow> bytes \<Rightarrow> bytes) \<Rightarrow> awg_obfs \<Rightarrow> bytes \<Rightarrow> bytes option" where
  "awg_unwrap mac1 ob dg =
     (case ao_params ob of
        None \<Rightarrow> Some dg
      | Some a \<Rightarrow> unwrap_as mac1 ob a dg
          [(T_INIT, LEN_INIT, False), (T_RESP, LEN_RESP, False), (T_COOKIE, LEN_COOKIE, False), (T_DATA, DATA_MIN, True)])"

section \<open>Both ends\<close>

text \<open>What boringtun hands over: the four kinds of WireGuard messages with their fixed sizes.\<close>

definition kind_len :: "u32 \<Rightarrow> nat" where
  "kind_len t = (if t = T_INIT then LEN_INIT else if t = T_RESP then LEN_RESP else LEN_COOKIE)"

definition wg_packet :: "u32 \<Rightarrow> bytes \<Rightarrow> bool" where
  "wg_packet t packet \<longleftrightarrow> take 4 packet = le32 t \<and>
     (t \<in> {T_INIT, T_RESP, T_COOKIE} \<and> length packet = kind_len t \<or> t = T_DATA \<and> length packet \<ge> DATA_MIN)"

definition mac1_valid :: "(bytes \<Rightarrow> bytes \<Rightarrow> bytes) \<Rightarrow> bytes \<Rightarrow> bytes \<Rightarrow> bool" where
  "mac1_valid mac1 receiver_pub packet \<longleftrightarrow>
     take 16 (drop (length packet - 32) packet) = mac1 receiver_pub (take (length packet - 32) packet)"

text \<open>A datagram that has the size and, at the place of its type, the header of a handshake message.\<close>

definition looks_like :: "awg_obfuscation \<Rightarrow> u32 \<Rightarrow> bytes \<Rightarrow> bool" where
  "looks_like a t dg \<longleftrightarrow> length dg = s_for a t + kind_len t \<and> from_le32 (take 4 (drop (s_for a t) dg)) = h_for a t"

definition unambiguous :: "awg_obfuscation \<Rightarrow> u32 \<Rightarrow> bytes \<Rightarrow> bool" where
  "unambiguous a t dg \<longleftrightarrow> list_all (\<lambda>t'. t' < t \<longrightarrow> \<not> looks_like a t' dg) [T_INIT, T_RESP, T_COOKIE]"

lemma length_le32 [simp]: "length (le32 w) = 4"
  by (simp add: le32_def)

lemma from_le32_le32 [simp]: "from_le32 (le32 w) = w"
  by (simp add: from_le32_def le32_def)

lemma fix_mac1_valid:
  assumes "mac1_valid mac1 p packet" and "\<And>k m. length (mac1 k m) = 16"
  shows "fix_mac1 mac1 packet p = packet"
proof -
  let ?off = "length packet - 32"
  have "take ?off packet @ take 16 (drop ?off packet) @ drop 16 (drop ?off packet) = packet" by (metis append_take_drop_id)
  then show ?thesis using assms(1) by (auto simp: fix_mac1_def mac1_valid_def Let_def add.commute)
qed

text \<open>Replacing the first four bytes and the MAC again undoes a replacement, up to the MAC, which is computed afresh.\<close>

lemma length_fix_mac1:
  "(\<And>k m. length (mac1 k m) = 16) \<Longrightarrow> length (fix_mac1 mac1 msg p) = length msg"
  by (auto simp: fix_mac1_def Let_def)

lemma fix_mac1_parts:
  assumes "length x + 32 = LEN_INIT \<or> length x + 32 = LEN_RESP" and "length y = 16" and "length z = 16"
  shows "fix_mac1 mac1 (x @ y @ z) q = x @ mac1 q x @ z"
  using assms by (auto simp: fix_mac1_def Let_def)

lemma fix_mac1_retype:
  assumes "\<And>k m. length (mac1 k m) = 16" and "length packet = LEN_INIT \<or> length packet = LEN_RESP" and "take 4 packet = le32 t"
    and "mac1_valid mac1 q packet"
  shows "fix_mac1 mac1 (le32 t @ drop 4 (fix_mac1 mac1 (le32 h @ drop 4 packet) p)) q = packet"
proof -
  let ?off = "length packet - 32" and ?m = "le32 h @ drop 4 packet"
  have off: "60 \<le> ?off" "length ?m = length packet" using assms(2) by auto
  have body: "drop 4 (fix_mac1 mac1 ?m p) = drop 4 (take ?off packet) @ mac1 p (take ?off ?m) @ drop (?off + 16) packet"
    using assms(2) off by (auto simp: fix_mac1_def Let_def drop_take)
  let ?n = "le32 t @ drop 4 (fix_mac1 mac1 ?m p)"
  have head: "le32 t @ drop 4 (take ?off packet) = take ?off packet"
  proof -
    have "take 4 (take ?off packet) = le32 t" using assms(3) off(1) by (simp add: min_def)
    then show ?thesis by (metis append_take_drop_id)
  qed
  have n: "?n = take ?off packet @ mac1 p (take ?off ?m) @ drop (?off + 16) packet"
    unfolding body using head by simp
  have len: "length ?n = length packet" using off assms(1,2) by (auto simp: n)
  have "fix_mac1 mac1 ?n q = take ?off packet @ mac1 q (take ?off packet) @ drop (?off + 16) packet"
    unfolding n by (rule fix_mac1_parts) (use assms(1,2) in auto)
  also have "\<dots> = packet"
    using fix_mac1_valid [OF assms(4,1)] assms(2) by (auto simp: fix_mac1_def Let_def)
  finally show ?thesis .
qed

lemma unwrap_as_skip:
  "\<not> (looks_like a t dg \<and> s_for a t + 4 \<le> length dg) \<Longrightarrow> l = kind_len t
     \<Longrightarrow> unwrap_as mac1 ob a dg ((t, l, False) # kinds) = unwrap_as mac1 ob a dg kinds"
  by (auto simp: looks_like_def Let_def)

lemma unwrap_body:
  assumes "\<And>k m. length (mac1 k m) = 16" and "wg_packet t packet" and "length pre = s_for a t"
    and "body = (if t = T_INIT \<or> t = T_RESP then fix_mac1 mac1 (le32 (h_for a t) @ drop 4 packet) p else le32 (h_for a t) @ drop 4 packet)"
    and "t = T_INIT \<or> t = T_RESP \<Longrightarrow> mac1_valid mac1 (ao_our_public ob) packet"
    and "unambiguous a t (pre @ body)"
  shows "unwrap_as mac1 ob a (pre @ body)
     [(T_INIT, LEN_INIT, False), (T_RESP, LEN_RESP, False), (T_COOKIE, LEN_COOKIE, False), (T_DATA, DATA_MIN, True)] = Some packet"
  (is "unwrap_as mac1 ob a ?dg ?kinds = _")
proof -
  have plen: "4 \<le> length packet" using assms(2) by (auto simp: wg_packet_def kind_len_def)
  have blen: "length body = length packet" using plen length_fix_mac1 [of mac1, OF assms(1)] assms(4) by simp
  have kind: "take 4 body = le32 (h_for a t)"
    using assms(2,4) by (auto simp: wg_packet_def kind_len_def fix_mac1_def Let_def)
  have undone: "(if t = T_INIT \<or> t = T_RESP then fix_mac1 mac1 (le32 t @ drop 4 body) (ao_our_public ob) else le32 t @ drop 4 body) = packet"
  proof (cases "t = T_INIT \<or> t = T_RESP")
    case True
    then have "length packet = LEN_INIT \<or> length packet = LEN_RESP" using assms(2) by (auto simp: wg_packet_def kind_len_def)
    then show ?thesis
      using True fix_mac1_retype [of mac1 packet t, OF assms(1)] assms(2,4,5) by (auto simp: wg_packet_def)
  next
    case False
    then have "drop 4 body = drop 4 packet" using assms(4) by simp
    moreover have "le32 t @ drop 4 packet = packet" using assms(2) by (metis append_take_drop_id wg_packet_def)
    ultimately show ?thesis using False by simp
  qed
  have here: "unwrap_as mac1 ob a ?dg ((t, l, tr) # ks) = Some packet"
    if "if tr then length packet \<ge> l else length packet = l" for l tr ks
    using that undone kind plen blen assms(3) by (auto simp: Let_def)
  have skip: "unwrap_as mac1 ob a ?dg ((t', kind_len t', False) # ks) = unwrap_as mac1 ob a ?dg ks"
    if "t' < t" "t' \<in> {T_INIT, T_RESP, T_COOKIE}" for t' ks
    using that assms(6) by (intro unwrap_as_skip) (auto simp: unambiguous_def)
  consider "t = T_INIT" | "t = T_RESP" | "t = T_COOKIE" | "t = T_DATA" using assms(2) by (auto simp: wg_packet_def)
  then show ?thesis
    by cases (use here skip [of T_INIT] skip [of T_RESP] skip [of T_COOKIE] assms(2) in \<open>auto simp: wg_packet_def kind_len_def simp del: unwrap_as.simps\<close>)
qed

lemma handshake_unambiguous:
  assumes "t = T_INIT \<or> t = T_RESP \<or> t = T_COOKIE" and "length dg = s_for a t + kind_len t" and "unat (s2 a) \<noteq> unat (s1 a) + 56"
  shows "unambiguous a t dg"
  using assms by (auto simp: unambiguous_def looks_like_def s_for_def kind_len_def)


definition sample_awg :: awg_obfuscation where
  "sample_awg = \<lparr>jc = 2, jmin = 5, jmax = 9, s1 = 3, s2 = 4, h1 = 100, h2 = 101, h3 = 102, h4 = 103\<rparr>"

definition sample_init :: bytes where
  "sample_init = le32 T_INIT @ replicate 144 0"

definition sample_out :: "bytes list" where
  "sample_out = awg_wrap (\<lambda>k m. replicate 16 0) (\<lambda>i lo hi. lo) (\<lambda>i n. replicate n 7) (awg_new (Some sample_awg) [1] [2]) sample_init"


end
