(* ===== verification/FromProfile.thy ===== *)
theory FromProfile
  imports Links AwgObfs SsCrypto Socks HttpText
begin

text \<open>
  \<open>crates/net/src/from_profile.rs\<close>: from an imported profile to the configuration of an outbound, with
  the configuration types of \<open>outbound.rs\<close>, \<open>wireguard/config.rs\<close>, \<open>tuic/config.rs\<close> and
  \<open>hysteria2/config.rs\<close>. Composed with the link parser: a VLESS link that was written down becomes the
  outbound it describes.
\<close>

section \<open>Configurations\<close>

record reality_transport =
  rt_public_key :: string
  rt_short_id :: string
  rt_server_name :: string

datatype transport_kind = TcpTransport | RealityTransport reality_transport

record vless_config =
  vc_server :: string
  vc_uuid :: bytes
  vc_flow :: "string option"
  vc_transport :: transport_kind
  vc_encryption :: "string option"

record ss_tls =
  st_sni :: string
  st_alpn :: "string list"
  st_insecure :: bool

record shadowsocks_config =
  sc_server :: string
  sc_method :: ss_method
  sc_password :: string
  sc_tls :: "ss_tls option"

record trojan_config =
  tc_server :: string
  tc_password :: string
  tc_transport :: transport_kind

record wg_params =
  wg_endpoint :: string
  wg_private_key :: bytes
  wg_peer_public_key :: bytes
  wg_preshared_key :: "bytes option"
  wg_address :: "(ip_addr \<times> u8) list"
  wg_dns :: "ip_addr list"
  wg_persistent_keepalive :: "u16 option"
  wg_awg :: "awg_obfuscation option"

record tuic_params =
  tp_server :: string
  tp_uuid :: bytes
  tp_password :: string
  tp_sni :: "string option"
  tp_insecure :: bool
  tp_alpn :: "bytes list"

record hysteria2_params =
  hp_server :: string
  hp_auth :: string
  hp_sni :: "string option"
  hp_insecure :: bool

datatype outbound_config =
    CSocks5 socks5_config
  | CHttp http_config
  | CVless vless_config
  | CShadowsocks shadowsocks_config
  | CTrojan trojan_config
  | CWireguard wg_params
  | CTuic tuic_params
  | CHysteria2 hysteria2_params

datatype profile_error = PMissingField string | BadUuid | UnsupportedMethod string | BadKey string | Unsupported protocol_kind

section \<open>The conversion\<close>

definition parse_u32 :: "string \<Rightarrow> u32 option" where
  "parse_u32 s = map_option of_nat (parse_uint 4294967296 s)"

definition or_else :: "'a option \<Rightarrow> 'a option \<Rightarrow> 'a option" where
  "or_else a b = (case a of Some x \<Rightarrow> Some x | None \<Rightarrow> b)"

definition unwrap_or :: "'a option \<Rightarrow> 'a \<Rightarrow> 'a" where
  "unwrap_or a d = (case a of Some x \<Rightarrow> x | None \<Rightarrow> d)"

definition csv_items :: "string \<Rightarrow> string list" where
  "csv_items s = filter (\<lambda>a. a \<noteq> []) (map trim (split_on (CHR '','') s))"

definition shadowsocks_from :: "server_profile \<Rightarrow> string \<Rightarrow> profile_error + outbound_config" where
  "shadowsocks_from p server =
     rbind (ok_or (param p ''method'') (PMissingField ''method'')) (\<lambda>method_name.
     rbind (ok_or (method_from_name method_name) (UnsupportedMethod method_name)) (\<lambda>method.
     rbind (ok_or (param p ''password'') (PMissingField ''password'')) (\<lambda>password.
       let tls =
         (if param p ''security'' = Some ''tls''
          then Some \<lparr>st_sni = (case param p ''sni'' of Some s \<Rightarrow> if s \<noteq> [] then s else sp_address p | None \<Rightarrow> sp_address p),
                     st_alpn = (case param p ''alpn'' of Some s \<Rightarrow> csv_items s | None \<Rightarrow> []),
                     st_insecure = (or_else (param p ''allow_insecure'') (param p ''insecure'') \<notin> {Some ''0'', Some ''false''})\<rparr>
          else None)
       in Inr (CShadowsocks \<lparr>sc_server = server, sc_method = method, sc_password = password, sc_tls = tls\<rparr>))))"

definition vless_from :: "server_profile \<Rightarrow> string \<Rightarrow> profile_error + outbound_config" where
  "vless_from p server =
     rbind (ok_or (param p ''uuid'') (PMissingField ''uuid'')) (\<lambda>uuid_str.
     rbind (ok_or (parse_uuid uuid_str) BadUuid) (\<lambda>uuid.
       let transport =
         (if param p ''security'' = Some ''reality''
          then RealityTransport \<lparr>rt_public_key = unwrap_or (param p ''pbk'') [], rt_short_id = unwrap_or (param p ''sid'') [],
                 rt_server_name = unwrap_or (or_else (param p ''sni'') (param p ''host'')) []\<rparr>
          else TcpTransport);
         encryption = (case param p ''encryption'' of Some e \<Rightarrow> if e \<noteq> [] \<and> e \<noteq> ''none'' then Some e else None | None \<Rightarrow> None)
       in Inr (CVless \<lparr>vc_server = server, vc_uuid = uuid, vc_flow = param p ''flow'', vc_transport = transport, vc_encryption = encryption\<rparr>)))"

definition trojan_from :: "server_profile \<Rightarrow> string \<Rightarrow> profile_error + outbound_config" where
  "trojan_from p server =
     rbind (ok_or (param p ''password'') (PMissingField ''password'')) (\<lambda>password.
       Inr (CTrojan \<lparr>tc_server = server, tc_password = password, tc_transport = TcpTransport\<rparr>))"

definition awg_number :: "server_profile \<Rightarrow> string \<Rightarrow> u32 \<Rightarrow> u32" where
  "awg_number p k d = unwrap_or (Option.bind (param p k) parse_u32) d"

definition wireguard_from :: "server_profile \<Rightarrow> string \<Rightarrow> profile_error + outbound_config" where
  "wireguard_from p server =
     rbind (ok_or (param p ''private_key'') (PMissingField ''private_key'')) (\<lambda>pk.
     rbind (ok_or (decode_key pk) (BadKey ''private_key'')) (\<lambda>private_key.
     rbind (ok_or (param p ''public_key'') (PMissingField ''public_key'')) (\<lambda>pub.
     rbind (ok_or (decode_key pub) (BadKey ''public_key'')) (\<lambda>peer_public_key.
     rbind (case param p ''preshared_key'' of
              Some s \<Rightarrow> rbind (ok_or (decode_key s) (BadKey ''preshared_key'')) (\<lambda>k. Inr (Some k))
            | None \<Rightarrow> Inr None) (\<lambda>preshared_key.
     rbind (ok_or (param p ''address'') (PMissingField ''address'')) (\<lambda>addr.
       let address = parse_addresses addr
       in if address = [] then Inl (PMissingField ''address'')
          else let
            dns = (case param p ''dns'' of Some s \<Rightarrow> parse_ip_list s | None \<Rightarrow> []);
            keepalive = Option.bind (param p ''persistent_keepalive'') parse_u16;
            awg = (if sp_protocol p = AmneziaWg
                   then Some \<lparr>jc = awg_number p ''jc'' 0, jmin = awg_number p ''jmin'' 0, jmax = awg_number p ''jmax'' 0,
                          s1 = awg_number p ''s1'' 0, s2 = awg_number p ''s2'' 0, h1 = awg_number p ''h1'' 1,
                          h2 = awg_number p ''h2'' 2, h3 = awg_number p ''h3'' 3, h4 = awg_number p ''h4'' 4\<rparr>
                   else None)
          in Inr (CWireguard \<lparr>wg_endpoint = server, wg_private_key = private_key, wg_peer_public_key = peer_public_key,
                 wg_preshared_key = preshared_key, wg_address = address, wg_dns = dns,
                 wg_persistent_keepalive = keepalive, wg_awg = awg\<rparr>)))))))"

definition tuic_from :: "server_profile \<Rightarrow> string \<Rightarrow> profile_error + outbound_config" where
  "tuic_from p server =
     rbind (ok_or (param p ''uuid'') (PMissingField ''uuid'')) (\<lambda>uuid_str.
     rbind (ok_or (parse_uuid uuid_str) BadUuid) (\<lambda>uuid.
     rbind (ok_or (param p ''password'') (PMissingField ''password'')) (\<lambda>password.
       let insecure = or_else (param p ''insecure'') (param p ''allow_insecure'') \<in> {Some ''1'', Some ''true''};
           alpn = (case param p ''alpn'' of
              Some s \<Rightarrow> if csv_items s \<noteq> [] then map str_bytes (csv_items s) else [str_bytes ''h3''] | None \<Rightarrow> [str_bytes ''h3''])
       in Inr (CTuic \<lparr>tp_server = server, tp_uuid = uuid, tp_password = password, tp_sni = param p ''sni'',
              tp_insecure = insecure, tp_alpn = alpn\<rparr>))))"

definition hysteria2_from :: "server_profile \<Rightarrow> string \<Rightarrow> profile_error + outbound_config" where
  "hysteria2_from p server =
     (if (case param p ''obfs'' of Some ob \<Rightarrow> ob \<noteq> [] | None \<Rightarrow> False) then Inl (Unsupported Hysteria2Kind)
      else rbind (ok_or (or_else (param p ''auth'') (param p ''password'')) (PMissingField ''auth'')) (\<lambda>auth.
        Inr (CHysteria2 \<lparr>hp_server = server, hp_auth = auth, hp_sni = param p ''sni'',
          hp_insecure = (or_else (param p ''insecure'') (param p ''allow_insecure'') \<in> {Some ''1'', Some ''true''})\<rparr>)))"

definition outbound_from_profile :: "server_profile \<Rightarrow> profile_error + outbound_config" where
  "outbound_from_profile p =
     (let server = sp_address p @ '':'' @ show_nat (unat (sp_port p))
      in case sp_protocol p of
           Shadowsocks \<Rightarrow> shadowsocks_from p server
         | Vless \<Rightarrow> vless_from p server
         | TrojanKind \<Rightarrow> trojan_from p server
         | Socks5 \<Rightarrow> Inr (CSocks5 \<lparr>s5_server = server, s5_username = param p ''username'', s5_password = param p ''password''\<rparr>)
         | Http \<Rightarrow> Inr (CHttp \<lparr>hc_server = server, hc_username = param p ''username'', hc_password = param p ''password''\<rparr>)
         | Wireguard \<Rightarrow> wireguard_from p server
         | AmneziaWg \<Rightarrow> wireguard_from p server
         | TuicKind \<Rightarrow> tuic_from p server
         | Hysteria2Kind \<Rightarrow> hysteria2_from p server)"

section \<open>Keys of the 2022 methods\<close>

text \<open>\<open>parse_ss2022_psks\<close> of \<open>outbound.rs\<close>: the password is a chain of Base64 keys, the last one of the session.\<close>

fun decode_psks :: "nat \<Rightarrow> string list \<Rightarrow> io_error + bytes list" where
  "decode_psks key_length [] = Inr []"
| "decode_psks key_length (part # parts) =
     (case decode_loose part of
        Inl _ \<Rightarrow> Inl (InvalidData ''ss2022: PSK is not base64'')
      | Inr raw \<Rightarrow> if length raw \<noteq> key_length then Inl (InvalidData ''ss2022: PSK length'')
          else rbind (decode_psks key_length parts) (\<lambda>psks. Inr (raw # psks)))"

definition parse_ss2022_psks :: "string \<Rightarrow> nat \<Rightarrow> io_error + bytes \<times> bytes list" where
  "parse_ss2022_psks password key_length =
     rbind (decode_psks key_length (split_on (CHR '':'') password)) (\<lambda>psks.
       if psks = [] then Inl (InvalidData ''ss2022: empty password'') else Inr (last psks, butlast psks))"

text \<open>\<open>encode_ss_address\<close>: the address a Shadowsocks stream starts with. The length byte of a name is \<open>len as u8\<close>.\<close>

fun encode_ss_address :: "target \<Rightarrow> bytes" where
  "encode_ss_address (Domain host port) = [0x03, of_nat (length (str_bytes host))] @ str_bytes host @ be16 port"
| "encode_ss_address (Socket (SockV4 ip port)) = [0x01] @ be32 ip @ be16 port"
| "encode_ss_address (Socket (SockV6 ip port _ _)) = [0x04] @ be128 ip @ be16 port"

section \<open>What a configuration may rely on\<close>

text \<open>
  The promises of the configuration types: the constructor is that of the protocol, keys and
  identifiers have their lengths, a WireGuard node has an address, disguise parameters are there
  exactly for AmneziaWG, an ALPN list is not empty.
\<close>

fun config_ok :: "server_profile \<Rightarrow> outbound_config \<Rightarrow> bool" where
  "config_ok p (CSocks5 c) \<longleftrightarrow> sp_protocol p = Socks5"
| "config_ok p (CHttp c) \<longleftrightarrow> sp_protocol p = Http"
| "config_ok p (CVless c) \<longleftrightarrow> sp_protocol p = Vless \<and> length (vc_uuid c) = 16
     \<and> vc_encryption c \<noteq> Some [] \<and> vc_encryption c \<noteq> Some ''none''"
| "config_ok p (CShadowsocks c) \<longleftrightarrow> sp_protocol p = Shadowsocks \<and> [] \<notin> (case sc_tls c of Some t \<Rightarrow> set (st_alpn t) | None \<Rightarrow> {})"
| "config_ok p (CTrojan c) \<longleftrightarrow> sp_protocol p = TrojanKind"
| "config_ok p (CWireguard c) \<longleftrightarrow> (sp_protocol p = Wireguard \<and> wg_awg c = None \<or> sp_protocol p = AmneziaWg \<and> wg_awg c \<noteq> None)
     \<and> length (wg_private_key c) = 32 \<and> length (wg_peer_public_key c) = 32
     \<and> (case wg_preshared_key c of Some k \<Rightarrow> length k = 32 | None \<Rightarrow> True) \<and> wg_address c \<noteq> []"
| "config_ok p (CTuic c) \<longleftrightarrow> sp_protocol p = TuicKind \<and> length (tp_uuid c) = 16 \<and> tp_alpn c \<noteq> [] \<and> [] \<notin> set (tp_alpn c)"
| "config_ok p (CHysteria2 c) \<longleftrightarrow> sp_protocol p = Hysteria2Kind"

lemma hex_pairs_length: "hex_pairs s = Some b \<Longrightarrow> length b = length s div 2"
  by (induction s arbitrary: b rule: hex_pairs.induct) (auto split: option.splits)

lemma parse_uuid_length: "parse_uuid s = Some u \<Longrightarrow> length u = 16"
  by (auto simp: parse_uuid_def Let_def dest: hex_pairs_length split: if_splits)

lemma decode_key_length: "decode_key s = Some k \<Longrightarrow> length k = 32"
  by (auto simp: decode_key_def split: sum.splits if_splits)

lemma csv_items_nonempty: "[] \<notin> set (csv_items s)"
  by (simp add: csv_items_def)

lemma Nil_eq_str_bytes: "[] = str_bytes s \<longleftrightarrow> s = []"
  by (metis str_bytes_eq_Nil)

text \<open>C38. Whatever profile was imported, an outbound that is made of it has the shape its protocol promises: the right kind,
  identifiers of 16 bytes, WireGuard keys of 32 bytes, at least one address, disguise parameters for AmneziaWG only.\<close>

theorem outbound_well_formed:
  assumes "outbound_from_profile p = Inr cfg"
  shows "config_ok p cfg"
proof (cases "sp_protocol p")
  case Vless
  then show ?thesis using assms
    by (auto simp: outbound_from_profile_def vless_from_def Let_def parse_uuid_length split: option.splits if_splits)
next
  case Shadowsocks
  then show ?thesis using assms
    by (auto simp: outbound_from_profile_def shadowsocks_from_def Let_def csv_items_nonempty split: option.splits if_splits)
next
  case TuicKind
  then show ?thesis using assms
    by (auto simp: outbound_from_profile_def tuic_from_def Let_def parse_uuid_length csv_items_def Nil_eq_str_bytes split: option.splits if_splits)
next
  case Wireguard
  then show ?thesis using assms
    by (auto simp: outbound_from_profile_def wireguard_from_def Let_def decode_key_length split: option.splits if_splits)
next
  case AmneziaWg
  then show ?thesis using assms
    by (auto simp: outbound_from_profile_def wireguard_from_def Let_def decode_key_length split: option.splits if_splits)
qed (use assms in \<open>auto simp: outbound_from_profile_def trojan_from_def hysteria2_from_def split: if_splits\<close>)

section \<open>From a link to an outbound\<close>

definition reality_query :: "string \<Rightarrow> string \<Rightarrow> string \<Rightarrow> string \<Rightarrow> (string \<times> string) list" where
  "reality_query pbk sid sni flow =
     [(''encryption'', ''none''), (''security'', ''reality''), (''pbk'', pbk), (''sid'', sid), (''sni'', sni), (''flow'', flow)]"

text \<open>C27. A VLESS share link with REALITY, written with every reserved character escaped, is imported as the outbound it describes:
  its server, identifier, flow, public key, short identifier and server name, with no further encryption layer.\<close>

theorem vless_link_to_outbound:
  assumes "host_ok host" and "is_str name" and "is_str uuid_text" and "parse_uuid uuid_text = Some uuid"
    and "is_str pbk" and "is_str sid" and "is_str sni" and "is_str flow"
  shows "rbind (map_sum (\<lambda>_. Unsupported Vless) id (parse_link (link_text ''vless'' (escaped uuid_text) host port (reality_query pbk sid sni flow) name)))
       outbound_from_profile
    = Inr (CVless \<lparr>vc_server = host @ '':'' @ show_nat (unat port), vc_uuid = uuid, vc_flow = Some flow,
        vc_transport = RealityTransport \<lparr>rt_public_key = pbk, rt_short_id = sid, rt_server_name = sni\<rparr>, vc_encryption = None\<rparr>)"
proof -
  have lits: "list_all is_str [''encryption'', ''none'', ''security'', ''reality'', ''pbk'', ''sid'', ''sni'', ''flow'']"
    unfolding is_str_def by code_simp
  have "link_ok ''vless'' (escaped uuid_text) host (reality_query pbk sid sni flow) name"
    using assms lits escaped_link_char by (auto simp: link_ok_def link_schemes_def reality_query_def)
  from vless_link_read [OF this assms(3), of port] show ?thesis
    using assms(4) by (simp add: outbound_from_profile_def make_profile_def vless_from_def param_def query_to_params_def
        reality_query_def unwrap_or_def or_else_def)
qed

text \<open>A link that asks for plain TLS instead of REALITY gives an outbound over TCP without any TLS, and so does every Trojan link.\<close>

lemma tls_links_are_plain_tcp:
  "sp_protocol p = Vless \<Longrightarrow> param p ''security'' = Some ''tls'' \<Longrightarrow> outbound_from_profile p = Inr (CVless c) \<Longrightarrow> vc_transport c = TcpTransport"
  "sp_protocol p = TrojanKind \<Longrightarrow> outbound_from_profile p = Inr (CTrojan t) \<Longrightarrow> tc_transport t = TcpTransport"
  by (auto simp: outbound_from_profile_def vless_from_def trojan_from_def Let_def)

lemma psks_chain:
  "parse_ss2022_psks password n = Inr (session, ids) \<Longrightarrow> length session = n \<and> (\<forall>k \<in> set ids. length k = n)
     \<and> Suc (length ids) = length (split_on (CHR '':'') password)"
proof -
  have d: "decode_psks n ps = Inr ks \<Longrightarrow> length ks = length ps \<and> (\<forall>k \<in> set ks. length k = n)" for ps ks
    by (induction ps arbitrary: ks) (auto split: sum.splits if_splits)
  assume a: "parse_ss2022_psks password n = Inr (session, ids)"
  then obtain ks where k: "decode_psks n (split_on (CHR '':'') password) = Inr ks" "ks \<noteq> []" "session = last ks" "ids = butlast ks"
    by (auto simp: parse_ss2022_psks_def split: if_splits)
  show ?thesis using d [OF k(1)] k(2-) by (auto dest: in_set_butlastD)
qed

section \<open>Instances\<close>

definition sample_uuid :: string where
  "sample_uuid = ''00112233-4455-6677-8899-aabbccddeeff''"

lemma sample_uuid_facts: "is_str sample_uuid \<and> parse_uuid sample_uuid
    = Some [0x00, 0x11, 0x22, 0x33, 0x44, 0x55, 0x66, 0x77, 0x88, 0x99, 0xaa, 0xbb, 0xcc, 0xdd, 0xee, 0xff]"
  unfolding is_str_def by code_simp

theorem vless_link_to_outbound_witness:
  "rbind (map_sum (\<lambda>_. Unsupported Vless) id (parse_link (link_text ''vless'' (escaped sample_uuid) ''2001:db8::1'' 443
       (reality_query ''k-y'' ''0a'' ''ya.ru'' ''xtls-rprx-vision'') ''My #1 node'')))
       outbound_from_profile
    = Inr (CVless \<lparr>vc_server = ''2001:db8::1:443'',
        vc_uuid = [0x00, 0x11, 0x22, 0x33, 0x44, 0x55, 0x66, 0x77, 0x88, 0x99, 0xaa, 0xbb, 0xcc, 0xdd, 0xee, 0xff],
        vc_flow = Some ''xtls-rprx-vision'',
        vc_transport = RealityTransport \<lparr>rt_public_key = ''k-y'', rt_short_id = ''0a'', rt_server_name = ''ya.ru''\<rparr>, vc_encryption = None\<rparr>)"
proof -
  have strs: "is_str ''My #1 node''" "is_str ''k-y''" "is_str ''0a''" "is_str ''ya.ru''" "is_str ''xtls-rprx-vision''"
    unfolding is_str_def by code_simp+
  have host: "host_ok ''2001:db8::1''" unfolding host_ok_def by code_simp
  have port: "''2001:db8::1'' @ '':'' @ show_nat (unat (443 :: u16)) = ''2001:db8::1:443''" by code_simp
  from vless_link_to_outbound [OF host strs(1) conjunct1 [OF sample_uuid_facts] conjunct2 [OF sample_uuid_facts] strs(2-5), of 443]
  show ?thesis by (simp only: port)
qed

theorem outbound_well_formed_witness:
  "\<exists>p cfg. sp_protocol p = Vless \<and> outbound_from_profile p = Inr cfg \<and> config_ok p cfg"
proof -
  let ?p = "make_profile Vless ''h'' 443 ((\<lambda>_. None)(''uuid'' \<mapsto> sample_uuid)) None"
  have "\<exists>cfg. outbound_from_profile ?p = Inr cfg"
    using sample_uuid_facts by (simp add: outbound_from_profile_def make_profile_def vless_from_def param_def Let_def)
  then obtain cfg where "outbound_from_profile ?p = Inr cfg" ..
  with outbound_well_formed [OF this] show ?thesis
    by (intro exI [of _ ?p] exI [of _ cfg]) (simp add: make_profile_def)
qed

end
