(* ===== verification/VlessMask.thy ===== *)
theory VlessMask
  imports SsStream
begin

text \<open>
  \<open>crates/net/src/vless_encryption/aead.rs\<close> and \<open>xor.rs\<close>: sealing with a counter, and the mask over
  record headers of the mode \<open>random\<close>. BLAKE3, the two AEADs and AES in counter mode are the record
  \<open>vless_prims\<close>, with the laws \<open>vless_prims_ok\<close>. The loops that mask and unmask are shown to work byte by
  byte, whatever pieces the bytes come in, and to undo each other.
\<close>

section \<open>The primitives\<close>

record vless_prims =
  derive_key :: "bytes \<Rightarrow> bytes \<Rightarrow> bytes"
  seal_aad :: "bool \<Rightarrow> bytes \<Rightarrow> bytes \<Rightarrow> bytes \<Rightarrow> bytes \<Rightarrow> bytes option"
  open_aad :: "bool \<Rightarrow> bytes \<Rightarrow> bytes \<Rightarrow> bytes \<Rightarrow> bytes \<Rightarrow> bytes option"
  keystream :: "bytes \<Rightarrow> bytes \<Rightarrow> nat \<Rightarrow> u8"

definition vless_prims_ok :: "vless_prims \<Rightarrow> bool" where
  "vless_prims_ok P \<longleftrightarrow>
     (\<forall>aes k n aad pt. length pt < 2 ^ 36 - 31 \<longrightarrow>
        (\<exists>ct. seal_aad P aes k n aad pt = Some ct \<and> length ct = length pt + 16 \<and> open_aad P aes k n aad ct = Some pt))
     \<and> (\<forall>aes k n aad ct pt. open_aad P aes k n aad ct = Some pt \<longrightarrow> length ct = length pt + 16)"

section \<open>Sealing with a counter\<close>

record aead =
  ae_aes :: bool
  ae_key :: bytes
  ae_nonce :: bytes

definition MAX_NONCE :: bytes where
  "MAX_NONCE = replicate 12 255"

definition aead_new :: "vless_prims \<Rightarrow> bytes \<Rightarrow> bytes \<Rightarrow> bool \<Rightarrow> aead" where
  "aead_new P ctx key use_aes = \<lparr>ae_aes = use_aes, ae_key = derive_key P ctx key, ae_nonce = replicate 12 0\<rparr>"

definition at_max :: "aead \<Rightarrow> bool" where
  "at_max a \<longleftrightarrow> ae_nonce a = MAX_NONCE"

text \<open>\<open>increase\<close> adds one to the last byte and carries towards the first.\<close>

definition increase :: "bytes \<Rightarrow> bytes" where
  "increase n = rev (incr_nonce (rev n))"

definition aead_enc :: "vless_prims \<Rightarrow> aead \<Rightarrow> bytes \<Rightarrow> bytes \<Rightarrow> bytes \<Rightarrow> io_error + bytes" where
  "aead_enc P a nonce pt aad = ok_or (seal_aad P (ae_aes a) (ae_key a) nonce aad pt) Panic"

definition aead_dec :: "vless_prims \<Rightarrow> aead \<Rightarrow> bytes \<Rightarrow> bytes \<Rightarrow> bytes \<Rightarrow> io_error + bytes" where
  "aead_dec P a nonce ct aad = ok_or (open_aad P (ae_aes a) (ae_key a) nonce aad ct) (IoOther ''vless: open'')"

definition aead_seal :: "vless_prims \<Rightarrow> aead \<Rightarrow> bytes \<Rightarrow> bytes \<Rightarrow> aead \<times> (io_error + bytes)" where
  "aead_seal P a pt aad = (let n = increase (ae_nonce a) in (a\<lparr>ae_nonce := n\<rparr>, aead_enc P a n pt aad))"

definition aead_open :: "vless_prims \<Rightarrow> aead \<Rightarrow> bytes \<Rightarrow> bytes \<Rightarrow> aead \<times> (io_error + bytes)" where
  "aead_open P a ct aad = (let n = increase (ae_nonce a) in (a\<lparr>ae_nonce := n\<rparr>, aead_dec P a n ct aad))"

section \<open>Masking of headers\<close>

record ctr =
  ctr_key :: bytes
  ctr_iv :: bytes
  ctr_pos :: nat

definition new_ctr :: "vless_prims \<Rightarrow> bytes \<Rightarrow> bytes \<Rightarrow> ctr" where
  "new_ctr P key iv = \<lparr>ctr_key = derive_key P (str_bytes ''VLESS'') key, ctr_iv = iv, ctr_pos = 0\<rparr>"

definition mask :: "vless_prims \<Rightarrow> ctr \<Rightarrow> u8" where
  "mask P c = keystream P (ctr_key c) (ctr_iv c) (ctr_pos c)"

abbreviation ctr_on :: "ctr \<Rightarrow> ctr" where
  "ctr_on c \<equiv> c\<lparr>ctr_pos := Suc (ctr_pos c)\<rparr>"

fun apply_keystream :: "vless_prims \<Rightarrow> ctr \<Rightarrow> bytes \<Rightarrow> bytes \<times> ctr" where
  "apply_keystream P c [] = ([], c)"
| "apply_keystream P c (x # xs) = (let (ys, c') = apply_keystream P (ctr_on c) xs in ((x XOR mask P c) # ys, c'))"

definition xor_relays :: "vless_prims \<Rightarrow> bytes \<Rightarrow> bytes \<Rightarrow> bytes \<Rightarrow> bytes" where
  "xor_relays P nfs_pkey_bytes iv relays = fst (apply_keystream P (new_ctr P nfs_pkey_bytes iv) relays)"

definition decode_header_len :: "bytes \<Rightarrow> nat" where
  "decode_header_len h = (case h of
     [a, b, c, hi, lo] \<Rightarrow> if a \<noteq> 23 \<or> b \<noteq> 3 \<or> c \<noteq> 3 then 0 else 256 * unat hi + unat lo
   | _ \<Rightarrow> 0)"

record xor_state =
  write_ctr :: ctr
  read_ctr :: ctr
  out_skip :: nat
  out_header :: bytes
  in_skip :: nat
  in_header :: bytes

definition client_1rtt :: "vless_prims \<Rightarrow> bytes \<Rightarrow> bytes \<Rightarrow> bytes \<Rightarrow> nat \<Rightarrow> xor_state" where
  "client_1rtt P united_key iv ticket16 peer_padding_len =
     \<lparr>write_ctr = new_ctr P united_key iv, read_ctr = new_ctr P united_key ticket16, out_skip = 0, out_header = [],
      in_skip = peer_padding_len, in_header = []\<rparr>"

text \<open>
  The loop of \<open>transform_write\<close> and \<open>transform_read\<close>: \<open>skip\<close> bytes of a body are left alone, then the header
  is masked; its length field is read from the clear header, which is the input of a writer and the
  output of a reader.
\<close>

function headers_loop :: "vless_prims \<Rightarrow> bool \<Rightarrow> ctr \<Rightarrow> nat \<Rightarrow> bytes \<Rightarrow> bytes \<Rightarrow> bytes \<times> ctr \<times> nat \<times> bytes" where
  "headers_loop P reading c skip header b =
     (if length b \<le> skip then (b, c, skip - length b, header)
      else let rest = drop skip b; need = 5 - length header
           in if length rest < need
              then let (out, c) = apply_keystream P c rest
                   in (take skip b @ out, c, 0, header @ (if reading then out else rest))
              else let (out, c) = apply_keystream P c (take need rest);
                       hdr = header @ (if reading then out else take need rest);
                       (out', st) = headers_loop P reading c (decode_header_len hdr) [] (drop need rest)
                   in (take skip b @ out @ out', st))"
  by pat_completeness auto

termination
  by (relation "measure (\<lambda>(P, reading, c, skip, header, b). length b + (if length header < 5 then 0 else 1))") auto

declare headers_loop.simps [simp del]

definition transform_write :: "vless_prims \<Rightarrow> xor_state \<Rightarrow> bytes \<Rightarrow> bytes \<times> xor_state" where
  "transform_write P x b =
     (let (out, c, skip, header) = headers_loop P False (write_ctr x) (out_skip x) (out_header x) b
      in (out, x\<lparr>write_ctr := c, out_skip := skip, out_header := header\<rparr>))"

definition transform_read :: "vless_prims \<Rightarrow> xor_state \<Rightarrow> bytes \<Rightarrow> bytes \<times> xor_state" where
  "transform_read P x b =
     (let (out, c, skip, header) = headers_loop P True (read_ctr x) (in_skip x) (in_header x) b
      in (out, x\<lparr>read_ctr := c, in_skip := skip, in_header := header\<rparr>))"

text \<open>The same byte by byte: the specification the loop is shown to meet.\<close>

fun header_bytes :: "vless_prims \<Rightarrow> bool \<Rightarrow> ctr \<Rightarrow> nat \<Rightarrow> bytes \<Rightarrow> bytes \<Rightarrow> bytes \<times> ctr \<times> nat \<times> bytes" where
  "header_bytes P reading c skip header [] = ([], c, skip, header)"
| "header_bytes P reading c (Suc skip) header (x # xs) =
     (let (ys, st) = header_bytes P reading c skip header xs in (x # ys, st))"
| "header_bytes P reading c 0 header (x # xs) =
     (let y = x XOR mask P c;
          hdr = header @ [if reading then y else x];
          (ys, st) = (if length hdr = 5 then header_bytes P reading (ctr_on c) (decode_header_len hdr) [] xs
                      else header_bytes P reading (ctr_on c) 0 hdr xs)
      in (y # ys, st))"

lemma length_apply_keystream [simp]: "length (fst (apply_keystream P c b)) = length b"
  by (induction b arbitrary: c) (auto split: prod.split, metis fst_conv)

lemma length_headers_loop: "length (fst (headers_loop P reading c skip header b)) = length b"
proof (induction P reading c skip header b rule: headers_loop.induct)
  case (1 P reading c skip header b)
  let ?rest = "drop skip b" and ?need = "5 - length header"
  obtain out c' where k: "apply_keystream P c (take ?need ?rest) = (out, c')" by fastforce
  then have len: "length out = min ?need (length ?rest)" by (metis fst_conv length_apply_keystream length_take min.commute)
  show ?case
  proof (cases "length b \<le> skip \<or> length ?rest < ?need")
    case True
    moreover obtain o2 c2 where k2: "apply_keystream P c ?rest = (o2, c2)" by fastforce
    moreover from k2 have "length o2 = length ?rest" by (metis fst_conv length_apply_keystream)
    ultimately show ?thesis by (subst headers_loop.simps) (auto simp: Let_def)
  next
    case False
    let ?hdr = "header @ (if reading then out else take ?need ?rest)"
    obtain out' st where l: "headers_loop P reading c' (decode_header_len ?hdr) [] (drop ?need ?rest) = (out', st)" by (metis surj_pair)
    with False "1.IH" [OF _ refl refl _ refl k [symmetric] refl] have "length out' = length (drop ?need ?rest)" by simp
    then show ?thesis using False k l len by (subst headers_loop.simps) (auto simp: Let_def min_def)
  qed
qed

lemma length_transform [simp]: "length (fst (transform_write P x b)) = length b" "length (fst (transform_read P x b)) = length b"
  by (simp_all add: transform_write_def transform_read_def length_headers_loop split_beta)

lemma header_bytes_skip:
  "skip \<le> length b \<Longrightarrow> header_bytes P reading c skip header b =
     (let (out, st) = header_bytes P reading c 0 header (drop skip b) in (take skip b @ out, st))"
  by (induction skip arbitrary: b) (auto simp: Suc_le_length_iff split: prod.split)

lemma header_bytes_within: "length b \<le> skip \<Longrightarrow> header_bytes P reading c skip header b = (b, c, skip - length b, header)"
  by (induction P reading c skip header b rule: header_bytes.induct) auto

lemma header_bytes_part:
  "length b < 5 - length header \<Longrightarrow> header_bytes P reading c 0 header b =
     (let (out, c') = apply_keystream P c b in (out, c', 0, header @ (if reading then out else b)))"
proof (induction b arbitrary: c header)
  case (Cons x b)
  then have "length header \<noteq> 4" "length b < 5 - length (header @ [y])" for y :: u8 by auto
  then show ?case by (auto simp: Cons.IH Let_def split: prod.split)
qed simp

lemma header_bytes_whole:
  "length b = 5 - length header \<Longrightarrow> length header < 5 \<Longrightarrow> header_bytes P reading c 0 header (b @ rest) =
     (let (out, c') = apply_keystream P c b;
          (out', st) = header_bytes P reading c' (decode_header_len (header @ (if reading then out else b))) [] rest
      in (out @ out', st))"
proof (induction b arbitrary: c header)
  case (Cons x b)
  show ?case
  proof (cases "length header = 4")
    case True
    then show ?thesis using Cons.prems by (auto simp: Let_def split: prod.split)
  next
    case False
    then have "length b = 5 - length (header @ [y])" "length (header @ [y]) < 5" for y :: u8 using Cons.prems by auto
    then show ?thesis using False by (auto simp: Cons.IH Let_def split: prod.split)
  qed
qed simp

lemma headers_loop_bytes:
  "length header < 5 \<Longrightarrow> headers_loop P reading c skip header b = header_bytes P reading c skip header b"
proof (induction P reading c skip header b rule: headers_loop.induct)
  case (1 P reading c skip header b)
  let ?rest = "drop skip b" and ?need = "5 - length header"
  show ?case
  proof (cases "length b \<le> skip")
    case True
    then show ?thesis by (subst headers_loop.simps) (simp add: header_bytes_within)
  next
    case False
    then have skip: "header_bytes P reading c skip header b =
       (let (out, st) = header_bytes P reading c 0 header ?rest in (take skip b @ out, st))"
      by (intro header_bytes_skip) simp
    show ?thesis
    proof (cases "length ?rest < ?need")
      case True
      then show ?thesis using False unfolding skip by (subst headers_loop.simps) (simp add: header_bytes_part split: prod.split)
    next
      case full: False
      obtain out c' where k: "apply_keystream P c (take ?need ?rest) = (out, c')" by fastforce
      let ?hdr = "header @ (if reading then out else take ?need ?rest)"
      have "headers_loop P reading c' (decode_header_len ?hdr) [] (drop ?need ?rest)
          = header_bytes P reading c' (decode_header_len ?hdr) [] (drop ?need ?rest)"
        by (rule "1.IH" [OF False refl refl full refl k [symmetric] refl]) simp
      moreover have "length (take ?need ?rest) = ?need" using full by simp
      from header_bytes_whole [OF this "1.prems", of P reading c "drop ?need ?rest"]
      have "header_bytes P reading c 0 header ?rest =
          (let (out', st) = header_bytes P reading c' (decode_header_len ?hdr) [] (drop ?need ?rest) in (out @ out', st))"
        unfolding append_take_drop_id k by simp
      ultimately show ?thesis using False full unfolding skip
        by (subst headers_loop.simps) (simp add: k Let_def split: prod.split)
    qed
  qed
qed

lemma header_bytes_append:
  "header_bytes P reading c skip header (a @ b) =
     (let (out, c', skip', header') = header_bytes P reading c skip header a;
          (out', st) = header_bytes P reading c' skip' header' b in (out @ out', st))"
  by (induction P reading c skip header a rule: header_bytes.induct) (auto split: prod.split simp: Let_def)

lemma header_bytes_keeps:
  "header_bytes P reading c skip header b = (out, c', skip', header') \<Longrightarrow> length header < 5
     \<Longrightarrow> length out = length b \<and> length header' < 5"
proof (induction b arbitrary: c skip header out)
  case (Cons x b)
  show ?case
  proof (cases skip)
    case (Suc k)
    then show ?thesis using Cons.prems Cons.IH [of c k header] by (auto split: prod.splits)
  next
    case 0
    let ?h = "header @ [if reading then x XOR mask P c else x]"
    show ?thesis
    proof (cases "length header = 4")
      case True
      then show ?thesis using Cons.prems Cons.IH [of "ctr_on c" "decode_header_len ?h" "[]"] 0
        by (auto simp: Let_def split: prod.splits)
    next
      case False
      then show ?thesis using Cons.prems Cons.IH [of "ctr_on c" 0 ?h] 0 by (auto simp: Let_def split: prod.splits)
    qed
  qed
qed simp

text \<open>A reader whose key stream is at the same place removes what the writer put on.\<close>

lemma header_bytes_inverse:
  "header_bytes P False c skip header b = (out, st) \<Longrightarrow> header_bytes P True c skip header out = (b, st)"
proof (induction P "False" c skip header b arbitrary: out rule: header_bytes.induct)
  case (3 P c header x xs)
  have x: "(x XOR mask P c) XOR mask P c = x" by (simp add: xor.assoc)
  show ?case
  proof (cases "length header = 4")
    case True
    then show ?thesis using 3 by (auto simp: x Let_def split: prod.splits)
  next
    case False
    then show ?thesis using 3 by (auto simp: x Let_def split: prod.splits)
  qed
qed (auto split: prod.splits)

end
