(* ===== verification/VlessEnc.thy ===== *)
theory VlessEnc
  imports VlessMask
begin

text \<open>
  \<open>crates/net/src/vless_encryption/stream.rs\<close>: the data stream of VLESS encryption. Records have a
  header of five bytes and a sealed body; in the mode \<open>random\<close> the headers are masked, and the reader
  removes the mask from the bytes as they arrive, before they are cut into records. A masked stream
  behaves like the clear one of \<open>PollIo\<close>; what was written is read back through masks, padding and
  changes of the key.
\<close>

section \<open>The stream\<close>

datatype enc_stage = EncPadding | EncHeader | EncData nat

text \<open>\<open>EncState\<close>, the result of the handshake.\<close>

record enc_state =
  es_write_aead :: aead
  es_peer_aead :: aead
  es_united_key :: bytes
  es_use_aes :: bool
  es_peer_padding_len :: nat
  es_xor :: "xor_state option"

record vless_enc =
  ve_write :: aead
  ve_peer :: aead
  ve_united_key :: bytes
  ve_use_aes :: bool
  ve_stage :: enc_stage
  ve_padding_len :: nat
  ve_hdr :: bytes
  ve_xor :: "xor_state option"

definition enc_start :: "enc_state \<Rightarrow> vless_enc" where
  "enc_start st =
     \<lparr>ve_write = es_write_aead st, ve_peer = es_peer_aead st, ve_united_key = es_united_key st, ve_use_aes = es_use_aes st,
      ve_stage = (if es_peer_padding_len st > 0 then EncPadding else EncHeader), ve_padding_len = es_peer_padding_len st,
      ve_hdr = replicate 5 0, ve_xor = es_xor st\<rparr>"

definition enc_new :: "transport \<Rightarrow> enc_state \<Rightarrow> vless_enc fstream" where
  "enc_new t st = fstream_new t [] (enc_start st)"

fun xor_read :: "vless_prims \<Rightarrow> xor_state option \<Rightarrow> bytes \<Rightarrow> bytes \<times> xor_state option" where
  "xor_read P None b = (b, None)"
| "xor_read P (Some x) b = (let (out, x) = transform_read P x b in (out, Some x))"

fun xor_write :: "vless_prims \<Rightarrow> xor_state option \<Rightarrow> bytes \<Rightarrow> bytes \<times> xor_state option" where
  "xor_write P None b = (b, None)"
| "xor_write P (Some x) b = (let (out, x) = transform_write P x b in (out, Some x))"

lemma length_xor [simp]: "length (fst (xor_read P x b)) = length b" "length (fst (xor_write P x b)) = length b"
  by (cases x; simp add: split_beta)+

lemma xor_read_some: "(out, x) = xor_read P st b \<Longrightarrow> b \<noteq> [] \<Longrightarrow> 0 < length out"
  by (metis fst_conv length_greater_0_conv length_xor(1))

function enc_fill :: "vless_prims \<Rightarrow> nat \<Rightarrow> vless_enc fstream \<Rightarrow> (io_error + bool) poll \<times> vless_enc fstream" where
  "enc_fill P need s =
     (if length (rtmp s) < need
      then (case inner_read (min (need - length (rtmp s)) 4096) (inner s) of
          (PollReady (Inr filled), t) \<Rightarrow>
            if filled = []
            then (PollReady (if rtmp s = [] then Inr False else Inl UnexpectedEof), s\<lparr>inner := t\<rparr>)
            else let (out, x) = xor_read P (ve_xor (prot s)) filled
                 in enc_fill P need (s\<lparr>inner := t, rtmp := rtmp s @ out, prot := (prot s)\<lparr>ve_xor := x\<rparr>\<rparr>)
        | (PollReady (Inl e), t) \<Rightarrow> (PollReady (Inl e), s\<lparr>inner := t\<rparr>)
        | (PollPending, t) \<Rightarrow> (PollPending, s\<lparr>inner := t\<rparr>))
      else (PollReady (Inr True), s))"
  by pat_completeness auto

termination
  by (relation "measure (\<lambda>(P, need, s). need - length (rtmp s))") (auto intro!: diff_less_mono2 dest: xor_read_some)

declare enc_fill.simps [simp del]

definition enc_need :: "vless_enc \<Rightarrow> nat" where
  "enc_need p = (case ve_stage p of EncPadding \<Rightarrow> ve_padding_len p | EncHeader \<Rightarrow> 5 | EncData l \<Rightarrow> l)"

definition enc_eof_ok :: "vless_enc \<Rightarrow> bool" where
  "enc_eof_ok p = (case ve_stage p of EncData _ \<Rightarrow> False | _ \<Rightarrow> True)"

definition read_header :: "vless_enc \<Rightarrow> bytes \<Rightarrow> vless_enc \<times> (io_error + bytes option)" where
  "read_header p h = (case h of
     [a, b, c, hi, lo] \<Rightarrow>
       (let l = 256 * unat hi + unat lo; p = p\<lparr>ve_hdr := h\<rparr>
        in if a \<noteq> 23 \<or> b \<noteq> 3 \<or> c \<noteq> 3 \<or> \<not> (17 \<le> l \<and> l \<le> 16640) then (p, Inl (IoOther ''vless-enc: header''))
           else (p\<lparr>ve_stage := EncData l\<rparr>, Inr None))
   | _ \<Rightarrow> (p, Inl Panic))"

definition read_data :: "vless_prims \<Rightarrow> vless_enc \<Rightarrow> bytes \<Rightarrow> vless_enc \<times> (io_error + bytes option)" where
  "read_data P p frame =
     (let rekey = at_max (ve_peer p)
      in case aead_open P (ve_peer p) frame (ve_hdr p) of
           (a, Inl e) \<Rightarrow> (p\<lparr>ve_peer := a\<rparr>, Inl e)
         | (a, Inr pt) \<Rightarrow>
             (p\<lparr>ve_peer := if rekey then aead_new P (ve_hdr p @ frame) (ve_united_key p) (ve_use_aes p) else a,
                ve_stage := EncHeader\<rparr>, Inr (Some pt)))"

definition enc_handle :: "vless_prims \<Rightarrow> vless_enc \<Rightarrow> bytes \<Rightarrow> vless_enc \<times> (io_error + bytes option)" where
  "enc_handle P p frame =
     (case ve_stage p of
        EncPadding \<Rightarrow> (case aead_open P (ve_peer p) frame [] of
            (a, Inl e) \<Rightarrow> (p\<lparr>ve_peer := a\<rparr>, Inl e)
          | (a, Inr _) \<Rightarrow> (p\<lparr>ve_peer := a, ve_stage := EncHeader\<rparr>, Inr None))
      | EncHeader \<Rightarrow> read_header p frame
      | EncData _ \<Rightarrow> read_data P p frame)"

text \<open>Only a header and the padding, which is read once, let the loop go on: it ends with the bytes that have arrived.\<close>

definition enc_work :: "vless_enc fstream \<Rightarrow> nat" where
  "enc_work s = 2 * stock s + (case ve_stage (prot s) of EncPadding \<Rightarrow> 1 | _ \<Rightarrow> 0)"

lemma enc_handle_on:
  "enc_handle P p frame = (p', Inr None) \<Longrightarrow> ve_stage p = EncPadding \<and> ve_stage p' = EncHeader
     \<or> ve_stage p = EncHeader \<and> (\<exists>l. ve_stage p' = EncData l)"
  by (auto simp: enc_handle_def read_header_def read_data_def Let_def split: enc_stage.splits prod.splits sum.splits list.splits if_splits)

lemma enc_fill_stock:
  assumes "enc_fill P need s = (r, s')"
  shows "stock s' = stock s \<and> (\<exists>x. prot s' = (prot s)\<lparr>ve_xor := x\<rparr>) \<and> (r = PollReady (Inr True) \<longrightarrow> need \<le> length (rtmp s'))"
  using assms
proof (induction P need s arbitrary: r s' rule: enc_fill.induct)
  case (1 P need s)
  obtain ir t where i: "inner_read (min (need - length (rtmp s)) 4096) (inner s) = (ir, t)" by fastforce
  note bytes = inner_read_bytes [OF i]
  have same: "\<exists>x. prot s = (prot s)\<lparr>ve_xor := x\<rparr>" by (metis vless_enc.surjective vless_enc.update_convs(8))
  show ?case
  proof (cases "length (rtmp s) < need \<and> (\<exists>got. ir = PollReady (Inr got) \<and> got \<noteq> [])")
    case True
    then obtain got where got: "ir = PollReady (Inr got)" "got \<noteq> []" by blast
    obtain out x where x: "xor_read P (ve_xor (prot s)) got = (out, x)" by fastforce
    then have "length out = length got" by (metis fst_conv length_xor(1))
    moreover have "enc_fill P need (s\<lparr>inner := t, rtmp := rtmp s @ out, prot := (prot s)\<lparr>ve_xor := x\<rparr>\<rparr>) = (r, s')"
      using "1.prems" True i got x by (subst (asm) enc_fill.simps) simp
    from "1.IH" [OF _ i [symmetric] got(1) refl got(2) x [symmetric] refl this] True
    show ?thesis using bytes got(1) calculation by (simp add: stock_def)
  next
    case False
    then show ?thesis using "1.prems" i bytes same
      by (subst (asm) enc_fill.simps) (auto simp: stock_def split: poll.splits sum.splits if_splits)
  qed
qed

lemma enc_loop_progress:
  assumes "enc_fill P (enc_need (prot s)) s = (PollReady (Inr True), s')" and "enc_handle P (prot s') (rtmp s') = (p, Inr None)"
  shows "enc_work (s'\<lparr>rtmp := [], prot := p\<rparr>) < enc_work s"
  using enc_fill_stock [OF assms(1)] enc_handle_on [OF assms(2)] by (auto simp: enc_work_def stock_def enc_need_def)

function enc_read_loop :: "vless_prims \<Rightarrow> vless_enc fstream \<Rightarrow> (io_error + bool) poll \<times> vless_enc fstream" where
  "enc_read_loop P s =
     (case enc_fill P (enc_need (prot s)) s of
        (PollPending, s) \<Rightarrow> (PollPending, s)
      | (PollReady (Inl e), s) \<Rightarrow> (PollReady (Inl e), s)
      | (PollReady (Inr False), s) \<Rightarrow> (PollReady (if enc_eof_ok (prot s) then Inr False else Inl UnexpectedEof), s)
      | (PollReady (Inr True), s) \<Rightarrow>
          (case enc_handle P (prot s) (rtmp s) of
             (p, Inl e) \<Rightarrow> (PollReady (Inl e), s\<lparr>rtmp := [], prot := p\<rparr>)
           | (p, Inr None) \<Rightarrow> enc_read_loop P (s\<lparr>rtmp := [], prot := p\<rparr>)
           | (p, Inr (Some pt)) \<Rightarrow> (PollReady (Inr True), s\<lparr>rtmp := [], prot := p, plain := pt, ppos := 0\<rparr>)))"
  by pat_completeness auto

termination
  by (relation "measure (\<lambda>(P, s). enc_work s)") (auto dest!: enc_loop_progress [OF sym sym])

declare enc_read_loop.simps [simp del]

definition enc_poll_read :: "vless_prims \<Rightarrow> nat \<Rightarrow> vless_enc fstream \<Rightarrow> (io_error + bytes) poll \<times> vless_enc fstream" where
  "enc_poll_read P cap s = framed_poll_read (enc_read_loop P) cap s"

abbreviation (input) ENC_MAX_DATA :: nat where "ENC_MAX_DATA \<equiv> 8192"

definition enc_header :: "nat \<Rightarrow> bytes" where
  "enc_header rec_len = [23, 3, 3] @ len_be rec_len"

definition enc_encode :: "vless_prims \<Rightarrow> vless_enc \<Rightarrow> bytes \<Rightarrow> vless_enc \<times> bytes \<times> (io_error + nat)" where
  "enc_encode P p buf =
     (let n = min (length buf) ENC_MAX_DATA; hdr = enc_header (n + 16); rekey = at_max (ve_write p)
      in case aead_seal P (ve_write p) (take n buf) hdr of
           (a, Inl e) \<Rightarrow> (p\<lparr>ve_write := a\<rparr>, [], Inl e)
         | (a, Inr body) \<Rightarrow>
             let record = hdr @ body;
                 p = p\<lparr>ve_write := if rekey then aead_new P record (ve_united_key p) (ve_use_aes p) else a\<rparr>;
                 (out, x) = xor_write P (ve_xor p) record
             in (p\<lparr>ve_xor := x\<rparr>, out, Inr n))"

definition enc_poll_write :: "vless_prims \<Rightarrow> bytes \<Rightarrow> vless_enc fstream \<Rightarrow> (io_error + nat) poll \<times> vless_enc fstream" where
  "enc_poll_write P buf s = framed_poll_write (enc_encode P) buf s"

section \<open>The mask as a filter of bytes\<close>

text \<open>A state of the mask never holds a whole header.\<close>

definition xor_wf :: "xor_state option \<Rightarrow> bool" where
  "xor_wf x = (case x of None \<Rightarrow> True | Some x \<Rightarrow> length (in_header x) < 5 \<and> length (out_header x) < 5)"

lemma xor_read_Nil [simp]: "xor_read P x [] = ([], x)"
  by (cases x) (simp_all add: transform_read_def headers_loop.simps)

lemma xor_read_append:
  "xor_wf x \<Longrightarrow> xor_read P x (a @ b) =
     (let (out, x) = xor_read P x a; (out', x) = xor_read P x b in (out @ out', x))"
proof (cases x)
  case (Some y)
  moreover assume "xor_wf x"
  moreover obtain out c s h where o: "header_bytes P True (read_ctr y) (in_skip y) (in_header y) a = (out, c, s, h)"
    by (metis surj_pair)
  ultimately show ?thesis
    using header_bytes_keeps [OF o]
    by (auto simp: transform_read_def headers_loop_bytes header_bytes_append xor_wf_def split: prod.split)
qed simp

lemma xor_write_append:
  "xor_wf x \<Longrightarrow> xor_write P x (a @ b) =
     (let (out, x) = xor_write P x a; (out', x) = xor_write P x b in (out @ out', x))"
proof (cases x)
  case (Some y)
  moreover assume "xor_wf x"
  moreover obtain out c s h where o: "header_bytes P False (write_ctr y) (out_skip y) (out_header y) a = (out, c, s, h)"
    by (metis surj_pair)
  ultimately show ?thesis
    using header_bytes_keeps [OF o]
    by (auto simp: transform_write_def headers_loop_bytes header_bytes_append xor_wf_def split: prod.split)
qed simp

lemma xor_wf_read: "xor_wf x \<Longrightarrow> xor_read P x b = (out, x') \<Longrightarrow> xor_wf x'"
  by (cases x) (auto simp: transform_read_def headers_loop_bytes xor_wf_def Let_def split: prod.splits dest: header_bytes_keeps)

lemma xor_wf_write: "xor_wf x \<Longrightarrow> xor_write P x b = (out, x') \<Longrightarrow> xor_wf x'"
  by (cases x) (auto simp: transform_write_def headers_loop_bytes xor_wf_def Let_def split: prod.splits dest: header_bytes_keeps)

text \<open>A reader after \<open>n\<close> bytes that carry no mask, at the place of the key stream where the writer is.\<close>

definition xor_mirror :: "nat \<Rightarrow> xor_state option \<Rightarrow> xor_state option \<Rightarrow> bool" where
  "xor_mirror n w r =
     (case (w, r) of
        (None, None) \<Rightarrow> True
      | (Some w, Some r) \<Rightarrow> read_ctr r = write_ctr w \<and> out_skip w = 0 \<and> in_skip r = n \<and> out_header w = [] \<and> in_header r = []
      | _ \<Rightarrow> False)"

lemma xor_mirror_inverse:
  assumes "xor_mirror n w r" and "length pad = n"
  shows "fst (xor_read P r (pad @ fst (xor_write P w b))) = pad @ b"
proof (cases w)
  case None
  then show ?thesis using assms by (cases r) (simp_all add: xor_mirror_def)
next
  case (Some w')
  with assms obtain r' where r: "r = Some r'" "read_ctr r' = write_ctr w'" "out_skip w' = 0" "in_skip r' = n" "out_header w' = []" "in_header r' = []"
    by (cases r) (auto simp: xor_mirror_def)
  obtain out c s h where h: "header_bytes P False (write_ctr w') 0 [] b = (out, c, s, h)" by (metis surj_pair)
  from header_bytes_inverse [OF this] have "header_bytes P True (write_ctr w') 0 [] out = (b, c, s, h)" .
  then show ?thesis
    using Some r h assms(2) header_bytes_skip [of n "pad @ out" P True "write_ctr w'" "[]"]
    by (simp add: transform_read_def transform_write_def headers_loop_bytes split: prod.split)
qed

section \<open>A masked stream is a clear one\<close>

fun clear_segs :: "vless_prims \<Rightarrow> xor_state option \<Rightarrow> bytes list \<Rightarrow> bytes list" where
  "clear_segs P x [] = []"
| "clear_segs P x (seg # segs) = (let (out, x) = xor_read P x seg in out # clear_segs P x segs)"

definition clear :: "vless_prims \<Rightarrow> vless_enc fstream \<Rightarrow> vless_enc fstream" where
  "clear P s = s\<lparr>inner := (inner s)\<lparr>arrived := clear_segs P (ve_xor (prot s)) (arrived (inner s))\<rparr>,
     prot := (prot s)\<lparr>ve_xor := None\<rparr>\<rparr>"

text \<open>The state of the mask behind all that has arrived.\<close>

definition xor_behind :: "vless_prims \<Rightarrow> vless_enc fstream \<Rightarrow> xor_state option" where
  "xor_behind P s = snd (xor_read P (ve_xor (prot s)) (concat (arrived (inner s))))"

lemma clear_segs_concat: "xor_wf x \<Longrightarrow> concat (clear_segs P x segs) = fst (xor_read P x (concat segs))"
proof (induction segs arbitrary: x)
  case Nil
  then show ?case by simp
next
  case (Cons seg segs)
  then show ?case by (auto simp: xor_read_append xor_wf_read split: prod.split)
qed

lemma clear_segs_append: "xor_wf x \<Longrightarrow> clear_segs P x (segs @ segs') = clear_segs P x segs @ clear_segs P (snd (xor_read P x (concat segs))) segs'"
proof (induction segs arbitrary: x)
  case Nil
  then show ?case by simp
next
  case (Cons seg segs)
  then show ?case by (auto simp: xor_read_append xor_wf_read split: prod.split)
qed

lemma clear_simps [simp]:
  "rtmp (clear P s) = rtmp s" "plain (clear P s) = plain s" "ppos (clear P s) = ppos s"
  "prot (clear P s) = (prot s)\<lparr>ve_xor := None\<rparr>" "peer (inner (clear P s)) = peer (inner s)"
  by (simp_all add: clear_def)

lemma xor_read_cut:
  assumes "xor_wf x" and "xor_read P x (take n b) = (out, x1)" and "xor_read P x1 (drop n b) = (out', x2)"
  shows "xor_read P x b = (out @ out', x2)" and "take n (out @ out') = out" and "drop n (out @ out') = out'"
proof -
  from xor_read_append [OF assms(1), of P "take n b" "drop n b"] assms(2,3) show "xor_read P x b = (out @ out', x2)" by simp
  have "length out = length (take n b)" "length out' = length (drop n b)"
    using assms(2,3) by (metis fst_conv length_xor(1))+
  then show "take n (out @ out') = out" "drop n (out @ out') = out'" by (cases "n \<le> length b"; auto)+
qed

lemma inner_read_clear:
  assumes "inner_read want t = (r, t')" and "xor_wf x"
  shows "inner_read want (t\<lparr>arrived := clear_segs P x (arrived t)\<rparr>) =
    (case r of PollReady (Inr got) \<Rightarrow> (PollReady (Inr (fst (xor_read P x got))), t'\<lparr>arrived := clear_segs P (snd (xor_read P x got)) (arrived t')\<rparr>)
     | _ \<Rightarrow> (r, t'\<lparr>arrived := clear_segs P x (arrived t')\<rparr>))"
proof (cases "arrived t")
  case Nil
  then show ?thesis using assms by (auto simp: inner_read_def split: peer_end.splits)
next
  case (Cons seg segs)
  obtain out x1 where o: "xor_read P x (take want seg) = (out, x1)" by fastforce
  obtain out' x2 where o': "xor_read P x1 (drop want seg) = (out', x2)" by fastforce
  note cut = xor_read_cut [OF assms(2) o o']
  have "out' = [] \<longleftrightarrow> drop want seg = []" using o' by (metis fst_conv length_0_conv length_xor(1))
  moreover have "drop want seg = [] \<Longrightarrow> x2 = x1" using o' by simp
  ultimately show ?thesis using Cons assms(1) cut o o' by (auto simp: inner_read_def)
qed

lemma xor_behind_read:
  assumes "inner_read want t = (r, t')" and "xor_wf x"
  shows "snd (xor_read P (case r of PollReady (Inr got) \<Rightarrow> snd (xor_read P x got) | _ \<Rightarrow> x) (concat (arrived t')))
    = snd (xor_read P x (concat (arrived t)))"
proof (cases "arrived t")
  case Nil
  then show ?thesis using assms by (auto simp: inner_read_def split: peer_end.splits)
next
  case (Cons seg segs)
  then have "concat (arrived t) = take want seg @ concat (arrived t')" "r = PollReady (Inr (take want seg))"
    using assms(1) by (auto simp: inner_read_def simp flip: append.assoc)
  then show ?thesis using xor_read_append [OF assms(2)] by (simp add: split_beta)
qed

definition wf_stream :: "vless_enc fstream \<Rightarrow> bool" where
  "wf_stream s \<longleftrightarrow> xor_wf (ve_xor (prot s))"

lemma enc_fill_clear:
  assumes "wf_stream s" and "enc_fill P need s = (r, s')"
  shows "fill need (clear P s) = (r, clear P s') \<and> xor_behind P s' = xor_behind P s \<and> wf_stream s'"
  using assms
proof (induction P need s arbitrary: r s' rule: enc_fill.induct)
  case (1 P need s)
  let ?want = "min (need - length (rtmp s)) 4096"
  obtain ir t where i: "inner_read ?want (inner s) = (ir, t)" by fastforce
  have wf: "xor_wf (ve_xor (prot s))" using "1.prems"(1) by (simp add: wf_stream_def)
  note ci = inner_read_clear [OF i wf, of P] and cb = xor_behind_read [OF i wf, of P]
  have c: "inner (clear P s) = (inner s)\<lparr>arrived := clear_segs P (ve_xor (prot s)) (arrived (inner s))\<rparr>" by (simp add: clear_def)
  show ?case
  proof (cases "length (rtmp s) < need \<and> (\<exists>got. ir = PollReady (Inr got) \<and> got \<noteq> [])")
    case True
    then obtain got where got: "ir = PollReady (Inr got)" "got \<noteq> []" by blast
    obtain out x where x: "xor_read P (ve_xor (prot s)) got = (out, x)" by fastforce
    then have out: "out \<noteq> []" using got(2) by (metis fst_conv length_0_conv length_xor(1))
    let ?s = "s\<lparr>inner := t, rtmp := rtmp s @ out, prot := (prot s)\<lparr>ve_xor := x\<rparr>\<rparr>"
    have "enc_fill P need ?s = (r, s')"
      using "1.prems"(2) True i got x by (subst (asm) enc_fill.simps) simp
    moreover have "wf_stream ?s" using xor_wf_read [OF wf x] by (simp add: wf_stream_def)
    ultimately have IH: "fill need (clear P ?s) = (r, clear P s') \<and> xor_behind P s' = xor_behind P ?s \<and> wf_stream s'"
      using "1.IH" [OF _ i [symmetric] got(1) refl got(2) x [symmetric] refl] True by simp
    have "fill need (clear P s) = fill need (clear P ?s)"
      using True ci got x out by (subst fill.simps) (simp add: c, cases s, simp add: clear_def)
    moreover have "xor_behind P ?s = xor_behind P s" using cb got x by (simp add: xor_behind_def)
    ultimately show ?thesis using IH by simp
  next
    case False
    have "fill need (clear P s) = (r, clear P s') \<and> ve_xor (prot s') = ve_xor (prot s) \<and> xor_behind P s' = xor_behind P s"
      using False "1.prems"(2) i ci cb
      by (subst (asm) enc_fill.simps, subst fill.simps, cases ir rule: outcome.cases)
        (auto simp: c xor_behind_def split: if_splits, auto simp: clear_def)
    then show ?thesis using wf by (simp add: wf_stream_def)
  qed
qed

lemma clear_loop_progress:
  assumes "fill (enc_need (prot s)) s = (PollReady (Inr True), s')" and "enc_handle P (prot s') (rtmp s') = (p, Inr None)"
  shows "enc_work (s'\<lparr>rtmp := [], prot := p\<rparr>) < enc_work s"
  using fill_stock [OF assms(1)] enc_handle_on [OF assms(2)] by (auto simp: enc_work_def stock_def enc_need_def)

text \<open>The reference: the same loop over the plain \<open>fill\<close>.\<close>

function clear_loop :: "vless_prims \<Rightarrow> vless_enc fstream \<Rightarrow> (io_error + bool) poll \<times> vless_enc fstream" where
  "clear_loop P s =
     (case fill (enc_need (prot s)) s of
        (PollPending, s) \<Rightarrow> (PollPending, s)
      | (PollReady (Inl e), s) \<Rightarrow> (PollReady (Inl e), s)
      | (PollReady (Inr False), s) \<Rightarrow> (PollReady (if enc_eof_ok (prot s) then Inr False else Inl UnexpectedEof), s)
      | (PollReady (Inr True), s) \<Rightarrow>
          (case enc_handle P (prot s) (rtmp s) of
             (p, Inl e) \<Rightarrow> (PollReady (Inl e), s\<lparr>rtmp := [], prot := p\<rparr>)
           | (p, Inr None) \<Rightarrow> clear_loop P (s\<lparr>rtmp := [], prot := p\<rparr>)
           | (p, Inr (Some pt)) \<Rightarrow> (PollReady (Inr True), s\<lparr>rtmp := [], prot := p, plain := pt, ppos := 0\<rparr>)))"
  by pat_completeness auto

termination
  by (relation "measure (\<lambda>(P, s). enc_work s)") (auto dest!: clear_loop_progress [OF sym sym])

declare clear_loop.simps [simp del]

interpretation enc_reader: frame_reader enc_need enc_eof_ok "enc_handle P" "clear_loop P" for P
  by unfold_locales (rule clear_loop.simps)

lemma enc_handle_xor: "enc_handle P p frame = (p', r) \<Longrightarrow> ve_xor p' = ve_xor p \<and> enc_handle P (p\<lparr>ve_xor := None\<rparr>) frame = (p'\<lparr>ve_xor := None\<rparr>, r)"
  by (auto simp: enc_handle_def read_header_def read_data_def Let_def split: enc_stage.splits prod.splits sum.splits list.splits if_splits)

lemma enc_stage_xor [simp]: "enc_need (p\<lparr>ve_xor := x\<rparr>) = enc_need p" "enc_eof_ok (p\<lparr>ve_xor := x\<rparr>) = enc_eof_ok p"
  by (simp_all add: enc_need_def enc_eof_ok_def split: enc_stage.split)

lemma clear_update:
  "ve_xor p = ve_xor (prot s) \<Longrightarrow> clear P (s\<lparr>rtmp := b, prot := p\<rparr>) = (clear P s)\<lparr>rtmp := b, prot := p\<lparr>ve_xor := None\<rparr>\<rparr>"
  "ve_xor p = ve_xor (prot s) \<Longrightarrow> clear P (s\<lparr>rtmp := b, prot := p, plain := pt, ppos := n\<rparr>)
     = (clear P s)\<lparr>rtmp := b, prot := p\<lparr>ve_xor := None\<rparr>, plain := pt, ppos := n\<rparr>"
  by (simp_all add: clear_def)

lemma enc_loop_clear:
  assumes "wf_stream s" and "enc_read_loop P s = (r, s')"
  shows "clear_loop P (clear P s) = (r, clear P s') \<and> xor_behind P s' = xor_behind P s \<and> wf_stream s'"
  using assms
proof (induction P s arbitrary: r s' rule: enc_read_loop.induct)
  case (1 P s)
  obtain r1 s1 where f: "enc_fill P (enc_need (prot s)) s = (r1, s1)" by fastforce
  note cf = enc_fill_clear [OF "1.prems"(1) f]
  then have cf': "fill (enc_need (prot (clear P s))) (clear P s) = (r1, clear P s1)" by simp
  show ?case
  proof (cases "r1 = PollReady (Inr True)")
    case True
    obtain p h where h: "enc_handle P (prot s1) (rtmp s1) = (p, h)" by fastforce
    note ch = enc_handle_xor [OF h]
    let ?s = "s1\<lparr>rtmp := [], prot := p\<rparr>"
    have step: "wf_stream ?s" "xor_behind P ?s = xor_behind P s" "clear P ?s = (clear P s1)\<lparr>rtmp := [], prot := p\<lparr>ve_xor := None\<rparr>\<rparr>"
      using cf ch by (simp_all add: wf_stream_def xor_behind_def clear_update)
    show ?thesis
    proof (cases "h = Inr None")
      case none: True
      have "enc_read_loop P ?s = (r, s')" using "1.prems"(2) f True h none by (subst (asm) enc_read_loop.simps) simp
      from "1.IH" [OF f [symmetric] True refl _ h [symmetric] none refl step(1) this]
      have IH: "clear_loop P (clear P ?s) = (r, clear P s') \<and> xor_behind P s' = xor_behind P ?s \<and> wf_stream s'" by simp
      moreover have "clear_loop P (clear P s) = clear_loop P (clear P ?s)"
        using cf' True ch none step(3) by (subst clear_loop.simps) simp
      ultimately show ?thesis using step(2) by simp
    next
      case False
      then show ?thesis using "1.prems"(2) f True h ch cf' cf
        by (subst clear_loop.simps, subst (asm) enc_read_loop.simps)
          (auto split: sum.splits option.splits simp: clear_update wf_stream_def xor_behind_def)
    qed
  next
    case False
    then show ?thesis using "1.prems"(2) f cf' cf
      by (subst clear_loop.simps, subst (asm) enc_read_loop.simps) (auto split: poll.splits sum.splits bool.splits)
  qed
qed

lemma deliver_clear: "deliver cap (clear P s) = (fst (deliver cap s), clear P (snd (deliver cap s)))"
  by (simp add: deliver_def Let_def clear_def)

lemma deliver_keeps: "xor_behind P (snd (deliver cap s)) = xor_behind P s" "wf_stream (snd (deliver cap s)) = wf_stream s"
  by (simp_all add: deliver_def Let_def xor_behind_def wf_stream_def)

lemma poll_clear:
  assumes "wf_stream s" and "enc_poll_read P cap s = (r, s')"
  shows "framed_poll_read (clear_loop P) cap (clear P s) = (r, clear P s') \<and> xor_behind P s' = xor_behind P s \<and> wf_stream s'"
proof (cases "ppos s < length (plain s)")
  case True
  then show ?thesis using assms
    by (auto simp: enc_poll_read_def framed_poll_read_def deliver_clear deliver_keeps split: prod.splits)
      (metis deliver_keeps snd_conv)+
next
  case False
  obtain r1 s1 where l: "enc_read_loop P s = (r1, s1)" by fastforce
  note cl = enc_loop_clear [OF assms(1) l]
  then show ?thesis using assms(2) False l deliver_keeps(1) [of P cap s1] deliver_keeps(2) [of cap s1]
    by (auto simp: enc_poll_read_def framed_poll_read_def deliver_clear split: prod.splits poll.splits sum.splits bool.splits)
qed

fun clear_events :: "vless_prims \<Rightarrow> xor_state option \<Rightarrow> read_event list \<Rightarrow> read_event list" where
  "clear_events P x [] = []"
| "clear_events P x (Arrive seg # evs) = (let (out, x) = xor_read P x seg in Arrive out # clear_events P x evs)"
| "clear_events P x (Read cap # evs) = Read cap # clear_events P x evs"

text \<open>Reading through the mask is reading the unmasked bytes.\<close>

lemma run_clear:
  assumes "wf_stream s"
  shows "fst (run_reads (enc_poll_read P) s evs) = fst (run_reads (framed_poll_read (clear_loop P)) (clear P s) (clear_events P (xor_behind P s) evs))"
  using assms
proof (induction evs arbitrary: s)
  case (Cons e evs)
  show ?case
  proof (cases e)
    case (Arrive seg)
    let ?s = "s\<lparr>inner := (inner s)\<lparr>arrived := arrived (inner s) @ [seg]\<rparr>\<rparr>"
    obtain out x where x: "xor_read P (xor_behind P s) seg = (out, x)" by fastforce
    have wf: "wf_stream ?s" "xor_wf (ve_xor (prot s))" using Cons.prems by (simp_all add: wf_stream_def)
    have "xor_behind P ?s = x" using x wf(2) by (simp add: xor_behind_def xor_read_append split_beta)
    moreover have "clear P ?s = (clear P s)\<lparr>inner := (inner (clear P s))\<lparr>arrived := arrived (inner (clear P s)) @ [out]\<rparr>\<rparr>"
      using x wf(2) by (simp add: clear_def clear_segs_append xor_behind_def)
    ultimately show ?thesis using Cons.IH [OF wf(1)] Arrive x by simp
  next
    case (Read cap)
    obtain r s' where p: "enc_poll_read P cap s = (r, s')" by fastforce
    from poll_clear [OF Cons.prems p] Cons.IH [of s'] show ?thesis using Read p by (simp add: split_beta)
  qed
qed simp

lemma clear_events_arrivals: "xor_wf x \<Longrightarrow> arrivals (clear_events P x evs) = fst (xor_read P x (arrivals evs))"
  by (induction P x evs rule: clear_events.induct) (auto simp: xor_read_append xor_wf_read split: prod.split)

lemma clear_events_segments: "Arrive [] \<notin> set evs \<Longrightarrow> Arrive [] \<notin> set (clear_events P x evs)"
proof (induction P x evs rule: clear_events.induct)
  case (2 P x seg evs)
  then show ?case by (auto split: prod.splits dest: xor_read_some)
qed auto

lemma clear_events_append: "clear_events P x (evs @ map Read caps) = clear_events P x evs @ map Read caps"
proof (induction P x evs rule: clear_events.induct)
  case (1 P x)
  show ?case by (induction caps) simp_all
qed (auto split: prod.split)

section \<open>Records\<close>

text \<open>The record that carries \<open>d\<close> and the sealing state behind it; both ends step through the same states.\<close>

definition enc_record :: "vless_prims \<Rightarrow> aead \<Rightarrow> bytes \<Rightarrow> bytes" where
  "enc_record P a d = enc_header (length d + 16) @ (case snd (aead_seal P a d (enc_header (length d + 16))) of Inr ct \<Rightarrow> ct | Inl _ \<Rightarrow> [])"

definition enc_after :: "vless_prims \<Rightarrow> bytes \<Rightarrow> bool \<Rightarrow> aead \<Rightarrow> bytes \<Rightarrow> aead" where
  "enc_after P uk aes a d = (if at_max a then aead_new P (enc_record P a d) uk aes else a\<lparr>ae_nonce := increase (ae_nonce a)\<rparr>)"

definition enc_afters :: "vless_prims \<Rightarrow> bytes \<Rightarrow> bool \<Rightarrow> aead \<Rightarrow> bytes list \<Rightarrow> aead" where
  "enc_afters P uk aes a ds = foldl (enc_after P uk aes) a ds"

fun records :: "vless_prims \<Rightarrow> bytes \<Rightarrow> bool \<Rightarrow> aead \<Rightarrow> bytes list \<Rightarrow> bytes" where
  "records P uk aes a [] = []"
| "records P uk aes a (d # ds) = enc_record P a d @ records P uk aes (enc_after P uk aes a d) ds"

definition enc_chunk_ok :: "bytes \<Rightarrow> bool" where
  "enc_chunk_ok d \<longleftrightarrow> d \<noteq> [] \<and> length d \<le> ENC_MAX_DATA"

lemma records_append: "records P uk aes a (ds @ [d]) = records P uk aes a ds @ enc_record P (enc_afters P uk aes a ds) d"
  by (induction ds arbitrary: a) (simp_all add: enc_afters_def)

lemma seal_opens:
  assumes "vless_prims_ok P" and "length d < 2 ^ 36 - 31"
  obtains ct where "aead_seal P a d aad = (a\<lparr>ae_nonce := increase (ae_nonce a)\<rparr>, Inr ct)" and "length ct = length d + 16"
    and "aead_open P a ct aad = (a\<lparr>ae_nonce := increase (ae_nonce a)\<rparr>, Inr d)"
proof -
  from assms obtain ct where "seal_aad P (ae_aes a) (ae_key a) (increase (ae_nonce a)) aad d = Some ct"
    "length ct = length d + 16" "open_aad P (ae_aes a) (ae_key a) (increase (ae_nonce a)) aad ct = Some d"
    unfolding vless_prims_ok_def by metis
  then show ?thesis using that [of ct] by (simp add: aead_seal_def aead_open_def aead_enc_def aead_dec_def)
qed

lemma record_parts:
  assumes "vless_prims_ok P" and "enc_chunk_ok d"
  obtains ct where "enc_record P a d = enc_header (length d + 16) @ ct" and "length ct = length d + 16"
    and "aead_seal P a d (enc_header (length d + 16)) = (a\<lparr>ae_nonce := increase (ae_nonce a)\<rparr>, Inr ct)"
    and "aead_open P a ct (enc_header (length d + 16)) = (a\<lparr>ae_nonce := increase (ae_nonce a)\<rparr>, Inr d)"
proof -
  have "length d < 2 ^ 36 - 31" using assms(2) by (simp add: enc_chunk_ok_def)
  from seal_opens [OF assms(1) this, of a "enc_header (length d + 16)"] that show ?thesis
    by (auto simp: enc_record_def)
qed

lemma header_length: "n < 65536 \<Longrightarrow> enc_header n = [23, 3, 3, of_nat (n div 256), of_nat n]
    \<and> 256 * unat (of_nat (n div 256) :: u8) + unat (of_nat n :: u8) = n"
  by (auto simp: enc_header_def len_be_def unat_of_nat take_bit_eq_mod)

lemma records_carried:
  assumes "vless_prims_ok P" and "\<forall>d \<in> set ds. enc_chunk_ok d" and "ve_stage p = EncHeader"
  shows "enc_reader.wire P p (records P (ve_united_key p) (ve_use_aes p) (ve_peer p) ds) ds"
  using assms(2-)
proof (induction ds arbitrary: p)
  case Nil
  then show ?case by (auto intro!: carries_end simp: enc_eof_ok_def enc_need_def)
next
  case (Cons d ds)
  have d: "enc_chunk_ok d" "d \<noteq> []" "length d \<le> ENC_MAX_DATA" using Cons.prems by (simp_all add: enc_chunk_ok_def)
  from record_parts [OF assms(1) d(1), of "ve_peer p"] obtain ct where
    r: "enc_record P (ve_peer p) d = enc_header (length d + 16) @ ct" "length ct = length d + 16"
    and o: "aead_open P (ve_peer p) ct (enc_header (length d + 16)) = ((ve_peer p)\<lparr>ae_nonce := increase (ae_nonce (ve_peer p))\<rparr>, Inr d)" .
  let ?h = "enc_header (length d + 16)"
  let ?p1 = "p\<lparr>ve_hdr := ?h, ve_stage := EncData (length d + 16)\<rparr>"
  let ?p2 = "?p1\<lparr>ve_peer := enc_after P (ve_united_key p) (ve_use_aes p) (ve_peer p) d, ve_stage := EncHeader\<rparr>"
  have "length d + 16 < 65536" using d(3) by simp
  note h = header_length [OF this]
  have "0 < length d" using d(2) by simp
  then have "17 \<le> length d + 16" "length d + 16 \<le> 16640" using d(3) by (simp_all del: length_greater_0_conv)
  then have one: "enc_handle P p ?h = (?p1, Inr None)"
    using h Cons.prems(2) by (simp add: enc_handle_def read_header_def Let_def)
  have two: "enc_handle P ?p1 ct = (?p2, Inr (Some d))"
    using o r(1) by (simp add: enc_handle_def read_data_def enc_after_def Let_def)
  have "enc_reader.wire P ?p2 (records P (ve_united_key p) (ve_use_aes p) (ve_peer ?p2) ds) ds"
    using Cons.IH [of ?p2] Cons.prems by simp
  then have "enc_reader.wire P ?p1 (ct @ records P (ve_united_key p) (ve_use_aes p) (ve_peer ?p2) ds) (d # ds)"
    using two r(2) d(2) by (intro carries_chunk) (auto simp: enc_need_def)
  moreover have "length ?h = enc_need p" using h Cons.prems(2) by (simp add: enc_need_def)
  ultimately have "enc_reader.wire P p (?h @ ct @ records P (ve_united_key p) (ve_use_aes p) (ve_peer ?p2) ds) (d # ds)"
    using one by (metis carries_skip)
  then show ?case by (simp add: r(1))
qed

definition enc_wire :: "vless_prims \<Rightarrow> enc_state \<Rightarrow> bytes list \<Rightarrow> bytes" where
  "enc_wire P st ds = fst (xor_write P (es_xor st) (records P (es_united_key st) (es_use_aes st) (es_write_aead st) ds))"

definition enc_written :: "vless_prims \<Rightarrow> enc_state \<Rightarrow> bytes list \<Rightarrow> vless_enc" where
  "enc_written P st ds = (enc_start st)
     \<lparr>ve_write := enc_afters P (es_united_key st) (es_use_aes st) (es_write_aead st) ds,
      ve_xor := snd (xor_write P (es_xor st) (records P (es_united_key st) (es_use_aes st) (es_write_aead st) ds))\<rparr>"

lemma xor_write_Nil [simp]: "xor_write P x [] = ([], x)"
  by (cases x) (simp_all add: transform_write_def headers_loop.simps)

interpretation enc_writer: frame_writer "enc_encode P" "enc_written P st" "enc_wire P st" enc_chunk_ok "vless_prims_ok P \<and> xor_wf (es_xor st)"
  for P st
proof
  fix buf :: bytes and cs :: "bytes list"
  assume ok: "vless_prims_ok P \<and> xor_wf (es_xor st)" and buf: "buf \<noteq> []"
  let ?n = "min (length buf) ENC_MAX_DATA" and ?uk = "es_united_key st" and ?aes = "es_use_aes st"
  let ?d = "take ?n buf" and ?a = "enc_afters P ?uk ?aes (es_write_aead st) cs"
  have d: "enc_chunk_ok ?d" "length ?d = ?n" using buf by (auto simp: enc_chunk_ok_def)
  from record_parts [OF conjunct1 [OF ok] d(1), of ?a] obtain ct where
    r: "enc_record P ?a ?d = enc_header (?n + 16) @ ct"
    and s: "aead_seal P ?a ?d (enc_header (?n + 16)) = (?a\<lparr>ae_nonce := increase (ae_nonce ?a)\<rparr>, Inr ct)"
    unfolding d(2) by metis
  obtain w x where w: "xor_write P (es_xor st) (records P ?uk ?aes (es_write_aead st) cs) = (w, x)" by fastforce
  obtain w' x' where w': "xor_write P x (enc_record P ?a ?d) = (w', x')" by fastforce
  have app: "xor_write P (es_xor st) (records P ?uk ?aes (es_write_aead st) (cs @ [?d])) = (w @ w', x')"
    using ok w w' by (simp add: records_append xor_write_append)
  have "enc_encode P (enc_written P st cs) buf = (enc_written P st (cs @ [?d]), w', Inr ?n)"
    using s r w w' app by (simp add: enc_encode_def Let_def enc_written_def enc_start_def enc_afters_def enc_after_def)
  moreover have "enc_wire P st (cs @ [?d]) = enc_wire P st cs @ w'" using app w by (simp add: enc_wire_def)
  moreover have "0 < ?n" "?n \<le> length buf" using buf by auto
  ultimately show "\<exists>n>0. n \<le> length buf \<and> enc_chunk_ok (take n buf) \<and> (\<exists>queued. enc_encode P (enc_written P st cs) buf
        = (enc_written P st (cs @ [take n buf]), queued, Inr n) \<and> enc_wire P st (cs @ [take n buf]) = enc_wire P st cs @ queued)"
    using d(1) by blast
qed

section \<open>Both ends\<close>

text \<open>
  The states of the two ends after a handshake: the reader \<open>r\<close> has the keys and the place in the key
  stream of the writer \<open>w\<close>; \<open>pad\<close> is the sealed padding the reader still expects, if any.
\<close>

definition enc_mirror :: "vless_prims \<Rightarrow> enc_state \<Rightarrow> enc_state \<Rightarrow> bytes \<Rightarrow> bool" where
  "enc_mirror P w r pad \<longleftrightarrow>
     es_united_key r = es_united_key w \<and> es_use_aes r = es_use_aes w \<and> es_peer_padding_len r = length pad
     \<and> (if pad = [] then es_peer_aead r = es_write_aead w
        else \<exists>padding. aead_open P (es_peer_aead r) pad [] = (es_write_aead w, Inr padding))
     \<and> xor_mirror (length pad) (es_xor w) (es_xor r) \<and> xor_wf (es_xor w) \<and> xor_wf (es_xor r)"

lemma enc_mirror_carried:
  assumes "vless_prims_ok P" and "\<forall>d \<in> set ds. enc_chunk_ok d" and "enc_mirror P w r pad"
  shows "enc_reader.wire P ((enc_start r)\<lparr>ve_xor := None\<rparr>) (pad @ records P (es_united_key w) (es_use_aes w) (es_write_aead w) ds) ds"
proof (cases "pad = []")
  case True
  then show ?thesis using records_carried [OF assms(1,2), of "(enc_start r)\<lparr>ve_xor := None\<rparr>"] assms(3)
    by (simp add: enc_start_def enc_mirror_def)
next
  case False
  let ?p = "(enc_start r)\<lparr>ve_xor := None\<rparr>"
  let ?q = "?p\<lparr>ve_peer := es_write_aead w, ve_stage := EncHeader\<rparr>"
  have "enc_handle P ?p pad = (?q, Inr None)" "length pad = enc_need ?p"
    using False assms(3) by (auto simp: enc_handle_def enc_start_def enc_mirror_def enc_need_def)
  moreover have "enc_reader.wire P ?q (records P (es_united_key w) (es_use_aes w) (es_write_aead w) ds) ds"
    using records_carried [OF assms(1,2), of ?q] assms(3) by (simp add: enc_mirror_def enc_start_def)
  ultimately show ?thesis by (metis carries_skip)
qed

text \<open>C11. VLESS encryption, both ends: whatever the transport accepts per write and however it cuts the bytes, in every mode,
  with or without padding and across changes of the key, once the writer's queue is flushed the other end, polled often enough,
  gets exactly the bytes that were taken from the writing application, in order and without an error.\<close>

theorem vless_enc_end_to_end:
  assumes "vless_prims_ok P" and "enc_mirror P w r pad"
    and "run_writes (enc_poll_write P) (enc_new (open_transport accepts) w) bufs = (Some taken, s)"
    and "unsent s = []" and "arrivals evs = pad @ sent (inner s)" and "Arrive [] \<notin> set evs"
    and "\<forall>c \<in> set caps. 0 < c" and "length (concat taken) \<le> length caps"
  shows "delivered (fst (run_reads (enc_poll_read P) (enc_new (open_transport []) r) (evs @ map Read caps))) = Some (concat taken)"
proof -
  have wf: "xor_wf (es_xor w)" "xor_wf (es_xor r)" using assms(2) by (simp_all add: enc_mirror_def)
  have "enc_writer.wrote P w [] (enc_new (open_transport accepts) w)"
    using assms(1) wf unfolding enc_writer.wrote_def
    by (simp add: enc_new_def fstream_new_def enc_written_def enc_wire_def open_transport_def enc_afters_def enc_start_def)
  from enc_writer.run_wrote [OF this, of bufs taken s] assms(3)
  have "enc_writer.wrote P w taken s" by (simp add: enc_poll_write_def [abs_def])
  then have sent: "sent (inner s) = enc_wire P w taken" "\<forall>d \<in> set taken. enc_chunk_ok d"
    using assms(4) by (simp_all add: enc_writer.wrote_def)
  let ?plain = "pad @ records P (es_united_key w) (es_use_aes w) (es_write_aead w) taken"
  let ?s = "enc_new (open_transport []) r"
  have c: "clear P ?s = fstream_new (open_transport []) [] ((enc_start r)\<lparr>ve_xor := None\<rparr>)"
    by (simp add: clear_def enc_new_def fstream_new_def open_transport_def)
  have behind: "xor_behind P ?s = es_xor r"
    by (simp add: xor_behind_def enc_new_def fstream_new_def open_transport_def enc_start_def)
  have "arrivals (clear_events P (es_xor r) evs) = ?plain"
    using clear_events_arrivals [OF wf(2)] xor_mirror_inverse [of "length pad" "es_xor w" "es_xor r" pad P] assms(2,5) sent(1)
    by (simp add: enc_mirror_def enc_wire_def)
  moreover have "enc_reader.due P ?plain (concat taken) (clear P ?s)"
    unfolding c unfolding open_transport_def by (rule enc_reader.due_new [OF enc_mirror_carried [OF assms(1) sent(2) assms(2)]])
  ultimately have "delivered (fst (run_reads (framed_poll_read (clear_loop P)) (clear P ?s) (clear_events P (es_xor r) evs @ map Read caps)))
      = Some (concat taken)"
    using enc_reader.reads_back [of P "clear_events P (es_xor r) evs" "concat taken" "clear P ?s" caps]
      clear_events_segments [OF assms(6)] assms(7,8) by simp
  moreover have "wf_stream ?s" using wf(2) by (simp add: wf_stream_def enc_new_def fstream_new_def enc_start_def)
  ultimately show ?thesis by (simp add: run_clear behind clear_events_append)
qed

definition sample_vprims :: vless_prims where
  "sample_vprims = \<lparr>derive_key = (\<lambda>c k. take 32 (c @ k)), seal_aad = (\<lambda>_ k n aad pt. sample_seal k n pt),
     open_aad = (\<lambda>_ k n aad ct. sample_open k n ct), keystream = (\<lambda>k iv i. of_nat (i + 7))\<rparr>"

lemma sample_vprims_ok: "vless_prims_ok sample_vprims"
  by (auto simp: vless_prims_ok_def sample_vprims_def sample_seal_def sample_open_def split: if_splits)

definition sample_w :: enc_state where
  "sample_w = \<lparr>es_write_aead = \<lparr>ae_aes = True, ae_key = [1], ae_nonce = MAX_NONCE\<rparr>, es_peer_aead = aead_new sample_vprims [1] [] True,
     es_united_key = [3], es_use_aes = True, es_peer_padding_len = 0, es_xor = Some (client_1rtt sample_vprims [3] [4] [5] 0)\<rparr>"

definition sample_pad :: bytes where
  "sample_pad = MAX_NONCE @ [0, 0, 0, 0]"

definition sample_r :: enc_state where
  "sample_r = \<lparr>es_write_aead = aead_new sample_vprims [1] [] True, es_peer_aead = \<lparr>ae_aes = True, ae_key = [1], ae_nonce = butlast MAX_NONCE @ [254]\<rparr>,
     es_united_key = [3], es_use_aes = True, es_peer_padding_len = 16, es_xor = Some (client_1rtt sample_vprims [3] [5] [4] 16)\<rparr>"

lemma sample_mirror: "enc_mirror sample_vprims sample_w sample_r sample_pad"
proof -
  have "aead_open sample_vprims (es_peer_aead sample_r) sample_pad [] = (es_write_aead sample_w, Inr [])" by code_simp
  moreover have "length sample_pad = 16" by code_simp
  moreover have "xor_mirror 16 (es_xor sample_w) (es_xor sample_r) \<and> xor_wf (es_xor sample_w) \<and> xor_wf (es_xor sample_r)"
    by (simp add: sample_w_def sample_r_def xor_mirror_def xor_wf_def client_1rtt_def)
  ultimately show ?thesis by (auto simp: enc_mirror_def sample_w_def sample_r_def)
qed

definition sample_enc_writer :: "bytes list option \<times> vless_enc fstream" where
  "sample_enc_writer = run_writes (enc_poll_write sample_vprims) (enc_new (open_transport [Accept 10, Accept 100]) sample_w) [[1, 2, 3]]"

lemma sample_enc_runs: "fst sample_enc_writer = Some [[1, 2, 3]] \<and> unsent (snd sample_enc_writer) = [] \<and> length (sent (inner (snd sample_enc_writer))) = 24"
  by code_simp

theorem vless_enc_end_to_end_witness:
  "delivered (fst (run_reads (enc_poll_read sample_vprims) (enc_new (open_transport []) sample_r)
     ([Arrive (sample_pad @ take 3 (sent (inner (snd sample_enc_writer)))), Read 5, Arrive (drop 3 (sent (inner (snd sample_enc_writer))))]
       @ map Read [2, 2, 2]))) = Some [1, 2, 3]"
proof -
  let ?w = "sent (inner (snd sample_enc_writer))"
  let ?evs = "[Arrive (sample_pad @ take 3 ?w), Read 5, Arrive (drop 3 ?w)]"
  have run: "run_writes (enc_poll_write sample_vprims) (enc_new (open_transport [Accept 10, Accept 100]) sample_w) [[1, 2, 3]]
      = (Some [[1, 2, 3]], snd sample_enc_writer)"
    using sample_enc_runs by (metis prod.collapse sample_enc_writer_def)
  have "arrivals ?evs = sample_pad @ ?w" by simp
  moreover have "Arrive [] \<notin> set ?evs" using sample_enc_runs by (auto simp: sample_pad_def)
  ultimately show ?thesis
    using vless_enc_end_to_end [OF sample_vprims_ok sample_mirror run, of ?evs "[2, 2, 2]"] sample_enc_runs by simp
qed

section \<open>Nonces\<close>

text \<open>The keys and nonces a writer seals under, with the number of changes of the key before.\<close>

fun nonce_trace :: "vless_prims \<Rightarrow> bytes \<Rightarrow> bool \<Rightarrow> nat \<Rightarrow> aead \<Rightarrow> bytes list \<Rightarrow> (nat \<times> bytes) list" where
  "nonce_trace P uk aes k a [] = []"
| "nonce_trace P uk aes k a (d # ds) =
     (k, increase (ae_nonce a)) # nonce_trace P uk aes (if at_max a then Suc k else k) (enc_after P uk aes a d) ds"

definition be_value :: "bytes \<Rightarrow> nat" where
  "be_value n = le_value (rev n)"

lemma le_value_inj: "length n = length m \<Longrightarrow> le_value n = le_value m \<Longrightarrow> n = m"
proof (induction n m rule: list_induct2)
  case (Cons b n c m)
  from Cons.prems have "le_value (b # n) mod 256 = le_value (c # m) mod 256" "le_value (b # n) div 256 = le_value (c # m) div 256" by simp_all
  then have "unat b = unat c" "le_value n = le_value m" by simp_all
  then show ?case using Cons.IH by (simp add: unsigned_word_eqI)
qed simp

lemma max_nonce_value:
  assumes "length n = 12"
  shows "n = MAX_NONCE \<longleftrightarrow> be_value n = 256 ^ 12 - 1"
proof -
  have "be_value MAX_NONCE = 256 ^ 12 - 1" by (simp add: be_value_def MAX_NONCE_def text_eval)
  moreover have "rev n = rev MAX_NONCE" if "le_value (rev n) = le_value (rev MAX_NONCE)"
    by (rule le_value_inj [OF _ that]) (simp add: assms MAX_NONCE_def)
  ultimately show ?thesis by (auto simp: be_value_def)
qed

lemma be_value_increase: "length n = 12 \<Longrightarrow> be_value (increase n) = (be_value n + 1) mod 256 ^ 12"
  by (simp add: be_value_def increase_def le_value_incr)

text \<open>The place of a nonce among those of its key: one comes first, zero comes last.\<close>

definition nonce_rank :: "bytes \<Rightarrow> nat" where
  "nonce_rank n = (if be_value n = 0 then 256 ^ 12 else be_value n)"

lemma nonce_rank_increase: "length n = 12 \<Longrightarrow> nonce_rank (increase n) = be_value n + 1"
proof -
  assume n: "length n = 12"
  then have "be_value n + 1 \<le> 256 ^ 12" using le_value_less [of "rev n"] by (simp add: be_value_def)
  then show ?thesis using be_value_increase [OF n] by (cases "be_value n + 1 = 256 ^ 12") (simp_all add: nonce_rank_def)
qed

lemma nonce_trace_after:
  assumes "length (ae_nonce a) = 12" and "e \<in> set (nonce_trace P uk aes k a ds)"
  shows "k < fst e \<or> k = fst e \<and> be_value (ae_nonce a) < nonce_rank (snd e)"
  using assms
proof (induction ds arbitrary: k a)
  case (Cons d ds)
  note r = nonce_rank_increase [OF Cons.prems(1)]
  show ?case
  proof (cases "e = (k, increase (ae_nonce a))")
    case True
    then show ?thesis using r by simp
  next
    case False
    then have e: "e \<in> set (nonce_trace P uk aes (if at_max a then Suc k else k) (enc_after P uk aes a d) ds)" using Cons.prems(2) by simp
    have len: "length (ae_nonce (enc_after P uk aes a d)) = 12" using Cons.prems(1) by (simp add: enc_after_def aead_new_def increase_def)
    from Cons.IH [OF len e] show ?thesis
    proof (cases "at_max a")
      case False
      then have "be_value (ae_nonce a) + 1 < 256 ^ 12"
        using max_nonce_value [OF Cons.prems(1)] le_value_less [of "rev (ae_nonce a)"] Cons.prems(1) by (simp add: at_max_def be_value_def)
      then have "be_value (ae_nonce (enc_after P uk aes a d)) = be_value (ae_nonce a) + 1"
        using False be_value_increase [OF Cons.prems(1)] by (simp add: enc_after_def)
      with Cons.IH [OF len e] False show ?thesis by auto
    qed auto
  qed
qed simp

text \<open>No two records are sealed under the same key with the same nonce, however long the stream is.\<close>

lemma nonce_trace_distinct: "length (ae_nonce a) = 12 \<Longrightarrow> distinct (nonce_trace P uk aes k a ds)"
proof (induction ds arbitrary: k a)
  case (Cons d ds)
  note r = nonce_rank_increase [OF Cons.prems]
  have len: "length (ae_nonce (enc_after P uk aes a d)) = 12" using Cons.prems by (simp add: enc_after_def aead_new_def increase_def)
  have "(k, increase (ae_nonce a)) \<notin> set (nonce_trace P uk aes (if at_max a then Suc k else k) (enc_after P uk aes a d) ds)"
  proof
    assume "(k, increase (ae_nonce a)) \<in> set (nonce_trace P uk aes (if at_max a then Suc k else k) (enc_after P uk aes a d) ds)"
    from nonce_trace_after [OF len this] have "\<not> at_max a" "be_value (increase (ae_nonce a)) < nonce_rank (increase (ae_nonce a))"
      by (auto simp: enc_after_def split: if_splits)
    moreover from this(1) have "be_value (increase (ae_nonce a)) = be_value (ae_nonce a) + 1"
      using be_value_increase [OF Cons.prems] max_nonce_value [OF Cons.prems] le_value_less [of "rev (ae_nonce a)"] Cons.prems
      by (simp add: at_max_def be_value_def)
    ultimately show False using r by simp
  qed
  then show ?case using Cons.IH [OF len] by simp
qed simp

end
