(* ===== verification/VlessHello.thy ===== *)
theory VlessHello
  imports VlessEnc
begin

text \<open>
  \<open>crates/net/src/vless_encryption/mod.rs\<close> and \<open>handshake.rs\<close>: the descriptor of VLESS encryption and
  the handshake of the client. X25519 and ML-KEM-768 are parameters with the laws of a key agreement
  and of a key encapsulation; the random numbers are arguments. The other side is a reference server
  written down from the message layout of the comments: after a handshake with it both ends hold the
  same keys, so that the streams of both directions carry what is written.
\<close>

section \<open>The descriptor\<close>

datatype enc_mode = Native | Xorpub | Random

datatype nfs_key = X25519 bytes | MlKem768 bytes

record vless_encryption =
  en_mode :: enc_mode
  en_zero_rtt :: bool
  en_nfs_key :: nfs_key
  en_padding :: "string list"

datatype enc_error = UnsupportedEncryption string | UnknownMode string | ExpectedRtt string | UndecodableKey | KeyLength nat

text \<open>\<open>decode\<close> is the decoder \<open>URL_SAFE_NO_PAD\<close> of the base64 crate.\<close>

definition base64url_decode :: "(string \<Rightarrow> bytes option) \<Rightarrow> string \<Rightarrow> bytes option" where
  "base64url_decode decode s = decode (trim_end_matches (CHR ''='') s)"

definition parse_mode :: "string \<Rightarrow> enc_error + enc_mode" where
  "parse_mode m = (if m = ''native'' then Inr Native else if m = ''xorpub'' then Inr Xorpub
     else if m = ''random'' then Inr Random else Inl (UnknownMode m))"

definition parse_rtt :: "string \<Rightarrow> enc_error + bool" where
  "parse_rtt r = (if r = ''0rtt'' then Inr True else if r = ''1rtt'' then Inr False else Inl (ExpectedRtt r))"

definition parse_nfs_key :: "bytes \<Rightarrow> enc_error + nfs_key" where
  "parse_nfs_key k = (if length k = 32 then Inr (X25519 k) else if length k = 1184 then Inr (MlKem768 k) else Inl (KeyLength (length k)))"

definition parse_encryption :: "(string \<Rightarrow> bytes option) \<Rightarrow> string \<Rightarrow> enc_error + vless_encryption option" where
  "parse_encryption decode desc =
     (let d = trim desc
      in if d = [] \<or> d = ''none'' then Inr None
         else case split_on (CHR ''.'') d of
             scheme # m # r # key # padding \<Rightarrow>
               if scheme \<noteq> ''mlkem768x25519plus'' then Inl (UnsupportedEncryption d)
               else rbind (parse_mode m) (\<lambda>mode.
                 rbind (parse_rtt r) (\<lambda>zero_rtt.
                 rbind (ok_or (base64url_decode decode key) UndecodableKey) (\<lambda>key_bytes.
                 rbind (parse_nfs_key key_bytes) (\<lambda>nfs.
                   Inr (Some \<lparr>en_mode = mode, en_zero_rtt = zero_rtt, en_nfs_key = nfs, en_padding = padding\<rparr>)))))
           | _ \<Rightarrow> Inl (UnsupportedEncryption d))"

section \<open>Key agreement\<close>

text \<open>
  \<open>x_public\<close> and \<open>x_agree\<close> are X25519 on a private key; \<open>kem_keygen\<close> makes the two keys of ML-KEM from a
  seed, \<open>kem_encaps\<close> takes a seed and an encapsulation key.
\<close>

record kex_prims =
  x_public :: "bytes \<Rightarrow> bytes option"
  x_agree :: "bytes \<Rightarrow> bytes \<Rightarrow> bytes option"
  kem_keygen :: "bytes \<Rightarrow> (bytes \<times> bytes) option"
  kem_encaps :: "bytes \<Rightarrow> bytes \<Rightarrow> (bytes \<times> bytes) option"
  kem_decaps :: "bytes \<Rightarrow> bytes \<Rightarrow> bytes option"

definition kex_ok :: "kex_prims \<Rightarrow> bool" where
  "kex_ok K \<longleftrightarrow>
     (\<forall>a b pa pb. x_public K a = Some pa \<longrightarrow> x_public K b = Some pb \<longrightarrow> x_agree K a pb = x_agree K b pa)
     \<and> (\<forall>a pa. x_public K a = Some pa \<longrightarrow> length pa = 32) \<and> (\<forall>a p s. x_agree K a p = Some s \<longrightarrow> length s = 32)
     \<and> (\<forall>seed dk ek. kem_keygen K seed = Some (dk, ek) \<longrightarrow> length ek = 1184)
     \<and> (\<forall>seed ek ct ss. kem_encaps K seed ek = Some (ct, ss) \<longrightarrow> length ct = 1088)
     \<and> (\<forall>seed dk ek seed' ct ss. kem_keygen K seed = Some (dk, ek) \<longrightarrow> kem_encaps K seed' ek = Some (ct, ss) \<longrightarrow> kem_decaps K dk ct = Some ss)"

definition mlkem_encapsulate :: "kex_prims \<Rightarrow> bytes \<Rightarrow> bytes \<Rightarrow> io_error + bytes \<times> bytes" where
  "mlkem_encapsulate K seed ek_bytes = ok_or (kem_encaps K seed ek_bytes) (IoOther ''vless-enc: ML-KEM encapsulate'')"

definition x25519_keypair :: "kex_prims \<Rightarrow> bytes \<Rightarrow> io_error + bytes \<times> bytes" where
  "x25519_keypair K sk = rbind (ok_or (x_public K sk) (IoOther ''vless-enc: X25519 pub'')) (\<lambda>pub. Inr (sk, pub))"

definition x25519_ecdh :: "kex_prims \<Rightarrow> bytes \<Rightarrow> bytes \<Rightarrow> io_error + bytes" where
  "x25519_ecdh K my their = ok_or (x_agree K my their) (IoOther ''vless-enc: X25519 ECDH'')"

abbreviation encode_length :: "nat \<Rightarrow> bytes" where
  "encode_length \<equiv> len_be"

definition decode_length :: "bytes \<Rightarrow> io_error + nat" where
  "decode_length b = be_length b"

section \<open>The client\<close>

text \<open>What the client draws: the initial vector, private keys and seeds.\<close>

record hello_random =
  hr_iv :: bytes
  hr_relay :: bytes
  hr_kem :: bytes
  hr_pfs :: bytes

fun nfs_key_bytes :: "nfs_key \<Rightarrow> bytes" where
  "nfs_key_bytes (X25519 k) = k"
| "nfs_key_bytes (MlKem768 k) = k"

fun relays_of :: "kex_prims \<Rightarrow> nfs_key \<Rightarrow> bytes \<Rightarrow> io_error + bytes \<times> bytes" where
  "relays_of K (X25519 server_static) rnd =
     rbind (x25519_keypair K rnd) (\<lambda>(eph_priv, eph_pub).
     rbind (x25519_ecdh K eph_priv server_static) (\<lambda>shared. Inr (eph_pub, shared)))"
| "relays_of K (MlKem768 ek_bytes) rnd = mlkem_encapsulate K rnd ek_bytes"

text \<open>A sequence of seals, as the hello makes them.\<close>

definition seal_then :: "vless_prims \<Rightarrow> aead \<Rightarrow> bytes \<Rightarrow> (aead \<Rightarrow> bytes \<Rightarrow> io_error + 'b) \<Rightarrow> io_error + 'b" where
  "seal_then P a pt k = (case aead_seal P a pt [] of (a, r) \<Rightarrow> rbind r (k a))"

definition open_then :: "vless_prims \<Rightarrow> aead \<Rightarrow> bytes \<Rightarrow> (aead \<Rightarrow> bytes \<Rightarrow> io_error + 'b) \<Rightarrow> io_error + 'b" where
  "open_then P a ct k = (case aead_open P a ct [] of (a, r) \<Rightarrow> rbind r (k a))"

record hello_state =
  hs_iv :: bytes
  hs_nfs_key :: bytes
  hs_nfs :: aead
  hs_decap :: bytes
  hs_pfs_priv :: bytes
  hs_pfs_public_key :: bytes

abbreviation (input) USE_AES :: bool where "USE_AES \<equiv> True"

definition client_hello :: "vless_prims \<Rightarrow> kex_prims \<Rightarrow> hello_random \<Rightarrow> vless_encryption \<Rightarrow> io_error + bytes \<times> hello_state" where
  "client_hello P K rnd enc =
     (let iv = hr_iv rnd
      in rbind (relays_of K (en_nfs_key enc) (hr_relay rnd)) (\<lambda>(relays, nfs_key).
         let relays = (if en_mode enc = Native then relays else xor_relays P (nfs_key_bytes (en_nfs_key enc)) iv relays);
             nfs = aead_new P iv nfs_key USE_AES
         in rbind (ok_or (kem_keygen K (hr_kem rnd)) (IoOther ''vless-enc: ML-KEM keygen'')) (\<lambda>(decap, encap_bytes).
            rbind (x25519_keypair K (hr_pfs rnd)) (\<lambda>(pfs_priv, pfs_pub).
            let pfs_public_key = encap_bytes @ pfs_pub
            in seal_then P nfs (encode_length (length pfs_public_key + 16)) (\<lambda>nfs b1.
               seal_then P nfs pfs_public_key (\<lambda>nfs b2.
               seal_then P nfs (encode_length 16) (\<lambda>nfs b3.
               seal_then P nfs [] (\<lambda>nfs b4.
                 Inr (iv @ relays @ b1 @ b2 @ b3 @ b4,
                      \<lparr>hs_iv = iv, hs_nfs_key = nfs_key, hs_nfs = nfs, hs_decap = decap, hs_pfs_priv = pfs_priv,
                       hs_pfs_public_key = pfs_public_key\<rparr>)))))))))"

text \<open>The answer: \<open>inp\<close> is what the server sends, the rest of it is left for the stream.\<close>

definition server_hello :: "vless_prims \<Rightarrow> kex_prims \<Rightarrow> vless_encryption \<Rightarrow> hello_state \<Rightarrow> bytes \<Rightarrow> io_error + enc_state \<times> bytes" where
  "server_hello P K enc h inp =
     rbind (read_exact (1088 + 32 + 16) inp) (\<lambda>(enc_pfs, inp).
     rbind (aead_dec P (hs_nfs h) MAX_NONCE enc_pfs []) (\<lambda>server_pfs.
     if length server_pfs \<noteq> 1120 then Inl (IoOther ''vless-enc: serverPfs'')
     else rbind (ok_or (kem_decaps K (hs_decap h) (take 1088 server_pfs)) (IoOther ''vless-enc: ML-KEM decapsulate'')) (\<lambda>mlkem_shared.
     rbind (x25519_ecdh K (hs_pfs_priv h) (drop 1088 server_pfs)) (\<lambda>x_shared.
     let united_key = mlkem_shared @ x_shared @ hs_nfs_key h;
         write_aead = aead_new P (hs_pfs_public_key h) united_key USE_AES;
         peer_aead = aead_new P server_pfs united_key USE_AES
     in rbind (read_exact 32 inp) (\<lambda>(enc_ticket, inp).
        open_then P peer_aead enc_ticket (\<lambda>peer_aead ticket_plain.
        rbind (read_exact 18 inp) (\<lambda>(enc_len, inp).
        open_then P peer_aead enc_len (\<lambda>peer_aead dl.
        rbind (decode_length dl) (\<lambda>peer_padding_len.
        rbind (if en_mode enc = Random
               then rbind (slice ticket_plain 0 16) (\<lambda>t16. Inr (Some (client_1rtt P united_key (hs_iv h) t16 peer_padding_len)))
               else Inr None) (\<lambda>xor.
          Inr (\<lparr>es_write_aead = write_aead, es_peer_aead = peer_aead, es_united_key = united_key, es_use_aes = USE_AES,
                es_peer_padding_len = peer_padding_len, es_xor = xor\<rparr>, inp)))))))))))"

definition client_handshake :: "vless_prims \<Rightarrow> kex_prims \<Rightarrow> hello_random \<Rightarrow> vless_encryption \<Rightarrow> bytes \<Rightarrow> io_error + bytes \<times> enc_state \<times> bytes" where
  "client_handshake P K rnd enc inp =
     rbind (client_hello P K rnd enc) (\<lambda>(hello, h).
     rbind (server_hello P K enc h inp) (\<lambda>(st, rest). Inr (hello, st, rest)))"

section \<open>A reference server\<close>

text \<open>
  The secret of the static key, and what the server draws. The server undoes the mask of the relays,
  opens the hello and answers with its keys, a ticket and the length of its padding; \<open>pad\<close>, the sealed
  padding, follows.
\<close>

datatype nfs_secret = XSecret bytes | KemSecret bytes

record server_random =
  sr_kem :: bytes
  sr_pfs :: bytes
  sr_ticket :: bytes
  sr_padding :: "bytes option"

fun relay_length :: "nfs_secret \<Rightarrow> nat" where
  "relay_length (XSecret _) = 32"
| "relay_length (KemSecret _) = 1088"

fun relay_secret :: "kex_prims \<Rightarrow> nfs_secret \<Rightarrow> bytes \<Rightarrow> bytes option" where
  "relay_secret K (XSecret sk) relays = x_agree K sk relays"
| "relay_secret K (KemSecret dk) relays = kem_decaps K dk relays"

fun key_of_secret :: "kex_prims \<Rightarrow> nfs_secret \<Rightarrow> nfs_key \<Rightarrow> bool" where
  "key_of_secret K (XSecret sk) (X25519 k) = (x_public K sk = Some k)"
| "key_of_secret K (KemSecret dk) (MlKem768 k) = (\<exists>seed. kem_keygen K seed = Some (dk, k))"
| "key_of_secret K _ _ = False"

definition reference_answer :: "vless_prims \<Rightarrow> kex_prims \<Rightarrow> server_random \<Rightarrow> bool \<Rightarrow> bytes \<Rightarrow> bytes \<Rightarrow> bytes \<Rightarrow> aead
    \<Rightarrow> io_error + bytes \<times> enc_state \<times> bytes" where
  "reference_answer P K rnd random iv nfs_key client_pfs nfs =
     rbind (ok_or (kem_encaps K (sr_kem rnd) (take 1184 client_pfs)) (IoOther ''kem'')) (\<lambda>(ct, ss).
     rbind (ok_or (x_public K (sr_pfs rnd)) (IoOther ''x25519'')) (\<lambda>pub.
     rbind (ok_or (x_agree K (sr_pfs rnd) (drop 1184 client_pfs)) (IoOther ''x25519'')) (\<lambda>x_shared.
     let server_pfs = ct @ pub; united_key = ss @ x_shared @ nfs_key;
         writer = aead_new P server_pfs united_key USE_AES
     in rbind (aead_enc P nfs MAX_NONCE server_pfs []) (\<lambda>enc_pfs.
        seal_then P writer (sr_ticket rnd) (\<lambda>writer enc_ticket.
        seal_then P writer (encode_length (case sr_padding rnd of None \<Rightarrow> 0 | Some c \<Rightarrow> length c + 16)) (\<lambda>writer enc_len.
        rbind (case sr_padding rnd of None \<Rightarrow> Inr (writer, []) | Some c \<Rightarrow> seal_then P writer c (\<lambda>writer pad. Inr (writer, pad)))
          (\<lambda>(writer, pad).
          Inr (enc_pfs @ enc_ticket @ enc_len,
               \<lparr>es_write_aead = writer, es_peer_aead = aead_new P client_pfs united_key USE_AES, es_united_key = united_key,
                es_use_aes = USE_AES, es_peer_padding_len = 0,
                es_xor = (if random then Some \<lparr>write_ctr = new_ctr P united_key (sr_ticket rnd), read_ctr = new_ctr P united_key iv,
                   out_skip = 0, out_header = [], in_skip = 0, in_header = []\<rparr> else None)\<rparr>, pad)))))))) "

definition reference_server :: "vless_prims \<Rightarrow> kex_prims \<Rightarrow> server_random \<Rightarrow> enc_mode \<Rightarrow> nfs_secret \<Rightarrow> nfs_key \<Rightarrow> bytes
    \<Rightarrow> io_error + bytes \<times> enc_state \<times> bytes" where
  "reference_server P K rnd mode secret key hello =
     rbind (read_exact 16 hello) (\<lambda>(iv, hello).
     rbind (read_exact (relay_length secret) hello) (\<lambda>(masked, hello).
     let relays = (if mode = Native then masked else xor_relays P (nfs_key_bytes key) iv masked)
     in rbind (ok_or (relay_secret K secret relays) (IoOther ''relay'')) (\<lambda>nfs_key.
        rbind (read_exact 18 hello) (\<lambda>(b1, hello).
        open_then P (aead_new P iv nfs_key USE_AES) b1 (\<lambda>nfs len.
        rbind (be_length len) (\<lambda>n.
        rbind (read_exact n hello) (\<lambda>(b2, hello).
        open_then P nfs b2 (\<lambda>nfs client_pfs.
        rbind (read_exact 18 hello) (\<lambda>(b3, hello).
        open_then P nfs b3 (\<lambda>nfs len.
        rbind (be_length len) (\<lambda>n.
        rbind (read_exact n hello) (\<lambda>(b4, hello).
        open_then P nfs b4 (\<lambda>nfs padding.
          reference_answer P K rnd (mode = Random) iv nfs_key client_pfs nfs)))))))))))))"

section \<open>Both ends hold the same keys\<close>

lemma enc_dec:
  assumes "vless_prims_ok P" and "length pt < 2 ^ 36 - 31"
  obtains ct where "aead_enc P a n pt aad = Inr ct" and "length ct = length pt + 16" and "aead_dec P a n ct aad = Inr pt"
proof -
  from assms obtain ct where "seal_aad P (ae_aes a) (ae_key a) n aad pt = Some ct" "length ct = length pt + 16"
    "open_aad P (ae_aes a) (ae_key a) n aad ct = Some pt" unfolding vless_prims_ok_def by metis
  then show ?thesis using that [of ct] by (simp add: aead_enc_def aead_dec_def)
qed

lemma xor_relays_twice: "xor_relays P k iv (xor_relays P k iv r) = r"
proof -
  have "fst (apply_keystream P c (fst (apply_keystream P c r))) = r" for c
    by (induction r arbitrary: c) (auto simp: xor.assoc split: prod.split, metis fst_conv)
  then show ?thesis by (simp add: xor_relays_def)
qed

lemma length_xor_relays [simp]: "length (xor_relays P k iv r) = length r"
  by (simp add: xor_relays_def)

lemma kex_okD:
  assumes "kex_ok K"
  shows "x_public K a = Some pa \<Longrightarrow> x_public K b = Some pb \<Longrightarrow> x_agree K a pb = x_agree K b pa"
    and "x_public K a = Some pa \<Longrightarrow> length pa = 32"
    and "kem_keygen K seed = Some (dk, ek) \<Longrightarrow> length ek = 1184"
    and "kem_encaps K seed ek = Some (ct, ss) \<Longrightarrow> length ct = 1088"
    and "kem_keygen K seed = Some (dk, ek) \<Longrightarrow> kem_encaps K seed' ek = Some (ct, ss) \<Longrightarrow> kem_decaps K dk ct = Some ss"
  using assms unfolding kex_ok_def by metis+

lemma relays_agree:
  assumes "kex_ok K" and "key_of_secret K secret key" and "relays_of K key rnd = Inr (relays, nfs_key)"
  shows "length relays = relay_length secret" and "relay_secret K secret relays = Some nfs_key"
proof -
  have "length relays = relay_length secret \<and> relay_secret K secret relays = Some nfs_key"
  proof (cases secret)
    case (XSecret sk)
    with assms(2) obtain k where k: "key = X25519 k" "x_public K sk = Some k" by (cases key) auto
    with assms(3) have "x_public K rnd = Some relays" "x_agree K rnd k = Some nfs_key"
      by (auto simp: x25519_keypair_def x25519_ecdh_def)
    then show ?thesis using kex_okD(1) [OF assms(1) k(2), of rnd relays] kex_okD(2) [OF assms(1)] XSecret by simp
  next
    case (KemSecret dk)
    with assms(2) obtain k seed where k: "key = MlKem768 k" "kem_keygen K seed = Some (dk, k)" by (cases key) auto
    with assms(3) have "kem_encaps K rnd k = Some (relays, nfs_key)" by (simp add: mlkem_encapsulate_def)
    then show ?thesis using kex_okD(4,5) [OF assms(1)] k(2) KemSecret by simp
  qed
  then show "length relays = relay_length secret" "relay_secret K secret relays = Some nfs_key" by simp_all
qed

text \<open>What the client sends, and that the server finds the keys in it.\<close>

lemma hello_read:
  assumes "vless_prims_ok P" and "kex_ok K" and "key_of_secret K secret (en_nfs_key enc)" and "length (hr_iv rnd) = 16"
    and "client_hello P K rnd enc = Inr (hello, h)"
  obtains encap pfs_pub where "kem_keygen K (hr_kem rnd) = Some (hs_decap h, encap)" and "x_public K (hs_pfs_priv h) = Some pfs_pub"
    and "hs_pfs_public_key h = encap @ pfs_pub" and "hs_iv h = hr_iv rnd" and "hs_pfs_priv h = hr_pfs rnd"
    and "reference_server P K srnd (en_mode enc) secret (en_nfs_key enc) hello =
      reference_answer P K srnd (en_mode enc = Random) (hs_iv h) (hs_nfs_key h) (hs_pfs_public_key h) (hs_nfs h)"
proof -
  let ?iv = "hr_iv rnd"
  from assms(5) obtain relays nfs_key dk encap pfs_pub where
    r: "relays_of K (en_nfs_key enc) (hr_relay rnd) = Inr (relays, nfs_key)"
    and k: "kem_keygen K (hr_kem rnd) = Some (dk, encap)" and x: "x_public K (hr_pfs rnd) = Some pfs_pub"
    by (fastforce simp: client_hello_def Let_def x25519_keypair_def)
  note ra = relays_agree [OF assms(2,3) r]
  let ?masked = "if en_mode enc = Native then relays else xor_relays P (nfs_key_bytes (en_nfs_key enc)) ?iv relays"
  have lens: "length encap = 1184" "length pfs_pub = 32" using kex_okD(3) [OF assms(2) k] kex_okD(2) [OF assms(2) x] by simp_all
  define on :: "aead \<Rightarrow> aead" where "on = (\<lambda>a. a\<lparr>ae_nonce := increase (ae_nonce a)\<rparr>)"
  define a0 where "a0 = aead_new P ?iv nfs_key USE_AES"
  obtain b1 where b1: "aead_seal P a0 (encode_length 1232) [] = (on a0, Inr b1)" "length b1 = 18" "aead_open P a0 b1 [] = (on a0, Inr (encode_length 1232))"
    using seal_opens [OF assms(1), of "encode_length 1232" a0 "[]"] by (auto simp: on_def len_be_def)
  obtain b2 where b2: "aead_seal P (on a0) (encap @ pfs_pub) [] = (on (on a0), Inr b2)" "length b2 = 1232"
    "aead_open P (on a0) b2 [] = (on (on a0), Inr (encap @ pfs_pub))"
    using seal_opens [OF assms(1), of "encap @ pfs_pub" "on a0" "[]"] by (auto simp: on_def lens)
  obtain b3 where b3: "aead_seal P (on (on a0)) (encode_length 16) [] = (on (on (on a0)), Inr b3)" "length b3 = 18"
    "aead_open P (on (on a0)) b3 [] = (on (on (on a0)), Inr (encode_length 16))"
    using seal_opens [OF assms(1), of "encode_length 16" "on (on a0)" "[]"] by (auto simp: on_def len_be_def)
  obtain b4 where b4: "aead_seal P (on (on (on a0))) [] [] = (on (on (on (on a0))), Inr b4)" "length b4 = 16"
    "aead_open P (on (on (on a0))) b4 [] = (on (on (on (on a0))), Inr [])"
    using seal_opens [OF assms(1), of "[]" "on (on (on a0))" "[]"] by (auto simp: on_def)
  have h: "hello = ?iv @ ?masked @ b1 @ b2 @ b3 @ b4"
    "h = \<lparr>hs_iv = ?iv, hs_nfs_key = nfs_key, hs_nfs = on (on (on (on a0))), hs_decap = dk, hs_pfs_priv = hr_pfs rnd, hs_pfs_public_key = encap @ pfs_pub\<rparr>"
    using assms(5) r k x lens b1(1) b2(1) b3(1) b4(1)
    by (simp_all add: client_hello_def x25519_keypair_def Let_def seal_then_def flip: a0_def)
  have unmask: "(if en_mode enc = Native then ?masked else xor_relays P (nfs_key_bytes (en_nfs_key enc)) ?iv ?masked) = relays"
    by (simp add: xor_relays_twice)
  have last: "read_exact 16 b4 = Inr (b4, [])" using b4(2) by (simp add: read_exact_def)
  have "length ?masked = relay_length secret" using ra(1) by simp
  then have "reference_server P K srnd (en_mode enc) secret (en_nfs_key enc) hello =
      reference_answer P K srnd (en_mode enc = Random) ?iv nfs_key (encap @ pfs_pub) (on (on (on (on a0))))"
    using assms(4) ra(2) b1(2,3) b2(2,3) b3(2,3) b4(3) last unmask
    by (simp add: reference_server_def h(1) be_length_len_be Let_def open_then_def flip: a0_def)
  then show ?thesis using that [of encap pfs_pub] k x by (simp add: h(2))
qed

text \<open>The answer of the server, read by the client.\<close>

lemma answer_read:
  assumes "vless_prims_ok P" and "kex_ok K" and "length (sr_ticket srnd) = 16"
    and "case sr_padding srnd of None \<Rightarrow> True | Some c \<Rightarrow> length c + 16 < 65536"
    and "kem_keygen K seed = Some (hs_decap h, encap)" and "x_public K (hs_pfs_priv h) = Some pfs_pub" and "hs_pfs_public_key h = encap @ pfs_pub"
    and "reference_answer P K srnd (en_mode enc = Random) (hs_iv h) (hs_nfs_key h) (hs_pfs_public_key h) (hs_nfs h) = Inr (answer, sst, pad)"
  shows "\<exists>st. server_hello P K enc h (answer @ pad @ rest) = Inr (st, pad @ rest) \<and> enc_mirror P st sst [] \<and> enc_mirror P sst st pad"
proof -
  have lens: "length encap = 1184" "length pfs_pub = 32"
    using kex_okD(3) [OF assms(2,5)] kex_okD(2) [OF assms(2,6)] by simp_all
  from assms(8) obtain ct ss pub x_shared where
    e: "kem_encaps K (sr_kem srnd) encap = Some (ct, ss)" "x_public K (sr_pfs srnd) = Some pub" "x_agree K (sr_pfs srnd) pfs_pub = Some x_shared"
    by (fastforce simp: reference_answer_def assms(7) lens)
  have shared: "kem_decaps K (hs_decap h) ct = Some ss" "x_agree K (hs_pfs_priv h) pub = Some x_shared"
    using kex_okD(5) [OF assms(2,5) e(1)] kex_okD(1) [OF assms(2,6) e(2)] e(3) by simp_all
  have slens: "length ct = 1088" "length pub = 32" using kex_okD(4) [OF assms(2) e(1)] kex_okD(2) [OF assms(2) e(2)] by simp_all
  define on :: "aead \<Rightarrow> aead" where "on = (\<lambda>a. a\<lparr>ae_nonce := increase (ae_nonce a)\<rparr>)"
  define uk where "uk = ss @ x_shared @ hs_nfs_key h"
  define a0 where "a0 = aead_new P (ct @ pub) uk USE_AES"
  define n where "n = (case sr_padding srnd of None \<Rightarrow> 0 | Some c \<Rightarrow> length c + 16)"
  have n: "n < 65536" using assms(4) by (simp add: n_def split: option.splits)
  obtain b0 where b0: "aead_enc P (hs_nfs h) MAX_NONCE (ct @ pub) [] = Inr b0" "length b0 = 1136" "aead_dec P (hs_nfs h) MAX_NONCE b0 [] = Inr (ct @ pub)"
    using enc_dec [OF assms(1), of "ct @ pub" "hs_nfs h" MAX_NONCE "[]"] by (auto simp: slens)
  obtain b1 where b1: "aead_seal P a0 (sr_ticket srnd) [] = (on a0, Inr b1)" "length b1 = 32" "aead_open P a0 b1 [] = (on a0, Inr (sr_ticket srnd))"
    using seal_opens [OF assms(1), of "sr_ticket srnd" a0 "[]"] by (auto simp: on_def assms(3))
  obtain b2 where b2: "aead_seal P (on a0) (encode_length n) [] = (on (on a0), Inr b2)" "length b2 = 18"
    "aead_open P (on a0) b2 [] = (on (on a0), Inr (encode_length n))"
    using seal_opens [OF assms(1), of "encode_length n" "on a0" "[]"] by (auto simp: on_def len_be_def)
  obtain writer where w: "(case sr_padding srnd of None \<Rightarrow> Inr (on (on a0), [])
      | Some c \<Rightarrow> seal_then P (on (on a0)) c (\<lambda>writer pad. Inr (writer, pad))) = Inr (writer, pad)"
    and ans: "answer = b0 @ b1 @ b2" and sst: "es_write_aead sst = writer" "es_peer_aead sst = aead_new P (encap @ pfs_pub) uk USE_AES"
      "es_united_key sst = uk" "es_use_aes sst" "es_peer_padding_len sst = 0"
      "es_xor sst = (if en_mode enc = Random then Some \<lparr>write_ctr = new_ctr P uk (sr_ticket srnd), read_ctr = new_ctr P uk (hs_iv h),
                   out_skip = 0, out_header = [], in_skip = 0, in_header = []\<rparr> else None)"
    using assms(8) e lens b0(1) b1(1) b2(1)
    by (auto simp: reference_answer_def assms(7) seal_then_def [of P a0] seal_then_def [of P "on a0"] Let_def simp flip: uk_def a0_def n_def)
  have pad: "length pad = n \<and> (if pad = [] then on (on a0) = writer else \<exists>padding. aead_open P (on (on a0)) pad [] = (writer, Inr padding))"
  proof (cases "sr_padding srnd")
    case None
    then show ?thesis using w by (simp add: n_def)
  next
    case (Some c)
    have "length c < 2 ^ 36 - 31" using assms(4) Some by simp
    from seal_opens [OF assms(1) this, of "on (on a0)" "[]"] obtain pt where
      "aead_seal P (on (on a0)) c [] = (on (on (on a0)), Inr pt)" "length pt = length c + 16" "aead_open P (on (on a0)) pt [] = (on (on (on a0)), Inr c)"
      unfolding on_def by blast
    then show ?thesis using w Some by (auto simp: n_def seal_then_def)
  qed
  define st where "st = \<lparr>es_write_aead = aead_new P (encap @ pfs_pub) uk USE_AES, es_peer_aead = on (on a0), es_united_key = uk,
     es_use_aes = USE_AES, es_peer_padding_len = n, es_xor = (if en_mode enc = Random then Some (client_1rtt P uk (hs_iv h) (sr_ticket srnd) n) else None)\<rparr>"
  have "server_hello P K enc h (answer @ pad @ rest) = Inr (st, pad @ rest)"
    using b0(2,3) b1(2,3) b2(2,3) shared slens assms(3,7) be_length_len_be [OF n]
    by (simp add: server_hello_def ans x25519_ecdh_def open_then_def decode_length_def st_def flip: uk_def a0_def)
  moreover have "enc_mirror P st sst []" "enc_mirror P sst st pad"
    using sst pad by (auto simp: enc_mirror_def st_def xor_mirror_def xor_wf_def client_1rtt_def)
  ultimately show ?thesis by blast
qed

text \<open>C15. VLESS encryption, the handshake: with a server that holds the secret of the configured key, of either kind and in every
  mode, the client accepts the answer, leaves the padding unread, and then both ends hold matching states for both
  directions of the stream.\<close>

theorem vless_handshake_agrees:
  assumes "vless_prims_ok P" and "kex_ok K" and "key_of_secret K secret (en_nfs_key enc)"
    and "length (hr_iv rnd) = 16" and "length (sr_ticket srnd) = 16" and "case sr_padding srnd of None \<Rightarrow> True | Some c \<Rightarrow> length c + 16 < 65536"
    and "client_hello P K rnd enc = Inr (hello, h)"
    and "reference_server P K srnd (en_mode enc) secret (en_nfs_key enc) hello = Inr (answer, sst, pad)"
  shows "\<exists>st. client_handshake P K rnd enc (answer @ pad @ rest) = Inr (hello, st, pad @ rest) \<and> enc_mirror P st sst [] \<and> enc_mirror P sst st pad"
proof -
  from hello_read [OF assms(1-4,7)] obtain encap pfs_pub where k: "kem_keygen K (hr_kem rnd) = Some (hs_decap h, encap)"
    "x_public K (hs_pfs_priv h) = Some pfs_pub" "hs_pfs_public_key h = encap @ pfs_pub"
    and s: "reference_server P K srnd (en_mode enc) secret (en_nfs_key enc) hello =
      reference_answer P K srnd (en_mode enc = Random) (hs_iv h) (hs_nfs_key h) (hs_pfs_public_key h) (hs_nfs h)" .
  from answer_read [OF assms(1,2,5,6) k, of enc answer sst pad rest] s assms(8)
  show ?thesis by (auto simp: client_handshake_def assms(7))
qed

definition sample_kex :: kex_prims where
  "sample_kex = \<lparr>x_public = (\<lambda>a. Some (take 32 (a @ replicate 32 0))),
     x_agree = (\<lambda>a p. Some (take 32 (map (\<lambda>(x, y). x + y) (zip (take 32 (a @ replicate 32 0)) p) @ replicate 32 0))),
     kem_keygen = (\<lambda>seed. Some (seed, replicate 1184 1)), kem_encaps = (\<lambda>seed ek. Some (take 1088 (seed @ replicate 1088 2), take 32 (seed @ replicate 1088 2))),
     kem_decaps = (\<lambda>dk ct. Some (take 32 ct))\<rparr>"

lemma zip_plus_commute: "map (\<lambda>(x, y). x + y) (zip a b) = map (\<lambda>(x, y). x + y) (zip b (a :: bytes))"
  by (induction a b rule: list_induct2') (simp_all add: add.commute)

lemma sample_kex_ok: "kex_ok sample_kex"
  by (auto simp: kex_ok_def sample_kex_def min_def intro: arg_cong zip_plus_commute)

definition sample_descriptor :: vless_encryption where
  "sample_descriptor = \<lparr>en_mode = Random, en_zero_rtt = False, en_nfs_key = X25519 (take 32 ([9] @ replicate 32 0)), en_padding = []\<rparr>"

definition sample_hello_random :: hello_random where
  "sample_hello_random = \<lparr>hr_iv = replicate 16 1, hr_relay = [2], hr_kem = [3], hr_pfs = [4]\<rparr>"

definition sample_server_random :: server_random where
  "sample_server_random = \<lparr>sr_kem = [5], sr_pfs = [6], sr_ticket = replicate 16 7, sr_padding = Some [8]\<rparr>"

theorem vless_handshake_agrees_witness:
  "\<exists>hello answer sst pad st. client_handshake sample_vprims sample_kex sample_hello_random sample_descriptor (answer @ pad) = Inr (hello, st, pad)
     \<and> enc_mirror sample_vprims st sst [] \<and> enc_mirror sample_vprims sst st pad"
proof -
  have sealed: "seal_then sample_vprims a pt k = k (a\<lparr>ae_nonce := increase (ae_nonce a)\<rparr>) (pt @ take 16 (increase (ae_nonce a) @ replicate 16 0))" for a pt k
    by (simp add: seal_then_def aead_seal_def aead_enc_def sample_vprims_def sample_seal_def Let_def)
  have enc: "aead_enc sample_vprims a n pt aad = Inr (pt @ take 16 (n @ replicate 16 0))" for a n pt aad
    by (simp add: aead_enc_def sample_vprims_def sample_seal_def)
  have key: "key_of_secret sample_kex (XSecret [9]) (en_nfs_key sample_descriptor)" by (simp add: sample_kex_def sample_descriptor_def)
  have "is_ok (client_hello sample_vprims sample_kex sample_hello_random sample_descriptor)"
    by (simp add: client_hello_def sample_hello_random_def sample_descriptor_def sample_kex_def x25519_keypair_def x25519_ecdh_def Let_def sealed)
  then obtain hello h where hello: "client_hello sample_vprims sample_kex sample_hello_random sample_descriptor = Inr (hello, h)"
    by (cases "client_hello sample_vprims sample_kex sample_hello_random sample_descriptor") auto
  have iv: "length (hr_iv sample_hello_random) = 16" and ticket: "length (sr_ticket sample_server_random) = 16"
    and padding: "case sr_padding sample_server_random of None \<Rightarrow> True | Some c \<Rightarrow> length c + 16 < 65536"
    by (simp_all add: sample_hello_random_def sample_server_random_def)
  let ?srv = "reference_server sample_vprims sample_kex sample_server_random (en_mode sample_descriptor) (XSecret [9]) (en_nfs_key sample_descriptor) hello"
  have "?srv = reference_answer sample_vprims sample_kex sample_server_random (en_mode sample_descriptor = Random) (hs_iv h) (hs_nfs_key h)
      (hs_pfs_public_key h) (hs_nfs h)"
    by (rule hello_read [OF sample_vprims_ok sample_kex_ok key iv hello])
  moreover have "is_ok (reference_answer sample_vprims sample_kex sample_server_random r v n c a)" for r v n c a
    by (simp add: reference_answer_def sample_kex_def sample_server_random_def Let_def sealed enc)
  ultimately have "is_ok ?srv" by simp
  then obtain answer sst pad where "?srv = Inr (answer, sst, pad)" by (cases ?srv) auto
  from vless_handshake_agrees [OF sample_vprims_ok sample_kex_ok key iv ticket padding hello this, of "[]"]
  obtain st where "client_handshake sample_vprims sample_kex sample_hello_random sample_descriptor (answer @ pad) = Inr (hello, st, pad)
      \<and> enc_mirror sample_vprims st sst [] \<and> enc_mirror sample_vprims sst st pad" by auto
  then show ?thesis by (intro exI)
qed

end
