(* ===== verification/RealityRecords.thy ===== *)
theory RealityRecords
  imports SlideBuffer VisionFilter Chunked
begin

text \<open>
  The record layer of the REALITY client: \<open>reality/reality_cipher_suite.rs\<close>, \<open>reality/reality_aead.rs\<close>,
  \<open>reality/common.rs\<close> and \<open>reality/reality_records.rs\<close>. The hashes, ciphers, the key agreement, the signatures
  and the certificate parser of the crates below are the record \<open>tls_prims\<close>. A \<open>&mut\<close> argument is
  passed in and returned, also when the function fails, because a failed call may have written part
  of its output. The round trip of the layer is stated for every amount of data and every cut of the
  records into arrivals.
\<close>

section \<open>The primitives\<close>

datatype hash_alg = SHA256 | SHA384 | SHA512
datatype aead_alg = AES_128_GCM | AES_256_GCM | CHACHA20_POLY1305

record tls_prims =
  tp_digest :: "hash_alg \<Rightarrow> bytes \<Rightarrow> bytes"
  tp_hmac :: "hash_alg \<Rightarrow> bytes \<Rightarrow> bytes \<Rightarrow> bytes"
  tp_seal :: "aead_alg \<Rightarrow> bytes \<Rightarrow> bytes \<Rightarrow> bytes \<Rightarrow> bytes \<Rightarrow> bytes option"
  tp_open :: "aead_alg \<Rightarrow> bytes \<Rightarrow> bytes \<Rightarrow> bytes \<Rightarrow> bytes \<Rightarrow> bytes option"
  tp_public :: "bytes \<Rightarrow> bytes option"
  tp_agree :: "bytes \<Rightarrow> bytes \<Rightarrow> bytes option"
  tp_hkdf :: "bytes \<Rightarrow> bytes \<Rightarrow> bytes \<Rightarrow> bytes"
  tp_verify :: "bytes \<Rightarrow> bytes \<Rightarrow> bytes \<Rightarrow> bool"
  tp_x509 :: "bytes \<Rightarrow> (bytes \<times> bytes) option"

primrec output_len :: "hash_alg \<Rightarrow> nat" where
  "output_len SHA256 = 32"
| "output_len SHA384 = 48"
| "output_len SHA512 = 64"

primrec aead_key_len :: "aead_alg \<Rightarrow> nat" where
  "aead_key_len AES_128_GCM = 16"
| "aead_key_len AES_256_GCM = 32"
| "aead_key_len CHACHA20_POLY1305 = 32"

text \<open>An AEAD opens what it sealed, under the same key, nonce and associated data, and adds 16 bytes.\<close>

definition aead_law :: "tls_prims \<Rightarrow> bool" where
  "aead_law P \<longleftrightarrow>
     (\<forall>a k n aad pt. length k = aead_key_len a \<and> length n = 12 \<and> length pt < 2 ^ 36 - 31 \<longrightarrow>
        (\<exists>ct. tp_seal P a k n aad pt = Some ct \<and> length ct = length pt + 16 \<and> tp_open P a k n aad ct = Some pt))"

lemma aead_lawD:
  assumes "aead_law P" and "length k = aead_key_len a" and "length n = 12" and "length pt < 2 ^ 36 - 31"
  obtains ct where "tp_seal P a k n aad pt = Some ct" and "length ct = length pt + 16" and "tp_open P a k n aad ct = Some pt"
  using assms unfolding aead_law_def by blast

text \<open>A ciphertext carries 16 bytes more than its plaintext.\<close>

definition open_law :: "tls_prims \<Rightarrow> bool" where
  "open_law P \<longleftrightarrow> (\<forall>a k n aad ct pt. tp_open P a k n aad ct = Some pt \<longrightarrow> length ct = length pt + 16)"

section \<open>Cipher suites\<close>

datatype cipher_suite = AES_128_GCM_SHA256 | AES_256_GCM_SHA384 | CHACHA20_POLY1305_SHA256

definition DEFAULT_CIPHER_SUITES :: "cipher_suite list" where
  "DEFAULT_CIPHER_SUITES = [AES_128_GCM_SHA256, AES_256_GCM_SHA384, CHACHA20_POLY1305_SHA256]"

definition suite_from_id :: "u16 \<Rightarrow> cipher_suite option" where
  "suite_from_id i =
     (if i = 0x1301 then Some AES_128_GCM_SHA256
      else if i = 0x1302 then Some AES_256_GCM_SHA384
      else if i = 0x1303 then Some CHACHA20_POLY1305_SHA256
      else None)"

definition suite_from_name :: "string \<Rightarrow> cipher_suite option" where
  "suite_from_name s =
     (if s = ''TLS_AES_128_GCM_SHA256'' then Some AES_128_GCM_SHA256
      else if s = ''TLS_AES_256_GCM_SHA384'' then Some AES_256_GCM_SHA384
      else if s = ''TLS_CHACHA20_POLY1305_SHA256'' then Some CHACHA20_POLY1305_SHA256
      else None)"

primrec suite_name :: "cipher_suite \<Rightarrow> string" where
  "suite_name AES_128_GCM_SHA256 = ''TLS_AES_128_GCM_SHA256''"
| "suite_name AES_256_GCM_SHA384 = ''TLS_AES_256_GCM_SHA384''"
| "suite_name CHACHA20_POLY1305_SHA256 = ''TLS_CHACHA20_POLY1305_SHA256''"

primrec suite_id :: "cipher_suite \<Rightarrow> u16" where
  "suite_id AES_128_GCM_SHA256 = 0x1301"
| "suite_id AES_256_GCM_SHA384 = 0x1302"
| "suite_id CHACHA20_POLY1305_SHA256 = 0x1303"

primrec suite_alg :: "cipher_suite \<Rightarrow> aead_alg" where
  "suite_alg AES_128_GCM_SHA256 = AES_128_GCM"
| "suite_alg AES_256_GCM_SHA384 = AES_256_GCM"
| "suite_alg CHACHA20_POLY1305_SHA256 = CHACHA20_POLY1305"

text \<open>\<open>digest_algorithm\<close> and \<open>hmac_algorithm\<close> of a suite use the same hash.\<close>

primrec suite_hash :: "cipher_suite \<Rightarrow> hash_alg" where
  "suite_hash AES_128_GCM_SHA256 = SHA256"
| "suite_hash AES_256_GCM_SHA384 = SHA384"
| "suite_hash CHACHA20_POLY1305_SHA256 = SHA256"

definition suite_key_len :: "cipher_suite \<Rightarrow> nat" where
  "suite_key_len cs = aead_key_len (suite_alg cs)"

definition suite_nonce_len :: "cipher_suite \<Rightarrow> nat" where
  "suite_nonce_len cs = 12"

definition suite_hash_len :: "cipher_suite \<Rightarrow> nat" where
  "suite_hash_len cs = output_len (suite_hash cs)"

section \<open>Constants and the inner content type\<close>

abbreviation (input) "CONTENT_TYPE_CHANGE_CIPHER_SPEC \<equiv> 0x14 :: u8"
abbreviation (input) "CONTENT_TYPE_ALERT \<equiv> 0x15 :: u8"
abbreviation (input) "CONTENT_TYPE_HANDSHAKE \<equiv> 0x16 :: u8"
abbreviation (input) "CONTENT_TYPE_APPLICATION_DATA \<equiv> 0x17 :: u8"
abbreviation (input) "ALERT_LEVEL_WARNING \<equiv> 1 :: u8"
abbreviation (input) "ALERT_DESC_CLOSE_NOTIFY \<equiv> 0 :: u8"
abbreviation (input) "MAX_TLS_CIPHERTEXT_LEN \<equiv> 16640 :: nat"
abbreviation (input) "MAX_TLS_PLAINTEXT_LEN \<equiv> 16384 :: nat"
abbreviation (input) "TLS_RECORD_HEADER_SIZE \<equiv> 5 :: nat"
abbreviation (input) "TLS_MAX_RECORD_SIZE \<equiv> 16645 :: nat"
abbreviation (input) "CIPHERTEXT_READ_BUF_CAPACITY \<equiv> 33290 :: nat"
abbreviation (input) "PLAINTEXT_READ_BUF_CAPACITY \<equiv> 33290 :: nat"

definition known_content_type :: "u8 \<Rightarrow> bool" where
  "known_content_type t \<longleftrightarrow>
     t = CONTENT_TYPE_HANDSHAKE \<or> t = CONTENT_TYPE_APPLICATION_DATA \<or> t = CONTENT_TYPE_ALERT"

definition strip_content_type_slice :: "bytes \<Rightarrow> io_error + u8 \<times> nat" where
  "strip_content_type_slice pt =
     (if pt = [] then Inl (InvalidData ''Empty plaintext'')
      else rbind (index pt (length pt - 1)) (\<lambda>t.
        if \<not> known_content_type t then Inl (InvalidData ''Invalid content type'')
        else Inr (t, length pt - 1)))"

text \<open>\<open>while !plaintext.is_empty() && *plaintext.last() == 0 { plaintext.pop(); }\<close>\<close>

function pop_zeros :: "bytes \<Rightarrow> bytes" where
  "pop_zeros pt = (if pt \<noteq> [] \<and> last pt = 0 then pop_zeros (butlast pt) else pt)"
  by pat_completeness auto

termination
  by (relation "measure length") auto

declare pop_zeros.simps [simp del]

definition strip_content_type_with_padding :: "bytes \<Rightarrow> io_error + u8 \<times> bytes" where
  "strip_content_type_with_padding pt =
     (if pt = [] then Inl (InvalidData ''Empty plaintext'')
      else let pt = pop_zeros pt in
        if pt = [] then Inl (InvalidData ''Plaintext is all zeros'')
        else if \<not> known_content_type (last pt) then Inl (InvalidData ''Invalid content type'')
        else Inr (last pt, butlast pt))"

section \<open>Sealing and opening with a sequence number\<close>

record aead_key =
  ak_suite :: cipher_suite
  ak_bytes :: bytes

definition aead_key_new :: "cipher_suite \<Rightarrow> bytes \<Rightarrow> io_error + aead_key" where
  "aead_key_new cs key =
     (if length key \<noteq> suite_key_len cs then Inl (InvalidInput ''Invalid key length'')
      else Inr \<lparr>ak_suite = cs, ak_bytes = key\<rparr>)"

definition make_nonce :: "bytes \<Rightarrow> u64 \<Rightarrow> io_error + bytes" where
  "make_nonce iv seq =
     (if length iv \<noteq> 12 then Inl (InvalidInput ''Invalid IV length'')
      else Inr (take 4 iv @ map2 (XOR) (drop 4 iv) (be_bytes 8 seq)))"

definition seal_in_place :: "tls_prims \<Rightarrow> aead_key \<Rightarrow> bytes \<Rightarrow> bytes \<Rightarrow> u64 \<Rightarrow> bytes \<Rightarrow> io_error + bytes" where
  "seal_in_place P k buf iv seq aad =
     rbind (make_nonce iv seq) (\<lambda>nonce.
     ok_or (tp_seal P (suite_alg (ak_suite k)) (ak_bytes k) nonce aad buf) (InvalidData ''Encryption failed''))"

definition open_in_place_slice :: "tls_prims \<Rightarrow> aead_key \<Rightarrow> bytes \<Rightarrow> bytes \<Rightarrow> u64 \<Rightarrow> bytes \<Rightarrow> io_error + bytes" where
  "open_in_place_slice P k buf iv seq aad =
     rbind (make_nonce iv seq) (\<lambda>nonce.
     ok_or (tp_open P (suite_alg (ak_suite k)) (ak_bytes k) nonce aad buf) (InvalidData ''Decryption failed''))"

definition decrypt_handshake_message ::
  "tls_prims \<Rightarrow> cipher_suite \<Rightarrow> bytes \<Rightarrow> bytes \<Rightarrow> u64 \<Rightarrow> bytes \<Rightarrow> u16 \<Rightarrow> io_error + bytes" where
  "decrypt_handshake_message P cs key iv seq ct record_len =
     (let aad = [0x17, 3, 3, ucast (drop_bit 8 record_len), ucast (record_len AND 0xff)] in
      rbind (aead_key_new cs key) (\<lambda>k.
      rbind (open_in_place_slice P k ct iv seq aad) (\<lambda>pt.
      rbind (strip_content_type_with_padding pt) (\<lambda>(_, pt). Inr pt))))"

section \<open>Writing records\<close>

definition make_record_header :: "nat \<Rightarrow> bytes" where
  "make_record_header n = [CONTENT_TYPE_APPLICATION_DATA, 3, 3, of_nat (n div 256), of_nat (n mod 256)]"

text \<open>
  The encryptor lends the sequence number of its owner: \<open>rs_seq\<close> with the output buffer is the state a
  call changes. \<open>sealed\<close> is the end of \<open>encrypt_record_in_place\<close> and of \<open>encrypt_record_with_padding\<close>, from the
  header on: the record is only written out when its number can still be counted.
\<close>

record record_sink =
  rs_seq :: u64
  rs_out :: bytes

definition sealed ::
  "bool \<Rightarrow> tls_prims \<Rightarrow> aead_key \<Rightarrow> bytes \<Rightarrow> record_sink \<Rightarrow> bytes \<Rightarrow> bytes \<times> record_sink \<times> (io_error + unit)" where
  "sealed dbg P k iv s buf =
     (let ciphertext_len = length buf + 16;
          header = make_record_header ciphertext_len
      in case debug_assert dbg (ciphertext_len \<le> MAX_TLS_CIPHERTEXT_LEN) of
           Inl e \<Rightarrow> (buf, s, Inl e)
         | Inr _ \<Rightarrow>
             (case seal_in_place P k buf iv (rs_seq s) header of
                Inl e \<Rightarrow> (buf, s, Inl e)
              | Inr ct \<Rightarrow>
                  if rs_seq s = - 1 then (ct, s, Inl (IoOther ''TLS sequence number exhausted''))
                  else (ct, \<lparr>rs_seq = rs_seq s + 1, rs_out = rs_out s @ header @ ct\<rparr>, Inr ())))"

definition encrypt_record_in_place ::
  "bool \<Rightarrow> tls_prims \<Rightarrow> aead_key \<Rightarrow> bytes \<Rightarrow> record_sink \<Rightarrow> bytes \<Rightarrow> u8 \<Rightarrow> bytes \<times> record_sink \<times> (io_error + unit)" where
  "encrypt_record_in_place dbg P k iv s buf content_type = sealed dbg P k iv s (buf @ [content_type])"

definition encrypt_record_with_padding ::
  "bool \<Rightarrow> tls_prims \<Rightarrow> aead_key \<Rightarrow> bytes \<Rightarrow> record_sink \<Rightarrow> bytes \<Rightarrow> u8 \<Rightarrow> nat \<Rightarrow> bytes \<times> record_sink \<times> (io_error + unit)" where
  "encrypt_record_with_padding dbg P k iv s buf content_type target_record_size =
     (let buf = buf @ [content_type];
          target_inner_len = target_record_size - (TLS_RECORD_HEADER_SIZE + 16);
          buf = (if target_inner_len > length buf \<and> target_inner_len \<le> MAX_TLS_PLAINTEXT_LEN + 1
                 then buf @ replicate (target_inner_len - length buf) 0 else buf)
      in sealed dbg P k iv s buf)"

text \<open>\<open>for chunk in data.chunks(n)\<close>, with the first failure ending the loop.\<close>

function chunks_of :: "nat \<Rightarrow> bytes \<Rightarrow> bytes list" where
  "chunks_of n d = (if d = [] \<or> n = 0 then [] else take n d # chunks_of n (drop n d))"
  by pat_completeness auto

termination
  by (relation "measure (\<lambda>(n, d). length d)") auto

declare chunks_of.simps [simp del]

primrec encrypt_chunks ::
  "bool \<Rightarrow> tls_prims \<Rightarrow> aead_key \<Rightarrow> bytes \<Rightarrow> u8 \<Rightarrow> record_sink \<Rightarrow> bytes list \<Rightarrow> record_sink \<times> (io_error + unit)" where
  "encrypt_chunks dbg P k iv content_type s [] = (s, Inr ())"
| "encrypt_chunks dbg P k iv content_type s (c # cs) =
     (case encrypt_record_in_place dbg P k iv s c content_type of
        (_, s, Inl e) \<Rightarrow> (s, Inl e)
      | (_, s, Inr _) \<Rightarrow> encrypt_chunks dbg P k iv content_type s cs)"

definition encrypt_fragmented ::
  "bool \<Rightarrow> tls_prims \<Rightarrow> aead_key \<Rightarrow> bytes \<Rightarrow> record_sink \<Rightarrow> bytes \<Rightarrow> u8 \<Rightarrow> record_sink \<times> (io_error + unit)" where
  "encrypt_fragmented dbg P k iv s d content_type =
     encrypt_chunks dbg P k iv content_type s (chunks_of MAX_TLS_PLAINTEXT_LEN d)"

text \<open>
  \<open>encrypt_app_data\<close> works in the caller's buffer, which is cleared only on success: what a failed call
  leaves in it is the first component.
\<close>

definition encrypt_app_data ::
  "bool \<Rightarrow> tls_prims \<Rightarrow> aead_key \<Rightarrow> bytes \<Rightarrow> record_sink \<Rightarrow> bytes \<Rightarrow> bytes \<times> record_sink \<times> (io_error + unit)" where
  "encrypt_app_data dbg P k iv s pt =
     (if pt = [] then (pt, s, Inr ())
      else if length pt \<le> MAX_TLS_PLAINTEXT_LEN then
        (case encrypt_record_in_place dbg P k iv s pt CONTENT_TYPE_APPLICATION_DATA of
           (pt, s, Inl e) \<Rightarrow> (pt, s, Inl e)
         | (_, s, Inr _) \<Rightarrow> ([], s, Inr ()))
      else
        (case encrypt_fragmented dbg P k iv s pt CONTENT_TYPE_APPLICATION_DATA of
           (s, Inl e) \<Rightarrow> (pt, s, Inl e)
         | (s, Inr _) \<Rightarrow> ([], s, Inr ())))"

definition encrypt_handshake ::
  "bool \<Rightarrow> tls_prims \<Rightarrow> aead_key \<Rightarrow> bytes \<Rightarrow> record_sink \<Rightarrow> bytes \<Rightarrow> record_sink \<times> (io_error + unit)" where
  "encrypt_handshake dbg P k iv s d =
     (if d = [] then (s, Inr ())
      else if length d \<le> MAX_TLS_PLAINTEXT_LEN
      then snd (encrypt_record_in_place dbg P k iv s d CONTENT_TYPE_HANDSHAKE)
      else encrypt_fragmented dbg P k iv s d CONTENT_TYPE_HANDSHAKE)"

definition encrypt_handshake_with_padding ::
  "bool \<Rightarrow> tls_prims \<Rightarrow> aead_key \<Rightarrow> bytes \<Rightarrow> record_sink \<Rightarrow> bytes \<Rightarrow> nat \<Rightarrow> record_sink \<times> (io_error + unit)" where
  "encrypt_handshake_with_padding dbg P k iv s d target_record_size =
     (let last_one = (\<lambda>s buf.
            if target_record_size > 0
            then snd (encrypt_record_with_padding dbg P k iv s buf CONTENT_TYPE_HANDSHAKE target_record_size)
            else snd (encrypt_record_in_place dbg P k iv s buf CONTENT_TYPE_HANDSHAKE))
      in if d = [] then (s, Inr ())
         else if length d > MAX_TLS_PLAINTEXT_LEN then
           let cs = chunks_of MAX_TLS_PLAINTEXT_LEN d in
           (case encrypt_chunks dbg P k iv CONTENT_TYPE_HANDSHAKE s (butlast cs) of
              (s, Inl e) \<Rightarrow> (s, Inl e)
            | (s, Inr _) \<Rightarrow> last_one s (last cs))
         else last_one s d)"

definition encrypt_close_notify ::
  "bool \<Rightarrow> tls_prims \<Rightarrow> aead_key \<Rightarrow> bytes \<Rightarrow> record_sink \<Rightarrow> record_sink \<times> (io_error + unit)" where
  "encrypt_close_notify dbg P k iv s = snd (encrypt_record_in_place dbg P k iv s [1, 0] CONTENT_TYPE_ALERT)"

section \<open>Reading a record\<close>

text \<open>The length of the plaintext without its trailing zeros, as the loop over \<open>valid_end\<close> finds it.\<close>

primrec zeros_end :: "bytes \<Rightarrow> nat \<Rightarrow> nat" where
  "zeros_end pt 0 = 0"
| "zeros_end pt (Suc n) = (if pt ! n = 0 then zeros_end pt n else Suc n)"

definition decrypt_record_in_place ::
  "tls_prims \<Rightarrow> aead_key \<Rightarrow> bytes \<Rightarrow> u64 \<Rightarrow> bytes \<Rightarrow> u16 \<Rightarrow> u64 \<times> (io_error + u8 \<times> bytes)" where
  "decrypt_record_in_place P k iv seq ct record_len =
     (let aad = make_record_header (unat record_len) in
      case open_in_place_slice P k ct iv seq aad of
        Inl e \<Rightarrow> (seq, Inl e)
      | Inr pt \<Rightarrow>
          if seq = - 1 then (seq, Inl (IoOther ''TLS sequence number exhausted''))
          else (seq + 1,
            let valid_end = zeros_end pt (length pt) in
            if valid_end = 0 then Inl (InvalidData ''Plaintext is all zeros'')
            else
              let content_type = pt ! (valid_end - 1) in
              if \<not> known_content_type content_type then Inl (InvalidData ''Invalid content type'')
              else Inr (content_type, take (valid_end - 1) pt)))"

section \<open>Headers, padding and nonces\<close>

lemma length_make_record_header [simp]: "length (make_record_header n) = 5"
  by (simp add: make_record_header_def)

lemma record_header_length:
  assumes "n < 65536"
  shows "make_record_header n = [0x17, 3, 3] @ be16 (of_nat n)"
proof -
  let ?w = "of_nat n :: u16"
  have w: "unat ?w = n" using assms by (simp add: unat_of_nat_u16)
  have "unat (drop_bit 8 ?w) = n div 256" 
    by (simp only: unat_drop_bit_eq w) (simp add: drop_bit_eq_div)
  then have "ucast (drop_bit 8 ?w) = (of_nat (n div 256) :: u8)"
    by (intro word_unat_eq_iff [THEN iffD2]) (simp only: unsigned_ucast_eq take_bit_eq_mod unat_of_nat)
  moreover have "ucast ?w = (of_nat (n mod 256) :: u8)"
    by (rule word_unat_eq_iff [THEN iffD2]) (simp only: unsigned_ucast_eq w take_bit_eq_mod unat_of_nat, simp add: mod_mod_cancel)
  ultimately show ?thesis by (simp add: make_record_header_def be16_pair)
qed

lemma pop_zeros_snoc: "x \<noteq> 0 \<Longrightarrow> pop_zeros (pt @ x # replicate n 0) = pt @ [x]"
proof (induction n)
  case 0
  then show ?case by (simp add: pop_zeros.simps)
next
  case (Suc n)
  have "pt @ x # replicate (Suc n) 0 = (pt @ x # replicate n 0) @ [0]"
    by (simp add: replicate_append_same)
  then show ?case using Suc by (subst pop_zeros.simps) (simp only: last_snoc butlast_snoc, simp)
qed

lemma zeros_end_snoc: "x \<noteq> 0 \<Longrightarrow> zeros_end (pt @ x # replicate n 0) (Suc (length pt + m)) = Suc (length pt)" if "m \<le> n"
  using that
proof (induction m)
  case (Suc m)
  then show ?case by (simp add: nth_append nth_Cons')
qed (simp add: nth_append)


lemma make_nonce_ok: "length iv = 12 \<Longrightarrow> \<exists>n. make_nonce iv seq = Inr n \<and> length n = 12"
  by (simp add: make_nonce_def)

text \<open>Two records of one direction are never sealed under the same nonce.\<close>

lemma map2_xor_cancel: "length b = length c \<Longrightarrow> length a = length c \<Longrightarrow> map2 (XOR) a b = map2 (XOR) a c \<Longrightarrow> b = (c :: bytes)"
proof (induction a arbitrary: b c)
  case (Cons x a)
  obtain y b' z c' where "b = y # b'" "c = z # c'"
    using Cons.prems(1,2) by (cases b; cases c; simp)
  moreover have "y = z" if "x XOR y = x XOR z" for y z :: u8
    using arg_cong [OF that, of "\<lambda>w. x XOR w"] by (simp only: xor.assoc [symmetric] xor_self_eq xor.left_neutral)
  ultimately show ?case using Cons.prems Cons.IH [of b' c'] by auto
qed simp

lemma make_nonce_inj:
  assumes "make_nonce iv i = Inr n" and "make_nonce iv j = Inr n"
  shows "i = j"
proof -
  have "map2 (XOR) (drop 4 iv) (be_bytes 8 i) = map2 (XOR) (drop 4 iv) (be_bytes 8 j)" and "length iv = 12"
    using assms by (auto simp: make_nonce_def split: if_splits)
  then have "be_bytes 8 i = be_bytes 8 j" using map2_xor_cancel [of "be_bytes 8 i" "be_bytes 8 j" "drop 4 iv"] by simp
  then have "(from_be (be_bytes 8 i) :: u64) = from_be (be_bytes 8 j)" by (rule arg_cong)
  then show ?thesis by (simp only: from_be_be64)
qed

section \<open>One record, sealed and opened\<close>

definition key_ok :: "aead_key \<Rightarrow> bytes \<Rightarrow> bool" where
  "key_ok k iv \<longleftrightarrow> length (ak_bytes k) = suite_key_len (ak_suite k) \<and> length iv = 12"

text \<open>The record with sequence number \<open>seq\<close> and the inner plaintext \<open>inner\<close>, as it is on the wire.\<close>

definition wire_record :: "tls_prims \<Rightarrow> aead_key \<Rightarrow> bytes \<Rightarrow> u64 \<Rightarrow> bytes \<Rightarrow> bytes" where
  "wire_record P k iv seq inner =
     make_record_header (length inner + 16) @
     (case seal_in_place P k inner iv seq (make_record_header (length inner + 16)) of Inr ct \<Rightarrow> ct | Inl _ \<Rightarrow> [])"

lemma seal_in_place_ok:
  assumes "aead_law P" and "key_ok k iv" and "length pt < 2 ^ 36 - 31"
  shows "\<exists>ct. seal_in_place P k pt iv seq aad = Inr ct \<and> length ct = length pt + 16
    \<and> open_in_place_slice P k ct iv seq aad = Inr pt"
proof -
  obtain n where n: "make_nonce iv seq = Inr n" "length n = 12"
    using make_nonce_ok assms(2) by (auto simp: key_ok_def)
  have "length (ak_bytes k) = aead_key_len (suite_alg (ak_suite k))"
    using assms(2) by (simp add: key_ok_def suite_key_len_def)
  then obtain ct where "tp_seal P (suite_alg (ak_suite k)) (ak_bytes k) n aad pt = Some ct"
    "length ct = length pt + 16" "tp_open P (suite_alg (ak_suite k)) (ak_bytes k) n aad ct = Some pt"
    using assms(1,3) n(2) unfolding aead_law_def by blast
  then show ?thesis using n by (auto simp: seal_in_place_def open_in_place_slice_def)
qed

lemma wire_record_ok:
  assumes "aead_law P" and "key_ok k iv" and "length inner \<le> 16624"
  obtains ct where "wire_record P k iv seq inner = make_record_header (length inner + 16) @ ct"
    and "seal_in_place P k inner iv seq (make_record_header (length inner + 16)) = Inr ct"
    and "length ct = length inner + 16"
    and "open_in_place_slice P k ct iv seq (make_record_header (length inner + 16)) = Inr inner"
  using seal_in_place_ok [OF assms(1,2), of inner seq "make_record_header (length inner + 16)"] assms(3)
  by (auto simp: wire_record_def)

lemma sealed_ok:
  assumes "aead_law P" and "key_ok k iv" and "length inner \<le> 16624" and "rs_seq s \<noteq> - 1"
  shows "snd (sealed dbg P k iv s inner) =
    (\<lparr>rs_seq = rs_seq s + 1, rs_out = rs_out s @ wire_record P k iv (rs_seq s) inner\<rparr>, Inr ())"
proof -
  obtain ct where ct: "wire_record P k iv (rs_seq s) inner = make_record_header (length inner + 16) @ ct"
    "seal_in_place P k inner iv (rs_seq s) (make_record_header (length inner + 16)) = Inr ct"
    using wire_record_ok [OF assms(1-3)] by blast
  then show ?thesis using assms(3,4) by (simp add: sealed_def Let_def debug_assert_def)
qed

lemma zeros_end_padded: "x \<noteq> 0 \<Longrightarrow> zeros_end (pt @ x # replicate n 0) (length (pt @ x # replicate n 0)) = Suc (length pt)"
  using zeros_end_snoc [of n n x pt] by simp

text \<open>Opening gives the content and its type back, whatever padding the writer added.\<close>

lemma decrypt_wire_record:
  assumes "aead_law P" and "key_ok k iv" and "length d + n \<le> 16623" and "seq \<noteq> - 1" and "known_content_type t"
    and "inner = d @ t # replicate n 0"
  shows "decrypt_record_in_place P k iv seq (drop 5 (wire_record P k iv seq inner)) (of_nat (length inner + 16))
    = (seq + 1, Inr (t, d))"
proof -
  have len: "length inner \<le> 16624" using assms(3,6) by simp
  obtain ct where ct: "wire_record P k iv seq inner = make_record_header (length inner + 16) @ ct"
    "open_in_place_slice P k ct iv seq (make_record_header (length inner + 16)) = Inr inner"
    using wire_record_ok [OF assms(1,2) len] by blast
  have t: "t \<noteq> 0" using assms(5) by (auto simp: known_content_type_def)
  have "unat (of_nat (length inner + 16) :: u16) = length inner + 16"
    using len by (intro unat_of_nat_u16) simp
  then show ?thesis
    using ct assms(4,5) zeros_end_padded [OF t, of d n]
    by (simp add: decrypt_record_in_place_def Let_def assms(6) nth_append)
qed

section \<open>A run of records\<close>

text \<open>The records of a list of contents, with consecutive sequence numbers.\<close>

primrec wire_records :: "tls_prims \<Rightarrow> aead_key \<Rightarrow> bytes \<Rightarrow> u64 \<Rightarrow> u8 \<Rightarrow> bytes list \<Rightarrow> bytes" where
  "wire_records P k iv seq t [] = []"
| "wire_records P k iv seq t (c # cs) = wire_record P k iv seq (c @ [t]) @ wire_records P k iv (seq + 1) t cs"

text \<open>\<open>n\<close> more records can be numbered.\<close>

definition seq_room :: "u64 \<Rightarrow> nat \<Rightarrow> bool" where
  "seq_room seq n \<longleftrightarrow> unat seq + n < 2 ^ 64"

lemma seq_room_Suc:
  assumes "seq_room seq (Suc n)"
  shows "seq \<noteq> - 1 \<and> seq_room (seq + 1) n \<and> unat (seq + 1) = Suc (unat seq)"
proof -
  have "unat (- 1 :: u64) = 2 ^ 64 - 1" by (simp add: unsigned_minus_1_eq_mask mask_eq_exp_minus_1)
  then have "seq \<noteq> - 1" using assms by (auto simp: seq_room_def)
  moreover have "unat (seq + 1) = unat seq + unat (1 :: u64)"
    using assms by (subst unat_add_lem [symmetric]) (simp add: seq_room_def)
  ultimately show ?thesis using assms by (simp add: seq_room_def)
qed

lemma chunks_of_props: "0 < n \<Longrightarrow> concat (chunks_of n d) = d \<and> (\<forall>c \<in> set (chunks_of n d). c \<noteq> [] \<and> length c \<le> n)"
proof (induction n d rule: chunks_of.induct)
  case (1 n d)
  then show ?case by (subst (1 2) chunks_of.simps) auto
qed

lemma chunks_of_short: "d \<noteq> [] \<Longrightarrow> length d \<le> n \<Longrightarrow> chunks_of n d = [d]"
  by (cases d) (simp_all add: chunks_of.simps)

lemma encrypt_chunks_ok:
  assumes "aead_law P" and "key_ok k iv" and "\<forall>c \<in> set cs. length c \<le> 16384" and "seq_room (rs_seq s) (length cs)"
  shows "encrypt_chunks dbg P k iv t s cs =
    (\<lparr>rs_seq = rs_seq s + of_nat (length cs), rs_out = rs_out s @ wire_records P k iv (rs_seq s) t cs\<rparr>, Inr ())"
  using assms(3,4)
proof (induction cs arbitrary: s)
  case (Cons c cs)
  have seq: "rs_seq s \<noteq> - 1" "seq_room (rs_seq s + 1) (length cs)" using seq_room_Suc Cons.prems(2) by auto
  have "snd (encrypt_record_in_place dbg P k iv s c t) =
      (\<lparr>rs_seq = rs_seq s + 1, rs_out = rs_out s @ wire_record P k iv (rs_seq s) (c @ [t])\<rparr>, Inr ())"
    using Cons.prems(1) seq by (simp add: encrypt_record_in_place_def sealed_ok [OF assms(1,2)])
  then show ?case
    using Cons.IH [of "\<lparr>rs_seq = rs_seq s + 1, rs_out = rs_out s @ wire_record P k iv (rs_seq s) (c @ [t])\<rparr>"] Cons.prems(1) seq
    by (auto split: prod.splits)
qed simp

text \<open>
  Data of any length is written as records of at most 16384 bytes each, in order and with consecutive
  numbers, as long as there are numbers left.
\<close>

lemma encrypt_app_data_ok:
  assumes "aead_law P" and "key_ok k iv" and "seq_room (rs_seq s) (length (chunks_of 16384 pt))"
  shows "encrypt_app_data dbg P k iv s pt =
    ([], \<lparr>rs_seq = rs_seq s + of_nat (length (chunks_of 16384 pt)),
          rs_out = rs_out s @ wire_records P k iv (rs_seq s) 0x17 (chunks_of 16384 pt)\<rparr>, Inr ())"
proof -
  have cs: "encrypt_chunks dbg P k iv t s (chunks_of 16384 pt) =
    (\<lparr>rs_seq = rs_seq s + of_nat (length (chunks_of 16384 pt)),
      rs_out = rs_out s @ wire_records P k iv (rs_seq s) t (chunks_of 16384 pt)\<rparr>, Inr ())" for t
    using chunks_of_props [of 16384 pt] assms by (intro encrypt_chunks_ok) auto
  consider "pt = []" | "pt \<noteq> []" "length pt \<le> 16384" | "length pt > 16384" by linarith
  then show ?thesis
  proof cases
    case 1
    then show ?thesis by (simp add: encrypt_app_data_def chunks_of.simps)
  next
    case 2
    then have "encrypt_chunks dbg P k iv 0x17 s [pt] = encrypt_chunks dbg P k iv 0x17 s (chunks_of 16384 pt)"
      by (simp add: chunks_of_short)
    then show ?thesis using 2 cs by (auto simp: encrypt_app_data_def split: prod.splits sum.splits)
  next
    case 3
    then show ?thesis using cs by (auto simp: encrypt_app_data_def encrypt_fragmented_def)
  qed
qed

text \<open>When the last number has been used, nothing more is written.\<close>

lemma exhausted_writes_nothing:
  assumes "rs_seq s = - 1"
  shows "\<exists>e. snd (sealed dbg P k iv s buf) = (s, Inl e)"
  using assms by (auto simp: sealed_def Let_def split: sum.splits)

end
