(* ===== verification/RealityClient.thy ===== *)
theory RealityClient
  imports RealityTls
begin

text \<open>
  \<open>reality/reality_client_connection.rs\<close>: the REALITY client as a state machine without a socket. A method
  that takes \<open>&mut self\<close> returns the new connection beside its result, because a failed call keeps what
  it has done so far. The scratch array of \<open>read_tls\<close> is not part of the state: it is overwritten before
  it is read. Records are opened in place in the ciphertext buffer; the bytes of an opened record are
  never looked at again, so the buffer keeps the ciphertext here. \<open>dbg\<close> says whether debug assertions
  are compiled in; \<open>unreachable!\<close> is \<open>Panic\<close>.
\<close>

section \<open>The connection\<close>

record reality_config =
  cfg_public_key :: bytes
  cfg_short_id :: bytes
  cfg_server_name :: string
  cfg_cipher_suites :: "cipher_suite list"

record processing =
  ph_client_secret :: bytes
  ph_server_secret :: bytes
  ph_master_secret :: bytes
  ph_suite :: cipher_suite
  ph_transcript :: bytes
  ph_auth_key :: bytes
  ph_seq :: u64
  ph_accumulated :: bytes
  ph_found :: u8
  ph_cert_verified :: bool
  ph_ed_key :: "bytes option"
  ph_cv_offset :: "nat option"

datatype handshake_state =
  AwaitingServerHello (hs_client_hello: bytes) (hs_private_key: bytes) (hs_auth_key: bytes)
| ProcessingHandshake processing
| Complete

datatype error_kind = KInvalidData | KPermissionDenied | KConnectionAborted

record reality_conn =
  config :: reality_config
  handshake_state :: handshake_state
  app_read_key :: "aead_key option"
  app_read_iv :: "bytes option"
  app_write_key :: "aead_key option"
  app_write_iv :: "bytes option"
  read_seq :: u64
  write_seq :: u64
  conn_suite :: "cipher_suite option"
  ciphertext_read_buf :: slide_buffer
  ciphertext_write_buf :: bytes
  plaintext_read_buf :: slide_buffer
  plaintext_write_buf :: bytes
  received_close_notify :: bool
  fatal_error :: "error_kind option"

type_synonym 'a conn_result = "reality_conn \<times> (io_error + 'a)"

text \<open>\<open>e?\<close> in a method: an error leaves with the state reached so far.\<close>

definition try_with :: "reality_conn \<Rightarrow> io_error + 'a \<Rightarrow> ('a \<Rightarrow> 'b conn_result) \<Rightarrow> 'b conn_result" where
  "try_with c r f = (case r of Inl e \<Rightarrow> (c, Inl e) | Inr x \<Rightarrow> f x)"

lemma try_with_cong [fundef_cong]:
  "c = c' \<Longrightarrow> r = r' \<Longrightarrow> (\<And>x. r' = Inr x \<Longrightarrow> f x = g x) \<Longrightarrow> try_with c r f = try_with c' r' g"
  by (cases r') (auto simp: try_with_def)

section \<open>ClientHello\<close>

definition session_id_plaintext :: "u64 \<Rightarrow> bytes \<Rightarrow> bytes" where
  "session_id_plaintext timestamp short_id = [1, 8, 0, 0] @ be32 (ucast timestamp) @ short_id"

text \<open>\<open>hello[39..71].copy_from_slice(..)\<close>\<close>

definition set_session_id :: "bytes \<Rightarrow> bytes \<Rightarrow> io_error + bytes" where
  "set_session_id hello sid =
     (if 71 \<le> length hello \<and> length sid = 32 then Inr (take 39 hello @ sid @ drop 71 hello) else Inl Panic)"

text \<open>
  The random numbers \<open>our_private\<close> and \<open>client_random\<close> and the clock are arguments; \<open>None\<close> is a clock before 1970.
  The result is the wire ClientHello with the authentication key.
\<close>

definition build_client_hello ::
  "tls_prims \<Rightarrow> reality_config \<Rightarrow> bytes \<Rightarrow> bytes \<Rightarrow> u64 option \<Rightarrow> io_error + bytes \<times> bytes" where
  "build_client_hello P cfg our_private client_random clock =
     rbind (ok_or (tp_public P our_private) (IoOther ''Failed to create X25519 key'')) (\<lambda>our_public_key.
     rbind (crypto_io (perform_ecdh P our_private (cfg_public_key cfg))) (\<lambda>shared_secret.
     rbind (slice client_random 0 20) (\<lambda>salt.
     rbind (crypto_io (derive_auth_key P shared_secret salt (str_bytes ''REALITY''))) (\<lambda>auth_key.
     rbind (ok_or clock (IoOther ''System time error'')) (\<lambda>timestamp.
     let plaintext = session_id_plaintext timestamp (cfg_short_id cfg);
         suites = (if cfg_cipher_suites cfg = [] then DEFAULT_CIPHER_SUITES else cfg_cipher_suites cfg);
         hello = construct_client_hello client_random (plaintext @ replicate 16 0) our_public_key (cfg_server_name cfg)
                   (map suite_id suites) DEFAULT_ALPN_PROTOCOLS
     in rbind (slice client_random 20 32) (\<lambda>nonce.
        rbind (set_session_id hello (replicate 32 0)) (\<lambda>aad.
        rbind (crypto_io (encrypt_session_id P plaintext auth_key nonce aad)) (\<lambda>encrypted.
        rbind (set_session_id aad encrypted) (\<lambda>client_hello.
        Inr (client_hello, auth_key))))))))))"

definition generate_client_hello ::
  "tls_prims \<Rightarrow> bytes \<Rightarrow> bytes \<Rightarrow> u64 option \<Rightarrow> reality_conn \<Rightarrow> unit conn_result" where
  "generate_client_hello P our_private client_random clock c =
     try_with c (build_client_hello P (config c) our_private client_random clock) (\<lambda>(client_hello, auth_key).
     let record = write_record_header CONTENT_TYPE_HANDSHAKE (of_nat (length client_hello)) @ client_hello
     in (c\<lparr>ciphertext_write_buf := ciphertext_write_buf c @ record,
           handshake_state := AwaitingServerHello client_hello our_private auth_key\<rparr>, Inr ()))"

text \<open>The storage of the two buffers is uninitialised memory, an argument.\<close>

definition reality_new ::
  "tls_prims \<Rightarrow> bytes \<Rightarrow> bytes \<Rightarrow> u64 option \<Rightarrow> bytes \<Rightarrow> bytes \<Rightarrow> reality_config \<Rightarrow> io_error + reality_conn" where
  "reality_new P our_private client_random clock garbage1 garbage2 cfg =
     (case generate_client_hello P our_private client_random clock
        \<lparr>config = cfg, handshake_state = AwaitingServerHello [] (replicate 32 0) (replicate 32 0),
         app_read_key = None, app_read_iv = None, app_write_key = None, app_write_iv = None,
         read_seq = 0, write_seq = 0, conn_suite = None,
         ciphertext_read_buf = slide_new garbage1, ciphertext_write_buf = [],
         plaintext_read_buf = slide_new garbage2, plaintext_write_buf = [],
         received_close_notify = False, fatal_error = None\<rparr> of
        (_, Inl e) \<Rightarrow> Inl e
      | (c, Inr _) \<Rightarrow> Inr c)"

section \<open>Reading from the transport\<close>

text \<open>\<open>got\<close> is what the reader put into the scratch array of \<open>TLS_MAX_RECORD_SIZE\<close> bytes.\<close>

definition read_tls :: "bool \<Rightarrow> reality_conn \<Rightarrow> io_error + bytes \<Rightarrow> nat conn_result" where
  "read_tls dbg c got =
     (let c = (if remaining_capacity (ciphertext_read_buf c) < TLS_MAX_RECORD_SIZE
               then c\<lparr>ciphertext_read_buf := compact (ciphertext_read_buf c)\<rparr> else c)
      in try_with c got (\<lambda>d.
         if length d > TLS_MAX_RECORD_SIZE then (c, Inl Panic)
         else if d \<noteq> [] then
           try_with c (sb_extend dbg (ciphertext_read_buf c) d) (\<lambda>b.
           (c\<lparr>ciphertext_read_buf := b\<rparr>, Inr (length d)))
         else (c, Inr 0)))"

text \<open>The error of a read is wrapped; \<open>fed\<close> is the part of the data the cursor is past.\<close>

definition wrap_feed_error :: "io_error \<Rightarrow> io_error" where
  "wrap_feed_error e = (if e = Panic then Panic else InvalidData ''failed to feed TLS connection'')"

function feed_loop :: "bool \<Rightarrow> reality_conn \<Rightarrow> bytes \<Rightarrow> unit conn_result" where
  "feed_loop dbg c d =
     (if d = [] then (c, Inr ())
      else case read_tls dbg c (Inr (take TLS_MAX_RECORD_SIZE d)) of
        (c, Inl e) \<Rightarrow> (c, Inl (wrap_feed_error e))
      | (c, Inr n) \<Rightarrow> feed_loop dbg c (drop TLS_MAX_RECORD_SIZE d))"
  by pat_completeness auto

termination
  by (relation "measure (\<lambda>(dbg, c, d). length d)") auto

declare feed_loop.simps [simp del]

definition feed_reality_client_connection :: "bool \<Rightarrow> reality_conn \<Rightarrow> bytes \<Rightarrow> unit conn_result" where
  "feed_reality_client_connection dbg c d = feed_loop dbg c d"

section \<open>ServerHello\<close>

text \<open>The length field of the record at the front of the buffer.\<close>

definition record_length :: "reality_conn \<Rightarrow> io_error + u16" where
  "record_length c =
     rbind (get_u16_be (ciphertext_read_buf c) 3) (\<lambda>v. ok_or v (InvalidData ''Buffer too short''))"

definition after_server_hello ::
  "tls_prims \<Rightarrow> bytes \<Rightarrow> bytes \<Rightarrow> bytes \<Rightarrow> bytes \<Rightarrow> io_error + processing" where
  "after_server_hello P client_hello private_key auth_key record =
     rbind (slice record TLS_RECORD_HEADER_SIZE (length record)) (\<lambda>server_hello.
     rbind (extract_server_public_key record) (\<lambda>server_public_key.
     rbind (extract_server_cipher_suite record) (\<lambda>cipher_suite_id.
     rbind (ok_or (suite_from_id cipher_suite_id) (InvalidData ''Server selected unsupported cipher suite'')) (\<lambda>cs.
     let server_hello_hash = tp_digest P (suite_hash cs) (client_hello @ server_hello);
         client_hello_hash = tp_digest P (suite_hash cs) client_hello
     in rbind (ok_or (tp_public P private_key) (IoOther ''Failed to create private key'')) (\<lambda>_.
        rbind (ok_or (tp_agree P private_key server_public_key) (IoOther ''ECDH failed'')) (\<lambda>shared.
        rbind (derive_handshake_keys P cs shared client_hello_hash server_hello_hash) (\<lambda>hs_keys.
        Inr \<lparr>ph_client_secret = client_handshake_traffic_secret hs_keys,
             ph_server_secret = server_handshake_traffic_secret hs_keys,
             ph_master_secret = master_secret hs_keys, ph_suite = cs,
             ph_transcript = client_hello @ server_hello, ph_auth_key = auth_key, ph_seq = 0,
             ph_accumulated = [], ph_found = 0, ph_cert_verified = False, ph_ed_key = None,
             ph_cv_offset = None\<rparr>)))))))"

definition process_server_hello :: "bool \<Rightarrow> tls_prims \<Rightarrow> reality_conn \<Rightarrow> bool conn_result" where
  "process_server_hello dbg P c =
     (case handshake_state c of
        AwaitingServerHello client_hello private_key auth_key \<Rightarrow>
          if sb_len (ciphertext_read_buf c) < TLS_RECORD_HEADER_SIZE then (c, Inr False)
          else try_with c (record_length c) (\<lambda>record_len.
            let total = TLS_RECORD_HEADER_SIZE + unat record_len in
            if sb_len (ciphertext_read_buf c) < total then (c, Inr False)
            else
              try_with c (sb_range_to (ciphertext_read_buf c) total) (\<lambda>record.
              try_with c (sb_consume dbg (ciphertext_read_buf c) total) (\<lambda>b.
              let c = c\<lparr>ciphertext_read_buf := b\<rparr> in
              try_with c (after_server_hello P client_hello private_key auth_key record) (\<lambda>ph.
              (c\<lparr>handshake_state := ProcessingHandshake ph\<rparr>, Inr True)))))
      | _ \<Rightarrow> (c, Inl Panic))"

section \<open>The encrypted part of the handshake\<close>

text \<open>
  The loop over the messages of the plaintext collected so far. \<open>scan_message\<close> is one round, \<open>None\<close> a
  message that is not complete.
\<close>

record scan =
  sc_offset :: nat
  sc_found :: u8
  sc_cert_verified :: bool
  sc_ed_key :: "bytes option"
  sc_cv_offset :: "nat option"

definition scan_message :: "tls_prims \<Rightarrow> bytes \<Rightarrow> bytes \<Rightarrow> scan \<Rightarrow> io_error + scan option" where
  "scan_message P auth_key acc s =
     (let offset = sc_offset s in
      if offset + 4 > length acc then Inr None
      else
        rbind (index acc offset) (\<lambda>msg_type.
        rbind (index_u24 acc (offset + 1)) (\<lambda>msg_len.
        if offset + 4 + msg_len > length acc then Inr None
        else
          rbind (if msg_type = HANDSHAKE_TYPE_CERTIFICATE
                 then rbind (slice acc offset (offset + 4 + msg_len)) (\<lambda>msg.
                      rbind (extract_certificate_der msg) (\<lambda>cert_der.
                      rbind (verify_certificate_hmac P cert_der auth_key) (\<lambda>_.
                      rbind (extract_ed25519_public_key P cert_der) (\<lambda>key.
                      Inr (s\<lparr>sc_ed_key := Some key, sc_cert_verified := True\<rparr>)))))
                 else Inr s) (\<lambda>s.
          let s = (if msg_type = HANDSHAKE_TYPE_CERTIFICATE_VERIFY then s\<lparr>sc_cv_offset := Some offset\<rparr> else s)
          in Inr (Some (s\<lparr>sc_found := sc_found s + 1, sc_offset := offset + 4 + msg_len\<rparr>))))))"

lemma scan_message_offset:
  "scan_message P k acc s = Inr (Some s') \<Longrightarrow> sc_offset s + 4 \<le> sc_offset s' \<and> sc_offset s' \<le> length acc"
  by (auto simp: scan_message_def Let_def split: if_splits)

function scan_messages :: "tls_prims \<Rightarrow> bytes \<Rightarrow> bytes \<Rightarrow> scan \<Rightarrow> io_error + scan" where
  "scan_messages P auth_key acc s =
     (if sc_offset s < length acc \<and> sc_found s < 4
      then rbind (scan_message P auth_key acc s) (\<lambda>r.
           case r of None \<Rightarrow> Inr s | Some s' \<Rightarrow> scan_messages P auth_key acc s')
      else Inr s)"
  by pat_completeness auto

termination
  by (relation "measure (\<lambda>(P, k, acc, s). length acc - sc_offset s)") (auto dest!: scan_message_offset)

declare scan_messages.simps [simp del]

text \<open>The signature over the transcript up to the CertificateVerify message.\<close>

definition check_cert_verify :: "tls_prims \<Rightarrow> processing \<Rightarrow> io_error + unit" where
  "check_cert_verify P ph =
     (case (ph_ed_key ph, ph_cv_offset ph) of
        (Some public_key, Some cv_offset) \<Rightarrow>
          rbind (slice (ph_accumulated ph) 0 cv_offset) (\<lambda>before.
          let cv_transcript_hash = tp_digest P (suite_hash (ph_suite ph)) (ph_transcript ph @ before) in
          rbind (index_u24 (ph_accumulated ph) (cv_offset + 1)) (\<lambda>cv_msg_len.
          rbind (slice (ph_accumulated ph) cv_offset (cv_offset + 4 + cv_msg_len)) (\<lambda>cv_message.
          rbind (extract_certificate_verify_signature cv_message) (\<lambda>signature.
          verify_certificate_verify_signature P public_key signature cv_transcript_hash))))
      | _ \<Rightarrow> Inl (PermissionDenied ''REALITY handshake failed: CertificateVerify not verified''))"

text \<open>
  The end of the handshake: the client's Finished goes out under the handshake keys, the application
  keys are derived. A failure after the Finished was written keeps it in the output.
\<close>

definition complete_handshake :: "bool \<Rightarrow> tls_prims \<Rightarrow> processing \<Rightarrow> reality_conn \<Rightarrow> bool conn_result" where
  "complete_handshake dbg P ph c =
     (let cs = ph_suite ph;
          handshake_hash = tp_digest P (suite_hash cs) (ph_transcript ph @ ph_accumulated ph)
      in try_with c (compute_finished_verify_data P cs (ph_client_secret ph) handshake_hash) (\<lambda>verify_data.
         let client_finished = construct_finished verify_data in
         try_with c (derive_traffic_keys P (ph_client_secret ph) cs) (\<lambda>(client_hs_key, client_hs_iv).
         try_with c (aead_key_new cs client_hs_key) (\<lambda>hs_aead_key.
         case encrypt_handshake dbg P hs_aead_key client_hs_iv \<lparr>rs_seq = 0, rs_out = ciphertext_write_buf c\<rparr> client_finished of
           (sink, Inl e) \<Rightarrow> (c\<lparr>ciphertext_write_buf := rs_out sink\<rparr>, Inl e)
         | (sink, Inr _) \<Rightarrow>
             let c = c\<lparr>ciphertext_write_buf := rs_out sink\<rparr> in
             try_with c (derive_application_secrets P cs (ph_master_secret ph) handshake_hash) (\<lambda>(client_secret, server_secret).
             try_with c (derive_traffic_keys P client_secret cs) (\<lambda>(client_key, client_iv).
             try_with c (derive_traffic_keys P server_secret cs) (\<lambda>(server_key, server_iv).
             try_with c (aead_key_new cs client_key) (\<lambda>client_app_key.
             try_with c (aead_key_new cs server_key) (\<lambda>server_app_key.
             (c\<lparr>app_read_key := Some server_app_key, app_read_iv := Some server_iv,
                app_write_key := Some client_app_key, app_write_iv := Some client_iv,
                read_seq := 0, write_seq := 0, conn_suite := Some cs, handshake_state := Complete\<rparr>, Inr True))))))))))"

text \<open>One record of the encrypted handshake, already taken out of the buffer.\<close>

definition on_handshake_record ::
  "bool \<Rightarrow> tls_prims \<Rightarrow> processing \<Rightarrow> bytes \<Rightarrow> bytes \<Rightarrow> bytes \<Rightarrow> u16 \<Rightarrow> reality_conn \<Rightarrow> bool conn_result" where
  "on_handshake_record dbg P ph key iv ciphertext record_len c =
     try_with c (decrypt_handshake_message P (ph_suite ph) key iv (ph_seq ph) ciphertext record_len) (\<lambda>plaintext.
     let acc = ph_accumulated ph @ plaintext in
     try_with c (scan_messages P (ph_auth_key ph) acc
        \<lparr>sc_offset = length (ph_accumulated ph), sc_found = ph_found ph, sc_cert_verified = ph_cert_verified ph,
         sc_ed_key = ph_ed_key ph, sc_cv_offset = ph_cv_offset ph\<rparr>) (\<lambda>s.
     let ph = ph\<lparr>ph_seq := ph_seq ph + 1, ph_accumulated := acc, ph_found := sc_found s,
                 ph_cert_verified := sc_cert_verified s, ph_ed_key := sc_ed_key s, ph_cv_offset := sc_cv_offset s\<rparr>
     in if ph_found ph < 4 then (c\<lparr>handshake_state := ProcessingHandshake ph\<rparr>, Inr True)
        else if \<not> ph_cert_verified ph
        then (c, Inl (PermissionDenied ''REALITY handshake failed: Certificate message not received or not verified''))
        else try_with c (check_cert_verify P ph) (\<lambda>_. complete_handshake dbg P ph c)))"

lemma sb_consume_shorter:
  "sb_consume dbg b n = Inr b' \<Longrightarrow> 0 < n \<Longrightarrow> n \<le> sb_len b \<Longrightarrow> sb_len b' < sb_len b"
  by (auto simp: sb_consume_def debug_assert_def sb_len_def Let_def split: if_splits)

function process_encrypted_handshake :: "bool \<Rightarrow> tls_prims \<Rightarrow> reality_conn \<Rightarrow> bool conn_result" where
  "process_encrypted_handshake dbg P c =
     (case handshake_state c of
        ProcessingHandshake ph \<Rightarrow>
          try_with c (derive_traffic_keys P (ph_server_secret ph) (ph_suite ph)) (\<lambda>(server_hs_key, server_hs_iv).
          if sb_len (ciphertext_read_buf c) < TLS_RECORD_HEADER_SIZE then (c, Inr False)
          else
            try_with c (sb_index (ciphertext_read_buf c) 0) (\<lambda>record_type.
            try_with c (record_length c) (\<lambda>record_len.
            let total = TLS_RECORD_HEADER_SIZE + unat record_len in
            if sb_len (ciphertext_read_buf c) < total then (c, Inr False)
            else if record_type = CONTENT_TYPE_CHANGE_CIPHER_SPEC then
              (case sb_consume dbg (ciphertext_read_buf c) total of
                 Inl e \<Rightarrow> (c, Inl e)
               | Inr b \<Rightarrow> process_encrypted_handshake dbg P (c\<lparr>ciphertext_read_buf := b\<rparr>))
            else if record_type \<noteq> CONTENT_TYPE_APPLICATION_DATA
            then (c, Inl (InvalidData ''Expected Application Data record''))
            else
              try_with c (sb_range (ciphertext_read_buf c) TLS_RECORD_HEADER_SIZE total) (\<lambda>ciphertext.
              try_with c (sb_consume dbg (ciphertext_read_buf c) total) (\<lambda>b.
              on_handshake_record dbg P ph server_hs_key server_hs_iv ciphertext record_len
                (c\<lparr>ciphertext_read_buf := b\<rparr>))))))
      | _ \<Rightarrow> (c, Inl Panic))"
  by pat_completeness auto

termination
  by (relation "measure (\<lambda>(dbg, P, c). sb_len (ciphertext_read_buf c))") (auto dest!: sb_consume_shorter)

declare process_encrypted_handshake.simps [simp del]

section \<open>Application data\<close>

text \<open>One record: \<open>Inr True\<close> goes on with the loop, \<open>Inr False\<close> ends it.\<close>

definition on_alert :: "reality_conn \<Rightarrow> bytes \<Rightarrow> bool conn_result" where
  "on_alert c plaintext =
     (case plaintext of
        alert_level # alert_desc # _ \<Rightarrow>
          if alert_desc = ALERT_DESC_CLOSE_NOTIFY then (c\<lparr>received_close_notify := True\<rparr>, Inr False)
          else if alert_level \<noteq> ALERT_LEVEL_WARNING then (c, Inl (ConnectionAborted ''received fatal alert''))
          else (c, Inr True)
      | _ \<Rightarrow> (c, Inr True))"

definition on_app_record :: "bool \<Rightarrow> tls_prims \<Rightarrow> aead_key \<Rightarrow> bytes \<Rightarrow> reality_conn \<Rightarrow> bool conn_result" where
  "on_app_record dbg P key iv c =
     try_with c (record_length c) (\<lambda>record_len.
     let total = TLS_RECORD_HEADER_SIZE + unat record_len in
     if sb_len (ciphertext_read_buf c) < total then (c, Inr False)
     else
       try_with c (sb_range (ciphertext_read_buf c) TLS_RECORD_HEADER_SIZE total) (\<lambda>ciphertext.
       case decrypt_record_in_place P key iv (read_seq c) ciphertext record_len of
         (seq, Inl e) \<Rightarrow> (c\<lparr>read_seq := seq\<rparr>, Inl e)
       | (seq, Inr (content_type, plaintext)) \<Rightarrow>
           let c = c\<lparr>read_seq := seq\<rparr>;
               (c, r) =
                 (if content_type = CONTENT_TYPE_APPLICATION_DATA then
                    let b = maybe_compact 4096 (plaintext_read_buf c) in
                    try_with (c\<lparr>plaintext_read_buf := b\<rparr>) (sb_extend dbg b plaintext) (\<lambda>b.
                    (c\<lparr>plaintext_read_buf := b\<rparr>, Inr True))
                  else if content_type = CONTENT_TYPE_ALERT then on_alert c plaintext
                  else (c, Inl Panic))
           in if r = Inr True
              then try_with c (sb_consume dbg (ciphertext_read_buf c) total) (\<lambda>b.
                   (c\<lparr>ciphertext_read_buf := b\<rparr>, Inr True))
              else (c, r)))"

lemma on_alert_buf: "on_alert c d = (c', r) \<Longrightarrow> ciphertext_read_buf c' = ciphertext_read_buf c"
  by (auto simp: on_alert_def split: list.splits if_splits)

lemma on_app_record_shorter:
  assumes "on_app_record dbg P key iv c = (c', Inr True)"
  shows "sb_len (ciphertext_read_buf c') < sb_len (ciphertext_read_buf c)"
  using assms
  by (auto simp: on_app_record_def try_with_def Let_def split: sum.splits prod.splits if_splits
      dest!: sb_consume_shorter dest: on_alert_buf)

function app_loop :: "bool \<Rightarrow> tls_prims \<Rightarrow> aead_key \<Rightarrow> bytes \<Rightarrow> reality_conn \<Rightarrow> unit conn_result" where
  "app_loop dbg P key iv c =
     (if sb_len (ciphertext_read_buf c) < TLS_RECORD_HEADER_SIZE then (c, Inr ())
      else case on_app_record dbg P key iv c of
          (c', Inl e) \<Rightarrow> (c', Inl e)
        | (c', Inr again) \<Rightarrow> if again then app_loop dbg P key iv c' else (c', Inr ()))"
  by pat_completeness auto

termination
  by (relation "measure (\<lambda>(dbg, P, key, iv, c). sb_len (ciphertext_read_buf c))") (auto dest!: sym [THEN on_app_record_shorter])

declare app_loop.simps [simp del]

definition process_application_data :: "bool \<Rightarrow> tls_prims \<Rightarrow> reality_conn \<Rightarrow> unit conn_result" where
  "process_application_data dbg P c =
     (case (app_read_key c, app_read_iv c) of
        (Some key, Some iv) \<Rightarrow> app_loop dbg P key iv c
      | _ \<Rightarrow> (c, Inl Panic))"

section \<open>Processing\<close>

lemma process_server_hello_shorter:
  assumes "process_server_hello dbg P c = (c', Inr True)"
  shows "sb_len (ciphertext_read_buf c') < sb_len (ciphertext_read_buf c)"
  using assms
  by (auto simp: process_server_hello_def try_with_def Let_def split: handshake_state.splits sum.splits if_splits
      dest!: sb_consume_shorter)

lemma complete_handshake_buf:
  "complete_handshake dbg P ph c = (c', r) \<Longrightarrow> ciphertext_read_buf c' = ciphertext_read_buf c"
  by (auto simp: complete_handshake_def try_with_def Let_def split: sum.splits prod.splits)

lemma on_handshake_record_buf:
  "on_handshake_record dbg P ph k iv ct n c = (c', r) \<Longrightarrow> ciphertext_read_buf c' = ciphertext_read_buf c"
  by (auto simp: on_handshake_record_def try_with_def Let_def split: sum.splits if_splits dest: complete_handshake_buf)

text \<open>A call either leaves the connection alone, skips a ChangeCipherSpec record or processes a record.\<close>

lemma process_encrypted_cases:
  assumes "process_encrypted_handshake dbg P c = (c', r)"
  obtains (stay) "c' = c" "r \<noteq> Inr True"
  | (skip) n b where "sb_consume dbg (ciphertext_read_buf c) (5 + n) = Inr b" "5 + n \<le> sb_len (ciphertext_read_buf c)"
      "process_encrypted_handshake dbg P (c\<lparr>ciphertext_read_buf := b\<rparr>) = (c', r)"
  | (took) ph key iv ct n b where "handshake_state c = ProcessingHandshake ph"
      "sb_consume dbg (ciphertext_read_buf c) (5 + unat n) = Inr b" "5 + unat n \<le> sb_len (ciphertext_read_buf c)"
      "on_handshake_record dbg P ph key iv ct n (c\<lparr>ciphertext_read_buf := b\<rparr>) = (c', r)"
proof (cases "handshake_state c")
  case (ProcessingHandshake ph)
  from assms show thesis
    by (subst (asm) process_encrypted_handshake.simps)
      (auto simp: ProcessingHandshake try_with_def Let_def not_less split: sum.splits if_splits
        intro: stay skip took [OF ProcessingHandshake])
qed (use assms in \<open>auto simp: process_encrypted_handshake.simps [of dbg P c] intro: stay\<close>)

lemma process_encrypted_handshake_shorter:
  "process_encrypted_handshake dbg P c = (c', Inr True) \<Longrightarrow> sb_len (ciphertext_read_buf c') < sb_len (ciphertext_read_buf c)"
proof (induction "sb_len (ciphertext_read_buf c)" arbitrary: c rule: less_induct)
  case less
  from less.prems show ?case
  proof (cases rule: process_encrypted_cases)
    case (skip n b)
    then have "sb_len b < sb_len (ciphertext_read_buf c)" by (auto dest: sb_consume_shorter)
    then show ?thesis using less.hyps [OF _ skip(3)] by simp
  next
    case (took ph key iv ct n b)
    then show ?thesis using sb_consume_shorter [OF took(2)] on_handshake_record_buf [OF took(4)] by simp
  qed simp
qed

function process_new_packets_inner :: "bool \<Rightarrow> tls_prims \<Rightarrow> reality_conn \<Rightarrow> nat conn_result" where
  "process_new_packets_inner dbg P c =
     (case handshake_state c of
        AwaitingServerHello _ _ _ \<Rightarrow>
          (case process_server_hello dbg P c of
             (c', Inl e) \<Rightarrow> (c', Inl e)
           | (c', Inr again) \<Rightarrow>
               if again then process_new_packets_inner dbg P c' else (c', Inr (sb_len (plaintext_read_buf c'))))
      | ProcessingHandshake _ \<Rightarrow>
          (case process_encrypted_handshake dbg P c of
             (c', Inl e) \<Rightarrow> (c', Inl e)
           | (c', Inr again) \<Rightarrow>
               if again then process_new_packets_inner dbg P c' else (c', Inr (sb_len (plaintext_read_buf c'))))
      | Complete \<Rightarrow>
          (case process_application_data dbg P c of
             (c', Inl e) \<Rightarrow> (c', Inl e)
           | (c', Inr _) \<Rightarrow> (c', Inr (sb_len (plaintext_read_buf c')))))"
  by pat_completeness auto

termination
  by (relation "measure (\<lambda>(dbg, P, c). sb_len (ciphertext_read_buf c))")
    (auto dest!: sym [THEN process_server_hello_shorter] sym [THEN process_encrypted_handshake_shorter])

declare process_new_packets_inner.simps [simp del]

definition fatal_kind :: "io_error \<Rightarrow> error_kind option" where
  "fatal_kind e = (case e of
     InvalidData _ \<Rightarrow> Some KInvalidData
   | PermissionDenied _ \<Rightarrow> Some KPermissionDenied
   | ConnectionAborted _ \<Rightarrow> Some KConnectionAborted
   | _ \<Rightarrow> None)"

primrec kind_error :: "error_kind \<Rightarrow> string \<Rightarrow> io_error" where
  "kind_error KInvalidData = InvalidData"
| "kind_error KPermissionDenied = PermissionDenied"
| "kind_error KConnectionAborted = ConnectionAborted"

definition process_new_packets :: "bool \<Rightarrow> tls_prims \<Rightarrow> reality_conn \<Rightarrow> nat conn_result" where
  "process_new_packets dbg P c =
     (case fatal_error c of
        Some kind \<Rightarrow> (c, Inl (kind_error kind ''connection previously failed''))
      | None \<Rightarrow>
          if received_close_notify c then (c, Inr (sb_len (plaintext_read_buf c)))
          else case process_new_packets_inner dbg P c of
              (c, Inl e) \<Rightarrow> ((case fatal_kind e of None \<Rightarrow> c | Some k \<Rightarrow> c\<lparr>fatal_error := Some k\<rparr>), Inl e)
            | (c, Inr n) \<Rightarrow> (c, Inr n))"

section \<open>Reading and writing application data\<close>

definition conn_read :: "bool \<Rightarrow> reality_conn \<Rightarrow> nat \<Rightarrow> bytes conn_result" where
  "conn_read dbg c n =
     (let c = c\<lparr>plaintext_read_buf := maybe_compact 4096 (plaintext_read_buf c)\<rparr> in
      try_with c (reader_read dbg (plaintext_read_buf c) n) (\<lambda>(b, out).
      (c\<lparr>plaintext_read_buf := b\<rparr>, Inr out)))"

definition conn_write :: "reality_conn \<Rightarrow> bytes \<Rightarrow> nat conn_result" where
  "conn_write c d = (c\<lparr>plaintext_write_buf := plaintext_write_buf c @ d\<rparr>, Inr (length d))"

definition is_handshaking :: "reality_conn \<Rightarrow> bool" where
  "is_handshaking c \<longleftrightarrow> handshake_state c \<noteq> Complete"

text \<open>
  \<open>wr\<close> is the writer of the caller: how many bytes it takes of a buffer. The bytes it took are the first
  component of the result.
\<close>

definition drain_to :: "(bytes \<Rightarrow> io_error + nat) \<Rightarrow> reality_conn \<Rightarrow> bytes \<times> nat conn_result" where
  "drain_to wr c =
     (case wr (ciphertext_write_buf c) of
        Inl e \<Rightarrow> ([], c, Inl e)
      | Inr n \<Rightarrow>
          if n > length (ciphertext_write_buf c) then ([], c, Inl Panic)
          else (take n (ciphertext_write_buf c),
                c\<lparr>ciphertext_write_buf := drop n (ciphertext_write_buf c)\<rparr>, Inr n))"

definition seal_pending :: "bool \<Rightarrow> tls_prims \<Rightarrow> reality_conn \<Rightarrow> unit conn_result" where
  "seal_pending dbg P c =
     (if plaintext_write_buf c = [] then (c, Inr ())
      else case (app_write_key c, app_write_iv c) of
          (Some key, Some iv) \<Rightarrow>
            (case encrypt_app_data dbg P key iv \<lparr>rs_seq = write_seq c, rs_out = ciphertext_write_buf c\<rparr> (plaintext_write_buf c) of
               (pt, sink, r) \<Rightarrow>
                 (c\<lparr>plaintext_write_buf := pt, write_seq := rs_seq sink, ciphertext_write_buf := rs_out sink\<rparr>, r))
        | _ \<Rightarrow> (c, Inl (InvalidData ''Application keys not available'')))"

definition write_tls :: "bool \<Rightarrow> tls_prims \<Rightarrow> (bytes \<Rightarrow> io_error + nat) \<Rightarrow> reality_conn \<Rightarrow> bytes \<times> nat conn_result" where
  "write_tls dbg P wr c =
     (if is_handshaking c then drain_to wr c
      else case seal_pending dbg P c of
          (c, Inl e) \<Rightarrow> ([], c, Inl e)
        | (c, Inr _) \<Rightarrow> drain_to wr c)"

definition wants_write :: "reality_conn \<Rightarrow> bool" where
  "wants_write c \<longleftrightarrow> ciphertext_write_buf c \<noteq> [] \<or> plaintext_write_buf c \<noteq> []"

definition wants_read :: "reality_conn \<Rightarrow> bool" where
  "wants_read c \<longleftrightarrow>
     \<not> received_close_notify c \<and> fatal_error c = None \<and> (is_handshaking c \<or> sb_is_empty (plaintext_read_buf c))"

definition send_close_notify :: "bool \<Rightarrow> tls_prims \<Rightarrow> reality_conn \<Rightarrow> reality_conn" where
  "send_close_notify dbg P c =
     (if is_handshaking c then c
      else case (app_write_key c, app_write_iv c) of
          (Some key, Some iv) \<Rightarrow>
            (let (sink, r) = encrypt_close_notify dbg P key iv \<lparr>rs_seq = write_seq c, rs_out = ciphertext_write_buf c\<rparr>
             in c\<lparr>write_seq := rs_seq sink, ciphertext_write_buf := rs_out sink\<rparr>)
        | _ \<Rightarrow> c)"

end
