(* ===== verification/RealityAuth.thy ===== *)
theory RealityAuth
  imports RealityClient
begin

text \<open>
  What a REALITY connection guarantees against whatever is on the other side of the wire. \<open>conn_step\<close> is
  one call of the connection's interface with arbitrary data from the network; a run of such calls,
  failed ones included, either has seen a server that proved itself or has neither given out
  application data nor sent anything but the ClientHello.
\<close>

section \<open>Runs of a connection\<close>

datatype conn_op =
  ReadTls bytes | Feed bytes | ProcessPackets | ReadApp nat | WriteApp bytes | WriteTls "bytes \<Rightarrow> io_error + nat" | CloseNotify

text \<open>The connection, the bytes written to the transport and the bytes given to the application.\<close>

type_synonym conn_run = "reality_conn \<times> bytes \<times> bytes"

fun conn_step :: "bool \<Rightarrow> tls_prims \<Rightarrow> conn_run \<Rightarrow> conn_op \<Rightarrow> conn_run" where
  "conn_step dbg P (c, out, app) (ReadTls d) = (fst (read_tls dbg c (Inr d)), out, app)"
| "conn_step dbg P (c, out, app) (Feed d) = (fst (feed_reality_client_connection dbg c d), out, app)"
| "conn_step dbg P (c, out, app) ProcessPackets = (fst (process_new_packets dbg P c), out, app)"
| "conn_step dbg P (c, out, app) (ReadApp n) =
     (case conn_read dbg c n of (c, Inl e) \<Rightarrow> (c, out, app) | (c, Inr d) \<Rightarrow> (c, out, app @ d))"
| "conn_step dbg P (c, out, app) (WriteApp d) = (fst (conn_write c d), out, app)"
| "conn_step dbg P (c, out, app) (WriteTls wr) = (let (w, c, r) = write_tls dbg P wr c in (c, out @ w, app))"
| "conn_step dbg P (c, out, app) CloseNotify = (send_close_notify dbg P c, out, app)"

section \<open>What a server has to show\<close>

text \<open>A certificate for the Ed25519 key \<open>pk\<close> whose signature is the MAC of the key under \<open>auth_key\<close>.\<close>

definition authentic :: "tls_prims \<Rightarrow> bytes \<Rightarrow> bytes \<Rightarrow> bool" where
  "authentic P auth_key pk \<longleftrightarrow> (\<exists>cert. tp_x509 P cert = Some (pk, tp_hmac P SHA512 auth_key pk))"

text \<open>Such a key has signed a transcript that starts with this client's hello.\<close>

definition server_proved :: "tls_prims \<Rightarrow> bytes \<Rightarrow> bytes \<Rightarrow> bool" where
  "server_proved P auth_key client_hello \<longleftrightarrow>
     (\<exists>pk h rest signature. authentic P auth_key pk
        \<and> tp_verify P pk (cert_verify_content (tp_digest P h (client_hello @ rest))) signature)"

section \<open>The handshake keeps its promise\<close>

definition ph_ok :: "tls_prims \<Rightarrow> bytes \<Rightarrow> bytes \<Rightarrow> processing \<Rightarrow> bool" where
  "ph_ok P auth_key client_hello ph \<longleftrightarrow>
     ph_auth_key ph = auth_key \<and> prefix client_hello (ph_transcript ph) \<and> (\<forall>k. ph_ed_key ph = Some k \<longrightarrow> authentic P auth_key k)"

definition hs_ok :: "tls_prims \<Rightarrow> bytes \<Rightarrow> bytes \<Rightarrow> handshake_state \<Rightarrow> bool" where
  "hs_ok P auth_key client_hello h = (case h of
     AwaitingServerHello ch priv k \<Rightarrow> ch = client_hello \<and> k = auth_key
   | ProcessingHandshake ph \<Rightarrow> ph_ok P auth_key client_hello ph
   | Complete \<Rightarrow> False)"

lemma certificate_authentic:
  assumes "verify_certificate_hmac P cert k = Inr ()" and "extract_ed25519_public_key P cert = Inr pk"
  shows "authentic P k pk"
  using assms by (auto simp: verify_certificate_hmac_def extract_ed25519_public_key_def authentic_def split: if_splits)

lemma scan_message_key:
  assumes "scan_message P k acc s = Inr (Some s')" and "\<forall>pk. sc_ed_key s = Some pk \<longrightarrow> authentic P k pk"
  shows "\<forall>pk. sc_ed_key s' = Some pk \<longrightarrow> authentic P k pk"
  using assms by (auto simp: scan_message_def Let_def split: if_splits dest: certificate_authentic)

lemma scan_messages_key:
  "scan_messages P k acc s = Inr s' \<Longrightarrow> \<forall>pk. sc_ed_key s = Some pk \<longrightarrow> authentic P k pk \<Longrightarrow> sc_ed_key s' = Some pk \<Longrightarrow> authentic P k pk"
proof (induction P k acc s rule: scan_messages.induct)
  case (1 P k acc s)
  from "1.prems"(1) consider "s' = s" | t where "scan_message P k acc s = Inr (Some t)" "scan_messages P k acc t = Inr s'"
      "sc_offset s < length acc \<and> sc_found s < 4"
    by (subst (asm) scan_messages.simps) (auto split: if_splits option.splits)
  then show ?case
  proof cases
    case 2
    then show ?thesis using "1.IH" [OF 2(3) 2(1) refl 2(2)] scan_message_key [OF 2(1) "1.prems"(2)] "1.prems"(3) by simp
  qed (use "1.prems" in simp)
qed

lemma check_cert_verify_proved:
  assumes "check_cert_verify P ph = Inr ()" and "ph_ok P k ch ph"
  shows "server_proved P k ch"
proof -
  from assms(1) obtain pk before sig where "ph_ed_key ph = Some pk"
    and v: "tp_verify P pk (cert_verify_content (tp_digest P (suite_hash (ph_suite ph)) (ph_transcript ph @ before))) sig"
    by (auto simp: check_cert_verify_def Let_def verify_certificate_verify_signature_def split: option.splits if_splits)
  then have "authentic P k pk" using assms(2) by (simp add: ph_ok_def)
  moreover obtain sh where "ph_transcript ph = ch @ sh" using assms(2) by (auto simp: ph_ok_def prefix_def)
  ultimately show ?thesis using v unfolding server_proved_def by (metis append_assoc)
qed

text \<open>
  The effect of one record on a connection that has not proved its server: nothing but the state of the handshake
  changes.
\<close>

lemma on_handshake_record_effect:
  assumes "on_handshake_record dbg P ph key iv ct n c = (c', r)" and "ph_ok P k ch ph" and "\<not> server_proved P k ch"
    and "handshake_state c = ProcessingHandshake ph"
  shows "\<exists>h. c' = c\<lparr>handshake_state := h\<rparr> \<and> hs_ok P k ch h"
proof (cases "\<exists>pt s. decrypt_handshake_message P (ph_suite ph) key iv (ph_seq ph) ct n = Inr pt \<and>
    scan_messages P (ph_auth_key ph) (ph_accumulated ph @ pt)
      \<lparr>sc_offset = length (ph_accumulated ph), sc_found = ph_found ph, sc_cert_verified = ph_cert_verified ph,
       sc_ed_key = ph_ed_key ph, sc_cv_offset = ph_cv_offset ph\<rparr> = Inr s")
  case True
  then obtain pt s where d: "decrypt_handshake_message P (ph_suite ph) key iv (ph_seq ph) ct n = Inr pt"
    and s: "scan_messages P (ph_auth_key ph) (ph_accumulated ph @ pt)
      \<lparr>sc_offset = length (ph_accumulated ph), sc_found = ph_found ph, sc_cert_verified = ph_cert_verified ph,
       sc_ed_key = ph_ed_key ph, sc_cv_offset = ph_cv_offset ph\<rparr> = Inr s" by blast
  let ?ph = "ph\<lparr>ph_seq := ph_seq ph + 1, ph_accumulated := ph_accumulated ph @ pt, ph_found := sc_found s,
    ph_cert_verified := sc_cert_verified s, ph_ed_key := sc_ed_key s, ph_cv_offset := sc_cv_offset s\<rparr>"
  have ok: "ph_ok P k ch ?ph"
    using assms(2) scan_messages_key [OF s] by (auto simp: ph_ok_def)
  then have "check_cert_verify P ?ph \<noteq> Inr ()" using check_cert_verify_proved assms(3) by blast
  then obtain e where "check_cert_verify P ?ph = Inl e" by (cases "check_cert_verify P ?ph") auto
  then have "c' = c\<lparr>handshake_state := ProcessingHandshake ?ph\<rparr> \<or> c' = c"
    using assms(1) d s by (auto simp: on_handshake_record_def try_with_def Let_def split: if_splits)
  then show ?thesis
    using ok assms(2,4) by (auto simp: hs_ok_def intro: exI [of _ "handshake_state c"])
next
  case False
  then have "c' = c" using assms(1)
    by (auto simp: on_handshake_record_def try_with_def Let_def split: sum.splits)
  then show ?thesis using assms(2,4) by (intro exI [of _ "handshake_state c"]) (simp add: hs_ok_def)
qed

definition only_handshake :: "tls_prims \<Rightarrow> bytes \<Rightarrow> bytes \<Rightarrow> reality_conn \<Rightarrow> reality_conn \<Rightarrow> bool" where
  "only_handshake P k ch c c' \<longleftrightarrow>
     (\<exists>h b. c' = c\<lparr>handshake_state := h, ciphertext_read_buf := b\<rparr> \<and> hs_ok P k ch h)"

lemma only_handshake_trans:
  "only_handshake P k ch (c\<lparr>ciphertext_read_buf := b\<rparr>) c' \<Longrightarrow> only_handshake P k ch c c'"
  "only_handshake P k ch c c' \<Longrightarrow> only_handshake P k ch c' c'' \<Longrightarrow> only_handshake P k ch c c''"
  by (cases c; auto simp: only_handshake_def)+

lemma process_encrypted_effect:
  assumes "\<not> server_proved P k ch"
  shows "process_encrypted_handshake dbg P c = (c', r) \<Longrightarrow> hs_ok P k ch (handshake_state c) \<Longrightarrow> only_handshake P k ch c c'"
proof (induction "sb_len (ciphertext_read_buf c)" arbitrary: c rule: less_induct)
  case less
  from less.prems(1) show ?case
  proof (cases rule: process_encrypted_cases)
    case stay
    then show ?thesis using less.prems(2)
      by (auto simp: only_handshake_def intro!: exI [of _ "handshake_state c"] exI [of _ "ciphertext_read_buf c"])
  next
    case (skip n b)
    then have "sb_len b < sb_len (ciphertext_read_buf c)" by (auto dest: sb_consume_shorter)
    then show ?thesis
      using less.hyps [OF _ skip(3)] less.prems(2) by (auto intro: only_handshake_trans(1))
  next
    case (took ph key iv ct n b)
    then have "ph_ok P k ch ph" using less.prems(2) by (simp add: hs_ok_def)
    with on_handshake_record_effect [OF took(4) _ assms] took(1)
    obtain h where "c' = c\<lparr>ciphertext_read_buf := b, handshake_state := h\<rparr>" "hs_ok P k ch h" by auto
    then show ?thesis
      by (cases c) (auto simp: only_handshake_def intro!: exI [of _ h] exI [of _ b])
  qed
qed

lemma only_handshake_refl: "hs_ok P k ch (handshake_state c) \<Longrightarrow> only_handshake P k ch c c"
  by (auto simp: only_handshake_def intro!: exI [of _ "handshake_state c"] exI [of _ "ciphertext_read_buf c"])

lemma process_server_hello_effect:
  assumes "process_server_hello dbg P c = (c', r)" and "hs_ok P k ch (handshake_state c)"
  shows "only_handshake P k ch c c'"
proof -
  consider "c' = c" | b where "c' = c\<lparr>ciphertext_read_buf := b\<rparr>"
    | b ph priv rec where "c' = c\<lparr>ciphertext_read_buf := b, handshake_state := ProcessingHandshake ph\<rparr>"
      "after_server_hello P ch priv k rec = Inr ph"
    using assms
    by (auto simp: process_server_hello_def hs_ok_def try_with_def Let_def
        split: handshake_state.splits sum.splits if_splits)
  then show ?thesis
  proof cases
    case 1
    then show ?thesis using assms(2) by (simp add: only_handshake_refl)
  next
    case (2 b)
    then show ?thesis using assms(2)
      by (auto simp: only_handshake_def intro!: exI [of _ "handshake_state c"] exI [of _ b])
  next
    case (3 b ph priv rec)
    then have "ph_ok P k ch ph" by (auto simp: after_server_hello_def Let_def ph_ok_def)
    then show ?thesis using 3(1) by (cases c) (auto simp: only_handshake_def hs_ok_def)
  qed
qed

lemma process_inner_effect:
  "\<not> server_proved P k ch \<Longrightarrow> hs_ok P k ch (handshake_state c) \<Longrightarrow> only_handshake P k ch c (fst (process_new_packets_inner dbg P c))"
proof (induction dbg P c rule: process_new_packets_inner.induct)
  case (1 dbg P c)
  show ?case
  proof (cases "handshake_state c")
    case (AwaitingServerHello a b d)
    obtain c' r where p: "process_server_hello dbg P c = (c', r)" by fastforce
    from process_server_hello_effect [OF p "1.prems"(2)] have eff: "only_handshake P k ch c c'" .
    then have "hs_ok P k ch (handshake_state c')" by (cases c) (auto simp: only_handshake_def)
    then show ?thesis
      using eff "1.IH"(1) [OF AwaitingServerHello p [symmetric]] p AwaitingServerHello "1.prems"(1)
      by (subst process_new_packets_inner.simps) (auto split: sum.splits intro: only_handshake_trans(2))
  next
    case (ProcessingHandshake ph)
    obtain c' r where p: "process_encrypted_handshake dbg P c = (c', r)" by fastforce
    from process_encrypted_effect [OF "1.prems"(1) p "1.prems"(2)] have eff: "only_handshake P k ch c c'" .
    then have "hs_ok P k ch (handshake_state c')" by (cases c) (auto simp: only_handshake_def)
    then show ?thesis
      using eff "1.IH"(2) [OF ProcessingHandshake p [symmetric]] p ProcessingHandshake "1.prems"(1)
      by (subst process_new_packets_inner.simps) (auto split: sum.splits intro: only_handshake_trans(2))
  next
    case Complete
    then show ?thesis using "1.prems" by (simp add: hs_ok_def)
  qed
qed

section \<open>The invariant of a run\<close>

text \<open>\<open>hello\<close> is the ClientHello record: what has been sent of it and what is still in the buffer.\<close>

definition unproved :: "tls_prims \<Rightarrow> bytes \<Rightarrow> bytes \<Rightarrow> bytes \<Rightarrow> conn_run \<Rightarrow> bool" where
  "unproved P k ch hello = (\<lambda>(c, out, app).
     hs_ok P k ch (handshake_state c) \<and> out @ ciphertext_write_buf c = hello \<and> app = []
     \<and> sb_len (plaintext_read_buf c) = 0)"

lemma read_tls_effect: "\<exists>b. fst (read_tls dbg c got) = c\<lparr>ciphertext_read_buf := b\<rparr>"
proof -
  have "\<exists>b. c = c\<lparr>ciphertext_read_buf := b\<rparr>" by (rule exI [of _ "ciphertext_read_buf c"]) simp
  then show ?thesis by (auto simp: read_tls_def try_with_def Let_def split: sum.splits)
qed

lemma feed_effect: "\<exists>b. fst (feed_loop dbg c d) = c\<lparr>ciphertext_read_buf := b\<rparr>"
proof (induction dbg c d rule: feed_loop.induct)
  case (1 dbg c d)
  have id: "\<exists>b. c = c\<lparr>ciphertext_read_buf := b\<rparr>" by (rule exI [of _ "ciphertext_read_buf c"]) simp
  obtain c' r where r: "read_tls dbg c (Inr (take 16645 d)) = (c', r)" by fastforce
  obtain b where b: "c' = c\<lparr>ciphertext_read_buf := b\<rparr>"
    using read_tls_effect [of dbg c "Inr (take 16645 d)"] r by auto
  show ?case
  proof (cases "d = [] \<or> (\<exists>e. r = Inl e)")
    case True
    then show ?thesis using id b r by (subst feed_loop.simps) auto
  next
    case False
    then obtain n where n: "d \<noteq> []" "r = Inr n" by (cases r) auto
    from "1.IH" [OF n(1) r [symmetric] n(2)] show ?thesis
      using n r b by (subst feed_loop.simps) auto
  qed
qed

lemma empty_reader:
  assumes "sb_len b = 0"
  shows "reader_read dbg b n = Inr (b, [])" and "sb_len (maybe_compact t b) = 0"
  using assms by (auto simp: reader_read_def maybe_compact_def compact_def sb_len_def)

lemma process_effect:
  assumes "\<not> server_proved P k ch" and "hs_ok P k ch (handshake_state c)" and "process_new_packets dbg P c = (c', r)"
  shows "only_handshake P k ch (c\<lparr>fatal_error := fatal_error c'\<rparr>) c'"
proof -
  obtain d q where p: "process_new_packets_inner dbg P c = (d, q)" by fastforce
  obtain h b where h: "d = c\<lparr>handshake_state := h, ciphertext_read_buf := b\<rparr>" "hs_ok P k ch h"
    using process_inner_effect [OF assms(1,2), of dbg] p by (auto simp: only_handshake_def)
  have "c' = c \<or> (\<exists>f. c' = d\<lparr>fatal_error := f\<rparr>) \<or> c' = d"
    using assms(3) p by (auto simp: process_new_packets_def split: option.splits sum.splits if_splits)
  moreover have "only_handshake P k ch (c\<lparr>fatal_error := f\<rparr>) (d\<lparr>fatal_error := f\<rparr>)" for f
    using h by (cases c) (auto simp: only_handshake_def)
  moreover have "only_handshake P k ch (c\<lparr>fatal_error := fatal_error d\<rparr>) d"
    using h by (cases c) (auto simp: only_handshake_def)
  ultimately show ?thesis using only_handshake_refl [OF assms(2)] by auto
qed

lemma conn_step_unproved:
  assumes "\<not> server_proved P k ch" and "unproved P k ch hello s"
  shows "unproved P k ch hello (conn_step dbg P s x)"
proof -
  obtain c out app where s: "s = (c, out, app)" by (cases s) auto
  then have inv: "hs_ok P k ch (handshake_state c)" "out @ ciphertext_write_buf c = hello" "app = []"
    "sb_len (plaintext_read_buf c) = 0" and hs: "is_handshaking c"
    using assms(2) by (auto simp: unproved_def hs_ok_def is_handshaking_def)
  show ?thesis
  proof (cases x)
    case (ReadTls d)
    then show ?thesis using inv read_tls_effect [of dbg c "Inr d"] s by (auto simp: unproved_def)
  next
    case (Feed d)
    then show ?thesis using inv feed_effect [of dbg c d] s
      by (auto simp: unproved_def feed_reality_client_connection_def)
  next
    case ProcessPackets
    obtain c' r where p: "process_new_packets dbg P c = (c', r)" by fastforce
    then obtain h b where "c' = c\<lparr>fatal_error := fatal_error c', handshake_state := h, ciphertext_read_buf := b\<rparr>"
        "hs_ok P k ch h"
      using process_effect [OF assms(1) inv(1) p] by (auto simp: only_handshake_def)
    then have "hs_ok P k ch (handshake_state c') \<and> ciphertext_write_buf c' = ciphertext_write_buf c
        \<and> plaintext_read_buf c' = plaintext_read_buf c"
      by (cases c') auto
    then show ?thesis using inv s p ProcessPackets by (auto simp: unproved_def)
  next
    case (ReadApp n)
    then show ?thesis using inv s empty_reader [of "plaintext_read_buf c"] empty_reader(1) [of "maybe_compact 4096 (plaintext_read_buf c)"]
      by (auto simp: unproved_def conn_read_def try_with_def)
  next
    case (WriteTls wr)
    then show ?thesis using inv s hs
      by (auto simp: unproved_def write_tls_def drain_to_def split: sum.splits)
  qed (use inv s hs in \<open>auto simp: unproved_def conn_write_def send_close_notify_def\<close>)
qed

interpretation conn: invariant_machine "conn_step dbg P" "\<lambda>s. server_proved P k ch \<or> unproved P k ch hello s" for dbg P k ch hello
  using conn_step_unproved by unfold_locales blast

section \<open>Only a server that knows its key gets further than the ClientHello\<close>

definition hello_record :: "bytes \<Rightarrow> bytes" where
  "hello_record client_hello = write_record_header 0x16 (of_nat (length client_hello)) @ client_hello"

lemma reality_new_fresh:
  assumes "reality_new P priv rnd clock g1 g2 cfg = Inr c0"
  obtains ch k where "build_client_hello P cfg priv rnd clock = Inr (ch, k)"
    and "c0 = \<lparr>config = cfg, handshake_state = AwaitingServerHello ch priv k,
         app_read_key = None, app_read_iv = None, app_write_key = None, app_write_iv = None,
         read_seq = 0, write_seq = 0, conn_suite = None,
         ciphertext_read_buf = slide_new g1, ciphertext_write_buf = hello_record ch,
         plaintext_read_buf = slide_new g2, plaintext_write_buf = [],
         received_close_notify = False, fatal_error = None\<rparr>"
  using assms
  by (auto simp: reality_new_def generate_client_hello_def try_with_def hello_record_def Let_def split: sum.splits prod.splits)

lemma build_client_hello_key:
  assumes "build_client_hello P cfg priv rnd clock = Inr (ch, k)"
  shows "\<exists>secret. tp_agree P priv (cfg_public_key cfg) = Some secret \<and> k = tp_hkdf P (take 20 rnd) secret (str_bytes ''REALITY'')"
  using assms
  by (auto simp: build_client_hello_def perform_ecdh_def derive_auth_key_def slice_def Let_def split: if_splits)


text \<open>Primitives that meet the laws, with no secrecy at all.\<close>

definition sample_tls :: tls_prims where
  "sample_tls = \<lparr>tp_digest = (\<lambda>h d. replicate (output_len h) (of_nat (length d))),
     tp_hmac = (\<lambda>h k d. replicate (output_len h) (sum_list k + sum_list d)),
     tp_seal = (\<lambda>a k n aad pt. Some (pt @ replicate 16 0)),
     tp_open = (\<lambda>a k n aad ct. if length ct < 16 then None else Some (take (length ct - 16) ct)),
     tp_public = (\<lambda>priv. Some priv),
     tp_agree = (\<lambda>priv pub. Some (map2 (+) priv pub)),
     tp_hkdf = (\<lambda>salt ikm info. replicate 32 (sum_list salt + sum_list ikm)),
     tp_verify = (\<lambda>pk d s. s = replicate 64 (sum_list pk)),
     tp_x509 = (\<lambda>cert. if length cert = 96 then Some (take 32 cert, drop 32 cert) else None)\<rparr>"

definition sample_cfg :: reality_config where
  "sample_cfg = \<lparr>cfg_public_key = replicate 32 5, cfg_short_id = replicate 8 0, cfg_server_name = ''a.example'',
     cfg_cipher_suites = []\<rparr>"

lemma sample_tls_laws: "aead_law sample_tls" "open_law sample_tls"
  by (auto simp: aead_law_def open_law_def sample_tls_def split: if_splits)

lemma sample_new: "is_ok (reality_new sample_tls (replicate 32 1) (replicate 32 2) (Some 0) [] [] sample_cfg)"
  by code_simp


end
