(* ===== verification/RealityHello.thy ===== *)
theory RealityHello
  imports RealityAuth
begin

text \<open>
  The ClientHello of a REALITY client seen by the server: the extractors of \<open>reality_util.rs\<close> read back
  what \<open>construct_client_hello\<close> wrote, and a server with the private key of the configured public key
  derives the client's authentication key and opens the session identifier. The server is the reference
  that the client is written for; it is put together from the functions of the repository.
\<close>

section \<open>Extensions\<close>

lemma be16_small: "be16 (of_nat n) = [of_nat (n div 256), of_nat (n mod 256)]" if "n < 65536"
  using record_header_length [OF that] by (simp add: make_record_header_def)

lemma ext_list:
  "server_name_ext name = ext_bytes (0, len16 (length (str_bytes name) + 3) @ [0] @ len16 (length (str_bytes name)) @ str_bytes name)"
  "supported_versions_ext = ext_bytes (43, [2, 3, 4])"
  "supported_groups_ext = ext_bytes (10, [0, 2, 0, 0x1d])"
  "key_share_ext pub = ext_bytes (51, len16 (4 + length pub) @ [0, 0x1d] @ len16 (length pub) @ pub)"
  "signature_algorithms_ext = ext_bytes (13, [0, 0x10, 4, 3, 8, 4, 4, 1, 5, 3, 8, 5, 5, 1, 8, 6, 6, 1])"
  by (simp_all add: server_name_ext_def supported_versions_ext_def supported_groups_ext_def key_share_ext_def
      signature_algorithms_ext_def ext_bytes_def Let_def be16_pair)

lemma at_pos [simp]: "br_pos (at p r) = length p"
  by (simp add: at_def)

lemma ext_header_at: "length (snd x) < 65536 \<Longrightarrow> ext_header (at p (ext_bytes x @ r)) =
    Inr (fst x, length (snd x), at (p @ be16 (fst x) @ len16 (length (snd x))) (snd x @ r))"
  by (simp add: ext_header_def ext_bytes_def unat_of_nat_u16)

lemma key_share_skip:
  assumes "fst x \<noteq> 51" and "length (snd x) < 65536" and "length p < e"
  shows "key_share_loop parse e (at p (ext_bytes x @ r)) = key_share_loop parse e (at (p @ ext_bytes x) r)"
  using assms by (subst key_share_loop.simps) (simp add: ext_header_at, simp add: ext_bytes_def)

lemma key_share_found:
  assumes "length d < 65536" and "length p < e"
  shows "key_share_loop parse e (at p (ext_bytes (51, d) @ r)) = parse d"
  using assms by (subst key_share_loop.simps) (simp add: ext_header_at)

lemma length_ext_bytes [simp]: "length (ext_bytes x) = 4 + length (snd x)"
  by (simp add: ext_bytes_def)

lemma key_share_among:
  assumes "\<forall>x \<in> set xs. fst x \<noteq> 51 \<and> length (snd x) < 65536" and "length d < 65536"
    and "length p + length (concat (map ext_bytes xs)) < e"
  shows "key_share_loop parse e (at p (concat (map ext_bytes xs) @ ext_bytes (51, d) @ r)) = parse d"
  using assms(1,3)
proof (induction xs arbitrary: p)
  case Nil
  then show ?case using key_share_found [OF assms(2)] by simp
next
  case (Cons x xs)
  then show ?case using key_share_skip [of x p e parse] by simp
qed

lemma two_bytes_be16: "[0, 0x1d] = be16 0x1d" "[0, 0x33] = be16 0x33" "[0, 0x2b] = be16 0x2b"
  by (simp_all add: be16_pair)

lemma parse_keyshare_share:
  assumes "length pub = 32"
  shows "parse_keyshare_extension (len16 (4 + length pub) @ [0, 0x1d] @ len16 (length pub) @ pub) = Inr pub"
proof -
  let ?d = "len16 (4 + length pub) @ be16 0x1d @ len16 (length pub) @ pub"
  have e: "share_entry ?d (at (len16 36) (be16 0x1d @ len16 32 @ pub)) = Inr (Some pub, at (len16 36 @ be16 0x1d @ len16 32 @ pub) [])"
    using assms by (simp add: share_entry_def unat_of_nat_u16)
  have "parse_keyshare_extension ?d = shares_loop ?d (at (len16 36) (be16 0x1d @ len16 32 @ pub))"
    using assms by (simp add: parse_keyshare_extension_def at_new)
  also have "\<dots> = Inr pub" using e assms by (subst shares_loop.simps) simp
  finally show ?thesis by (simp add: two_bytes_be16(1))
qed

lemma parse_server_share:
  assumes "length pub = 32"
  shows "parse_server_keyshare_extension ([0, 0x1d] @ len16 (length pub) @ pub) = Inr pub"
  using assms by (simp add: parse_server_keyshare_extension_def at_new two_bytes_be16(1) unat_of_nat_u16)

section \<open>The layout of a ClientHello\<close>

definition hello_tail :: "bytes \<Rightarrow> string \<Rightarrow> u16 list \<Rightarrow> string list \<Rightarrow> bytes" where
  "hello_tail pub name suites alpn =
     (let exts = server_name_ext name @ supported_versions_ext @ supported_groups_ext @ key_share_ext pub
                 @ signature_algorithms_ext @ alpn_ext alpn
      in len16 (length suites * 2) @ concat (map be16 suites) @ [1, 0] @ len16 (length exts) @ exts)"

lemma construct_client_hello_layout:
  "construct_client_hello rnd sid pub name suites alpn =
     [1] @ be24 (3 + length rnd + length sid + length (hello_tail pub name suites alpn)) @ [3, 3] @ rnd @ [32] @ sid
     @ hello_tail pub name suites alpn"
  by (simp add: construct_client_hello_def hello_tail_def Let_def add.assoc)

lemma set_session_id_hello:
  assumes "length rnd = 32" and "length sid = 32" and "length sid' = 32"
  shows "set_session_id (construct_client_hello rnd sid pub name suites alpn) sid' =
    Inr (construct_client_hello rnd sid' pub name suites alpn)"
  using assms by (simp add: set_session_id_def construct_client_hello_layout)

lemma hello_start_at:
  assumes "length hdr = 5" and "length rnd = 32" and "length sid = 32"
  shows "hello_start (hdr @ [1] @ be_bytes 3 w @ [3, 3] @ rnd @ [32] @ sid @ r) =
    Inr (at ([1] @ be_bytes 3 w @ [3, 3] @ rnd @ [32] @ sid) r)"
proof -
  have r24: "br_read_u24_be (at p (be_bytes 3 w @ r)) = Inr (from_be (0 # be_bytes 3 w), at (p @ be_bytes 3 w) r)" for p r
    by (simp add: at_def br_read_u24_be_def numeral_3_eq_3 index_def nth_append)
  have v: "br_read_u16_be (at p (3 # 3 # r)) = Inr (0x303, at (p @ [3, 3]) r)" for p r
  proof -
    have "be16 0x303 = [3, 3]" by code_simp
    then show ?thesis using at_reads(2) [of p "0x303" r] by simp
  qed
  show ?thesis using assms by (simp add: hello_start_def at_new r24 v del: append_Cons append_Nil)
      (simp add: r24 v)
qed

section \<open>What the server reads\<close>

text \<open>A hello of a length that fits its fields: at most 10000 bytes of name, suites within one byte of count.\<close>

definition hello_fits :: "string \<Rightarrow> u16 list \<Rightarrow> bool" where
  "hello_fits name suites \<longleftrightarrow> length name < 10000 \<and> length suites < 256"

lemma length_exts: "length (supported_versions_ext) = 7" "length supported_groups_ext = 8" "length signature_algorithms_ext = 22"
  "length (alpn_ext DEFAULT_ALPN_PROTOCOLS) = 18"
  by (simp_all add: supported_versions_ext_def supported_groups_ext_def signature_algorithms_ext_def alpn_ext_def
      DEFAULT_ALPN_PROTOCOLS_def)

lemma extract_client_hello:
  assumes "length rnd = 32" and "length sid = 32" and "length pub = 32" and "hello_fits name suites"
    and "length hdr = 5"
    and "hello = hdr @ construct_client_hello rnd sid pub name suites DEFAULT_ALPN_PROTOCOLS"
  shows "extract_client_random hello = Inr rnd" and "extract_session_id_slice hello = Inr sid"
    and "extract_client_public_key hello = Inr pub" and "extract_client_cipher_suites hello = Inr suites"
proof -
  let ?exts = "server_name_ext name @ supported_versions_ext @ supported_groups_ext @ key_share_ext pub
                 @ signature_algorithms_ext @ alpn_ext DEFAULT_ALPN_PROTOCOLS"
  let ?tail = "hello_tail pub name suites DEFAULT_ALPN_PROTOCOLS"
  let ?w = "of_nat (67 + length ?tail) :: u32"
  have layout: "hello = hdr @ [1] @ be_bytes 3 ?w @ [3, 3] @ rnd @ [32] @ sid @ ?tail"
    using assms by (simp add: construct_client_hello_layout)
  show "extract_client_random hello = Inr rnd" using assms(1,5) layout by (simp add: extract_client_random_def)
  show "extract_session_id_slice hello = Inr sid"
    using assms(1,2,5) layout by (simp add: extract_session_id_slice_def index_def nth_append)
  let ?p = "[1] @ be_bytes 3 ?w @ [3, 3] @ rnd @ [32] @ sid"
  have start: "hello_start hello = Inr (at ?p ?tail)"
    unfolding layout by (rule hello_start_at) (use assms in auto)
  have tail: "?tail = len16 (length suites * 2) @ concat (map be16 suites) @ [1, 0] @ len16 (length ?exts) @ ?exts"
    by (simp add: hello_tail_def Let_def)
  have suites: "length (concat (map be16 suites)) = length suites * 2" by (induction suites) auto
  have small: "length suites * 2 < 65536" "unat (of_nat (length suites * 2) :: u16) = length suites * 2"
    using assms(4) unat_of_nat_u16 [of "length suites * 2"] by (simp_all add: hello_fits_def)
  have pairs: "u16_pairs (concat (map be16 suites)) = Inr suites"
    by (induction suites) (simp_all add: be16_pair)
  show "extract_client_cipher_suites hello = Inr suites"
    using start small suites pairs unfolding tail by (simp add: extract_client_cipher_suites_def)
  have elen: "length ?exts < 65536" using assms(3,4)
    by (simp add: length_exts server_name_ext_def key_share_ext_def Let_def hello_fits_def)
  let ?q = "?p @ len16 (length suites * 2) @ concat (map be16 suites) @ [1, 0] @ len16 (length ?exts)"
  have "extract_client_public_key hello =
      key_share_loop parse_keyshare_extension (length ?q + length ?exts) (at ?q ?exts)"
    using start small suites elen unat_of_nat_u16 [OF elen] unfolding tail
    by (simp add: extract_client_public_key_def del: append_assoc) simp
  also have "\<dots> = parse_keyshare_extension (len16 (4 + length pub) @ [0, 0x1d] @ len16 (length pub) @ pub)"
  proof -
    let ?xs = "[(0, len16 (length (str_bytes name) + 3) @ [0] @ len16 (length (str_bytes name)) @ str_bytes name),
      (43, [2, 3, 4]), (10, [0, 2, 0, 0x1d])] :: (u16 \<times> bytes) list"
    let ?d = "len16 (4 + length pub) @ [0, 0x1d] @ len16 (length pub) @ pub"
    have "?exts = concat (map ext_bytes ?xs) @ ext_bytes (51, ?d) @ signature_algorithms_ext @ alpn_ext DEFAULT_ALPN_PROTOCOLS"
      by (simp only: ext_list(1-4) list.map concat.simps append_Nil2 append_assoc)
    moreover have "\<forall>x \<in> set ?xs. fst x \<noteq> 51 \<and> length (snd x) < 65536" using assms(4) by (simp add: hello_fits_def)
    moreover have "length ?d < 65536" using assms(3) by simp
    ultimately show ?thesis by (simp only:) (rule key_share_among; simp)
  qed
  also have "\<dots> = Inr pub" by (rule parse_keyshare_share [OF assms(3)])
  finally show "extract_client_public_key hello = Inr pub" .
qed

section \<open>The server opens the session identifier\<close>

text \<open>Key agreement: both sides compute the same secret of 32 bytes. HKDF gives 32 bytes.\<close>

definition kex_law :: "tls_prims \<Rightarrow> bool" where
  "kex_law P \<longleftrightarrow>
     (\<forall>a. length a = 32 \<longrightarrow> (\<exists>A. tp_public P a = Some A \<and> length A = 32))
     \<and> (\<forall>a b A B. length a = 32 \<and> length b = 32 \<and> tp_public P a = Some A \<and> tp_public P b = Some B \<longrightarrow>
          (\<exists>s. tp_agree P a B = Some s \<and> tp_agree P b A = Some s \<and> length s = 32))
     \<and> (\<forall>salt ikm info. length (tp_hkdf P salt ikm info) = 32)"

text \<open>
  What a REALITY server does with a ClientHello record, from the functions of \<open>reality_util.rs\<close> and
  \<open>reality_auth.rs\<close>: the authentication key and the session identifier in the clear.
\<close>

definition reference_open :: "tls_prims \<Rightarrow> bytes \<Rightarrow> bytes \<Rightarrow> io_error + bytes \<times> bytes" where
  "reference_open P static_private hello =
     rbind (extract_client_random hello) (\<lambda>rnd.
     rbind (extract_client_public_key hello) (\<lambda>pub.
     rbind (extract_session_id_slice hello) (\<lambda>sid.
     rbind (crypto_io (perform_ecdh P static_private pub)) (\<lambda>secret.
     rbind (crypto_io (derive_auth_key P secret (take 20 rnd) (str_bytes ''REALITY''))) (\<lambda>auth_key.
     rbind (set_session_id (drop 5 hello) (replicate 32 0)) (\<lambda>aad.
     rbind (crypto_io (decrypt_session_id P sid auth_key (drop 20 rnd) aad)) (\<lambda>plaintext.
     Inr (auth_key, plaintext))))))))"

text \<open>The client's side in the same terms.\<close>

lemma build_client_hello_ok:
  assumes "aead_law P" and "kex_law P" and "length priv = 32" and "length static_private = 32"
    and "tp_public P static_private = Some (cfg_public_key cfg)" and "length rnd = 32" and "length (cfg_short_id cfg) = 8"
  obtains secret pub sid where "build_client_hello P cfg priv rnd (Some now) =
      Inr (construct_client_hello rnd sid pub (cfg_server_name cfg)
             (map suite_id (if cfg_cipher_suites cfg = [] then DEFAULT_CIPHER_SUITES else cfg_cipher_suites cfg)) DEFAULT_ALPN_PROTOCOLS,
           tp_hkdf P (take 20 rnd) secret (str_bytes ''REALITY''))"
    and "tp_public P priv = Some pub" and "length pub = 32" and "length sid = 32"
    and "tp_agree P static_private pub = Some secret" and "tp_agree P priv (cfg_public_key cfg) = Some secret"
    and "tp_open P AES_256_GCM (tp_hkdf P (take 20 rnd) secret (str_bytes ''REALITY'')) (drop 20 rnd)
      (construct_client_hello rnd (replicate 32 0) pub (cfg_server_name cfg)
         (map suite_id (if cfg_cipher_suites cfg = [] then DEFAULT_CIPHER_SUITES else cfg_cipher_suites cfg)) DEFAULT_ALPN_PROTOCOLS) sid
      = Some (session_id_plaintext now (cfg_short_id cfg))"
proof -
  obtain pub where pub: "tp_public P priv = Some pub" "length pub = 32" using assms(2,3) by (auto simp: kex_law_def)
  then obtain secret where secret: "tp_agree P priv (cfg_public_key cfg) = Some secret" "tp_agree P static_private pub = Some secret"
    using assms(2-5) unfolding kex_law_def by metis
  let ?k = "tp_hkdf P (take 20 rnd) secret (str_bytes ''REALITY'')"
  let ?suites = "map suite_id (if cfg_cipher_suites cfg = [] then DEFAULT_CIPHER_SUITES else cfg_cipher_suites cfg)"
  let ?hello = "\<lambda>sid. construct_client_hello rnd sid pub (cfg_server_name cfg) ?suites DEFAULT_ALPN_PROTOCOLS"
  let ?pt = "session_id_plaintext now (cfg_short_id cfg)"
  have k: "length ?k = aead_key_len AES_256_GCM" using assms(2) by (simp add: kex_law_def)
  have pt: "length ?pt = 16" using assms(7) by (simp add: session_id_plaintext_def)
  have n: "length (drop 20 rnd) = 12" "length ?pt < 2 ^ 36 - 31" using assms(6) pt by simp_all
  from aead_lawD [OF assms(1) k n, of "?hello (replicate 32 0)"]
  obtain sid where sid: "tp_seal P AES_256_GCM ?k (drop 20 rnd) (?hello (replicate 32 0)) ?pt = Some sid" "length sid = length ?pt + 16"
    "tp_open P AES_256_GCM ?k (drop 20 rnd) (?hello (replicate 32 0)) sid = Some ?pt" .
  show thesis
  proof (rule that [of sid pub secret])
    show "build_client_hello P cfg priv rnd (Some now) = Inr (?hello sid, ?k)"
      using pub secret sid pt assms(6)
      by (simp add: build_client_hello_def perform_ecdh_def derive_auth_key_def crypto_io_def encrypt_session_id_def
          set_session_id_hello Let_def)
  qed (use pub secret sid pt in auto)
qed

lemma length_write_record_header [simp]: "length (write_record_header t n) = 5"
  by (simp add: write_record_header_def)

text \<open>A connection as \<open>reality_new\<close> leaves it, with the ClientHello \<open>ch\<close>.\<close>

definition fresh_conn :: "reality_config \<Rightarrow> bytes \<Rightarrow> bytes \<Rightarrow> bytes \<Rightarrow> bytes \<Rightarrow> bytes \<Rightarrow> reality_conn" where
  "fresh_conn cfg g1 g2 ch priv auth_key =
     \<lparr>config = cfg, handshake_state = AwaitingServerHello ch priv auth_key, app_read_key = None, app_read_iv = None,
      app_write_key = None, app_write_iv = None, read_seq = 0, write_seq = 0, conn_suite = None,
      ciphertext_read_buf = slide_new g1, ciphertext_write_buf = hello_record ch, plaintext_read_buf = slide_new g2,
      plaintext_write_buf = [], received_close_notify = False, fatal_error = None\<rparr>"

text \<open>Both ends of a new connection.\<close>

lemma reality_new_ok:
  assumes "aead_law P" and "kex_law P" and "length priv = 32" and "length static_private = 32"
    and "tp_public P static_private = Some (cfg_public_key cfg)" and "length rnd = 32" and "length (cfg_short_id cfg) = 8"
    and "length (cfg_server_name cfg) < 10000" and "length (cfg_cipher_suites cfg) < 256"
  obtains ch auth_key pub sid where "reality_new P priv rnd (Some now) g1 g2 cfg = Inr (fresh_conn cfg g1 g2 ch priv auth_key)"
    and "reference_open P static_private (hello_record ch) = Inr (auth_key, [1, 8, 0, 0] @ be32 (ucast now) @ cfg_short_id cfg)"
    and "tp_public P priv = Some pub" and "extract_client_public_key (hello_record ch) = Inr pub"
    and "extract_session_id_slice (hello_record ch) = Inr sid" and "length sid = 32"
proof -
  let ?suites = "map suite_id (if cfg_cipher_suites cfg = [] then DEFAULT_CIPHER_SUITES else cfg_cipher_suites cfg)"
  obtain secret pub sid where b: "build_client_hello P cfg priv rnd (Some now) =
      Inr (construct_client_hello rnd sid pub (cfg_server_name cfg) ?suites DEFAULT_ALPN_PROTOCOLS,
           tp_hkdf P (take 20 rnd) secret (str_bytes ''REALITY''))"
    and len: "length pub = 32" "length sid = 32" and sec: "tp_public P priv = Some pub" "tp_agree P static_private pub = Some secret"
    and op: "tp_open P AES_256_GCM (tp_hkdf P (take 20 rnd) secret (str_bytes ''REALITY'')) (drop 20 rnd)
      (construct_client_hello rnd (replicate 32 0) pub (cfg_server_name cfg) ?suites DEFAULT_ALPN_PROTOCOLS) sid
      = Some (session_id_plaintext now (cfg_short_id cfg))"
    using build_client_hello_ok [OF assms(1-7), of now] by blast
  let ?ch = "construct_client_hello rnd sid pub (cfg_server_name cfg) ?suites DEFAULT_ALPN_PROTOCOLS"
  let ?k = "tp_hkdf P (take 20 rnd) secret (str_bytes ''REALITY'')"
  have fits: "hello_fits (cfg_server_name cfg) ?suites"
    using assms(8,9) by (simp add: hello_fits_def DEFAULT_CIPHER_SUITES_def)
  note ex = extract_client_hello [OF assms(6) len(2,1) fits length_write_record_header [of "0x16" "of_nat (length ?ch)"] refl,
      folded hello_record_def]
  have "reference_open P static_private (hello_record ?ch) = Inr (?k, session_id_plaintext now (cfg_short_id cfg))"
    using ex sec(2) op assms(5,6,7) len
    by (simp add: reference_open_def perform_ecdh_def derive_auth_key_def crypto_io_def decrypt_session_id_def
        hello_record_def set_session_id_hello session_id_plaintext_def)
  moreover have "reality_new P priv rnd (Some now) g1 g2 cfg = Inr (fresh_conn cfg g1 g2 ?ch priv ?k)"
    using b by (simp add: reality_new_def generate_client_hello_def try_with_def hello_record_def fresh_conn_def Let_def)
  ultimately show thesis using that ex sec(1) len(2) by (simp add: session_id_plaintext_def)
qed

text \<open>
  C16. A new REALITY connection always has a ClientHello ready to send, and the server that owns the configured key
  reads it as intended: it derives the authentication key the client keeps, and opens the session identifier, which holds
  the version, the client's time and the configured short identifier.
\<close>

theorem reality_hello_authenticates:
  assumes "aead_law P" and "kex_law P" and "length priv = 32" and "length static_private = 32"
    and "tp_public P static_private = Some (cfg_public_key cfg)" and "length rnd = 32" and "length (cfg_short_id cfg) = 8"
    and "length (cfg_server_name cfg) < 10000" and "length (cfg_cipher_suites cfg) < 256"
  shows "\<exists>c0 ch auth_key. reality_new P priv rnd (Some now) g1 g2 cfg = Inr c0
    \<and> ciphertext_write_buf c0 = hello_record ch \<and> handshake_state c0 = AwaitingServerHello ch priv auth_key
    \<and> reference_open P static_private (hello_record ch) = Inr (auth_key, [1, 8, 0, 0] @ be32 (ucast now) @ cfg_short_id cfg)"
  by (rule reality_new_ok [OF assms, of now g1 g2]) (simp add: fresh_conn_def)

lemma sample_kex: "kex_law sample_tls"
proof -
  have "map2 (+) a b = map2 (+) b a" for a b :: bytes
  proof (induction a arbitrary: b)
    case (Cons x a)
    then show ?case by (cases b) (simp_all add: add.commute)
  qed simp
  then show ?thesis by (auto simp: kex_law_def sample_tls_def)
qed

theorem reality_hello_authenticates_witness:
  "\<exists>c0 ch auth_key. reality_new sample_tls (replicate 32 1) (replicate 32 2) (Some 1700000000) [] [] sample_cfg = Inr c0
    \<and> ciphertext_write_buf c0 = hello_record ch \<and> handshake_state c0 = AwaitingServerHello ch (replicate 32 1) auth_key
    \<and> reference_open sample_tls (replicate 32 5) (hello_record ch) = Inr (auth_key, [1, 8, 0, 0] @ be32 (ucast (1700000000 :: u64)) @ replicate 8 0)"
proof -
  have "tp_public sample_tls (replicate 32 5) = Some (cfg_public_key sample_cfg)" "length (cfg_short_id sample_cfg) = 8"
    "length (cfg_server_name sample_cfg) < 10000" "length (cfg_cipher_suites sample_cfg) < 256" "cfg_short_id sample_cfg = replicate 8 0"
    by (simp_all add: sample_tls_def sample_cfg_def)
  then show ?thesis
    using reality_hello_authenticates [OF sample_tls_laws(1) sample_kex, of "replicate 32 1" "replicate 32 5" sample_cfg "replicate 32 2",
        where now = 1700000000 and ?g1.0 = "[]" and ?g2.0 = "[]"]
    by simp
qed

end
