(* ===== verification/RealityStream.thy ===== *)
theory RealityStream
  imports RealityAuth PollIo
begin

text \<open>
  \<open>reality_transport.rs\<close>: the handshake over an asynchronous transport, and the stream of application data
  over an established connection. The stream is a \<open>fstream\<close> whose protocol state is the connection; the
  connection keeps its own read buffers, so \<open>rtmp\<close> and \<open>plain\<close> stay empty. The bytes a REALITY server seals
  come out of \<open>poll_read\<close>, whatever the cut of the transport and the room of the reads, and the bytes
  written come out as records of the writer's key.
\<close>

section \<open>The handshake\<close>

record reality_transport =
  tr_public_key :: string
  tr_short_id :: string
  tr_server_name :: string

text \<open>\<open>write_all\<close>: the transport is asked until it has taken everything.\<close>

function write_all :: "bytes \<Rightarrow> transport \<Rightarrow> (io_error + unit) poll \<times> transport" where
  "write_all buf t =
     (if buf = [] then (PollReady (Inr ()), t)
      else case inner_write buf t of
          (PollReady (Inr n), t) \<Rightarrow>
            if n = 0 then (PollReady (Inl (IoOther ''WriteZero'')), t) else write_all (drop n buf) t
        | (PollReady (Inl e), t) \<Rightarrow> (PollReady (Inl e), t)
        | (PollPending, t) \<Rightarrow> (PollPending, t))"
  by pat_completeness auto

termination
  by (relation "measure (\<lambda>(buf, t). length buf)") auto

declare write_all.simps [simp del]

lemma encrypt_app_data_cleared: "encrypt_app_data dbg P k iv s pt = (pt', s', Inr x) \<Longrightarrow> pt' = []"
  by (auto simp: encrypt_app_data_def split: if_splits prod.splits sum.splits)

text \<open>A \<open>Vec\<close> takes everything that is written to it.\<close>

abbreviation vec_writer :: "bytes \<Rightarrow> io_error + nat" where
  "vec_writer \<equiv> \<lambda>b. Inr (length b)"

lemma write_tls_vec:
  assumes "write_tls dbg P vec_writer c = (w, c', Inr n)"
  shows "n = length w \<and> ciphertext_write_buf c' = []
    \<and> plaintext_write_buf c' = (if is_handshaking c then plaintext_write_buf c else [])
    \<and> handshake_state c' = handshake_state c \<and> (is_handshaking c \<longrightarrow> w = ciphertext_write_buf c)"
  using assms encrypt_app_data_cleared
  by (auto simp: write_tls_def drain_to_def seal_pending_def is_handshaking_def split: sum.splits if_splits option.splits prod.splits)

text \<open>The inner loop of the handshake: everything the connection wants to write goes out.\<close>

function send_pending :: "bool \<Rightarrow> tls_prims \<Rightarrow> reality_conn \<Rightarrow> transport \<Rightarrow> (io_error + unit) poll \<times> reality_conn \<times> transport" where
  "send_pending dbg P c t =
     (if \<not> wants_write c then (PollReady (Inr ()), c, t)
      else case write_tls dbg P vec_writer c of
          (_, c, Inl e) \<Rightarrow> (PollReady (Inl e), c, t)
        | (w, c, Inr _) \<Rightarrow>
            if w = [] then (PollReady (Inr ()), c, t)
            else case write_all w t of
                (PollReady (Inr _), t) \<Rightarrow> send_pending dbg P c t
              | (r, t) \<Rightarrow> (r, c, t))"
  by pat_completeness auto

termination
  by (relation "measure (\<lambda>(dbg, P, c, t). length (ciphertext_write_buf c) + length (plaintext_write_buf c))")
    (auto simp: wants_write_def dest!: sym [THEN write_tls_vec] split: if_splits)

declare send_pending.simps [simp del]

lemma write_all_arrived: "write_all buf t = (r, t') \<Longrightarrow> arrived t' = arrived t"
proof (induction buf t arbitrary: r t' rule: write_all.induct)
  case (1 buf t)
  obtain w u where i: "inner_write buf t = (w, u)" by fastforce
  show ?case
  proof (cases "buf \<noteq> [] \<and> (\<exists>n. w = PollReady (Inr n) \<and> n \<noteq> 0)")
    case True
    then obtain n where n: "buf \<noteq> []" "w = PollReady (Inr n)" "n \<noteq> 0" by blast
    then have "write_all (drop n buf) u = (r, t')" using "1.prems" i by (subst (asm) write_all.simps) simp
    from "1.IH" [OF n(1) i [symmetric] n(2) refl n(3) this] show ?thesis using inner_write_sent(2) [OF i] by simp
  next
    case False
    then show ?thesis using "1.prems" i inner_write_sent(2) [OF i]
      by (subst (asm) write_all.simps) (auto split: if_splits poll.splits sum.splits)
  qed
qed

lemma send_pending_arrived: "send_pending dbg P c t = (r, c', t') \<Longrightarrow> arrived t' = arrived t"
proof (induction dbg P c t arbitrary: r c' t' rule: send_pending.induct)
  case (1 dbg P c t)
  obtain w d q where s: "write_tls dbg P vec_writer c = (w, d, q)" by (metis prod_cases3)
  obtain x u where a: "write_all w t = (x, u)" by fastforce
  show ?case
  proof (cases "wants_write c \<and> w \<noteq> [] \<and> (\<exists>n. q = Inr n) \<and> x = PollReady (Inr ())")
    case True
    then obtain n where n: "wants_write c" "w \<noteq> []" "q = Inr n" "x = PollReady (Inr ())" by blast
    then have "send_pending dbg P d u = (r, c', t')" using "1.prems" s a by (subst (asm) send_pending.simps) simp
    then show ?thesis using "1.IH" n s a write_all_arrived [OF a] by force
  next
    case False
    then show ?thesis using "1.prems" s a write_all_arrived [OF a]
      by (subst (asm) send_pending.simps) (auto split: if_splits poll.splits sum.splits)
  qed
qed

text \<open>
  The handshake waits for the transport: it is pending when the transport has nothing for it yet. The
  connection and the transport are part of the result.
\<close>

function handshake_loop ::
  "bool \<Rightarrow> tls_prims \<Rightarrow> reality_conn \<Rightarrow> transport \<Rightarrow> (io_error + unit) poll \<times> reality_conn \<times> transport" where
  "handshake_loop dbg P c t =
     (case send_pending dbg P c t of
        (PollReady (Inr _), c1, t1) \<Rightarrow>
          if \<not> is_handshaking c1 then (PollReady (Inr ()), c1, t1)
          else (case inner_read 16384 t1 of
              (PollReady (Inr got), t2) \<Rightarrow>
                if got = [] then (PollReady (Inl UnexpectedEof), c1, t2)
                else (case feed_reality_client_connection dbg c1 got of
                    (c2, Inl e) \<Rightarrow> (PollReady (Inl e), c2, t2)
                  | (c2, Inr _) \<Rightarrow>
                      (case process_new_packets dbg P c2 of
                         (c3, Inl e) \<Rightarrow> (PollReady (Inl e), c3, t2)
                       | (c3, Inr _) \<Rightarrow> handshake_loop dbg P c3 t2))
            | (PollReady (Inl e), t2) \<Rightarrow> (PollReady (Inl e), c1, t2)
            | (PollPending, t2) \<Rightarrow> (PollPending, c1, t2))
      | (r, c1, t1) \<Rightarrow> (r, c1, t1))"
  by pat_completeness auto

termination
  by (relation "measure (\<lambda>(dbg, P, c, t). length (concat (arrived t)))")
    (auto dest!: sym [THEN send_pending_arrived] sym [THEN inner_read_bytes])

declare handshake_loop.simps [simp del]

definition reality_handshake ::
  "bool \<Rightarrow> tls_prims \<Rightarrow> (string \<Rightarrow> bytes option) \<Rightarrow> bytes \<Rightarrow> bytes \<Rightarrow> u64 option \<Rightarrow> bytes \<Rightarrow> bytes \<Rightarrow> transport
   \<Rightarrow> reality_transport \<Rightarrow> (io_error + transport \<times> reality_conn) poll" where
  "reality_handshake dbg P b64 our_private client_random clock garbage1 garbage2 t tr =
     (case rbind (decode_public_key b64 (tr_public_key tr)) (\<lambda>public_key.
           rbind (decode_short_id (tr_short_id tr)) (\<lambda>short_id.
           reality_new P our_private client_random clock garbage1 garbage2
             \<lparr>cfg_public_key = public_key, cfg_short_id = short_id, cfg_server_name = tr_server_name tr,
              cfg_cipher_suites = []\<rparr>)) of
        Inl e \<Rightarrow> PollReady (Inl e)
      | Inr c \<Rightarrow>
          (case handshake_loop dbg P c t of
             (PollReady (Inr _), c, t) \<Rightarrow> PollReady (Inr (t, c))
           | (PollReady (Inl e), _, _) \<Rightarrow> PollReady (Inl e)
           | (PollPending, _, _) \<Rightarrow> PollPending))"

section \<open>The stream\<close>

type_synonym reality_stream = "reality_conn fstream"

definition reality_stream_new :: "transport \<Rightarrow> reality_conn \<Rightarrow> reality_stream" where
  "reality_stream_new t c = fstream_new t [] c"

definition reality_connect ::
  "bool \<Rightarrow> tls_prims \<Rightarrow> (string \<Rightarrow> bytes option) \<Rightarrow> bytes \<Rightarrow> bytes \<Rightarrow> u64 option \<Rightarrow> bytes \<Rightarrow> bytes \<Rightarrow> transport
   \<Rightarrow> reality_transport \<Rightarrow> (io_error + reality_stream) poll" where
  "reality_connect dbg P b64 our_private client_random clock garbage1 garbage2 t tr =
     (case reality_handshake dbg P b64 our_private client_random clock garbage1 garbage2 t tr of
        PollReady (Inr (t, c)) \<Rightarrow> PollReady (Inr (reality_stream_new t c))
      | PollReady (Inl e) \<Rightarrow> PollReady (Inl e)
      | PollPending \<Rightarrow> PollPending)"

definition reality_into_inner :: "bool \<Rightarrow> reality_stream \<Rightarrow> io_error + transport \<times> reality_conn" where
  "reality_into_inner dbg s = rbind (debug_assert dbg (wpos s \<ge> length (wbuf s))) (\<lambda>_. Inr (inner s, prot s))"

text \<open>\<open>drain_tls\<close>: the records the connection wants to write, for the queue.\<close>

function drain_tls :: "bool \<Rightarrow> tls_prims \<Rightarrow> reality_conn \<Rightarrow> reality_conn \<times> bytes \<times> (io_error + unit)" where
  "drain_tls dbg P c =
     (if \<not> wants_write c then (c, [], Inr ())
      else case write_tls dbg P vec_writer c of
          (w, c, Inl e) \<Rightarrow> (c, w, Inl e)
        | (w, c, Inr n) \<Rightarrow>
            if n = 0 then (c, w, Inr ())
            else (let (c, w', r) = drain_tls dbg P c in (c, w @ w', r)))"
  by pat_completeness auto

termination
  by (relation "measure (\<lambda>(dbg, P, c). length (ciphertext_write_buf c) + length (plaintext_write_buf c))")
    (auto simp: wants_write_def dest!: sym [THEN write_tls_vec] split: if_splits)

declare drain_tls.simps [simp del]

definition reality_encode :: "bool \<Rightarrow> tls_prims \<Rightarrow> reality_conn \<Rightarrow> bytes \<Rightarrow> reality_conn \<times> bytes \<times> (io_error + nat)" where
  "reality_encode dbg P c buf =
     (case conn_write c buf of
        (c, Inl e) \<Rightarrow> (c, [], Inl e)
      | (c, Inr n) \<Rightarrow> (case drain_tls dbg P c of
            (c, w, Inl e) \<Rightarrow> (c, w, Inl e)
          | (c, w, Inr _) \<Rightarrow> (c, w, Inr n)))"

definition reality_poll_write :: "bool \<Rightarrow> tls_prims \<Rightarrow> bytes \<Rightarrow> reality_stream \<Rightarrow> (io_error + nat) poll \<times> reality_stream" where
  "reality_poll_write dbg P = framed_poll_write (reality_encode dbg P)"

definition reality_poll_flush :: "(io_error + unit) poll \<Rightarrow> reality_stream \<Rightarrow> (io_error + unit) poll \<times> reality_stream" where
  "reality_poll_flush below = framed_poll_flush below"

definition reality_poll_shutdown ::
  "bool \<Rightarrow> tls_prims \<Rightarrow> (io_error + unit) poll \<Rightarrow> reality_stream \<Rightarrow> (io_error + unit) poll \<times> reality_stream" where
  "reality_poll_shutdown dbg P below s =
     (case drain_tls dbg P (send_close_notify dbg P (prot s)) of
        (c, w, Inl e) \<Rightarrow> (PollReady (Inl e), s\<lparr>prot := c, wbuf := wbuf s @ w\<rparr>)
      | (c, w, Inr _) \<Rightarrow> framed_poll_flush below (s\<lparr>prot := c, wbuf := wbuf s @ w\<rparr>))"

function reality_poll_read :: "bool \<Rightarrow> tls_prims \<Rightarrow> nat \<Rightarrow> reality_stream \<Rightarrow> (io_error + bytes) poll \<times> reality_stream" where
  "reality_poll_read dbg P want s =
     (if want = 0 then (PollReady (Inr []), s)
      else case conn_read dbg (prot s) want of
          (c, Inl e) \<Rightarrow> (PollReady (Inl e), s\<lparr>prot := c\<rparr>)
        | (c, Inr out) \<Rightarrow>
            if out \<noteq> [] then (PollReady (Inr out), s\<lparr>prot := c\<rparr>)
            else (case inner_read 16384 (inner s) of
                (PollReady (Inr filled), t) \<Rightarrow>
                  if filled = [] then (PollReady (Inr []), s\<lparr>prot := c, inner := t\<rparr>)
                  else (case feed_reality_client_connection dbg c filled of
                      (c1, Inl e) \<Rightarrow> (PollReady (Inl e), s\<lparr>prot := c1, inner := t\<rparr>)
                    | (c1, Inr _) \<Rightarrow>
                        (case process_new_packets dbg P c1 of
                           (c2, Inl e) \<Rightarrow> (PollReady (Inl e), s\<lparr>prot := c2, inner := t\<rparr>)
                         | (c2, Inr _) \<Rightarrow> reality_poll_read dbg P want (s\<lparr>prot := c2, inner := t\<rparr>)))
              | (PollReady (Inl e), t) \<Rightarrow> (PollReady (Inl e), s\<lparr>prot := c, inner := t\<rparr>)
              | (PollPending, t) \<Rightarrow> (PollPending, s\<lparr>prot := c, inner := t\<rparr>)))"
  by pat_completeness auto

termination
  by (relation "measure (\<lambda>(dbg, P, want, s). length (concat (arrived (inner s))))")
    (auto dest!: sym [THEN inner_read_bytes])

declare reality_poll_read.simps [simp del]

end
