(* ===== verification/RealityData.thy ===== *)
theory RealityData
  imports RealityStream
begin

text \<open>
  Application data through an established REALITY stream, end to end: the records of the writing side
  are read back by the reading side, for every cut of the bytes by the transport, every partial write
  and every room of the reads.
\<close>

section \<open>Reading the records\<close>

lemma record_front:
  assumes "sb_wf (ciphertext_read_buf c)" and "5 \<le> length (sb_bytes (ciphertext_read_buf c))"
    and "sb_bytes (ciphertext_read_buf c) @ w = [t, v1, v2] @ be16 n @ x"
  shows "record_length c = Inr n" and "sb_index (ciphertext_read_buf c) 0 = Inr t"
proof -
  let ?b = "sb_bytes (ciphertext_read_buf c)"
  have "take 5 ?b = take 5 (?b @ w)" using assms(2) by simp
  also have "\<dots> = [t, v1, v2, ucast (drop_bit 8 n), ucast n]" using assms(3) by (simp add: be16_pair)
  finally have "?b ! 0 = t" "?b ! 3 = ucast (drop_bit 8 n)" "?b ! 4 = ucast n"
    using nth_take [of 0 5 ?b] nth_take [of 3 5 ?b] nth_take [of 4 5 ?b] by simp_all
  moreover have "0 < length ?b" using assms(2) by linarith
  ultimately show "record_length c = Inr n" "sb_index (ciphertext_read_buf c) 0 = Inr t"
    using assms(1,2) sb_index_bytes [OF assms(1), of 0] by (simp_all add: record_length_def get_u16_be_bytes)
qed

lemma record_length_front:
  assumes "sb_wf (ciphertext_read_buf c)" and "5 \<le> length (sb_bytes (ciphertext_read_buf c))"
    and "sb_bytes (ciphertext_read_buf c) @ w = make_record_header m @ x" and "m < 65536"
  shows "record_length c = Inr (of_nat m)"
  by (rule record_front(1) [OF assms(1,2), where w = w and t = "0x17" and ?v1.0 = 3 and ?v2.0 = 3 and x = x])
    (use assms(3,4) in \<open>simp add: record_header_length\<close>)

text \<open>The connection is past its handshake and in order; \<open>k\<close> and \<open>iv\<close> are the keys it reads with.\<close>

definition reading_with :: "tls_prims \<Rightarrow> aead_key \<Rightarrow> bytes \<Rightarrow> reality_conn \<Rightarrow> bool" where
  "reading_with P k iv c \<longleftrightarrow> aead_law P \<and> key_ok k iv \<and> handshake_state c = Complete \<and> fatal_error c = None
     \<and> \<not> received_close_notify c \<and> app_read_key c = Some k \<and> app_read_iv c = Some iv
     \<and> sb_wf (ciphertext_read_buf c) \<and> sb_capacity (ciphertext_read_buf c) = 33290
     \<and> sb_wf (plaintext_read_buf c) \<and> sb_capacity (plaintext_read_buf c) = 33290"

definition data_chunks :: "u64 \<Rightarrow> bytes list \<Rightarrow> bool" where
  "data_chunks seq cs \<longleftrightarrow> (\<forall>d \<in> set cs. d \<noteq> [] \<and> length d \<le> 16384) \<and> seq_room seq (length cs)"

text \<open>What the buffer still holds of the records is less than one record.\<close>

lemma on_app_record_data:
  assumes "reading_with P k iv c" and "data_chunks (read_seq c) (d # ds)"
    and "sb_bytes (ciphertext_read_buf c) = wire_record P k iv (read_seq c) (d @ [0x17]) @ rest"
    and "sb_start (plaintext_read_buf c) = 0"
    and "length (sb_bytes (plaintext_read_buf c)) + length d \<le> 33290"
  obtains b p where "on_app_record dbg P k iv c =
      (c\<lparr>read_seq := read_seq c + 1, plaintext_read_buf := p, ciphertext_read_buf := b\<rparr>, Inr True)"
    and "sb_wf b" "sb_bytes b = rest" "sb_capacity b = 33290"
    and "sb_wf p" "sb_bytes p = sb_bytes (plaintext_read_buf c) @ d" "sb_capacity p = 33290" "sb_start p = 0"
proof -
  let ?cb = "ciphertext_read_buf c" and ?pb = "plaintext_read_buf c" and ?m = "length d + 17"
  let ?rec = "wire_record P k iv (read_seq c) (d @ [0x17])"
  have r: "aead_law P" "key_ok k iv" "sb_wf ?cb" "sb_capacity ?cb = 33290" "sb_wf ?pb" "sb_capacity ?pb = 33290"
    using assms(1) by (simp_all add: reading_with_def)
  have d: "length d \<le> 16384" "read_seq c \<noteq> - 1"
    using assms(2) seq_room_Suc [of "read_seq c" "length ds"] by (auto simp: data_chunks_def)
  obtain ct where ct: "?rec = make_record_header ?m @ ct" "length ct = ?m"
    using wire_record_ok [OF r(1,2), of "d @ [0x17]" "read_seq c"] d(1) by (auto simp: add.commute)
  have len: "length (sb_bytes ?cb) = 5 + ?m + length rest" using assms(3) ct by simp
  have rl: "record_length c = Inr (of_nat ?m)"
    using r(3) len assms(3) ct(1) d(1) by (intro record_length_front [where w = "[]" and x = "ct @ rest"]) auto
  have un: "unat (of_nat ?m :: u16) = ?m" using d(1) by (intro unat_of_nat_u16) simp
  have range: "sb_range ?cb 5 (5 + ?m) = Inr ct"
    using sb_range_bytes [OF r(3), of 5 "5 + ?m"] len assms(3) ct by simp
  have dec: "decrypt_record_in_place P k iv (read_seq c) ct (of_nat ?m) = (read_seq c + 1, Inr (0x17, d))"
    using decrypt_wire_record [OF r(1,2) _ d(2), of d 0 "0x17" "d @ [0x17]"] d(1) ct
    by (simp add: known_content_type_def add.commute)
  have "maybe_compact 4096 ?pb = ?pb" using assms(4) by (simp add: maybe_compact_def)
  moreover have "length d \<le> remaining_capacity ?pb"
    using assms(4,5) r(5,6) by (simp add: remaining_capacity_def sb_len_bytes sb_len_def sb_wf_def)
  ultimately obtain p where p: "sb_extend dbg (maybe_compact 4096 ?pb) d = Inr p" "sb_wf p" "sb_bytes p = sb_bytes ?pb @ d"
      "sb_capacity p = 33290" and ps: "sb_start p = sb_start ?pb"
    using sb_extend_ok [OF r(5), of d dbg] r(6)
    by (auto simp: sb_extend_def debug_assert_def write_slice_def split: if_splits)
  obtain b where b: "sb_consume dbg ?cb (5 + ?m) = Inr b" "sb_wf b" "sb_bytes b = rest" "sb_capacity b = 33290"
    using sb_consume_ok [OF r(3), of "5 + ?m" dbg] len assms(3) ct r(4) by auto
  have "on_app_record dbg P k iv c =
      (c\<lparr>read_seq := read_seq c + 1, plaintext_read_buf := p, ciphertext_read_buf := b\<rparr>, Inr True)"
    using rl un range dec p(1) b(1) len r(3)
    by (cases c) (simp add: on_app_record_def try_with_def Let_def sb_len_bytes [symmetric])
  then show thesis using that p b ps assms(4) by simp
qed

lemma app_loop_data:
  assumes "reading_with P k iv c" and "data_chunks (read_seq c) ds"
    and "sb_bytes (ciphertext_read_buf c) @ w = wire_records P k iv (read_seq c) 0x17 ds"
    and "sb_start (plaintext_read_buf c) = 0"
    and "length (sb_bytes (plaintext_read_buf c)) + length (sb_bytes (ciphertext_read_buf c)) \<le> 33290"
  shows "\<exists>c' done_ds rest. app_loop dbg P k iv c = (c', Inr ()) \<and> ds = done_ds @ rest \<and> reading_with P k iv c'
    \<and> data_chunks (read_seq c') rest
    \<and> sb_bytes (ciphertext_read_buf c') @ w = wire_records P k iv (read_seq c') 0x17 rest
    \<and> length (sb_bytes (ciphertext_read_buf c')) \<le> 16405
    \<and> sb_bytes (plaintext_read_buf c') = sb_bytes (plaintext_read_buf c) @ concat done_ds
    \<and> sb_start (plaintext_read_buf c') = 0 \<and> (w = [] \<longrightarrow> rest = [])"
  using assms
proof (induction ds arbitrary: c)
  case Nil
  then have "sb_bytes (ciphertext_read_buf c) = []" by simp
  moreover have "sb_wf (ciphertext_read_buf c)" using Nil.prems(1) by (simp add: reading_with_def)
  ultimately have "app_loop dbg P k iv c = (c, Inr ())"
    using sb_len_bytes [of "ciphertext_read_buf c"] by (subst app_loop.simps) simp
  then show ?case using Nil.prems by auto
next
  case (Cons d ds)
  let ?cb = "ciphertext_read_buf c" and ?m = "length d + 17"
  let ?rec = "wire_record P k iv (read_seq c) (d @ [0x17])"
  have wf: "sb_wf ?cb" "aead_law P" "key_ok k iv" using Cons.prems(1) by (simp_all add: reading_with_def)
  have d: "length d \<le> 16384" "seq_room (read_seq c) (Suc (length ds))" using Cons.prems(2) by (simp_all add: data_chunks_def)
  obtain ct where ct: "?rec = make_record_header ?m @ ct" "length ct = ?m"
    using wire_record_ok [OF wf(2,3), of "d @ [0x17]" "read_seq c"] d(1) by (auto simp: add.commute)
  show ?case
  proof (cases "length ?rec \<le> length (sb_bytes ?cb)")
    case True
    obtain rest where rest: "sb_bytes ?cb = ?rec @ rest" "rest @ w = wire_records P k iv (read_seq c + 1) 0x17 ds"
    proof
      have cat: "sb_bytes ?cb @ w = ?rec @ wire_records P k iv (read_seq c + 1) 0x17 ds" using Cons.prems(3) by simp
      then have "take (length ?rec) (sb_bytes ?cb) = ?rec"
        using True by (metis append_eq_append_conv_if append_eq_conv_conj)
      then show split: "sb_bytes ?cb = ?rec @ drop (length ?rec) (sb_bytes ?cb)" by (metis append_take_drop_id)
      show "drop (length ?rec) (sb_bytes ?cb) @ w = wire_records P k iv (read_seq c + 1) 0x17 ds"
        using cat split by (metis append_assoc same_append_eq)
    qed
    have "length (sb_bytes (plaintext_read_buf c)) + length d \<le> 33290"
      using Cons.prems(5) True ct by simp
    from on_app_record_data [OF Cons.prems(1,2) rest(1) Cons.prems(4) this]
    obtain b p where step: "on_app_record dbg P k iv c =
          (c\<lparr>read_seq := read_seq c + 1, plaintext_read_buf := p, ciphertext_read_buf := b\<rparr>, Inr True)"
      and b: "sb_wf b" "sb_bytes b = rest" "sb_capacity b = 33290"
      and p: "sb_wf p" "sb_bytes p = sb_bytes (plaintext_read_buf c) @ d" "sb_capacity p = 33290" "sb_start p = 0" .
    let ?c = "c\<lparr>read_seq := read_seq c + 1, plaintext_read_buf := p, ciphertext_read_buf := b\<rparr>"
    have loop: "app_loop dbg P k iv c = app_loop dbg P k iv ?c"
      using step True ct sb_len_bytes [OF wf(1)] by (subst app_loop.simps) simp
    have "reading_with P k iv ?c" using Cons.prems(1) b p by (simp add: reading_with_def)
    moreover have "data_chunks (read_seq ?c) ds"
      using Cons.prems(2) seq_room_Suc [OF d(2)] by (simp add: data_chunks_def)
    moreover have "length (sb_bytes p) + length (sb_bytes b) \<le> 33290"
      using Cons.prems(5) rest(1) p(2) b(2) ct by simp
    ultimately obtain c' done_ds rest' where "app_loop dbg P k iv ?c = (c', Inr ())" "ds = done_ds @ rest'"
        "reading_with P k iv c'" "data_chunks (read_seq c') rest'"
        "sb_bytes (ciphertext_read_buf c') @ w = wire_records P k iv (read_seq c') 0x17 rest'"
        "length (sb_bytes (ciphertext_read_buf c')) \<le> 16405"
        "sb_bytes (plaintext_read_buf c') = sb_bytes p @ concat done_ds" "sb_start (plaintext_read_buf c') = 0"
        "w = [] \<longrightarrow> rest' = []"
      using Cons.IH [of ?c] rest(2) b(2) p(4) by auto
    then show ?thesis unfolding loop using p(2)
      by (intro exI [of _ c'] exI [of _ "d # done_ds"] exI [of _ rest']) simp
  next
    case False
    have "app_loop dbg P k iv c = (c, Inr ())"
    proof (cases "sb_len ?cb < 5")
      case True
      then show ?thesis by (subst app_loop.simps) simp
    next
      case no: False
      have "record_length c = Inr (of_nat ?m)"
      proof (rule record_length_front [OF wf(1)])
        show "sb_bytes ?cb @ w = make_record_header ?m @ ct @ wire_records P k iv (read_seq c + 1) 0x17 ds"
          using Cons.prems(3) ct(1) by simp
      qed (use no d(1) sb_len_bytes [OF wf(1)] in auto)
      moreover have "unat (of_nat ?m :: u16) = ?m" using d(1) by (intro unat_of_nat_u16) simp
      ultimately have "on_app_record dbg P k iv c = (c, Inr False)"
        using False ct sb_len_bytes [OF wf(1)] by (simp add: on_app_record_def try_with_def)
      then show ?thesis by (subst app_loop.simps) simp
    qed
    moreover have "length (sb_bytes ?cb) \<le> 16405" using False ct d(1) by simp
    moreover have "w \<noteq> []" using False Cons.prems(3) by auto
    ultimately show ?thesis using Cons.prems by (intro exI [of _ c] exI [of _ "[]"] exI [of _ "d # ds"]) simp
  qed
qed

section \<open>The reading side of the stream\<close>

text \<open>An empty buffer has moved its window back to the front.\<close>

definition tidy :: "slide_buffer \<Rightarrow> bool" where
  "tidy b \<longleftrightarrow> sb_wf b \<and> sb_capacity b = 33290 \<and> (sb_bytes b = [] \<longrightarrow> sb_start b = 0)"

text \<open>
  The connection has read less than one record ahead; its buffer and \<open>w\<close>, which is still to be fed, are the records of \<open>ds\<close>.
\<close>

definition conn_due :: "tls_prims \<Rightarrow> bytes \<Rightarrow> bytes list \<Rightarrow> reality_conn \<Rightarrow> bool" where
  "conn_due P w ds c \<longleftrightarrow> (\<exists>k iv. reading_with P k iv c \<and> tidy (plaintext_read_buf c) \<and> data_chunks (read_seq c) ds
     \<and> sb_bytes (ciphertext_read_buf c) @ w = wire_records P k iv (read_seq c) 0x17 ds
     \<and> length (sb_bytes (ciphertext_read_buf c)) \<le> 16405 \<and> (w = [] \<longrightarrow> ds = []))"

lemma sb_consume_start: "sb_consume dbg b m = Inr b' \<Longrightarrow> sb_end b' \<le> sb_start b' \<Longrightarrow> sb_start b' = 0"
  by (cases "sb_end b \<le> sb_start b + m") (auto simp: sb_consume_def debug_assert_def Let_def split: if_splits)

lemma reader_read_tidy:
  assumes "tidy b" and "reader_read dbg b n = Inr (b', out)"
  shows "tidy b' \<and> out = take n (sb_bytes b) \<and> sb_bytes b' = drop n (sb_bytes b)"
proof -
  have wf: "sb_wf b" using assms(1) by (simp add: tidy_def)
  have facts: "sb_wf b'" "out = take n (sb_bytes b)" "sb_bytes b' = drop n (sb_bytes b)" "sb_capacity b' = sb_capacity b"
    using reader_read_ok [OF wf, of dbg n] assms(2) by auto
  have "b' = b \<or> (\<exists>m. sb_consume dbg b m = Inr b')"
    using assms(2) by (auto simp: reader_read_def Let_def split: if_splits)
  moreover have "sb_end b' \<le> sb_start b'" if "sb_bytes b' = []"
    using that facts(1) sb_len_bytes [OF facts(1)] by (simp add: sb_len_def)
  ultimately have "sb_start b' = 0" if "sb_bytes b' = []"
    using that assms(1) sb_consume_start by (auto simp: tidy_def)
  then show ?thesis using facts assms(1) by (simp add: tidy_def)
qed

lemma maybe_compact_tidy: "tidy b \<Longrightarrow> tidy (maybe_compact t b) \<and> sb_bytes (maybe_compact t b) = sb_bytes b"
  using maybe_compact_ok [of b t] by (auto simp: tidy_def maybe_compact_def compact_def)

lemma conn_read_due:
  assumes "conn_due P w ds c"
  obtains c' where "conn_read dbg c n = (c', Inr (take n (sb_bytes (plaintext_read_buf c))))" and "conn_due P w ds c'"
    and "sb_bytes (plaintext_read_buf c') = drop n (sb_bytes (plaintext_read_buf c))"
proof -
  let ?b = "maybe_compact 4096 (plaintext_read_buf c)"
  have t: "tidy ?b" "sb_bytes ?b = sb_bytes (plaintext_read_buf c)"
    using assms maybe_compact_tidy by (auto simp: conn_due_def)
  then obtain b' out where r: "reader_read dbg ?b n = Inr (b', out)"
    using reader_read_ok [of ?b dbg n] by (auto simp: tidy_def)
  note rt = reader_read_tidy [OF t(1) r]
  show thesis
  proof (rule that [of "c\<lparr>plaintext_read_buf := b'\<rparr>"])
    show "conn_read dbg c n = (c\<lparr>plaintext_read_buf := b'\<rparr>, Inr (take n (sb_bytes (plaintext_read_buf c))))"
      using r rt t(2) by (simp add: conn_read_def try_with_def)
    show "conn_due P w ds (c\<lparr>plaintext_read_buf := b'\<rparr>)"
      using assms rt unfolding conn_due_def reading_with_def tidy_def by auto
  qed (use rt t(2) in simp)
qed

lemma feed_fits:
  assumes "sb_wf b" and "sb_capacity b = 33290" and "length (sb_bytes b) \<le> 16405" and "length d \<le> 16384" and "d \<noteq> []"
    and "ciphertext_read_buf c = b"
  obtains b' where "feed_reality_client_connection dbg c d = (c\<lparr>ciphertext_read_buf := b'\<rparr>, Inr ())"
    and "sb_wf b'" and "sb_bytes b' = sb_bytes b @ d" and "sb_capacity b' = 33290"
proof -
  let ?b = "if remaining_capacity b < 16645 then compact b else b"
  have "sb_wf ?b" "sb_bytes ?b = sb_bytes b" "sb_capacity ?b = 33290" "length d \<le> remaining_capacity ?b"
    using compact_ok [OF assms(1)] assms(1-4) by auto
  from sb_extend_ok [OF this(1,4), of dbg] this(2,3) obtain b' where b': "sb_extend dbg ?b d = Inr b'" "sb_wf b'"
    "sb_bytes b' = sb_bytes b @ d" "sb_capacity b' = 33290" by auto
  have "read_tls dbg c (Inr d) = (c\<lparr>ciphertext_read_buf := b'\<rparr>, Inr (length d))"
    using b'(1) assms(4-6) by (auto simp: read_tls_def try_with_def Let_def split: if_splits)
  then have "feed_reality_client_connection dbg c d = (c\<lparr>ciphertext_read_buf := b'\<rparr>, Inr ())"
    using assms(4,5) by (simp add: feed_reality_client_connection_def feed_loop.simps [of dbg c d] feed_loop.simps [of dbg _ "[]"])
  then show thesis using that b' by blast
qed

lemma feed_process_due:
  assumes "conn_due P (d @ w) ds c" and "sb_bytes (plaintext_read_buf c) = []" and "d \<noteq> []" and "length d \<le> 16384"
  obtains c1 n c2 done_ds rest where "feed_reality_client_connection dbg c d = (c1, Inr ())"
    and "process_new_packets dbg P c1 = (c2, Inr n)" and "ds = done_ds @ rest" and "conn_due P w rest c2"
    and "sb_bytes (plaintext_read_buf c2) = concat done_ds"
proof -
  from assms(1) obtain k iv where r: "reading_with P k iv c" "tidy (plaintext_read_buf c)" "data_chunks (read_seq c) ds"
    "sb_bytes (ciphertext_read_buf c) @ d @ w = wire_records P k iv (read_seq c) 0x17 ds"
    "length (sb_bytes (ciphertext_read_buf c)) \<le> 16405" unfolding conn_due_def by blast
  have b: "sb_wf (ciphertext_read_buf c)" "sb_capacity (ciphertext_read_buf c) = 33290"
    using r(1) by (simp_all add: reading_with_def)
  from feed_fits [OF b r(5) assms(4,3) refl, of dbg] obtain b' where f: "feed_reality_client_connection dbg c d = (c\<lparr>ciphertext_read_buf := b'\<rparr>, Inr ())"
    and b': "sb_wf b'" "sb_bytes b' = sb_bytes (ciphertext_read_buf c) @ d" "sb_capacity b' = 33290" by metis
  let ?c = "c\<lparr>ciphertext_read_buf := b'\<rparr>"
  have rw: "reading_with P k iv ?c" using r(1) b' by (simp add: reading_with_def)
  moreover have "data_chunks (read_seq ?c) ds" using r(3) by simp
  moreover have "sb_bytes (ciphertext_read_buf ?c) @ w = wire_records P k iv (read_seq ?c) 0x17 ds" using r(4) b'(2) by simp
  moreover have "sb_start (plaintext_read_buf ?c) = 0" using r(2) assms(2) by (simp add: tidy_def)
  moreover have "length (sb_bytes (plaintext_read_buf ?c)) + length (sb_bytes (ciphertext_read_buf ?c)) \<le> 33290"
    using assms(2,4) r(5) b'(2) by simp
  ultimately obtain c' done_ds rest where l: "app_loop dbg P k iv ?c = (c', Inr ())" "ds = done_ds @ rest"
    "reading_with P k iv c'" "data_chunks (read_seq c') rest"
    "sb_bytes (ciphertext_read_buf c') @ w = wire_records P k iv (read_seq c') 0x17 rest"
    "length (sb_bytes (ciphertext_read_buf c')) \<le> 16405" "sb_bytes (plaintext_read_buf c') = concat done_ds"
    "sb_start (plaintext_read_buf c') = 0" "w = [] \<longrightarrow> rest = []"
    using app_loop_data [of P k iv ?c ds w dbg] assms(2) by auto
  have "process_new_packets_inner dbg P ?c = (c', Inr (sb_len (plaintext_read_buf c')))"
    using rw l(1) by (subst process_new_packets_inner.simps) (simp add: reading_with_def process_application_data_def)
  then have "process_new_packets dbg P ?c = (c', Inr (sb_len (plaintext_read_buf c')))"
    using rw by (simp add: process_new_packets_def reading_with_def)
  moreover have "conn_due P w rest c'"
    using l unfolding conn_due_def tidy_def reading_with_def by auto
  ultimately show thesis using that [OF f _ l(2)] l(7) by blast
qed

definition reality_due :: "tls_prims \<Rightarrow> bytes \<Rightarrow> bytes \<Rightarrow> reality_stream \<Rightarrow> bool" where
  "reality_due P future todo s \<longleftrightarrow> segments_ok (inner s) \<and> peer (inner s) = StillOpen
     \<and> (\<exists>ds. conn_due P (concat (arrived (inner s)) @ future) ds (prot s)
          \<and> todo = sb_bytes (plaintext_read_buf (prot s)) @ concat ds)"

lemma reality_poll_read_due:
  assumes "reality_due P future todo s"
  shows "\<exists>r s' out todo'. reality_poll_read dbg P cap s = (r, s') \<and> outcome r = Some out
      \<and> todo = out @ todo' \<and> reality_due P future todo' s' \<and> (future = [] \<longrightarrow> 0 < cap \<longrightarrow> todo \<noteq> [] \<longrightarrow> out \<noteq> [])"
  using assms
proof (induction "length (concat (arrived (inner s)))" arbitrary: s todo rule: less_induct)
  case less
  from less.prems obtain ds where t: "segments_ok (inner s)" "peer (inner s) = StillOpen"
    "conn_due P (concat (arrived (inner s)) @ future) ds (prot s)" "todo = sb_bytes (plaintext_read_buf (prot s)) @ concat ds"
    unfolding reality_due_def by blast
  from conn_read_due [OF t(3), of dbg cap] obtain c' where rd: "conn_read dbg (prot s) cap =
      (c', Inr (take cap (sb_bytes (plaintext_read_buf (prot s)))))"
    and c': "conn_due P (concat (arrived (inner s)) @ future) ds c'"
      "sb_bytes (plaintext_read_buf c') = drop cap (sb_bytes (plaintext_read_buf (prot s)))" .
  consider (zero) "cap = 0" | (got) "0 < cap" "sb_bytes (plaintext_read_buf (prot s)) \<noteq> []"
    | (none) "0 < cap" "sb_bytes (plaintext_read_buf (prot s)) = []" "arrived (inner s) = []"
    | (net) "0 < cap" "sb_bytes (plaintext_read_buf (prot s)) = []" "arrived (inner s) \<noteq> []" by auto
  then show ?case
  proof cases
    case zero
    then have "reality_poll_read dbg P cap s = (PollReady (Inr []), s)" by (simp add: reality_poll_read.simps)
    then show ?thesis using less.prems zero by auto
  next
    case got
    let ?out = "take cap (sb_bytes (plaintext_read_buf (prot s)))"
    have "?out \<noteq> []" using got by simp
    then have "reality_poll_read dbg P cap s = (PollReady (Inr ?out), s\<lparr>prot := c'\<rparr>)"
      using got(1) rd by (subst reality_poll_read.simps) simp
    moreover have "reality_due P future (sb_bytes (plaintext_read_buf c') @ concat ds) (s\<lparr>prot := c'\<rparr>)"
      using t(1,2) c'(1) by (auto simp: reality_due_def)
    moreover have "todo = ?out @ sb_bytes (plaintext_read_buf c') @ concat ds" using t(4) c'(2) by simp
    ultimately show ?thesis using \<open>?out \<noteq> []\<close> by auto
  next
    case none
    then have "reality_poll_read dbg P cap s = (PollPending, s\<lparr>prot := c', inner := inner s\<rparr>)"
      using rd t(2) by (subst reality_poll_read.simps) (simp add: inner_read_def)
    moreover have "reality_due P future todo (s\<lparr>prot := c', inner := inner s\<rparr>)"
      using t none c' by (auto simp: reality_due_def)
    moreover have "future = [] \<longrightarrow> todo = []" using t(3,4) none by (auto simp: conn_due_def)
    ultimately show ?thesis by auto
  next
    case net
    have "0 < (16384 :: nat)" by simp
    from inner_read_some [OF t(1) net(3) this]
    obtain d t' where i: "inner_read 16384 (inner s) = (PollReady (Inr d), t')" "d \<noteq> []" "length d \<le> 16384"
      and t': "segments_ok t'" "d @ concat (arrived t') = concat (arrived (inner s))" "peer t' = peer (inner s)"
        "t' = (inner s)\<lparr>arrived := arrived t'\<rparr>" .
    have "conn_due P (d @ concat (arrived t') @ future) ds c'" using c'(1) t'(2) by (metis append_assoc)
    moreover have "sb_bytes (plaintext_read_buf c') = []" using c'(2) net(2) by simp
    ultimately obtain c1 n c2 done_ds rest where f: "feed_reality_client_connection dbg c' d = (c1, Inr ())"
      "process_new_packets dbg P c1 = (c2, Inr n)" "ds = done_ds @ rest" "conn_due P (concat (arrived t') @ future) rest c2"
      "sb_bytes (plaintext_read_buf c2) = concat done_ds"
      using feed_process_due i(2,3) by metis
    let ?s = "s\<lparr>prot := c2, inner := t'\<rparr>"
    have "reality_poll_read dbg P cap s = reality_poll_read dbg P cap ?s"
      using net rd i f by (subst reality_poll_read.simps) simp
    moreover have "reality_due P future todo ?s" using t t' f net(2) by (auto simp: reality_due_def)
    moreover have "length (concat (arrived (inner ?s))) < length (concat (arrived (inner s)))"
      using t'(2) i(2) by (metis append_Nil fstream.select_convs(1) fstream.surjective fstream.update_convs(1)
          length_append length_greater_0_conv less_add_same_cancel2)
    ultimately show ?thesis using less.hyps [of ?s todo] by simp
  qed
qed

interpretation reality_reader: due_reader "reality_poll_read dbg P" "reality_due P" for dbg P
proof
  fix seg future todo and s :: reality_stream
  assume "reality_due P (seg @ future) todo s" and "seg \<noteq> []"
  then show "reality_due P future todo (s\<lparr>inner := (inner s)\<lparr>arrived := arrived (inner s) @ [seg]\<rparr>\<rparr>)"
    by (auto simp: reality_due_def segments_ok_def)
qed (rule reality_poll_read_due)

section \<open>The writing side of the stream\<close>

text \<open>The connection is past its handshake and has nothing waiting; \<open>k\<close> and \<open>iv\<close> are the keys it writes with.\<close>

definition writing_with :: "aead_key \<Rightarrow> bytes \<Rightarrow> reality_conn \<Rightarrow> bool" where
  "writing_with k iv c \<longleftrightarrow> handshake_state c = Complete \<and> app_write_key c = Some k \<and> app_write_iv c = Some iv
     \<and> ciphertext_write_buf c = [] \<and> plaintext_write_buf c = []"

definition fragments :: "bytes list \<Rightarrow> bytes list" where
  "fragments cs = concat (map (chunks_of 16384) cs)"

lemma wire_records_append:
  "wire_records P k iv seq t (cs @ ds) = wire_records P k iv seq t cs @ wire_records P k iv (seq + of_nat (length cs)) t ds"
  by (induction cs arbitrary: seq) (simp_all add: add.assoc)

lemma fragments_append: "fragments (cs @ [d]) = fragments cs @ chunks_of 16384 d"
  by (simp add: fragments_def)

lemma seq_room_add: "seq_room seq n \<Longrightarrow> unat (seq + of_nat n) = unat seq + n"
proof -
  assume a: "seq_room seq n"
  then have "unat (of_nat n :: u64) = n" by (intro unat_of_nat_u64) (simp add: seq_room_def)
  then show ?thesis using a by (subst unat_add_lem [THEN iffD1]) (simp_all add: seq_room_def)
qed

lemma sealed_numbered:
  assumes "snd (sealed dbg P k iv s inner_bytes) = (s', Inr x)"
  shows "rs_seq s \<noteq> - 1 \<and> rs_seq s' = rs_seq s + 1"
  using assms by (auto simp: sealed_def Let_def split: sum.splits if_splits)

lemma minus_one_u64: "unat (- 1 :: u64) = 2 ^ 64 - 1"
  by (simp add: unsigned_minus_1_eq_mask mask_eq_exp_minus_1)

lemma encrypt_chunks_room: "encrypt_chunks dbg P k iv t s cs = (s', Inr x) \<Longrightarrow> seq_room (rs_seq s) (length cs)"
proof (induction cs arbitrary: s)
  case Nil
  then show ?case using unsigned_less [of "rs_seq s", where 'a = nat] by (simp add: seq_room_def)
next
  case (Cons c cs)
  obtain b s1 r where e: "encrypt_record_in_place dbg P k iv s c t = (b, s1, r)" by (metis prod_cases3)
  then obtain y where r: "r = Inr y" "encrypt_chunks dbg P k iv t s1 cs = (s', Inr x)" using Cons.prems by (cases r) auto
  have n: "rs_seq s \<noteq> - 1" "rs_seq s1 = rs_seq s + 1"
    using sealed_numbered [of dbg P k iv s "c @ [t]" s1 y] e r(1) by (simp_all add: encrypt_record_in_place_def)
  have "unat (rs_seq s) \<noteq> 2 ^ 64 - 1" using n(1) minus_one_u64 by (metis word_unat_eq_iff)
  then have "unat (rs_seq s) + 1 < 2 ^ 64" using unsigned_less [of "rs_seq s", where 'a = nat] by simp
  then have "unat (rs_seq s1) = unat (rs_seq s) + 1"
    unfolding n(2) by (subst unat_add_lem [THEN iffD1]) simp_all
  then show ?case using Cons.IH [OF r(2)] by (simp add: seq_room_def)
qed

lemma encrypt_app_data_room:
  assumes "encrypt_app_data dbg P k iv s pt = (pt', s', Inr x)"
  shows "seq_room (rs_seq s) (length (chunks_of 16384 pt))"
proof -
  consider "pt = []" | "pt \<noteq> []" "length pt \<le> 16384" | "length pt > 16384" by linarith
  then show ?thesis
  proof cases
    case 1
    then show ?thesis using unsigned_less [of "rs_seq s", where 'a = nat] by (simp add: seq_room_def chunks_of.simps)
  next
    case 2
    then have "encrypt_chunks dbg P k iv 0x17 s (chunks_of 16384 pt) = (s', Inr ())"
      using assms by (auto simp: encrypt_app_data_def chunks_of_short split: prod.splits sum.splits)
    then show ?thesis by (rule encrypt_chunks_room)
  next
    case 3
    then have "pt \<noteq> []" "\<not> length pt \<le> 16384" by auto
    then have "encrypt_chunks dbg P k iv 0x17 s (chunks_of 16384 pt) = (s', Inr ())"
      using assms by (auto simp: encrypt_app_data_def encrypt_fragmented_def split: prod.splits sum.splits)
    then show ?thesis by (rule encrypt_chunks_room)
  qed
qed

lemma reality_encode_takes:
  assumes "aead_law P" and "key_ok k iv" and "writing_with k iv c" and "buf \<noteq> []"
    and "reality_encode dbg P c buf = (c', queued, Inr n)"
  shows "n = length buf \<and> seq_room (write_seq c) (length (chunks_of 16384 buf))
    \<and> c' = c\<lparr>write_seq := write_seq c + of_nat (length (chunks_of 16384 buf))\<rparr>
    \<and> queued = wire_records P k iv (write_seq c) 0x17 (chunks_of 16384 buf)"
proof -
  let ?c = "c\<lparr>plaintext_write_buf := buf\<rparr>" and ?cs = "chunks_of 16384 buf"
  let ?sink = "\<lparr>rs_seq = write_seq c, rs_out = []\<rparr>"
  let ?c1 = "c\<lparr>write_seq := write_seq c + of_nat (length ?cs)\<rparr>"
  let ?w = "wire_records P k iv (write_seq c) 0x17 ?cs"
  have w: "handshake_state c = Complete" "app_write_key c = Some k" "app_write_iv c = Some iv"
    "ciphertext_write_buf c = []" "plaintext_write_buf c = []" using assms(3) by (simp_all add: writing_with_def)
  obtain pt sink r where e: "encrypt_app_data dbg P k iv ?sink buf = (pt, sink, r)" by (metis prod_cases3)
  have ww: "wants_write ?c" using assms(4) by (simp add: wants_write_def)
  have enc: "reality_encode dbg P c buf = (case drain_tls dbg P ?c of (c, w, Inl e) \<Rightarrow> (c, w, Inl e) | (c, w, Inr _) \<Rightarrow> (c, w, Inr (length buf)))"
    using w by (simp add: reality_encode_def conn_write_def)
  have "\<exists>x. r = Inr x"
  proof (rule ccontr)
    assume "\<nexists>x. r = Inr x"
    then obtain err where "r = Inl err" by (cases r) auto
    then have "\<exists>d q. drain_tls dbg P ?c = (d, q, Inl err)"
      using ww w e assms(4) by (subst drain_tls.simps) (simp add: write_tls_def seal_pending_def is_handshaking_def)
    then show False using assms(5) enc by auto
  qed
  then have room: "seq_room (write_seq c) (length ?cs)" using encrypt_app_data_room [of dbg P k iv ?sink buf pt sink] e by auto
  then have "encrypt_app_data dbg P k iv ?sink buf = ([], \<lparr>rs_seq = write_seq c + of_nat (length ?cs), rs_out = ?w\<rparr>, Inr ())"
    using encrypt_app_data_ok [OF assms(1,2), of ?sink buf dbg] by simp
  moreover have "?w \<noteq> []"
    using assms(4) by (subst chunks_of.simps) (simp add: wire_record_def make_record_header_def)
  ultimately have wt: "write_tls dbg P vec_writer ?c = (?w, ?c1, Inr (length ?w))"
    using w assms(4) by (cases c) (simp add: write_tls_def seal_pending_def is_handshaking_def drain_to_def)
  have "drain_tls dbg P ?c1 = (?c1, [], Inr ())" using w by (subst drain_tls.simps) (simp add: wants_write_def)
  then have "drain_tls dbg P ?c = (?c1, ?w, Inr ())"
    using ww wt \<open>?w \<noteq> []\<close> by (subst drain_tls.simps) simp
  then show ?thesis using enc assms(5) room by simp
qed

interpretation reality_writer: fallible_writer "reality_encode dbg P"
  "\<lambda>cs. c\<lparr>write_seq := write_seq c + of_nat (length (fragments cs))\<rparr>"
  "\<lambda>cs. wire_records P k iv (write_seq c) 0x17 (fragments cs)"
  "\<lambda>cs. seq_room (write_seq c) (length (fragments cs))" "aead_law P \<and> key_ok k iv \<and> writing_with k iv c"
  for dbg P k iv c
proof
  fix buf cs p queued n
  let ?c = "c\<lparr>write_seq := write_seq c + of_nat (length (fragments cs))\<rparr>" and ?new = "chunks_of 16384 buf"
  assume a: "aead_law P \<and> key_ok k iv \<and> writing_with k iv c" and buf: "buf \<noteq> []"
    and room: "seq_room (write_seq c) (length (fragments cs))" and e: "reality_encode dbg P ?c buf = (p, queued, Inr n)"
  have "writing_with k iv ?c" using a by (simp add: writing_with_def)
  from reality_encode_takes [OF _ _ this buf e] a have r: "n = length buf" "seq_room (write_seq ?c) (length ?new)"
    "p = ?c\<lparr>write_seq := write_seq ?c + of_nat (length ?new)\<rparr>"
    "queued = wire_records P k iv (write_seq ?c) 0x17 ?new" by simp_all
  have "seq_room (write_seq c) (length (fragments (cs @ [buf])))"
    using r(2) seq_room_add [OF room] by (simp add: seq_room_def fragments_append)
  then show "0 < n \<and> n \<le> length buf \<and> seq_room (write_seq c) (length (fragments (cs @ [take n buf])))
    \<and> p = c\<lparr>write_seq := write_seq c + of_nat (length (fragments (cs @ [take n buf])))\<rparr>
    \<and> wire_records P k iv (write_seq c) 0x17 (fragments (cs @ [take n buf]))
      = wire_records P k iv (write_seq c) 0x17 (fragments cs) @ queued"
    using r buf by (simp add: fragments_append wire_records_append add.assoc)
qed

section \<open>End to end\<close>

text \<open>The two ends hold the same key for the direction from \<open>w\<close> to \<open>r\<close> and have nothing in their buffers.\<close>

definition same_direction :: "tls_prims \<Rightarrow> reality_conn \<Rightarrow> reality_conn \<Rightarrow> bool" where
  "same_direction P w r \<longleftrightarrow> (\<exists>k iv. writing_with k iv w \<and> reading_with P k iv r \<and> write_seq w = read_seq r
     \<and> sb_bytes (ciphertext_read_buf r) = [] \<and> sb_bytes (plaintext_read_buf r) = [] \<and> sb_start (plaintext_read_buf r) = 0)"

lemma concat_fragments: "concat (fragments cs) = concat cs"
  by (induction cs) (simp_all add: fragments_def chunks_of_props)

lemma fragments_chunks: "seq_room seq (length (fragments cs)) \<Longrightarrow> data_chunks seq (fragments cs)"
  using chunks_of_props [of 16384] by (auto simp: data_chunks_def fragments_def)

text \<open>
  C9. Application data over an established REALITY stream: whatever the transport accepts per write and
  however it cuts the bytes, once the writer's queue is flushed the other end, polled often enough, gets
  exactly the bytes that were taken from the writing application, in order and without an error; large
  writes are split into records and the buffers never overflow.
\<close>

theorem reality_stream_end_to_end:
  assumes "same_direction P w r"
    and "run_writes (reality_poll_write dbg P) (reality_stream_new (open_transport accepts) w) bufs = (Some taken, s)"
    and "unsent s = []" and "arrivals evs = sent (inner s)" and "Arrive [] \<notin> set evs"
    and "\<forall>c \<in> set caps. 0 < c" and "length (concat taken) \<le> length caps"
  shows "delivered (fst (run_reads (reality_poll_read dbg P) (reality_stream_new (open_transport []) r) (evs @ map Read caps)))
    = Some (concat taken)"
proof -
  from assms(1) obtain k iv where k: "writing_with k iv w" "reading_with P k iv r" "write_seq w = read_seq r"
    "sb_bytes (ciphertext_read_buf r) = []" "sb_bytes (plaintext_read_buf r) = []" "sb_start (plaintext_read_buf r) = 0"
    unfolding same_direction_def by blast
  have law: "aead_law P" "key_ok k iv" using k(2) by (simp_all add: reading_with_def)
  have "reality_writer.wrote w P k iv [] (reality_stream_new (open_transport accepts) w)"
    using law k(1) unsigned_less [of "write_seq w", where 'a = nat] unfolding reality_writer.wrote_def
    by (simp add: reality_stream_new_def fstream_new_def open_transport_def fragments_def seq_room_def)
  from reality_writer.run_wrote [OF this, of dbg bufs taken s] assms(2)
  have "reality_writer.wrote w P k iv taken s" by (simp add: reality_poll_write_def)
  then have sent: "sent (inner s) = wire_records P k iv (read_seq r) 0x17 (fragments taken)"
      "seq_room (read_seq r) (length (fragments taken))"
    using assms(3) k(3) unfolding reality_writer.wrote_def by simp_all
  have "arrivals evs = [] \<longrightarrow> fragments taken = []"
    using sent(1) assms(4) by (cases "fragments taken") (auto simp: wire_record_def make_record_header_def)
  then have "conn_due P (arrivals evs) (fragments taken) r"
    using k sent assms(4) fragments_chunks [OF sent(2)] unfolding conn_due_def tidy_def reading_with_def by auto
  then have "reality_due P (arrivals evs) (concat taken) (reality_stream_new (open_transport []) r)"
    using k(5) by (auto simp: reality_due_def reality_stream_new_def fstream_new_def open_transport_def segments_ok_def
        concat_fragments intro!: exI [of _ "fragments taken"])
  from reality_reader.reads_back [OF this assms(5-7)] show ?thesis .
qed

definition sample_key :: aead_key where
  "sample_key = \<lparr>ak_suite = AES_128_GCM_SHA256, ak_bytes = replicate 16 1\<rparr>"

definition sample_conn :: "aead_key option \<Rightarrow> aead_key option \<Rightarrow> bytes \<Rightarrow> reality_conn" where
  "sample_conn reads writes storage =
     \<lparr>config = sample_cfg, handshake_state = Complete, app_read_key = reads, app_read_iv = Some (replicate 12 2),
      app_write_key = writes, app_write_iv = Some (replicate 12 2), read_seq = 0, write_seq = 0, conn_suite = None,
      ciphertext_read_buf = slide_new storage, ciphertext_write_buf = [], plaintext_read_buf = slide_new storage,
      plaintext_write_buf = [], received_close_notify = False, fatal_error = None\<rparr>"

definition sample_writing :: "bytes list option \<times> reality_stream" where
  "sample_writing = run_writes (reality_poll_write True sample_tls)
     (reality_stream_new (open_transport [Accept 10, Accept 100]) (sample_conn None (Some sample_key) [])) [[1, 2, 3]]"

lemma sample_writing_runs:
  "fst sample_writing = Some [[1, 2, 3]] \<and> unsent (snd sample_writing) = [] \<and> length (sent (inner (snd sample_writing))) = 25"
proof -
  let ?c = "sample_conn None (Some sample_key) []" and ?k = sample_key and ?iv = "replicate 12 2"
  let ?w = "make_record_header 20 @ [1, 2, 3, 0x17] @ replicate 16 0"
  have "encrypt_app_data True sample_tls ?k ?iv \<lparr>rs_seq = 0, rs_out = []\<rparr> [1, 2, 3] = ([], \<lparr>rs_seq = 1, rs_out = ?w\<rparr>, Inr ())"
    by (simp add: encrypt_app_data_def encrypt_record_in_place_def sealed_def debug_assert_def seal_in_place_def make_nonce_def
        sample_tls_def Let_def)
  then have "write_tls True sample_tls vec_writer (?c\<lparr>plaintext_write_buf := [1, 2, 3]\<rparr>) = (?w, ?c\<lparr>write_seq := 1\<rparr>, Inr 25)"
    by (simp add: write_tls_def seal_pending_def drain_to_def is_handshaking_def sample_conn_def)
  then have "drain_tls True sample_tls (?c\<lparr>plaintext_write_buf := [1, 2, 3]\<rparr>) = (?c\<lparr>write_seq := 1\<rparr>, ?w, Inr ())"
    by (simp add: drain_tls.simps wants_write_def sample_conn_def)
  then have "reality_encode True sample_tls ?c [1, 2, 3] = (?c\<lparr>write_seq := 1\<rparr>, ?w, Inr 3)"
    by (simp add: reality_encode_def conn_write_def sample_conn_def)
  then show ?thesis
    by (simp add: sample_writing_def reality_poll_write_def framed_poll_write_def reality_stream_new_def fstream_new_def
        open_transport_def flush_wbuf.simps inner_write_def)
qed

lemma sample_direction:
  "same_direction sample_tls (sample_conn None (Some sample_key) []) (sample_conn (Some sample_key) None (replicate 33290 0))"
  unfolding same_direction_def
  by (intro exI [of _ sample_key] exI [of _ "replicate 12 2"])
    (simp add: writing_with_def reading_with_def sample_conn_def sample_tls_laws key_ok_def sample_key_def suite_key_len_def
      sb_wf_def slide_new_def sb_bytes_def)

theorem reality_stream_end_to_end_witness:
  "delivered (fst (run_reads (reality_poll_read True sample_tls)
     (reality_stream_new (open_transport []) (sample_conn (Some sample_key) None (replicate 33290 0)))
     ([Arrive (take 7 (sent (inner (snd sample_writing)))), Read 5, Arrive (drop 7 (sent (inner (snd sample_writing))))]
       @ map Read [2, 2, 2]))) = Some [1, 2, 3]"
proof -
  let ?w = "sent (inner (snd sample_writing))"
  let ?evs = "[Arrive (take 7 ?w), Read 5, Arrive (drop 7 ?w)]"
  have run: "run_writes (reality_poll_write True sample_tls)
      (reality_stream_new (open_transport [Accept 10, Accept 100]) (sample_conn None (Some sample_key) [])) [[1, 2, 3]]
      = (Some [[1, 2, 3]], snd sample_writing)"
    using sample_writing_runs by (metis prod.collapse sample_writing_def)
  have "arrivals ?evs = ?w" by simp
  moreover have "Arrive [] \<notin> set ?evs" using sample_writing_runs by auto
  ultimately show ?thesis
    using reality_stream_end_to_end [OF sample_direction run, of ?evs "[2, 2, 2]"] sample_writing_runs by simp
qed

end
