(* ===== verification/RealityShake.thy ===== *)
theory RealityShake
  imports RealityHello RealityData
begin

text \<open>
  The handshake with a server that follows the protocol. \<open>reference_answer\<close> is that server's flight, from the constructors of
  \<open>reality_tls13_messages.rs\<close>, the key schedule and the record layer. Whatever segments its bytes arrive
  in, \<open>reality_handshake\<close> completes with it, and both ends hold the same keys.
\<close>

section \<open>Lengths in the key schedule\<close>

definition hash_law :: "tls_prims \<Rightarrow> bool" where
  "hash_law P \<longleftrightarrow> (\<forall>h d. length (tp_digest P h d) = output_len h) \<and> (\<forall>h k d. length (tp_hmac P h k d) = output_len h)"

lemma output_len_bounds [simp]: "0 < output_len h" "output_len h \<le> 64"
  by (cases h; simp)+

lemma length_hkdf_blocks: "hash_law P \<Longrightarrow> length (hkdf_blocks P h prk info prev i m) = m * output_len h"
  by (induction m arbitrary: prev i) (simp_all add: hash_law_def Let_def)

lemma hkdf_expand_ok:
  assumes "hash_law P" and "len \<le> 255"
  obtains x where "hkdf_expand P h prk info len = Inr x" and "length x = len"
proof -
  let ?n = "(len + output_len h - 1) div output_len h"
  have "len \<le> ?n * output_len h"
  proof -
    have "len + output_len h - 1 < (?n + 1) * output_len h"
      using dividend_less_div_times [of "output_len h" "len + output_len h - 1"] by simp
    then show ?thesis by simp
  qed
  moreover have "?n \<le> len"
  proof (cases "len = 0")
    case True
    then show ?thesis using output_len_bounds(1) [of h] by simp
  next
    case False
    have "len + output_len h - 1 \<le> len * output_len h"
    proof -
      obtain a b where "len = Suc a" "output_len h = Suc b" using False output_len_bounds(1) [of h] by (metis gr0_implies_Suc gr0I)
      then show ?thesis by simp
    qed
    then show ?thesis using div_le_mono [of "len + output_len h - 1" "len * output_len h" "output_len h"] output_len_bounds(1) [of h] by simp
  qed
  ultimately show thesis
    using that [of "take len (hkdf_blocks P h prk info [] 1 ?n)"] assms length_hkdf_blocks [OF assms(1), of h prk info "[]" 1 ?n]
    by (simp add: hkdf_expand_def Let_def)
qed

lemma hkdf_expand_label_ok:
  assumes "hash_law P" and "len \<le> 255"
  obtains x where "hkdf_expand_label P h secret label context len = Inr x" and "length x = len"
  using hkdf_expand_ok [OF assms] unfolding hkdf_expand_label_def Let_def by metis

lemma derive_secret_ok:
  assumes "hash_law P"
  obtains x where "derive_secret P h secret label messages = Inr x" and "length x = output_len h"
proof -
  have "output_len h \<le> 255" using output_len_bounds(2) [of h] by linarith
  from hkdf_expand_label_ok [OF assms this] show thesis using that unfolding derive_secret_def by metis
qed

lemma suite_lens: "suite_key_len cs \<le> 32" "suite_hash_len cs = output_len (suite_hash cs)" "suite_nonce_len cs = 12"
  by (cases cs; simp add: suite_key_len_def suite_hash_len_def suite_nonce_len_def)+

lemma derive_traffic_keys_ok:
  assumes "hash_law P"
  obtains key iv where "derive_traffic_keys P secret cs = Inr (key, iv)" and "length key = suite_key_len cs" and "length iv = 12"
proof -
  have l: "suite_key_len cs \<le> 255" "suite_nonce_len cs \<le> 255" using suite_lens [of cs] by simp_all
  obtain key where k: "hkdf_expand_label P (suite_hash cs) secret ''key'' [] (suite_key_len cs) = Inr key" "length key = suite_key_len cs"
    using hkdf_expand_label_ok [OF assms l(1)] .
  obtain iv where i: "hkdf_expand_label P (suite_hash cs) secret ''iv'' [] (suite_nonce_len cs) = Inr iv" "length iv = suite_nonce_len cs"
    using hkdf_expand_label_ok [OF assms l(2)] .
  show thesis using that [of key iv] k i suite_lens(3) [of cs] by (simp add: derive_traffic_keys_def)
qed

lemma derive_handshake_keys_ok:
  assumes "hash_law P" and "length shared = 32" and "length hh = suite_hash_len cs"
  obtains ks where "derive_handshake_keys P cs shared ch hh = Inr ks" and "length (master_secret ks) = suite_hash_len cs"
proof -
  let ?h = "suite_hash cs" and ?z = "replicate (suite_hash_len cs) 0" and ?e = "tp_digest P (suite_hash cs) []"
  obtain a where a: "derive_secret P ?h (hkdf_extract P ?h ?z ?z) ''derived'' ?e = Inr a"
    using derive_secret_ok [OF assms(1)] by blast
  let ?hs = "hkdf_extract P ?h a shared"
  obtain b where b: "derive_secret P ?h ?hs ''c hs traffic'' hh = Inr b" using derive_secret_ok [OF assms(1)] by blast
  obtain c where c: "derive_secret P ?h ?hs ''s hs traffic'' hh = Inr c" using derive_secret_ok [OF assms(1)] by blast
  obtain d where d: "derive_secret P ?h ?hs ''derived'' ?e = Inr d" using derive_secret_ok [OF assms(1)] by blast
  show thesis
    using that assms a b c d suite_lens(2) [of cs]
    by (simp add: derive_handshake_keys_def Let_def hkdf_extract_def hash_law_def)
qed

lemma derive_application_secrets_ok:
  assumes "hash_law P" and "length master = suite_hash_len cs" and "length hh = suite_hash_len cs"
  obtains c s where "derive_application_secrets P cs master hh = Inr (c, s)"
proof -
  obtain c where c: "derive_secret P (suite_hash cs) master ''c ap traffic'' hh = Inr c" using derive_secret_ok [OF assms(1)] by blast
  obtain d where d: "derive_secret P (suite_hash cs) master ''s ap traffic'' hh = Inr d" using derive_secret_ok [OF assms(1)] by blast
  show thesis using that [of c d] c d assms(2,3) by (simp add: derive_application_secrets_def)
qed

lemma compute_finished_ok:
  assumes "hash_law P"
  obtains v where "compute_finished_verify_data P cs k hh = Inr v" and "length v = output_len (suite_hash cs)"
proof -
  have "suite_hash_len cs \<le> 255" using suite_lens(2) [of cs] output_len_bounds(2) [of "suite_hash cs"] by linarith
  from hkdf_expand_label_ok [OF assms this] show thesis
    using that assms unfolding compute_finished_verify_data_def hash_law_def by (metis rbind.simps(2))
qed

section \<open>The server\<close>

text \<open>What the server keeps: its flight, the keys of both directions, and what it expects as the client's Finished.\<close>

record server_session =
  sv_hello :: bytes
  sv_flight :: bytes
  sv_wire :: bytes
  sv_expects :: bytes
  sv_client_hs_key :: aead_key
  sv_client_hs_iv :: bytes
  sv_client_key :: aead_key
  sv_client_iv :: bytes
  sv_server_key :: aead_key
  sv_server_iv :: bytes

definition reference_answer ::
  "tls_prims \<Rightarrow> cipher_suite \<Rightarrow> bytes \<Rightarrow> bytes \<Rightarrow> bytes \<Rightarrow> (bytes \<Rightarrow> bytes) \<Rightarrow> bytes \<Rightarrow> io_error + server_session" where
  "reference_answer P cs ephemeral server_random cert sign hello =
     rbind (extract_client_public_key hello) (\<lambda>client_public.
     rbind (extract_session_id_slice hello) (\<lambda>sid.
     rbind (ok_or (tp_public P ephemeral) (IoOther ''key'')) (\<lambda>server_public.
     rbind (ok_or (tp_agree P ephemeral client_public) (IoOther ''ecdh'')) (\<lambda>shared.
     let h = tp_digest P (suite_hash cs);
         ch = drop 5 hello;
         sh = construct_server_hello server_random sid (suite_id cs) server_public;
         start = construct_encrypted_extensions @ construct_certificate cert;
         cv = construct_certificate_verify sign (h (ch @ sh @ start))
     in rbind (derive_handshake_keys P cs shared (h ch) (h (ch @ sh))) (\<lambda>ks.
        rbind (compute_finished_verify_data P cs (server_handshake_traffic_secret ks) (h (ch @ sh @ start @ cv))) (\<lambda>verify_data.
        let flight = start @ cv @ construct_finished verify_data;
            hash = h (ch @ sh @ flight)
        in rbind (derive_traffic_keys P (server_handshake_traffic_secret ks) cs) (\<lambda>(hs_key, hs_iv).
           rbind (aead_key_new cs hs_key) (\<lambda>hs_aead.
           rbind (snd (encrypt_handshake True P hs_aead hs_iv \<lparr>rs_seq = 0, rs_out = []\<rparr> flight)) (\<lambda>_.
           let sealed_flight = rs_out (fst (encrypt_handshake True P hs_aead hs_iv \<lparr>rs_seq = 0, rs_out = []\<rparr> flight))
           in rbind (compute_finished_verify_data P cs (client_handshake_traffic_secret ks) hash) (\<lambda>client_verify.
              rbind (derive_traffic_keys P (client_handshake_traffic_secret ks) cs) (\<lambda>(chs_key, chs_iv).
              rbind (aead_key_new cs chs_key) (\<lambda>chs_aead.
              rbind (derive_application_secrets P cs (master_secret ks) hash) (\<lambda>(client_secret, server_secret).
              rbind (derive_traffic_keys P client_secret cs) (\<lambda>(client_key, client_iv).
              rbind (derive_traffic_keys P server_secret cs) (\<lambda>(server_key, server_iv).
              rbind (aead_key_new cs client_key) (\<lambda>client_aead.
              rbind (aead_key_new cs server_key) (\<lambda>server_aead.
              Inr \<lparr>sv_hello = sh, sv_flight = flight,
                   sv_wire = write_record_header 0x16 (of_nat (length sh)) @ sh @ [0x14, 3, 3, 0, 1, 1] @ sealed_flight,
                   sv_expects = construct_finished client_verify, sv_client_hs_key = chs_aead, sv_client_hs_iv = chs_iv,
                   sv_client_key = client_aead, sv_client_iv = client_iv,
                   sv_server_key = server_aead, sv_server_iv = server_iv\<rparr>)))))))))))))))))"

section \<open>Messages read back\<close>

lemma aead_key_new_ok: "length key = suite_key_len cs \<Longrightarrow> aead_key_new cs key = Inr \<lparr>ak_suite = cs, ak_bytes = key\<rparr>"
  by (simp add: aead_key_new_def)

lemma suite_from_id_id [simp]: "suite_from_id (suite_id cs) = Some cs"
  by (cases cs) (simp_all add: suite_from_id_def)

lemma server_hello_start_at:
  assumes "length hdr = 5" and "length rnd = 32" and "length sid = 32"
  shows "hello_start (hdr @ [2] @ be_bytes 3 w @ [3, 3] @ rnd @ [32] @ sid @ r) =
    Inr (at ([2] @ be_bytes 3 w @ [3, 3] @ rnd @ [32] @ sid) r)"
proof -
  have r24: "br_read_u24_be (at p (be_bytes 3 w @ r)) = Inr (from_be (0 # be_bytes 3 w), at (p @ be_bytes 3 w) r)" for p r
    by (simp add: at_def br_read_u24_be_def numeral_3_eq_3 index_def nth_append)
  have v: "br_read_u16_be (at p (3 # 3 # r)) = Inr (0x303, at (p @ [3, 3]) r)" for p r
  proof -
    have "be16 0x303 = [3, 3]" by code_simp
    then show ?thesis using at_reads(2) [of p "0x303" r] by simp
  qed
  show ?thesis using assms by (simp add: hello_start_def at_new r24 v del: append_Cons append_Nil)
      (simp add: r24 v)
qed

lemma extract_server_hello:
  assumes "length rnd = 32" and "length sid = 32" and "length pub = 32" and "length hdr = 5"
  shows "extract_server_public_key (hdr @ construct_server_hello rnd sid (suite_id cs) pub) = Inr pub"
    and "extract_server_cipher_suite (hdr @ construct_server_hello rnd sid (suite_id cs) pub) = Inr (suite_id cs)"
proof -
  let ?share = "[0, 0x1d] @ len16 (length pub) @ pub"
  let ?exts = "ext_bytes (43, [3, 4]) @ ext_bytes (51, ?share)"
  let ?tail = "be16 (suite_id cs) @ [0] @ len16 (length ?exts) @ ?exts"
  let ?w = "of_nat (67 + length ?tail) :: u32"
  have layout: "construct_server_hello rnd sid (suite_id cs) pub = [2] @ be_bytes 3 ?w @ [3, 3] @ rnd @ [32] @ sid @ ?tail"
    using assms(1-3) by (simp add: construct_server_hello_def Let_def ext_bytes_def be16_pair)
  let ?p = "[2] @ be_bytes 3 ?w @ [3, 3] @ rnd @ [32] @ sid"
  have start: "hello_start (hdr @ construct_server_hello rnd sid (suite_id cs) pub) = Inr (at ?p ?tail)"
    unfolding layout by (rule server_hello_start_at) (use assms in auto)
  show "extract_server_cipher_suite (hdr @ construct_server_hello rnd sid (suite_id cs) pub) = Inr (suite_id cs)"
    using start by (simp add: extract_server_cipher_suite_def)
  let ?q = "?p @ be16 (suite_id cs) @ [0] @ len16 (length ?exts)"
  have el: "length ?exts < 65536" using assms(3) by simp
  have "extract_server_public_key (hdr @ construct_server_hello rnd sid (suite_id cs) pub) =
      key_share_loop parse_server_keyshare_extension (length ?q + length ?exts) (at ?q ?exts)"
    using start unat_of_nat_u16 [OF el] by (simp add: extract_server_public_key_def)
  also have "\<dots> = parse_server_keyshare_extension ?share"
    using key_share_among [of "[(43, [3, 4])]" ?share ?q "length ?q + length ?exts" parse_server_keyshare_extension "[]"] assms(3)
    by simp
  also have "\<dots> = Inr pub" by (rule parse_server_share [OF assms(3)])
  finally show "extract_server_public_key (hdr @ construct_server_hello rnd sid (suite_id cs) pub) = Inr pub" .
qed

lemma index_u24_at:
  assumes "n < 16777216"
  shows "index_u24 (p @ be24 n @ r) (length p) = Inr n"
proof -
  let ?w = "of_nat n :: u32"
  have w: "unat ?w = n" using assms by (intro unat_of_nat_u32) simp
  then have "?w < 0x1000000" using assms by (simp add: word_less_nat_alt)
  from at_read_u24 [OF this, of p r] have "from_be (0 # be_bytes 3 ?w) = ?w"
    by (simp add: br_read_u24_be_def at_def numeral_3_eq_3 index_def nth_append)
  then show ?thesis using w by (simp add: index_u24_def numeral_3_eq_3 index_def nth_append)
qed

lemma extract_certificate:
  assumes "length cert < 10000"
  shows "extract_certificate_der (construct_certificate cert) = Inr cert"
proof -
  let ?p = "[11] @ be24 (length cert + 9) @ [0]" and ?l = "length cert + 5"
  have c: "construct_certificate cert = ?p @ be24 ?l @ be24 (length cert) @ cert @ [0, 0]"
    by (simp add: construct_certificate_def Let_def add.commute)
  have i1: "index_u24 (construct_certificate cert) 5 = Inr ?l"
    using index_u24_at [of ?l ?p] assms c by simp
  have i2: "index_u24 (construct_certificate cert) 8 = Inr (length cert)"
    using index_u24_at [of "length cert" "?p @ be24 ?l" "cert @ [0, 0]"] assms c by simp
  have "construct_certificate cert ! 4 = 0" "length (construct_certificate cert) = length cert + 13"
    unfolding c by (simp_all add: nth_append)
  then show ?thesis
    using i1 i2 assms by (simp add: extract_certificate_der_def Let_def) (simp add: c)
qed

lemma extract_cert_verify:
  assumes "length (sign (cert_verify_content hh)) = 64"
  shows "extract_certificate_verify_signature (construct_certificate_verify sign hh) = Inr (sign (cert_verify_content hh))"
proof -
  let ?s = "sign (cert_verify_content hh)" and ?p = "[15] @ be24 68"
  have c: "construct_certificate_verify sign hh = ?p @ be16 0x0807 @ be16 64 @ ?s"
    using assms by (simp add: construct_certificate_verify_def Let_def be16_pair)
  have i1: "index_u16 (construct_certificate_verify sign hh) 4 = Inr 0x0807"
    using index_u16_append [of ?p "0x0807" "be16 64 @ ?s"] c by simp
  have i2: "index_u16 (construct_certificate_verify sign hh) 6 = Inr 64"
    using index_u16_append [of "?p @ be16 0x0807" 64 ?s] c by simp
  have "length (construct_certificate_verify sign hh) = 72" "construct_certificate_verify sign hh ! 0 = 15"
    using assms unfolding c by simp_all
  then show ?thesis
    using i1 i2 assms by (simp add: extract_certificate_verify_signature_def) (simp add: c)
qed

section \<open>The loop over the messages\<close>

definition hs_message :: "u8 \<Rightarrow> bytes \<Rightarrow> bytes" where
  "hs_message t body = t # be24 (length body) @ body"

lemma length_hs_message [simp]: "length (hs_message t body) = 4 + length body"
  by (simp add: hs_message_def)

lemma scan_message_at:
  assumes "sc_offset s = length p" and "length body < 16777216" and "t \<noteq> 11"
  shows "scan_message P k (p @ hs_message t body @ r) s =
    Inr (Some (s\<lparr>sc_cv_offset := (if t = 15 then Some (length p) else sc_cv_offset s), sc_found := sc_found s + 1,
      sc_offset := length p + 4 + length body\<rparr>))"
proof -
  have "index (p @ hs_message t body @ r) (length p) = Inr t" by (simp add: hs_message_def index_def nth_append)
  moreover have "index_u24 (p @ hs_message t body @ r) (length p + 1) = Inr (length body)"
    using index_u24_at [OF assms(2), of "p @ [t]" "body @ r"] by (simp add: hs_message_def)
  ultimately show ?thesis using assms(1,3) by (cases s) (simp add: scan_message_def Let_def)
qed

lemma scan_certificate_at:
  assumes "sc_offset s = length p" and "length cert < 10000"
    and "tp_x509 P cert = Some (pk, tp_hmac P SHA512 k pk)" and "length pk = 32" and "hash_law P"
  shows "scan_message P k (p @ construct_certificate cert @ r) s =
    Inr (Some (s\<lparr>sc_ed_key := Some pk, sc_cert_verified := True, sc_found := sc_found s + 1,
      sc_offset := length p + (length cert + 13)\<rparr>))"
proof -
  have m: "construct_certificate cert = hs_message 11 ([0] @ be24 (5 + length cert) @ be24 (length cert) @ cert @ [0, 0])"
    by (simp add: construct_certificate_def hs_message_def Let_def)
  have len: "length (construct_certificate cert) = length cert + 13" unfolding m by simp
  have "index (p @ construct_certificate cert @ r) (length p) = Inr 11" unfolding m by (simp add: hs_message_def index_def nth_append)
  moreover have "index_u24 (p @ construct_certificate cert @ r) (length p + 1) = Inr (length cert + 9)"
    using index_u24_at [of "length cert + 9" "p @ [11]"] assms(2) unfolding m by (simp add: hs_message_def add.commute)
  moreover have "slice (p @ construct_certificate cert @ r) (length p) (length p + 4 + (length cert + 9)) = Inr (construct_certificate cert)"
    using len by (intro slice_append) simp
  moreover have "verify_certificate_hmac P cert k = Inr ()" "extract_ed25519_public_key P cert = Inr pk"
    using assms(3-5) by (simp_all add: verify_certificate_hmac_def extract_ed25519_public_key_def hash_law_def)
  moreover have "(11 :: u8) \<noteq> 15" by simp
  ultimately show ?thesis
    using assms(1) len extract_certificate [OF assms(2)] by (cases s) (simp add: scan_message_def Let_def add.commute add.left_commute)
qed

lemma scan_messages_step:
  assumes "scan_message P k acc s = Inr (Some s')" and "sc_found s < 4"
  shows "scan_messages P k acc s = scan_messages P k acc s'"
proof -
  have "sc_offset s < length acc" using scan_message_offset [OF assms(1)] by simp
  then show ?thesis using assms by (subst scan_messages.simps) simp
qed

lemma scan_messages_stop: "\<not> sc_found s < 4 \<Longrightarrow> scan_messages P k acc s = Inr s"
  by (subst scan_messages.simps) simp

text \<open>The whole flight in one record.\<close>

lemma scan_flight:
  assumes "length cert < 10000" and "tp_x509 P cert = Some (pk, tp_hmac P SHA512 k pk)" and "length pk = 32" and "hash_law P"
    and "length (sign (cert_verify_content hh)) = 64" and "length v < 1000"
    and "flight = construct_encrypted_extensions @ construct_certificate cert @ construct_certificate_verify sign hh @ construct_finished v"
  shows "scan_messages P k flight \<lparr>sc_offset = 0, sc_found = 0, sc_cert_verified = False, sc_ed_key = None, sc_cv_offset = None\<rparr>
    = Inr \<lparr>sc_offset = length flight, sc_found = 4, sc_cert_verified = True, sc_ed_key = Some pk, sc_cv_offset = Some (length cert + 19)\<rparr>"
proof -
  let ?ee = construct_encrypted_extensions and ?ce = "construct_certificate cert" and ?cv = "construct_certificate_verify sign hh"
    and ?fin = "construct_finished v"
  have ee: "?ee = hs_message 8 [0, 0]" by (simp add: construct_encrypted_extensions_def hs_message_def numeral_3_eq_3 be16_pair)
  obtain b where cv: "?cv = hs_message 15 b" "length b = 68"
    using assms(5) by (simp add: construct_certificate_verify_def hs_message_def Let_def)
  have fin: "?fin = hs_message 20 v" by (simp add: construct_finished_def hs_message_def)
  have lens: "length ?ee = 6" "length ?ce = length cert + 13" "length ?cv = 72" "length ?fin = 4 + length v"
    unfolding ee cv(1) fin using cv(2) by (simp_all add: construct_certificate_def Let_def)
  have fl: "length flight = length cert + 95 + length v" using lens unfolding assms(7) by simp
  define s0 where "s0 = \<lparr>sc_offset = 0, sc_found = 0, sc_cert_verified = False, sc_ed_key = None :: bytes option, sc_cv_offset = None :: nat option\<rparr>"
  define s1 where "s1 = s0\<lparr>sc_found := 1, sc_offset := 6\<rparr>"
  define s2 where "s2 = s1\<lparr>sc_ed_key := Some pk, sc_cert_verified := True, sc_found := 2, sc_offset := length cert + 19\<rparr>"
  define s3 where "s3 = s2\<lparr>sc_cv_offset := Some (length cert + 19), sc_found := 3, sc_offset := length cert + 91\<rparr>"
  define s4 where "s4 = s3\<lparr>sc_found := 4, sc_offset := length flight\<rparr>"
  have "scan_message P k flight s0 = Inr (Some s1)"
    using scan_message_at [of s0 "[]" "[0, 0]" 8 P k "?ce @ ?cv @ ?fin"] unfolding assms(7) ee by (simp add: s0_def s1_def)
  moreover have "scan_message P k flight s1 = Inr (Some s2)"
    using scan_certificate_at [of s1 ?ee cert P pk k "?cv @ ?fin"] assms(1-4) lens(1) unfolding assms(7) by (simp add: s0_def s1_def s2_def)
  moreover have "scan_message P k flight s2 = Inr (Some s3)"
    using scan_message_at [of s2 "?ee @ ?ce" b 15 P k ?fin] lens(1,2) cv unfolding assms(7) by (simp add: s0_def s1_def s2_def s3_def)
  moreover have "scan_message P k flight s3 = Inr (Some s4)"
    using scan_message_at [of s3 "?ee @ ?ce @ ?cv" v 20 P k "[]"] lens fin assms(6) fl
    by (simp add: s4_def, simp add: assms(7) s0_def s1_def s2_def s3_def)
  ultimately have "scan_messages P k flight s0 = scan_messages P k flight s4"
    by (simp add: scan_messages_step s0_def s1_def s2_def s3_def)
  also have "\<dots> = Inr s4" by (rule scan_messages_stop) (simp add: s4_def)
  finally show ?thesis by (simp add: s0_def s1_def s2_def s3_def s4_def)
qed

section \<open>The client meets the server\<close>

lemma record_aad: "n < 65536 \<Longrightarrow> [0x17, 3, 3, ucast (drop_bit 8 (of_nat n :: u16)), ucast ((of_nat n :: u16) AND 0xff)] = make_record_header n"
proof -
  assume n: "n < 65536"
  have "ucast ((of_nat n :: u16) AND 0xff) = (ucast (of_nat n :: u16) :: u8)"
  proof -
    have m: "(0xff :: u16) = mask 8" by (simp add: mask_eq_exp_minus_1)
    show ?thesis unfolding m by (rule bit_word_eqI) (auto simp: bit_simps)
  qed
  then show ?thesis using record_header_length [OF n] by (simp add: be16_pair)
qed

lemma decrypt_handshake_ok:
  assumes "aead_law P" and "length key = suite_key_len cs" and "length iv = 12" and "length d \<le> 16384"
  shows "decrypt_handshake_message P cs key iv seq (drop 5 (wire_record P \<lparr>ak_suite = cs, ak_bytes = key\<rparr> iv seq (d @ [0x16])))
    (of_nat (length d + 17)) = Inr d"
proof -
  let ?k = "\<lparr>ak_suite = cs, ak_bytes = key\<rparr>"
  have ok: "key_ok ?k iv" using assms(2,3) by (simp add: key_ok_def)
  have len: "length (d @ [0x16]) \<le> 16624" using assms(4) by simp
  obtain ct where ct: "wire_record P ?k iv seq (d @ [0x16]) = make_record_header (length d + 17) @ ct"
    "open_in_place_slice P ?k ct iv seq (make_record_header (length d + 17)) = Inr (d @ [0x16])"
    using wire_record_ok [OF assms(1) ok len, of seq] by (auto simp: add.commute)
  have "pop_zeros (d @ [0x16]) = d @ [0x16]" using pop_zeros_snoc [of "0x16" d 0] by simp
  then have "strip_content_type_with_padding (d @ [0x16]) = Inr (0x16, d)"
    by (simp add: strip_content_type_with_padding_def Let_def known_content_type_def)
  then show ?thesis
    using ct record_aad [of "length d + 17"] assms(2,4)
    by (simp add: decrypt_handshake_message_def Let_def aead_key_new_ok)
qed

lemma check_cert_verify_ok:
  assumes "ph_ed_key ph = Some pk" and "ph_cv_offset ph = Some (length start)"
    and "ph_accumulated ph = start @ construct_certificate_verify sign hh @ rest"
    and "hh = tp_digest P (suite_hash (ph_suite ph)) (ph_transcript ph @ start)"
    and "\<And>m. tp_verify P pk m (sign m) \<and> length (sign m) = 64"
  shows "check_cert_verify P ph = Inr ()"
proof -
  let ?cv = "construct_certificate_verify sign hh"
  obtain b where cv: "?cv = [15] @ be24 (length b) @ b" "length b = 68"
    using assms(5) by (simp add: construct_certificate_verify_def Let_def)
  have "slice (ph_accumulated ph) 0 (length start) = Inr start" unfolding assms(3) by simp
  moreover have "index_u24 (ph_accumulated ph) (length start + 1) = Inr 68"
    using index_u24_at [of 68 "start @ [15]" "b @ rest"] cv unfolding assms(3) by simp
  moreover have "slice (ph_accumulated ph) (length start) (length start + 4 + 68) = Inr ?cv"
    unfolding assms(3) by (rule slice_append) (simp add: cv)
  ultimately show ?thesis
    using assms(1,2,4) assms(5) [of "cert_verify_content hh"] extract_cert_verify [of sign hh]
    by (simp add: check_cert_verify_def verify_certificate_verify_signature_def)
qed

lemma encrypt_handshake_ok:
  assumes "aead_law P" and "key_ok k iv" and "d \<noteq> []" and "length d \<le> 16384"
  shows "encrypt_handshake dbg P k iv \<lparr>rs_seq = 0, rs_out = out\<rparr> d =
    (\<lparr>rs_seq = 1, rs_out = out @ wire_record P k iv 0 (d @ [0x16])\<rparr>, Inr ())"
proof -
  have "snd (encrypt_record_in_place dbg P k iv \<lparr>rs_seq = 0, rs_out = out\<rparr> d 0x16) =
      (\<lparr>rs_seq = 1, rs_out = out @ wire_record P k iv 0 (d @ [0x16])\<rparr>, Inr ())"
    unfolding encrypt_record_in_place_def by (subst sealed_ok) (use assms in simp_all)
  then show ?thesis using assms(3,4) by (simp only: encrypt_handshake_def if_False if_True)
qed

text \<open>The answer exists, and its parts are what the client will compute.\<close>

lemma reference_answer_ok:
  assumes laws: "aead_law P" "kex_law P" "hash_law P"
    and hello: "extract_client_public_key hello = Inr cpub" "extract_session_id_slice hello = Inr sid" "drop 5 hello = ch"
    and lens: "length sid = 32" "length priv = 32" "length eph = 32" "length cert < 10000" "\<And>m. length (sign m) = 64"
    and cpub: "tp_public P priv = Some cpub"
  obtains sv ks spub shared hk hiv v cv chk sec_c sec_s ck sk where
    "reference_answer P cs eph srnd cert sign hello = Inr sv"
    and "tp_agree P priv spub = Some shared" and "length spub = 32"
    and "sv_hello sv = construct_server_hello srnd sid (suite_id cs) spub"
    and "derive_handshake_keys P cs shared (tp_digest P (suite_hash cs) ch) (tp_digest P (suite_hash cs) (ch @ sv_hello sv)) = Inr ks"
    and "sv_flight sv = construct_encrypted_extensions @ construct_certificate cert @
      construct_certificate_verify sign (tp_digest P (suite_hash cs) (ch @ sv_hello sv @ construct_encrypted_extensions @ construct_certificate cert))
      @ construct_finished v"
    and "length v \<le> 64"
    and "derive_traffic_keys P (server_handshake_traffic_secret ks) cs = Inr (hk, hiv)" and "length hk = suite_key_len cs" and "length hiv = 12"
    and "sv_wire sv = write_record_header 0x16 (of_nat (length (sv_hello sv))) @ sv_hello sv @ [0x14, 3, 3, 0, 1, 1]
      @ wire_record P \<lparr>ak_suite = cs, ak_bytes = hk\<rparr> hiv 0 (sv_flight sv @ [0x16])"
    and "compute_finished_verify_data P cs (client_handshake_traffic_secret ks) (tp_digest P (suite_hash cs) (ch @ sv_hello sv @ sv_flight sv)) = Inr cv"
    and "length cv \<le> 64" and "sv_expects sv = construct_finished cv"
    and "derive_traffic_keys P (client_handshake_traffic_secret ks) cs = Inr (chk, sv_client_hs_iv sv)"
    and "length chk = suite_key_len cs" and "sv_client_hs_key sv = \<lparr>ak_suite = cs, ak_bytes = chk\<rparr>" and "length (sv_client_hs_iv sv) = 12"
    and "derive_application_secrets P cs (master_secret ks) (tp_digest P (suite_hash cs) (ch @ sv_hello sv @ sv_flight sv)) = Inr (sec_c, sec_s)"
    and "derive_traffic_keys P sec_c cs = Inr (ck, sv_client_iv sv)" and "length ck = suite_key_len cs"
    and "sv_client_key sv = \<lparr>ak_suite = cs, ak_bytes = ck\<rparr>" and "length (sv_client_iv sv) = 12"
    and "derive_traffic_keys P sec_s cs = Inr (sk, sv_server_iv sv)" and "length sk = suite_key_len cs"
    and "sv_server_key sv = \<lparr>ak_suite = cs, ak_bytes = sk\<rparr>" and "length (sv_server_iv sv) = 12"
proof -
  let ?h = "tp_digest P (suite_hash cs)" and ?start = "construct_encrypted_extensions @ construct_certificate cert"
  obtain spub where spub: "tp_public P eph = Some spub" "length spub = 32" using laws(2) lens(3) by (auto simp: kex_law_def)
  obtain shared where sh: "tp_agree P priv spub = Some shared" "tp_agree P eph cpub = Some shared" "length shared = 32"
    using laws(2) lens(2,3) cpub spub(1) unfolding kex_law_def by metis
  let ?sh = "construct_server_hello srnd sid (suite_id cs) spub"
  let ?cv = "construct_certificate_verify sign (?h (ch @ ?sh @ ?start))"
  have hl: "length (?h d) = suite_hash_len cs" for d using laws(3) suite_lens(2) [of cs] by (simp add: hash_law_def)
  obtain ks where ks: "derive_handshake_keys P cs shared (?h ch) (?h (ch @ ?sh)) = Inr ks" "length (master_secret ks) = suite_hash_len cs"
    using derive_handshake_keys_ok [OF laws(3) sh(3) hl] by blast
  obtain v where v: "compute_finished_verify_data P cs (server_handshake_traffic_secret ks) (?h (ch @ ?sh @ ?start @ ?cv)) = Inr v"
      "length v = output_len (suite_hash cs)"
    using compute_finished_ok [OF laws(3)] by blast
  let ?flight = "?start @ ?cv @ construct_finished v"
  let ?hash = "?h (ch @ ?sh @ ?flight)"
  obtain hk hiv where hk: "derive_traffic_keys P (server_handshake_traffic_secret ks) cs = Inr (hk, hiv)" "length hk = suite_key_len cs" "length hiv = 12"
    using derive_traffic_keys_ok [OF laws(3)] by blast
  obtain cv where cv: "compute_finished_verify_data P cs (client_handshake_traffic_secret ks) ?hash = Inr cv" "length cv = output_len (suite_hash cs)"
    using compute_finished_ok [OF laws(3)] by blast
  obtain chk chiv where chk: "derive_traffic_keys P (client_handshake_traffic_secret ks) cs = Inr (chk, chiv)" "length chk = suite_key_len cs" "length chiv = 12"
    using derive_traffic_keys_ok [OF laws(3)] by blast
  obtain sec_c sec_s where sec: "derive_application_secrets P cs (master_secret ks) ?hash = Inr (sec_c, sec_s)"
    using derive_application_secrets_ok [OF laws(3) ks(2) hl] by blast
  obtain ck civ where ck: "derive_traffic_keys P sec_c cs = Inr (ck, civ)" "length ck = suite_key_len cs" "length civ = 12"
    using derive_traffic_keys_ok [OF laws(3)] by blast
  obtain sk siv where sk: "derive_traffic_keys P sec_s cs = Inr (sk, siv)" "length sk = suite_key_len cs" "length siv = 12"
    using derive_traffic_keys_ok [OF laws(3)] by blast
  have v64: "length v \<le> 64" "length cv \<le> 64" using v(2) cv(2) output_len_bounds(2) by simp_all
  have enc: "encrypt_handshake True P \<lparr>ak_suite = cs, ak_bytes = hk\<rparr> hiv \<lparr>rs_seq = 0, rs_out = []\<rparr> ?flight =
      (\<lparr>rs_seq = 1, rs_out = [] @ wire_record P \<lparr>ak_suite = cs, ak_bytes = hk\<rparr> hiv 0 (?flight @ [0x16])\<rparr>, Inr ())"
    by (rule encrypt_handshake_ok) (use laws(1) hk(2,3) lens(4,5) v64(1) in \<open>simp_all add: key_ok_def
      construct_encrypted_extensions_def construct_certificate_def construct_certificate_verify_def construct_finished_def Let_def\<close>)
  let ?sv = "\<lparr>sv_hello = ?sh, sv_flight = ?flight,
     sv_wire = write_record_header 0x16 (of_nat (length ?sh)) @ ?sh @ [0x14, 3, 3, 0, 1, 1]
       @ wire_record P \<lparr>ak_suite = cs, ak_bytes = hk\<rparr> hiv 0 (?flight @ [0x16]),
     sv_expects = construct_finished cv, sv_client_hs_key = \<lparr>ak_suite = cs, ak_bytes = chk\<rparr>, sv_client_hs_iv = chiv,
     sv_client_key = \<lparr>ak_suite = cs, ak_bytes = ck\<rparr>, sv_client_iv = civ,
     sv_server_key = \<lparr>ak_suite = cs, ak_bytes = sk\<rparr>, sv_server_iv = siv\<rparr>"
  have "reference_answer P cs eph srnd cert sign hello = Inr ?sv"
    unfolding reference_answer_def Let_def
    using hello spub(1) sh(2) ks(1) v(1) hk enc cv(1) chk sec ck sk
    by (simp add: aead_key_new_ok del: append_assoc)
  then show thesis
    by (rule that [where spub = spub and shared = shared and ks = ks and v = v and hk = hk and hiv = hiv and cv = cv and chk = chk
          and sec_c = sec_c and sec_s = sec_s and ck = ck and sk = sk])
      (use spub sh(1) ks(1) v64 hk cv(1) chk sec ck sk in \<open>simp_all\<close>)
qed

text \<open>The ServerHello record.\<close>

definition handshake_start :: "bytes \<Rightarrow> bytes \<Rightarrow> cipher_suite \<Rightarrow> tls13_handshake_keys \<Rightarrow> bytes \<Rightarrow> processing" where
  "handshake_start ch sh cs ks auth_key =
     \<lparr>ph_client_secret = client_handshake_traffic_secret ks, ph_server_secret = server_handshake_traffic_secret ks,
      ph_master_secret = master_secret ks, ph_suite = cs, ph_transcript = ch @ sh, ph_auth_key = auth_key, ph_seq = 0,
      ph_accumulated = [], ph_found = 0, ph_cert_verified = False, ph_ed_key = None, ph_cv_offset = None\<rparr>"

lemma after_server_hello_ok:
  assumes "length hdr = 5" and "length srnd = 32" and "length sid = 32" and "length spub = 32"
    and "sh = construct_server_hello srnd sid (suite_id cs) spub"
    and "tp_public P priv = Some cpub" and "tp_agree P priv spub = Some shared"
    and "derive_handshake_keys P cs shared (tp_digest P (suite_hash cs) ch) (tp_digest P (suite_hash cs) (ch @ sh)) = Inr ks"
  shows "after_server_hello P ch priv auth_key (hdr @ sh) = Inr (handshake_start ch sh cs ks auth_key)"
proof -
  have "slice (hdr @ sh) 5 (length (hdr @ sh)) = Inr sh" using assms(1) by (simp add: slice_def)
  moreover have "extract_server_public_key (hdr @ sh) = Inr spub" "extract_server_cipher_suite (hdr @ sh) = Inr (suite_id cs)"
    using extract_server_hello [OF assms(2-4,1)] assms(5) by simp_all
  ultimately show ?thesis using assms(6-8) by (simp add: after_server_hello_def handshake_start_def)
qed

text \<open>The record with the rest of the flight completes the handshake.\<close>

definition completed :: "tls_prims \<Rightarrow> cipher_suite \<Rightarrow> server_session \<Rightarrow> reality_conn \<Rightarrow> reality_conn" where
  "completed P cs sv c = c\<lparr>ciphertext_write_buf := ciphertext_write_buf c
         @ wire_record P (sv_client_hs_key sv) (sv_client_hs_iv sv) 0 (sv_expects sv @ [0x16]),
       app_read_key := Some (sv_server_key sv), app_read_iv := Some (sv_server_iv sv),
       app_write_key := Some (sv_client_key sv), app_write_iv := Some (sv_client_iv sv),
       read_seq := 0, write_seq := 0, conn_suite := Some cs, handshake_state := Complete\<rparr>"

lemma complete_handshake_ok:
  assumes "aead_law P" and "ph_suite ph = cs" and "hash = tp_digest P (suite_hash cs) (ph_transcript ph @ ph_accumulated ph)"
    and "compute_finished_verify_data P cs (ph_client_secret ph) hash = Inr cv" and "length cv \<le> 64"
    and "sv_expects sv = construct_finished cv"
    and "derive_traffic_keys P (ph_client_secret ph) cs = Inr (chk, sv_client_hs_iv sv)" and "length chk = suite_key_len cs"
    and "sv_client_hs_key sv = \<lparr>ak_suite = cs, ak_bytes = chk\<rparr>" and "length (sv_client_hs_iv sv) = 12"
    and "derive_application_secrets P cs (ph_master_secret ph) hash = Inr (sec_c, sec_s)"
    and "derive_traffic_keys P sec_c cs = Inr (ck, sv_client_iv sv)" and "length ck = suite_key_len cs"
    and "sv_client_key sv = \<lparr>ak_suite = cs, ak_bytes = ck\<rparr>"
    and "derive_traffic_keys P sec_s cs = Inr (sk, sv_server_iv sv)" and "length sk = suite_key_len cs"
    and "sv_server_key sv = \<lparr>ak_suite = cs, ak_bytes = sk\<rparr>"
  shows "complete_handshake dbg P ph c = (completed P cs sv c, Inr True)"
proof -
  have "encrypt_handshake dbg P (sv_client_hs_key sv) (sv_client_hs_iv sv) \<lparr>rs_seq = 0, rs_out = ciphertext_write_buf c\<rparr> (sv_expects sv) =
      (\<lparr>rs_seq = 1, rs_out = ciphertext_write_buf c @ wire_record P (sv_client_hs_key sv) (sv_client_hs_iv sv) 0 (sv_expects sv @ [0x16])\<rparr>, Inr ())"
    by (rule encrypt_handshake_ok) (use assms(1,5,6,8-10) in \<open>simp_all add: key_ok_def construct_finished_def\<close>)
  then show ?thesis
    using assms by (simp add: complete_handshake_def completed_def Let_def try_with_def aead_key_new_ok)
qed

text \<open>
  What the client needs of the server's records: \<open>r1\<close> brings it past the ServerHello, \<open>r2\<close> completes the handshake.
\<close>

definition answers :: "tls_prims \<Rightarrow> bytes \<Rightarrow> bytes \<Rightarrow> bytes \<Rightarrow> bytes \<Rightarrow> bytes \<Rightarrow> processing \<Rightarrow> (reality_conn \<Rightarrow> reality_conn) \<Rightarrow> bool" where
  "answers P ch priv auth_key r1 r2 ph finish \<longleftrightarrow>
     (\<exists>x. r1 = [0x16, 3, 3] @ len16 (length x) @ x \<and> length x < 1000)
     \<and> after_server_hello P ch priv auth_key r1 = Inr ph
     \<and> (\<exists>hk hiv ct. derive_traffic_keys P (ph_server_secret ph) (ph_suite ph) = Inr (hk, hiv)
          \<and> r2 = make_record_header (length ct) @ ct \<and> length ct \<le> 16401
          \<and> (\<forall>dbg c. on_handshake_record dbg P ph hk hiv ct (of_nat (length ct)) c = (finish c, Inr True)))"

lemma reference_answers:
  assumes laws: "aead_law P" "kex_law P" "hash_law P"
    and hello: "extract_client_public_key hello = Inr cpub" "extract_session_id_slice hello = Inr sid" "drop 5 hello = ch"
    and lens: "length sid = 32" "length priv = 32" "length eph = 32" "length cert < 10000" "length srnd = 32" "length pk = 32"
    and cpub: "tp_public P priv = Some cpub"
    and cert: "tp_x509 P cert = Some (pk, tp_hmac P SHA512 auth_key pk)"
    and sign: "\<And>m. tp_verify P pk m (sign m) \<and> length (sign m) = 64"
  obtains sv r1 r2 ph where "reference_answer P cs eph srnd cert sign hello = Inr sv"
    and "sv_wire sv = r1 @ [0x14, 3, 3, 0, 1, 1] @ r2" and "answers P ch priv auth_key r1 r2 ph (completed P cs sv)"
    and "key_ok (sv_client_hs_key sv) (sv_client_hs_iv sv)" and "key_ok (sv_client_key sv) (sv_client_iv sv)"
    and "key_ok (sv_server_key sv) (sv_server_iv sv)" and "length (sv_expects sv) \<le> 68"
proof -
  have sl: "\<And>m. length (sign m) = 64" using sign by blast
  obtain sv ks spub shared hk hiv v cv chk sec_c sec_s ck sk where
    sv: "reference_answer P cs eph srnd cert sign hello = Inr sv"
    and kex: "tp_agree P priv spub = Some shared" "length spub = 32"
    and sh: "sv_hello sv = construct_server_hello srnd sid (suite_id cs) spub"
    and ks: "derive_handshake_keys P cs shared (tp_digest P (suite_hash cs) ch) (tp_digest P (suite_hash cs) (ch @ sv_hello sv)) = Inr ks"
    and fl: "sv_flight sv = construct_encrypted_extensions @ construct_certificate cert @
      construct_certificate_verify sign (tp_digest P (suite_hash cs) (ch @ sv_hello sv @ construct_encrypted_extensions @ construct_certificate cert))
      @ construct_finished v" "length v \<le> 64"
    and hk: "derive_traffic_keys P (server_handshake_traffic_secret ks) cs = Inr (hk, hiv)" "length hk = suite_key_len cs" "length hiv = 12"
    and wire: "sv_wire sv = write_record_header 0x16 (of_nat (length (sv_hello sv))) @ sv_hello sv @ [0x14, 3, 3, 0, 1, 1]
      @ wire_record P \<lparr>ak_suite = cs, ak_bytes = hk\<rparr> hiv 0 (sv_flight sv @ [0x16])"
    and cv: "compute_finished_verify_data P cs (client_handshake_traffic_secret ks) (tp_digest P (suite_hash cs) (ch @ sv_hello sv @ sv_flight sv)) = Inr cv"
      "length cv \<le> 64" "sv_expects sv = construct_finished cv"
    and chk: "derive_traffic_keys P (client_handshake_traffic_secret ks) cs = Inr (chk, sv_client_hs_iv sv)"
      "length chk = suite_key_len cs" "sv_client_hs_key sv = \<lparr>ak_suite = cs, ak_bytes = chk\<rparr>" "length (sv_client_hs_iv sv) = 12"
    and sec: "derive_application_secrets P cs (master_secret ks) (tp_digest P (suite_hash cs) (ch @ sv_hello sv @ sv_flight sv)) = Inr (sec_c, sec_s)"
    and ck: "derive_traffic_keys P sec_c cs = Inr (ck, sv_client_iv sv)" "length ck = suite_key_len cs"
      "sv_client_key sv = \<lparr>ak_suite = cs, ak_bytes = ck\<rparr>" "length (sv_client_iv sv) = 12"
    and sk: "derive_traffic_keys P sec_s cs = Inr (sk, sv_server_iv sv)" "length sk = suite_key_len cs"
      "sv_server_key sv = \<lparr>ak_suite = cs, ak_bytes = sk\<rparr>" "length (sv_server_iv sv) = 12"
    by (rule reference_answer_ok [OF laws hello lens(1-4) sl cpub, where cs = cs and srnd = srnd])
  let ?r1 = "write_record_header 0x16 (of_nat (length (sv_hello sv))) @ sv_hello sv"
  let ?key = "\<lparr>ak_suite = cs, ak_bytes = hk\<rparr>"
  let ?r2 = "wire_record P ?key hiv 0 (sv_flight sv @ [0x16])"
  let ?ph = "handshake_start ch (sv_hello sv) cs ks auth_key" and ?start = "construct_encrypted_extensions @ construct_certificate cert"
  let ?hh = "tp_digest P (suite_hash cs) (ch @ sv_hello sv @ ?start)"
  have ph: "after_server_hello P ch priv auth_key ?r1 = Inr ?ph"
    by (rule after_server_hello_ok) (use lens kex sh cpub ks in simp_all)
  have flen: "length (sv_flight sv) \<le> 16384"
    using lens(4) sl fl by (simp add: construct_encrypted_extensions_def construct_certificate_def construct_certificate_verify_def
        construct_finished_def Let_def)
  have "key_ok ?key hiv" using hk by (simp add: key_ok_def)
  then obtain ct where ct: "?r2 = make_record_header (length ct) @ ct" "length ct = length (sv_flight sv) + 17"
    using wire_record_ok [OF laws(1), of ?key hiv "sv_flight sv @ [0x16]" 0] flen by (auto simp: add.commute)
  have dec: "decrypt_handshake_message P cs hk hiv 0 ct (of_nat (length ct)) = Inr (sv_flight sv)"
    using decrypt_handshake_ok [OF laws(1) hk(2,3) flen, of 0] ct by simp
  let ?s = "\<lparr>sc_offset = length (sv_flight sv), sc_found = 4, sc_cert_verified = True, sc_ed_key = Some pk, sc_cv_offset = Some (length cert + 19)\<rparr>"
  have scan: "scan_messages P auth_key (sv_flight sv) \<lparr>sc_offset = 0, sc_found = 0, sc_cert_verified = False, sc_ed_key = None, sc_cv_offset = None\<rparr>
      = Inr ?s"
    by (rule scan_flight [OF lens(4) cert lens(6) laws(3) sl _ fl(1)]) (use fl(2) in simp)
  let ?ph4 = "?ph\<lparr>ph_seq := 1, ph_accumulated := sv_flight sv, ph_found := 4, ph_cert_verified := True, ph_ed_key := Some pk,
    ph_cv_offset := Some (length cert + 19)\<rparr>"
  have "length ?start = length cert + 19" by (simp add: construct_encrypted_extensions_def construct_certificate_def Let_def)
  then have ccv: "check_cert_verify P ?ph4 = Inr ()"
    by (intro check_cert_verify_ok [where start = ?start and sign = sign and hh = ?hh and pk = pk and rest = "construct_finished v"])
      (use fl sign in \<open>simp_all add: handshake_start_def\<close>)
  have fin: "complete_handshake dbg P ?ph4 c = (completed P cs sv c, Inr True)" for dbg c
    by (rule complete_handshake_ok [OF laws(1) _ refl _ cv(2,3) _ chk(2,3,4) _ ck(1,2,3) sk(1,2,3)])
      (use cv(1) chk(1) sec in \<open>simp_all add: handshake_start_def\<close>)
  have "on_handshake_record dbg P ?ph hk hiv ct (of_nat (length ct)) c = (completed P cs sv c, Inr True)" for dbg c
    using dec scan ccv fin [of dbg c] by (simp add: on_handshake_record_def handshake_start_def try_with_def Let_def)
  moreover have "?r1 = [0x16, 3, 3] @ len16 (length (sv_hello sv)) @ sv_hello sv" by (simp add: write_record_header_def be16_pair)
  moreover have "length (sv_hello sv) < 1000" unfolding sh using lens kex by (simp add: construct_server_hello_def Let_def)
  moreover have "derive_traffic_keys P (ph_server_secret ?ph) (ph_suite ?ph) = Inr (hk, hiv)" using hk by (simp add: handshake_start_def)
  moreover have "length ct \<le> 16401" using ct(2) flen by simp
  ultimately have "answers P ch priv auth_key ?r1 ?r2 ?ph (completed P cs sv)"
    using ph ct(1) unfolding answers_def by blast
  then show thesis
    by (rule that [OF sv, rotated]) (use wire chk ck sk cv in \<open>simp_all add: key_ok_def construct_finished_def\<close>)
qed

end
