(* ===== verification/RealityConnect.thy ===== *)
theory RealityConnect
  imports RealityShake
begin

text \<open>
  \<open>reality_connect\<close> with a server that follows the protocol: whatever segments the server's bytes arrive in and
  however few bytes the transport takes per write, the handshake completes, both ends hold the same keys, and
  the application data behind the handshake comes out of the stream.
\<close>

section \<open>Writing to an accepting transport\<close>

text \<open>The transport takes at least one byte in each of the next \<open>m\<close> writes.\<close>

definition accepting :: "nat \<Rightarrow> transport \<Rightarrow> bool" where
  "accepting m t \<longleftrightarrow> m \<le> length (replies t) \<and> (\<forall>r \<in> set (replies t). \<exists>n. r = Accept (Suc n))"

lemma write_all_accepting:
  assumes "accepting (length buf + m) t"
  obtains rs where "write_all buf t = (PollReady (Inr ()), t\<lparr>replies := rs, sent := sent t @ buf\<rparr>)"
    and "accepting m (t\<lparr>replies := rs, sent := sent t @ buf\<rparr>)"
proof -
  have "\<exists>rs. write_all buf t = (PollReady (Inr ()), t\<lparr>replies := rs, sent := sent t @ buf\<rparr>)
      \<and> accepting m (t\<lparr>replies := rs, sent := sent t @ buf\<rparr>)"
    using assms
  proof (induction buf t rule: write_all.induct)
    case (1 buf t)
    show ?case
    proof (cases "buf = []")
      case True
      then show ?thesis using "1.prems" by (subst write_all.simps) (auto intro!: exI [of _ "replies t"])
    next
      case False
      then obtain n rs where r: "replies t = Accept (Suc n) # rs"
        using "1.prems" by (cases "replies t") (auto simp: accepting_def)
      let ?t = "t\<lparr>replies := rs, sent := sent t @ take (Suc n) buf\<rparr>" and ?k = "min (Suc n) (length buf)"
      have i: "inner_write buf t = (PollReady (Inr ?k), ?t)" using r by (simp add: inner_write_def)
      have k: "0 < ?k" "drop ?k buf = drop (Suc n) buf" using False by (auto simp: min_def)
      have "accepting (length (drop ?k buf) + m) ?t"
        using "1.prems" r k False by (auto simp: accepting_def) (cases buf; auto)
      from "1.IH" [OF False i [symmetric] refl refl _ this] k(1) obtain rs' where
        "write_all (drop ?k buf) ?t = (PollReady (Inr ()), ?t\<lparr>replies := rs', sent := sent ?t @ drop ?k buf\<rparr>)"
        "accepting m (?t\<lparr>replies := rs', sent := sent ?t @ drop ?k buf\<rparr>)" by auto
      then show ?thesis using False i k by (subst write_all.simps) (auto intro!: exI [of _ rs'])
    qed
  qed
  then show thesis using that by blast
qed

lemma send_pending_nothing: "ciphertext_write_buf c = [] \<Longrightarrow> plaintext_write_buf c = [] \<Longrightarrow> send_pending dbg P c t = (PollReady (Inr ()), c, t)"
  by (subst send_pending.simps) (simp add: wants_write_def)

lemma send_pending_accepting:
  assumes "plaintext_write_buf c = []" and "accepting (length (ciphertext_write_buf c) + m) t"
  obtains rs where "send_pending dbg P c t =
      (PollReady (Inr ()), c\<lparr>ciphertext_write_buf := []\<rparr>, t\<lparr>replies := rs, sent := sent t @ ciphertext_write_buf c\<rparr>)"
    and "accepting m (t\<lparr>replies := rs, sent := sent t @ ciphertext_write_buf c\<rparr>)"
proof (cases "ciphertext_write_buf c = []")
  case True
  then have "c\<lparr>ciphertext_write_buf := []\<rparr> = c" by (cases c) simp
  then show thesis using that [of "replies t"] True assms send_pending_nothing [of c dbg P t] by (cases t) simp
next
  case False
  let ?c = "c\<lparr>ciphertext_write_buf := []\<rparr>"
  have "write_tls dbg P vec_writer c = (ciphertext_write_buf c, ?c, Inr (length (ciphertext_write_buf c)))"
    using assms(1) by (simp add: write_tls_def drain_to_def seal_pending_def)
  moreover obtain rs where w: "write_all (ciphertext_write_buf c) t =
      (PollReady (Inr ()), t\<lparr>replies := rs, sent := sent t @ ciphertext_write_buf c\<rparr>)"
    "accepting m (t\<lparr>replies := rs, sent := sent t @ ciphertext_write_buf c\<rparr>)"
    using write_all_accepting [OF assms(2)] .
  ultimately have "send_pending dbg P c t = send_pending dbg P ?c (t\<lparr>replies := rs, sent := sent t @ ciphertext_write_buf c\<rparr>)"
    using False by (subst send_pending.simps) (simp add: wants_write_def)
  then show thesis using that [OF _ w(2)] send_pending_nothing [of ?c] assms(1) by simp
qed

section \<open>The buffer holds a prefix of the server's records\<close>

text \<open>What does not change between the records: the buffers are in order and hold no application data.\<close>

definition quiet :: "reality_conn \<Rightarrow> bool" where
  "quiet c \<longleftrightarrow> fatal_error c = None \<and> \<not> received_close_notify c \<and> plaintext_write_buf c = []
     \<and> sb_wf (ciphertext_read_buf c) \<and> sb_capacity (ciphertext_read_buf c) = 33290
     \<and> sb_wf (plaintext_read_buf c) \<and> sb_capacity (plaintext_read_buf c) = 33290
     \<and> sb_bytes (plaintext_read_buf c) = [] \<and> sb_start (plaintext_read_buf c) = 0"

text \<open>A record at the front that has arrived completely is taken off.\<close>

lemma record_taken:
  assumes "sb_wf b" and "sb_bytes b @ w = (h @ x) @ rest" and "length h = 5" and "length (h @ x) \<le> length (sb_bytes b)"
  obtains b' where "sb_consume dbg b (5 + length x) = Inr b'" and "sb_wf b'" and "sb_capacity b' = sb_capacity b"
    and "sb_bytes b' @ w = rest" and "sb_range_to b (5 + length x) = Inr (h @ x)" and "sb_range b 5 (5 + length x) = Inr x"
    and "length (sb_bytes b') \<le> length (sb_bytes b)"
proof -
  obtain r where b: "sb_bytes b = (h @ x) @ r"
    using assms(2,4) by (metis append_eq_append_conv_if append_take_drop_id)
  then have "r @ w = rest" using assms(2) by simp
  moreover have len: "5 + length x \<le> length (sb_bytes b)" using assms(3,4) by simp
  moreover obtain b' where "sb_consume dbg b (5 + length x) = Inr b'" "sb_wf b'" "sb_bytes b' = drop (5 + length x) (sb_bytes b)"
    "sb_capacity b' = sb_capacity b" using sb_consume_ok [OF assms(1) len, of dbg] by auto
  moreover have "sb_range_to b (5 + length x) = Inr (h @ x)" "sb_range b 5 (5 + length x) = Inr x"
    using sb_range_bytes [OF assms(1) _ len, of 0] sb_range_bytes [OF assms(1) _ len, of 5] assms(3) b
    by (simp_all add: sb_range_to_range)
  ultimately show thesis using that assms(3) b by simp
qed

lemma process_server_hello_wait:
  assumes "answers P ch priv auth_key r1 r2 ph finish" and "quiet c" and "handshake_state c = AwaitingServerHello ch priv auth_key"
    and "sb_bytes (ciphertext_read_buf c) @ w = r1 @ rest" and "length (sb_bytes (ciphertext_read_buf c)) < length r1"
  shows "process_server_hello dbg P c = (c, Inr False)"
proof (cases "sb_len (ciphertext_read_buf c) < 5")
  case False
  have wf: "sb_wf (ciphertext_read_buf c)" using assms(2) by (simp add: quiet_def)
  obtain x where x: "r1 = [0x16, 3, 3] @ len16 (length x) @ x" "length x < 1000" using assms(1) by (auto simp: answers_def)
  have "record_length c = Inr (of_nat (length x))"
    by (rule record_front(1) [OF wf, where t = "0x16" and ?v1.0 = 3 and ?v2.0 = 3 and x = "x @ rest" and w = w])
      (use False assms(4) x sb_len_bytes [OF wf] in simp_all)
  then show ?thesis using assms(3,5) x sb_len_bytes [OF wf] unat_of_nat_u16 [of "length x"]
    by (simp add: process_server_hello_def try_with_def)
qed (use assms(3) in \<open>simp add: process_server_hello_def\<close>)

lemma process_server_hello_step:
  assumes "answers P ch priv auth_key r1 r2 ph finish" and "quiet c" and "handshake_state c = AwaitingServerHello ch priv auth_key"
    and "sb_bytes (ciphertext_read_buf c) @ w = r1 @ rest" and "length r1 \<le> length (sb_bytes (ciphertext_read_buf c))"
  obtains b where "process_server_hello dbg P c = (c\<lparr>ciphertext_read_buf := b, handshake_state := ProcessingHandshake ph\<rparr>, Inr True)"
    and "sb_wf b" and "sb_capacity b = 33290" and "sb_bytes b @ w = rest"
    and "length (sb_bytes b) \<le> length (sb_bytes (ciphertext_read_buf c))"
proof -
  have wf: "sb_wf (ciphertext_read_buf c)" "sb_capacity (ciphertext_read_buf c) = 33290" using assms(2) by (simp_all add: quiet_def)
  obtain x where x: "r1 = [0x16, 3, 3] @ len16 (length x) @ x" "length x < 1000" using assms(1) by (auto simp: answers_def)
  let ?h = "[0x16, 3, 3] @ len16 (length x)"
  have len: "5 + length x \<le> length (sb_bytes (ciphertext_read_buf c))" using assms(5) x by simp
  have rl: "record_length c = Inr (of_nat (length x))"
    by (rule record_front(1) [OF wf(1), where t = "0x16" and ?v1.0 = 3 and ?v2.0 = 3 and x = "x @ rest" and w = w])
      (use len assms(4) x in simp_all)
  obtain b where b: "sb_consume dbg (ciphertext_read_buf c) (5 + length x) = Inr b" "sb_wf b"
      "sb_capacity b = sb_capacity (ciphertext_read_buf c)" "sb_bytes b @ w = rest"
      "sb_range_to (ciphertext_read_buf c) (5 + length x) = Inr (?h @ x)"
      "length (sb_bytes b) \<le> length (sb_bytes (ciphertext_read_buf c))"
    by (rule record_taken [OF wf(1), of w ?h x rest dbg]) (use assms(4) x len in simp_all)
  have "after_server_hello P ch priv auth_key (?h @ x) = Inr ph" using assms(1) x(1) by (simp add: answers_def)
  then have "process_server_hello dbg P c = (c\<lparr>ciphertext_read_buf := b, handshake_state := ProcessingHandshake ph\<rparr>, Inr True)"
    using assms(3) rl b(1,5) len x(2) sb_len_bytes [OF wf(1)] unat_of_nat_u16 [of "length x"]
    by (cases c) (simp add: process_server_hello_def try_with_def Let_def)
  then show thesis using that b wf(2) by simp
qed

text \<open>The flight record, when it is at the front.\<close>

lemma process_flight:
  assumes "answers P ch priv auth_key r1 r2 ph finish" and "quiet c" and "handshake_state c = ProcessingHandshake ph"
    and "sb_bytes (ciphertext_read_buf c) @ w = r2 @ rest"
  shows "if length (sb_bytes (ciphertext_read_buf c)) < length r2 then process_encrypted_handshake dbg P c = (c, Inr False)
    else \<exists>b. process_encrypted_handshake dbg P c = (finish (c\<lparr>ciphertext_read_buf := b\<rparr>), Inr True)
      \<and> sb_wf b \<and> sb_capacity b = 33290 \<and> sb_bytes b @ w = rest \<and> length (sb_bytes b) \<le> length (sb_bytes (ciphertext_read_buf c))"
proof -
  let ?b = "ciphertext_read_buf c"
  have wf: "sb_wf ?b" "sb_capacity ?b = 33290" using assms(2) by (simp_all add: quiet_def)
  note len = sb_len_bytes [OF wf(1)]
  obtain hk hiv ct where r2: "derive_traffic_keys P (ph_server_secret ph) (ph_suite ph) = Inr (hk, hiv)"
      "r2 = make_record_header (length ct) @ ct" "length ct \<le> 16401"
      "\<And>dbg c. on_handshake_record dbg P ph hk hiv ct (of_nat (length ct)) c = (finish c, Inr True)"
    using assms(1) by (auto simp: answers_def)
  have l2: "length r2 = 5 + length ct" using r2(2) by simp
  have hd: "make_record_header (length ct) = [0x17, 3, 3] @ len16 (length ct)" using record_header_length [of "length ct"] r2(3) by simp
  have un: "unat (of_nat (length ct) :: u16) = length ct" using r2(3) by (intro unat_of_nat_u16) simp
  show ?thesis
  proof (cases "length (sb_bytes ?b) < 5")
    case True
    then show ?thesis using r2(1) l2 len assms(3) by (subst process_encrypted_handshake.simps) (simp add: try_with_def)
  next
    case False
    have rl: "record_length c = Inr (of_nat (length ct))" "sb_index ?b 0 = Inr 0x17"
      using record_front [OF wf(1), of w "0x17" 3 3 "of_nat (length ct)" "ct @ rest"] False assms(4) r2(2) hd by simp_all
    show ?thesis
    proof (cases "length (sb_bytes ?b) < length r2")
      case True
      then show ?thesis using r2(1) l2 rl un len False assms(3)
        by (subst process_encrypted_handshake.simps) (simp add: try_with_def)
    next
      case no: False
      obtain b where b: "sb_consume dbg ?b (5 + length ct) = Inr b" "sb_wf b" "sb_capacity b = sb_capacity ?b" "sb_bytes b @ w = rest"
          "sb_range ?b 5 (5 + length ct) = Inr ct" "length (sb_bytes b) \<le> length (sb_bytes ?b)"
        by (rule record_taken [OF wf(1), of w "make_record_header (length ct)" ct rest dbg]) (use assms(4) r2(2) no l2 in simp_all)
      have "process_encrypted_handshake dbg P c = (finish (c\<lparr>ciphertext_read_buf := b\<rparr>), Inr True)"
        using r2(1,4) rl un len b(1,5) no l2 False assms(3)
        by (subst process_encrypted_handshake.simps) (simp add: try_with_def)
      then show ?thesis using no b wf(2) by auto
    qed
  qed
qed

text \<open>The ChangeCipherSpec record before it is skipped.\<close>

definition ccs :: bytes where
  "ccs = [0x14, 3, 3] @ be16 1 @ [1]"

lemma process_ccs:
  assumes "answers P ch priv auth_key r1 r2 ph finish" and "quiet c" and "handshake_state c = ProcessingHandshake ph"
    and "sb_bytes (ciphertext_read_buf c) @ w = ccs @ rest"
  shows "if length (sb_bytes (ciphertext_read_buf c)) < 6 then process_encrypted_handshake dbg P c = (c, Inr False)
    else \<exists>b. process_encrypted_handshake dbg P c = process_encrypted_handshake dbg P (c\<lparr>ciphertext_read_buf := b\<rparr>)
      \<and> sb_wf b \<and> sb_capacity b = 33290 \<and> sb_bytes b @ w = rest \<and> length (sb_bytes b) \<le> length (sb_bytes (ciphertext_read_buf c))"
proof -
  let ?b = "ciphertext_read_buf c" and ?h = "[0x14, 3, 3] @ be16 1"
  have wf: "sb_wf ?b" "sb_capacity ?b = 33290" using assms(2) by (simp_all add: quiet_def)
  note len = sb_len_bytes [OF wf(1)]
  obtain keys where keys: "derive_traffic_keys P (ph_server_secret ph) (ph_suite ph) = Inr keys" using assms(1) by (auto simp: answers_def)
  show ?thesis
  proof (cases "length (sb_bytes ?b) < 5")
    case True
    then show ?thesis using keys len assms(3) by (subst process_encrypted_handshake.simps) (simp add: try_with_def split: prod.split)
  next
    case False
    have rl: "record_length c = Inr 1" "sb_index ?b 0 = Inr 0x14"
      using record_front [OF wf(1), of w "0x14" 3 3 1 "1 # rest"] False assms(4) by (simp_all add: ccs_def)
    show ?thesis
    proof (cases "length (sb_bytes ?b) < 6")
      case True
      then show ?thesis using keys rl len False assms(3)
        by (subst process_encrypted_handshake.simps) (simp add: try_with_def split: prod.split)
    next
      case no: False
      obtain b where b: "sb_consume dbg ?b (5 + length [1 :: u8]) = Inr b" "sb_wf b" "sb_capacity b = sb_capacity ?b" "sb_bytes b @ w = rest"
          "length (sb_bytes b) \<le> length (sb_bytes ?b)"
        by (rule record_taken [OF wf(1), of w ?h "[1]" rest dbg]) (use assms(4) no in \<open>simp_all add: ccs_def\<close>)
      have "process_encrypted_handshake dbg P c = process_encrypted_handshake dbg P (c\<lparr>ciphertext_read_buf := b\<rparr>)"
        using keys rl len b(1) no False assms(3)
        by (subst process_encrypted_handshake.simps) (simp add: try_with_def split: prod.split)
      then show ?thesis using no b wf(2) by auto
    qed
  qed
qed

section \<open>Any segmentation of the server's bytes\<close>

text \<open>The client is somewhere before the end of the flight; \<open>w\<close> is still to come, \<open>rest\<close> follows the flight.\<close>

definition in_flight :: "bytes \<Rightarrow> bytes \<Rightarrow> bytes \<Rightarrow> bytes \<Rightarrow> bytes \<Rightarrow> processing \<Rightarrow> bytes \<Rightarrow> bytes \<Rightarrow> reality_conn \<Rightarrow> bool" where
  "in_flight ch priv auth_key r1 r2 ph w rest c \<longleftrightarrow> quiet c \<and> ciphertext_write_buf c = []
     \<and> (handshake_state c = AwaitingServerHello ch priv auth_key \<and> sb_bytes (ciphertext_read_buf c) @ w = r1 @ ccs @ r2 @ rest
        \<or> handshake_state c = ProcessingHandshake ph
          \<and> (sb_bytes (ciphertext_read_buf c) @ w = ccs @ r2 @ rest \<or> sb_bytes (ciphertext_read_buf c) @ w = r2 @ rest))"

text \<open>After a round: either the client waits for more, or the handshake is complete with \<open>c0\<close> before it.\<close>

definition round_ends :: "bool \<Rightarrow> tls_prims \<Rightarrow> (reality_conn \<Rightarrow> bool) \<Rightarrow> (reality_conn \<Rightarrow> reality_conn) \<Rightarrow> bytes \<Rightarrow> bytes \<Rightarrow> reality_conn \<Rightarrow> bool" where
  "round_ends dbg P still finish w rest c \<longleftrightarrow>
     (\<exists>c' n. process_new_packets_inner dbg P c = (c', Inr n) \<and> still c' \<and> w \<noteq> [] \<and> length (sb_bytes (ciphertext_read_buf c')) \<le> 16405)
     \<or> (\<exists>c0. process_new_packets_inner dbg P c = process_new_packets_inner dbg P (finish c0) \<and> quiet c0 \<and> ciphertext_write_buf c0 = []
          \<and> sb_bytes (ciphertext_read_buf c0) @ w = rest \<and> length (sb_bytes (ciphertext_read_buf c0)) \<le> length (sb_bytes (ciphertext_read_buf c)))"

lemma quiet_buf [simp]:
  "quiet c \<Longrightarrow> sb_wf b \<Longrightarrow> sb_capacity b = 33290 \<Longrightarrow> quiet (c\<lparr>ciphertext_read_buf := b\<rparr>)"
  "quiet (c\<lparr>handshake_state := h\<rparr>) = quiet c"
  by (simp_all add: quiet_def)

lemma waiting_needs: "length b < length r \<Longrightarrow> b @ w = r @ rest \<Longrightarrow> w \<noteq> []"
  by auto

lemma round_flight:
  assumes "answers P ch priv auth_key r1 r2 ph finish" and "quiet c" and "handshake_state c = ProcessingHandshake ph"
    and "sb_bytes (ciphertext_read_buf c) @ w = r2 @ rest" and "ciphertext_write_buf c = []"
  shows "round_ends dbg P (in_flight ch priv auth_key r1 r2 ph w rest) finish w rest c"
proof (cases "length (sb_bytes (ciphertext_read_buf c)) < length r2")
  case True
  have "length r2 \<le> 16406" using assms(1) by (auto simp: answers_def)
  moreover have "process_new_packets_inner dbg P c = (c, Inr (sb_len (plaintext_read_buf c)))"
    using process_flight [OF assms(1-4), of dbg] True assms(3) by (subst process_new_packets_inner.simps) simp
  ultimately show ?thesis using True assms waiting_needs [OF True assms(4)]
    by (auto simp: round_ends_def in_flight_def)
next
  case False
  then obtain b where b: "process_encrypted_handshake dbg P c = (finish (c\<lparr>ciphertext_read_buf := b\<rparr>), Inr True)"
    "sb_wf b" "sb_capacity b = 33290" "sb_bytes b @ w = rest" "length (sb_bytes b) \<le> length (sb_bytes (ciphertext_read_buf c))"
    using process_flight [OF assms(1-4), of dbg] by auto
  have "process_new_packets_inner dbg P c = process_new_packets_inner dbg P (finish (c\<lparr>ciphertext_read_buf := b\<rparr>))"
    using b(1) assms(3) by (subst process_new_packets_inner.simps) simp
  then show ?thesis unfolding round_ends_def using b assms(2,5)
    by (intro disjI2 exI [of _ "c\<lparr>ciphertext_read_buf := b\<rparr>"]) simp
qed

lemma round_ends_step:
  assumes "process_new_packets_inner dbg P c = process_new_packets_inner dbg P c'" and "round_ends dbg P still finish w rest c'"
    and "length (sb_bytes (ciphertext_read_buf c')) \<le> length (sb_bytes (ciphertext_read_buf c))"
  shows "round_ends dbg P still finish w rest c"
proof -
  have "\<And>n. n \<le> length (sb_bytes (ciphertext_read_buf c')) \<Longrightarrow> n \<le> length (sb_bytes (ciphertext_read_buf c))"
    using assms(3) by linarith
  then show ?thesis using assms(2) unfolding round_ends_def assms(1) by blast
qed

lemma round_ccs:
  assumes "answers P ch priv auth_key r1 r2 ph finish" and "quiet c" and "handshake_state c = ProcessingHandshake ph"
    and "sb_bytes (ciphertext_read_buf c) @ w = ccs @ r2 @ rest" and "ciphertext_write_buf c = []"
  shows "round_ends dbg P (in_flight ch priv auth_key r1 r2 ph w rest) finish w rest c"
proof (cases "length (sb_bytes (ciphertext_read_buf c)) < 6")
  case True
  then have "process_new_packets_inner dbg P c = (c, Inr (sb_len (plaintext_read_buf c)))"
    using process_ccs [OF assms(1-4), of dbg] assms(3) by (subst process_new_packets_inner.simps) simp
  moreover have "w \<noteq> []" by (rule waiting_needs [OF _ assms(4)]) (use True in \<open>simp add: ccs_def\<close>)
  ultimately show ?thesis using True assms by (auto simp: round_ends_def in_flight_def)
next
  case False
  then obtain b where b: "process_encrypted_handshake dbg P c = process_encrypted_handshake dbg P (c\<lparr>ciphertext_read_buf := b\<rparr>)"
    "sb_wf b" "sb_capacity b = 33290" "sb_bytes b @ w = r2 @ rest" "length (sb_bytes b) \<le> length (sb_bytes (ciphertext_read_buf c))"
    using process_ccs [OF assms(1-4), of dbg] by auto
  have "process_new_packets_inner dbg P c = process_new_packets_inner dbg P (c\<lparr>ciphertext_read_buf := b\<rparr>)"
    using b(1) assms(3) process_new_packets_inner.simps [of dbg P c] process_new_packets_inner.simps [of dbg P "c\<lparr>ciphertext_read_buf := b\<rparr>"]
    by simp
  then show ?thesis
    by (rule round_ends_step [OF _ round_flight [OF assms(1)]]) (use b assms in simp_all)
qed

lemma round_hello:
  assumes "answers P ch priv auth_key r1 r2 ph finish" and "quiet c" and "handshake_state c = AwaitingServerHello ch priv auth_key"
    and "sb_bytes (ciphertext_read_buf c) @ w = r1 @ ccs @ r2 @ rest" and "ciphertext_write_buf c = []"
  shows "round_ends dbg P (in_flight ch priv auth_key r1 r2 ph w rest) finish w rest c"
proof (cases "length (sb_bytes (ciphertext_read_buf c)) < length r1")
  case True
  have "length r1 \<le> 1005" using assms(1) by (auto simp: answers_def)
  moreover have "process_new_packets_inner dbg P c = (c, Inr (sb_len (plaintext_read_buf c)))"
    using process_server_hello_wait [OF assms(1-4) True, of dbg] assms(3) by (subst process_new_packets_inner.simps) simp
  ultimately show ?thesis using True assms waiting_needs [OF True assms(4)] by (auto simp: round_ends_def in_flight_def)
next
  case False
  then have le: "length r1 \<le> length (sb_bytes (ciphertext_read_buf c))" by simp
  obtain b where b: "process_server_hello dbg P c = (c\<lparr>ciphertext_read_buf := b, handshake_state := ProcessingHandshake ph\<rparr>, Inr True)"
    "sb_wf b" "sb_capacity b = 33290" "sb_bytes b @ w = ccs @ r2 @ rest" "length (sb_bytes b) \<le> length (sb_bytes (ciphertext_read_buf c))"
    by (rule process_server_hello_step [OF assms(1-4) le])
  let ?c = "c\<lparr>ciphertext_read_buf := b, handshake_state := ProcessingHandshake ph\<rparr>"
  have "process_new_packets_inner dbg P c = process_new_packets_inner dbg P ?c"
    using b(1) assms(3) by (subst process_new_packets_inner.simps) simp
  then show ?thesis
    by (rule round_ends_step [OF _ round_ccs [OF assms(1)]]) (use b assms in simp_all)
qed

lemma round_any:
  assumes "answers P ch priv auth_key r1 r2 ph finish" and "in_flight ch priv auth_key r1 r2 ph w rest c"
  shows "round_ends dbg P (in_flight ch priv auth_key r1 r2 ph w rest) finish w rest c"
  using assms(2) round_hello [OF assms(1)] round_ccs [OF assms(1)] round_flight [OF assms(1)] unfolding in_flight_def by blast

section \<open>After the handshake\<close>

text \<open>
  Reading application data leaves the writing side alone.
\<close>

lemma on_app_record_writes:
  assumes "on_app_record dbg P k iv c = (c', r)"
  shows "ciphertext_write_buf c' = ciphertext_write_buf c \<and> plaintext_write_buf c' = plaintext_write_buf c
    \<and> app_write_key c' = app_write_key c \<and> app_write_iv c' = app_write_iv c \<and> write_seq c' = write_seq c"
  using assms
  by (auto simp: on_app_record_def on_alert_def try_with_def Let_def split: sum.splits prod.splits if_splits list.splits)

lemma app_loop_writes:
  assumes "app_loop dbg P k iv c = (c', r)"
  shows "ciphertext_write_buf c' = ciphertext_write_buf c \<and> plaintext_write_buf c' = plaintext_write_buf c
    \<and> app_write_key c' = app_write_key c \<and> app_write_iv c' = app_write_iv c \<and> write_seq c' = write_seq c"
  using assms
proof (induction dbg P k iv c arbitrary: c' r rule: app_loop.induct)
  case (1 dbg P k iv c)
  obtain d q where o: "on_app_record dbg P k iv c = (d, q)" by fastforce
  note w = on_app_record_writes [OF o]
  show ?case
  proof (cases "sb_len (ciphertext_read_buf c) < 5 \<or> q \<noteq> Inr True")
    case True
    then show ?thesis using "1.prems" w o by (subst (asm) app_loop.simps) (auto split: if_splits sum.splits)
  next
    case False
    then have "app_loop dbg P k iv d = (c', r)" using "1.prems" o by (subst (asm) app_loop.simps) simp
    then show ?thesis using "1.IH" [of d "Inr True" True c' r] False o w by simp
  qed
qed

text \<open>
  The client holds the keys of \<open>sv\<close>; of the application data \<open>ds\<close> some is in its buffer, the rest is in what is still to come.
\<close>

definition established :: "tls_prims \<Rightarrow> server_session \<Rightarrow> bytes \<Rightarrow> bytes list \<Rightarrow> reality_conn \<Rightarrow> bool" where
  "established P sv w ds c \<longleftrightarrow> handshake_state c = Complete \<and> plaintext_write_buf c = []
     \<and> app_write_key c = Some (sv_client_key sv) \<and> app_write_iv c = Some (sv_client_iv sv) \<and> write_seq c = 0
     \<and> (\<exists>done_ds rest. ds = done_ds @ rest \<and> conn_due P w rest c \<and> sb_bytes (plaintext_read_buf c) = concat done_ds)"

definition finished_record :: "tls_prims \<Rightarrow> server_session \<Rightarrow> bytes" where
  "finished_record P sv = wire_record P (sv_client_hs_key sv) (sv_client_hs_iv sv) 0 (sv_expects sv @ [0x16])"

definition server_data :: "tls_prims \<Rightarrow> server_session \<Rightarrow> bytes list \<Rightarrow> bytes" where
  "server_data P sv ds = wire_records P (sv_server_key sv) (sv_server_iv sv) 0 0x17 ds"

lemma completed_established:
  assumes "aead_law P" and "key_ok (sv_server_key sv) (sv_server_iv sv)" and "data_chunks 0 ds" and "quiet c"
    and "ciphertext_write_buf c = []" and "sb_bytes (ciphertext_read_buf c) @ w = server_data P sv ds"
    and "length (sb_bytes (ciphertext_read_buf c)) \<le> 33290"
  obtains c' n where "process_new_packets_inner dbg P (completed P cs sv c) = (c', Inr n)" and "established P sv w ds c'"
    and "ciphertext_write_buf c' = finished_record P sv"
proof -
  let ?c = "completed P cs sv c" and ?k = "sv_server_key sv" and ?iv = "sv_server_iv sv"
  have rw: "reading_with P ?k ?iv ?c" using assms(1,2,4) by (simp add: reading_with_def quiet_def completed_def)
  moreover have "data_chunks (read_seq ?c) ds" using assms(3) by (simp add: completed_def)
  moreover have "sb_bytes (ciphertext_read_buf ?c) @ w = wire_records P ?k ?iv (read_seq ?c) 0x17 ds"
    using assms(6) by (simp add: completed_def server_data_def)
  moreover have p: "sb_start (plaintext_read_buf ?c) = 0" "sb_bytes (plaintext_read_buf ?c) = []"
    using assms(4) by (simp_all add: quiet_def completed_def)
  moreover have "length (sb_bytes (plaintext_read_buf ?c)) + length (sb_bytes (ciphertext_read_buf ?c)) \<le> 33290"
    using assms(4,7) by (simp add: quiet_def completed_def)
  ultimately obtain c' done_ds rest where l: "app_loop dbg P ?k ?iv ?c = (c', Inr ())" "ds = done_ds @ rest"
    "reading_with P ?k ?iv c'" "data_chunks (read_seq c') rest"
    "sb_bytes (ciphertext_read_buf c') @ w = wire_records P ?k ?iv (read_seq c') 0x17 rest"
    "length (sb_bytes (ciphertext_read_buf c')) \<le> 16405" "sb_bytes (plaintext_read_buf c') = concat done_ds"
    "sb_start (plaintext_read_buf c') = 0" "w = [] \<longrightarrow> rest = []"
    using app_loop_data [of P ?k ?iv ?c ds w dbg] by auto
  have "conn_due P w rest c'" using l unfolding conn_due_def tidy_def reading_with_def by auto
  moreover note wr = app_loop_writes [OF l(1)]
  ultimately have "established P sv w ds c'"
    using l(2,3,7) assms(4) unfolding established_def by (auto simp: completed_def quiet_def reading_with_def)
  moreover have "process_new_packets_inner dbg P ?c = (c', Inr (sb_len (plaintext_read_buf c')))"
    using rw l(1) by (subst process_new_packets_inner.simps) (simp add: reading_with_def process_application_data_def)
  ultimately show thesis using that wr assms(5) by (simp add: completed_def finished_record_def)
qed

section \<open>The loop of the handshake\<close>

lemma round_processed:
  assumes "answers P ch priv auth_key r1 r2 ph (completed P cs sv)" and "in_flight ch priv auth_key r1 r2 ph w (server_data P sv ds) c"
    and "aead_law P" and "key_ok (sv_server_key sv) (sv_server_iv sv)" and "data_chunks 0 ds"
    and "length (sb_bytes (ciphertext_read_buf c)) \<le> 33290"
  obtains c' n where "process_new_packets dbg P c = (c', Inr n)"
    and "(in_flight ch priv auth_key r1 r2 ph w (server_data P sv ds) c' \<and> w \<noteq> [] \<and> length (sb_bytes (ciphertext_read_buf c')) \<le> 16405)
      \<or> (established P sv w ds c' \<and> ciphertext_write_buf c' = finished_record P sv)"
proof -
  let ?ready = "\<lambda>c'. (in_flight ch priv auth_key r1 r2 ph w (server_data P sv ds) c' \<and> w \<noteq> [] \<and> length (sb_bytes (ciphertext_read_buf c')) \<le> 16405)
      \<or> (established P sv w ds c' \<and> ciphertext_write_buf c' = finished_record P sv)"
  have "\<exists>c' n. process_new_packets_inner dbg P c = (c', Inr n) \<and> ?ready c'"
    using round_any [OF assms(1,2), of dbg] unfolding round_ends_def
  proof (elim disjE exE conjE)
    fix c0
    assume a: "process_new_packets_inner dbg P c = process_new_packets_inner dbg P (completed P cs sv c0)" "quiet c0"
      "ciphertext_write_buf c0 = []" "sb_bytes (ciphertext_read_buf c0) @ w = server_data P sv ds"
      "length (sb_bytes (ciphertext_read_buf c0)) \<le> length (sb_bytes (ciphertext_read_buf c))"
    have "length (sb_bytes (ciphertext_read_buf c0)) \<le> 33290" using a(5) assms(6) by linarith
    from completed_established [OF assms(3-5) a(2-4) this] show ?thesis using a(1) by metis
  qed blast
  then obtain c' n where c': "process_new_packets_inner dbg P c = (c', Inr n)" "?ready c'" by blast
  have "process_new_packets dbg P c = (c', Inr n)"
    using c'(1) assms(2) by (simp add: process_new_packets_def in_flight_def quiet_def)
  then show thesis using that c'(2) by blast
qed

lemma handshake_loop_established:
  assumes "established P sv (concat (arrived t)) ds c" and "ciphertext_write_buf c = finished_record P sv"
    and "accepting (length (finished_record P sv)) t"
  obtains rs where "handshake_loop dbg P c t =
      (PollReady (Inr ()), c\<lparr>ciphertext_write_buf := []\<rparr>, t\<lparr>replies := rs, sent := sent t @ finished_record P sv\<rparr>)"
proof -
  have "plaintext_write_buf c = []" "accepting (length (ciphertext_write_buf c) + 0) t"
    using assms by (simp_all add: established_def)
  from send_pending_accepting [OF this, of dbg P] obtain rs where "send_pending dbg P c t =
      (PollReady (Inr ()), c\<lparr>ciphertext_write_buf := []\<rparr>, t\<lparr>replies := rs, sent := sent t @ finished_record P sv\<rparr>)"
    using assms(2) by metis
  moreover have "\<not> is_handshaking (c\<lparr>ciphertext_write_buf := []\<rparr>)" using assms(1) by (simp add: established_def is_handshaking_def)
  ultimately show thesis using that by (subst (asm) handshake_loop.simps) simp
qed

lemma established_writes: "established P sv w ds (c\<lparr>ciphertext_write_buf := b\<rparr>) = established P sv w ds c"
  by (simp add: established_def conn_due_def reading_with_def)

lemma handshake_loop_completes:
  assumes "answers P ch priv auth_key r1 r2 ph (completed P cs sv)" and "aead_law P" and "key_ok (sv_server_key sv) (sv_server_iv sv)"
    and "data_chunks 0 ds" and "in_flight ch priv auth_key r1 r2 ph (concat (arrived t)) (server_data P sv ds) c"
    and "concat (arrived t) \<noteq> []" and "length (sb_bytes (ciphertext_read_buf c)) \<le> 16405"
    and "segments_ok t" and "accepting (length (finished_record P sv)) t"
  shows "\<exists>c' t'. handshake_loop dbg P c t = (PollReady (Inr ()), c', t') \<and> established P sv (concat (arrived t')) ds c'
    \<and> ciphertext_write_buf c' = [] \<and> sent t' = sent t @ finished_record P sv \<and> segments_ok t' \<and> peer t' = peer t"
  using assms(5-)
proof (induction "length (concat (arrived t))" arbitrary: c t rule: less_induct)
  case less
  have send: "send_pending dbg P c t = (PollReady (Inr ()), c, t)" and hs: "is_handshaking c"
    using less.prems(1) send_pending_nothing [of c dbg P t] by (auto simp: in_flight_def quiet_def is_handshaking_def)
  have "arrived t \<noteq> []" "0 < (16384 :: nat)" using less.prems(2) by auto
  from inner_read_some [OF less.prems(4) this]
  obtain d t' where i: "inner_read 16384 t = (PollReady (Inr d), t')" "d \<noteq> []" "length d \<le> 16384"
    and t': "segments_ok t'" "d @ concat (arrived t') = concat (arrived t)" "peer t' = peer t" "t' = t\<lparr>arrived := arrived t'\<rparr>" .
  have b: "sb_wf (ciphertext_read_buf c)" "sb_capacity (ciphertext_read_buf c) = 33290" using less.prems(1) by (simp_all add: in_flight_def quiet_def)
  from feed_fits [OF b less.prems(3) i(3,2) refl, of dbg] obtain b' where
    f: "feed_reality_client_connection dbg c d = (c\<lparr>ciphertext_read_buf := b'\<rparr>, Inr ())"
    and b': "sb_wf b'" "sb_bytes b' = sb_bytes (ciphertext_read_buf c) @ d" "sb_capacity b' = 33290" by metis
  let ?c = "c\<lparr>ciphertext_read_buf := b'\<rparr>"
  have fl: "in_flight ch priv auth_key r1 r2 ph (concat (arrived t')) (server_data P sv ds) ?c"
    using less.prems(1) b' t'(2) unfolding in_flight_def by auto
  have "length (sb_bytes (ciphertext_read_buf ?c)) \<le> 33290" using less.prems(3) b'(2) i(3) by simp
  from round_processed [OF assms(1) fl assms(2-4) this, of dbg] obtain c3 n where
    p: "process_new_packets dbg P ?c = (c3, Inr n)" and c3: "(in_flight ch priv auth_key r1 r2 ph (concat (arrived t')) (server_data P sv ds) c3
      \<and> concat (arrived t') \<noteq> [] \<and> length (sb_bytes (ciphertext_read_buf c3)) \<le> 16405)
      \<or> (established P sv (concat (arrived t')) ds c3 \<and> ciphertext_write_buf c3 = finished_record P sv)" .
  have loop: "handshake_loop dbg P c t = handshake_loop dbg P c3 t'"
    using send hs i f p by (subst handshake_loop.simps) simp
  have st: "sent t' = sent t" "accepting (length (finished_record P sv)) t'"
    using t'(4) less.prems(5) by (metis transport.select_convs(4) transport.surjective transport.update_convs(1),
        metis accepting_def transport.select_convs(3) transport.surjective transport.update_convs(1))
  from c3 show ?case
  proof (elim disjE conjE)
    assume a: "in_flight ch priv auth_key r1 r2 ph (concat (arrived t')) (server_data P sv ds) c3" "concat (arrived t') \<noteq> []"
      "length (sb_bytes (ciphertext_read_buf c3)) \<le> 16405"
    have "length (concat (arrived t')) < length (concat (arrived t))" unfolding t'(2) [symmetric] using i(2) by simp
    from less.hyps [OF this a t'(1) st(2)] show ?thesis using loop st(1) t'(3) by simp
  next
    assume a: "established P sv (concat (arrived t')) ds c3" "ciphertext_write_buf c3 = finished_record P sv"
    from handshake_loop_established [OF a st(2), of dbg] obtain rs where "handshake_loop dbg P c3 t' =
      (PollReady (Inr ()), c3\<lparr>ciphertext_write_buf := []\<rparr>, t'\<lparr>replies := rs, sent := sent t' @ finished_record P sv\<rparr>)" .
    then show ?thesis using loop a(1) st(1) t'(1,3) established_writes by (auto simp: segments_ok_def)
  qed
qed

section \<open>Connecting\<close>

text \<open>A REALITY server: it opens the ClientHello, makes its certificate for the authentication key and answers.\<close>

definition reference_server ::
  "tls_prims \<Rightarrow> bytes \<Rightarrow> cipher_suite \<Rightarrow> bytes \<Rightarrow> bytes \<Rightarrow> (bytes \<Rightarrow> bytes) \<Rightarrow> (bytes \<Rightarrow> bytes) \<Rightarrow> bytes \<Rightarrow> io_error + server_session" where
  "reference_server P static_private cs ephemeral server_random make_cert sign hello =
     rbind (reference_open P static_private hello) (\<lambda>(auth_key, _).
     reference_answer P cs ephemeral server_random (make_cert auth_key) sign hello)"

text \<open>
  What the server's certificates and signatures are for: the certificate carries the Ed25519 key \<open>vk\<close> and, in the place of
  its signature, the HMAC of that key under the authentication key; \<open>sign\<close> signs for \<open>vk\<close>.
\<close>

definition certifies :: "tls_prims \<Rightarrow> (bytes \<Rightarrow> bytes) \<Rightarrow> (bytes \<Rightarrow> bytes) \<Rightarrow> bool" where
  "certifies P make_cert sign \<longleftrightarrow> (\<exists>vk. length vk = 32
     \<and> (\<forall>k. length (make_cert k) < 10000 \<and> tp_x509 P (make_cert k) = Some (vk, tp_hmac P SHA512 k vk))
     \<and> (\<forall>m. length (sign m) = 64 \<and> tp_verify P vk m (sign m)))"

lemma hex_bytes_length: "hex_bytes h = Inr d \<Longrightarrow> length h = 2 * length d"
  by (induction h arbitrary: d rule: hex_bytes.induct) auto

lemma decode_short_id_length: "decode_short_id hex = Inr d \<Longrightarrow> length d = 8"
  by (auto simp: decode_short_id_def decode_hex_to_slice_def split: if_splits dest!: hex_bytes_length)

lemma finished_record_opens:
  assumes "aead_law P" and "key_ok (sv_client_hs_key sv) (sv_client_hs_iv sv)" and "length (sv_expects sv) \<le> 68"
  shows "decrypt_record_in_place P (sv_client_hs_key sv) (sv_client_hs_iv sv) 0 (drop 5 (finished_record P sv))
      (of_nat (length (finished_record P sv) - 5)) = (1, Inr (0x16, sv_expects sv))"
    and "length (finished_record P sv) \<le> 100"
proof -
  have len: "length (finished_record P sv) = length (sv_expects sv) + 22"
  proof -
    have "length (sv_expects sv @ [0x16]) \<le> 16624" using assms(3) by simp
    from wire_record_ok [OF assms(1,2) this] obtain ct where
      "wire_record P (sv_client_hs_key sv) (sv_client_hs_iv sv) 0 (sv_expects sv @ [0x16]) =
         make_record_header (length (sv_expects sv @ [0x16]) + 16) @ ct" "length ct = length (sv_expects sv @ [0x16]) + 16" by metis
    then show ?thesis by (simp add: finished_record_def)
  qed
  then show "length (finished_record P sv) \<le> 100" using assms(3) by simp
  let ?d = "sv_expects sv @ [0x16]"
  have n: "length (finished_record P sv) - 5 = length ?d + 16" using len by simp
  show "decrypt_record_in_place P (sv_client_hs_key sv) (sv_client_hs_iv sv) 0 (drop 5 (finished_record P sv))
      (of_nat (length (finished_record P sv) - 5)) = (1, Inr (0x16, sv_expects sv))"
    unfolding n unfolding finished_record_def
    by (subst decrypt_wire_record [OF assms(1,2), where d = "sv_expects sv" and n = 0 and t = "0x16"])
      (use assms(3) in \<open>simp_all add: known_content_type_def\<close>)
qed

text \<open>The first round: the ClientHello goes out, then the loop above runs.\<close>

lemma handshake_loop_from_start:
  assumes "answers P ch priv auth_key r1 r2 ph (completed P cs sv)" and "aead_law P" and "key_ok (sv_server_key sv) (sv_server_iv sv)"
    and "length g1 = 33290" and "length g2 = 33290"
    and "data_chunks 0 ds" and "concat (arrived t) = (r1 @ ccs @ r2) @ server_data P sv ds" and "segments_ok t"
    and "accepting (length (hello_record ch) + length (finished_record P sv)) t"
  shows "\<exists>c' t'. handshake_loop dbg P (fresh_conn cfg g1 g2 ch priv auth_key) t = (PollReady (Inr ()), c', t')
    \<and> established P sv (concat (arrived t')) ds c' \<and> ciphertext_write_buf c' = []
    \<and> sent t' = sent t @ hello_record ch @ finished_record P sv \<and> segments_ok t' \<and> peer t' = peer t"
proof -
  let ?c = "fresh_conn cfg g1 g2 ch priv auth_key" and ?hr = "hello_record ch"
  let ?cw = "?c\<lparr>ciphertext_write_buf := []\<rparr>"
  have w: "ciphertext_write_buf ?c = ?hr" by (simp add: fresh_conn_def)
  have p: "plaintext_write_buf ?c = []" by (simp add: fresh_conn_def)
  have "accepting (length (ciphertext_write_buf ?c) + length (finished_record P sv)) t" using assms(9) w by simp
  from send_pending_accepting [OF p this, of dbg P] obtain rs where
    s: "send_pending dbg P ?c t = (PollReady (Inr ()), ?cw, t\<lparr>replies := rs, sent := sent t @ ?hr\<rparr>)"
    and acc: "accepting (length (finished_record P sv)) (t\<lparr>replies := rs, sent := sent t @ ?hr\<rparr>)"
    unfolding w by blast
  let ?t = "t\<lparr>replies := rs, sent := sent t @ ?hr\<rparr>"
  have q: "quiet ?cw" "sb_bytes (ciphertext_read_buf ?cw) = []"
    using assms(4,5) by (simp_all add: quiet_def fresh_conn_def slide_new_def sb_wf_def sb_bytes_def)
  then have "in_flight ch priv auth_key r1 r2 ph (concat (arrived ?t)) (server_data P sv ds) ?cw"
    using assms(7) by (simp add: in_flight_def fresh_conn_def)
  moreover have "concat (arrived ?t) \<noteq> []" using assms(7) by (simp add: ccs_def)
  ultimately obtain c' t' where l: "handshake_loop dbg P ?cw ?t = (PollReady (Inr ()), c', t')" "established P sv (concat (arrived t')) ds c'"
    "ciphertext_write_buf c' = []" "sent t' = sent ?t @ finished_record P sv" "segments_ok t'" "peer t' = peer ?t"
    using handshake_loop_completes [OF assms(1-3,6), of ?t ?cw dbg] q(2) assms(8) acc by (auto simp: segments_ok_def)
  have "send_pending dbg P ?cw ?t = (PollReady (Inr ()), ?cw, ?t)" by (rule send_pending_nothing) (simp_all add: fresh_conn_def)
  then have "handshake_loop dbg P ?c t = handshake_loop dbg P ?cw ?t"
    using s by (simp add: handshake_loop.simps [of dbg P ?c t] handshake_loop.simps [of dbg P ?cw ?t])
  then show ?thesis using l by simp
qed

lemma established_stream:
  assumes "established P sv (concat (arrived t)) ds c" and "ciphertext_write_buf c = []" and "segments_ok t" and "peer t = StillOpen"
  shows "writing_with (sv_client_key sv) (sv_client_iv sv) c \<and> reality_due P [] (concat ds) (reality_stream_new t c)"
  using assms by (auto simp: established_def writing_with_def reality_due_def reality_stream_new_def fstream_new_def)


section \<open>A run\<close>

lemma sample_hash: "hash_law sample_tls"
  by (simp add: hash_law_def sample_tls_def)

definition sample_cert :: "bytes \<Rightarrow> bytes" where
  "sample_cert k = replicate 32 9 @ tp_hmac sample_tls SHA512 k (replicate 32 9)"

definition sample_sign :: "bytes \<Rightarrow> bytes" where
  "sample_sign m = replicate 64 (sum_list (replicate 32 9))"

lemma sample_certifies: "certifies sample_tls sample_cert sample_sign"
  unfolding certifies_def
  by (intro exI [of _ "replicate 32 9"]) (simp add: sample_cert_def sample_sign_def sample_tls_def)

definition sample_tr :: reality_transport where
  "sample_tr = \<lparr>tr_public_key = ''key'', tr_short_id = ''0a'', tr_server_name = ''a.example''\<rparr>"

definition sample_b64 :: "string \<Rightarrow> bytes option" where
  "sample_b64 encoded = (if encoded = ''key'' then Some (replicate 32 5) else None)"

lemma sample_decodes:
  "decode_public_key sample_b64 (tr_public_key sample_tr) = Inr (replicate 32 5)"
  "decode_short_id (tr_short_id sample_tr) = Inr [10, 0, 0, 0, 0, 0, 0, 0]"
  by code_simp+


end
