(* ===== verification/Json.thy ===== *)
theory Json
  imports Cidr "HOL-Library.Log_Nat"
begin

text \<open>
  \<open>json.rs\<close>: the JSON reader of the importers. The source goes through the characters of the text; every character it
  looks for is ASCII and never part of a longer UTF-8 sequence, so the model goes through the bytes of the text.
  The position of the parser is the list of what is left. Numbers are binary64 values; the conversion from
  decimal is the correctly rounded one of the standard library. The text of the error, which is in Russian, is shortened.
\<close>

section \<open>Numbers\<close>

text \<open>A finite value is a sign, a mantissa and a power of two. \<open>NaN\<close> cannot be written in a JSON number.\<close>

datatype f64 = Finite bool nat int | Infinite bool

text \<open>The nearest binary64 value of a positive fraction, ties to the even mantissa.\<close>

definition round_f64 :: "nat \<Rightarrow> nat \<Rightarrow> nat \<times> int" where
  "round_f64 n d =
     (if n = 0 then (0, 0)
      else
        let k = int (floorlog 2 n) - int (floorlog 2 d);
            e = (if n * 2 ^ nat (- k) < d * 2 ^ nat k then k - 1 else k);
            q = max (e - 52) (- 1074);
            n' = n * 2 ^ nat (- q);
            d' = d * 2 ^ nat q;
            m = n' div d';
            r = n' mod d'
        in (if d' < 2 * r \<or> 2 * r = d' \<and> odd m then m + 1 else m, q))"

definition to_f64 :: "bool \<Rightarrow> nat \<Rightarrow> int \<Rightarrow> f64" where
  "to_f64 neg m x =
     (let (k, q) = (if 0 \<le> x then round_f64 (m * 10 ^ nat x) 1 else round_f64 m (10 ^ nat (- x)))
      in if 0 \<le> q \<and> 2 ^ 1024 \<le> k * 2 ^ nat q then Infinite neg else Finite neg k q)"

definition is_ascii_digit :: "char \<Rightarrow> bool" where
  "is_ascii_digit c \<longleftrightarrow> digit_val c \<noteq> None"

definition digits_value :: "string \<Rightarrow> nat" where
  "digits_value s = foldl (\<lambda>acc c. acc * 10 + the (digit_val c)) 0 s"

text \<open>The sign, the number and the exponent of \<open>str::parse::<f64>\<close>.\<close>

definition parse_sign :: "string \<Rightarrow> bool \<times> string" where
  "parse_sign s = (case s of c # r \<Rightarrow> if c = CHR ''-'' then (True, r) else if c = CHR ''+'' then (False, r) else (False, s) | [] \<Rightarrow> (False, []))"

definition parse_exponent :: "string \<Rightarrow> int option" where
  "parse_exponent s =
     (case s of
        [] \<Rightarrow> Some 0
      | c # r \<Rightarrow>
          if c = CHR ''e'' \<or> c = CHR ''E''
          then (let (neg, ds) = parse_sign r
                in if ds \<noteq> [] \<and> list_all is_ascii_digit ds
                   then Some (if neg then - int (digits_value ds) else int (digits_value ds)) else None)
          else None)"

definition parse_f64 :: "string \<Rightarrow> f64 option" where
  "parse_f64 s =
     (let (neg, s) = parse_sign s;
          a = takeWhile is_ascii_digit s;
          s = dropWhile is_ascii_digit s;
          (b, s) = (case s of c # r \<Rightarrow> if c = CHR ''.'' then (takeWhile is_ascii_digit r, dropWhile is_ascii_digit r) else ([], s)
                    | [] \<Rightarrow> ([], []))
      in if a = [] \<and> b = [] then None
         else map_option (\<lambda>x. to_f64 neg (digits_value (a @ b)) (x - int (length b))) (parse_exponent s))"

section \<open>Values\<close>

datatype json = JNull | JBool bool | JNumber f64 | JString string | JArray "json list" | JObject "(string \<times> json) list"

definition jget :: "string \<Rightarrow> json \<Rightarrow> json option" where
  "jget key v = (case v of JObject items \<Rightarrow> map_of items key | _ \<Rightarrow> None)"

definition as_str :: "json \<Rightarrow> string option" where
  "as_str v = (case v of JString s \<Rightarrow> Some s | _ \<Rightarrow> None)"

definition as_bool :: "json \<Rightarrow> bool option" where
  "as_bool v = (case v of JBool b \<Rightarrow> Some b | _ \<Rightarrow> None)"

definition as_f64 :: "json \<Rightarrow> f64 option" where
  "as_f64 v = (case v of JNumber n \<Rightarrow> Some n | _ \<Rightarrow> None)"

text \<open>\<open>n >= 0.0 && n.fract() == 0.0\<close>, then \<open>n as u64\<close>, which saturates.\<close>

definition f64_u64 :: "f64 \<Rightarrow> u64 option" where
  "f64_u64 x =
     (case x of
        Infinite _ \<Rightarrow> None
      | Finite neg m q \<Rightarrow>
          if (\<not> neg \<or> m = 0) \<and> 2 ^ nat (- q) dvd m
          then Some (of_nat (min (m * 2 ^ nat q div 2 ^ nat (- q)) (2 ^ 64 - 1))) else None)"

definition as_u64 :: "json \<Rightarrow> u64 option" where
  "as_u64 v = (case v of JNumber n \<Rightarrow> f64_u64 n | _ \<Rightarrow> None)"

definition as_u16_port :: "json \<Rightarrow> u16 option" where
  "as_u16_port v =
     (case as_u64 v of
        Some n \<Rightarrow> if unat n < 65536 then Some (ucast n) else None
      | None \<Rightarrow> Option.bind (as_str v) parse_u16)"

definition as_array :: "json \<Rightarrow> json list option" where
  "as_array v = (case v of JArray a \<Rightarrow> Some a | _ \<Rightarrow> None)"

definition as_object :: "json \<Rightarrow> (string \<times> json) list option" where
  "as_object v = (case v of JObject kvs \<Rightarrow> Some kvs | _ \<Rightarrow> None)"

section \<open>The parser\<close>

abbreviation json_err :: parse_error where
  "json_err \<equiv> JsonError ''JSON''"

definition json_ws :: "char \<Rightarrow> bool" where
  "json_ws c \<longleftrightarrow> of_char c \<in> {32 :: nat, 9, 10, 13}"

abbreviation skip_ws :: "string \<Rightarrow> string" where
  "skip_ws \<equiv> dropWhile json_ws"

fun literal :: "string \<Rightarrow> json \<Rightarrow> string \<Rightarrow> parse_error + json \<times> string" where
  "literal [] v cs = Inr (v, cs)"
| "literal (w # ws) v cs = (case cs of c # r \<Rightarrow> if c = w then literal ws v r else Inl json_err | [] \<Rightarrow> Inl json_err)"

definition number_char :: "char \<Rightarrow> bool" where
  "number_char c \<longleftrightarrow> is_ascii_digit c \<or> c \<in> {CHR ''.'', CHR ''e'', CHR ''E'', CHR ''+'', CHR ''-''}"

definition json_number :: "string \<Rightarrow> parse_error + json \<times> string" where
  "json_number cs =
     (let body = (case cs of c # r \<Rightarrow> if c = CHR ''-'' then r else cs | [] \<Rightarrow> []);
          n = length cs - length (dropWhile number_char body)
      in rbind (ok_or (parse_f64 (take n cs)) json_err) (\<lambda>x. Inr (JNumber x, drop n cs)))"

fun hex_digits :: "nat \<Rightarrow> nat \<Rightarrow> string \<Rightarrow> parse_error + nat \<times> string" where
  "hex_digits 0 v cs = Inr (v, cs)"
| "hex_digits (Suc n) v cs =
     (case cs of
        [] \<Rightarrow> Inl json_err
      | c # r \<Rightarrow> rbind (ok_or (hex_digit_val c) json_err) (\<lambda>d. hex_digits n (v * 16 + d) r))"

abbreviation hex4 :: "string \<Rightarrow> parse_error + nat \<times> string" where
  "hex4 \<equiv> hex_digits 4 0"

text \<open>\<open>String::push\<close> of the character with the given code point, in UTF-8.\<close>

definition utf8_char :: "nat \<Rightarrow> string" where
  "utf8_char n =
     map char_of
       (if n < 0x80 then [n]
        else if n < 0x800 then [0xC0 + n div 0x40, 0x80 + n mod 0x40]
        else if n < 0x10000 then [0xE0 + n div 0x1000, 0x80 + n div 0x40 mod 0x40, 0x80 + n mod 0x40]
        else [0xF0 + n div 0x40000, 0x80 + n div 0x1000 mod 0x40, 0x80 + n div 0x40 mod 0x40, 0x80 + n mod 0x40])"

definition unicode_escape :: "string \<Rightarrow> parse_error + string \<times> string" where
  "unicode_escape cs =
     rbind (hex4 cs) (\<lambda>(cp, cs).
     if in_range 0xD800 0xDBFF cp
     then (case cs of
             a # b # r \<Rightarrow>
               if a = CHR 0x5C \<and> b = CHR ''u''
               then rbind (hex4 r) (\<lambda>(lo, r).
                    if in_range 0xDC00 0xDFFF lo
                    then Inr (utf8_char (0x10000 + (cp - 0xD800) * 1024 + (lo - 0xDC00)), r)
                    else Inl json_err)
               else Inl json_err
           | _ \<Rightarrow> Inl json_err)
     else Inr (utf8_char (if in_range 0xDC00 0xDFFF cp then 0xFFFD else cp), cs))"

definition simple_escape :: "char \<Rightarrow> char option" where
  "simple_escape c =
     (if c = CHR 0x22 \<or> c = CHR 0x5C \<or> c = CHR ''/'' then Some c
      else if c = CHR ''n'' then Some (CHR 0x0A)
      else if c = CHR ''t'' then Some (CHR 0x09)
      else if c = CHR ''r'' then Some (CHR 0x0D)
      else if c = CHR ''b'' then Some (CHR 0x08)
      else if c = CHR ''f'' then Some (CHR 0x0C)
      else None)"

lemma hex_digits_shorter: "hex_digits n v cs = Inr (x, r) \<Longrightarrow> length r \<le> length cs"
proof (induction n arbitrary: v cs)
  case (Suc n)
  then obtain c t d where "cs = c # t" "hex_digits n (v * 16 + d) t = Inr (x, r)" by (auto split: list.splits)
  then show ?case using Suc.IH by fastforce
qed simp

lemma unicode_escape_shorter:
  assumes "unicode_escape cs = Inr (s, r)"
  shows "length r \<le> length cs"
proof -
  from assms obtain cp cs1 where h: "hex4 cs = Inr (cp, cs1)" by (auto simp: unicode_escape_def)
  have "length r \<le> length cs1"
  proof (cases "in_range 0xD800 0xDBFF cp")
    case True
    then obtain t lo where "cs1 = CHR 0x5C # CHR ''u'' # t" "hex4 t = Inr (lo, r)"
      using assms h by (cases cs1; cases "tl cs1") (auto simp: unicode_escape_def split: if_splits)
    then show ?thesis using hex_digits_shorter [of 4 0 t lo r] by simp
  qed (use assms h in \<open>simp add: unicode_escape_def\<close>)
  then show ?thesis using hex_digits_shorter [OF h] by linarith
qed

text \<open>Behind the opening quote; \<open>out\<close> is the text collected so far.\<close>

function json_string :: "string \<Rightarrow> string \<Rightarrow> parse_error + string \<times> string" where
  "json_string out cs =
     (case cs of
        [] \<Rightarrow> Inl json_err
      | c # r \<Rightarrow>
          if c = CHR 0x22 then Inr (out, r)
          else if c = CHR 0x5C then
            (case r of
               [] \<Rightarrow> Inl json_err
             | e # r \<Rightarrow>
                 if e = CHR ''u'' then
                   (case unicode_escape r of
                      Inl err \<Rightarrow> Inl err
                    | Inr (s, r') \<Rightarrow> json_string (out @ s) r')
                 else (case simple_escape e of
                         None \<Rightarrow> Inl json_err
                       | Some x \<Rightarrow> json_string (out @ [x]) r))
          else json_string (out @ [c]) r)"
  by pat_completeness auto

termination
  by (relation "measure (\<lambda>(out, cs). length cs)") (auto dest!: unicode_escape_shorter)

declare json_string.simps [simp del]

lemma json_string_shorter: "json_string out cs = Inr (s, r) \<Longrightarrow> length r < length cs"
proof (induction "length cs" arbitrary: out cs rule: less_induct)
  case less
  note p = less.prems [unfolded json_string.simps [of out cs]]
  then obtain c t where cs: "cs = c # t" by (cases cs) auto
  consider "c = CHR 0x22" | "c \<noteq> CHR 0x22" "c \<noteq> CHR 0x5C" | e t' where "c = CHR 0x5C" "t = e # t'"
    using p cs by (cases t) (auto split: if_splits)
  then show ?case
  proof cases
    case 2
    then show ?thesis using p cs less.hyps [of t "out @ [c]"] by simp
  next
    case (3 e t')
    then obtain out' cs' where "json_string out' cs' = Inr (s, r)" "length cs' \<le> length t'"
      using p cs unicode_escape_shorter by (cases "e = CHR ''u''") (auto split: option.splits sum.splits)
    then show ?thesis using less.hyps [of cs' out'] cs 3 by simp
  qed (use p cs in simp)
qed

lemma literal_shorter: "literal w v cs = Inr (x, r) \<Longrightarrow> length r \<le> length cs"
  by (induction w v cs rule: literal.induct) (auto split: list.splits if_splits)

lemma json_number_shorter: "json_number cs = Inr (x, r) \<Longrightarrow> length r \<le> length cs"
  by (auto simp: json_number_def Let_def)

definition json_scalar :: "char \<Rightarrow> string \<Rightarrow> parse_error + json \<times> string" where
  "json_scalar c r =
     (if c = CHR 0x22 then rbind (json_string [] r) (\<lambda>(s, r'). Inr (JString s, r'))
      else if c = CHR ''t'' then literal ''true'' (JBool True) (c # r)
      else if c = CHR ''f'' then literal ''false'' (JBool False) (c # r)
      else if c = CHR ''n'' then literal ''null'' JNull (c # r)
      else if c = CHR ''-'' \<or> is_ascii_digit c then json_number (c # r)
      else Inl json_err)"

lemma json_scalar_shorter:
  assumes "json_scalar c t = Inr (v, r)"
  shows "length r \<le> length (c # t)"
proof -
  consider s where "json_string [] t = Inr (s, r)" | w x where "literal w x (c # t) = Inr (v, r)" | "json_number (c # t) = Inr (v, r)"
    using assms unfolding json_scalar_def by (auto split: if_splits simp del: literal.simps)
  then show ?thesis
  proof cases
    case (1 s)
    then show ?thesis using json_string_shorter [OF 1] by simp
  qed (use literal_shorter json_number_shorter in blast)+
qed

text \<open>
  A value, and the loops over the items of an array and an object. A loop goes on behind the value it has
  read, so its end rests on the fact that a value never gives characters back.
\<close>

function (domintros) json_value :: "string \<Rightarrow> parse_error + json \<times> string"
  and array_loop :: "json list \<Rightarrow> string \<Rightarrow> parse_error + json \<times> string"
  and object_loop :: "(string \<times> json) list \<Rightarrow> string \<Rightarrow> parse_error + json \<times> string" where
  "json_value cs =
     (case skip_ws cs of
        [] \<Rightarrow> Inl json_err
      | c # r \<Rightarrow>
          if c = CHR ''{'' then
            (case skip_ws r of
               [] \<Rightarrow> object_loop [] []
             | e # r' \<Rightarrow> if e = CHR ''}'' then Inr (JObject [], r') else object_loop [] (e # r'))
          else if c = CHR ''['' then
            (case skip_ws r of
               [] \<Rightarrow> array_loop [] []
             | e # r' \<Rightarrow> if e = CHR '']'' then Inr (JArray [], r') else array_loop [] (e # r'))
          else json_scalar c r)"
| "array_loop items cs =
     (case json_value cs of
        Inl e \<Rightarrow> Inl e
      | Inr (v, cs') \<Rightarrow>
          (case skip_ws cs' of
             [] \<Rightarrow> Inl json_err
           | c # r \<Rightarrow>
               if c = CHR '','' then array_loop (items @ [v]) r
               else if c = CHR '']'' then Inr (JArray (items @ [v]), r)
               else Inl json_err))"
| "object_loop items cs =
     (case skip_ws cs of
        [] \<Rightarrow> Inl json_err
      | c # r \<Rightarrow>
          if c = CHR 0x22 then
            (case json_string [] r of
               Inl e \<Rightarrow> Inl e
             | Inr (key, cs') \<Rightarrow>
                 (case skip_ws cs' of
                    [] \<Rightarrow> Inl json_err
                  | d # r' \<Rightarrow>
                      if d = CHR '':'' then
                        (case json_value r' of
                           Inl e \<Rightarrow> Inl e
                         | Inr (v, cs'') \<Rightarrow>
                             (case skip_ws cs'' of
                                [] \<Rightarrow> Inl json_err
                              | e # r'' \<Rightarrow>
                                  if e = CHR '','' then object_loop (items @ [(key, v)]) r''
                                  else if e = CHR ''}'' then Inr (JObject (items @ [(key, v)]), r'')
                                  else Inl json_err))
                      else Inl json_err))
          else Inl json_err)"
  by pat_completeness auto

lemma dropWhile_shorter: "dropWhile f cs = c # r \<Longrightarrow> length r < length cs"
  using length_dropWhile_le [of f cs] by simp

lemma json_value_shorter:
  "json_value_array_loop_object_loop_dom (Inl cs) \<Longrightarrow> json_value cs = Inr (v, r) \<Longrightarrow> length r \<le> length cs"
  "json_value_array_loop_object_loop_dom (Inr (Inl (js, cs))) \<Longrightarrow> array_loop js cs = Inr (v, r) \<Longrightarrow> length r \<le> length cs"
  "json_value_array_loop_object_loop_dom (Inr (Inr (os, cs))) \<Longrightarrow> object_loop os cs = Inr (v, r) \<Longrightarrow> length r \<le> length cs"
proof (induction cs and js cs and os cs arbitrary: v r and v r and v r rule: json_value_array_loop_object_loop.pinduct)
  case (1 cs)
  note p = "1.prems" [unfolded json_value.psimps [OF "1.hyps"]]
  then obtain c t where c: "skip_ws cs = c # t" by (cases "skip_ws cs") auto
  have t: "length (skip_ws t) \<le> length t" "length t < length cs" using length_dropWhile_le [of json_ws t] dropWhile_shorter [OF c] by simp_all
  have "length r \<le> length (c # t)"
  proof (cases "c \<in> {CHR ''{'', CHR ''[''}")
    case True
    then show ?thesis using p c t "1.IH" [OF c] by (cases "skip_ws t") (fastforce split: if_splits)+
  next
    case False
    then show ?thesis using p c json_scalar_shorter [of c t v r] by simp
  qed
  then show ?case using t(2) by simp
next
  case (2 items cs)
  note p = "2.prems" [unfolded array_loop.psimps [OF "2.hyps"]]
  then obtain x cs' where x: "json_value cs = Inr (x, cs')" by (auto split: sum.splits)
  then obtain c t where c: "skip_ws cs' = c # t" using p by (cases "skip_ws cs'") auto
  have "length t < length cs" using dropWhile_shorter [OF c] "2.IH"(1) [OF x] by simp
  then show ?case using p x c "2.IH"(2) [OF x refl c] by (fastforce split: if_splits)
next
  case (3 items cs)
  note p = "3.prems" [unfolded object_loop.psimps [OF "3.hyps"]]
  then obtain c t where c: "skip_ws cs = c # t" "c = CHR 0x22" by (cases "skip_ws cs") (auto split: if_splits)
  then obtain key cs1 where k: "json_string [] t = Inr (key, cs1)" using p by (auto split: sum.splits)
  then obtain t1 where t1: "skip_ws cs1 = CHR '':'' # t1" using p c by (cases "skip_ws cs1") (auto split: if_splits)
  then obtain x cs2 where x: "json_value t1 = Inr (x, cs2)" using p c k by (auto split: sum.splits)
  then obtain d t2 where d: "skip_ws cs2 = d # t2" using p c k t1 by (cases "skip_ws cs2") auto
  have "length t2 < length cs"
    using dropWhile_shorter [OF c(1)] json_string_shorter [OF k] dropWhile_shorter [OF t1] dropWhile_shorter [OF d]
      "3.IH"(1) [OF c k refl t1 refl x] by simp
  then show ?case using p c k t1 x d "3.IH"(2) [OF c k refl t1 refl x refl d] by (fastforce split: if_splits)
qed

termination json_value
  by (relation "measure (\<lambda>x. case x of Inl cs \<Rightarrow> 2 * length cs | Inr (Inl (items, cs)) \<Rightarrow> 2 * length cs + 1
      | Inr (Inr (items, cs)) \<Rightarrow> 2 * length cs + 1)")
    (auto dest!: dropWhile_shorter json_string_shorter json_value_shorter(1))

declare json_value.simps [simp del] array_loop.simps [simp del] object_loop.simps [simp del]

definition json_parse :: "string \<Rightarrow> parse_error + json" where
  "json_parse input =
     rbind (json_value input) (\<lambda>(v, cs). if skip_ws cs \<noteq> [] then Inl json_err else Inr v)"

section \<open>The texts of a value\<close>

text \<open>
  Every text that stands for a value: any white space between the tokens and any way of writing the characters of a string. The numbers
  are the tokens the standard library can read.
\<close>

definition blank :: "string \<Rightarrow> bool" where
  "blank w \<longleftrightarrow> list_all json_ws w"

definition hex4_text :: "nat \<Rightarrow> string \<Rightarrow> bool" where
  "hex4_text n h \<longleftrightarrow> length h = 4 \<and> list_all (\<lambda>c. hex_digit_val c \<noteq> None) h
     \<and> n = foldl (\<lambda>v c. v * 16 + the (hex_digit_val c)) 0 h"

inductive string_text :: "string \<Rightarrow> string \<Rightarrow> bool" where
  text_end: "string_text [] []"
| text_plain: "c \<noteq> CHR 0x22 \<Longrightarrow> c \<noteq> CHR 0x5C \<Longrightarrow> string_text s t \<Longrightarrow> string_text (c # s) (c # t)"
| text_escape: "simple_escape e = Some c \<Longrightarrow> string_text s t \<Longrightarrow> string_text (c # s) (CHR 0x5C # e # t)"
| text_unicode: "hex4_text n h \<Longrightarrow> \<not> in_range 0xD800 0xDFFF n \<Longrightarrow> string_text s t \<Longrightarrow>
    string_text (utf8_char n @ s) (CHR 0x5C # CHR ''u'' # h @ t)"
| text_pair: "hex4_text hi h \<Longrightarrow> in_range 0xD800 0xDBFF hi \<Longrightarrow> hex4_text lo l \<Longrightarrow> in_range 0xDC00 0xDFFF lo \<Longrightarrow> string_text s t \<Longrightarrow>
    string_text (utf8_char (0x10000 + (hi - 0xD800) * 1024 + (lo - 0xDC00)) @ s)
      (CHR 0x5C # CHR ''u'' # h @ CHR 0x5C # CHR ''u'' # l @ t)"

definition number_text :: "f64 \<Rightarrow> string \<Rightarrow> bool" where
  "number_text x t \<longleftrightarrow> parse_f64 t = Some x \<and> list_all number_char t \<and> t \<noteq> [] \<and> (hd t = CHR ''-'' \<or> is_ascii_digit (hd t))"

inductive json_text :: "json \<Rightarrow> string \<Rightarrow> bool"
  and items_text :: "json list \<Rightarrow> string \<Rightarrow> bool"
  and members_text :: "(string \<times> json) list \<Rightarrow> string \<Rightarrow> bool" where
  text_null: "json_text JNull ''null''"
| text_true: "json_text (JBool True) ''true''"
| text_false: "json_text (JBool False) ''false''"
| text_number: "number_text x t \<Longrightarrow> json_text (JNumber x) t"
| text_string: "string_text s t \<Longrightarrow> json_text (JString s) (CHR 0x22 # t @ [CHR 0x22])"
| text_empty_array: "blank w \<Longrightarrow> json_text (JArray []) (CHR ''['' # w @ [CHR '']''])"
| text_array: "items_text vs u \<Longrightarrow> json_text (JArray vs) (CHR ''['' # u @ [CHR '']''])"
| text_empty_object: "blank w \<Longrightarrow> json_text (JObject []) (CHR ''{'' # w @ [CHR ''}''])"
| text_object: "members_text kvs u \<Longrightarrow> json_text (JObject kvs) (CHR ''{'' # u @ [CHR ''}''])"
| text_last_item: "blank a \<Longrightarrow> json_text v t \<Longrightarrow> blank b \<Longrightarrow> items_text [v] (a @ t @ b)"
| text_item: "blank a \<Longrightarrow> json_text v t \<Longrightarrow> blank b \<Longrightarrow> items_text vs u \<Longrightarrow> items_text (v # vs) (a @ t @ b @ CHR '','' # u)"
| text_last_member: "blank a \<Longrightarrow> string_text k kt \<Longrightarrow> blank b \<Longrightarrow> blank c \<Longrightarrow> json_text v t \<Longrightarrow> blank d \<Longrightarrow>
    members_text [(k, v)] (a @ CHR 0x22 # kt @ CHR 0x22 # b @ CHR '':'' # c @ t @ d)"
| text_member: "blank a \<Longrightarrow> string_text k kt \<Longrightarrow> blank b \<Longrightarrow> blank c \<Longrightarrow> json_text v t \<Longrightarrow> blank d \<Longrightarrow> members_text kvs u \<Longrightarrow>
    members_text ((k, v) # kvs) (a @ CHR 0x22 # kt @ CHR 0x22 # b @ CHR '':'' # c @ t @ d @ CHR '','' # u)"

definition json_document :: "json \<Rightarrow> string \<Rightarrow> bool" where
  "json_document v s \<longleftrightarrow> (\<exists>a t b. blank a \<and> json_text v t \<and> blank b \<and> s = a @ t @ b)"

section \<open>Reading a text back\<close>

lemma skip_blank [simp]: "blank w \<Longrightarrow> skip_ws (w @ r) = skip_ws r"
  by (induction w) (auto simp: blank_def)

lemma hex_digits_text:
  "list_all (\<lambda>c. hex_digit_val c \<noteq> None) h \<Longrightarrow>
    hex_digits (length h) v (h @ r) = Inr (foldl (\<lambda>v c. v * 16 + the (hex_digit_val c)) v h, r)"
  by (induction h arbitrary: v) auto

lemma hex4_reads: "hex4_text n h \<Longrightarrow> hex4 (h @ r) = Inr (n, r)"
  using hex_digits_text [of h 0 r] by (simp add: hex4_text_def)

lemma json_string_text:
  assumes "string_text s t"
  shows "json_string out (t @ CHR 0x22 # r) = Inr (out @ s, r)"
  using assms
proof (induction arbitrary: out)
  case text_end
  then show ?case by (simp add: json_string.simps)
next
  case (text_plain c s t)
  then show ?case by (subst json_string.simps) simp
next
  case (text_escape e c s t)
  have "e \<noteq> CHR ''u''" using text_escape.hyps(1) by (auto simp: simple_escape_def)
  then show ?case using text_escape by (subst json_string.simps) simp
next
  case (text_unicode n h s t)
  have "\<not> in_range 0xD800 0xDBFF n \<and> \<not> in_range 0xDC00 0xDFFF n" using text_unicode.hyps(2) by (auto simp: in_range_def)
  then show ?case using text_unicode hex4_reads [OF text_unicode.hyps(1)] by (subst json_string.simps) (simp add: unicode_escape_def)
next
  case (text_pair hi h lo l s t)
  then show ?case using hex4_reads [OF text_pair.hyps(1)] hex4_reads [OF text_pair.hyps(3)]
    by (subst json_string.simps) (simp add: unicode_escape_def)
qed

lemma number_char_not_ws: "number_char c \<Longrightarrow> \<not> json_ws c"
  by (auto simp: number_char_def is_ascii_digit_def digit_val_def json_ws_def Let_def split: if_splits)

lemma number_start: "c = CHR ''-'' \<or> is_ascii_digit c \<Longrightarrow>
    number_char c \<and> c \<notin> {CHR ''{'', CHR ''['', CHR 0x22, CHR ''t'', CHR ''f'', CHR ''n''}"
  by (auto simp: number_char_def is_ascii_digit_def digit_val_def)

lemma json_number_text:
  assumes "number_text x t" and "r = [] \<or> \<not> number_char (hd r)"
  shows "json_number (t @ r) = Inr (JNumber x, r)"
proof -
  obtain c t' where t: "t = c # t'" using assms(1) by (cases t) (auto simp: number_text_def)
  have all: "\<forall>c \<in> set t. number_char c" using assms(1) by (simp add: number_text_def list_all_iff)
  have r: "dropWhile number_char r = r" using assms(2) by (cases r) auto
  have "dropWhile number_char (t @ r) = r" "dropWhile number_char (t' @ r) = r"
    using all r t by (simp_all add: dropWhile_append2)
  then show ?thesis using assms(1) t by (auto simp: json_number_def number_text_def Let_def)
qed

definition ends_token :: "string \<Rightarrow> bool" where
  "ends_token r \<longleftrightarrow> r = [] \<or> \<not> number_char (hd r)"

lemma ends_token_blank: "blank w \<Longrightarrow> ends_token r \<Longrightarrow> ends_token (w @ r)"
  using number_char_not_ws by (cases w) (auto simp: ends_token_def blank_def)

lemma ends_token_sign [simp]:
  "ends_token []" "ends_token (CHR '','' # r)" "ends_token (CHR '']'' # r)" "ends_token (CHR ''}'' # r)"
  by (simp_all add: ends_token_def number_char_def is_ascii_digit_def digit_val_def)

lemma sign_not_ws [simp]:
  "\<not> json_ws (CHR '','')" "\<not> json_ws (CHR '']'')" "\<not> json_ws (CHR ''}'')" "\<not> json_ws (CHR ''{'')" "\<not> json_ws (CHR ''['')"
  "\<not> json_ws (CHR '':'')" "\<not> json_ws (CHR 0x22)" "\<not> json_ws (CHR ''t'')" "\<not> json_ws (CHR ''f'')" "\<not> json_ws (CHR ''n'')"
  by (simp_all add: json_ws_def)

lemma number_text_start: "number_text x t \<Longrightarrow> \<exists>c t'. t = c # t' \<and> \<not> json_ws c \<and> c \<noteq> CHR '']''"
proof -
  assume n: "number_text x t"
  then obtain c t' where c: "t = c # t'" "number_char c" "c = CHR ''-'' \<or> is_ascii_digit c"
    by (cases t) (auto simp: number_text_def)
  then have "c \<noteq> CHR '']''" by (auto simp: is_ascii_digit_def digit_val_def)
  then show ?thesis using c number_char_not_ws by auto
qed

lemma json_text_start: "json_text v t \<Longrightarrow> \<exists>c t'. t = c # t' \<and> \<not> json_ws c \<and> c \<noteq> CHR '']''"
  by (erule json_text.cases) (auto dest: number_text_start)

lemma items_text_start: "items_text vs u \<Longrightarrow> \<exists>c t. skip_ws (u @ r) = c # t \<and> c \<noteq> CHR '']''"
  by (erule items_text.cases) (fastforce dest: json_text_start)+

lemma members_text_start: "members_text kvs u \<Longrightarrow> \<exists>t. skip_ws (u @ r) = CHR 0x22 # t"
  by (erule members_text.cases) auto

lemma json_value_skip [simp]: "json_value (skip_ws cs) = json_value cs"
  by (simp add: json_value.simps [of cs] json_value.simps [of "skip_ws cs"])

lemma json_value_blank: "blank a \<Longrightarrow> json_value (a @ cs) = json_value cs"
  using json_value_skip [of "a @ cs"] json_value_skip [of cs] by simp

lemma array_loop_skip [simp]: "array_loop acc (skip_ws cs) = array_loop acc cs"
  by (simp add: array_loop.simps [of acc cs] array_loop.simps [of acc "skip_ws cs"])

lemma object_loop_skip [simp]: "object_loop acc (skip_ws cs) = object_loop acc cs"
  by (simp add: object_loop.simps [of acc cs] object_loop.simps [of acc "skip_ws cs"])

lemma json_value_array: "items_text vs u \<Longrightarrow> json_value (CHR ''['' # u @ r) = array_loop [] (u @ r)"
proof -
  assume "items_text vs u"
  then obtain c t where "skip_ws (u @ r) = c # t" "c \<noteq> CHR '']''" using items_text_start by blast
  moreover from this have "array_loop [] (c # t) = array_loop [] (u @ r)" by (metis array_loop_skip)
  ultimately show ?thesis by (subst json_value.simps) simp
qed

lemma json_value_object: "members_text kvs u \<Longrightarrow> json_value (CHR ''{'' # u @ r) = object_loop [] (u @ r)"
proof -
  assume "members_text kvs u"
  then obtain t where "skip_ws (u @ r) = CHR 0x22 # t" using members_text_start by blast
  moreover from this have "object_loop [] (CHR 0x22 # t) = object_loop [] (u @ r)" by (metis object_loop_skip)
  ultimately show ?thesis by (subst json_value.simps) simp
qed

lemma array_loop_item:
  assumes "blank a" and "json_value (t @ b @ c # r) = Inr (v, b @ c # r)" and "blank b" and "\<not> json_ws c"
  shows "array_loop acc (a @ t @ b @ c # r) = (if c = CHR '','' then array_loop (acc @ [v]) r
    else if c = CHR '']'' then Inr (JArray (acc @ [v]), r) else Inl json_err)"
  using assms by (subst array_loop.simps) (simp add: json_value_blank)

lemma object_loop_member:
  assumes "blank a" and "string_text k kt" and "blank b" and "blank c" and "json_value (t @ d @ e # r) = Inr (v, d @ e # r)"
    and "blank d" and "\<not> json_ws e"
  shows "object_loop acc (a @ CHR 0x22 # kt @ CHR 0x22 # b @ CHR '':'' # c @ t @ d @ e # r) =
    (if e = CHR '','' then object_loop (acc @ [(k, v)]) r
     else if e = CHR ''}'' then Inr (JObject (acc @ [(k, v)]), r) else Inl json_err)"
  using assms json_string_text [OF assms(2), of "[]" "b @ CHR '':'' # c @ t @ d @ e # r"]
  by (subst object_loop.simps) (simp add: json_value_blank)

lemma json_text_reads:
  "json_text v t \<Longrightarrow> (\<And>r. ends_token r \<Longrightarrow> json_value (t @ r) = Inr (v, r))"
  "items_text vs u \<Longrightarrow> (\<And>acc r. array_loop acc (u @ CHR '']'' # r) = Inr (JArray (acc @ vs), r))"
  "members_text kvs m \<Longrightarrow> (\<And>acc r. object_loop acc (m @ CHR ''}'' # r) = Inr (JObject (acc @ kvs), r))"
proof (induction rule: json_text_items_text_members_text.inducts)
  case (text_number x t)
  then obtain c t' where t: "t = c # t'" and c: "c = CHR ''-'' \<or> is_ascii_digit c" by (cases t) (auto simp: number_text_def)
  have "json_number (t @ r) = Inr (JNumber x, r)"
    using json_number_text [OF text_number(1)] text_number(2) by (simp add: ends_token_def)
  then show ?case using number_start [OF c] c t number_char_not_ws [of c] by (subst json_value.simps) (simp add: json_scalar_def)
next
  case (text_string s t)
  then show ?case using json_string_text [OF text_string(1), of "[]" r] by (subst json_value.simps) (simp add: json_scalar_def)
next
  case (text_array vs u)
  then show ?case using json_value_array [OF text_array(1)] by simp
next
  case (text_object kvs u)
  then show ?case using json_value_object [OF text_object(1)] by simp
next
  case (text_last_item a v t b)
  then show ?case using array_loop_item [of a t b "CHR '']''" r v acc] by (simp add: ends_token_blank)
next
  case (text_item a v t b vs u)
  then show ?case using array_loop_item [of a t b "CHR '',''" "u @ CHR '']'' # r" v acc] by (simp add: ends_token_blank)
next
  case (text_last_member a k kt b c v t d)
  then show ?case using object_loop_member [of a k kt b c t d "CHR ''}''" r v acc] by (simp add: ends_token_blank)
next
  case (text_member a k kt b c v t d kvs u)
  then show ?case using object_loop_member [of a k kt b c t d "CHR '',''" "u @ CHR ''}'' # r" v acc] by (simp add: ends_token_blank)
qed (simp_all add: json_value.simps [of "_ # _"] json_scalar_def)

text \<open>A natural number below \<open>2 ^ 53\<close>, written in decimal, is read exactly.\<close>

lemma round_f64_nat:
  assumes "0 < n" and "n < 2 ^ 53"
  obtains e where "e \<le> 52" and "round_f64 n 1 = (n * 2 ^ (52 - e), int e - 52)"
proof -
  obtain e where e: "floorlog 2 n = Suc e" using assms(1) by (cases "floorlog 2 n") (simp_all add: floorlog_eq_zero_iff)
  have b: "2 ^ e \<le> n" "n < 2 ^ Suc e" using floorlog_bounds [of n 2] assms(1) e by simp_all
  have one: "floorlog 2 1 = 1" by (simp add: compute_floorlog)
  have "e < 53" by (rule power_less_imp_less_exp [OF _ le_less_trans [OF b(1) assms(2)]]) simp
  show thesis
  proof -
    have k: "int (floorlog 2 n) - int (floorlog 2 1) = int e" using e one by simp
    have q: "nat (- (int e - 52)) = 52 - e" "max (int e - 52) (- 1074) = int e - 52" "nat (int e - 52) = 0"
      using \<open>e < 53\<close> by simp_all
    have "round_f64 n 1 = (n * 2 ^ (52 - e), int e - 52)"
      using b assms(1) unfolding round_f64_def k Let_def by (simp add: q del: One_nat_def)
    then show ?thesis using that [of e] \<open>e < 53\<close> by simp
  qed
qed
lemma f64_nat:
  assumes "n < 2 ^ 53"
  shows "f64_u64 (to_f64 False n 0) = Some (of_nat n)"
proof (cases "n = 0")
  case True
  then show ?thesis by (simp add: to_f64_def round_f64_def f64_u64_def)
next
  case False
  then obtain e where e: "e \<le> 52" "round_f64 n 1 = (n * 2 ^ (52 - e), int e - 52)" using round_f64_nat assms by blast
  have "n \<le> 2 ^ 64 - 1" using assms by simp
  moreover have "nat (52 - int e) = 52 - e" by simp
  moreover have "nat (int e - 52) = 0" using e(1) by simp
  ultimately show ?thesis using e by (auto simp: to_f64_def f64_u64_def min_def)
qed

lemma digits_value_dec: "dec_value acc s = Some v \<Longrightarrow> list_all is_ascii_digit s \<and> foldl (\<lambda>acc c. acc * 10 + the (digit_val c)) acc s = v"
  by (induction acc s rule: dec_value.induct) (auto simp: is_ascii_digit_def split: option.splits)

lemma number_text_nat: "n < 2 ^ 53 \<Longrightarrow> number_text (to_f64 False n 0) (show_nat n)"
proof -
  have d: "list_all is_ascii_digit (show_nat n)" "digits_value (show_nat n) = n"
    using digits_value_dec [OF dec_value_show_nat [of n]] by (simp_all add: digits_value_def)
  obtain c r where cr: "show_nat n = c # r" by (cases "show_nat n") auto
  have c: "is_ascii_digit c" using d(1) cr by simp
  then have "c \<noteq> CHR ''-''" "c \<noteq> CHR ''+''" by (auto simp: is_ascii_digit_def digit_val_def)
  then have "parse_sign (show_nat n) = (False, show_nat n)" unfolding cr by (simp add: parse_sign_def)
  moreover have "takeWhile is_ascii_digit (show_nat n) = show_nat n" "dropWhile is_ascii_digit (show_nat n) = []"
    using d(1) by (simp_all add: list_all_iff)
  ultimately have "parse_f64 (show_nat n) = Some (to_f64 False n 0)" using d(2) cr by (simp add: parse_f64_def parse_exponent_def)
  moreover have "list_all number_char (show_nat n)" using d(1) by (simp add: list_all_iff number_char_def)
  ultimately show ?thesis using cr c by (simp add: number_text_def)
qed

lemma json_parse_document:
  assumes "json_document v s"
  shows "json_parse s = Inr v"
proof -
  obtain a t b where s: "blank a" "json_text v t" "blank b" "s = a @ t @ b" using assms by (auto simp: json_document_def)
  have "ends_token b" using ends_token_blank [OF s(3), of "[]"] by simp
  then show ?thesis using json_text_reads(1) [OF s(2)] s skip_blank [OF s(3), of "[]"] by (simp add: json_parse_def json_value_blank)
qed

text \<open>
  C29. The JSON reader reads every text of a value back, whatever white space is between the tokens and however the characters
  of the strings are written, with escapes, code points or surrogate pairs; so a text never stands for two values.
\<close>

theorem json_reads_back:
  assumes "json_document v s"
  shows "json_parse s = Inr v \<and> {w. json_document w s} = {v}"
  using json_parse_document [OF assms] assms by (auto dest: json_parse_document)

definition sample_json :: json where
  "sample_json = JObject [(''a'', JArray [JNumber (Finite False 6966505673588736 (- 46)), JNull]), (utf8_char 233, JString ''x'')]"

definition sample_json_text :: string where
  "sample_json_text = ''{ '' @ [CHR 0x22] @ ''a'' @ [CHR 0x22] @ '' : [99, null ], '' @ [CHR 0x22, CHR 0x5C] @ ''u00e9'' @ [CHR 0x22] @ '':''
     @ [CHR 0x22] @ ''x'' @ [CHR 0x22] @ ''}'' @ [CHR 0x0A]"

lemma sample_json_document: "json_document sample_json sample_json_text"
proof -
  have b: "blank []" "blank '' ''" "blank [CHR 0x0A]" by (simp_all add: blank_def json_ws_def)
  have n: "number_text (Finite False 6966505673588736 (- 46)) ''99''"
    by (simp add: number_text_def number_char_def is_ascii_digit_def digit_val_def parse_f64_def parse_sign_def parse_exponent_def
        digits_value_def to_f64_def round_f64_def Let_def compute_floorlog)
  have st: "string_text ''a'' ''a''" "string_text ''x'' ''x''" by (auto intro: string_text.intros)
  have e: "string_text (utf8_char 233) (CHR 0x5C # ''u00e9'')"
    using text_unicode [OF _ _ text_end, of 233 "''00e9''"] by (simp add: hex4_text_def hex_digit_val_def in_range_def)
  have items: "items_text [JNumber (Finite False 6966505673588736 (- 46)), JNull] ''99, null ''"
    using text_item [OF b(1) text_number [OF n] b(1) text_last_item [OF b(2) text_null b(2)]] by simp
  have "members_text [(''a'', JArray [JNumber (Finite False 6966505673588736 (- 46)), JNull]), (utf8_char 233, JString ''x'')]
      ('' '' @ [CHR 0x22] @ ''a'' @ [CHR 0x22] @ '' : [99, null ], '' @ [CHR 0x22, CHR 0x5C] @ ''u00e9'' @ [CHR 0x22] @ '':''
       @ [CHR 0x22] @ ''x'' @ [CHR 0x22])"
    using text_member [OF b(2) st(1) b(2,2) text_array [OF items] b(1) text_last_member [OF b(2) e b(1,1) text_string [OF st(2)] b(1)]]
    by simp
  from text_object [OF this] show ?thesis
    unfolding json_document_def sample_json_def sample_json_text_def
    by (intro exI [of _ "[]"] exI [of _ "[CHR 0x0A]"] exI) (auto simp: b)
qed

theorem json_reads_back_witness:
  "json_parse sample_json_text = Inr sample_json \<and> {w. json_document w sample_json_text} = {sample_json}"
  by (rule json_reads_back [OF sample_json_document])

end
