(* ===== verification/Importers.thy ===== *)
theory Importers
  imports Json FromProfile
begin

text \<open>
  The importers of whole configurations: sing-box (\<open>parse/singbox.rs\<close>) and Xray (\<open>parse/xray.rs\<close>) as JSON, Clash
  (\<open>parse/clash.rs\<close>) in the part of YAML its reader knows, and the choice between them and the list of links
  (\<open>parse/subscription.rs\<close>). Every entry gives a profile or an error of its own.
  The texts of the JSON errors are shortened.
\<close>

type_synonym params = "string \<Rightarrow> string option"
type_synonym imported = "parse_error + server_profile"

abbreviation no_params :: params where
  "no_params \<equiv> \<lambda>_. None"

text \<open>\<open>.filter(|s| !s.is_empty())\<close>\<close>

definition nonempty :: "string option \<Rightarrow> string option" where
  "nonempty s = (if s = Some [] then None else s)"

text \<open>\<open>and_then(JsonValue::as_str)\<close> behind \<open>get\<close>.\<close>

definition get_str :: "string \<Rightarrow> json \<Rightarrow> string option" where
  "get_str key v = Option.bind (jget key v) as_str"

definition put_opt :: "string \<Rightarrow> string option \<Rightarrow> params \<Rightarrow> params" where
  "put_opt key value ps = (case value of Some s \<Rightarrow> ps(key \<mapsto> s) | None \<Rightarrow> ps)"

definition default_name :: "string option \<Rightarrow> string \<Rightarrow> u16 \<Rightarrow> string" where
  "default_name name address port = (case nonempty name of Some n \<Rightarrow> n | None \<Rightarrow> address @ '':'' @ show_nat (unat port))"

fun join_with :: "string \<Rightarrow> string list \<Rightarrow> string" where
  "join_with sep [] = []"
| "join_with sep [x] = x"
| "join_with sep (x # xs) = x @ sep @ join_with sep xs"

section \<open>sing-box\<close>

definition singbox_map_type :: "string \<Rightarrow> parse_error + protocol_kind" where
  "singbox_map_type kind =
     (if kind = ''vless'' then Inr Vless
      else if kind = ''shadowsocks'' then Inr Shadowsocks
      else if kind = ''trojan'' then Inr TrojanKind
      else if kind = ''wireguard'' then Inr Wireguard
      else if kind = ''socks'' then Inr Socks5
      else if kind = ''http'' then Inr Http
      else if kind = ''hysteria2'' then Inr Hysteria2Kind
      else if kind = ''tuic'' then Inr TuicKind
      else Inl (UnknownScheme kind))"

definition insert_field :: "json \<Rightarrow> string \<Rightarrow> string \<Rightarrow> params \<Rightarrow> parse_error + params" where
  "insert_field ob src key ps =
     rbind (ok_or (nonempty (get_str src ob)) (MissingField key)) (\<lambda>value. Inr (ps(key \<mapsto> value)))"

definition insert_opt :: "json \<Rightarrow> string \<Rightarrow> string \<Rightarrow> params \<Rightarrow> params" where
  "insert_opt ob src key = put_opt key (nonempty (get_str src ob))"

definition singbox_tls :: "json \<Rightarrow> params \<Rightarrow> params" where
  "singbox_tls ob ps =
     (case jget ''tls'' ob of
        None \<Rightarrow> ps
      | Some tls \<Rightarrow>
          let ps = put_opt ''sni'' (get_str ''server_name'' tls) ps;
              ps = (case jget ''reality'' tls of
                      Some reality \<Rightarrow> put_opt ''sid'' (get_str ''short_id'' reality) (put_opt ''pbk'' (get_str ''public_key'' reality) ps)
                    | None \<Rightarrow> ps);
              ps = put_opt ''fp'' (Option.bind (jget ''utls'' tls) (get_str ''fingerprint'')) ps
          in (case Option.bind (jget ''alpn'' tls) as_array of
                Some alpn \<Rightarrow> put_opt ''alpn'' (nonempty (Some (join_with '','' (List.map_filter as_str alpn)))) ps
              | None \<Rightarrow> ps))"

definition singbox_transport :: "json \<Rightarrow> params \<Rightarrow> params" where
  "singbox_transport ob ps =
     (case jget ''transport'' ob of
        None \<Rightarrow> ps
      | Some transport \<Rightarrow>
          put_opt ''host'' (Option.bind (jget ''headers'' transport) (get_str ''Host''))
            (put_opt ''path'' (get_str ''path'' transport) (put_opt ''type'' (get_str ''type'' transport) ps)))"

definition singbox_fields :: "protocol_kind \<Rightarrow> json \<Rightarrow> parse_error + params" where
  "singbox_fields protocol ob =
     (case protocol of
        Vless \<Rightarrow> rbind (insert_field ob ''uuid'' ''uuid'' no_params) (\<lambda>ps. Inr (insert_opt ob ''flow'' ''flow'' ps))
      | TuicKind \<Rightarrow> rbind (insert_field ob ''uuid'' ''uuid'' no_params) (insert_field ob ''password'' ''password'')
      | Shadowsocks \<Rightarrow> rbind (insert_field ob ''method'' ''method'' no_params) (insert_field ob ''password'' ''password'')
      | TrojanKind \<Rightarrow> insert_field ob ''password'' ''password'' no_params
      | Hysteria2Kind \<Rightarrow> insert_field ob ''password'' ''password'' no_params
      | _ \<Rightarrow> Inr no_params)"

definition singbox_outbound :: "json \<Rightarrow> imported" where
  "singbox_outbound ob =
     rbind (ok_or (get_str ''type'' ob) (MissingField ''type'')) (\<lambda>kind.
     rbind (singbox_map_type kind) (\<lambda>protocol.
     rbind (ok_or (nonempty (get_str ''server'' ob)) MissingHost) (\<lambda>address.
     rbind (ok_or (Option.bind (jget ''server_port'' ob) as_u16_port) MissingPort) (\<lambda>port.
     rbind (singbox_fields protocol ob) (\<lambda>ps.
     Inr \<lparr>sp_name = default_name (get_str ''tag'' ob) address port, sp_protocol = protocol, sp_address = address, sp_port = port,
          sp_params = singbox_transport ob (singbox_tls ob ps), sp_tags = []\<rparr>)))))"

definition parse_singbox_config :: "string \<Rightarrow> imported list" where
  "parse_singbox_config input =
     (case json_parse input of
        Inl e \<Rightarrow> [Inl e]
      | Inr doc \<Rightarrow>
          (case doc of
             JObject _ \<Rightarrow>
               (case Option.bind (jget ''outbounds'' doc) as_array of
                  Some arr \<Rightarrow> map singbox_outbound arr
                | None \<Rightarrow> if jget ''type'' doc \<noteq> None then [singbox_outbound doc] else [Inl (JsonError ''outbounds'')])
           | JArray arr \<Rightarrow> map singbox_outbound arr
           | _ \<Rightarrow> [Inl (JsonError ''object or array'')]))"

section \<open>Xray\<close>

definition insert_str :: "string \<Rightarrow> json option \<Rightarrow> params \<Rightarrow> params" where
  "insert_str key value = put_opt key (nonempty (Option.bind value as_str))"

definition address_port :: "json \<Rightarrow> parse_error + string \<times> u16" where
  "address_port node =
     rbind (ok_or (get_str ''address'' node) (MissingField ''address'')) (\<lambda>address.
     rbind (ok_or (Option.bind (jget ''port'' node) as_u16_port) MissingPort) (\<lambda>port. Inr (address, port)))"

definition first_of :: "string \<Rightarrow> json \<Rightarrow> json option" where
  "first_of key v = Option.bind (Option.bind (jget key v) as_array) (\<lambda>a. case a of [] \<Rightarrow> None | x # _ \<Rightarrow> Some x)"

definition extract_vless :: "json \<Rightarrow> params \<Rightarrow> parse_error + (string \<times> u16) \<times> params" where
  "extract_vless node ps =
     rbind (address_port node) (\<lambda>ap.
     rbind (ok_or (first_of ''users'' node) (MissingField ''users'')) (\<lambda>user.
     rbind (ok_or (get_str ''id'' user) (MissingField ''id'')) (\<lambda>uuid.
     Inr (ap, insert_str ''encryption'' (jget ''encryption'' user) (insert_str ''flow'' (jget ''flow'' user) (ps(''uuid'' \<mapsto> uuid)))))))"

definition extract_server :: "protocol_kind \<Rightarrow> json \<Rightarrow> params \<Rightarrow> parse_error + (string \<times> u16) \<times> params" where
  "extract_server kind server ps =
     rbind (address_port server) (\<lambda>ap.
     case kind of
       Shadowsocks \<Rightarrow>
         rbind (ok_or (get_str ''method'' server) (MissingField ''method'')) (\<lambda>meth.
         rbind (ok_or (get_str ''password'' server) (MissingField ''password'')) (\<lambda>password.
         Inr (ap, ps(''method'' \<mapsto> meth, ''password'' \<mapsto> password))))
     | TrojanKind \<Rightarrow>
         rbind (ok_or (get_str ''password'' server) (MissingField ''password'')) (\<lambda>password.
         Inr (ap, ps(''password'' \<mapsto> password)))
     | _ \<Rightarrow> Inr (ap, ps))"

definition extract_stream :: "json \<Rightarrow> params \<Rightarrow> params" where
  "extract_stream stream ps =
     (let ps = insert_str ''security'' (jget ''security'' stream) (insert_str ''type'' (jget ''network'' stream) ps);
          ps = (case jget ''tlsSettings'' stream of Some tls \<Rightarrow> insert_str ''sni'' (jget ''serverName'' tls) ps | None \<Rightarrow> ps);
          ps = (case jget ''realitySettings'' stream of
                  Some re \<Rightarrow> insert_str ''fp'' (jget ''fingerprint'' re) (insert_str ''sid'' (jget ''shortId'' re)
                    (insert_str ''pbk'' (jget ''publicKey'' re) (insert_str ''sni'' (jget ''serverName'' re) ps)))
                | None \<Rightarrow> ps);
          ps = (case jget ''wsSettings'' stream of
                  Some ws \<Rightarrow> insert_str ''host'' (Option.bind (jget ''headers'' ws) (jget ''Host'')) (insert_str ''path'' (jget ''path'' ws) ps)
                | None \<Rightarrow> ps)
      in (case jget ''grpcSettings'' stream of Some grpc \<Rightarrow> insert_str ''servicename'' (jget ''serviceName'' grpc) ps | None \<Rightarrow> ps))"

definition xray_kind :: "string \<Rightarrow> parse_error + protocol_kind" where
  "xray_kind protocol =
     (if protocol = ''vless'' then Inr Vless
      else if protocol = ''shadowsocks'' then Inr Shadowsocks
      else if protocol = ''trojan'' then Inr TrojanKind
      else if protocol = ''socks'' then Inr Socks5
      else if protocol = ''http'' then Inr Http
      else Inl (UnknownScheme protocol))"

definition xray_outbound :: "json \<Rightarrow> imported" where
  "xray_outbound ob =
     rbind (ok_or (get_str ''protocol'' ob) (MissingField ''protocol'')) (\<lambda>protocol.
     rbind (xray_kind protocol) (\<lambda>kind.
     rbind (if kind = Vless
            then rbind (ok_or (Option.bind (jget ''settings'' ob) (first_of ''vnext'')) (MissingField ''vnext'')) (\<lambda>node.
                 extract_vless node no_params)
            else rbind (ok_or (Option.bind (jget ''settings'' ob) (first_of ''servers'')) (MissingField ''servers'')) (\<lambda>server.
                 extract_server kind server no_params)) (\<lambda>((address, port), ps).
     let ps = (case jget ''streamSettings'' ob of Some stream \<Rightarrow> extract_stream stream ps | None \<Rightarrow> ps)
     in Inr \<lparr>sp_name = default_name (get_str ''tag'' ob) address port, sp_protocol = kind, sp_address = address, sp_port = port,
             sp_params = ps, sp_tags = []\<rparr>)))"

text \<open>A balancer of a configuration: its name and the prefixes of the outbounds it groups.\<close>

definition balancer_entry :: "json \<Rightarrow> (string \<times> string list) option" where
  "balancer_entry b =
     Option.bind (get_str ''tag'' b) (\<lambda>name.
       let sel = (case Option.bind (jget ''selector'' b) as_array of
                    Some s \<Rightarrow> filter (\<lambda>p. p \<noteq> []) (map trim (List.map_filter as_str s)) | None \<Rightarrow> [])
       in if sel = [] then None else Some (name, sel))"

definition config_balancers :: "json \<Rightarrow> (string \<times> string list) list" where
  "config_balancers config =
     (case Option.bind (Option.bind (jget ''routing'' config) (jget ''balancers'')) as_array of
        Some arr \<Rightarrow> List.map_filter balancer_entry arr | None \<Rightarrow> [])"

definition balancer_of :: "(string \<times> string list) list \<Rightarrow> string \<Rightarrow> string option" where
  "balancer_of balancers ob_tag = map_option fst (find (\<lambda>(_, sel). list_ex (\<lambda>p. prefix p ob_tag) sel) balancers)"

text \<open>The middle dot between the two parts of the name, in UTF-8.\<close>

definition name_dot :: string where
  "name_dot = '' '' @ [CHR 0xC2, CHR 0xB7] @ '' ''"

fun skipped :: "imported \<Rightarrow> bool" where
  "skipped (Inl (UnknownScheme _)) = True"
| "skipped (Inl (MissingField f)) = (f = ''protocol'')"
| "skipped _ = False"

definition config_node :: "string option \<Rightarrow> (string \<times> string list) list \<Rightarrow> json \<Rightarrow> imported" where
  "config_node remarks balancers ob =
     rbind (xray_outbound ob) (\<lambda>p.
       let p = (case remarks of Some rmk \<Rightarrow> p\<lparr>sp_name := rmk @ name_dot @ sp_name p\<rparr> | None \<Rightarrow> p)
       in Inr (p\<lparr>sp_params := put_opt ''balancer'' (balancer_of balancers (unwrap_or (get_str ''tag'' ob) [])) (sp_params p)\<rparr>))"

definition parse_config_entry :: "json \<Rightarrow> imported list" where
  "parse_config_entry config =
     (let remarks = nonempty (map_option trim (get_str ''remarks'' config));
          balancers = config_balancers config
      in case Option.bind (jget ''outbounds'' config) as_array of
           None \<Rightarrow> []
         | Some obs \<Rightarrow> filter (\<lambda>r. \<not> skipped r) (map (config_node remarks balancers) obs))"

definition parse_xray_config :: "string \<Rightarrow> imported list" where
  "parse_xray_config input =
     (case json_parse input of
        Inl e \<Rightarrow> [Inl e]
      | Inr doc \<Rightarrow>
          (case as_array doc of
             Some arr \<Rightarrow>
               if list_ex (\<lambda>c. jget ''outbounds'' c \<noteq> None) arr then concat (map parse_config_entry arr)
               else map xray_outbound arr
           | None \<Rightarrow>
               (case Option.bind (jget ''outbounds'' doc) as_array of
                  Some arr \<Rightarrow> map xray_outbound arr
                | None \<Rightarrow> if jget ''protocol'' doc \<noteq> None then [xray_outbound doc] else [Inl (MissingField ''outbounds'')])))"

section \<open>Clash\<close>

definition indent :: "string \<Rightarrow> nat" where
  "indent s = length s - length (trim_start_matches (CHR '' '') s)"

definition unquote :: "string \<Rightarrow> string" where
  "unquote s =
     (let s = trim s
      in if 2 \<le> length s \<and> (prefix [CHR 0x22] s \<and> suffix [CHR 0x22] s \<or> prefix [CHR 0x27] s \<and> suffix [CHR 0x27] s)
         then take (length s - 2) (drop 1 s) else s)"

definition push_kv :: "string \<Rightarrow> (string \<times> string) list \<Rightarrow> (string \<times> string) list" where
  "push_kv s out =
     (case split_once (CHR '':'') s of
        None \<Rightarrow> out
      | Some (k, v) \<Rightarrow>
          let key = trim k; v = trim v
          in if key = [] then out
             else (case Option.bind (strip_prefix ''['' v) (strip_suffix '']'') of
                 Some inner \<Rightarrow> out @ [(key, join_with '','' (filter (\<lambda>x. x \<noteq> []) (map unquote (split_on (CHR '','') inner))))]
               | None \<Rightarrow> if prefix ''{'' v then out else out @ [(key, unquote v)]))"

text \<open>The pieces between the commas outside of brackets; \<open>cur\<close> is the piece so far.\<close>

fun flow_pieces :: "int \<Rightarrow> string \<Rightarrow> string \<Rightarrow> string list" where
  "flow_pieces depth cur [] = [cur]"
| "flow_pieces depth cur (c # cs) =
     (if c = CHR ''['' \<or> c = CHR ''{'' then flow_pieces (depth + 1) (cur @ [c]) cs
      else if c = CHR '']'' \<or> c = CHR ''}'' then flow_pieces (depth - 1) (cur @ [c]) cs
      else if c = CHR '','' \<and> depth = 0 then cur # flow_pieces depth [] cs
      else flow_pieces depth (cur @ [c]) cs)"

definition parse_flow_map :: "string \<Rightarrow> (string \<times> string) list \<Rightarrow> (string \<times> string) list" where
  "parse_flow_map inner_text out = fold push_kv (flow_pieces 0 [] inner_text) out"

definition clash_map_type :: "string \<Rightarrow> parse_error + protocol_kind" where
  "clash_map_type kind =
     (if kind = ''ss'' \<or> kind = ''shadowsocks'' then Inr Shadowsocks
      else if kind = ''trojan'' then Inr TrojanKind
      else if kind = ''vless'' then Inr Vless
      else if kind = ''tuic'' then Inr TuicKind
      else if kind = ''hysteria2'' \<or> kind = ''hy2'' then Inr Hysteria2Kind
      else if kind = ''socks5'' \<or> kind = ''socks'' then Inr Socks5
      else if kind = ''http'' then Inr Http
      else Inl (UnknownScheme kind))"

definition clash_req :: "(string \<times> string) list \<Rightarrow> string \<Rightarrow> string \<Rightarrow> params \<Rightarrow> parse_error + params" where
  "clash_req kv src key ps =
     rbind (ok_or (nonempty (map_of kv src)) (MissingField key)) (\<lambda>val. Inr (ps(key \<mapsto> val)))"

definition clash_opt :: "(string \<times> string) list \<Rightarrow> string \<Rightarrow> string \<Rightarrow> params \<Rightarrow> params" where
  "clash_opt kv src key = put_opt key (nonempty (map_of kv src))"

definition clash_params :: "protocol_kind \<Rightarrow> (string \<times> string) list \<Rightarrow> parse_error + params" where
  "clash_params protocol kv =
     (case protocol of
        Shadowsocks \<Rightarrow> rbind (clash_req kv ''cipher'' ''method'' no_params) (clash_req kv ''password'' ''password'')
      | TrojanKind \<Rightarrow>
          rbind (clash_req kv ''password'' ''password'' no_params) (\<lambda>ps.
          Inr (clash_opt kv ''alpn'' ''alpn'' (clash_opt kv ''sni'' ''sni'' ps)))
      | Vless \<Rightarrow>
          rbind (clash_req kv ''uuid'' ''uuid'' no_params) (\<lambda>ps.
          Inr (clash_opt kv ''alpn'' ''alpn'' (clash_opt kv ''client-fingerprint'' ''fp'' (clash_opt kv ''network'' ''type''
            (clash_opt kv ''sni'' ''sni'' (clash_opt kv ''servername'' ''sni'' (clash_opt kv ''flow'' ''flow'' ps)))))))
      | TuicKind \<Rightarrow>
          rbind (clash_req kv ''uuid'' ''uuid'' no_params) (\<lambda>ps.
          rbind (clash_req kv ''password'' ''password'' ps) (\<lambda>ps.
          Inr (clash_opt kv ''alpn'' ''alpn'' (clash_opt kv ''sni'' ''sni'' ps))))
      | Hysteria2Kind \<Rightarrow>
          rbind (clash_req kv ''password'' ''auth'' no_params) (\<lambda>ps.
          Inr (clash_opt kv ''obfs-password'' ''obfs-password'' (clash_opt kv ''obfs'' ''obfs'' (clash_opt kv ''sni'' ''sni'' ps))))
      | Socks5 \<Rightarrow> Inr (clash_opt kv ''password'' ''password'' (clash_opt kv ''username'' ''username'' no_params))
      | Http \<Rightarrow> Inr (clash_opt kv ''password'' ''password'' (clash_opt kv ''username'' ''username'' no_params))
      | _ \<Rightarrow> Inr no_params)"

definition item_to_profile :: "(string \<times> string) list \<Rightarrow> imported" where
  "item_to_profile kv =
     rbind (ok_or (map_of kv ''type'') (MissingField ''type'')) (\<lambda>kind.
     rbind (clash_map_type kind) (\<lambda>protocol.
     rbind (ok_or (nonempty (map_of kv ''server'')) MissingHost) (\<lambda>address.
     rbind (ok_or (Option.bind (Option.bind (map_of kv ''port'') parse_u16) (\<lambda>p. if p \<noteq> 0 then Some p else None)) MissingPort) (\<lambda>port.
     rbind (clash_params protocol kv) (\<lambda>ps.
     Inr \<lparr>sp_name = default_name (map_of kv ''name'') address port, sp_protocol = protocol, sp_address = address, sp_port = port,
          sp_params = ps, sp_tags = []\<rparr>)))))"

text \<open>The section \<open>proxies:\<close> and the indentation of its first line.\<close>

definition proxies_line :: "string \<Rightarrow> bool" where
  "proxies_line l \<longleftrightarrow> (case strip_prefix ''proxies:'' (trim_start l) of Some tail \<Rightarrow> trim tail = [] | None \<Rightarrow> False)"

definition clash_entry :: "string \<Rightarrow> (string \<times> string) list" where
  "clash_entry rest =
     (case Option.bind (strip_prefix ''{'' rest) (strip_suffix ''}'') of
        Some inner_text \<Rightarrow> parse_flow_map inner_text []
      | None \<Rightarrow> if rest \<noteq> [] then push_kv rest [] else [])"

definition closed :: "(string \<times> string) list option \<Rightarrow> (string \<times> string) list list" where
  "closed cur = (case cur of Some it \<Rightarrow> [it] | None \<Rightarrow> [])"

fun clash_items :: "nat \<Rightarrow> (string \<times> string) list option \<Rightarrow> string list \<Rightarrow> (string \<times> string) list list" where
  "clash_items base cur [] = closed cur"
| "clash_items base cur (raw # ls) =
     (let line = trim_end raw; body = trim_start line
      in if trim line = [] \<or> prefix ''#'' body then clash_items base cur ls
         else if indent line \<le> base \<and> \<not> prefix ''-'' body then closed cur
         else (case strip_prefix ''-'' body of
             Some rest \<Rightarrow> closed cur @ clash_items base (Some (clash_entry (trim rest))) ls
           | None \<Rightarrow> clash_items base (map_option (push_kv body) cur) ls))"

definition parse_clash :: "string \<Rightarrow> imported list" where
  "parse_clash input =
     (case dropWhile (\<lambda>l. \<not> proxies_line l) (str_lines input) of
        [] \<Rightarrow> [Inl (JsonError ''proxies'')]
      | l # ls \<Rightarrow>
          let items = clash_items (indent l) None ls
          in if items = [] then [Inl (JsonError ''empty proxies'')] else map item_to_profile items)"

section \<open>Subscriptions\<close>

definition parse_subscription :: "string \<Rightarrow> imported list" where
  "parse_subscription body =
     (let t = trim_start body
      in if prefix ''{'' t \<or> prefix ''['' t
         then (let sb = parse_singbox_config body
               in if list_ex is_ok sb then sb else parse_xray_config body)
         else if find_str ''proxies:'' t \<noteq> None then parse_clash body
         else parse_link_list body)"

section \<open>What an imported node connects with\<close>

lemma put_opt_other [simp]: "k \<noteq> key \<Longrightarrow> put_opt key v ps k = ps k"
  by (simp add: put_opt_def split: option.splits)

lemma put_opt_same: "put_opt key v ps key = (case v of Some s \<Rightarrow> Some s | None \<Rightarrow> ps key)"
  by (simp add: put_opt_def split: option.splits)

lemma insert_str_other [simp]: "k \<noteq> key \<Longrightarrow> insert_str key v ps k = ps k"
  by (simp add: insert_str_def)

lemma insert_str_same: "insert_str key v ps key = (case nonempty (Option.bind v as_str) of Some s \<Rightarrow> Some s | None \<Rightarrow> ps key)"
  by (simp add: insert_str_def put_opt_same)

text \<open>
  Neither the sing-box nor the Clash importer ever notes which security a node uses: a VLESS node behind REALITY is imported
  as one over TCP without TLS.
\<close>

lemma singbox_fields_security: "singbox_fields k ob = Inr ps \<Longrightarrow> ps ''security'' = None"
  by (cases k) (auto simp: singbox_fields_def insert_field_def insert_opt_def)

lemma singbox_security: "singbox_outbound ob = Inr p \<Longrightarrow> param p ''security'' = None"
  by (auto simp: singbox_outbound_def param_def singbox_transport_def singbox_tls_def Let_def dest!: singbox_fields_security
      split: option.splits)

lemma clash_params_security: "clash_params k kv = Inr ps \<Longrightarrow> ps ''security'' = None"
  by (cases k) (auto simp: clash_params_def clash_req_def clash_opt_def)

lemma clash_security: "item_to_profile kv = Inr p \<Longrightarrow> param p ''security'' = None"
  by (auto simp: item_to_profile_def param_def dest!: clash_params_security)

lemma vless_without_security: "param p ''security'' = None \<Longrightarrow> outbound_from_profile p = Inr (CVless c) \<Longrightarrow> vc_transport c = TcpTransport"
  by (cases "sp_protocol p")
    (auto simp: outbound_from_profile_def vless_from_def shadowsocks_from_def trojan_from_def tuic_from_def hysteria2_from_def
      wireguard_from_def Let_def split: option.splits if_splits)

lemma imported_reality_is_plain_tcp:
  "singbox_outbound ob = Inr p \<Longrightarrow> outbound_from_profile p = Inr (CVless c) \<Longrightarrow> vc_transport c = TcpTransport"
  "item_to_profile kv = Inr p \<Longrightarrow> outbound_from_profile p = Inr (CVless c) \<Longrightarrow> vc_transport c = TcpTransport"
  using vless_without_security singbox_security clash_security by blast+

section \<open>An Xray subscription\<close>

text \<open>A VLESS node behind REALITY, and the objects of an Xray configuration that describe it: any order of the members, any further ones.\<close>

record reality_node =
  rn_address :: string
  rn_port :: u16
  rn_uuid :: string
  rn_flow :: string
  rn_pbk :: string
  rn_sid :: string
  rn_sni :: string

definition xray_user :: "reality_node \<Rightarrow> json \<Rightarrow> bool" where
  "xray_user n user \<longleftrightarrow> get_str ''id'' user = Some (rn_uuid n) \<and> get_str ''flow'' user = Some (rn_flow n)
     \<and> get_str ''encryption'' user \<in> {None, Some ''none''}"

definition xray_server :: "reality_node \<Rightarrow> json \<Rightarrow> bool" where
  "xray_server n server \<longleftrightarrow> get_str ''address'' server = Some (rn_address n)
     \<and> jget ''port'' server \<in> {Some (JNumber (to_f64 False (unat (rn_port n)) 0)), Some (JString (show_nat (unat (rn_port n))))}
     \<and> (\<exists>user. first_of ''users'' server = Some user \<and> xray_user n user)"

definition xray_stream :: "reality_node \<Rightarrow> json \<Rightarrow> bool" where
  "xray_stream n stream \<longleftrightarrow> get_str ''security'' stream = Some ''reality''
     \<and> (\<exists>re. jget ''realitySettings'' stream = Some re \<and> get_str ''serverName'' re = Some (rn_sni n)
          \<and> get_str ''publicKey'' re = Some (rn_pbk n) \<and> get_str ''shortId'' re = Some (rn_sid n))"

definition xray_node :: "reality_node \<Rightarrow> json \<Rightarrow> bool" where
  "xray_node n ob \<longleftrightarrow> get_str ''type'' ob = None \<and> get_str ''protocol'' ob = Some ''vless''
     \<and> (\<exists>settings server. jget ''settings'' ob = Some settings \<and> first_of ''vnext'' settings = Some server \<and> xray_server n server)
     \<and> (\<exists>stream. jget ''streamSettings'' ob = Some stream \<and> xray_stream n stream)
     \<and> rn_flow n \<noteq> [] \<and> rn_pbk n \<noteq> [] \<and> rn_sni n \<noteq> []"

definition reality_outbound :: "reality_node \<Rightarrow> bytes \<Rightarrow> outbound_config" where
  "reality_outbound n uuid = CVless
     \<lparr>vc_server = rn_address n @ '':'' @ show_nat (unat (rn_port n)), vc_uuid = uuid, vc_flow = Some (rn_flow n),
      vc_transport = RealityTransport \<lparr>rt_public_key = rn_pbk n, rt_short_id = rn_sid n, rt_server_name = rn_sni n\<rparr>,
      vc_encryption = None\<rparr>"

lemma port_read:
  assumes "jget ''port'' v \<in> {Some (JNumber (to_f64 False (unat (p :: u16)) 0)), Some (JString (show_nat (unat p)))}"
  shows "Option.bind (jget ''port'' v) as_u16_port = Some p"
proof -
  have n: "unat p < 65536" using unsigned_less [of p, where 'a = nat] by simp
  moreover have "(65536 :: nat) < 2 ^ 53" by simp
  ultimately have "unat p < 2 ^ 53" by (rule less_trans)
  then have "f64_u64 (to_f64 False (unat p) 0) = Some (of_nat (unat p))" by (rule f64_nat)
  moreover have "unat (of_nat (unat p) :: u64) = unat p" by (intro unat_of_nat_u64) (rule less_trans [OF n], simp)
  moreover have "ucast (ucast p :: u64) = p" by transfer simp
  then have "ucast (of_nat (unat p) :: u64) = p" by simp
  ultimately show ?thesis using assms n parse_u16_show [of p] by (auto simp: as_u16_port_def as_u64_def as_str_def)
qed

lemma extract_stream_reality:
  assumes "xray_stream n stream" "rn_pbk n \<noteq> []" "rn_sni n \<noteq> []" "ps ''sid'' = None"
  shows "extract_stream stream ps ''security'' = Some ''reality''" "extract_stream stream ps ''pbk'' = Some (rn_pbk n)"
    "extract_stream stream ps ''sni'' = Some (rn_sni n)" "unwrap_or (extract_stream stream ps ''sid'') [] = rn_sid n"
    "k \<in> {''uuid'', ''flow'', ''encryption''} \<Longrightarrow> extract_stream stream ps k = ps k"
proof -
  obtain re where re: "jget ''realitySettings'' stream = Some re" "Option.bind (jget ''serverName'' re) as_str = Some (rn_sni n)"
    "Option.bind (jget ''publicKey'' re) as_str = Some (rn_pbk n)" "Option.bind (jget ''shortId'' re) as_str = Some (rn_sid n)"
    "Option.bind (jget ''security'' stream) as_str = Some ''reality''"
    using assms(1) by (auto simp: xray_stream_def get_str_def)
  note d = extract_stream_def Let_def insert_str_same nonempty_def
  show "extract_stream stream ps ''security'' = Some ''reality''" using re by (simp add: d split: option.splits)
  show "extract_stream stream ps ''pbk'' = Some (rn_pbk n)" using re assms by (simp add: d split: option.splits)
  show "extract_stream stream ps ''sni'' = Some (rn_sni n)" using re assms by (simp add: d split: option.splits)
  show "unwrap_or (extract_stream stream ps ''sid'') [] = rn_sid n"
    using re assms by (simp add: d unwrap_or_def split: option.splits)
  show "extract_stream stream ps k = ps k" if "k \<in> {''uuid'', ''flow'', ''encryption''}"
    using that by (auto simp: extract_stream_def Let_def split: option.splits)
qed

lemma extract_vless_node:
  assumes "xray_server n server" "rn_flow n \<noteq> []"
  obtains ps where "extract_vless server no_params = Inr ((rn_address n, rn_port n), ps)" "ps ''uuid'' = Some (rn_uuid n)"
    "ps ''flow'' = Some (rn_flow n)" "ps ''encryption'' \<in> {None, Some ''none''}" "ps ''sid'' = None"
proof -
  obtain user where u: "first_of ''users'' server = Some user" "xray_user n user" using assms(1) by (auto simp: xray_server_def)
  have ap: "address_port server = Inr (rn_address n, rn_port n)"
    using assms(1) port_read [of server "rn_port n"] by (auto simp: xray_server_def address_port_def)
  show ?thesis
    by (rule that [of "insert_str ''encryption'' (jget ''encryption'' user) (insert_str ''flow'' (jget ''flow'' user) [''uuid'' \<mapsto> rn_uuid n])"])
      (use u ap assms(2) in \<open>auto simp: extract_vless_def xray_user_def get_str_def insert_str_same nonempty_def\<close>)
qed

lemma xray_node_imported:
  assumes "xray_node n ob" and "parse_uuid (rn_uuid n) = Some uuid"
  obtains p where "xray_outbound ob = Inr p" and "outbound_from_profile p = Inr (reality_outbound n uuid)"
proof -
  obtain settings server stream where o: "get_str ''protocol'' ob = Some ''vless''" "jget ''settings'' ob = Some settings"
      "first_of ''vnext'' settings = Some server" "jget ''streamSettings'' ob = Some stream"
    and s: "xray_server n server" "xray_stream n stream" "rn_flow n \<noteq> []" "rn_pbk n \<noteq> []" "rn_sni n \<noteq> []"
    using assms(1) by (auto simp: xray_node_def)
  obtain ps where ps: "extract_vless server no_params = Inr ((rn_address n, rn_port n), ps)" "ps ''uuid'' = Some (rn_uuid n)"
    "ps ''flow'' = Some (rn_flow n)" "ps ''encryption'' \<in> {None, Some ''none''}" "ps ''sid'' = None"
    using extract_vless_node [OF s(1,3)] by blast
  note st = extract_stream_reality [where ps = ps, OF s(2,4,5) ps(5)]
  let ?p = "\<lparr>sp_name = default_name (get_str ''tag'' ob) (rn_address n) (rn_port n), sp_protocol = Vless, sp_address = rn_address n,
    sp_port = rn_port n, sp_params = extract_stream stream ps, sp_tags = []\<rparr>"
  have "param ?p ''security'' = Some ''reality''" "param ?p ''pbk'' = Some (rn_pbk n)" "param ?p ''sni'' = Some (rn_sni n)"
    "unwrap_or (param ?p ''sid'') [] = rn_sid n" "param ?p ''uuid'' = Some (rn_uuid n)" "param ?p ''flow'' = Some (rn_flow n)"
    "param ?p ''encryption'' \<in> {None, Some ''none''}"
    unfolding param_def using st ps by simp_all
  then have "outbound_from_profile ?p = Inr (reality_outbound n uuid)"
    using assms(2) unfolding outbound_from_profile_def vless_from_def reality_outbound_def or_else_def
    by (auto simp: unwrap_or_def)
  moreover have "xray_outbound ob = Inr ?p" using o ps(1) by (simp add: xray_outbound_def xray_kind_def)
  ultimately show ?thesis by (intro that)
qed

lemma ws_prefix_control:
  "ws_prefix (CHR 0x09 # s) = Some [CHR 0x09]" "ws_prefix (CHR 0x0A # s) = Some [CHR 0x0A]" "ws_prefix (CHR 0x0D # s) = Some [CHR 0x0D]"
  by (simp_all add: ws_prefix_def white_space_def char_of_def bit_0)

lemma ws_prefix_json: "json_ws c \<Longrightarrow> ws_prefix (c # s) = Some [c]"
proof -
  assume w: "json_ws c"
  have "c = char_of (of_char c :: nat)" by simp
  then have "c = CHR '' '' \<or> c = CHR 0x09 \<or> c = CHR 0x0A \<or> c = CHR 0x0D" using w by (auto simp: json_ws_def char_of_def bit_0)
  then show ?thesis using ws_prefix_space ws_prefix_control by blast
qed

lemma trim_start_blank: "blank w \<Longrightarrow> trim_start (w @ CHR ''{'' # r) = CHR ''{'' # r"
proof (induction w)
  case Nil
  have "ws_prefix (CHR ''{'' # r) = None" by (rule ws_prefix_graphic) (simp add: graphic_def)
  then show ?case by (simp add: trim_start.simps)
next
  case (Cons c w)
  then show ?case by (subst trim_start.simps) (simp add: blank_def ws_prefix_json)
qed

lemma object_document:
  assumes "json_document (JObject kvs) body"
  shows "prefix ''{'' (trim_start body)"
proof -
  obtain a t b where s: "blank a" "json_text (JObject kvs) t" "body = a @ t @ b" using assms by (auto simp: json_document_def)
  from s(2) obtain r where "t = CHR ''{'' # r" by cases auto
  then show ?thesis using s(1,3) trim_start_blank [of a "r @ b"] by simp
qed

lemma xray_not_singbox: "list_all2 xray_node ns obs \<Longrightarrow> \<not> list_ex is_ok (map singbox_outbound obs)"
  by (induction rule: list_all2_induct) (auto simp: singbox_outbound_def xray_node_def)

lemma xray_nodes_imported:
  assumes "list_all2 xray_node ns obs" and "list_all2 (\<lambda>n u. parse_uuid (rn_uuid n) = Some u) ns uuids"
  obtains ps where "map xray_outbound obs = map Inr ps" and "map outbound_from_profile ps = map2 (\<lambda>n u. Inr (reality_outbound n u)) ns uuids"
  using assms
proof (induction arbitrary: uuids thesis rule: list_all2_induct)
  case Nil
  then show ?case by simp
next
  case (Cons n ns ob obs)
  obtain u us where u: "uuids = u # us" "parse_uuid (rn_uuid n) = Some u"
    "list_all2 (\<lambda>n u. parse_uuid (rn_uuid n) = Some u) ns us"
    using Cons.prems(2) by (auto simp: list_all2_Cons1)
  obtain p where p: "xray_outbound ob = Inr p" "outbound_from_profile p = Inr (reality_outbound n u)"
    using xray_node_imported [OF Cons.hyps(1) u(2)] by blast
  obtain ps where "map xray_outbound obs = map Inr ps" "map outbound_from_profile ps = map2 (\<lambda>n u. Inr (reality_outbound n u)) ns us"
    using Cons.IH [OF _ u(3)] by blast
  then show ?case using p u(1) by (intro Cons.prems(1) [of "p # ps"]) simp_all
qed


text \<open>A subscription with one node, as it is written.\<close>

abbreviation quoted :: "string \<Rightarrow> string" where
  "quoted s \<equiv> CHR 0x22 # s @ [CHR 0x22]"

abbreviation plain_string :: "string \<Rightarrow> bool" where
  "plain_string s \<equiv> list_all (\<lambda>c. c \<noteq> CHR 0x22 \<and> c \<noteq> CHR 0x5C) s"

lemma plain_string_text: "plain_string s \<Longrightarrow> string_text s s"
  by (induction s) (auto intro: string_text.intros)

lemma compact_text:
  "plain_string s \<Longrightarrow> json_text (JString s) (quoted s)"
  "plain_string k \<Longrightarrow> json_text v t \<Longrightarrow> members_text [(k, v)] (quoted k @ '':'' @ t)"
  "plain_string k \<Longrightarrow> json_text v t \<Longrightarrow> members_text kvs u \<Longrightarrow> members_text ((k, v) # kvs) (quoted k @ '':'' @ t @ '','' @ u)"
  "json_text v t \<Longrightarrow> items_text [v] t"
proof -
  have b: "blank []" by (simp add: blank_def)
  show "json_text (JString s) (quoted s)" if "plain_string s" using text_string [OF plain_string_text [OF that]] .
  show "members_text [(k, v)] (quoted k @ '':'' @ t)" if "plain_string k" "json_text v t"
    using text_last_member [OF b plain_string_text [OF that(1)] b b that(2) b] by simp
  show "members_text ((k, v) # kvs) (quoted k @ '':'' @ t @ '','' @ u)" if "plain_string k" "json_text v t" "members_text kvs u"
    using text_member [OF b plain_string_text [OF that(1)] b b that(2) b that(3)] by simp
  show "items_text [v] t" if "json_text v t" using text_last_item [OF b that b] by simp
qed

definition sample_node :: reality_node where
  "sample_node = \<lparr>rn_address = ''203.0.113.7'', rn_port = 443, rn_uuid = sample_uuid, rn_flow = ''xtls-rprx-vision'',
     rn_pbk = ''pbk'', rn_sid = ''0a'', rn_sni = ''example.com''\<rparr>"

abbreviation braced :: "string \<Rightarrow> string" where
  "braced s \<equiv> CHR ''{'' # s @ [CHR ''}'']"

abbreviation bracketed :: "string \<Rightarrow> string" where
  "bracketed s \<equiv> CHR ''['' # s @ [CHR '']'']"

definition sample_user :: json where
  "sample_user = JObject [(''id'', JString sample_uuid), (''flow'', JString ''xtls-rprx-vision'')]"

definition sample_server :: json where
  "sample_server = JObject [(''address'', JString ''203.0.113.7''), (''port'', JNumber (to_f64 False 443 0)), (''users'', JArray [sample_user])]"

definition sample_stream :: json where
  "sample_stream = JObject [(''security'', JString ''reality''),
     (''realitySettings'', JObject [(''serverName'', JString ''example.com''), (''publicKey'', JString ''pbk''), (''shortId'', JString ''0a'')])]"

definition sample_outbound :: json where
  "sample_outbound = JObject [(''protocol'', JString ''vless''), (''settings'', JObject [(''vnext'', JArray [sample_server])]),
     (''streamSettings'', sample_stream)]"

definition sample_config_text :: string where
  "sample_config_text = newline # braced (quoted ''log'' @ '':'' @ ''null'' @ '','' @ quoted ''outbounds'' @ '':'' @ bracketed (braced
     (quoted ''protocol'' @ '':'' @ quoted ''vless'' @ '','' @ quoted ''settings'' @ '':'' @ braced (quoted ''vnext'' @ '':'' @ bracketed (braced
       (quoted ''address'' @ '':'' @ quoted ''203.0.113.7'' @ '','' @ quoted ''port'' @ '':'' @ ''443'' @ '','' @ quoted ''users'' @ '':'' @ bracketed (braced
         (quoted ''id'' @ '':'' @ quoted sample_uuid @ '','' @ quoted ''flow'' @ '':'' @ quoted ''xtls-rprx-vision''))))) @ '','' @
      quoted ''streamSettings'' @ '':'' @ braced (quoted ''security'' @ '':'' @ quoted ''reality'' @ '','' @ quoted ''realitySettings'' @ '':'' @ braced
       (quoted ''serverName'' @ '':'' @ quoted ''example.com'' @ '','' @ quoted ''publicKey'' @ '':'' @ quoted ''pbk'' @ '','' @
        quoted ''shortId'' @ '':'' @ quoted ''0a'')))))"

lemma sample_config_document: "json_document (JObject [(''log'', JNull), (''outbounds'', JArray [sample_outbound])]) sample_config_text"
proof -
  have n: "json_text (JNumber (to_f64 False 443 0)) ''443''"
    using text_number [OF number_text_nat [of 443]] by (simp add: show_nat.simps char_of_def bit_0)
  have b: "blank [newline]" "blank []" by (simp_all add: blank_def json_ws_def newline_def)
  have u: "plain_string sample_uuid" by (simp add: sample_uuid_def)
  have "json_text (JObject [(''log'', JNull), (''outbounds'', JArray [sample_outbound])]) (tl sample_config_text)"
    unfolding sample_config_text_def list.sel sample_outbound_def sample_server_def sample_stream_def sample_user_def
    by (intro text_object text_array text_null n u compact_text) simp_all
  then show ?thesis using b unfolding json_document_def
    by (intro exI [of _ "[newline]"] exI [of _ "tl sample_config_text"] exI [of _ "[]"]) (simp add: sample_config_text_def)
qed


end
