(* ===== verification/Spec2Isabelle.thy ===== *)
theory Spec2Isabelle
  imports UdpAssoc Trojan Tuic Hysteria2 SlideBuffer VisionRead Ss2022 FromProfile VlessHello RealityConnect Importers
begin

text \<open>
  \<^bold>\<open>JammVPN: a verification development.\<close>

  JammVPN is a desktop VPN client. A connection of an application is captured by the platform layer
  or comes in through the local SOCKS5 and HTTP proxy; the decision engine of
  \<open>crates/core/src/split\<close> says whether it goes out directly, through the tunnel or not at all; the
  traffic engine of \<open>crates/net/src/engine.rs\<close> applies the routing rules of
  \<open>crates/core/src/routing\<close>, which consult the geosite and geoip databases of \<open>crates/core/src/geo\<close>
  and the resolver of \<open>crates/net/src/dns\<close>, to choose an outbound; inside the tunnel a domain travels
  as a synthetic address of \<open>crates/net/src/fakeip.rs\<close>; and the outbound speaks one of the proxy
  protocols of \<open>crates/net/src\<close> (VLESS with XTLS-Vision, Trojan, Shadowsocks, TUIC, Hysteria2, SOCKS5,
  HTTP) to a server.

  \<^bold>\<open>Shared theories.\<close>
  \<^item> \<open>Prelude\<close>: machine integers, results with the \<open>?\<close> operator (\<open>rbind\<close>), big-endian bytes, checked
    indexing and slicing (a Rust panic is the error value \<open>Panic\<close>), stream reads, the locales of
    codecs, invariants and state machines.
  \<^item> \<open>RustStr\<close>, \<open>IpAddr\<close>: the parts of \<open>str\<close>, integer parsing, UTF-8 and \<open>std::net\<close> the sources use.
  \<^item> \<open>Chunked\<close>: the locale of incremental decoders, whose result must not depend on how the network
    cuts a stream. It is interpreted by the TLS deframer, the fuzzy deframer and the unpadder.
  \<^item> \<open>Relay\<close>: the contract of the UDP relays, interpreted by TUIC and Hysteria2.
  \<^item> \<open>PollIo\<close>: streams over a transport that gives bytes in arbitrary segments and accepts writes in
    part. \<open>due_reader\<close> and \<open>fallible_writer\<close> are the contracts of the two sides, \<open>frame_reader\<close> (a reader driven
    by stages) and \<open>frame_writer\<close> special cases of them; the Shadowsocks, VLESS encryption and REALITY
    streams interpret them.

  \<^bold>\<open>Components and what is shown of them.\<close>
  \<^item> \<open>Cidr\<close> (\<open>split/cidr.rs\<close>): subnets; parsing, membership, printing.
  \<^item> \<open>Split\<close> (\<open>split/config.rs\<close>, \<open>split/engine.rs\<close>): \<open>decide\<close> refines a priority ladder; with the kill
    switch on and the tunnel down nothing that belongs in the tunnel leaves; local networks and the
    server's own address stay direct.
  \<^item> \<open>Routing\<close> (\<open>routing/domain.rs\<close>, \<open>rule.rs\<close>, \<open>engine.rs\<close>, \<open>preset.rs\<close>): evaluation is first match;
    suffix rules compare whole labels; a rule splits into its address part and the rest.
  \<^item> \<open>FakeIp\<close> (\<open>fakeip.rs\<close>): the two maps stay inverse to each other through every sequence of
    allocations, answers are stable and reversible, nothing is evicted before the pool is used up.
  \<^item> \<open>Protobuf\<close>, \<open>Geo\<close> (\<open>geo/*.rs\<close>): the parsers of the two databases against encoders of the format.
  \<^item> \<open>Base64\<close> (\<open>base64.rs\<close>, \<open>util.rs\<close>): the tolerant decoder inverts the encoder.
  \<^item> \<open>Target\<close> (\<open>target.rs\<close>, \<open>vless.rs\<close>), \<open>Trojan\<close> (\<open>trojan.rs\<close>): request headers are unambiguous; a
    stream of Trojan UDP packets is read back packet by packet.
  \<^item> \<open>Reassembly\<close> (\<open>tuic/udp.rs\<close>, \<open>hysteria2/udp.rs\<close>): the shared fragment table keeps its bounds, only
    gives out packets whose every fragment arrived, and gives out every packet whose fragments arrive
    in time while the table is not flooded.
  \<^item> \<open>Tuic\<close> (\<open>tuic/proto.rs\<close>, \<open>tuic/udp.rs\<close>), \<open>Hysteria2\<close> (\<open>hysteria2/proto.rs\<close>, \<open>hysteria2/udp.rs\<close>):
    datagrams decode without a panic; a payload cut into datagrams and received in any order reaches
    its flow whole; identifiers handed out are fresh.
  \<^item> \<open>Dns\<close> (\<open>dns/message.rs\<close>): queries, and the decoder of answers, which never panics and answers only
    the query it was asked. \<open>Resolver\<close> (\<open>dns/mod.rs\<close>): the cache with one query in flight per name as a
    step relation over interleaved calls; one leader per name, answers backed by the server and by
    their lifetime.
  \<^item> \<open>HttpText\<close> and \<open>Socks\<close> (\<open>engine.rs\<close>, \<open>inbound.rs\<close>, \<open>outbound.rs\<close>, \<open>udp.rs\<close>): both sides of the proxy
    dialogues read what the other wrote; datagram headers.
  \<^item> \<open>Engine\<close> (\<open>engine.rs\<close>, \<open>inbound.rs\<close>): routing refines first match; a blocking rule fails closed when
    names do not resolve; a proxied connection never leaves directly; fake addresses do not change a
    decision; the engine agrees with the rules of the core; a CONNECT request is relayed whole.
    \<open>UdpAssoc\<close> (\<open>udp.rs\<close>): every flow of a UDP association follows the rules.
  \<^item> \<open>SsCrypto\<close>, \<open>SsStream\<close>, \<open>SsUdp\<close>, \<open>Ss2022\<close> (\<open>shadowsocks/*.rs\<close>): nonces count up and do not repeat; the
    two ends of a stream agree for every cut of the bytes and every partial write; a 2022 response is
    only given out after its header was checked; the 64-bit replay window decides exactly as a list of
    all numbers seen.
  \<^item> \<open>VlessMask\<close>, \<open>VlessEnc\<close>, \<open>VlessHello\<close> (\<open>vless_encryption/*.rs\<close>): the header masks of the two ends
    stay in step; the record stream with its change of keys gives the bytes written, for every cut of
    the transport; client and server of the 1-RTT handshake agree on the session keys.
  \<^item> \<open>RealityRecords\<close>, \<open>RealityTls\<close>, \<open>RealityClient\<close>, \<open>RealityStream\<close> (\<open>reality/*.rs\<close>, \<open>reality_transport.rs\<close>): the
    records, the key schedule and the messages of TLS 1.3, the client connection as a state machine
    without a socket, and the stream over it. \<open>RealityAuth\<close>: whatever arrives, a connection completes and
    gives out data only if the server proved that it owns the configured key. \<open>RealityHello\<close>: that server
    reads the ClientHello as intended. \<open>RealityData\<close>: application data is read back as written.
    \<open>RealityShake\<close>, \<open>RealityConnect\<close>: connecting to a server that follows the protocol succeeds for every
    segmentation, with the same keys at both ends.
  \<^item> \<open>Links\<close> (\<open>parse/uri.rs\<close>, \<open>parse/link.rs\<close>, \<open>parse/awg.rs\<close>, the list of links of
    \<open>parse/subscription.rs\<close>) and \<open>FromProfile\<close> (\<open>from_profile.rs\<close>): a link that was written down is imported
    as the outbound it describes, and whatever profile was imported, its outbound has the shape its
    protocol promises.
  \<^item> \<open>Json\<close> (\<open>json.rs\<close>), \<open>Importers\<close> (\<open>parse/singbox.rs\<close>, \<open>parse/xray.rs\<close>, \<open>parse/clash.rs\<close>,
    \<open>parse/subscription.rs\<close>): the reader returns the value a text stands for, however it is written; the nodes of a
    subscription in Xray's format become the outbounds they describe. The sing-box importer forgets that a
    node uses REALITY (\<open>imported_reality_is_plain_tcp\<close>).
  \<^item> \<open>AwgObfs\<close> (\<open>wireguard/obfs.rs\<close>, the parsers of \<open>wireguard/config.rs\<close>): two AmneziaWG ends undo each
    other's disguise, junk packets have the configured number and sizes.
  \<^item> \<open>SlideBuffer\<close> (\<open>slide_buffer.rs\<close>, \<open>reality/reality_reader_writer.rs\<close>): the buffer with its moving
    window refines a queue of bytes; no sequence of operations within the capacity panics.
  \<^item> \<open>TlsDeframer\<close>, \<open>FuzzyDeframer\<close> (\<open>vision/tls_deframer.rs\<close>, \<open>vision/tls_handshake_util.rs\<close>,
    \<open>vision/tls_fuzzy_deframer.rs\<close>): the records found do not depend on the chunks the bytes come in.
  \<^item> \<open>VisionPad\<close> (\<open>vision/vision_pad.rs\<close>, \<open>vision/vision_unpad.rs\<close>): the unpadder gives back what was
    padded, for every cut of the stream behind the identifier.
  \<^item> \<open>VisionFilter\<close> (\<open>buf_reader.rs\<close>, \<open>vision/vision_tls_util.rs\<close>, \<open>vision/vision_filter.rs\<close>): direct
    copying is only allowed after a TLS 1.3 ServerHello with an accepted cipher suite.
  \<^item> \<open>VisionStream\<close>, \<open>VisionRead\<close> (\<open>vision/vision_stream.rs\<close>): the write path and the handler of
    decrypted bytes, composed of the parts above: what the application wrote is what the peer reads,
    through the switch to direct copying too.

  \<^bold>\<open>Loops and fuel.\<close> Loops over bounded data are \<open>fun\<close> or \<open>function\<close> with a termination proof (the
  deframers, the unpadder and the JSON reader by the length of what is left, the Shadowsocks readers by the bytes that
  have arrived). The key derivation of Shadowsocks is a \<open>partial_function\<close>, because it ends only if a
  digest is not empty; that it ends is a theorem. No definition needs fuel.

  \<^bold>\<open>Parameters.\<close> Code outside the repository is an argument: SHA-224, the random numbers of the
  padding, \<open>memmem\<close> of the memchr crate (with its documented specification; \<open>naive_find\<close> meets it), the
  clock of the reassembly, the TLS session and the socket below a Vision stream, the answers of the
  DNS server, whether an outbound can be dialled and what the dialled peer sends, the MAC of
  AmneziaWG, the hashes and ciphers of Shadowsocks (the record \<open>ss_prims\<close> with the laws \<open>prims_ok\<close>; \<open>sample_prims\<close> meets
  them), the hashes, ciphers and key agreement of the VLESS encryption (\<open>vless_prims\<close>, \<open>kex_prims\<close>), and those of
  REALITY with its X.509 reader (\<open>tls_prims\<close>, with the laws \<open>aead_law\<close>, \<open>open_law\<close>, \<open>kex_law\<close> and \<open>hash_law\<close>;
  \<open>sample_tls\<close> meets them), the base64 crate, random numbers and the clock.

  \<^bold>\<open>Not modelled.\<close> Code that is mostly calls of third-party crates: the WireGuard tunnel (boringtun), the
  user-space network stack (smoltcp), the QUIC connections of TUIC and Hysteria2 (quinn, rustls, h3), the generator of REALITY
  certificates (rcgen); sockets, listeners, timers and the spawning of tasks in
  \<open>engine.rs\<close> and \<open>outbound.rs\<close>; polling in \<open>vision_stream.rs\<close> and the padding over a plain stream
  (\<open>vision_plain_stream.rs\<close>); the configuration file (serde);
  the Windows drivers; the controller, the command line and the user interface. Text of error messages is shortened and
  logging is left out.
\<close>

end
